(* ===== verification/Prelude.thy ===== *)
theory Prelude
  imports Main "HOL-Library.Code_Target_Nat" "HOL-Library.Char_ord" "HOL-Library.List_Lexorder"
    "HOL-Library.Product_Lexorder" "HOL-Library.Option_ord"
begin

text \<open>
  The shared vocabulary of the development: computations that may stop with a C++ exception
  or a failed assertion (\<open>res\<close>), the ordered-vector operations the checker uses for its
  step sets and waiter lists (\<open>std::lower_bound\<close> with insert, erase and binary search), and
  decimal text. Facts that the component theories hand to the simplifier live in the
  collections declared here.
\<close>

named_theorems state_ops \<open>definitions of the primitive state updates\<close>
named_theorems res_simps \<open>equations of the result monad\<close>

section \<open>Computations that may fail\<close>

text \<open>
  The exceptions of the source as values. \<open>Out_Of_Range\<close> is what \<open>.at()\<close> throws,
  \<open>Logic_Error\<close>, \<open>Invalid_Argument\<close> and \<open>Overflow_Error\<close> are the standard exceptions with
  their message, \<open>Assert_Failed\<close> is a failed \<open>assert\<close>, \<open>Parse_Error\<close> is \<open>cli::ParseError\<close>
  with its line, \<open>Usage_Error\<close> is \<open>UsageError\<close>, \<open>Runtime_Error\<close> is \<open>std::runtime_error\<close>, and \<open>Out_Of_Fuel\<close> marks a
  recursion bound of the model that was too small.
\<close>

datatype exn =
    Out_Of_Range
  | Logic_Error string
  | Invalid_Argument string
  | Overflow_Error string
  | Assert_Failed string
  | Parse_Error nat string
  | Usage_Error string
  | Runtime_Error string
  | Out_Of_Fuel

type_synonym 'a res = "exn + 'a"

definition res_bind :: "'a res \<Rightarrow> ('a \<Rightarrow> 'b res) \<Rightarrow> 'b res" where
  "res_bind m f = (case m of Inl e \<Rightarrow> Inl e | Inr x \<Rightarrow> f x)"

definition guarded :: "bool \<Rightarrow> exn \<Rightarrow> 'a res \<Rightarrow> 'a res" where
  "guarded b e m = (if b then m else Inl e)"

lemma res_bind_Inr [simp, res_simps]: "res_bind (Inr x) f = f x"
  by (simp add: res_bind_def)

lemma res_bind_Inl [simp, res_simps]: "res_bind (Inl e) f = Inl e"
  by (simp add: res_bind_def)

lemma res_bind_eq_Inr [res_simps]:
  "res_bind m f = Inr y \<longleftrightarrow> (\<exists>x. m = Inr x \<and> f x = Inr y)"
  by (cases m) (auto simp: res_bind_def)

lemma guarded_True [simp, res_simps]: "guarded True e m = m"
  by (simp add: guarded_def)

lemma guarded_False [simp, res_simps]: "guarded False e m = Inl e"
  by (simp add: guarded_def)

lemma guarded_eq_Inr [res_simps]: "guarded b e m = Inr y \<longleftrightarrow> b \<and> m = Inr y"
  by (simp add: guarded_def)

text \<open>A \<open>for\<close> loop whose body may throw; the accumulator is the state it mutates.\<close>

fun res_fold :: "('a \<Rightarrow> 's \<Rightarrow> 's res) \<Rightarrow> 'a list \<Rightarrow> 's \<Rightarrow> 's res" where
  "res_fold f [] s = Inr s"
| "res_fold f (x # xs) s = res_bind (f x s) (res_fold f xs)"

lemma res_fold_append:
  "res_fold f (xs @ ys) s = res_bind (res_fold f xs s) (res_fold f ys)"
  by (induction xs arbitrary: s) (auto simp: res_bind_def split: sum.splits)

lemma res_fold_invariant:
  assumes "res_fold f xs s = Inr t" and "I s"
    and "\<And>x a b. x \<in> set xs \<Longrightarrow> I a \<Longrightarrow> f x a = Inr b \<Longrightarrow> I b"
  shows "I t"
  using assms by (induction xs arbitrary: s) (auto simp: res_bind_eq_Inr)

fun res_map :: "('a \<Rightarrow> 'b res) \<Rightarrow> 'a list \<Rightarrow> 'b list res" where
  "res_map f [] = Inr []"
| "res_map f (x # xs) =
     res_bind (f x) (\<lambda>y. res_bind (res_map f xs) (\<lambda>ys. Inr (y # ys)))"

lemma res_map_Inr_length: "res_map f xs = Inr ys \<Longrightarrow> length ys = length xs"
  by (induction xs arbitrary: ys) (auto simp: res_bind_eq_Inr)

lemma res_map_Inr_nth:
  "res_map f xs = Inr ys \<Longrightarrow> i < length xs \<Longrightarrow> f (xs ! i) = Inr (ys ! i)"
  by (induction xs arbitrary: ys i) (auto simp: res_bind_eq_Inr nth_Cons split: nat.splits)

section \<open>Vectors kept in ascending order\<close>

text \<open>
  \<open>std::lower_bound\<close> on an ascending vector splits it into the elements below the key
  and the rest. \<open>vec_insert\<close> inserts a key that is absent, \<open>vec_remove\<close> erases a key
  that is present.
\<close>

fun vec_insert :: "'a::linorder \<Rightarrow> 'a list \<Rightarrow> 'a list" where
  "vec_insert x [] = [x]"
| "vec_insert x (y # ys) =
     (if x < y then x # y # ys else if x = y then y # ys else y # vec_insert x ys)"

fun vec_remove :: "'a::linorder \<Rightarrow> 'a list \<Rightarrow> 'a list" where
  "vec_remove x [] = []"
| "vec_remove x (y # ys) =
     (if x < y then y # ys else if x = y then ys else y # vec_remove x ys)"

definition ascending :: "'a::linorder list \<Rightarrow> bool" where
  "ascending xs = sorted_wrt (<) xs"

lemma ascending_Nil [simp]: "ascending []"
  by (simp add: ascending_def)

lemma ascending_Cons [simp]:
  "ascending (x # xs) \<longleftrightarrow> (\<forall>y\<in>set xs. x < y) \<and> ascending xs"
  by (simp add: ascending_def)

lemma ascending_distinct: "ascending xs \<Longrightarrow> distinct xs"
  by (induction xs) auto

lemma set_vec_insert [simp]: "set (vec_insert x xs) = insert x (set xs)"
  by (induction xs) auto

lemma ascending_vec_insert [simp]: "ascending xs \<Longrightarrow> ascending (vec_insert x xs)"
  by (induction xs) auto

lemma set_vec_remove [simp]: "ascending xs \<Longrightarrow> set (vec_remove x xs) = set xs - {x}"
  by (induction xs) auto

lemma set_vec_remove_subset: "set (vec_remove x xs) \<subseteq> set xs"
  by (induction xs) auto

lemma ascending_vec_remove [simp]: "ascending xs \<Longrightarrow> ascending (vec_remove x xs)"
proof (induction xs)
  case (Cons y ys)
  then show ?case using set_vec_remove_subset [of x ys] by auto
qed simp

lemma ascending_unique: "ascending xs \<Longrightarrow> ascending ys \<Longrightarrow> set xs = set ys \<Longrightarrow> xs = ys"
  unfolding ascending_def by (rule strict_sorted_equal)

lemma ascending_sort_distinct: "ascending xs \<Longrightarrow> sort xs = xs"
  unfolding ascending_def by (simp add: sorted_sort_id strict_sorted_iff)

lemma ascending_insert_absent:
  "ascending xs \<Longrightarrow> x \<notin> set xs \<Longrightarrow> length (vec_insert x xs) = Suc (length xs)"
  by (induction xs) auto

section \<open>Decimal text\<close>

text \<open>What \<open>std::ostream\<close> writes for an unsigned and for a signed integer.\<close>

definition digit_char :: "nat \<Rightarrow> char" where
  "digit_char d = char_of (48 + d)"

function nat_text :: "nat \<Rightarrow> string" where
  "nat_text n =
     (if n < 10 then [digit_char n] else nat_text (n div 10) @ [digit_char (n mod 10)])"
  by pat_completeness auto
termination
  by (relation "measure id") auto

declare nat_text.simps [simp del]

definition int_text :: "int \<Rightarrow> string" where
  "int_text i = (if i < 0 then ''-'' @ nat_text (nat (- i)) else nat_text (nat i))"

lemma nat_text_nonempty [simp]: "nat_text n \<noteq> []"
  by (subst nat_text.simps) simp

section \<open>Lists indexed by thread\<close>

lemma list_all_update:
  "list_all P xs \<Longrightarrow> P x \<Longrightarrow> list_all P (xs[i := x])"
  by (auto simp: list_all_iff dest: set_update_subset_insert [THEN subsetD])

lemma nth_list_update_if:
  "i < length xs \<Longrightarrow> (xs[j := x]) ! i = (if i = j then x else xs ! i)"
  by (simp add: nth_list_update)

end
