(* ===== verification/Ordered_Map.thy ===== *)
theory Ordered_Map
  imports Prelude
begin

text \<open>
  \<open>std::map\<close> and \<open>std::set\<close> as finite maps whose entries are listed in ascending key
  order. The type carries the ordering invariant, so two maps with the same lookups are
  equal, as they are for the source's defaulted \<open>operator==\<close>, and the entry list is the
  iteration order the checker's fingerprints and reports rely on.
\<close>

section \<open>Ascending association lists\<close>

fun al_update :: "'k::linorder \<Rightarrow> 'v \<Rightarrow> ('k \<times> 'v) list \<Rightarrow> ('k \<times> 'v) list" where
  "al_update k v [] = [(k, v)]"
| "al_update k v ((j, w) # es) =
     (if k < j then (k, v) # (j, w) # es
      else if k = j then (k, v) # es else (j, w) # al_update k v es)"

fun al_delete :: "'k::linorder \<Rightarrow> ('k \<times> 'v) list \<Rightarrow> ('k \<times> 'v) list" where
  "al_delete k [] = []"
| "al_delete k ((j, w) # es) = (if k = j then es else (j, w) # al_delete k es)"

fun al_lookup :: "('k \<times> 'v) list \<Rightarrow> 'k \<Rightarrow> 'v option" where
  "al_lookup [] k = None"
| "al_lookup ((j, w) # es) k = (if k = j then Some w else al_lookup es k)"

lemma al_lookup_map_of: "al_lookup es = map_of es"
  by (rule ext, induct es) auto

lemma fst_al_update: "fst ` set (al_update k v es) = insert k (fst ` set es)"
  by (induction k v es rule: al_update.induct) (auto simp: image_Un insert_commute split: if_splits)

lemma ascending_al_update:
  "ascending (map fst es) \<Longrightarrow> ascending (map fst (al_update k v es))"
proof (induction es)
  case (Cons e es)
  obtain j w where [simp]: "e = (j, w)" by (cases e)
  have "\<forall>y\<in>fst ` set (al_update k v es). j < y" if "\<not> k < j" "k \<noteq> j"
    using Cons.prems that by (auto simp: fst_al_update)
  then show ?case using Cons by auto
qed simp

lemma set_al_delete: "set (al_delete k es) \<subseteq> set es"
  by (induction k es rule: al_delete.induct) (auto split: if_splits)

lemma ascending_al_delete:
  "ascending (map fst es) \<Longrightarrow> ascending (map fst (al_delete k es))"
proof (induction es)
  case (Cons e es)
  then show ?case using set_al_delete [of k es] by (cases e) auto
qed simp

lemma map_of_al_update: "map_of (al_update k v es) = (map_of es)(k \<mapsto> v)"
  by (induction es) auto

lemma map_of_None_below: "\<forall>y\<in>fst ` set es. k < y \<Longrightarrow> map_of es (k::'k::linorder) = None"
  by (induction es) auto

lemma map_of_al_delete:
  "ascending (map fst es) \<Longrightarrow> map_of (al_delete k es) = (map_of es)(k := None)"
proof (induction es)
  case (Cons e es)
  obtain j w where [simp]: "e = (j, w)" by (cases e)
  have "map_of es j = None" using Cons.prems by (intro map_of_None_below) auto
  then show ?case using Cons by (auto simp: fun_eq_iff)
qed simp

lemma map_of_ascending_eq:
  assumes "ascending (map fst xs)" "ascending (map fst ys)" "map_of xs = map_of ys"
  shows "xs = ys"
proof -
  have d: "distinct (map fst xs)" "distinct (map fst ys)"
    using assms(1,2) by (auto intro: ascending_distinct)
  then have same: "set xs = set ys" using assms(3) by (simp add: map_of_inject_set)
  have "inj_on fst (set xs \<union> set ys)" using d same by (simp add: distinct_map)
  moreover have "sorted (map fst xs)" "sorted (map fst ys)"
    using assms(1,2) by (simp_all add: ascending_def strict_sorted_iff)
  ultimately show ?thesis using d same by (intro map_sorted_distinct_set_unique)
qed

section \<open>The map type\<close>

typedef (overloaded) ('k::linorder, 'v) omap = "{es :: ('k \<times> 'v) list. ascending (map fst es)}"
  morphisms mentries Omap
  by (rule exI [of _ "[]"]) simp

setup_lifting type_definition_omap

lift_definition mempty :: "('k::linorder, 'v) omap" is "[]" by simp

lift_definition mlookup :: "('k::linorder, 'v) omap \<Rightarrow> 'k \<Rightarrow> 'v option" is al_lookup .

lift_definition mupdate :: "'k::linorder \<Rightarrow> 'v \<Rightarrow> ('k, 'v) omap \<Rightarrow> ('k, 'v) omap"
  is al_update by (rule ascending_al_update)

lift_definition mdelete :: "'k::linorder \<Rightarrow> ('k, 'v) omap \<Rightarrow> ('k, 'v) omap"
  is al_delete by (rule ascending_al_delete)


definition mkeys :: "('k::linorder, 'v) omap \<Rightarrow> 'k list" where
  "mkeys m = map fst (mentries m)"

definition msize :: "('k::linorder, 'v) omap \<Rightarrow> nat" where
  "msize m = length (mentries m)"

definition mget :: "'v \<Rightarrow> ('k::linorder, 'v) omap \<Rightarrow> 'k \<Rightarrow> 'v" where
  "mget d m k = (case mlookup m k of None \<Rightarrow> d | Some v \<Rightarrow> v)"

text \<open>\<open>emplace\<close> keeps an entry that is there; \<open>operator[]\<close> reads with a default it inserts.\<close>

definition memplace :: "'k::linorder \<Rightarrow> 'v \<Rightarrow> ('k, 'v) omap \<Rightarrow> ('k, 'v) omap" where
  "memplace k v m = (case mlookup m k of None \<Rightarrow> mupdate k v m | Some _ \<Rightarrow> m)"

lemma mlookup_mempty [simp]: "mlookup mempty k = None"
  by transfer simp

lemma mlookup_mupdate [simp]: "mlookup (mupdate k v m) j = (if j = k then Some v else mlookup m j)"
  by transfer (simp add: al_lookup_map_of map_of_al_update)

lemma mlookup_mdelete [simp]: "mlookup (mdelete k m) j = (if j = k then None else mlookup m j)"
  by transfer (simp add: al_lookup_map_of map_of_al_delete)

lemma mlookup_memplace [simp]:
  "mlookup (memplace k v m) j = (if j = k then Some (mget v m k) else mlookup m j)"
  by (auto simp: memplace_def mget_def split: option.splits)

lemma mget_mupdate [simp]: "mget d (mupdate k v m) j = (if j = k then v else mget d m j)"
  by (simp add: mget_def)

lemma mget_mdelete [simp]: "mget d (mdelete k m) j = (if j = k then d else mget d m j)"
  by (simp add: mget_def)

lemma mget_mempty [simp]: "mget d mempty k = d"
  by (simp add: mget_def)

lemma mget_memplace [simp]:
  "mget d (memplace k d' m) j = (if j = k then mget d' m k else mget d m j)"
  by (simp add: mget_def)

lemma mlookup_map_of: "mlookup m = map_of (mentries m)"
  by transfer (rule al_lookup_map_of)

lemma omap_eqI: "(\<And>k. mlookup m k = mlookup n k) \<Longrightarrow> m = n"
  by transfer (auto intro!: map_of_ascending_eq simp: al_lookup_map_of fun_eq_iff)

lemma omap_eq_iff: "m = n \<longleftrightarrow> (\<forall>k. mlookup m k = mlookup n k)"
  by (auto intro: omap_eqI)

lemma ascending_mkeys [simp]: "ascending (mkeys m)"
  unfolding mkeys_def by transfer

lemma ascending_mentries [simp]: "ascending (map fst (mentries m))"
  by transfer

lemma distinct_mentries [simp]: "distinct (map fst (mentries m))"
  by (rule ascending_distinct) simp

lemma mentries_iff: "(k, v) \<in> set (mentries m) \<longleftrightarrow> mlookup m k = Some v"
  by (simp add: mlookup_map_of)

lemma set_mkeys: "k \<in> set (mkeys m) \<longleftrightarrow> (\<exists>v. mlookup m k = Some v)"
  by (force simp: mkeys_def mentries_iff [symmetric])

lemma mentries_mempty [simp]: "mentries mempty = []"
  by transfer simp

lemma mentries_empty_iff: "mentries m = [] \<longleftrightarrow> m = mempty"
  by transfer simp

lemma mupdate_commute:
  "j \<noteq> k \<Longrightarrow> mupdate j v (mupdate k w m) = mupdate k w (mupdate j v m)"
  by (rule omap_eqI) simp

lemma mupdate_twice [simp]: "mupdate k v (mupdate k w m) = mupdate k v m"
  by (rule omap_eqI) simp

lemma mupdate_same: "mlookup m k = Some v \<Longrightarrow> mupdate k v m = m"
  by (rule omap_eqI) simp

lemma mdelete_mupdate_same [simp]: "mdelete k (mupdate k v m) = mdelete k m"
  by (rule omap_eqI) simp

lemma mdelete_absent: "mlookup m k = None \<Longrightarrow> mdelete k m = m"
  by (rule omap_eqI) simp

text \<open>Sums over the entries.\<close>

lemma sum_al_update:
  "ascending (map fst es) \<Longrightarrow>
   sum_list (map (\<lambda>e. f (snd e)) (al_update k v es)) + (case al_lookup es k of None \<Rightarrow> 0 | Some w \<Rightarrow> f w) =
   sum_list (map (\<lambda>e. f (snd e)) es) + (f v :: nat)"
proof (induction es)
  case (Cons e es)
  obtain j w where e: "e = (j, w)" by (cases e)
  have "al_lookup es k = None" if "k < j"
  proof -
    have "\<forall>y\<in>fst ` set es. k < y" using Cons.prems that by (auto simp: e intro: less_trans)
    then show ?thesis by (simp add: al_lookup_map_of map_of_None_below)
  qed
  then show ?case using Cons by (auto simp: e)
qed simp

lemma sum_al_delete:
  "sum_list (map (\<lambda>e. f (snd e)) (al_delete k es)) + (case al_lookup es k of None \<Rightarrow> 0 | Some w \<Rightarrow> f w) =
   (sum_list (map (\<lambda>e. f (snd e)) es) :: nat)"
  by (induction k es rule: al_delete.induct) auto

lemma sum_mentries_update:
  "sum_list (map (\<lambda>e. f (snd e)) (mentries (mupdate k v m))) +
     (case mlookup m k of None \<Rightarrow> 0 | Some w \<Rightarrow> f w) =
   sum_list (map (\<lambda>e. f (snd e)) (mentries m)) + (f v :: nat)"
  by transfer (rule sum_al_update)

lemma sum_mentries_delete:
  "sum_list (map (\<lambda>e. f (snd e)) (mentries (mdelete k m))) +
     (case mlookup m k of None \<Rightarrow> 0 | Some w \<Rightarrow> f w) =
   (sum_list (map (\<lambda>e. f (snd e)) (mentries m)) :: nat)"
  by transfer (rule sum_al_delete)

instantiation omap :: (linorder, equal) equal
begin

definition equal_omap :: "('a, 'b) omap \<Rightarrow> ('a, 'b) omap \<Rightarrow> bool" where
  "equal_omap m n = (mentries m = mentries n)"

instance
  by standard (simp add: equal_omap_def mentries_inject)

end

section \<open>Ordered sets\<close>

type_synonym 'a oset = "('a, unit) omap"

definition omember :: "'a::linorder \<Rightarrow> 'a oset \<Rightarrow> bool" where
  "omember x s = (mlookup s x \<noteq> None)"

definition oinsert :: "'a::linorder \<Rightarrow> 'a oset \<Rightarrow> 'a oset" where
  "oinsert x s = mupdate x () s"

definition oremove :: "'a::linorder \<Rightarrow> 'a oset \<Rightarrow> 'a oset" where
  "oremove x s = mdelete x s"

definition oinsert_all :: "'a::linorder list \<Rightarrow> 'a oset \<Rightarrow> 'a oset" where
  "oinsert_all xs s = fold oinsert xs s"

lemma omember_mempty [simp]: "\<not> omember x mempty"
  by (simp add: omember_def)

lemma omember_oinsert [simp]: "omember x (oinsert y s) \<longleftrightarrow> x = y \<or> omember x s"
  by (simp add: omember_def oinsert_def)

lemma omember_oremove [simp]: "omember x (oremove y s) \<longleftrightarrow> x \<noteq> y \<and> omember x s"
  by (simp add: omember_def oremove_def)

lemma omember_oinsert_all [simp]: "omember x (oinsert_all xs s) \<longleftrightarrow> x \<in> set xs \<or> omember x s"
  unfolding oinsert_all_def by (induction xs arbitrary: s) auto

lemma set_oelems [simp]: "x \<in> set (mkeys s) \<longleftrightarrow> omember x (s :: 'a::linorder oset)"
  by (auto simp: set_mkeys omember_def)

lemma oset_eqI: "(\<And>x. omember x s = omember x t) \<Longrightarrow> s = (t :: 'a::linorder oset)"
  by (rule omap_eqI) (metis omember_def option.exhaust old.unit.exhaust)

lemma mentries_oset_empty_iff: "s = (mempty :: 'a::linorder oset) \<longleftrightarrow> (\<forall>x. \<not> omember x s)"
  by (metis omember_mempty oset_eqI)

lemma msize_card: "msize s = card {x. omember x (s :: 'a::linorder oset)}"
proof -
  have "msize s = length (mkeys s)" by (simp add: msize_def mkeys_def)
  also have "\<dots> = card (set (mkeys s))"
    by (rule distinct_card [symmetric]) (rule ascending_distinct, simp)
  also have "set (mkeys s) = {x. omember x s}" by auto
  finally show ?thesis .
qed

lemma finite_omember [simp]: "finite {x. omember x (s :: 'a::linorder oset)}"
proof -
  have "{x. omember x s} = set (mkeys s)" by auto
  then show ?thesis by simp
qed

lemma msize_oinsert:
  "msize (oinsert x s) = (if omember x s then msize s else Suc (msize s))"
proof -
  have "{y. omember y (oinsert x s)} = insert x {y. omember y s}" by auto
  then show ?thesis by (simp add: msize_card insert_absorb)
qed

lemma msize_mempty [simp]: "msize mempty = 0"
  by (simp add: msize_def)

lemma msize_zero_iff: "msize m = 0 \<longleftrightarrow> m = mempty"
  by (simp add: msize_def mentries_empty_iff)

end
