(* ===== verification/Text.thy ===== *)
theory Text
  imports Prelude
begin

text \<open>
  Text as the command line reads and writes it (src/src/cli/program_parser.cpp, \<open>trim\<close>,
  \<open>strip_comment\<close>, \<open>split_words\<close>, \<open>parse_u32_token\<close>; \<open>std::getline\<close> and \<open>std::stoll\<close> of the
  standard library): a string is a list of characters. The lemmas say how words are found in a
  line and that decimal text is read back.
\<close>

section \<open>Lines and words\<close>

text \<open>The characters \<open>trim\<close> removes, and those that separate words (\<open>std::isspace\<close>).\<close>

definition is_blank :: "char \<Rightarrow> bool" where
  "is_blank c = (c = CHR 0x20 \<or> c = CHR 0x09 \<or> c = CHR 0x0D \<or> c = CHR 0x0A)"

definition is_space :: "char \<Rightarrow> bool" where
  "is_space c = (is_blank c \<or> c = CHR 0x0B \<or> c = CHR 0x0C)"

definition trim :: "string \<Rightarrow> string" where
  "trim input = rev (dropWhile is_blank (rev (dropWhile is_blank input)))"

definition strip_comment :: "string \<Rightarrow> string" where
  "strip_comment input = takeWhile (\<lambda>c. c \<noteq> CHR 0x23) input"

text \<open>\<open>stream >> word\<close> until it fails; the first argument is the word being read.\<close>

fun words_from :: "string \<Rightarrow> string \<Rightarrow> string list" where
  "words_from word [] = (if word = [] then [] else [word])"
| "words_from word (c # cs) =
     (if is_space c then (if word = [] then words_from [] cs else word # words_from [] cs)
      else words_from (word @ [c]) cs)"

definition split_words :: "string \<Rightarrow> string list" where
  "split_words input = words_from [] input"

text \<open>\<open>std::getline\<close> until it fails.\<close>

fun lines_from :: "string \<Rightarrow> string \<Rightarrow> string list" where
  "lines_from line [] = (if line = [] then [] else [line])"
| "lines_from line (c # cs) =
     (if c = CHR 0x0A then line # lines_from [] cs else lines_from (line @ [c]) cs)"

definition get_lines :: "string \<Rightarrow> string list" where
  "get_lines text = lines_from [] text"

section \<open>Numbers\<close>

definition is_digit :: "char \<Rightarrow> bool" where
  "is_digit c = (CHR ''0'' \<le> c \<and> c \<le> CHR ''9'')"

definition digit_value :: "char \<Rightarrow> nat" where
  "digit_value c = of_char c - 48"

definition quoted :: "string \<Rightarrow> string" where
  "quoted name = CHR 0x27 # name @ [CHR 0x27]"

definition kMaxU32 :: nat where
  "kMaxU32 = 4294967295"

fun u32_from :: "string \<Rightarrow> nat \<Rightarrow> string \<Rightarrow> nat \<Rightarrow> string \<Rightarrow> nat res" where
  "u32_from token line description value [] = Inr value"
| "u32_from token line description value (c # cs) =
     (if \<not> is_digit c
      then Inl (Parse_Error line (''invalid '' @ description @ '' '' @ quoted token))
      else let value = value * 10 + digit_value c in
        if value > kMaxU32 then Inl (Parse_Error line (description @ '' is too large''))
        else u32_from token line description value cs)"

definition parse_u32_token :: "string \<Rightarrow> nat \<Rightarrow> string \<Rightarrow> nat res" where
  "parse_u32_token token line description =
     (if token = [] then Inl (Parse_Error line (''expected '' @ description))
      else u32_from token line description 0 token)"

definition decimal :: "string \<Rightarrow> nat" where
  "decimal digits = foldl (\<lambda>v c. v * 10 + digit_value c) 0 digits"

text \<open>
  \<open>std::stoll\<close> in base ten: the value and the number of characters read. White space and one
  sign may come before the digits.
\<close>

definition stoll :: "string \<Rightarrow> (int \<times> nat) res" where
  "stoll s =
     (let rest = dropWhile is_space s;
          negative = (case rest of c # _ \<Rightarrow> c = CHR ''-'' | [] \<Rightarrow> False);
          signed = (case rest of c # _ \<Rightarrow> c = CHR ''-'' \<or> c = CHR ''+'' | [] \<Rightarrow> False);
          body = (if signed then tl rest else rest);
          digits = takeWhile is_digit body;
          value = (if negative then - int (decimal digits) else int (decimal digits)) in
      if digits = [] then Inl (Invalid_Argument ''stoll'')
      else if value < - (2 ^ 63) \<or> value \<ge> 2 ^ 63 then Inl Out_Of_Range
      else Inr (value, length s - length body + length digits))"

section \<open>Words of a line\<close>

text \<open>A token is what a word can be: not empty, without separators and comment marks.\<close>

definition token_char :: "char \<Rightarrow> bool" where
  "token_char c \<longleftrightarrow> \<not> is_space c \<and> c \<noteq> CHR 0x23"

definition token :: "string \<Rightarrow> bool" where
  "token w \<longleftrightarrow> w \<noteq> [] \<and> list_all token_char w"

lemma blank_space: "is_blank c \<Longrightarrow> is_space c"
  by (simp add: is_space_def)

lemma words_from_word: "list_all token_char w \<Longrightarrow> words_from v (w @ cs) = words_from (v @ w) cs"
  by (induction w arbitrary: v) (simp_all add: token_char_def)

lemma split_words_token [simp]: "token w \<Longrightarrow> split_words w = [w]"
  using words_from_word [of w "[]" "[]"] by (simp add: split_words_def token_def)

lemma split_words_Cons [simp]:
  "token w \<Longrightarrow> is_space c \<Longrightarrow> split_words (w @ c # cs) = w # split_words cs"
  using words_from_word [of w "[]" "c # cs"] by (simp add: split_words_def token_def)

lemma split_words_space [simp]: "is_space c \<Longrightarrow> split_words (c # cs) = split_words cs"
  by (simp add: split_words_def)

lemma split_words_Nil [simp]: "split_words [] = []"
  by (simp add: split_words_def)

lemma words_from_blank_end: "list_all is_space bs \<Longrightarrow> words_from w (s @ bs) = words_from w s"
proof (induction s arbitrary: w)
  case Nil
  have "words_from w bs = (if w = [] then [] else [w])" if "list_all is_space bs" for w
    using that by (induction bs arbitrary: w) simp_all
  then show ?case using Nil by simp
qed simp

lemma split_words_trim [simp]: "split_words (trim s) = split_words s"
proof -
  have front: "split_words (dropWhile is_blank s) = split_words s" for s
    by (induction s) (simp_all add: blank_space)
  define t where "t = dropWhile is_blank s"
  have "t = rev (dropWhile is_blank (rev t)) @ rev (takeWhile is_blank (rev t))"
    by (metis rev_append rev_rev_ident takeWhile_dropWhile_id)
  moreover have "list_all is_space (rev (takeWhile is_blank (rev t)))"
    by (auto simp: list_all_iff intro: blank_space dest: set_takeWhileD)
  ultimately have "split_words (rev (dropWhile is_blank (rev t))) = split_words t"
    using words_from_blank_end unfolding split_words_def by metis
  then show ?thesis using front by (simp add: trim_def t_def)
qed

lemma words_are_tokens:
  assumes "list_all (\<lambda>c. c \<noteq> CHR 0x23) s"
  shows "\<forall>w\<in>set (split_words s). token w"
proof -
  have "\<forall>w\<in>set (words_from v s). token w" if "list_all token_char v" for v
    using assms that
  proof (induction s arbitrary: v)
    case (Cons c s)
    show ?case
    proof (cases "is_space c")
      case True
      then show ?thesis using Cons.IH [of "[]"] Cons.prems by (auto simp: token_def)
    next
      case False
      then have "token_char c" using Cons.prems by (simp add: token_char_def)
      then have "list_all token_char (v @ [c])" using Cons.prems(2) by simp
      then show ?thesis using Cons.IH [of "v @ [c]"] Cons.prems False by simp
    qed
  qed (auto simp: token_def)
  from this [of "[]"] show ?thesis by (simp add: split_words_def)
qed

lemma strip_comment_clean [simp]: "list_all (\<lambda>c. c \<noteq> CHR 0x23) (strip_comment s)"
  by (auto simp: strip_comment_def list_all_iff dest: set_takeWhileD)

lemma strip_comment_id: "list_all (\<lambda>c. c \<noteq> CHR 0x23) s \<Longrightarrow> strip_comment s = s"
  by (simp add: strip_comment_def list_all_iff takeWhile_eq_all_conv)

lemma set_trim: "set (trim s) \<subseteq> set s"
  by (auto simp: trim_def dest!: set_dropWhileD)

lemma token_no_comment: "token w \<Longrightarrow> list_all (\<lambda>c. c \<noteq> CHR 0x23) w"
  by (auto simp: token_def token_char_def list_all_iff)

text \<open>Lines that hold no line feed come back as they were written.\<close>

lemma lines_from_line:
  "list_all (\<lambda>c. c \<noteq> CHR 0x0A) l \<Longrightarrow> lines_from v (l @ CHR 0x0A # cs) = (v @ l) # lines_from [] cs"
  by (induction l arbitrary: v) simp_all

lemma get_lines_Nil [simp]: "get_lines [] = []"
  by (simp add: get_lines_def)

lemma get_lines_line [simp]:
  "list_all (\<lambda>c. c \<noteq> CHR 0x0A) l \<Longrightarrow> get_lines (l @ CHR 0x0A # cs) = l # get_lines cs"
  using lines_from_line [of l "[]" cs] by (simp add: get_lines_def)

lemma token_one_line: "token w \<Longrightarrow> list_all (\<lambda>c. c \<noteq> CHR 0x0A) w"
  by (auto simp: token_def token_char_def list_all_iff is_space_def is_blank_def)

section \<open>Decimal text is read back\<close>

lemma of_char_digit: "d < 10 \<Longrightarrow> of_char (digit_char d) = 48 + d"
  by (simp add: digit_char_def)

lemma is_digit_iff: "is_digit c \<longleftrightarrow> 48 \<le> (of_char c :: nat) \<and> (of_char c :: nat) \<le> 57"
proof -
  have "(of_char (CHR ''0'') :: nat) = 48" "(of_char (CHR ''9'') :: nat) = 57" by simp_all
  then show ?thesis unfolding is_digit_def less_eq_char_def by presburger
qed

lemma digit_facts [simp]:
  assumes "d < 10"
  shows "is_digit (digit_char d)" "digit_value (digit_char d) = d"
  using assms of_char_digit [OF assms] by (simp_all add: is_digit_iff digit_value_def)

lemma digit_token_char: "is_digit c \<Longrightarrow> token_char c"
  unfolding is_digit_iff by (auto simp: token_char_def is_space_def is_blank_def)

lemma nat_text_digits: "list_all is_digit (nat_text n)"
proof (induction n rule: nat_text.induct)
  case (1 n)
  then show ?case by (subst nat_text.simps) simp
qed

lemma token_nat_text [simp]: "token (nat_text n)"
  using nat_text_digits [of n] digit_token_char by (auto simp: token_def list_all_iff)

lemma decimal_snoc: "decimal (ds @ [c]) = decimal ds * 10 + digit_value c"
  by (simp add: decimal_def)

lemma decimal_nat_text [simp]: "decimal (nat_text n) = n"
proof (induction n rule: nat_text.induct)
  case (1 n)
  show ?case
  proof (cases "n < 10")
    case True
    then show ?thesis by (subst nat_text.simps) (simp add: decimal_def)
  next
    case False
    then show ?thesis using 1 by (subst nat_text.simps) (simp add: decimal_snoc)
  qed
qed

lemma foldl_decimal_ge: "v \<le> foldl (\<lambda>v c. v * 10 + digit_value c) v cs"
proof (induction cs arbitrary: v)
  case (Cons c cs)
  have "v \<le> v * 10 + digit_value c" by simp
  also have "\<dots> \<le> foldl (\<lambda>v c. v * 10 + digit_value c) (v * 10 + digit_value c) cs"
    by (rule Cons.IH)
  finally show ?case by simp
qed simp

lemma u32_from_exact:
  "u32_from tok line d v cs = Inr n \<longleftrightarrow>
     list_all is_digit cs \<and> n = foldl (\<lambda>v c. v * 10 + digit_value c) v cs \<and>
     (cs = [] \<or> n \<le> kMaxU32)"
proof (induction cs arbitrary: v)
  case (Cons c cs)
  have ge: "v * 10 + digit_value c \<le> foldl (\<lambda>v c. v * 10 + digit_value c) (v * 10 + digit_value c) cs"
    by (rule foldl_decimal_ge)
  show ?case
  proof (cases "is_digit c \<and> v * 10 + digit_value c \<le> kMaxU32")
    case True
    then show ?thesis using Cons.IH [of "v * 10 + digit_value c"] by (cases cs) (auto simp: Let_def)
  next
    case False
    then have "u32_from tok line d v (c # cs) \<noteq> Inr n" by (auto simp: Let_def not_le)
    moreover have "\<not> (is_digit c \<and> n = foldl (\<lambda>v c. v * 10 + digit_value c) (v * 10 + digit_value c) cs \<and>
        n \<le> kMaxU32)" using False ge by linarith
    ultimately show ?thesis by simp
  qed
qed auto

lemma parse_u32_exact:
  "parse_u32_token tok line d = Inr n \<longleftrightarrow>
     tok \<noteq> [] \<and> list_all is_digit tok \<and> n = decimal tok \<and> n \<le> kMaxU32"
  using u32_from_exact [of tok line d 0 tok n] by (auto simp: parse_u32_token_def decimal_def)

lemma parse_u32_nat_text [simp]: "n \<le> kMaxU32 \<Longrightarrow> parse_u32_token (nat_text n) line d = Inr n"
  by (simp add: parse_u32_exact nat_text_digits)

text \<open>Signed decimal text.\<close>

lemma is_space_not_digit: "is_digit c \<Longrightarrow> \<not> is_space c"
  using digit_token_char by (simp add: token_char_def)

lemma is_digit_not_sign: "is_digit c \<Longrightarrow> c \<noteq> CHR ''-'' \<and> c \<noteq> CHR ''+''"
  unfolding is_digit_iff by auto

lemma stoll_digits:
  assumes "list_all is_digit ds" "ds \<noteq> []"
  shows "stoll ds = (if int (decimal ds) < 2 ^ 63 then Inr (int (decimal ds), length ds) else Inl Out_Of_Range)"
    "stoll (CHR ''-'' # ds) =
       (if - (2 ^ 63) \<le> - int (decimal ds) then Inr (- int (decimal ds), Suc (length ds)) else Inl Out_Of_Range)"
proof -
  obtain c cs where ds: "ds = c # cs" using assms(2) by (cases ds) auto
  have c: "is_digit c" "\<not> is_space c" "c \<noteq> CHR ''-''" "c \<noteq> CHR ''+''"
    using assms(1) is_space_not_digit is_digit_not_sign by (auto simp: ds)
  have all: "takeWhile is_digit ds = ds" using assms(1) by (simp add: list_all_iff takeWhile_eq_all_conv)
  show "stoll ds = (if int (decimal ds) < 2 ^ 63 then Inr (int (decimal ds), length ds) else Inl Out_Of_Range)"
  proof -
    have "dropWhile is_space ds = ds" using c by (simp add: ds)
    moreover have "\<not> (case ds of c # _ \<Rightarrow> c = CHR ''-'' | [] \<Rightarrow> False)"
        "\<not> (case ds of c # _ \<Rightarrow> c = CHR ''-'' \<or> c = CHR ''+'' | [] \<Rightarrow> False)"
      using c by (simp_all add: ds)
    ultimately show ?thesis using assms(2) by (auto simp: stoll_def Let_def all)
  qed
  have minus: "\<not> is_space (CHR ''-'')" by (simp add: is_space_def is_blank_def)
  then have drop: "dropWhile is_space (CHR ''-'' # ds) = CHR ''-'' # ds" by simp
  show "stoll (CHR ''-'' # ds) =
       (if - (2 ^ 63) \<le> - int (decimal ds) then Inr (- int (decimal ds), Suc (length ds)) else Inl Out_Of_Range)"
    unfolding stoll_def drop Let_def using assms(2) by (auto simp: all)
qed

lemma stoll_int_text:
  assumes "- (2 ^ 63) \<le> i" "i < 2 ^ 63"
  shows "stoll (int_text i) = Inr (i, length (int_text i))"
proof (cases "i < 0")
  case True
  then show ?thesis
    using stoll_digits(2) [OF nat_text_digits nat_text_nonempty, of "nat (- i)"] assms
    by (simp add: int_text_def)
next
  case False
  then show ?thesis
    using stoll_digits(1) [OF nat_text_digits nat_text_nonempty, of "nat i"] assms
    by (simp add: int_text_def)
qed

lemma token_int_text [simp]: "token (int_text i)"
  using token_nat_text [of "nat (- i)"] token_nat_text [of "nat i"] by (auto simp: int_text_def token_def token_char_def is_space_def is_blank_def)

section \<open>Codecs of tokens\<close>

text \<open>
  What the parser and the printer of one kind of operand owe each other: printing gives one
  token, reading it back gives the value, and reading gives nothing else. The line and the
  description only go into the exceptions.
\<close>

locale token_codec =
  fixes print :: "'a \<Rightarrow> string"
    and read :: "string \<Rightarrow> nat \<Rightarrow> string \<Rightarrow> 'a res"
    and valid :: "'a \<Rightarrow> bool"
  assumes token_print: "valid x \<Longrightarrow> token (print x)"
    and read_print: "valid x \<Longrightarrow> read (print x) line what = Inr x"
    and read_valid: "read t line what = Inr x \<Longrightarrow> valid x"
begin

lemma reread: "read t line what = Inr x \<Longrightarrow> read (print x) line' what' = Inr x"
  using read_valid read_print by blast

lemma print_inject: "valid x \<Longrightarrow> valid y \<Longrightarrow> print x = print y \<Longrightarrow> x = y"
  using read_print by (metis sum.inject(2))

lemma words_of_print: "valid x \<Longrightarrow> split_words (print x) = [print x]"
  using token_print by simp

end

interpretation u32: token_codec nat_text parse_u32_token "\<lambda>n. n \<le> kMaxU32"
  by unfold_locales (auto simp: parse_u32_exact nat_text_digits)

end
