(* ===== verification/Json.thy ===== *)
theory Json
  imports Ordered_Map Text
begin

text \<open>
  JSON values and their text (src/showcase/json_writer.hpp), with a reader of JSON texts as the
  reference: what the writer prints is read back as the value. A string is a list of bytes; the
  reader accepts the grammar of JSON with integers as its numbers and escapes of ASCII
  characters only.
\<close>

section \<open>Values\<close>

text \<open>A number is kept as its text; an object is a \<open>std::map\<close>, in ascending key order.\<close>

datatype json =
    JNull
  | JBool bool
  | JNumber string
  | JString string
  | JArray "json list"
  | JObject "(string \<times> json) list"

text \<open>An object that is built by a sequence of assignments \<open>json[key] = value\<close>.\<close>

definition json_object :: "(string \<times> json) list \<Rightarrow> json" where
  "json_object assignments = JObject (fold (\<lambda>(k, v). al_update k v) assignments [])"

definition json_nat :: "nat \<Rightarrow> json" where
  "json_nat n = JNumber (nat_text n)"

definition json_int :: "int \<Rightarrow> json" where
  "json_int i = JNumber (int_text i)"

definition json_option :: "('a \<Rightarrow> json) \<Rightarrow> 'a option \<Rightarrow> json" where
  "json_option f x = (case x of None \<Rightarrow> JNull | Some y \<Rightarrow> f y)"

section \<open>The writer\<close>

definition newline :: string where
  "newline = [CHR 0x0A]"

definition write_indent :: "nat \<Rightarrow> string" where
  "write_indent depth = replicate (depth * 2) (CHR '' '')"

definition hex_digit :: "nat \<Rightarrow> char" where
  "hex_digit n = ''0123456789abcdef'' ! n"

definition write_char :: "char \<Rightarrow> string" where
  "write_char c =
     (if c = CHR 0x22 then [CHR 0x5C, CHR 0x22]
      else if c = CHR 0x5C then [CHR 0x5C, CHR 0x5C]
      else if c = CHR 0x08 then [CHR 0x5C, CHR ''b'']
      else if c = CHR 0x0C then [CHR 0x5C, CHR ''f'']
      else if c = CHR 0x0A then [CHR 0x5C, CHR ''n'']
      else if c = CHR 0x0D then [CHR 0x5C, CHR ''r'']
      else if c = CHR 0x09 then [CHR 0x5C, CHR ''t'']
      else if (of_char c :: nat) < 0x20 then
        [CHR 0x5C, CHR ''u'', CHR ''0'', CHR ''0'',
         hex_digit (of_char c div 16 mod 16), hex_digit (of_char c mod 16)]
      else [c])"

definition write_string :: "string \<Rightarrow> string" where
  "write_string text = [CHR 0x22] @ concat (map write_char text) @ [CHR 0x22]"

text \<open>What the loops print after an element: a comma between elements, a line end always.\<close>

definition write_separator :: "'a list \<Rightarrow> string" where
  "write_separator rest = (if rest = [] then newline else '','' @ newline)"

fun write_json :: "nat \<Rightarrow> json \<Rightarrow> string"
and write_elements :: "nat \<Rightarrow> json list \<Rightarrow> string"
and write_members :: "nat \<Rightarrow> (string \<times> json) list \<Rightarrow> string"
where
  "write_json depth JNull = ''null''"
| "write_json depth (JBool b) = (if b then ''true'' else ''false'')"
| "write_json depth (JNumber text) = text"
| "write_json depth (JString text) = write_string text"
| "write_json depth (JArray vs) =
     (if vs = [] then ''[]''
      else ''['' @ newline @ write_elements (Suc depth) vs @ write_indent depth @ '']'')"
| "write_json depth (JObject es) =
     (if es = [] then ''{}''
      else ''{'' @ newline @ write_members (Suc depth) es @ write_indent depth @ ''}'')"
| "write_elements depth [] = []"
| "write_elements depth (v # vs) =
     write_indent depth @ write_json depth v @ write_separator vs @ write_elements depth vs"
| "write_members depth [] = []"
| "write_members depth ((key, v) # es) =
     write_indent depth @ write_string key @ '': '' @ write_json depth v @ write_separator es @
     write_members depth es"

section \<open>A reader\<close>

definition skip_blanks :: "string \<Rightarrow> string" where
  "skip_blanks cs = dropWhile is_blank cs"

definition hex_value :: "char \<Rightarrow> nat option" where
  "hex_value c =
     (if is_digit c then Some (digit_value c)
      else if CHR ''a'' \<le> c \<and> c \<le> CHR ''f'' then Some (of_char c - 87)
      else if CHR ''A'' \<le> c \<and> c \<le> CHR ''F'' then Some (of_char c - 55)
      else None)"

definition plain_escapes :: "(char \<times> char) list" where
  "plain_escapes =
     [(CHR 0x22, CHR 0x22), (CHR 0x5C, CHR 0x5C), (CHR ''/'', CHR ''/''), (CHR ''b'', CHR 0x08),
      (CHR ''f'', CHR 0x0C), (CHR ''n'', CHR 0x0A), (CHR ''r'', CHR 0x0D), (CHR ''t'', CHR 0x09)]"

text \<open>The code of an escape \<open>\uXXXX\<close> must be an ASCII character.\<close>

definition ascii_escape :: "char \<Rightarrow> char \<Rightarrow> char \<Rightarrow> char \<Rightarrow> char option" where
  "ascii_escape a b c d =
     (case (hex_value a, hex_value b, hex_value c, hex_value d) of
        (Some 0, Some 0, Some x, Some y) \<Rightarrow> if x < 8 then Some (char_of (16 * x + y)) else None
      | _ \<Rightarrow> None)"

text \<open>The characters of a string up to the closing quote.\<close>

fun read_chars :: "string \<Rightarrow> (string \<times> string) option" where
  "read_chars [] = None"
| "read_chars (c # cs) =
     (if c = CHR 0x22 then Some ([], cs)
      else if c = CHR 0x5C then
        (case cs of
           [] \<Rightarrow> None
         | e # cs' \<Rightarrow>
             if e = CHR ''u'' then
               (case cs' of
                  h1 # h2 # h3 # h4 # rest \<Rightarrow>
                    (case ascii_escape h1 h2 h3 h4 of
                       None \<Rightarrow> None
                     | Some x \<Rightarrow> map_option (\<lambda>(s, r). (x # s, r)) (read_chars rest))
                | _ \<Rightarrow> None)
             else
               (case map_of plain_escapes e of
                  None \<Rightarrow> None
                | Some x \<Rightarrow> map_option (\<lambda>(s, r). (x # s, r)) (read_chars cs')))
      else if (of_char c :: nat) < 0x20 then None
      else map_option (\<lambda>(s, r). (c # s, r)) (read_chars cs))"

text \<open>An integer has no leading zero.\<close>

definition integer_text :: "string \<Rightarrow> bool" where
  "integer_text t =
     (let digits = (case t of c # cs \<Rightarrow> if c = CHR ''-'' then cs else t | [] \<Rightarrow> []) in
      digits \<noteq> [] \<and> list_all is_digit digits \<and> (hd digits = CHR ''0'' \<longrightarrow> digits = ''0''))"

definition number_char :: "char \<Rightarrow> bool" where
  "number_char c \<longleftrightarrow> is_digit c \<or> c = CHR ''-''"

definition read_number :: "string \<Rightarrow> (json \<times> string) option" where
  "read_number cs =
     (let t = takeWhile number_char cs in
      if integer_text t then Some (JNumber t, dropWhile number_char cs) else None)"

definition read_word :: "string \<Rightarrow> json \<Rightarrow> string \<Rightarrow> (json \<times> string) option" where
  "read_word word v cs =
     (if take (length word) cs = word then Some (v, drop (length word) cs) else None)"

text \<open>
  Values, elements and members; a fuel argument bounds the nesting of calls. The members of an
  object are read in the order of the text.
\<close>

fun read_value :: "nat \<Rightarrow> string \<Rightarrow> (json \<times> string) option"
and read_elements :: "nat \<Rightarrow> string \<Rightarrow> (json list \<times> string) option"
and read_members :: "nat \<Rightarrow> string \<Rightarrow> ((string \<times> json) list \<times> string) option"
where
  "read_value 0 cs = None"
| "read_value (Suc n) cs =
     (case skip_blanks cs of
        [] \<Rightarrow> None
      | c # rest \<Rightarrow>
          if c = CHR ''n'' then read_word ''null'' JNull (c # rest)
          else if c = CHR ''t'' then read_word ''true'' (JBool True) (c # rest)
          else if c = CHR ''f'' then read_word ''false'' (JBool False) (c # rest)
          else if c = CHR 0x22 then map_option (\<lambda>(s, r). (JString s, r)) (read_chars rest)
          else if c = CHR ''['' then
            (case skip_blanks rest of
               d # rest' \<Rightarrow>
                 if d = CHR '']'' then Some (JArray [], rest')
                 else map_option (\<lambda>(vs, r). (JArray vs, r)) (read_elements n rest)
             | [] \<Rightarrow> None)
          else if c = CHR ''{'' then
            (case skip_blanks rest of
               d # rest' \<Rightarrow>
                 if d = CHR ''}'' then Some (JObject [], rest')
                 else map_option (\<lambda>(es, r). (JObject es, r)) (read_members n rest)
             | [] \<Rightarrow> None)
          else read_number (c # rest))"
| "read_elements 0 cs = None"
| "read_elements (Suc n) cs =
     (case read_value n cs of
        None \<Rightarrow> None
      | Some (v, rest) \<Rightarrow>
          (case skip_blanks rest of
             [] \<Rightarrow> None
           | c # rest' \<Rightarrow>
               if c = CHR '']'' then Some ([v], rest')
               else if c = CHR '','' then
                 map_option (\<lambda>(vs, r). (v # vs, r)) (read_elements n rest')
               else None))"
| "read_members 0 cs = None"
| "read_members (Suc n) cs =
     (case skip_blanks cs of
        [] \<Rightarrow> None
      | q # cs1 \<Rightarrow>
          if q \<noteq> CHR 0x22 then None
          else
            (case read_chars cs1 of
               None \<Rightarrow> None
             | Some (key, cs2) \<Rightarrow>
                 (case skip_blanks cs2 of
                    [] \<Rightarrow> None
                  | colon # cs3 \<Rightarrow>
                      if colon \<noteq> CHR '':'' then None
                      else
                        (case read_value n cs3 of
                           None \<Rightarrow> None
                         | Some (v, rest) \<Rightarrow>
                             (case skip_blanks rest of
                                [] \<Rightarrow> None
                              | c # rest' \<Rightarrow>
                                  if c = CHR ''}'' then Some ([(key, v)], rest')
                                  else if c = CHR '','' then
                                    map_option (\<lambda>(es, r). ((key, v) # es, r)) (read_members n rest')
                                  else None)))))"

definition read_json :: "string \<Rightarrow> json option" where
  "read_json text =
     (case read_value (Suc (length text)) text of
        Some (v, rest) \<Rightarrow> if skip_blanks rest = [] then Some v else None
      | None \<Rightarrow> None)"

section \<open>What is written is read back\<close>

lemma read_char [simp]:
  "read_chars (write_char c @ cs) = map_option (\<lambda>(s, r). (c # s, r)) (read_chars cs)"
proof -
  have "\<forall>x\<in>set (map char_of [0..<32]).
      ascii_escape (CHR ''0'') (CHR ''0'') (hex_digit (of_char x div 16 mod 16)) (hex_digit (of_char x mod 16)) =
      Some x"
    by code_simp
  moreover have "c = char_of (of_char c :: nat)" by simp
  then have "c \<in> set (map char_of [0..<32])" if "(of_char c :: nat) < 32"
    using that by (metis atLeastLessThan_iff image_eqI list.set_map set_upt zero_le)
  ultimately have escape: "ascii_escape (CHR ''0'') (CHR ''0'') (hex_digit (of_char c div 16 mod 16))
      (hex_digit (of_char c mod 16)) = Some c" if "(of_char c :: nat) < 32"
    using that by blast
  have plain: "map_of plain_escapes (CHR 0x22) = Some (CHR 0x22)" "map_of plain_escapes (CHR 0x5C) = Some (CHR 0x5C)"
      "map_of plain_escapes (CHR ''b'') = Some (CHR 0x08)" "map_of plain_escapes (CHR ''f'') = Some (CHR 0x0C)"
      "map_of plain_escapes (CHR ''n'') = Some (CHR 0x0A)" "map_of plain_escapes (CHR ''r'') = Some (CHR 0x0D)"
      "map_of plain_escapes (CHR ''t'') = Some (CHR 0x09)"
    by code_simp+
  show ?thesis
    using escape by (auto simp: write_char_def plain)
qed

lemma read_written_chars [simp]:
  "read_chars (concat (map write_char s) @ CHR 0x22 # rest) = Some (s, rest)"
  by (induction s) simp_all

fun json_ok :: "json \<Rightarrow> bool" where
  "json_ok (JNumber text) = integer_text text"
| "json_ok (JArray vs) = list_all json_ok vs"
| "json_ok (JObject es) = list_all (\<lambda>(k, v). json_ok v) es"
| "json_ok _ = True"

lemma skip_blanks_append [simp]: "list_all is_blank bs \<Longrightarrow> skip_blanks (bs @ cs) = skip_blanks cs"
  by (induction bs) (simp_all add: skip_blanks_def)

lemma blank_texts [simp]:
  "list_all is_blank (write_indent d)" "list_all is_blank newline"
  by (simp_all add: write_indent_def newline_def is_blank_def list_all_iff)

lemma read_after_blanks [simp]:
  assumes "list_all is_blank bs"
  shows "read_value n (bs @ cs) = read_value n cs"
    "read_elements n (bs @ cs) = read_elements n cs" "read_members n (bs @ cs) = read_members n cs"
proof -
  show one: "read_value n (bs @ cs) = read_value n cs" for n
    by (cases n) (simp_all add: assms)
  show "read_elements n (bs @ cs) = read_elements n cs" "read_members n (bs @ cs) = read_members n cs"
    by (cases n; simp add: assms one)+
qed

lemma integer_text_chars:
  assumes "integer_text t"
  shows "list_all number_char t" "t \<noteq> []"
proof -
  show "t \<noteq> []" using assms by (auto simp: integer_text_def)
  show "list_all number_char t"
    using assms by (cases t) (auto simp: integer_text_def number_char_def list_all_iff Let_def split: if_splits)
qed

lemma number_char_plain:
  assumes "number_char c"
  shows "\<not> is_blank c" "c \<notin> set ''ntf[]{},:''" "c \<noteq> CHR 0x22"
  using assms by (auto simp: number_char_def is_digit_iff is_blank_def)

text \<open>A text ends a number when it does not go on with one.\<close>

definition no_number :: "string \<Rightarrow> bool" where
  "no_number rest \<longleftrightarrow> (\<forall>c cs. rest = c # cs \<longrightarrow> \<not> number_char c)"

lemma read_number_text:
  assumes "integer_text t" "no_number rest"
  shows "read_number (t @ rest) = Some (JNumber t, rest)"
proof -
  have all: "list_all number_char t" using integer_text_chars [OF assms(1)] by simp
  have "takeWhile number_char (t @ rest) = t" "dropWhile number_char (t @ rest) = rest"
    using all assms(2) by (cases rest; simp add: no_number_def list_all_iff takeWhile_append dropWhile_append)+
  then show ?thesis using assms(1) by (simp add: read_number_def)
qed

lemma written_head:
  "json_ok v \<Longrightarrow> \<exists>c cs. write_json d v = c # cs \<and> \<not> is_blank c \<and> c \<notin> set '']},:''"
proof (cases v)
  case (JNumber t)
  assume "json_ok v"
  then have "integer_text t" by (simp add: JNumber)
  from integer_text_chars [OF this] obtain c cs where "t = c # cs" "number_char c"
    by (cases t) auto
  then show ?thesis using number_char_plain [of c] by (simp add: JNumber)
qed (auto simp: write_string_def is_blank_def)

lemma written_separator:
  "vs \<noteq> [] \<Longrightarrow> write_separator vs = CHR '','' # newline"
  "write_separator [] = newline"
  by (simp_all add: write_separator_def)

lemma written_separator_length: "0 < length (write_separator vs)"
  by (simp add: write_separator_def newline_def)

lemma skip_blanks_first [simp]: "\<not> is_blank c \<Longrightarrow> skip_blanks (c # cs) = c # cs"
  by (simp add: skip_blanks_def)

lemma punctuation [simp]:
  "\<not> is_blank (CHR '','')" "\<not> is_blank (CHR '']'')" "\<not> is_blank (CHR ''}'')" "\<not> is_blank (CHR '':'')"
  "\<not> is_blank (CHR ''['')" "\<not> is_blank (CHR ''{'')" "\<not> is_blank (CHR 0x22)"
  "\<not> is_blank (CHR ''n'')" "\<not> is_blank (CHR ''t'')" "\<not> is_blank (CHR ''f'')" "is_blank (CHR '' '')"
  by (simp_all add: is_blank_def)

lemma no_number_after [simp]:
  "no_number []" "no_number (newline @ cs)" "no_number (CHR '','' # cs)"
  "no_number (write_separator vs @ cs)"
  by (auto simp: no_number_def newline_def write_separator_def number_char_def is_digit_iff)

lemma written_heads:
  "vs \<noteq> [] \<Longrightarrow> list_all json_ok vs \<Longrightarrow>
     \<exists>c cs. skip_blanks (write_elements d vs @ rest) = c # cs \<and> c \<noteq> CHR '']''"
  "es \<noteq> [] \<Longrightarrow> \<exists>c cs. skip_blanks (write_members d es @ rest) = c # cs \<and> c \<noteq> CHR ''}''"
proof -
  show "\<exists>c cs. skip_blanks (write_elements d vs @ rest) = c # cs \<and> c \<noteq> CHR '']''"
    if "vs \<noteq> []" "list_all json_ok vs"
    using that written_head [of "hd vs" d] by (cases vs) auto
  show "\<exists>c cs. skip_blanks (write_members d es @ rest) = c # cs \<and> c \<noteq> CHR ''}''" if "es \<noteq> []"
    using that by (cases es) (auto simp: write_string_def)
qed

lemma written_read:
  "json_ok v \<Longrightarrow> no_number rest \<Longrightarrow> length (write_json d v) \<le> n \<Longrightarrow>
     read_value n (write_json d v @ rest) = Some (v, rest)"
  "vs \<noteq> [] \<Longrightarrow> list_all json_ok vs \<Longrightarrow> length (write_elements d vs) \<le> n \<Longrightarrow>
     list_all is_blank bs \<Longrightarrow>
     read_elements n (write_elements d vs @ bs @ CHR '']'' # rest) = Some (vs, rest)"
  "es \<noteq> [] \<Longrightarrow> list_all (\<lambda>(k, v). json_ok v) es \<Longrightarrow> length (write_members d es) \<le> n \<Longrightarrow>
     list_all is_blank bs \<Longrightarrow>
     read_members n (write_members d es @ bs @ CHR ''}'' # rest) = Some (es, rest)"
proof (induction d v and d vs and d es arbitrary: n rest and n rest bs and n rest bs
    rule: write_json_write_elements_write_members.induct)
  case (3 d t)
  then have t: "integer_text t" by simp
  then obtain c cs where c: "t = c # cs" "number_char c" using integer_text_chars [OF t] by (cases t) auto
  have "read_number (c # cs @ rest) = Some (JNumber t, rest)"
    using read_number_text [OF t 3(2)] by (simp add: c)
  then show ?case using 3(3) number_char_plain [OF c(2)] by (cases n) (auto simp: c)
next
  case (5 d vs)
  obtain m where n: "n = Suc m" using 5(4) by (cases n) (auto split: if_splits)
  show ?case
  proof (cases "vs = []")
    case False
    have ok: "list_all json_ok vs" using 5(2) by simp
    obtain c cs where "skip_blanks (write_elements (Suc d) vs @ write_indent d @ CHR '']'' # rest) = c # cs" "c \<noteq> CHR '']''"
      using written_heads(1) [OF False ok] by blast
    moreover have "read_elements m (write_elements (Suc d) vs @ write_indent d @ CHR '']'' # rest) = Some (vs, rest)"
      using 5(1) [OF False False ok, of m "write_indent d"] 5(4) False by (simp add: n)
    ultimately show ?thesis using False by (simp add: n)
  qed (simp add: n)
next
  case (6 d es)
  obtain m where n: "n = Suc m" using 6(4) by (cases n) (auto split: if_splits)
  show ?case
  proof (cases "es = []")
    case False
    obtain c cs where "skip_blanks (write_members (Suc d) es @ write_indent d @ CHR ''}'' # rest) = c # cs" "c \<noteq> CHR ''}''"
      using written_heads(2) [OF False] by blast
    moreover have "read_members m (write_members (Suc d) es @ write_indent d @ CHR ''}'' # rest) = Some (es, rest)"
      using 6(1) [OF False False, of m "write_indent d"] 6(2,4) False by (simp add: n)
    ultimately show ?thesis using False by (simp add: n)
  qed (simp add: n)
next
  case (8 d v vs)
  obtain m where n: "n = Suc m" using 8(5) written_separator_length [of vs] by (cases n) auto
  have le: "length (write_json d v) \<le> m" "length (write_elements d vs) \<le> m"
    using 8(5) written_separator_length [of vs] unfolding n write_elements.simps length_append by linarith+
  have "read_value m (write_json d v @ write_separator vs @ write_elements d vs @ bs @ CHR '']'' # rest) =
      Some (v, write_separator vs @ write_elements d vs @ bs @ CHR '']'' # rest)"
    using 8(4) le by (intro 8(1)) simp_all
  then show ?case
    using 8(2) [of m bs rest] 8(4,6) le by (cases "vs = []") (simp_all add: n written_separator)
next
  case (10 d key v es)
  obtain m where n: "n = Suc m" using 10(5) written_separator_length [of es] by (cases n) auto
  have le: "length (write_json d v) \<le> m" "length (write_members d es) \<le> m"
    using 10(5) written_separator_length [of es] unfolding n write_members.simps length_append by linarith+
  have blank: "read_value m (CHR '' '' # cs) = read_value m cs" for cs
    using read_after_blanks(1) [of "[CHR '' '']"] by simp
  have "read_value m (write_json d v @ write_separator es @ write_members d es @ bs @ CHR ''}'' # rest) =
      Some (v, write_separator es @ write_members d es @ bs @ CHR ''}'' # rest)"
    using 10(4) le by (intro 10(1)) simp_all
  then show ?case
    using 10(2) [of m bs rest] 10(4,6) le
    by (cases "es = []") (simp_all add: n written_separator write_string_def blank)
next
  case (1 d)
  then show ?case by (cases n) (simp_all add: read_word_def)
next
  case (2 d b)
  then show ?case by (cases n; cases b) (simp_all add: read_word_def)
next
  case (4 d t)
  then show ?case by (cases n) (simp_all add: write_string_def)
qed simp_all

text \<open>The text of a value ends the input, up to blanks.\<close>

lemma read_json_written:
  assumes "json_ok v" "list_all is_blank bs"
  shows "read_json (write_json d v @ bs) = Some v"
proof -
  have "no_number bs"
    using assms(2) by (auto simp: no_number_def number_char_def is_digit_iff is_blank_def)
  then have "read_value (Suc (length (write_json d v @ bs))) (write_json d v @ bs) = Some (v, bs)"
    using assms(1) by (intro written_read(1)) simp_all
  moreover have "skip_blanks bs = []" using skip_blanks_append [OF assms(2), of "[]"] by (simp add: skip_blanks_def)
  ultimately show ?thesis by (simp add: read_json_def)
qed

section \<open>Well-formed values\<close>

named_theorems json_intros \<open>values that the writer prints as JSON\<close>

lemma nat_text_leading: "hd (nat_text n) = CHR ''0'' \<Longrightarrow> nat_text n = ''0''"
proof (induction n rule: nat_text.induct)
  case (1 n)
  show ?case
  proof (cases "n < 10")
    case True
    have digits: "nat_text n = [digit_char n]" using True by (subst nat_text.simps) simp
    then show ?thesis using 1(2) by simp
  next
    case False
    have digits: "nat_text n = nat_text (n div 10) @ [digit_char (n mod 10)]"
      using False by (subst nat_text.simps) simp
    have "nat_text (n div 10) = ''0''" using 1 False by (simp add: digits)
    then have "decimal (nat_text (n div 10)) = 0" by (simp add: decimal_def digit_value_def)
    then show ?thesis using False by simp
  qed
qed

lemma json_ok_nat [json_intros]: "json_ok (json_nat n)"
proof -
  have "hd (nat_text n) \<noteq> CHR ''-''"
    using nat_text_digits [of n] is_digit_not_sign by (cases "nat_text n") auto
  then show ?thesis
    using nat_text_digits [of n] nat_text_leading [of n]
    by (cases "nat_text n") (auto simp: json_nat_def integer_text_def)
qed

lemma json_ok_int [json_intros]: "json_ok (json_int i)"
proof (cases "i < 0")
  case True
  then show ?thesis
    using nat_text_digits [of "nat (- i)"] nat_text_leading [of "nat (- i)"]
    by (simp add: json_int_def int_text_def integer_text_def Let_def)
next
  case False
  then show ?thesis using json_ok_nat [of "nat i"] by (simp add: json_int_def int_text_def json_nat_def)
qed

lemma json_ok_simple [json_intros]:
  "json_ok JNull" "json_ok (JBool b)" "json_ok (JString s)"
  "(\<And>v. v \<in> set vs \<Longrightarrow> json_ok v) \<Longrightarrow> json_ok (JArray vs)"
  "(\<And>y. x = Some y \<Longrightarrow> json_ok (f y)) \<Longrightarrow> json_ok (json_option f x)"
  by (auto simp: list_all_iff json_option_def split: option.split)

lemma json_ok_object [json_intros]:
  assumes "list_all (\<lambda>(k, v). json_ok v) assignments"
  shows "json_ok (json_object assignments)"
proof -
  have "list_all (\<lambda>(k, v). json_ok v) (al_update k v es)"
    if "list_all (\<lambda>(k, v). json_ok v) es" "json_ok v" for k v es
    using that by (induction k v es rule: al_update.induct) auto
  then have "list_all (\<lambda>(k, v). json_ok v) (fold (\<lambda>(k, v). al_update k v) assignments es)"
    if "list_all (\<lambda>(k, v). json_ok v) es" for es
    using assms that by (induction assignments arbitrary: es) auto
  then show ?thesis by (simp add: json_object_def)
qed

end
