(* ===== verification/Vector_Clock.thy ===== *)
theory Vector_Clock
  imports Ordered_Map
begin

text \<open>
  \<open>model::VectorClock\<close> (src/include/model/vector_clock.hpp, src/src/model/vector_clock.cpp):
  a sparse map from thread ids to event counters. \<open>tick\<close>, \<open>join\<close>, \<open>get\<close> and
  \<open>happens_before_or_equal\<close> are translated as loops over the ordered entries; the locale
  \<open>clock_algebra\<close> is the contract the race detector and the explorer rely on (joins are
  least upper bounds of the happens-before order, a tick is a strict step up), and the
  interpretation proves it for the map representation. Counters are \<open>nat\<close>: a later
  theorem bounds each component by the number of steps its thread has taken.
\<close>

type_synonym vclock = "(nat, nat) omap"

definition vc_get :: "vclock \<Rightarrow> nat \<Rightarrow> nat" where
  "vc_get c t = (case mlookup c t of None \<Rightarrow> 0 | Some v \<Rightarrow> v)"

definition vc_tick :: "nat \<Rightarrow> vclock \<Rightarrow> vclock" where
  "vc_tick t c = mupdate t (Suc (mget 0 c t)) c"

definition vc_join :: "vclock \<Rightarrow> vclock \<Rightarrow> vclock" where
  "vc_join c other =
     fold (\<lambda>(t, v) acc. mupdate t (max (mget 0 acc t) v) acc) (mentries other) c"

definition vc_hb :: "vclock \<Rightarrow> vclock \<Rightarrow> bool" where
  "vc_hb c other = list_all (\<lambda>(t, v). \<not> v > vc_get other t) (mentries c)"

section \<open>Pointwise characterisations\<close>

lemma vc_get_mget: "vc_get c t = mget 0 c t"
  by (simp add: vc_get_def mget_def)

lemma vc_get_mempty [simp]: "vc_get mempty t = 0"
  by (simp add: vc_get_mget)

lemma vc_get_tick [simp]: "vc_get (vc_tick t c) u = (if u = t then Suc (vc_get c u) else vc_get c u)"
  by (simp add: vc_get_mget vc_tick_def)

lemma fold_join_lookup:
  "distinct (map fst es) \<Longrightarrow>
   mlookup (fold (\<lambda>(t, v) acc. mupdate t (max (mget 0 acc t) v) acc) es c) u =
   (case map_of es u of None \<Rightarrow> mlookup c u | Some v \<Rightarrow> Some (max (mget 0 c u) v))"
proof (induction es arbitrary: c)
  case (Cons e es)
  obtain t v where [simp]: "e = (t, v)" by (cases e)
  have "map_of es t = None" using Cons.prems by (simp add: map_of_eq_None_iff)
  then show ?case using Cons by (auto split: option.splits)
qed simp

lemma mlookup_join:
  "mlookup (vc_join c d) t =
   (case mlookup d t of None \<Rightarrow> mlookup c t | Some v \<Rightarrow> Some (max (mget 0 c t) v))"
  unfolding vc_join_def by (subst fold_join_lookup) (auto simp: mlookup_map_of)

lemma vc_get_join [simp]: "vc_get (vc_join c d) t = max (vc_get c t) (vc_get d t)"
  by (auto simp: vc_get_def mlookup_join mget_def split: option.splits)

lemma vc_hb_iff: "vc_hb c d \<longleftrightarrow> (\<forall>t. vc_get c t \<le> vc_get d t)"
proof
  assume "vc_hb c d"
  then have "v \<le> vc_get d t" if "mlookup c t = Some v" for t v
    using that by (force simp: vc_hb_def list_all_iff mentries_iff [symmetric] not_less)
  then show "\<forall>t. vc_get c t \<le> vc_get d t"
    by (auto simp: vc_get_def [of c] split: option.splits)
next
  assume le: "\<forall>t. vc_get c t \<le> vc_get d t"
  show "vc_hb c d"
    unfolding vc_hb_def list_all_iff
  proof (clarsimp simp: not_less mentries_iff)
    fix t v assume "mlookup c t = Some v"
    then show "v \<le> vc_get d t" using le [rule_format, of t] by (simp add: vc_get_def)
  qed
qed

lemma vc_join_commute: "vc_join c d = vc_join d c"
  by (rule omap_eqI) (auto simp: mlookup_join mget_def max.commute split: option.splits)

lemma vc_join_assoc: "vc_join (vc_join b c) d = vc_join b (vc_join c d)"
  by (rule omap_eqI) (auto simp: mlookup_join mget_def max.assoc split: option.splits)

lemma vc_join_idem [simp]: "vc_join c c = c"
  by (rule omap_eqI) (auto simp: mlookup_join mget_def split: option.splits)

lemma vc_join_mempty [simp]: "vc_join c mempty = c" "vc_join mempty c = c"
  by (rule omap_eqI, auto simp: mlookup_join mget_def split: option.splits)+

section \<open>The contract of clocks\<close>

text \<open>
  What the checker needs of a clock type: \<open>hb\<close> is a preorder, \<open>join\<close> a least upper
  bound, \<open>tick t\<close> moves exactly the counter \<open>get _ t\<close>, and \<open>hb\<close> is decided by
  the counters.
\<close>

locale clock_algebra =
  fixes hb :: "'c \<Rightarrow> 'c \<Rightarrow> bool"
    and join :: "'c \<Rightarrow> 'c \<Rightarrow> 'c"
    and tick :: "nat \<Rightarrow> 'c \<Rightarrow> 'c"
    and get :: "'c \<Rightarrow> nat \<Rightarrow> nat"
  assumes hb_counters: "hb c d \<longleftrightarrow> (\<forall>t. get c t \<le> get d t)"
    and get_join: "get (join c d) t = max (get c t) (get d t)"
    and get_tick: "get (tick t c) u = (if u = t then Suc (get c u) else get c u)"
begin

lemma hb_refl: "hb c c"
  by (simp add: hb_counters)

lemma hb_trans: "hb b c \<Longrightarrow> hb c d \<Longrightarrow> hb b d"
  unfolding hb_counters by (meson order_trans)

lemma join_upper: "hb c (join c d)" "hb d (join c d)"
  by (simp_all add: hb_counters get_join)

lemma join_least: "hb b d \<Longrightarrow> hb c d \<Longrightarrow> hb (join b c) d"
  by (simp add: hb_counters get_join)

lemma join_hb_iff: "hb (join b c) d \<longleftrightarrow> hb b d \<and> hb c d"
  by (meson hb_trans join_upper join_least)

lemma tick_above: "hb c (tick t c)"
  by (simp add: hb_counters get_tick)

lemma tick_not_below: "\<not> hb (tick t c) c"
  by (auto simp: hb_counters get_tick intro: exI [of _ t])

text \<open>A clock that counts an event of thread \<open>t\<close> no other clock has seen is not below it.\<close>

lemma fresh_not_below: "get d t < get c t \<Longrightarrow> \<not> hb c d"
  by (auto simp: hb_counters not_le)

end

interpretation vc: clock_algebra vc_hb vc_join vc_tick vc_get
  by unfold_locales (simp_all add: vc_hb_iff)

end
