(* ===== verification/Actions.thy ===== *)
theory Actions
  imports Prelude "HOL-Library.Word"
begin

text \<open>
  The action language (src/include/model/action.hpp) and the action-only relations
  \<open>may_conflict\<close> and \<open>independent\<close> (src/src/model/action.cpp). A cell value is an
  \<open>int64_t\<close>, kept as a 64-bit word; thread ids, action indexes and register ids are
  \<open>nat\<close>.
\<close>

type_synonym val = "64 word"

definition kRegisterCount :: nat where
  "kRegisterCount = 8"

definition kFlushActionIndex :: nat where
  "kFlushActionIndex = 4294967295"

datatype value_operand = Immediate val | Register nat

datatype action_kind =
    Set | Label | BranchNonzero | Assert | Read | Write
  | AtomicLoad | AtomicStore | AtomicRmw | CompareExchange | Fence | Flush
  | Lock | TryLock | Unlock | Spawn | Join | Wait | Signal | Broadcast | Yield
  | RLock | RUnlock | WLock | WUnlock | SemPost | SemWait | BarrierWait
  | Upgrade | Downgrade | TimedWait

record action =
  a_kind :: action_kind
  a_address :: string
  a_mutex :: string
  a_rwlock :: string
  a_semaphore :: string
  a_condition :: string
  a_target :: nat
  a_destination :: "nat option"
  a_source :: "nat option"
  a_value :: "value_operand option"
  a_expected :: "value_operand option"
  a_label :: string
  a_barrier :: string
  a_parties :: nat

definition default_action :: action where
  "default_action = \<lparr>a_kind = Yield, a_address = [], a_mutex = [], a_rwlock = [],
     a_semaphore = [], a_condition = [], a_target = 0, a_destination = None,
     a_source = None, a_value = None, a_expected = None, a_label = [],
     a_barrier = [], a_parties = 0\<rparr>"

type_synonym program = "action list list"

section \<open>Schedule steps\<close>

text \<open>
  A schedule step names a thread and an action index; a PSO flush adds the numeric id of
  the address. The order is the source's \<open>operator<\<close>: thread, then index, then the
  optional address with \<open>nullopt\<close> first.
\<close>

datatype schedule_step =
  Step (s_thread: nat) (s_index: nat) (s_flush: "nat option")

type_synonym schedule = "schedule_step list"

fun step_key :: "schedule_step \<Rightarrow> nat \<times> nat \<times> nat option" where
  "step_key (Step t i f) = (t, i, f)"

lemma step_key_inject [simp]: "step_key a = step_key b \<longleftrightarrow> a = b"
  by (cases a; cases b) simp

instantiation schedule_step :: linorder
begin

definition less_schedule_step :: "schedule_step \<Rightarrow> schedule_step \<Rightarrow> bool" where
  "a < b \<longleftrightarrow>
     (if s_thread a \<noteq> s_thread b then s_thread a < s_thread b
      else if s_index a \<noteq> s_index b then s_index a < s_index b
      else s_flush a < s_flush b)"

definition less_eq_schedule_step :: "schedule_step \<Rightarrow> schedule_step \<Rightarrow> bool" where
  "a \<le> b \<longleftrightarrow> a < b \<or> a = (b :: schedule_step)"

lemma less_step_key: "a < b \<longleftrightarrow> step_key a < step_key b"
  by (cases a; cases b) (auto simp: less_schedule_step_def)

instance
proof
  fix a b c :: schedule_step
  show "(a < b) = (a \<le> b \<and> \<not> b \<le> a)"
    by (auto simp: less_eq_schedule_step_def less_step_key)
  show "a \<le> a" by (simp add: less_eq_schedule_step_def)
  show "a \<le> c" if "a \<le> b" "b \<le> c"
    using that by (auto simp: less_eq_schedule_step_def less_step_key)
  show "a = b" if "a \<le> b" "b \<le> a"
    using that by (auto simp: less_eq_schedule_step_def less_step_key)
  show "a \<le> b \<or> b \<le> a"
    by (metis less_eq_schedule_step_def less_step_key neqE step_key_inject)
qed

end

definition is_flush_step :: "schedule_step \<Rightarrow> bool" where
  "is_flush_step st = (s_index st = kFlushActionIndex)"

section \<open>Groups of actions\<close>

definition is_plain_memory_action :: "action \<Rightarrow> bool" where
  "is_plain_memory_action a = (a_kind a \<in> {Read, Write, Flush})"

definition is_atomic_action :: "action \<Rightarrow> bool" where
  "is_atomic_action a = (a_kind a \<in> {AtomicLoad, AtomicStore, AtomicRmw, CompareExchange})"

definition is_memory_action :: "action \<Rightarrow> bool" where
  "is_memory_action a = (is_plain_memory_action a \<or> is_atomic_action a)"

definition is_write_like :: "action \<Rightarrow> bool" where
  "is_write_like a = (a_kind a \<in> {Write, Flush, AtomicStore, AtomicRmw, CompareExchange})"

definition is_mutex_action :: "action \<Rightarrow> bool" where
  "is_mutex_action a = (a_kind a \<in> {Lock, TryLock, Unlock, Wait, TimedWait})"

definition is_rwlock_action :: "action \<Rightarrow> bool" where
  "is_rwlock_action a = (a_kind a \<in> {RLock, RUnlock, WLock, WUnlock, Upgrade, Downgrade})"

definition is_semaphore_action :: "action \<Rightarrow> bool" where
  "is_semaphore_action a = (a_kind a \<in> {SemPost, SemWait})"

definition is_barrier_action :: "action \<Rightarrow> bool" where
  "is_barrier_action a = (a_kind a = BarrierWait)"

definition is_condition_action :: "action \<Rightarrow> bool" where
  "is_condition_action a = (a_kind a \<in> {Wait, TimedWait, Signal, Broadcast})"

definition is_thread_local_action :: "action \<Rightarrow> bool" where
  "is_thread_local_action a = (a_kind a \<in> {Set, BranchNonzero, Assert, Label, Fence})"

lemmas action_groups =
  is_plain_memory_action_def is_atomic_action_def is_memory_action_def is_write_like_def
  is_mutex_action_def is_rwlock_action_def is_semaphore_action_def is_barrier_action_def
  is_condition_action_def is_thread_local_action_def

section \<open>Conflict and independence of two actions\<close>

definition may_conflict :: "action \<Rightarrow> action \<Rightarrow> bool" where
  "may_conflict lhs rhs =
     (if \<not> is_memory_action lhs \<or> \<not> is_memory_action rhs then False
      else if a_address lhs = [] \<or> a_address rhs = [] \<or> a_address lhs \<noteq> a_address rhs then False
      else if is_atomic_action lhs \<and> is_atomic_action rhs then False
      else is_write_like lhs \<or> is_write_like rhs)"

text \<open>
  The same-address block of \<open>independent\<close>: \<open>Some\<close> where it returns, \<open>None\<close> where
  control falls through to the synchronisation cases.
\<close>

definition same_cell_verdict :: "action \<Rightarrow> action \<Rightarrow> bool option" where
  "same_cell_verdict lhs rhs =
     (if is_memory_action lhs \<and> is_memory_action rhs \<and>
         a_address lhs \<noteq> [] \<and> a_address lhs = a_address rhs
      then
        if is_atomic_action lhs \<and> is_atomic_action rhs
        then Some (a_kind lhs = AtomicLoad \<and> a_kind rhs = AtomicLoad)
        else if is_atomic_action lhs \<or> is_atomic_action rhs then Some False
        else if may_conflict lhs rhs then Some False
        else None
      else None)"

definition independent :: "action \<Rightarrow> action \<Rightarrow> bool" where
  "independent lhs rhs =
     (if is_thread_local_action lhs \<or> is_thread_local_action rhs then True
      else case same_cell_verdict lhs rhs of Some b \<Rightarrow> b
      | None \<Rightarrow>
        if a_kind lhs = Join \<or> a_kind rhs = Join then False
        else if a_kind lhs = Spawn \<or> a_kind rhs = Spawn then False
        else if is_condition_action lhs \<and> is_condition_action rhs \<and>
                a_condition lhs = a_condition rhs then False
        else if is_mutex_action lhs \<and> is_mutex_action rhs \<and> a_mutex lhs = a_mutex rhs then False
        else if is_rwlock_action lhs \<and> is_rwlock_action rhs \<and> a_rwlock lhs = a_rwlock rhs
          then False
        else if is_semaphore_action lhs \<and> is_semaphore_action rhs \<and>
                a_semaphore lhs = a_semaphore rhs
          then a_kind lhs = SemPost \<and> a_kind rhs = SemPost
        else if is_barrier_action lhs \<and> is_barrier_action rhs \<and> a_barrier lhs = a_barrier rhs
          then False
        else True)"

end
