(* ===== verification/Machine_State.thy ===== *)
theory Machine_State
  imports Vector_Clock Actions
begin

text \<open>
  The interpreter's state (src/src/model/checker.cpp, \<open>ExecutionState\<close> and the structs it
  holds) and the functions that build and read it: the initial state, the label-skipping
  program counter, registers and operands. Vectors indexed by thread are lists of the length
  of the program; an access that the source makes with \<open>.at()\<close> on a thread id it has
  checked is \<open>!\<close>, and the well-formedness theory shows the lengths agree in every
  reachable state. Counters (\<open>size_t\<close>, \<open>uint64_t\<close>) are \<open>nat\<close>.
\<close>

section \<open>The state\<close>

record memory_access =
  m_clock :: vclock
  m_endpoint :: schedule_step
  m_is_atomic :: bool
  m_is_write :: bool

record address_state =
  last_write :: "memory_access option"
  reads_since_last_write :: "(nat \<times> nat, memory_access) omap"
  plain_accesses :: "memory_access list"
  atomic_accesses :: "memory_access list"

definition empty_address_state :: address_state where
  "empty_address_state = \<lparr>last_write = None, reads_since_last_write = mempty,
     plain_accesses = [], atomic_accesses = []\<rparr>"

type_synonym store_buffer_entry = "string \<times> val"
type_synonym pso_address_buffer = "(string, val list) omap"

datatype wait_phase = Phase_None | Waiting | Woken

datatype memory_model = SC | TSO | PSO

record rwlock_state =
  reader_holders :: "nat oset"
  writer_holder :: "nat option"
  writer_release :: vclock
  reader_releases :: vclock

definition empty_rwlock :: rwlock_state where
  "empty_rwlock = \<lparr>reader_holders = mempty, writer_holder = None,
     writer_release = mempty, reader_releases = mempty\<rparr>"

record semaphore_state =
  permits :: nat
  post_releases :: vclock

definition empty_semaphore :: semaphore_state where
  "empty_semaphore = \<lparr>permits = 0, post_releases = mempty\<rparr>"

record barrier_state =
  generation :: nat
  parties :: nat
  arrivals :: "nat oset"
  arrival_releases :: vclock

record exec_state =
  st_model :: memory_model
  st_pc :: "nat list"
  st_started :: "bool list"
  st_mutex_owner :: "(string, nat) omap"
  st_mutex_clock :: "(string, vclock) omap"
  st_rwlocks :: "(string, rwlock_state) omap"
  st_semaphores :: "(string, semaphore_state) omap"
  st_barriers :: "(string, barrier_state) omap"
  st_waiters :: "(string, nat list) omap"
  st_clock :: "vclock list"
  st_registers :: "val list list"
  st_steps :: "nat list"
  st_phase :: "wait_phase list"
  st_memory :: "(string, address_state) omap"
  st_values :: "(string, val) omap"
  st_atomic_clock :: "(string, vclock) omap"
  st_store_buffers :: "store_buffer_entry list list"
  st_pso_buffers :: "pso_address_buffer list"
  st_flush_addresses :: "string list"
  st_schedule :: schedule

section \<open>Program counters and labels\<close>

function skip_labels :: "action list \<Rightarrow> nat \<Rightarrow> nat" where
  "skip_labels thread pc =
     (if pc < length thread \<and> a_kind (thread ! pc) = Label
      then skip_labels thread (Suc pc) else pc)"
  by pat_completeness auto
termination
  by (relation "measure (\<lambda>(thread, pc). length thread - pc)") auto

declare skip_labels.simps [simp del]

definition set_pc :: "program \<Rightarrow> exec_state \<Rightarrow> nat \<Rightarrow> nat \<Rightarrow> exec_state" where
  "set_pc p s tid pc = s\<lparr>st_pc := (st_pc s)[tid := skip_labels (p ! tid) pc]\<rparr>"

definition normalize_pc :: "program \<Rightarrow> exec_state \<Rightarrow> nat \<Rightarrow> exec_state" where
  "normalize_pc p s tid = s\<lparr>st_pc := (st_pc s)[tid := skip_labels (p ! tid) (st_pc s ! tid)]\<rparr>"

definition advance_pc :: "program \<Rightarrow> exec_state \<Rightarrow> nat \<Rightarrow> exec_state" where
  "advance_pc p s tid =
     s\<lparr>st_pc := (st_pc s)[tid := skip_labels (p ! tid) (Suc (st_pc s ! tid))]\<rparr>"

declare set_pc_def [state_ops] normalize_pc_def [state_ops] advance_pc_def [state_ops]

definition normalize_all_pcs :: "program \<Rightarrow> exec_state \<Rightarrow> exec_state" where
  "normalize_all_pcs p s = fold (\<lambda>tid s. normalize_pc p s tid) [0..<length p] s"

fun label_index_from :: "action list \<Rightarrow> string \<Rightarrow> nat \<Rightarrow> nat option" where
  "label_index_from [] label index = None"
| "label_index_from (candidate # rest) label index =
     (if a_kind candidate = Label \<and> a_label candidate = label then Some index
      else label_index_from rest label (Suc index))"

definition resolve_label :: "program \<Rightarrow> nat \<Rightarrow> string \<Rightarrow> nat option" where
  "resolve_label p tid label = label_index_from (p ! tid) label 0"

text \<open>A backward branch is one whose label-normalised target is not after the branch.\<close>

definition branches_back :: "program \<Rightarrow> nat \<Rightarrow> nat \<Rightarrow> bool" where
  "branches_back p tid index =
     (a_kind (p ! tid ! index) = BranchNonzero \<and>
      (case resolve_label p tid (a_label (p ! tid ! index)) of
         None \<Rightarrow> False
       | Some label_index \<Rightarrow> skip_labels (p ! tid) label_index \<le> index))"

definition requires_cycle_detection :: "program \<Rightarrow> bool" where
  "requires_cycle_detection p =
     list_ex (\<lambda>tid. list_ex (branches_back p tid) [0..<length (p ! tid)]) [0..<length p]"

section \<open>The initial state\<close>

definition clear_spawn_target :: "nat \<Rightarrow> nat \<Rightarrow> action \<Rightarrow> bool list \<Rightarrow> bool list" where
  "clear_spawn_target n tid a started =
     (if a_kind a = Spawn \<and> a_target a < n \<and> a_target a \<noteq> tid
      then started[a_target a := False] else started)"

definition initially_started_threads :: "program \<Rightarrow> bool list" where
  "initially_started_threads p =
     fold (\<lambda>tid started. fold (clear_spawn_target (length p) tid) (p ! tid) started)
       [0..<length p] (replicate (length p) True)"

definition initial_registers :: "nat \<Rightarrow> val list list" where
  "initial_registers thread_count = replicate thread_count (replicate kRegisterCount 0)"

definition program_addresses :: "program \<Rightarrow> string list" where
  "program_addresses p =
     mkeys (oinsert_all (filter (\<lambda>address. address \<noteq> []) (map a_address (concat p))) mempty)"

definition add_barrier :: "action \<Rightarrow> (string, barrier_state) omap \<Rightarrow> (string, barrier_state) omap"
where
  "add_barrier a barriers =
     (if a_kind a \<noteq> BarrierWait \<or> mlookup barriers (a_barrier a) \<noteq> None then barriers
      else mupdate (a_barrier a)
        \<lparr>generation = 0, parties = a_parties a, arrivals = mempty, arrival_releases = mempty\<rparr>
        barriers)"

definition initial_barriers :: "program \<Rightarrow> (string, barrier_state) omap" where
  "initial_barriers p = fold add_barrier (concat p) mempty"

definition initial_state :: "program \<Rightarrow> memory_model \<Rightarrow> exec_state" where
  "initial_state p memory_model =
     normalize_all_pcs p
       \<lparr>st_model = memory_model,
        st_pc = replicate (length p) 0,
        st_started = initially_started_threads p,
        st_mutex_owner = mempty,
        st_mutex_clock = mempty,
        st_rwlocks = mempty,
        st_semaphores = mempty,
        st_barriers = initial_barriers p,
        st_waiters = mempty,
        st_clock = replicate (length p) mempty,
        st_registers = initial_registers (length p),
        st_steps = replicate (length p) 0,
        st_phase = replicate (length p) Phase_None,
        st_memory = mempty,
        st_values = mempty,
        st_atomic_clock = mempty,
        st_store_buffers = replicate (length p) [],
        st_pso_buffers = replicate (length p) mempty,
        st_flush_addresses = program_addresses p,
        st_schedule = []\<rparr>"

section \<open>Observers\<close>

definition has_next_action :: "program \<Rightarrow> exec_state \<Rightarrow> nat \<Rightarrow> bool" where
  "has_next_action p s tid = (st_pc s ! tid < length (p ! tid))"

definition is_finished :: "program \<Rightarrow> exec_state \<Rightarrow> nat \<Rightarrow> bool" where
  "is_finished p s tid =
     (st_started s ! tid \<and> \<not> has_next_action p s tid \<and>
      st_store_buffers s ! tid = [] \<and> st_pso_buffers s ! tid = mempty)"

definition all_finished :: "program \<Rightarrow> exec_state \<Rightarrow> bool" where
  "all_finished p s =
     list_all (\<lambda>tid. \<not> (st_started s ! tid \<and> \<not> is_finished p s tid)) [0..<length p]"

text \<open>Callers of \<open>next_action\<close> have checked \<open>has_next_action\<close>.\<close>

definition next_action :: "program \<Rightarrow> exec_state \<Rightarrow> nat \<Rightarrow> action" where
  "next_action p s tid = p ! tid ! (st_pc s ! tid)"

definition valid_register :: "nat \<Rightarrow> bool" where
  "valid_register reg = (reg < kRegisterCount)"

definition read_register :: "exec_state \<Rightarrow> nat \<Rightarrow> nat \<Rightarrow> val res" where
  "read_register s tid reg =
     guarded (valid_register reg) (Logic_Error ''register id out of range'')
       (Inr (st_registers s ! tid ! reg))"

definition store_register :: "exec_state \<Rightarrow> nat \<Rightarrow> nat \<Rightarrow> val \<Rightarrow> exec_state" where
  "store_register s tid reg v =
     s\<lparr>st_registers := (st_registers s)[tid := (st_registers s ! tid)[reg := v]]\<rparr>"

declare store_register_def [state_ops]

definition write_register :: "exec_state \<Rightarrow> nat \<Rightarrow> nat option \<Rightarrow> val \<Rightarrow> exec_state res" where
  "write_register s tid dest v =
     (case dest of None \<Rightarrow> Inr s
      | Some reg \<Rightarrow>
          guarded (valid_register reg) (Logic_Error ''register id out of range'')
            (Inr (store_register s tid reg v)))"

definition evaluate_operand :: "exec_state \<Rightarrow> nat \<Rightarrow> value_operand \<Rightarrow> val res" where
  "evaluate_operand s tid operand =
     (case operand of Register reg \<Rightarrow> read_register s tid reg | Immediate v \<Rightarrow> Inr v)"

definition evaluate_operand_or ::
  "exec_state \<Rightarrow> nat \<Rightarrow> value_operand option \<Rightarrow> val \<Rightarrow> val res" where
  "evaluate_operand_or s tid operand default_value =
     (case operand of None \<Rightarrow> Inr default_value | Some x \<Rightarrow> evaluate_operand s tid x)"

definition value_or :: "'a option \<Rightarrow> 'a \<Rightarrow> 'a" where
  "value_or x d = (case x of None \<Rightarrow> d | Some y \<Rightarrow> y)"

section \<open>Facts about labels and program counters\<close>

lemma skip_labels_label:
  "pc < length thread \<Longrightarrow> a_kind (thread ! pc) = Label \<Longrightarrow>
   skip_labels thread pc = skip_labels thread (Suc pc)"
  by (subst skip_labels.simps) simp

lemma skip_labels_here:
  "\<not> (pc < length thread \<and> a_kind (thread ! pc) = Label) \<Longrightarrow> skip_labels thread pc = pc"
  by (subst skip_labels.simps) auto

lemma skip_labels_ge: "pc \<le> skip_labels thread pc"
proof (induction thread pc rule: skip_labels.induct)
  case (1 thread pc)
  then show ?case by (subst skip_labels.simps) auto
qed

lemma skip_labels_le: "pc \<le> length thread \<Longrightarrow> skip_labels thread pc \<le> length thread"
proof (induction thread pc rule: skip_labels.induct)
  case (1 thread pc)
  then show ?case by (subst skip_labels.simps) auto
qed

lemma skip_labels_stops:
  "skip_labels thread pc < length thread \<Longrightarrow> a_kind (thread ! skip_labels thread pc) \<noteq> Label"
proof (induction thread pc rule: skip_labels.induct)
  case (1 thread pc)
  show ?case
  proof (cases "pc < length thread \<and> a_kind (thread ! pc) = Label")
    case True
    then have "skip_labels thread pc = skip_labels thread (Suc pc)"
      by (simp add: skip_labels_label)
    then show ?thesis using 1 True by simp
  next
    case False
    then have "skip_labels thread pc = pc" by (rule skip_labels_here)
    then show ?thesis using 1 False by auto
  qed
qed

lemma skip_labels_between:
  "pc \<le> i \<Longrightarrow> i < skip_labels thread pc \<Longrightarrow> i < length thread \<and> a_kind (thread ! i) = Label"
proof (induction thread pc rule: skip_labels.induct)
  case (1 thread pc)
  show ?case
  proof (cases "pc < length thread \<and> a_kind (thread ! pc) = Label")
    case True
    then have eq: "skip_labels thread pc = skip_labels thread (Suc pc)"
      by (simp add: skip_labels_label)
    show ?thesis
    proof (cases "pc = i")
      case True
      then show ?thesis using \<open>pc < length thread \<and> _\<close> by simp
    next
      case False
      then show ?thesis using 1 True eq by simp
    qed
  next
    case False
    then have "skip_labels thread pc = pc" by (rule skip_labels_here)
    then show ?thesis using 1 by simp
  qed
qed

lemma skip_labels_idem [simp]: "skip_labels thread (skip_labels thread pc) = skip_labels thread pc"
  using skip_labels_stops [of thread pc] by (intro skip_labels_here) auto

lemma label_index_from_bounds:
  "label_index_from xs l i = Some j \<Longrightarrow>
   i \<le> j \<and> j < i + length xs \<and> a_kind (xs ! (j - i)) = Label \<and> a_label (xs ! (j - i)) = l"
proof (induction xs arbitrary: i)
  case (Cons x xs)
  show ?case
  proof (cases "a_kind x = Label \<and> a_label x = l")
    case True
    then show ?thesis using Cons.prems by auto
  next
    case False
    then have *: "label_index_from xs l (Suc i) = Some j" using Cons.prems by (simp split: if_splits)
    then have "Suc i \<le> j" using Cons.IH by blast
    then have "j - i = Suc (j - Suc i)" by arith
    then show ?thesis using Cons.IH [OF *] by auto
  qed
qed simp

lemma resolve_label_in_thread: "resolve_label p tid l = Some j \<Longrightarrow> j < length (p ! tid)"
  unfolding resolve_label_def using label_index_from_bounds by fastforce

end
