(* ===== verification/Parser.thy ===== *)
theory Parser
  imports Text Machine_State
begin

text \<open>
  The program and schedule parsers and the program printer (src/src/cli/program_parser.cpp).
  Parsing an action is a function of the words of its line; parsing a program is a loop over
  the lines whose state is the record \<open>parser_state\<close>. Opening a file is not modelled: the
  functions take the text.
\<close>

section \<open>Operands\<close>

definition parse_i64_token :: "string \<Rightarrow> nat \<Rightarrow> string \<Rightarrow> val res" where
  "parse_i64_token tok line description =
     (case stoll tok of
        Inl (Invalid_Argument _) \<Rightarrow>
          Inl (Parse_Error line (''invalid '' @ description @ '' '' @ quoted tok))
      | Inl _ \<Rightarrow> Inl (Parse_Error line (description @ '' is too large''))
      | Inr (value, parsed) \<Rightarrow>
          if parsed \<noteq> length tok
          then Inl (Parse_Error line (''invalid '' @ description @ '' '' @ quoted tok))
          else Inr (word_of_int value))"

definition parse_register_token :: "string \<Rightarrow> nat \<Rightarrow> string \<Rightarrow> nat res" where
  "parse_register_token tok line description =
     (if length tok \<noteq> 2 \<or> tok ! 0 \<noteq> CHR ''r'' \<or> \<not> is_digit (tok ! 1)
      then Inl (Parse_Error line (''invalid '' @ description @ '' '' @ quoted tok))
      else if digit_value (tok ! 1) \<ge> kRegisterCount
      then Inl (Parse_Error line (description @ '' is out of range''))
      else Inr (digit_value (tok ! 1)))"

definition parse_value_operand :: "string \<Rightarrow> nat \<Rightarrow> value_operand res" where
  "parse_value_operand tok line =
     (if tok \<noteq> [] \<and> hd tok = CHR ''r''
      then res_bind (parse_register_token tok line ''register operand'') (\<lambda>r. Inr (Register r))
      else res_bind (parse_i64_token tok line ''integer operand'') (\<lambda>v. Inr (Immediate v)))"

definition require_arity :: "string list \<Rightarrow> nat \<Rightarrow> nat \<Rightarrow> string \<Rightarrow> 'a res \<Rightarrow> 'a res" where
  "require_arity words expected line keyword rest =
     (if length words \<noteq> expected
      then Inl (Parse_Error line
        (''keyword '' @ quoted keyword @ '' expects '' @ nat_text (expected - 1) @ '' operand'' @
         (if expected \<noteq> 2 then ''s'' else '''')))
      else rest)"

section \<open>Actions\<close>

text \<open>
  Where an action has several operands the source leaves the order of their evaluation to the
  compiler; the model reads them from left to right. This only decides which of two errors of
  one line is reported.
\<close>

definition memory_action :: "action_kind \<Rightarrow> string \<Rightarrow> action" where
  "memory_action kind address = default_action\<lparr>a_kind := kind, a_address := address\<rparr>"

definition memory_read_action :: "action_kind \<Rightarrow> string \<Rightarrow> nat option \<Rightarrow> action" where
  "memory_read_action kind address destination =
     (memory_action kind address)\<lparr>a_destination := destination\<rparr>"

definition memory_write_action :: "action_kind \<Rightarrow> string \<Rightarrow> value_operand option \<Rightarrow> action" where
  "memory_write_action kind address v = (memory_action kind address)\<lparr>a_value := v\<rparr>"

definition atomic_rmw_action :: "string \<Rightarrow> value_operand option \<Rightarrow> nat option \<Rightarrow> action" where
  "atomic_rmw_action address v destination =
     (memory_action AtomicRmw address)\<lparr>a_value := v, a_destination := destination\<rparr>"

definition cas_action :: "string \<Rightarrow> value_operand \<Rightarrow> value_operand \<Rightarrow> nat \<Rightarrow> action" where
  "cas_action address expected desired destination =
     (memory_action CompareExchange address)
       \<lparr>a_expected := Some expected, a_value := Some desired, a_destination := Some destination\<rparr>"

definition mutex_action :: "action_kind \<Rightarrow> string \<Rightarrow> action" where
  "mutex_action kind mutex = default_action\<lparr>a_kind := kind, a_mutex := mutex\<rparr>"

definition try_lock_action :: "string \<Rightarrow> nat \<Rightarrow> action" where
  "try_lock_action mutex destination =
     (mutex_action TryLock mutex)\<lparr>a_destination := Some destination\<rparr>"

definition rwlock_action :: "action_kind \<Rightarrow> string \<Rightarrow> action" where
  "rwlock_action kind rwlock = default_action\<lparr>a_kind := kind, a_rwlock := rwlock\<rparr>"

definition semaphore_action :: "action_kind \<Rightarrow> string \<Rightarrow> action" where
  "semaphore_action kind semaphore = default_action\<lparr>a_kind := kind, a_semaphore := semaphore\<rparr>"

definition barrier_action :: "string \<Rightarrow> nat \<Rightarrow> action" where
  "barrier_action barrier n =
     default_action\<lparr>a_kind := BarrierWait, a_barrier := barrier, a_parties := n\<rparr>"

definition condition_action :: "action_kind \<Rightarrow> string \<Rightarrow> action" where
  "condition_action kind condition = default_action\<lparr>a_kind := kind, a_condition := condition\<rparr>"

definition wait_action :: "string \<Rightarrow> string \<Rightarrow> action" where
  "wait_action condition mutex =
     default_action\<lparr>a_kind := Wait, a_condition := condition, a_mutex := mutex\<rparr>"

definition timed_wait_action :: "string \<Rightarrow> string \<Rightarrow> nat \<Rightarrow> action" where
  "timed_wait_action condition mutex destination =
     default_action\<lparr>a_kind := TimedWait, a_condition := condition, a_mutex := mutex,
       a_destination := Some destination\<rparr>"

definition join_action :: "nat \<Rightarrow> action" where
  "join_action target = default_action\<lparr>a_kind := Join, a_target := target\<rparr>"

definition spawn_action :: "nat \<Rightarrow> action" where
  "spawn_action target = default_action\<lparr>a_kind := Spawn, a_target := target\<rparr>"

definition yield_action :: action where
  "yield_action = default_action\<lparr>a_kind := Yield\<rparr>"

definition fence_action :: action where
  "fence_action = default_action\<lparr>a_kind := Fence\<rparr>"

definition set_action :: "nat \<Rightarrow> val \<Rightarrow> action" where
  "set_action destination v =
     default_action\<lparr>a_kind := Set, a_destination := Some destination, a_value := Some (Immediate v)\<rparr>"

definition branch_action :: "nat \<Rightarrow> string \<Rightarrow> action" where
  "branch_action source label =
     default_action\<lparr>a_kind := BranchNonzero, a_source := Some source, a_label := label\<rparr>"

definition assert_action :: "nat \<Rightarrow> action" where
  "assert_action source = default_action\<lparr>a_kind := Assert, a_source := Some source\<rparr>"

definition label_action :: "string \<Rightarrow> action" where
  "label_action label = default_action\<lparr>a_kind := Label, a_label := label\<rparr>"

definition is_line_label :: "string list \<Rightarrow> bool" where
  "is_line_label words =
     (length words = 1 \<and> length (hd words) > 1 \<and> last (hd words) = CHR '':'')"

definition line_label_name :: "string \<Rightarrow> string" where
  "line_label_name tok = butlast tok"

text \<open>The shapes of operands that several keywords share.\<close>

definition parse_load :: "action_kind \<Rightarrow> string list \<Rightarrow> nat \<Rightarrow> string \<Rightarrow> action res" where
  "parse_load kind words line keyword =
     (if length words = 2 then Inr (memory_read_action kind (words ! 1) None)
      else if length words = 4 \<and> words ! 2 = ''->'' then
        res_bind (parse_register_token (words ! 3) line ''destination register'') (\<lambda>r.
          Inr (memory_read_action kind (words ! 1) (Some r)))
      else Inl (Parse_Error line
        (''keyword '' @ quoted keyword @ '' expects address or address -> register'')))"

definition parse_store :: "action_kind \<Rightarrow> string list \<Rightarrow> nat \<Rightarrow> string \<Rightarrow> action res" where
  "parse_store kind words line keyword =
     (if length words = 2 then Inr (memory_write_action kind (words ! 1) None)
      else if length words = 3 then
        res_bind (parse_value_operand (words ! 2) line) (\<lambda>v.
          Inr (memory_write_action kind (words ! 1) (Some v)))
      else Inl (Parse_Error line
        (''keyword '' @ quoted keyword @ '' expects address or address value'')))"

definition parse_rmw :: "string list \<Rightarrow> nat \<Rightarrow> action res" where
  "parse_rmw words line =
     (if length words = 2 then Inr (atomic_rmw_action (words ! 1) None None)
      else if length words = 5 \<and> words ! 3 = ''->'' then
        res_bind (parse_value_operand (words ! 2) line) (\<lambda>v.
        res_bind (parse_register_token (words ! 4) line ''destination register'') (\<lambda>r.
          Inr (atomic_rmw_action (words ! 1) (Some v) (Some r))))
      else Inl (Parse_Error line
        (''keyword '' @ quoted ''atomic_rmw'' @ '' expects address or address value -> register'')))"

definition parse_cas :: "string list \<Rightarrow> nat \<Rightarrow> action res" where
  "parse_cas words line =
     require_arity words 6 line ''cas''
       (if words ! 4 \<noteq> ''->''
        then Inl (Parse_Error line
          (''keyword '' @ quoted ''cas'' @ '' expects address expected desired -> register''))
        else
          res_bind (parse_value_operand (words ! 2) line) (\<lambda>expected.
          res_bind (parse_value_operand (words ! 3) line) (\<lambda>desired.
          res_bind (parse_register_token (words ! 5) line ''destination register'') (\<lambda>r.
            Inr (cas_action (words ! 1) expected desired r)))))"

definition parse_try_lock :: "string list \<Rightarrow> nat \<Rightarrow> action res" where
  "parse_try_lock words line =
     require_arity words 4 line ''try_lock''
       (if words ! 2 \<noteq> ''->''
        then Inl (Parse_Error line (''keyword '' @ quoted ''try_lock'' @ '' expects mutex -> register''))
        else res_bind (parse_register_token (words ! 3) line ''destination register'') (\<lambda>r.
               Inr (try_lock_action (words ! 1) r)))"

definition parse_timed_wait :: "string list \<Rightarrow> nat \<Rightarrow> action res" where
  "parse_timed_wait words line =
     require_arity words 5 line ''timedwait''
       (if words ! 3 \<noteq> ''->''
        then Inl (Parse_Error line
          (''keyword '' @ quoted ''timedwait'' @ '' expects condition mutex -> register''))
        else res_bind (parse_register_token (words ! 4) line ''destination register'') (\<lambda>r.
               Inr (timed_wait_action (words ! 1) (words ! 2) r)))"

definition parse_barrier_wait :: "string list \<Rightarrow> nat \<Rightarrow> action res" where
  "parse_barrier_wait words line =
     require_arity words 3 line ''barrier_wait''
       (res_bind (parse_u32_token (words ! 2) line ''barrier parties'') (\<lambda>n.
        if n = 0 then Inl (Parse_Error line ''barrier parties must be greater than zero'')
        else Inr (barrier_action (words ! 1) n)))"

text \<open>A keyword with one name, and a keyword with one thread id.\<close>

definition parse_named :: "(string \<Rightarrow> action) \<Rightarrow> string list \<Rightarrow> nat \<Rightarrow> string \<Rightarrow> action res" where
  "parse_named act words line keyword = require_arity words 2 line keyword (Inr (act (words ! 1)))"

definition parse_target ::
  "(nat \<Rightarrow> action) \<Rightarrow> string list \<Rightarrow> nat \<Rightarrow> string \<Rightarrow> string \<Rightarrow> action res" where
  "parse_target act words line keyword description =
     require_arity words 2 line keyword
       (res_bind (parse_u32_token (words ! 1) line description) (\<lambda>t. Inr (act t)))"

definition parse_action :: "string list \<Rightarrow> nat \<Rightarrow> action res" where
  "parse_action words line =
     (let keyword = hd words in
      if is_line_label words then Inr (label_action (line_label_name keyword))
      else if keyword = ''set'' then
        require_arity words 3 line keyword
          (res_bind (parse_register_token (words ! 1) line ''destination register'') (\<lambda>r.
           res_bind (parse_i64_token (words ! 2) line ''set immediate'') (\<lambda>v. Inr (set_action r v))))
      else if keyword = ''label'' then parse_named label_action words line keyword
      else if keyword = ''bnz'' then
        require_arity words 3 line keyword
          (res_bind (parse_register_token (words ! 1) line ''branch register'') (\<lambda>r.
             Inr (branch_action r (words ! 2))))
      else if keyword = ''assert'' then
        require_arity words 2 line keyword
          (res_bind (parse_register_token (words ! 1) line ''assert register'') (\<lambda>r.
             Inr (assert_action r)))
      else if keyword = ''read'' then parse_load Read words line keyword
      else if keyword = ''write'' then parse_store Write words line keyword
      else if keyword = ''atomic_load'' then parse_load AtomicLoad words line keyword
      else if keyword = ''atomic_store'' then parse_store AtomicStore words line keyword
      else if keyword = ''atomic_rmw'' then parse_rmw words line
      else if keyword = ''cas'' then parse_cas words line
      else if keyword = ''fence'' then require_arity words 1 line keyword (Inr fence_action)
      else if keyword = ''lock'' then parse_named (mutex_action Lock) words line keyword
      else if keyword = ''try_lock'' then parse_try_lock words line
      else if keyword = ''unlock'' then parse_named (mutex_action Unlock) words line keyword
      else if keyword = ''rlock'' then parse_named (rwlock_action RLock) words line keyword
      else if keyword = ''runlock'' then parse_named (rwlock_action RUnlock) words line keyword
      else if keyword = ''wlock'' then parse_named (rwlock_action WLock) words line keyword
      else if keyword = ''wunlock'' then parse_named (rwlock_action WUnlock) words line keyword
      else if keyword = ''upgrade'' then parse_named (rwlock_action Upgrade) words line keyword
      else if keyword = ''downgrade'' then parse_named (rwlock_action Downgrade) words line keyword
      else if keyword = ''sem_post'' then parse_named (semaphore_action SemPost) words line keyword
      else if keyword = ''sem_wait'' then parse_named (semaphore_action SemWait) words line keyword
      else if keyword = ''barrier_wait'' then parse_barrier_wait words line
      else if keyword = ''wait'' then
        require_arity words 3 line keyword (Inr (wait_action (words ! 1) (words ! 2)))
      else if keyword = ''timedwait'' then parse_timed_wait words line
      else if keyword = ''signal'' then parse_named (condition_action Signal) words line keyword
      else if keyword = ''broadcast'' then parse_named (condition_action Broadcast) words line keyword
      else if keyword = ''join'' then parse_target join_action words line keyword ''join target''
      else if keyword = ''spawn'' then parse_target spawn_action words line keyword ''spawn target''
      else if keyword = ''yield'' then require_arity words 1 line keyword (Inr yield_action)
      else Inl (Parse_Error line (''unknown keyword '' @ quoted keyword)))"

section \<open>The loop over the lines\<close>

record spawn_reference =
  sp_line :: nat
  sp_source :: nat
  sp_target :: nat

record branch_reference =
  br_line :: nat
  br_source :: nat
  br_label :: string

record parser_state =
  ps_program :: program
  ps_joins :: "(nat \<times> nat) list"
  ps_spawns :: "spawn_reference list"
  ps_branches :: "branch_reference list"
  ps_labels :: "(string, nat) omap list"
  ps_mutexes :: "(string, nat) omap"
  ps_rwlocks :: "(string, nat) omap"
  ps_semaphores :: "(string, nat) omap"
  ps_conditions :: "(string, nat) omap"
  ps_barriers :: "(string, nat \<times> nat) omap"
  ps_current :: "nat option"

definition start_parsing :: parser_state where
  "start_parsing = \<lparr>ps_program = [], ps_joins = [], ps_spawns = [], ps_branches = [],
     ps_labels = [], ps_mutexes = mempty, ps_rwlocks = mempty, ps_semaphores = mempty,
     ps_conditions = mempty, ps_barriers = mempty, ps_current = None\<rparr>"

definition uses_mutex :: "action \<Rightarrow> bool" where
  "uses_mutex a = (a_kind a \<in> {Lock, TryLock, Unlock, Wait, TimedWait})"

definition uses_rwlock :: "action \<Rightarrow> bool" where
  "uses_rwlock a = (a_kind a \<in> {RLock, RUnlock, WLock, WUnlock, Upgrade, Downgrade})"

definition uses_semaphore :: "action \<Rightarrow> bool" where
  "uses_semaphore a = (a_kind a \<in> {SemPost, SemWait})"

definition uses_condition :: "action \<Rightarrow> bool" where
  "uses_condition a = (a_kind a \<in> {Wait, TimedWait, Signal, Broadcast})"

definition uses_barrier :: "action \<Rightarrow> bool" where
  "uses_barrier a = (a_kind a = BarrierWait)"

text \<open>A name found in the first uses of another kind is an error; \<open>line_of\<close> gives that first line.\<close>

definition reject_use ::
  "nat \<Rightarrow> string \<Rightarrow> (string, 'b) omap \<Rightarrow> ('b \<Rightarrow> nat) \<Rightarrow> string \<Rightarrow> string \<Rightarrow> 'a res \<Rightarrow> 'a res" where
  "reject_use line name first_use line_of other this rest =
     (case mlookup first_use name of
        None \<Rightarrow> rest
      | Some use \<Rightarrow>
          Inl (Parse_Error line
            (''name '' @ quoted name @ '' is already used as '' @ other @ '' on line '' @
             nat_text (line_of use) @ '' and cannot also be used as '' @ this)))"

definition note_mutex :: "nat \<Rightarrow> action \<Rightarrow> parser_state \<Rightarrow> parser_state res" where
  "note_mutex line a ps =
     (if uses_mutex a then
        reject_use line (a_mutex a) (ps_rwlocks ps) id ''an rwlock'' ''a mutex''
        (reject_use line (a_mutex a) (ps_semaphores ps) id ''a semaphore'' ''a mutex''
        (reject_use line (a_mutex a) (ps_barriers ps) fst ''a barrier'' ''a mutex''
          (Inr (ps\<lparr>ps_mutexes := memplace (a_mutex a) line (ps_mutexes ps)\<rparr>))))
      else Inr ps)"

definition note_rwlock :: "nat \<Rightarrow> action \<Rightarrow> parser_state \<Rightarrow> parser_state res" where
  "note_rwlock line a ps =
     (if uses_rwlock a then
        reject_use line (a_rwlock a) (ps_mutexes ps) id ''a mutex'' ''an rwlock''
        (reject_use line (a_rwlock a) (ps_semaphores ps) id ''a semaphore'' ''an rwlock''
        (reject_use line (a_rwlock a) (ps_barriers ps) fst ''a barrier'' ''an rwlock''
          (Inr (ps\<lparr>ps_rwlocks := memplace (a_rwlock a) line (ps_rwlocks ps)\<rparr>))))
      else Inr ps)"

definition note_semaphore :: "nat \<Rightarrow> action \<Rightarrow> parser_state \<Rightarrow> parser_state res" where
  "note_semaphore line a ps =
     (if uses_semaphore a then
        reject_use line (a_semaphore a) (ps_mutexes ps) id ''a mutex'' ''a semaphore''
        (reject_use line (a_semaphore a) (ps_rwlocks ps) id ''an rwlock'' ''a semaphore''
        (reject_use line (a_semaphore a) (ps_barriers ps) fst ''a barrier'' ''a semaphore''
          (Inr (ps\<lparr>ps_semaphores := memplace (a_semaphore a) line (ps_semaphores ps)\<rparr>))))
      else Inr ps)"

definition note_condition :: "nat \<Rightarrow> action \<Rightarrow> parser_state \<Rightarrow> parser_state res" where
  "note_condition line a ps =
     (if uses_condition a then
        reject_use line (a_condition a) (ps_barriers ps) fst ''a barrier'' ''a condition variable''
          (Inr (ps\<lparr>ps_conditions := memplace (a_condition a) line (ps_conditions ps)\<rparr>))
      else Inr ps)"

definition note_barrier :: "nat \<Rightarrow> action \<Rightarrow> parser_state \<Rightarrow> parser_state res" where
  "note_barrier line a ps =
     (if uses_barrier a then
        reject_use line (a_barrier a) (ps_mutexes ps) id ''a mutex'' ''a barrier''
        (reject_use line (a_barrier a) (ps_rwlocks ps) id ''a rwlock'' ''a barrier''
        (reject_use line (a_barrier a) (ps_semaphores ps) id ''a semaphore'' ''a barrier''
        (reject_use line (a_barrier a) (ps_conditions ps) id ''a condition variable'' ''a barrier''
          (case mlookup (ps_barriers ps) (a_barrier a) of
             None \<Rightarrow>
               Inr (ps\<lparr>ps_barriers := mupdate (a_barrier a) (line, a_parties a) (ps_barriers ps)\<rparr>)
           | Some (first_line, n) \<Rightarrow>
               if n \<noteq> a_parties a
               then Inl (Parse_Error line
                 (''barrier '' @ quoted (a_barrier a) @ '' requires '' @ nat_text n @
                  '' parties from first use on line '' @ nat_text first_line @
                  '', but this action specifies '' @ nat_text (a_parties a)))
               else Inr ps))))
      else Inr ps)"

text \<open>References that are checked after the last line, and the labels of the thread.\<close>

definition note_reference :: "nat \<Rightarrow> nat \<Rightarrow> action \<Rightarrow> parser_state \<Rightarrow> parser_state res" where
  "note_reference line current a ps =
     (if a_kind a = Join then Inr (ps\<lparr>ps_joins := ps_joins ps @ [(line, a_target a)]\<rparr>)
      else if a_kind a = Spawn then
        Inr (ps\<lparr>ps_spawns := ps_spawns ps @
          [\<lparr>sp_line = line, sp_source = current, sp_target = a_target a\<rparr>]\<rparr>)
      else if a_kind a = Label then
        (if mlookup (ps_labels ps ! current) (a_label a) \<noteq> None
         then Inl (Parse_Error line
           (''label '' @ quoted (a_label a) @ '' is already declared in this thread''))
         else Inr (ps\<lparr>ps_labels := (ps_labels ps)[current :=
                mupdate (a_label a) line (ps_labels ps ! current)]\<rparr>))
      else if a_kind a = BranchNonzero then
        Inr (ps\<lparr>ps_branches := ps_branches ps @
          [\<lparr>br_line = line, br_source = current, br_label = a_label a\<rparr>]\<rparr>)
      else Inr ps)"

definition add_thread :: "parser_state \<Rightarrow> parser_state" where
  "add_thread ps =
     ps\<lparr>ps_program := ps_program ps @ [[]], ps_labels := ps_labels ps @ [mempty],
        ps_current := Some (length (ps_program ps))\<rparr>"

definition push_action :: "nat \<Rightarrow> action \<Rightarrow> parser_state \<Rightarrow> parser_state" where
  "push_action current a ps =
     ps\<lparr>ps_program := (ps_program ps)[current := ps_program ps ! current @ [a]]\<rparr>"

definition add_action :: "nat \<Rightarrow> nat \<Rightarrow> action \<Rightarrow> parser_state \<Rightarrow> parser_state res" where
  "add_action line current a ps =
     res_bind (note_mutex line a ps) (\<lambda>ps1.
     res_bind (note_rwlock line a ps1) (\<lambda>ps2.
     res_bind (note_semaphore line a ps2) (\<lambda>ps3.
     res_bind (note_condition line a ps3) (\<lambda>ps4.
     res_bind (note_barrier line a ps4) (\<lambda>ps5.
     res_bind (note_reference line current a ps5) (\<lambda>ps6.
       Inr (push_action current a ps6)))))))"

definition parse_line :: "nat \<times> string \<Rightarrow> parser_state \<Rightarrow> parser_state res" where
  "parse_line numbered ps =
     (let line = fst numbered; stripped = trim (strip_comment (snd numbered));
          words = split_words stripped in
      if stripped = [] \<or> words = [] then Inr ps
      else if hd words = ''thread:'' then
        (if length words \<noteq> 1
         then Inl (Parse_Error line ''thread declaration takes no operands'')
         else Inr (add_thread ps))
      else case ps_current ps of
          None \<Rightarrow> Inl (Parse_Error line ''action appears before first thread declaration'')
        | Some current \<Rightarrow>
            res_bind (parse_action words line) (\<lambda>a. add_action line current a ps))"

section \<open>Checks after the last line\<close>

definition check_join :: "program \<Rightarrow> nat \<times> nat \<Rightarrow> unit \<Rightarrow> unit res" where
  "check_join p join _ =
     (if snd join \<ge> length p
      then Inl (Parse_Error (fst join)
        (''join target '' @ nat_text (snd join) @ '' is not declared''))
      else Inr ())"

definition check_branch :: "(string, nat) omap list \<Rightarrow> branch_reference \<Rightarrow> unit \<Rightarrow> unit res" where
  "check_branch labels branch _ =
     (if mlookup (labels ! br_source branch) (br_label branch) = None
      then Inl (Parse_Error (br_line branch)
        (''branch target label '' @ quoted (br_label branch) @
         '' is not declared in this thread''))
      else Inr ())"

text \<open>The state of the last loop is \<open>first_spawn_line\<close>.\<close>

definition check_spawn :: "program \<Rightarrow> spawn_reference \<Rightarrow> nat list \<Rightarrow> nat list res" where
  "check_spawn p spawn first_spawn_line =
     (let line = sp_line spawn; target = sp_target spawn in
      if target \<ge> length p
      then Inl (Parse_Error line (''spawn target '' @ nat_text target @ '' is not declared''))
      else if target = sp_source spawn
      then Inl (Parse_Error line (''spawn target '' @ nat_text target @ '' is self''))
      else if first_spawn_line ! target \<noteq> 0
      then Inl (Parse_Error line
        (''spawn target '' @ nat_text target @ '' is targeted by more than one spawn''))
      else Inr (first_spawn_line[target := line]))"

definition finish_parsing :: "parser_state \<Rightarrow> program res" where
  "finish_parsing ps =
     (let p = ps_program ps in
      if p = [] then Inl (Parse_Error 0 ''program declares no threads'')
      else
        res_bind (res_fold (check_join p) (ps_joins ps) ()) (\<lambda>_.
        res_bind (res_fold (check_branch (ps_labels ps)) (ps_branches ps) ()) (\<lambda>_.
        res_bind (res_fold (check_spawn p) (ps_spawns ps) (replicate (length p) 0)) (\<lambda>_.
          Inr p))))"

definition parse_program_text :: "string \<Rightarrow> program res" where
  "parse_program_text text =
     res_bind (res_fold parse_line (enumerate 1 (get_lines text)) start_parsing) finish_parsing"

section \<open>Schedules\<close>

definition parse_schedule_line :: "nat \<times> string \<Rightarrow> schedule \<Rightarrow> schedule res" where
  "parse_schedule_line numbered sch =
     (let line = fst numbered; stripped = trim (strip_comment (snd numbered));
          words = split_words stripped in
      if stripped = [] then Inr sch
      else if length words \<noteq> 2 \<and> length words \<noteq> 3
      then Inl (Parse_Error line ''schedule step must be two or three integers'')
      else
        res_bind (if length words = 3
                  then res_bind (parse_u32_token (words ! 2) line ''flush address id'')
                         (\<lambda>f. Inr (Some f))
                  else Inr None) (\<lambda>flush_address.
        res_bind (parse_u32_token (words ! 0) line ''thread id'') (\<lambda>t.
        res_bind (parse_u32_token (words ! 1) line ''action index'') (\<lambda>i.
          Inr (sch @ [Step t i flush_address])))))"

definition parse_schedule_text :: "string \<Rightarrow> schedule res" where
  "parse_schedule_text text = res_fold parse_schedule_line (enumerate 1 (get_lines text)) []"

section \<open>The printer\<close>

definition register_text :: "nat \<Rightarrow> string" where
  "register_text reg = CHR ''r'' # nat_text reg"

definition operand_text :: "value_operand \<Rightarrow> string" where
  "operand_text operand =
     (case operand of Register r \<Rightarrow> register_text r | Immediate v \<Rightarrow> int_text (sint v))"

definition value_or :: "'a option \<Rightarrow> 'a \<Rightarrow> 'a" where
  "value_or x d = (case x of None \<Rightarrow> d | Some v \<Rightarrow> v)"

definition arrow_text :: "nat option \<Rightarrow> string" where
  "arrow_text destination =
     (case destination of None \<Rightarrow> [] | Some r \<Rightarrow> '' -> '' @ register_text r)"

definition spaced_operand :: "value_operand option \<Rightarrow> string" where
  "spaced_operand v = (case v of None \<Rightarrow> [] | Some operand \<Rightarrow> '' '' @ operand_text operand)"

definition action_text :: "action \<Rightarrow> string" where
  "action_text a =
     (case a_kind a of
        Set \<Rightarrow> ''set '' @ register_text (value_or (a_destination a) 0) @ '' '' @
               operand_text (value_or (a_value a) (Immediate 0))
      | Label \<Rightarrow> ''label '' @ a_label a
      | BranchNonzero \<Rightarrow> ''bnz '' @ register_text (value_or (a_source a) 0) @ '' '' @ a_label a
      | Assert \<Rightarrow> ''assert '' @ register_text (value_or (a_source a) 0)
      | Read \<Rightarrow> ''read '' @ a_address a @ arrow_text (a_destination a)
      | Write \<Rightarrow> ''write '' @ a_address a @ spaced_operand (a_value a)
      | AtomicLoad \<Rightarrow> ''atomic_load '' @ a_address a @ arrow_text (a_destination a)
      | AtomicStore \<Rightarrow> ''atomic_store '' @ a_address a @ spaced_operand (a_value a)
      | AtomicRmw \<Rightarrow> ''atomic_rmw '' @ a_address a @
          (if a_value a \<noteq> None \<and> a_destination a \<noteq> None
           then spaced_operand (a_value a) @ arrow_text (a_destination a) else [])
      | CompareExchange \<Rightarrow> ''cas '' @ a_address a @ '' '' @
          operand_text (value_or (a_expected a) (Immediate 0)) @ '' '' @
          operand_text (value_or (a_value a) (Immediate 0)) @ '' -> '' @
          register_text (value_or (a_destination a) 0)
      | Fence \<Rightarrow> ''fence''
      | Flush \<Rightarrow> ''flush '' @ a_address a
      | Lock \<Rightarrow> ''lock '' @ a_mutex a
      | TryLock \<Rightarrow> ''try_lock '' @ a_mutex a @ '' -> '' @ register_text (value_or (a_destination a) 0)
      | Unlock \<Rightarrow> ''unlock '' @ a_mutex a
      | RLock \<Rightarrow> ''rlock '' @ a_rwlock a
      | RUnlock \<Rightarrow> ''runlock '' @ a_rwlock a
      | WLock \<Rightarrow> ''wlock '' @ a_rwlock a
      | WUnlock \<Rightarrow> ''wunlock '' @ a_rwlock a
      | Upgrade \<Rightarrow> ''upgrade '' @ a_rwlock a
      | Downgrade \<Rightarrow> ''downgrade '' @ a_rwlock a
      | SemPost \<Rightarrow> ''sem_post '' @ a_semaphore a
      | SemWait \<Rightarrow> ''sem_wait '' @ a_semaphore a
      | BarrierWait \<Rightarrow> ''barrier_wait '' @ a_barrier a @ '' '' @ nat_text (a_parties a)
      | Spawn \<Rightarrow> ''spawn '' @ nat_text (a_target a)
      | Join \<Rightarrow> ''join '' @ nat_text (a_target a)
      | Wait \<Rightarrow> ''wait '' @ a_condition a @ '' '' @ a_mutex a
      | TimedWait \<Rightarrow> ''timedwait '' @ a_condition a @ '' '' @ a_mutex a @ '' -> '' @
          register_text (value_or (a_destination a) 0)
      | Signal \<Rightarrow> ''signal '' @ a_condition a
      | Broadcast \<Rightarrow> ''broadcast '' @ a_condition a
      | Yield \<Rightarrow> ''yield'')"

definition render_thread :: "action list \<Rightarrow> string" where
  "render_thread thread =
     ''thread:'' @ [CHR 0x0A] @
     concat (map (\<lambda>a. ''  '' @ action_text a @ [CHR 0x0A]) thread)"

definition render_program :: "program \<Rightarrow> string" where
  "render_program p = concat (map render_thread p)"

end
