(* ===== verification/Enabledness.thy ===== *)
theory Enabledness
  imports Machine_State
begin

text \<open>
  Which transitions a state offers (src/src/model/checker.cpp, from \<open>is_buffered_memory_model\<close>
  to \<open>enabled_transitions\<close>): the enabledness of a thread's source action with the TSO/PSO
  ordered-point guard, the flush transitions of pending stores, the effective action of a
  step, and the private occurrence identity (barrier generation, wake targets, timed-wait
  episode) that tells two occurrences of one endpoint apart.
\<close>

section \<open>Store buffers and ordered points\<close>

definition is_buffered_memory_model :: "memory_model \<Rightarrow> bool" where
  "is_buffered_memory_model m = (m = TSO \<or> m = PSO)"

definition has_pending_store :: "exec_state \<Rightarrow> nat \<Rightarrow> bool" where
  "has_pending_store s tid =
     (case st_model s of
        TSO \<Rightarrow> st_store_buffers s ! tid \<noteq> []
      | PSO \<Rightarrow> st_pso_buffers s ! tid \<noteq> mempty
      | SC \<Rightarrow> False)"

definition is_buffered_ordered_point :: "action \<Rightarrow> bool" where
  "is_buffered_ordered_point a =
     (case a_kind a of
        AtomicLoad \<Rightarrow> True | AtomicStore \<Rightarrow> True | AtomicRmw \<Rightarrow> True
      | CompareExchange \<Rightarrow> True | Fence \<Rightarrow> True | Lock \<Rightarrow> True | TryLock \<Rightarrow> True
      | Unlock \<Rightarrow> True | RLock \<Rightarrow> True | RUnlock \<Rightarrow> True | WLock \<Rightarrow> True | WUnlock \<Rightarrow> True
      | Upgrade \<Rightarrow> True | Downgrade \<Rightarrow> True | SemPost \<Rightarrow> True | SemWait \<Rightarrow> True
      | BarrierWait \<Rightarrow> True | Wait \<Rightarrow> True | TimedWait \<Rightarrow> True | Signal \<Rightarrow> True
      | Broadcast \<Rightarrow> True | Join \<Rightarrow> True | Spawn \<Rightarrow> True
      | Set \<Rightarrow> False | Label \<Rightarrow> False | BranchNonzero \<Rightarrow> False | Assert \<Rightarrow> False
      | Read \<Rightarrow> False | Write \<Rightarrow> False | Flush \<Rightarrow> False | Yield \<Rightarrow> False)"

definition flush_action_for :: "string \<Rightarrow> action" where
  "flush_action_for address = default_action\<lparr>a_kind := Flush, a_address := address\<rparr>"

definition lock_action_for :: "string \<Rightarrow> action" where
  "lock_action_for mutex = default_action\<lparr>a_kind := Lock, a_mutex := mutex\<rparr>"

text \<open>A woken \<open>Wait\<close> or \<open>TimedWait\<close> acts as the \<open>Lock\<close> of its mutex.\<close>

definition effective_next_action :: "program \<Rightarrow> exec_state \<Rightarrow> nat \<Rightarrow> action" where
  "effective_next_action p s tid =
     (let a = next_action p s tid in
      if (a_kind a = Wait \<or> a_kind a = TimedWait) \<and> st_phase s ! tid = Woken
      then lock_action_for (a_mutex a) else a)"

definition owns_mutex :: "exec_state \<Rightarrow> nat \<Rightarrow> string \<Rightarrow> bool" where
  "owns_mutex s tid mutex = (mlookup (st_mutex_owner s) mutex = Some tid)"

definition holds_rwlock_read :: "rwlock_state \<Rightarrow> nat \<Rightarrow> bool" where
  "holds_rwlock_read rw tid = omember tid (reader_holders rw)"

definition holds_rwlock_write :: "rwlock_state \<Rightarrow> nat \<Rightarrow> bool" where
  "holds_rwlock_write rw tid = (writer_holder rw = Some tid)"

definition join_target_is_invalid :: "program \<Rightarrow> nat \<Rightarrow> action \<Rightarrow> bool" where
  "join_target_is_invalid p tid a = (a_target a \<ge> length p \<or> a_target a = tid)"

definition spawn_target_is_invalid :: "program \<Rightarrow> nat \<Rightarrow> action \<Rightarrow> bool" where
  "spawn_target_is_invalid p tid a = (a_target a \<ge> length p \<or> a_target a = tid)"

section \<open>Enabledness of a source action\<close>

definition rlock_enabled :: "exec_state \<Rightarrow> nat \<Rightarrow> string \<Rightarrow> bool" where
  "rlock_enabled s tid name =
     (case mlookup (st_rwlocks s) name of None \<Rightarrow> True
      | Some rw \<Rightarrow> (case writer_holder rw of None \<Rightarrow> True | Some w \<Rightarrow> w = tid))"

definition wlock_enabled :: "exec_state \<Rightarrow> nat \<Rightarrow> string \<Rightarrow> bool" where
  "wlock_enabled s tid name =
     (case mlookup (st_rwlocks s) name of None \<Rightarrow> True
      | Some rw \<Rightarrow> (case writer_holder rw of Some w \<Rightarrow> w = tid
                    | None \<Rightarrow> reader_holders rw = mempty))"

definition upgrade_enabled :: "exec_state \<Rightarrow> nat \<Rightarrow> string \<Rightarrow> bool" where
  "upgrade_enabled s tid name =
     (case mlookup (st_rwlocks s) name of None \<Rightarrow> True
      | Some rw \<Rightarrow> if \<not> holds_rwlock_read rw tid then True else msize (reader_holders rw) = 1)"

definition barrier_enabled :: "exec_state \<Rightarrow> nat \<Rightarrow> action \<Rightarrow> bool" where
  "barrier_enabled s tid a =
     (case mlookup (st_barriers s) (a_barrier a) of
        None \<Rightarrow> False \<comment> \<open>excluded by an assertion: every barrier of the program is registered\<close>
      | Some b \<Rightarrow> if a_parties a = 0 \<or> a_parties a \<noteq> parties b then True
                  else \<not> omember tid (arrivals b))"

definition is_program_action_enabled :: "program \<Rightarrow> exec_state \<Rightarrow> nat \<Rightarrow> bool" where
  "is_program_action_enabled p s tid =
     (if \<not> st_started s ! tid then False
      else if \<not> has_next_action p s tid then False
      else let a = next_action p s tid in
        if is_buffered_memory_model (st_model s) \<and> is_buffered_ordered_point a \<and>
           has_pending_store s tid then False
        else case a_kind a of
            Label \<Rightarrow> False
          | Fence \<Rightarrow> True
          | Flush \<Rightarrow> False
          | Lock \<Rightarrow> mlookup (st_mutex_owner s) (a_mutex a) = None
          | TryLock \<Rightarrow> True
          | RLock \<Rightarrow> rlock_enabled s tid (a_rwlock a)
          | WLock \<Rightarrow> wlock_enabled s tid (a_rwlock a)
          | Upgrade \<Rightarrow> upgrade_enabled s tid (a_rwlock a)
          | SemWait \<Rightarrow> (case mlookup (st_semaphores s) (a_semaphore a) of
                          None \<Rightarrow> False | Some sem \<Rightarrow> permits sem > 0)
          | BarrierWait \<Rightarrow> barrier_enabled s tid a
          | Join \<Rightarrow> if join_target_is_invalid p tid a then True
                    else is_finished p s (a_target a)
          | Wait \<Rightarrow> if st_phase s ! tid = Waiting then False
                    else if st_phase s ! tid = Woken
                      then mlookup (st_mutex_owner s) (a_mutex a) = None
                    else True
          | TimedWait \<Rightarrow> if st_phase s ! tid = Waiting then True
                    else if st_phase s ! tid = Woken
                      then mlookup (st_mutex_owner s) (a_mutex a) = None
                    else True
          | _ \<Rightarrow> True)"

definition any_enabled :: "program \<Rightarrow> exec_state \<Rightarrow> bool" where
  "any_enabled p s =
     list_ex (\<lambda>tid. has_pending_store s tid \<or> is_program_action_enabled p s tid) [0..<length p]"

section \<open>Enabled steps\<close>

text \<open>The index \<open>std::lower_bound\<close> finds in an ascending vector.\<close>

definition lower_bound_index :: "string list \<Rightarrow> string \<Rightarrow> nat" where
  "lower_bound_index xs x = length (takeWhile (\<lambda>y. y < x) xs)"

definition flush_steps :: "exec_state \<Rightarrow> nat \<Rightarrow> schedule_step list" where
  "flush_steps s tid =
     (if has_pending_store s tid then
        if st_model s = TSO then [Step tid kFlushActionIndex None]
        else map (\<lambda>(address, values).
                    Step tid kFlushActionIndex
                      (Some (lower_bound_index (st_flush_addresses s) address)))
               (mentries (st_pso_buffers s ! tid))
      else [])"

definition enabled_steps_for_thread :: "program \<Rightarrow> exec_state \<Rightarrow> nat \<Rightarrow> schedule_step list" where
  "enabled_steps_for_thread p s tid =
     (if \<not> st_started s ! tid then []
      else (if is_program_action_enabled p s tid then [Step tid (st_pc s ! tid) None] else [])
           @ flush_steps s tid)"

definition enabled_steps :: "program \<Rightarrow> exec_state \<Rightarrow> schedule_step list" where
  "enabled_steps p s = sort (concat (map (enabled_steps_for_thread p s) [0..<length p]))"

text \<open>
  The action a step performs. On a flush step the source asserts that the store is pending;
  the empty-buffer branch is unreachable for an enabled step.
\<close>

definition effective_action_for_step :: "program \<Rightarrow> exec_state \<Rightarrow> schedule_step \<Rightarrow> action" where
  "effective_action_for_step p s step =
     (if is_flush_step step then
        if st_model s = TSO then
          (case st_store_buffers s ! s_thread step of
             [] \<Rightarrow> flush_action_for []
           | (address, v) # _ \<Rightarrow> flush_action_for address)
        else
          (case s_flush step of
             None \<Rightarrow> flush_action_for []
           | Some address_id \<Rightarrow>
               if address_id < length (st_flush_addresses s)
               then flush_action_for (st_flush_addresses s ! address_id)
               else flush_action_for [])
      else effective_next_action p s (s_thread step))"

section \<open>Occurrence identities\<close>

definition broadcast_waking_set_for :: "exec_state \<Rightarrow> action \<Rightarrow> nat list option" where
  "broadcast_waking_set_for s a =
     (if a_kind a \<noteq> Broadcast then None else Some (mget [] (st_waiters s) (a_condition a)))"

record wait_episode =
  we_thread :: nat
  we_index :: nat
  we_episode :: nat

datatype timed_wait_transition = Park | Timeout

type_synonym timed_wait_occurrence = "timed_wait_transition \<times> nat"

record occurrence =
  oc_generation :: "nat option"
  oc_wake_targets :: "wait_episode list option"
  oc_timed_wait :: "timed_wait_occurrence option"

definition no_occurrence :: occurrence where
  "no_occurrence = \<lparr>oc_generation = None, oc_wake_targets = None, oc_timed_wait = None\<rparr>"

definition wait_episode_identity_for :: "exec_state \<Rightarrow> nat \<Rightarrow> wait_episode" where
  "wait_episode_identity_for s waiter =
     \<lparr>we_thread = waiter, we_index = st_pc s ! waiter, we_episode = st_steps s ! waiter\<rparr>"

definition condition_wake_targets_for :: "exec_state \<Rightarrow> action \<Rightarrow> wait_episode list option" where
  "condition_wake_targets_for s a =
     (if a_kind a \<noteq> Signal \<and> a_kind a \<noteq> Broadcast then None
      else let waiters = mget [] (st_waiters s) (a_condition a) in
        Some (map (wait_episode_identity_for s)
          (if a_kind a = Signal then take 1 waiters else waiters)))"

definition timed_wait_occurrence_for ::
  "exec_state \<Rightarrow> schedule_step \<Rightarrow> action \<Rightarrow> timed_wait_occurrence option" where
  "timed_wait_occurrence_for s step a =
     (if a_kind a \<noteq> TimedWait then None
      else case st_phase s ! s_thread step of
          Phase_None \<Rightarrow> Some (Park, st_steps s ! s_thread step + 1)
        | Waiting \<Rightarrow> Some (Timeout, st_steps s ! s_thread step)
        | Woken \<Rightarrow> None)"

definition transition_occurrence_identity_for ::
  "exec_state \<Rightarrow> schedule_step \<Rightarrow> action \<Rightarrow> occurrence" where
  "transition_occurrence_identity_for s step a =
     \<lparr>oc_generation =
        (if a_kind a = BarrierWait
         then map_option generation (mlookup (st_barriers s) (a_barrier a)) else None),
      oc_wake_targets = condition_wake_targets_for s a,
      oc_timed_wait = timed_wait_occurrence_for s step a\<rparr>"

record enabled_transition =
  et_endpoint :: schedule_step
  et_action :: action
  et_occurrence :: occurrence

type_synonym transition_map = "(schedule_step, enabled_transition) omap"

definition enabled_transition_for :: "program \<Rightarrow> exec_state \<Rightarrow> schedule_step \<Rightarrow> enabled_transition"
where
  "enabled_transition_for p s step =
     (let a = effective_action_for_step p s step in
      \<lparr>et_endpoint = step, et_action = a,
       et_occurrence = transition_occurrence_identity_for s step a\<rparr>)"

definition enabled_transitions_of ::
  "program \<Rightarrow> exec_state \<Rightarrow> schedule_step list \<Rightarrow> transition_map" where
  "enabled_transitions_of p s enabled =
     fold (\<lambda>step acc. memplace step (enabled_transition_for p s step) acc) enabled mempty"

definition enabled_transitions :: "program \<Rightarrow> exec_state \<Rightarrow> transition_map" where
  "enabled_transitions p s = enabled_transitions_of p s (enabled_steps p s)"

section \<open>Facts about enabled steps\<close>

lemma mlookup_enabled_transitions_of:
  "mlookup (enabled_transitions_of p s steps) st =
     (if st \<in> set steps then Some (enabled_transition_for p s st) else None)"
proof -
  have "mlookup (fold (\<lambda>step acc. memplace step (enabled_transition_for p s step) acc) steps m) st =
      (case mlookup m st of Some x \<Rightarrow> Some x
       | None \<Rightarrow> if st \<in> set steps then Some (enabled_transition_for p s st) else None)" for m
    by (induction steps arbitrary: m) (auto simp: mget_def split: option.splits)
  then show ?thesis by (simp add: enabled_transitions_of_def)
qed

lemma set_enabled_steps:
  "st \<in> set (enabled_steps p s) \<longleftrightarrow>
     (\<exists>tid<length p. st \<in> set (enabled_steps_for_thread p s tid))"
  by (auto simp: enabled_steps_def)

lemma mlookup_enabled_transitions:
  "mlookup (enabled_transitions p s) st =
     (if st \<in> set (enabled_steps p s) then Some (enabled_transition_for p s st) else None)"
  by (simp add: enabled_transitions_def mlookup_enabled_transitions_of)

lemma enabled_steps_for_thread_thread:
  "st \<in> set (enabled_steps_for_thread p s tid) \<Longrightarrow> s_thread st = tid"
  by (auto simp: enabled_steps_for_thread_def flush_steps_def split: if_splits)

lemma enabled_step_thread: "st \<in> set (enabled_steps p s) \<Longrightarrow> s_thread st < length p"
  using enabled_steps_for_thread_thread by (auto simp: set_enabled_steps)

lemma enabled_step_iff:
  "st \<in> set (enabled_steps p s) \<longleftrightarrow>
     s_thread st < length p \<and> st \<in> set (enabled_steps_for_thread p s (s_thread st))"
  using enabled_steps_for_thread_thread by (auto simp: set_enabled_steps)

end
