(* ===== verification/Dpor_Node.thy ===== *)
theory Dpor_Node
  imports Enabledness
begin

text \<open>
  Nodes of the DPOR search tree (src/src/model/checker.cpp, \<open>DporNode\<close>,
  \<open>ExecutedTransition\<close> and the functions \<open>*_at_node\<close>, \<open>enabler_heads_*\<close> and
  \<open>disabled_repair_steps\<close>). A node keeps the scheduling choices of one state together with
  the part of the state that later repairs consult. The step vectors of a node are ascending,
  where \<open>std::binary_search\<close> is membership.
\<close>

section \<open>Transitions and nodes\<close>

text \<open>
  The thread, action, endpoint and occurrence by which the source passes a transition around;
  an executed transition adds the clock after the step and the thread it spawned.
\<close>

record transition =
  tr_thread :: nat
  tr_action :: action
  tr_endpoint :: schedule_step
  tr_occurrence :: occurrence

record executed_transition = transition +
  tr_clock :: vclock
  tr_spawned :: "nat option"

definition enabled_as_transition :: "schedule_step \<Rightarrow> enabled_transition \<Rightarrow> transition" where
  "enabled_as_transition step et =
     \<lparr>tr_thread = s_thread step, tr_action = et_action et, tr_endpoint = et_endpoint et,
      tr_occurrence = et_occurrence et\<rparr>"

record dpor_node =
  dn_enabled :: "schedule_step list"
  dn_transitions :: transition_map
  dn_backtrack :: "schedule_step list"
  dn_done :: "schedule_step list"
  dn_sleep :: "schedule_step list"
  dn_pc :: "nat list"
  dn_started :: "bool list"
  dn_mutex_owner :: "(string, nat) omap"
  dn_rwlocks :: "(string, rwlock_state) omap"
  dn_phase :: "wait_phase list"
  dn_store_buffers :: "store_buffer_entry list list"
  dn_pso_buffers :: "pso_address_buffer list"
  dn_barriers :: "(string, barrier_state) omap"

text \<open>The node \<open>dpor_dfs\<close> pushes for a state.\<close>

definition dpor_node_for :: "program \<Rightarrow> exec_state \<Rightarrow> schedule_step list \<Rightarrow> dpor_node" where
  "dpor_node_for p s sleep_set =
     \<lparr>dn_enabled = enabled_steps p s,
      dn_transitions = enabled_transitions_of p s (enabled_steps p s),
      dn_backtrack = [], dn_done = [], dn_sleep = sleep_set,
      dn_pc = st_pc s, dn_started = st_started s, dn_mutex_owner = st_mutex_owner s,
      dn_rwlocks = st_rwlocks s, dn_phase = st_phase s, dn_store_buffers = st_store_buffers s,
      dn_pso_buffers = st_pso_buffers s, dn_barriers = st_barriers s\<rparr>"

definition transition_enabled_at_node :: "dpor_node \<Rightarrow> 'a transition_scheme \<Rightarrow> bool" where
  "transition_enabled_at_node node t =
     (case mlookup (dn_transitions node) (tr_endpoint t) of
        None \<Rightarrow> False
      | Some et \<Rightarrow> et_endpoint et = tr_endpoint t \<and> et_action et = tr_action t \<and>
                   et_occurrence et = tr_occurrence t)"

definition has_pending_store_at_node :: "dpor_node \<Rightarrow> nat \<Rightarrow> bool" where
  "has_pending_store_at_node node tid =
     (dn_store_buffers node ! tid \<noteq> [] \<or> dn_pso_buffers node ! tid \<noteq> mempty)"

definition has_next_action_at_node :: "program \<Rightarrow> dpor_node \<Rightarrow> nat \<Rightarrow> bool" where
  "has_next_action_at_node p node tid = (dn_pc node ! tid < length (p ! tid))"

definition is_finished_at_node :: "program \<Rightarrow> dpor_node \<Rightarrow> nat \<Rightarrow> bool" where
  "is_finished_at_node p node tid =
     (dn_started node ! tid \<and> \<not> has_next_action_at_node p node tid \<and>
      \<not> has_pending_store_at_node node tid)"

definition next_action_at_node :: "program \<Rightarrow> dpor_node \<Rightarrow> nat \<Rightarrow> action" where
  "next_action_at_node p node tid = p ! tid ! (dn_pc node ! tid)"

definition effective_next_action_at_node :: "program \<Rightarrow> dpor_node \<Rightarrow> nat \<Rightarrow> action" where
  "effective_next_action_at_node p node tid =
     (let a = next_action_at_node p node tid in
      if (a_kind a = Wait \<or> a_kind a = TimedWait) \<and> dn_phase node ! tid = Woken
      then lock_action_for (a_mutex a) else a)"

definition enabled_steps_for_thread_at_node :: "dpor_node \<Rightarrow> nat \<Rightarrow> schedule_step list" where
  "enabled_steps_for_thread_at_node node tid =
     filter (\<lambda>step. s_thread step = tid) (dn_enabled node)"

definition enabled_at_node :: "dpor_node \<Rightarrow> nat \<Rightarrow> bool" where
  "enabled_at_node node tid = (enabled_steps_for_thread_at_node node tid \<noteq> [])"

section \<open>Who could enable a thread\<close>

definition append_steps :: "schedule_step list \<Rightarrow> schedule_step list \<Rightarrow> schedule_step list" where
  "append_steps destination source = fold vec_insert source destination"

text \<open>The actions of a thread from its program counter on.\<close>

definition remaining_actions :: "program \<Rightarrow> dpor_node \<Rightarrow> nat \<Rightarrow> action list" where
  "remaining_actions p node source = drop (dn_pc node ! source) (p ! source)"

definition has_remaining_spawn_to :: "program \<Rightarrow> dpor_node \<Rightarrow> nat \<Rightarrow> nat \<Rightarrow> bool" where
  "has_remaining_spawn_to p node source target =
     (if target \<ge> length p \<or> source = target then False
      else list_ex (\<lambda>a. a_kind a = Spawn \<and> a_target a = target) (remaining_actions p node source))"

definition has_remaining_wake_on :: "program \<Rightarrow> dpor_node \<Rightarrow> nat \<Rightarrow> string \<Rightarrow> bool" where
  "has_remaining_wake_on p node source condition =
     list_ex (\<lambda>a. (a_kind a = Signal \<or> a_kind a = Broadcast) \<and> a_condition a = condition)
       (remaining_actions p node source)"

text \<open>
  The loops over candidate enablers: the heads of all of them, \<open>nullopt\<close> as soon as one
  has none, and \<open>nullopt\<close> when nothing was collected.
\<close>

type_synonym heads = "schedule_step list option"

fun union_heads :: "(nat \<Rightarrow> heads) \<Rightarrow> nat list \<Rightarrow> schedule_step list \<Rightarrow> heads" where
  "union_heads f [] acc = (if acc = [] then None else Some acc)"
| "union_heads f (t # ts) acc =
     (case f t of None \<Rightarrow> None | Some hs \<Rightarrow> union_heads f ts (append_steps acc hs))"

text \<open>
  Each function takes the recursive \<open>enabler_heads_for_thread\<close>, already applied to the
  visiting threads, as its last argument.
\<close>

definition enabler_heads_for_spawn_target ::
  "program \<Rightarrow> dpor_node \<Rightarrow> nat \<Rightarrow> (nat \<Rightarrow> heads) \<Rightarrow> heads" where
  "enabler_heads_for_spawn_target p node target heads_of =
     union_heads heads_of
       (filter (\<lambda>source. has_remaining_spawn_to p node source target) [0..<length p]) []"

definition enabler_heads_for_waiter ::
  "program \<Rightarrow> dpor_node \<Rightarrow> action \<Rightarrow> (nat \<Rightarrow> heads) \<Rightarrow> heads" where
  "enabler_heads_for_waiter p node wait_action heads_of =
     union_heads heads_of
       (filter (\<lambda>source. has_remaining_wake_on p node source (a_condition wait_action))
         [0..<length p]) []"

definition enabler_heads_for_mutex_owner ::
  "dpor_node \<Rightarrow> string \<Rightarrow> nat \<Rightarrow> (nat \<Rightarrow> heads) \<Rightarrow> heads" where
  "enabler_heads_for_mutex_owner node mutex blocked heads_of =
     (case mlookup (dn_mutex_owner node) mutex of
        None \<Rightarrow> None
      | Some owner \<Rightarrow> if owner = blocked then None else heads_of owner)"

definition enabler_heads_for_rwlock_writer ::
  "dpor_node \<Rightarrow> string \<Rightarrow> nat \<Rightarrow> (nat \<Rightarrow> heads) \<Rightarrow> heads" where
  "enabler_heads_for_rwlock_writer node name blocked heads_of =
     (case mlookup (dn_rwlocks node) name of
        None \<Rightarrow> None
      | Some rw \<Rightarrow> (case writer_holder rw of
            None \<Rightarrow> None
          | Some w \<Rightarrow> if w = blocked then None else heads_of w))"

definition enabler_heads_for_rwlock_readers ::
  "dpor_node \<Rightarrow> string \<Rightarrow> nat \<Rightarrow> bool \<Rightarrow> (nat \<Rightarrow> heads) \<Rightarrow> heads" where
  "enabler_heads_for_rwlock_readers node name blocked skip_blocked_reader heads_of =
     (case mlookup (dn_rwlocks node) name of
        None \<Rightarrow> None
      | Some rw \<Rightarrow>
          if reader_holders rw = mempty then None
          else union_heads (\<lambda>reader. if reader = blocked then None else heads_of reader)
                 (filter (\<lambda>reader. \<not> (reader = blocked \<and> skip_blocked_reader))
                   (mkeys (reader_holders rw))) [])"

definition enabler_heads_for_wlock ::
  "dpor_node \<Rightarrow> string \<Rightarrow> nat \<Rightarrow> (nat \<Rightarrow> heads) \<Rightarrow> heads" where
  "enabler_heads_for_wlock node name blocked heads_of =
     (case mlookup (dn_rwlocks node) name of
        Some rw \<Rightarrow>
          if writer_holder rw \<noteq> None then enabler_heads_for_rwlock_writer node name blocked heads_of
          else enabler_heads_for_rwlock_readers node name blocked False heads_of
      | None \<Rightarrow> enabler_heads_for_rwlock_readers node name blocked False heads_of)"

text \<open>The switch over the action a blocked thread waits at.\<close>

definition blocked_thread_heads :: "program \<Rightarrow> dpor_node \<Rightarrow> nat \<Rightarrow> (nat \<Rightarrow> heads) \<Rightarrow> heads" where
  "blocked_thread_heads p node tid heads_of =
     (let static = next_action_at_node p node tid;
          a = effective_next_action_at_node p node tid in
      case a_kind a of
        Lock \<Rightarrow> enabler_heads_for_mutex_owner node (a_mutex a) tid heads_of
      | RLock \<Rightarrow> enabler_heads_for_rwlock_writer node (a_rwlock a) tid heads_of
      | WLock \<Rightarrow> enabler_heads_for_wlock node (a_rwlock a) tid heads_of
      | Upgrade \<Rightarrow> enabler_heads_for_rwlock_readers node (a_rwlock a) tid True heads_of
      | Join \<Rightarrow> if \<not> join_target_is_invalid p tid a then heads_of (a_target a) else None
      | Wait \<Rightarrow> if dn_phase node ! tid = Waiting
                 then enabler_heads_for_waiter p node static heads_of else None
      | _ \<Rightarrow> None)"

text \<open>
  \<open>visiting\<close> lists the threads whose flag is set; the source clears the flag of a thread on
  every return, so a caller's list is unchanged by a call.
\<close>

function enabler_heads_for_thread :: "program \<Rightarrow> dpor_node \<Rightarrow> nat list \<Rightarrow> nat \<Rightarrow> heads" where
  "enabler_heads_for_thread p node visiting tid =
     (if tid \<ge> length p then None
      else if tid \<in> set visiting then None
      else
        let heads_of = enabler_heads_for_thread p node (tid # visiting) in
        if \<not> dn_started node ! tid then enabler_heads_for_spawn_target p node tid heads_of
        else if is_finished_at_node p node tid then None
        else if enabled_at_node node tid then Some (enabled_steps_for_thread_at_node node tid)
        else blocked_thread_heads p node tid heads_of)"
  by pat_completeness auto
termination
proof (relation "measure (\<lambda>(p, node, visiting, tid). card ({..<length p} - set visiting))")
  fix p :: program and node :: dpor_node and visiting :: "nat list" and tid u :: nat
  assume "\<not> length p \<le> tid" "tid \<notin> set visiting"
  then have "card (({..<length p} - set visiting) - {tid}) < card ({..<length p} - set visiting)"
    by (intro card_Diff1_less) simp_all
  moreover have "{..<length p} - set (tid # visiting) = ({..<length p} - set visiting) - {tid}"
    unfolding list.set by blast
  ultimately show "((p, node, tid # visiting, u), p, node, visiting, tid)
      \<in> measure (\<lambda>(p, node, visiting, tid). card ({..<length p} - set visiting))"
    by simp
qed simp

declare enabler_heads_for_thread.simps [simp del]

section \<open>Repairs for a transition that is disabled at a node\<close>

definition disabled_repair_steps :: "program \<Rightarrow> dpor_node \<Rightarrow> 'a transition_scheme \<Rightarrow> heads" where
  "disabled_repair_steps p node current =
     (let tid = tr_thread current; heads_of = enabler_heads_for_thread p node [] in
      if tid \<ge> length p then None
      else if \<not> dn_started node ! tid then enabler_heads_for_spawn_target p node tid heads_of
      else if dn_pc node ! tid < s_index (tr_endpoint current) then heads_of tid
      else if \<not> has_next_action_at_node p node tid then None
      else if dn_pc node ! tid \<noteq> s_index (tr_endpoint current) then None
      else
        let static = next_action_at_node p node tid;
            same = (static = tr_action current) in
        case a_kind (effective_next_action_at_node p node tid) of
          RLock \<Rightarrow>
            if same then enabler_heads_for_rwlock_writer node (a_rwlock static) tid heads_of else None
        | WLock \<Rightarrow> if same then enabler_heads_for_wlock node (a_rwlock static) tid heads_of else None
        | Upgrade \<Rightarrow>
            if same then enabler_heads_for_rwlock_readers node (a_rwlock static) tid True heads_of
            else None
        | Join \<Rightarrow>
            if same \<and> \<not> join_target_is_invalid p tid static then heads_of (a_target static)
            else None
        | Wait \<Rightarrow>
            if same \<and> dn_phase node ! tid = Waiting
            then enabler_heads_for_waiter p node static heads_of else None
        | _ \<Rightarrow> None)"

definition add_repair_steps :: "schedule_step list \<Rightarrow> dpor_node \<Rightarrow> dpor_node" where
  "add_repair_steps steps node =
     fold (\<lambda>step n.
         if step \<in> set (dn_enabled n)
         then n\<lparr>dn_backtrack := vec_insert step (dn_backtrack n),
                dn_sleep := vec_remove step (dn_sleep n)\<rparr>
         else n) steps node"

definition add_all_enabled_repair_steps :: "dpor_node \<Rightarrow> dpor_node" where
  "add_all_enabled_repair_steps node = add_repair_steps (dn_enabled node) node"

fun next_unexplored :: "schedule_step list \<Rightarrow> schedule_step list \<Rightarrow> schedule_step option" where
  "next_unexplored [] finished = None"
| "next_unexplored (x # xs) finished =
     (if x \<in> set finished then next_unexplored xs finished else Some x)"

definition next_unexplored_backtrack :: "dpor_node \<Rightarrow> schedule_step option" where
  "next_unexplored_backtrack node = next_unexplored (dn_backtrack node) (dn_done node)"

end
