(* ===== verification/Independence.thy ===== *)
theory Independence
  imports Dpor_Node
begin

text \<open>
  The pruning predicate of the DPOR explorer (src/src/model/checker.cpp,
  \<open>transitions_independent\<close> and \<open>transitions_independent_at_node\<close>): the action-only relation
  refined by the threads, the program, the memory model and the state at a node.
\<close>

section \<open>Independence in a program\<close>

definition join_independent_from_transition ::
  "program \<Rightarrow> nat \<Rightarrow> action \<Rightarrow> nat \<Rightarrow> action \<Rightarrow> bool" where
  "join_independent_from_transition p join_thread join_action other_thread other_action =
     (if join_target_is_invalid p join_thread join_action then False
      else if other_thread = a_target join_action then False
      else if a_kind other_action = Spawn then False
      else if a_kind other_action = Join \<and>
              \<not> join_target_is_invalid p other_thread other_action \<and>
              a_target other_action = join_thread then False
      else True)"

definition is_reader_rwlock_action :: "action \<Rightarrow> bool" where
  "is_reader_rwlock_action a = (a_kind a = RLock \<or> a_kind a = RUnlock)"

definition program_has_writer_mode_action_for_rwlock :: "program \<Rightarrow> string \<Rightarrow> bool" where
  "program_has_writer_mode_action_for_rwlock p name =
     list_ex (list_ex (\<lambda>a. (a_kind a = WLock \<or> a_kind a = WUnlock \<or> a_kind a = Upgrade \<or>
                            a_kind a = Downgrade) \<and> a_rwlock a = name)) p"

definition program_has_upgrade_action_for_rwlock :: "program \<Rightarrow> string \<Rightarrow> bool" where
  "program_has_upgrade_action_for_rwlock p name =
     list_ex (list_ex (\<lambda>a. a_kind a = Upgrade \<and> a_rwlock a = name)) p"

definition transitions_independent ::
  "program \<Rightarrow> memory_model \<Rightarrow> nat \<Rightarrow> action \<Rightarrow> nat \<Rightarrow> action \<Rightarrow> bool" where
  "transitions_independent p m lhs_thread lhs rhs_thread rhs =
     (if lhs_thread = rhs_thread \<and> a_kind lhs = Flush \<and> a_kind rhs = Flush \<and>
         a_address lhs \<noteq> [] \<and> a_address rhs \<noteq> [] \<and> a_address lhs \<noteq> a_address rhs then True
      else if lhs_thread = rhs_thread then False
      else if a_kind lhs = Join \<or> a_kind rhs = Join then
        (if a_kind lhs = Join \<and>
            \<not> join_independent_from_transition p lhs_thread lhs rhs_thread rhs then False
         else if a_kind rhs = Join \<and>
            \<not> join_independent_from_transition p rhs_thread rhs lhs_thread lhs then False
         else True)
      else if a_kind lhs = RLock \<and> a_kind rhs = RLock \<and> a_rwlock lhs = a_rwlock rhs \<and>
              \<not> program_has_upgrade_action_for_rwlock p (a_rwlock lhs) then True
      else if is_reader_rwlock_action lhs \<and> is_reader_rwlock_action rhs \<and>
              a_rwlock lhs = a_rwlock rhs \<and>
              \<not> program_has_writer_mode_action_for_rwlock p (a_rwlock lhs) then True
      else if m \<noteq> SC \<and> (a_kind lhs = Write \<or> a_kind rhs = Write) \<and>
              a_kind lhs \<noteq> Spawn \<and> a_kind rhs \<noteq> Spawn then True
      else independent lhs rhs)"

section \<open>Independence at a node\<close>

text \<open>A transition of a thread that is enabled at the node, with its very occurrence.\<close>

definition node_enabled_transition_matches :: "dpor_node \<Rightarrow> 'a transition_scheme \<Rightarrow> bool" where
  "node_enabled_transition_matches node t =
     (if s_thread (tr_endpoint t) \<noteq> tr_thread t then False else transition_enabled_at_node node t)"

definition same_mutex_try_locks_independent_at_node ::
  "dpor_node \<Rightarrow> 'a transition_scheme \<Rightarrow> 'b transition_scheme \<Rightarrow> bool" where
  "same_mutex_try_locks_independent_at_node node lhs rhs =
     (if tr_thread lhs = tr_thread rhs \<or> a_kind (tr_action lhs) \<noteq> TryLock \<or>
         a_kind (tr_action rhs) \<noteq> TryLock \<or> a_mutex (tr_action lhs) = [] \<or>
         a_mutex (tr_action lhs) \<noteq> a_mutex (tr_action rhs) \<or>
         tr_occurrence lhs \<noteq> no_occurrence \<or> tr_occurrence rhs \<noteq> no_occurrence \<or>
         \<not> node_enabled_transition_matches node lhs \<or> \<not> node_enabled_transition_matches node rhs
      then False
      else case mlookup (dn_mutex_owner node) (a_mutex (tr_action lhs)) of
          None \<Rightarrow> False
        | Some owner \<Rightarrow> \<not> (owner = tr_thread lhs \<or> owner = tr_thread rhs))"

definition same_barrier_arrivals_independent_at_node ::
  "dpor_node \<Rightarrow> 'a transition_scheme \<Rightarrow> 'b transition_scheme \<Rightarrow> bool" where
  "same_barrier_arrivals_independent_at_node node lhs rhs =
     (case mlookup (dn_barriers node) (a_barrier (tr_action lhs)) of
        None \<Rightarrow> False
      | Some b \<Rightarrow>
          if a_parties (tr_action lhs) = 0 \<or> a_parties (tr_action lhs) \<noteq> parties b \<or>
             a_parties (tr_action rhs) \<noteq> parties b \<or>
             oc_generation (tr_occurrence lhs) = None \<or>
             tr_occurrence lhs \<noteq> tr_occurrence rhs \<or>
             oc_generation (tr_occurrence lhs) \<noteq> Some (generation b) \<or>
             \<not> node_enabled_transition_matches node lhs \<or>
             \<not> node_enabled_transition_matches node rhs \<or>
             omember (tr_thread lhs) (arrivals b) \<or> omember (tr_thread rhs) (arrivals b)
          then False
          else msize (arrivals b) + 2 < parties b)"

definition barrier_arrival_releases_parked_thread ::
  "dpor_node \<Rightarrow> 'a transition_scheme \<Rightarrow> nat \<Rightarrow> bool" where
  "barrier_arrival_releases_parked_thread node t other_thread =
     (if a_kind (tr_action t) \<noteq> BarrierWait \<or> \<not> node_enabled_transition_matches node t then False
      else case mlookup (dn_barriers node) (a_barrier (tr_action t)) of
          None \<Rightarrow> False
        | Some b \<Rightarrow>
            if a_parties (tr_action t) = 0 \<or> a_parties (tr_action t) \<noteq> parties b \<or>
               oc_generation (tr_occurrence t) \<noteq> Some (generation b) then False
            else msize (arrivals b) + 1 = parties b \<and> omember other_thread (arrivals b))"

definition transitions_independent_at_node ::
  "program \<Rightarrow> memory_model \<Rightarrow> dpor_node \<Rightarrow> 'a transition_scheme \<Rightarrow> 'b transition_scheme \<Rightarrow> bool"
where
  "transitions_independent_at_node p m node lhs rhs =
     (if a_kind (tr_action lhs) = TryLock \<and> a_kind (tr_action rhs) = TryLock \<and>
         a_mutex (tr_action lhs) = a_mutex (tr_action rhs)
      then same_mutex_try_locks_independent_at_node node lhs rhs
      else if a_kind (tr_action lhs) = BarrierWait \<and> a_kind (tr_action rhs) = BarrierWait \<and>
              a_barrier (tr_action lhs) = a_barrier (tr_action rhs)
      then same_barrier_arrivals_independent_at_node node lhs rhs
      else if barrier_arrival_releases_parked_thread node lhs (tr_thread rhs) \<or>
              barrier_arrival_releases_parked_thread node rhs (tr_thread lhs) then False
      else transitions_independent p m (tr_thread lhs) (tr_action lhs) (tr_thread rhs) (tr_action rhs))"

section \<open>Symmetry\<close>

lemma may_conflict_sym: "may_conflict a b = may_conflict b a"
  by (auto simp: may_conflict_def)

lemma same_cell_verdict_sym: "same_cell_verdict a b = same_cell_verdict b a"
  using may_conflict_sym [of a b] by (auto simp: same_cell_verdict_def)

lemma independent_sym: "independent a b = independent b a"
  unfolding independent_def same_cell_verdict_sym [of a b]
  by (simp only: conj_ac disj_ac eq_commute [of "a_condition b"] eq_commute [of "a_mutex b"]
      eq_commute [of "a_rwlock b"] eq_commute [of "a_semaphore b"] eq_commute [of "a_barrier b"])

lemma transitions_independent_same_thread:
  "transitions_independent p m t a t b \<longleftrightarrow>
     a_kind a = Flush \<and> a_kind b = Flush \<and> a_address a \<noteq> [] \<and> a_address b \<noteq> [] \<and>
     a_address a \<noteq> a_address b"
  unfolding transitions_independent_def by simp

lemma transitions_independent_join:
  "t \<noteq> u \<Longrightarrow> a_kind a = Join \<or> a_kind b = Join \<Longrightarrow>
   transitions_independent p m t a u b \<longleftrightarrow>
     (a_kind a = Join \<longrightarrow> join_independent_from_transition p t a u b) \<and>
     (a_kind b = Join \<longrightarrow> join_independent_from_transition p u b t a)"
  unfolding transitions_independent_def if_bool_eq_conj by blast

lemma if_True_disj: "(if c then True else b) = (c \<or> b)"
  by simp

text \<open>The pairs of steps of two threads without a join.\<close>

lemma transitions_independent_other:
  "t \<noteq> u \<Longrightarrow> a_kind a \<noteq> Join \<Longrightarrow> a_kind b \<noteq> Join \<Longrightarrow>
   transitions_independent p m t a u b \<longleftrightarrow>
     (a_kind a = RLock \<and> a_kind b = RLock \<and> a_rwlock a = a_rwlock b \<and>
        \<not> program_has_upgrade_action_for_rwlock p (a_rwlock a)) \<or>
     (is_reader_rwlock_action a \<and> is_reader_rwlock_action b \<and> a_rwlock a = a_rwlock b \<and>
        \<not> program_has_writer_mode_action_for_rwlock p (a_rwlock a)) \<or>
     (m \<noteq> SC \<and> (a_kind a = Write \<or> a_kind b = Write) \<and> a_kind a \<noteq> Spawn \<and> a_kind b \<noteq> Spawn) \<or>
     independent a b"
  unfolding transitions_independent_def by (simp only: simp_thms if_True if_False if_True_disj)

lemma transitions_independent_sym:
  "transitions_independent p m t a u b = transitions_independent p m u b t a"
proof (cases "t = u")
  case True
  then show ?thesis by (auto simp: transitions_independent_same_thread)
next
  case False
  then have "u \<noteq> t" by simp
  show ?thesis
  proof (cases "a_kind a = Join \<or> a_kind b = Join")
    case True
    then have "a_kind b = Join \<or> a_kind a = Join" by blast
    then show ?thesis
      using transitions_independent_join [OF False True] transitions_independent_join [OF \<open>u \<noteq> t\<close>]
      by blast
  next
    case other: False
    then show ?thesis
      using transitions_independent_other [OF False] transitions_independent_other [OF \<open>u \<noteq> t\<close>]
        independent_sym [of a b] other by (cases "a_rwlock a = a_rwlock b") (simp_all add: conj_ac disj_ac)
  qed
qed

lemma same_mutex_sym:
  "same_mutex_try_locks_independent_at_node node a b =
   same_mutex_try_locks_independent_at_node node b a"
  by (auto simp: same_mutex_try_locks_independent_at_node_def split: option.splits if_splits)

lemma same_barrier_sym:
  "a_barrier (tr_action a) = a_barrier (tr_action b) \<Longrightarrow>
   same_barrier_arrivals_independent_at_node node a b =
   same_barrier_arrivals_independent_at_node node b a"
  by (auto simp: same_barrier_arrivals_independent_at_node_def split: option.splits)

lemma transitions_independent_at_node_sym:
  "transitions_independent_at_node p m node a b = transitions_independent_at_node p m node b a"
  using transitions_independent_sym [of p m "tr_thread a" "tr_action a" "tr_thread b" "tr_action b"]
    same_mutex_sym [of node a b] same_barrier_sym [of a b node]
  by (auto simp: transitions_independent_at_node_def)

end
