(* ===== verification/Race_Detector.thy ===== *)
theory Race_Detector
  imports Machine_State
begin

text \<open>
  Race detection on one address (src/src/model/checker.cpp, \<open>ordered_by_happens_before\<close> to
  \<open>record_atomic\<close>). Each function takes the address's record, the current access and the
  schedule so far, and returns the new record with the first race it finds. The source
  looks the record up in \<open>state.memory\<close> and stores it back; \<open>on_address\<close> does that.
\<close>

record race_report =
  r_address :: string
  r_first :: schedule_step
  r_second :: schedule_step
  r_schedule :: schedule

definition ordered_by_happens_before :: "memory_access \<Rightarrow> memory_access \<Rightarrow> bool" where
  "ordered_by_happens_before lhs rhs =
     (vc_hb (m_clock lhs) (m_clock rhs) \<or> vc_hb (m_clock rhs) (m_clock lhs))"

definition make_race_report ::
  "string \<Rightarrow> memory_access \<Rightarrow> memory_access \<Rightarrow> schedule \<Rightarrow> race_report" where
  "make_race_report address prior current sch =
     \<lparr>r_address = address, r_first = m_endpoint prior, r_second = m_endpoint current,
      r_schedule = sch\<rparr>"

text \<open>The race with the first access of a vector that conflicts and is unordered.\<close>

definition first_mixed_race ::
  "string \<Rightarrow> memory_access list \<Rightarrow> memory_access \<Rightarrow> schedule \<Rightarrow> race_report option" where
  "first_mixed_race address others current sch =
     map_option (\<lambda>other. make_race_report address other current sch)
       (find (\<lambda>other. (m_is_write other \<or> m_is_write current) \<and>
                      \<not> ordered_by_happens_before other current) others)"

definition last_write_race ::
  "string \<Rightarrow> address_state \<Rightarrow> memory_access \<Rightarrow> schedule \<Rightarrow> race_report option" where
  "last_write_race address ad current sch =
     (case last_write ad of
        Some w \<Rightarrow> if \<not> ordered_by_happens_before w current
                  then Some (make_race_report address w current sch) else None
      | None \<Rightarrow> None)"

definition or_else :: "'a option \<Rightarrow> 'a option \<Rightarrow> 'a option" where
  "or_else x y = (case x of Some v \<Rightarrow> Some v | None \<Rightarrow> y)"

definition access_key :: "memory_access \<Rightarrow> nat \<times> nat" where
  "access_key a = (s_thread (m_endpoint a), s_index (m_endpoint a))"

definition record_read ::
  "string \<Rightarrow> memory_access \<Rightarrow> schedule \<Rightarrow> address_state \<Rightarrow> address_state \<times> race_report option"
where
  "record_read address current sch ad =
     (ad\<lparr>reads_since_last_write := memplace (access_key current) current (reads_since_last_write ad),
         plain_accesses := plain_accesses ad @ [current]\<rparr>,
      or_else (last_write_race address ad current sch)
              (first_mixed_race address (atomic_accesses ad) current sch))"

definition record_write ::
  "string \<Rightarrow> memory_access \<Rightarrow> schedule \<Rightarrow> address_state \<Rightarrow> address_state \<times> race_report option"
where
  "record_write address current sch ad =
     (ad\<lparr>last_write := Some current,
         reads_since_last_write := mempty,
         plain_accesses := plain_accesses ad @ [current]\<rparr>,
      or_else (last_write_race address ad current sch)
        (or_else
          (map_option (\<lambda>(_, r). make_race_report address r current sch)
            (find (\<lambda>(_, r). \<not> ordered_by_happens_before r current)
              (mentries (reads_since_last_write ad))))
          (first_mixed_race address (atomic_accesses ad) current sch)))"

definition record_atomic ::
  "string \<Rightarrow> memory_access \<Rightarrow> schedule \<Rightarrow> address_state \<Rightarrow> address_state \<times> race_report option"
where
  "record_atomic address current sch ad =
     (ad\<lparr>atomic_accesses := atomic_accesses ad @ [current]\<rparr>,
      first_mixed_race address (plain_accesses ad) current sch)"

definition on_address ::
  "(string \<Rightarrow> memory_access \<Rightarrow> schedule \<Rightarrow> address_state \<Rightarrow> address_state \<times> race_report option)
   \<Rightarrow> exec_state \<Rightarrow> string \<Rightarrow> memory_access \<Rightarrow> exec_state \<times> race_report option" where
  "on_address record_access s address current =
     (let (ad, race) = record_access address current (st_schedule s)
                         (mget empty_address_state (st_memory s) address)
      in (s\<lparr>st_memory := mupdate address ad (st_memory s)\<rparr>, race))"

end
