(* ===== verification/Step.thy ===== *)
theory Step
  imports Enabledness Race_Detector
begin

text \<open>
  One transition of the interpreter (src/src/model/checker.cpp, \<open>make_unlock_error\<close> to
  \<open>execute_enabled_step\<close>): one definition per case of the source's switch, each taking the
  state after the common prologue (schedule entry, step counter, clock tick) and returning
  the new state with the step report. A modeled error is part of the report; a C++
  exception or a failed assertion is the \<open>Inl\<close> branch.
\<close>

section \<open>Reports\<close>

record model_error_report =
  me_endpoint :: schedule_step
  me_message :: string
  me_schedule :: schedule

record assertion_report =
  af_endpoint :: schedule_step
  af_reg :: nat
  af_value :: val
  af_schedule :: schedule

record step_report =
  sr_race :: "race_report option"
  sr_error :: "model_error_report option"
  sr_assertion :: "assertion_report option"
  sr_spawned :: "nat option"

definition no_report :: step_report where
  "no_report = \<lparr>sr_race = None, sr_error = None, sr_assertion = None, sr_spawned = None\<rparr>"

type_synonym step_result = "(exec_state \<times> step_report) res"

definition quoted :: "string \<Rightarrow> string" where
  "quoted name = [CHR 0x27] @ name @ [CHR 0x27]"

definition thread_text :: "schedule_step \<Rightarrow> string" where
  "thread_text endpoint = ''thread '' @ nat_text (s_thread endpoint)"

definition model_error :: "schedule_step \<Rightarrow> string \<Rightarrow> schedule \<Rightarrow> model_error_report" where
  "model_error endpoint message sch =
     \<lparr>me_endpoint = endpoint, me_message = message, me_schedule = sch\<rparr>"

definition make_unlock_error ::
  "action \<Rightarrow> schedule_step \<Rightarrow> schedule \<Rightarrow> exec_state \<Rightarrow> model_error_report" where
  "make_unlock_error a endpoint sch s =
     model_error endpoint
       (thread_text endpoint @ '' attempted to unlock mutex '' @ quoted (a_mutex a) @
        (case mlookup (st_mutex_owner s) (a_mutex a) of
           None \<Rightarrow> '' but it is not owned''
         | Some owner \<Rightarrow> '' owned by thread '' @ nat_text owner)) sch"

definition make_rwlock_mode_error :: "action \<Rightarrow> schedule_step \<Rightarrow> schedule \<Rightarrow> model_error_report" where
  "make_rwlock_mode_error a endpoint sch =
     model_error endpoint
       (thread_text endpoint @ '' attempted to '' @
        (if a_kind a = RUnlock then ''read-unlock''
         else if a_kind a = WUnlock then ''write-unlock''
         else if a_kind a = Upgrade then ''upgrade''
         else if a_kind a = Downgrade then ''downgrade'' else ''change mode on'') @
        '' rwlock '' @ quoted (a_rwlock a) @ '' but it does not hold that mode'') sch"

definition make_rwlock_reentrancy_error ::
  "action \<Rightarrow> schedule_step \<Rightarrow> schedule \<Rightarrow> model_error_report" where
  "make_rwlock_reentrancy_error a endpoint sch =
     model_error endpoint
       (thread_text endpoint @ '' attempted a reentrant '' @
        (if a_kind a = RLock then ''read'' else ''write'') @
        '' acquisition of rwlock '' @ quoted (a_rwlock a)) sch"

definition make_join_error :: "action \<Rightarrow> schedule_step \<Rightarrow> schedule \<Rightarrow> model_error_report" where
  "make_join_error a endpoint sch =
     model_error endpoint
       (thread_text endpoint @ '' attempted to join '' @
        (if a_target a = s_thread endpoint then ''itself''
         else ''out-of-range thread '' @ nat_text (a_target a))) sch"

definition spawn_count :: "program \<Rightarrow> nat \<Rightarrow> nat" where
  "spawn_count p target =
     length (filter (\<lambda>c. a_kind c = Spawn \<and> a_target c = target) (concat p))"

definition make_spawn_error ::
  "program \<Rightarrow> action \<Rightarrow> schedule_step \<Rightarrow> schedule \<Rightarrow> model_error_report" where
  "make_spawn_error p a endpoint sch =
     model_error endpoint
       (thread_text endpoint @ '' attempted to spawn '' @
        (if a_target a = s_thread endpoint then ''itself''
         else if a_target a \<ge> length p then ''out-of-range thread '' @ nat_text (a_target a)
         else ''already started thread '' @ nat_text (a_target a) @
           (if spawn_count p (a_target a) > 1
            then '' (target has '' @ nat_text (spawn_count p (a_target a)) @ '' Spawn actions)''
            else []))) sch"

definition make_wait_error ::
  "action \<Rightarrow> schedule_step \<Rightarrow> schedule \<Rightarrow> exec_state \<Rightarrow> model_error_report" where
  "make_wait_error a endpoint sch s =
     model_error endpoint
       (thread_text endpoint @ '' attempted to '' @
        (if a_kind a = TimedWait then ''timedwait'' else ''wait'') @
        '' on condition '' @ quoted (a_condition a) @ '' with mutex '' @ quoted (a_mutex a) @
        (case mlookup (st_mutex_owner s) (a_mutex a) of
           None \<Rightarrow> '' but the mutex is not owned''
         | Some owner \<Rightarrow> '' but it is owned by thread '' @ nat_text owner)) sch"

definition make_branch_error :: "action \<Rightarrow> schedule_step \<Rightarrow> schedule \<Rightarrow> model_error_report" where
  "make_branch_error a endpoint sch =
     model_error endpoint
       (thread_text endpoint @ '' branched to unknown label '' @ quoted (a_label a)) sch"

definition make_barrier_error ::
  "action \<Rightarrow> nat \<Rightarrow> schedule_step \<Rightarrow> schedule \<Rightarrow> model_error_report" where
  "make_barrier_error a required_parties endpoint sch =
     model_error endpoint
       (thread_text endpoint @ '' attempted to wait on barrier '' @ quoted (a_barrier a) @
        '' with '' @ nat_text (a_parties a) @ '' parties'' @
        (if a_parties a = 0 then '', but parties must be greater than zero''
         else '', but the program-wide barrier requires '' @ nat_text required_parties)) sch"

section \<open>Primitive state updates\<close>

definition join_clock :: "exec_state \<Rightarrow> nat \<Rightarrow> vclock \<Rightarrow> exec_state" where
  "join_clock s tid c = s\<lparr>st_clock := (st_clock s)[tid := vc_join (st_clock s ! tid) c]\<rparr>"

text \<open>The prologue of every step: record it, count it, tick the thread's clock.\<close>

definition begin_step :: "exec_state \<Rightarrow> schedule_step \<Rightarrow> exec_state" where
  "begin_step s step =
     s\<lparr>st_schedule := st_schedule s @ [step],
       st_steps := (st_steps s)[s_thread step := Suc (st_steps s ! s_thread step)],
       st_clock := (st_clock s)[s_thread step := vc_tick (s_thread step) (st_clock s ! s_thread step)]\<rparr>"

text \<open>
  Taking a mutex: ownership and the acquire edge. Reading \<open>mutex_clock[m]\<close> with
  \<open>operator[]\<close> creates an empty entry where there is none.
\<close>

definition acquire_mutex :: "exec_state \<Rightarrow> nat \<Rightarrow> string \<Rightarrow> exec_state" where
  "acquire_mutex s tid mutex =
     (let clocks = memplace mutex mempty (st_mutex_clock s) in
      join_clock
        (s\<lparr>st_mutex_owner := mupdate mutex tid (st_mutex_owner s), st_mutex_clock := clocks\<rparr>)
        tid (mget mempty clocks mutex))"

definition release_mutex :: "exec_state \<Rightarrow> nat \<Rightarrow> string \<Rightarrow> exec_state" where
  "release_mutex s tid mutex =
     s\<lparr>st_mutex_clock := mupdate mutex (st_clock s ! tid) (st_mutex_clock s),
       st_mutex_owner := mdelete mutex (st_mutex_owner s)\<rparr>"

definition set_rwlock :: "exec_state \<Rightarrow> string \<Rightarrow> rwlock_state \<Rightarrow> exec_state" where
  "set_rwlock s name rw = s\<lparr>st_rwlocks := mupdate name rw (st_rwlocks s)\<rparr>"

definition set_phase :: "exec_state \<Rightarrow> nat \<Rightarrow> wait_phase \<Rightarrow> exec_state" where
  "set_phase s tid ph = s\<lparr>st_phase := (st_phase s)[tid := ph]\<rparr>"

definition set_waiters :: "exec_state \<Rightarrow> string \<Rightarrow> nat list \<Rightarrow> exec_state" where
  "set_waiters s condition waiters = s\<lparr>st_waiters := mupdate condition waiters (st_waiters s)\<rparr>"

definition set_value :: "exec_state \<Rightarrow> string \<Rightarrow> val \<Rightarrow> exec_state" where
  "set_value s address v = s\<lparr>st_values := mupdate address v (st_values s)\<rparr>"

definition touch_value :: "exec_state \<Rightarrow> string \<Rightarrow> exec_state" where
  "touch_value s address = s\<lparr>st_values := memplace address 0 (st_values s)\<rparr>"

definition touch_atomic_clock :: "exec_state \<Rightarrow> string \<Rightarrow> exec_state" where
  "touch_atomic_clock s address =
     s\<lparr>st_atomic_clock := memplace address mempty (st_atomic_clock s)\<rparr>"

definition publish_atomic :: "exec_state \<Rightarrow> nat \<Rightarrow> string \<Rightarrow> exec_state" where
  "publish_atomic s tid address =
     s\<lparr>st_atomic_clock := mupdate address (st_clock s ! tid) (st_atomic_clock s)\<rparr>"

declare join_clock_def [state_ops] begin_step_def [state_ops] acquire_mutex_def [state_ops]
  release_mutex_def [state_ops] set_rwlock_def [state_ops] set_phase_def [state_ops]
  set_waiters_def [state_ops] set_value_def [state_ops] touch_value_def [state_ops]
  touch_atomic_clock_def [state_ops] publish_atomic_def [state_ops]

definition finish :: "exec_state \<Rightarrow> step_result" where
  "finish s = Inr (s, no_report)"

definition finish_error :: "exec_state \<Rightarrow> model_error_report \<Rightarrow> step_result" where
  "finish_error s e = Inr (s, no_report\<lparr>sr_error := Some e\<rparr>)"

definition finish_race :: "exec_state \<times> race_report option \<Rightarrow> step_result" where
  "finish_race sr = Inr (fst sr, no_report\<lparr>sr_race := snd sr\<rparr>)"

section \<open>Thread-local actions and control flow\<close>

definition exec_set :: "program \<Rightarrow> exec_state \<Rightarrow> schedule_step \<Rightarrow> action \<Rightarrow> step_result" where
  "exec_set p s step a =
     (let tid = s_thread step in
      res_bind (evaluate_operand_or s tid (a_value a) 0) (\<lambda>v.
      res_bind (write_register s tid (a_destination a) v) (\<lambda>s1.
      finish (advance_pc p s1 tid))))"

definition exec_branch :: "program \<Rightarrow> exec_state \<Rightarrow> schedule_step \<Rightarrow> action \<Rightarrow> step_result" where
  "exec_branch p s step a =
     (let tid = s_thread step in
      res_bind (read_register s tid (value_or (a_source a) 0)) (\<lambda>v.
      if v \<noteq> 0 then
        (case resolve_label p tid (a_label a) of
           None \<Rightarrow> finish_error (advance_pc p s tid) (make_branch_error a step (st_schedule s))
         | Some target \<Rightarrow> finish (set_pc p s tid target))
      else finish (advance_pc p s tid)))"

definition exec_assert :: "program \<Rightarrow> exec_state \<Rightarrow> schedule_step \<Rightarrow> action \<Rightarrow> step_result" where
  "exec_assert p s step a =
     (let tid = s_thread step; reg = value_or (a_source a) 0 in
      res_bind (read_register s tid reg) (\<lambda>v.
      if v = 0 then
        Inr (advance_pc p s tid,
             no_report\<lparr>sr_assertion := Some \<lparr>af_endpoint = step, af_reg = reg, af_value = v,
                                              af_schedule = st_schedule s\<rparr>\<rparr>)
      else finish (advance_pc p s tid)))"

definition exec_local :: "program \<Rightarrow> exec_state \<Rightarrow> schedule_step \<Rightarrow> step_result" where
  "exec_local p s step = finish (advance_pc p s (s_thread step))"

section \<open>Mutexes\<close>

definition exec_lock :: "program \<Rightarrow> exec_state \<Rightarrow> schedule_step \<Rightarrow> action \<Rightarrow> step_result" where
  "exec_lock p s step a =
     (let tid = s_thread step in finish (acquire_mutex (advance_pc p s tid) tid (a_mutex a)))"

definition exec_try_lock :: "program \<Rightarrow> exec_state \<Rightarrow> schedule_step \<Rightarrow> action \<Rightarrow> step_result" where
  "exec_try_lock p s step a =
     (let tid = s_thread step; s1 = advance_pc p s tid;
          success = (mlookup (st_mutex_owner s1) (a_mutex a) = None) in
      res_bind (write_register s1 tid (Some (value_or (a_destination a) 0)) (if success then 1 else 0))
        (\<lambda>s2. if success then finish (acquire_mutex s2 tid (a_mutex a)) else finish s2))"

definition exec_unlock :: "program \<Rightarrow> exec_state \<Rightarrow> schedule_step \<Rightarrow> action \<Rightarrow> step_result" where
  "exec_unlock p s step a =
     (let tid = s_thread step; s1 = advance_pc p s tid in
      if mlookup (st_mutex_owner s1) (a_mutex a) \<noteq> Some tid
      then finish_error s1 (make_unlock_error a step (st_schedule s1) s1)
      else finish (release_mutex s1 tid (a_mutex a)))"

section \<open>Reader-writer locks\<close>

definition exec_rlock :: "program \<Rightarrow> exec_state \<Rightarrow> schedule_step \<Rightarrow> action \<Rightarrow> step_result" where
  "exec_rlock p s step a =
     (let tid = s_thread step; s1 = advance_pc p s tid;
          rw = mget empty_rwlock (st_rwlocks s1) (a_rwlock a) in
      if holds_rwlock_read rw tid \<or> holds_rwlock_write rw tid
      then finish_error s1 (make_rwlock_reentrancy_error a step (st_schedule s1))
      else guarded (writer_holder rw = None) (Assert_Failed ''RLock with a writer'')
        (finish (set_rwlock (join_clock s1 tid (writer_release rw)) (a_rwlock a)
          (rw\<lparr>reader_holders := oinsert tid (reader_holders rw)\<rparr>))))"

definition exec_wlock :: "program \<Rightarrow> exec_state \<Rightarrow> schedule_step \<Rightarrow> action \<Rightarrow> step_result" where
  "exec_wlock p s step a =
     (let tid = s_thread step; s1 = advance_pc p s tid;
          rw = mget empty_rwlock (st_rwlocks s1) (a_rwlock a) in
      if holds_rwlock_write rw tid
      then finish_error s1 (make_rwlock_reentrancy_error a step (st_schedule s1))
      else guarded (writer_holder rw = None \<and> reader_holders rw = mempty)
          (Assert_Failed ''WLock on an occupied rwlock'')
        (finish (set_rwlock
          (join_clock (join_clock s1 tid (writer_release rw)) tid (reader_releases rw))
          (a_rwlock a) (rw\<lparr>reader_releases := mempty, writer_holder := Some tid\<rparr>))))"

definition exec_upgrade :: "program \<Rightarrow> exec_state \<Rightarrow> schedule_step \<Rightarrow> action \<Rightarrow> step_result" where
  "exec_upgrade p s step a =
     (let tid = s_thread step; s1 = advance_pc p s tid;
          rw = mget empty_rwlock (st_rwlocks s1) (a_rwlock a) in
      if \<not> holds_rwlock_read rw tid
      then finish_error s1 (make_rwlock_mode_error a step (st_schedule s1))
      else guarded (writer_holder rw = None \<and> msize (reader_holders rw) = 1)
          (Assert_Failed ''Upgrade with other holders'')
        (finish (set_rwlock
          (join_clock (join_clock s1 tid (writer_release rw)) tid (reader_releases rw))
          (a_rwlock a)
          (rw\<lparr>reader_releases := mempty, reader_holders := oremove tid (reader_holders rw),
              writer_holder := Some tid\<rparr>))))"

definition exec_runlock :: "program \<Rightarrow> exec_state \<Rightarrow> schedule_step \<Rightarrow> action \<Rightarrow> step_result" where
  "exec_runlock p s step a =
     (let tid = s_thread step; s1 = advance_pc p s tid;
          rw = mget empty_rwlock (st_rwlocks s1) (a_rwlock a) in
      if \<not> holds_rwlock_read rw tid
      then finish_error s1 (make_rwlock_mode_error a step (st_schedule s1))
      else finish (set_rwlock s1 (a_rwlock a)
        (rw\<lparr>reader_releases := vc_join (reader_releases rw) (st_clock s1 ! tid),
            reader_holders := oremove tid (reader_holders rw)\<rparr>)))"

definition exec_wunlock :: "program \<Rightarrow> exec_state \<Rightarrow> schedule_step \<Rightarrow> action \<Rightarrow> step_result" where
  "exec_wunlock p s step a =
     (let tid = s_thread step; s1 = advance_pc p s tid;
          rw = mget empty_rwlock (st_rwlocks s1) (a_rwlock a) in
      if \<not> holds_rwlock_write rw tid
      then finish_error s1 (make_rwlock_mode_error a step (st_schedule s1))
      else finish (set_rwlock s1 (a_rwlock a)
        (rw\<lparr>writer_release := st_clock s1 ! tid, writer_holder := None\<rparr>)))"

definition exec_downgrade :: "program \<Rightarrow> exec_state \<Rightarrow> schedule_step \<Rightarrow> action \<Rightarrow> step_result" where
  "exec_downgrade p s step a =
     (let tid = s_thread step; s1 = advance_pc p s tid;
          rw = mget empty_rwlock (st_rwlocks s1) (a_rwlock a) in
      if \<not> holds_rwlock_write rw tid
      then finish_error s1 (make_rwlock_mode_error a step (st_schedule s1))
      else guarded (\<not> omember tid (reader_holders rw)) (Assert_Failed ''Downgrade by a reader'')
        (finish (set_rwlock s1 (a_rwlock a)
          (rw\<lparr>writer_release := st_clock s1 ! tid, writer_holder := None,
              reader_holders := oinsert tid (reader_holders rw)\<rparr>))))"

section \<open>Threads\<close>

definition exec_join :: "program \<Rightarrow> exec_state \<Rightarrow> schedule_step \<Rightarrow> action \<Rightarrow> step_result" where
  "exec_join p s step a =
     (let tid = s_thread step; s1 = advance_pc p s tid in
      if join_target_is_invalid p tid a
      then finish_error s1 (make_join_error a step (st_schedule s1))
      else finish (join_clock s1 tid (st_clock s1 ! a_target a)))"

definition exec_spawn :: "program \<Rightarrow> exec_state \<Rightarrow> schedule_step \<Rightarrow> action \<Rightarrow> step_result" where
  "exec_spawn p s step a =
     (let tid = s_thread step; s1 = advance_pc p s tid; target = a_target a in
      if spawn_target_is_invalid p tid a \<or> st_started s1 ! target
      then finish_error s1 (make_spawn_error p a step (st_schedule s1))
      else
        let s2 = normalize_pc p (s1\<lparr>st_started := (st_started s1)[target := True]\<rparr>) target;
            s3 = join_clock s2 target (st_clock s2 ! tid)
        in Inr (s3, no_report\<lparr>sr_spawned := Some target\<rparr>))"

section \<open>Semaphores and barriers\<close>

definition counter_limit :: nat where
  "counter_limit = 18446744073709551615"

definition exec_sem_post :: "program \<Rightarrow> exec_state \<Rightarrow> schedule_step \<Rightarrow> action \<Rightarrow> step_result" where
  "exec_sem_post p s step a =
     (let tid = s_thread step; s1 = advance_pc p s tid;
          sem = mget empty_semaphore (st_semaphores s1) (a_semaphore a) in
      guarded (permits sem < counter_limit) (Assert_Failed ''permit overflow'')
        (finish (s1\<lparr>st_semaphores := mupdate (a_semaphore a)
           (sem\<lparr>permits := Suc (permits sem),
                post_releases := vc_join (post_releases sem) (st_clock s1 ! tid)\<rparr>)
           (st_semaphores s1)\<rparr>)))"

definition exec_sem_wait :: "program \<Rightarrow> exec_state \<Rightarrow> schedule_step \<Rightarrow> action \<Rightarrow> step_result" where
  "exec_sem_wait p s step a =
     (let tid = s_thread step; s1 = advance_pc p s tid in
      case mlookup (st_semaphores s1) (a_semaphore a) of
        None \<Rightarrow> Inl (Assert_Failed ''SemWait without a semaphore'')
      | Some sem \<Rightarrow>
          guarded (permits sem > 0) (Assert_Failed ''SemWait without a permit'')
            (finish (join_clock
               (s1\<lparr>st_semaphores := mupdate (a_semaphore a) (sem\<lparr>permits := permits sem - 1\<rparr>)
                  (st_semaphores s1)\<rparr>)
               tid (post_releases sem))))"

text \<open>The last arrival's loop over the parked participants.\<close>

definition release_participant ::
  "program \<Rightarrow> action \<Rightarrow> nat \<Rightarrow> vclock \<Rightarrow> nat \<Rightarrow> exec_state \<Rightarrow> exec_state res" where
  "release_participant p a required release_clock participant s =
     guarded (participant < length p) Out_Of_Range
     (guarded (st_started s ! participant) (Assert_Failed ''participant not started'')
     (guarded (has_next_action p s participant) (Assert_Failed ''participant finished'')
     (guarded (a_kind (next_action p s participant) = BarrierWait \<and>
               a_barrier (next_action p s participant) = a_barrier a \<and>
               a_parties (next_action p s participant) = required)
        (Assert_Failed ''participant not at the barrier'')
     (Inr (advance_pc p (join_clock s participant release_clock) participant)))))"

definition exec_barrier :: "program \<Rightarrow> exec_state \<Rightarrow> schedule_step \<Rightarrow> action \<Rightarrow> step_result" where
  "exec_barrier p s step a =
     (let tid = s_thread step in
      case mlookup (st_barriers s) (a_barrier a) of
        None \<Rightarrow> Inl Out_Of_Range
      | Some b \<Rightarrow>
          if a_parties a = 0 \<or> a_parties a \<noteq> parties b
          then (let s1 = advance_pc p s tid in
                finish_error s1 (make_barrier_error a (parties b) step (st_schedule s1)))
          else guarded (\<not> omember tid (arrivals b)) (Assert_Failed ''arrived twice'')
            (let b1 = b\<lparr>arrivals := oinsert tid (arrivals b),
                        arrival_releases := vc_join (arrival_releases b) (st_clock s ! tid)\<rparr>;
                 s1 = s\<lparr>st_barriers := mupdate (a_barrier a) b1 (st_barriers s)\<rparr> in
             if msize (arrivals b1) < parties b1 then finish s1
             else guarded (msize (arrivals b1) = parties b1) (Assert_Failed ''too many arrivals'')
               (res_bind
                 (res_fold (release_participant p a (parties b1) (arrival_releases b1))
                   (mkeys (arrivals b1)) s1)
                 (\<lambda>s2.
                   guarded (generation b1 < counter_limit) (Assert_Failed ''generation overflow'')
                     (finish (s2\<lparr>st_barriers := mupdate (a_barrier a)
                        (b1\<lparr>arrivals := mempty, arrival_releases := mempty,
                            generation := Suc (generation b1)\<rparr>) (st_barriers s2)\<rparr>))))))"

section \<open>Condition variables\<close>

definition insert_waiter :: "exec_state \<Rightarrow> string \<Rightarrow> nat \<Rightarrow> exec_state res" where
  "insert_waiter s condition tid =
     (let waiters = mget [] (st_waiters s) condition in
      guarded (tid \<notin> set waiters) (Assert_Failed ''already waiting'')
        (Inr (set_waiters s condition (vec_insert tid waiters))))"

definition remove_waiter :: "exec_state \<Rightarrow> string \<Rightarrow> nat \<Rightarrow> exec_state res" where
  "remove_waiter s condition waiter =
     (let waiters = mget [] (st_waiters s) condition in
      guarded (waiter \<in> set waiters) (Assert_Failed ''not waiting'')
        (Inr (set_waiters s condition (vec_remove waiter waiters))))"

definition wake_waiter :: "program \<Rightarrow> nat \<Rightarrow> nat \<Rightarrow> exec_state \<Rightarrow> exec_state res" where
  "wake_waiter p signaler waiter s =
     guarded (waiter < length p) Out_Of_Range
     (guarded (st_phase s ! waiter = Waiting) (Assert_Failed ''waiter not waiting'')
     (guarded (has_next_action p s waiter) Out_Of_Range
     (let waiting_action = next_action p s waiter in
      guarded (a_kind waiting_action = Wait \<or> a_kind waiting_action = TimedWait)
        (Assert_Failed ''waiter not at a wait'')
        (let s1 = join_clock (set_phase s waiter Woken) waiter (st_clock s ! signaler) in
         if a_kind waiting_action = TimedWait
         then write_register s1 waiter (Some (value_or (a_destination waiting_action) 0)) 1
         else Inr s1))))"

definition exec_signal :: "program \<Rightarrow> exec_state \<Rightarrow> schedule_step \<Rightarrow> action \<Rightarrow> step_result" where
  "exec_signal p s step a =
     (let tid = s_thread step; s1 = advance_pc p s tid;
          waiters = mget [] (st_waiters s1) (a_condition a) in
      case waiters of
        [] \<Rightarrow> finish (set_waiters s1 (a_condition a) [])
      | waiter # rest \<Rightarrow>
          res_bind (wake_waiter p tid waiter (set_waiters s1 (a_condition a) rest)) finish)"

definition exec_broadcast :: "program \<Rightarrow> exec_state \<Rightarrow> schedule_step \<Rightarrow> action \<Rightarrow> step_result" where
  "exec_broadcast p s step a =
     (let tid = s_thread step; s1 = advance_pc p s tid;
          to_wake = mget [] (st_waiters s1) (a_condition a) in
      res_bind
        (res_fold (wake_waiter p tid) to_wake (set_waiters s1 (a_condition a) []))
        finish)"

definition exec_wait :: "program \<Rightarrow> exec_state \<Rightarrow> schedule_step \<Rightarrow> action \<Rightarrow> step_result" where
  "exec_wait p s step a =
     (let tid = s_thread step in
      if st_phase s ! tid = Woken then
        guarded (mlookup (st_mutex_owner s) (a_mutex a) = None)
            (Assert_Failed ''reacquire of an owned mutex'')
          (finish (advance_pc p (set_phase (acquire_mutex s tid (a_mutex a)) tid Phase_None) tid))
      else if a_kind a = TimedWait \<and> st_phase s ! tid = Waiting then
        res_bind (remove_waiter s (a_condition a) tid) (\<lambda>s1.
        res_bind (write_register (set_phase s1 tid Woken) tid
                    (Some (value_or (a_destination a) 0)) 0) finish)
      else guarded (st_phase s ! tid = Phase_None) (Assert_Failed ''waiting thread scheduled'')
        (if \<not> owns_mutex s tid (a_mutex a) then
           (let s1 = advance_pc p s tid in
            finish_error s1 (make_wait_error a step (st_schedule s1) s1))
         else
           res_bind (insert_waiter (release_mutex s tid (a_mutex a)) (a_condition a) tid) (\<lambda>s1.
           finish (set_phase s1 tid Waiting))))"

section \<open>Memory\<close>

definition access_now :: "exec_state \<Rightarrow> schedule_step \<Rightarrow> bool \<Rightarrow> bool \<Rightarrow> memory_access" where
  "access_now s step atomic wr =
     \<lparr>m_clock = st_clock s ! s_thread step, m_endpoint = step, m_is_atomic = atomic,
      m_is_write = wr\<rparr>"

text \<open>A plain read sees the newest own pending store of the address, then the cell.\<close>

definition read_plain_value :: "exec_state \<Rightarrow> nat \<Rightarrow> string \<Rightarrow> val" where
  "read_plain_value s tid address =
     (let forwarded =
        (case st_model s of
           TSO \<Rightarrow> map_option snd (find (\<lambda>e. fst e = address) (rev (st_store_buffers s ! tid)))
         | PSO \<Rightarrow> (case mlookup (st_pso_buffers s ! tid) address of
                     None \<Rightarrow> None
                   | Some pending \<Rightarrow> if pending = [] then None else Some (last pending))
         | SC \<Rightarrow> None)
      in case forwarded of Some v \<Rightarrow> v | None \<Rightarrow> mget 0 (st_values s) address)"

definition exec_atomic_load :: "program \<Rightarrow> exec_state \<Rightarrow> schedule_step \<Rightarrow> action \<Rightarrow> step_result" where
  "exec_atomic_load p s step a =
     (let tid = s_thread step; s1 = advance_pc p s tid; address = a_address a in
      if address = [] then finish s1
      else
        let s2 = touch_value s1 address;
            loaded = mget 0 (st_values s2) address;
            s3 = touch_atomic_clock s2 address;
            s4 = join_clock s3 tid (mget mempty (st_atomic_clock s3) address)
        in res_bind (write_register s4 tid (a_destination a) loaded) (\<lambda>s5.
           finish_race (on_address record_atomic s5 address (access_now s5 step True False))))"

definition exec_atomic_store :: "program \<Rightarrow> exec_state \<Rightarrow> schedule_step \<Rightarrow> action \<Rightarrow> step_result" where
  "exec_atomic_store p s step a =
     (let tid = s_thread step; s1 = advance_pc p s tid; address = a_address a in
      if address = [] then finish s1
      else
        res_bind (evaluate_operand_or s1 tid (a_value a) 0) (\<lambda>v.
        let s2 = publish_atomic (set_value s1 address v) tid address
        in finish_race (on_address record_atomic s2 address (access_now s2 step True True))))"

definition exec_atomic_rmw :: "program \<Rightarrow> exec_state \<Rightarrow> schedule_step \<Rightarrow> action \<Rightarrow> step_result" where
  "exec_atomic_rmw p s step a =
     (let tid = s_thread step; s1 = advance_pc p s tid; address = a_address a in
      if address = [] then finish s1
      else
        let s2 = touch_value s1 address;
            old_value = mget 0 (st_values s2) address
        in res_bind (evaluate_operand_or s2 tid (a_value a) 1) (\<lambda>addend.
           let s3 = touch_atomic_clock s2 address;
               s4 = join_clock s3 tid (mget mempty (st_atomic_clock s3) address)
           in res_bind (write_register s4 tid (a_destination a) old_value) (\<lambda>s5.
              let s6 = publish_atomic (set_value s5 address (old_value + addend)) tid address
              in finish_race (on_address record_atomic s6 address (access_now s6 step True True)))))"

definition exec_cas :: "program \<Rightarrow> exec_state \<Rightarrow> schedule_step \<Rightarrow> action \<Rightarrow> step_result" where
  "exec_cas p s step a =
     (let tid = s_thread step; s1 = advance_pc p s tid; address = a_address a in
      if address = [] then finish s1
      else
        let s2 = touch_value s1 address;
            old_value = mget 0 (st_values s2) address
        in res_bind (evaluate_operand_or s2 tid (a_expected a) 0) (\<lambda>expected.
           res_bind (evaluate_operand_or s2 tid (a_value a) 0) (\<lambda>desired.
           let success = (old_value = expected);
               s3 = touch_atomic_clock s2 address;
               s4 = join_clock s3 tid (mget mempty (st_atomic_clock s3) address)
           in res_bind (write_register s4 tid (a_destination a) (if success then 1 else 0)) (\<lambda>s5.
              let s6 = (if success then publish_atomic (set_value s5 address desired) tid address
                        else s5)
              in finish_race
                   (on_address record_atomic s6 address (access_now s6 step True success))))))"

definition commit_store ::
  "exec_state \<Rightarrow> schedule_step \<Rightarrow> string \<Rightarrow> val \<Rightarrow> step_result" where
  "commit_store s step address v =
     (let s1 = set_value s address v
      in finish_race (on_address record_write s1 address (access_now s1 step False True)))"

definition exec_flush :: "exec_state \<Rightarrow> schedule_step \<Rightarrow> step_result" where
  "exec_flush s step =
     (let tid = s_thread step in
      if st_model s = TSO then
        (case st_store_buffers s ! tid of
           [] \<Rightarrow> Inl (Assert_Failed ''flush of an empty buffer'')
         | (address, v) # rest \<Rightarrow>
             commit_store (s\<lparr>st_store_buffers := (st_store_buffers s)[tid := rest]\<rparr>) step address v)
      else
        (case s_flush step of
           None \<Rightarrow> Inl (Assert_Failed ''PSO flush without an address'')
         | Some address_id \<Rightarrow>
             guarded (address_id < length (st_flush_addresses s))
               (Assert_Failed ''flush address out of range'')
               (let address = st_flush_addresses s ! address_id;
                    buffers = st_pso_buffers s ! tid
                in case mlookup buffers address of
                     None \<Rightarrow> Inl (Assert_Failed ''flush of an empty buffer'')
                   | Some [] \<Rightarrow> Inl (Assert_Failed ''flush of an empty buffer'')
                   | Some (v # rest) \<Rightarrow>
                       let buffers' = (if rest = [] then mdelete address buffers
                                       else mupdate address rest buffers)
                       in commit_store
                            (s\<lparr>st_pso_buffers := (st_pso_buffers s)[tid := buffers']\<rparr>)
                            step address v)))"

definition exec_read :: "program \<Rightarrow> exec_state \<Rightarrow> schedule_step \<Rightarrow> action \<Rightarrow> step_result" where
  "exec_read p s step a =
     (let tid = s_thread step; s1 = advance_pc p s tid; address = a_address a in
      if address = [] then finish s1
      else
        res_bind (write_register s1 tid (a_destination a) (read_plain_value s1 tid address)) (\<lambda>s2.
        finish_race (on_address record_read s2 address (access_now s2 step False False))))"

definition exec_write :: "program \<Rightarrow> exec_state \<Rightarrow> schedule_step \<Rightarrow> action \<Rightarrow> step_result" where
  "exec_write p s step a =
     (let tid = s_thread step; s1 = advance_pc p s tid; address = a_address a in
      if address = [] then finish s1
      else
        res_bind (evaluate_operand_or s1 tid (a_value a) 0) (\<lambda>v.
        case st_model s1 of
          TSO \<Rightarrow> finish (s1\<lparr>st_store_buffers := (st_store_buffers s1)
                   [tid := st_store_buffers s1 ! tid @ [(address, v)]]\<rparr>)
        | PSO \<Rightarrow> finish (s1\<lparr>st_pso_buffers := (st_pso_buffers s1)
                   [tid := mupdate address (mget [] (st_pso_buffers s1 ! tid) address @ [v])
                             (st_pso_buffers s1 ! tid)]\<rparr>)
        | SC \<Rightarrow> commit_store s1 step address v))"

section \<open>The whole step\<close>

definition perform_action :: "program \<Rightarrow> exec_state \<Rightarrow> schedule_step \<Rightarrow> action \<Rightarrow> step_result" where
  "perform_action p s step a =
     (case a_kind a of
        Label \<Rightarrow> Inl (Assert_Failed ''label actions are normalized out before execution'')
      | Set \<Rightarrow> exec_set p s step a
      | BranchNonzero \<Rightarrow> exec_branch p s step a
      | Assert \<Rightarrow> exec_assert p s step a
      | Lock \<Rightarrow> exec_lock p s step a
      | TryLock \<Rightarrow> exec_try_lock p s step a
      | RLock \<Rightarrow> exec_rlock p s step a
      | WLock \<Rightarrow> exec_wlock p s step a
      | Upgrade \<Rightarrow> exec_upgrade p s step a
      | Join \<Rightarrow> exec_join p s step a
      | Spawn \<Rightarrow> exec_spawn p s step a
      | Unlock \<Rightarrow> exec_unlock p s step a
      | RUnlock \<Rightarrow> exec_runlock p s step a
      | WUnlock \<Rightarrow> exec_wunlock p s step a
      | Downgrade \<Rightarrow> exec_downgrade p s step a
      | SemPost \<Rightarrow> exec_sem_post p s step a
      | SemWait \<Rightarrow> exec_sem_wait p s step a
      | BarrierWait \<Rightarrow> exec_barrier p s step a
      | Wait \<Rightarrow> exec_wait p s step a
      | TimedWait \<Rightarrow> exec_wait p s step a
      | Signal \<Rightarrow> exec_signal p s step a
      | Broadcast \<Rightarrow> exec_broadcast p s step a
      | AtomicLoad \<Rightarrow> exec_atomic_load p s step a
      | AtomicStore \<Rightarrow> exec_atomic_store p s step a
      | AtomicRmw \<Rightarrow> exec_atomic_rmw p s step a
      | CompareExchange \<Rightarrow> exec_cas p s step a
      | Fence \<Rightarrow> exec_local p s step
      | Flush \<Rightarrow>
          guarded (is_buffered_memory_model (st_model s))
            (Assert_Failed ''flush without a store buffer'') (exec_flush s step)
      | Read \<Rightarrow> exec_read p s step a
      | Write \<Rightarrow> exec_write p s step a
      | Yield \<Rightarrow> exec_local p s step)"

definition execute_enabled_step :: "program \<Rightarrow> exec_state \<Rightarrow> schedule_step \<Rightarrow> step_result" where
  "execute_enabled_step p s step =
     (let tid = s_thread step in
      guarded (tid < length p) Out_Of_Range
      (if is_flush_step step then
         guarded (is_buffered_memory_model (st_model s) \<and> has_pending_store s tid)
           (Assert_Failed ''flush without a pending store'')
           (perform_action p (begin_step s step) step (effective_action_for_step p s step))
       else
         guarded (s_index step = st_pc s ! tid) (Assert_Failed ''step is not the next action'')
         (guarded (s_index step < length (p ! tid)) Out_Of_Range
           (perform_action p (begin_step s step) step (p ! tid ! s_index step)))))"

definition step_terminal :: "step_report \<Rightarrow> bool" where
  "step_terminal r = (sr_error r \<noteq> None \<or> sr_assertion r \<noteq> None)"

lemmas exec_defs =
  exec_set_def exec_branch_def exec_assert_def exec_local_def exec_lock_def exec_try_lock_def
  exec_unlock_def exec_rlock_def exec_wlock_def exec_upgrade_def exec_runlock_def
  exec_wunlock_def exec_downgrade_def exec_join_def exec_spawn_def exec_sem_post_def
  exec_sem_wait_def exec_barrier_def exec_signal_def exec_broadcast_def exec_wait_def
  exec_atomic_load_def exec_atomic_store_def exec_atomic_rmw_def exec_cas_def
  exec_flush_def exec_read_def exec_write_def

end
