(* ===== verification/Well_Formed.thy ===== *)
theory Well_Formed
  imports Step
begin

text \<open>
  The well-formedness invariant of the interpreter state: what the assertions of
  src/src/model/checker.cpp presuppose. It is stated component by component, so that the
  update of one component leaves the others to the simplifier, and every case of the step
  function keeps it.
\<close>

section \<open>The invariant, component by component\<close>

definition shape_ok :: "program \<Rightarrow> exec_state \<Rightarrow> bool" where
  "shape_ok p s \<longleftrightarrow>
     length (st_pc s) = length p \<and> length (st_started s) = length p \<and>
     length (st_clock s) = length p \<and> length (st_registers s) = length p \<and>
     length (st_steps s) = length p \<and> length (st_phase s) = length p \<and>
     length (st_store_buffers s) = length p \<and> length (st_pso_buffers s) = length p \<and>
     (\<forall>t<length p. length (st_registers s ! t) = kRegisterCount) \<and>
     st_flush_addresses s = program_addresses p"

definition pc_ok :: "program \<Rightarrow> nat list \<Rightarrow> bool" where
  "pc_ok p pcs \<longleftrightarrow>
     (\<forall>t<length p. pcs ! t \<le> length (p ! t) \<and>
        (pcs ! t < length (p ! t) \<longrightarrow> a_kind (p ! t ! (pcs ! t)) \<noteq> Label))"

definition mutex_ok :: "program \<Rightarrow> (string, nat) omap \<Rightarrow> bool" where
  "mutex_ok p owners \<longleftrightarrow> (\<forall>m t. mlookup owners m = Some t \<longrightarrow> t < length p)"

text \<open>A reader-writer lock has a writer or readers, never both.\<close>

definition rwlock_ok :: "program \<Rightarrow> (string, rwlock_state) omap \<Rightarrow> bool" where
  "rwlock_ok p rwlocks \<longleftrightarrow>
     (\<forall>name rw. mlookup rwlocks name = Some rw \<longrightarrow>
        (\<forall>t. omember t (reader_holders rw) \<longrightarrow> t < length p) \<and>
        (\<forall>w. writer_holder rw = Some w \<longrightarrow> w < length p \<and> reader_holders rw = mempty))"

definition parked_at :: "program \<Rightarrow> nat list \<Rightarrow> bool list \<Rightarrow> nat \<Rightarrow> bool" where
  "parked_at p pcs started t \<longleftrightarrow> t < length p \<and> started ! t \<and> pcs ! t < length (p ! t)"

text \<open>
  The wait set of a condition lists, in ascending order, exactly the threads in phase
  \<open>Waiting\<close> whose next action names the condition; a thread in a phase other than
  \<open>Phase_None\<close> is at a \<open>Wait\<close> or \<open>TimedWait\<close>.
\<close>

definition wait_ok ::
  "program \<Rightarrow> nat list \<Rightarrow> bool list \<Rightarrow> wait_phase list \<Rightarrow> (string, nat list) omap \<Rightarrow> bool" where
  "wait_ok p pcs started phase waiters \<longleftrightarrow>
     (\<forall>t<length p. phase ! t \<noteq> Phase_None \<longrightarrow>
        parked_at p pcs started t \<and> a_kind (p ! t ! (pcs ! t)) \<in> {Wait, TimedWait}) \<and>
     (\<forall>c. ascending (mget [] waiters c) \<and>
        (\<forall>t. t \<in> set (mget [] waiters c) \<longleftrightarrow>
           t < length p \<and> phase ! t = Waiting \<and> a_condition (p ! t ! (pcs ! t)) = c))"

text \<open>
  Every barrier of the program is registered; its arrivals are fewer than its parties and
  are parked at a matching \<open>BarrierWait\<close>.
\<close>

definition arrival_ok ::
  "program \<Rightarrow> nat list \<Rightarrow> bool list \<Rightarrow> string \<Rightarrow> nat \<Rightarrow> nat \<Rightarrow> bool" where
  "arrival_ok p pcs started name required t \<longleftrightarrow>
     parked_at p pcs started t \<and> a_kind (p ! t ! (pcs ! t)) = BarrierWait \<and>
     a_barrier (p ! t ! (pcs ! t)) = name \<and> a_parties (p ! t ! (pcs ! t)) = required"

definition barrier_entry_ok ::
  "program \<Rightarrow> nat list \<Rightarrow> bool list \<Rightarrow> string \<Rightarrow> barrier_state \<Rightarrow> bool" where
  "barrier_entry_ok p pcs started name b \<longleftrightarrow>
     msize (arrivals b) < max 1 (parties b) \<and>
     (\<forall>t. omember t (arrivals b) \<longrightarrow> arrival_ok p pcs started name (parties b) t)"

definition barriers_registered :: "program \<Rightarrow> (string, barrier_state) omap \<Rightarrow> bool" where
  "barriers_registered p barriers \<longleftrightarrow>
     (\<forall>a\<in>set (concat p). a_kind a = BarrierWait \<longrightarrow> mlookup barriers (a_barrier a) \<noteq> None)"

definition barrier_ok ::
  "program \<Rightarrow> nat list \<Rightarrow> bool list \<Rightarrow> (string, barrier_state) omap \<Rightarrow> bool" where
  "barrier_ok p pcs started barriers \<longleftrightarrow>
     barriers_registered p barriers \<and>
     (\<forall>name b. mlookup barriers name = Some b \<longrightarrow> barrier_entry_ok p pcs started name b)"

text \<open>
  Only the selected memory model has pending stores; a PSO queue is nonempty and belongs to
  an address of the program; a thread that has not started has none.
\<close>

definition buffers_ok ::
  "program \<Rightarrow> memory_model \<Rightarrow> bool list \<Rightarrow> store_buffer_entry list list \<Rightarrow>
   pso_address_buffer list \<Rightarrow> bool" where
  "buffers_ok p model started tso pso \<longleftrightarrow>
     (\<forall>t<length p.
        (model \<noteq> TSO \<longrightarrow> tso ! t = []) \<and> (model \<noteq> PSO \<longrightarrow> pso ! t = mempty) \<and>
        (\<not> started ! t \<longrightarrow> tso ! t = [] \<and> pso ! t = mempty) \<and>
        (\<forall>address values. mlookup (pso ! t) address = Some values \<longrightarrow>
           values \<noteq> [] \<and> address \<in> set (program_addresses p)))"

definition wf_state :: "program \<Rightarrow> exec_state \<Rightarrow> bool" where
  "wf_state p s \<longleftrightarrow>
     shape_ok p s \<and> pc_ok p (st_pc s) \<and> mutex_ok p (st_mutex_owner s) \<and>
     rwlock_ok p (st_rwlocks s) \<and>
     wait_ok p (st_pc s) (st_started s) (st_phase s) (st_waiters s) \<and>
     barrier_ok p (st_pc s) (st_started s) (st_barriers s) \<and>
     buffers_ok p (st_model s) (st_started s) (st_store_buffers s) (st_pso_buffers s)"

lemma wf_stateD:
  assumes "wf_state p s"
  shows "shape_ok p s" "pc_ok p (st_pc s)" "mutex_ok p (st_mutex_owner s)"
    "rwlock_ok p (st_rwlocks s)"
    "wait_ok p (st_pc s) (st_started s) (st_phase s) (st_waiters s)"
    "barrier_ok p (st_pc s) (st_started s) (st_barriers s)"
    "buffers_ok p (st_model s) (st_started s) (st_store_buffers s) (st_pso_buffers s)"
  using assms by (simp_all add: wf_state_def)

section \<open>Updates of the program counter\<close>

text \<open>
  A thread is free when it is neither in a wait phase nor among the arrivals of a barrier:
  moving its program counter disturbs no other component.
\<close>

definition thread_free :: "exec_state \<Rightarrow> nat \<Rightarrow> bool" where
  "thread_free s t \<longleftrightarrow>
     st_phase s ! t = Phase_None \<and>
     (\<forall>name b. mlookup (st_barriers s) name = Some b \<longrightarrow> \<not> omember t (arrivals b))"

definition pc_target :: "program \<Rightarrow> nat \<Rightarrow> nat \<Rightarrow> bool" where
  "pc_target p t pc \<longleftrightarrow>
     pc \<le> length (p ! t) \<and> (pc < length (p ! t) \<longrightarrow> a_kind (p ! t ! pc) \<noteq> Label)"

lemma pc_target_skip: "pc \<le> length (p ! t) \<Longrightarrow> pc_target p t (skip_labels (p ! t) pc)"
  by (simp add: pc_target_def skip_labels_le skip_labels_stops)

lemma pc_ok_update:
  "pc_ok p pcs \<Longrightarrow> length pcs = length p \<Longrightarrow> pc_target p t pc \<Longrightarrow> pc_ok p (pcs[t := pc])"
  unfolding pc_ok_def pc_target_def by (metis nth_list_update_eq nth_list_update_neq)

lemma parked_at_update:
  "t \<noteq> u \<Longrightarrow> parked_at p (pcs[t := pc]) started u \<longleftrightarrow> parked_at p pcs started u"
  by (simp add: parked_at_def)

lemma wait_ok_pc_update:
  assumes "wait_ok p pcs started phase waiters" "phase ! t = Phase_None"
  shows "wait_ok p (pcs[t := pc]) started phase waiters"
  using assms unfolding wait_ok_def parked_at_def
  by (metis nth_list_update_neq wait_phase.distinct(1))

lemma arrival_ok_update:
  "t \<noteq> u \<Longrightarrow>
   arrival_ok p (pcs[t := pc]) started name k u = arrival_ok p pcs started name k u"
  by (simp add: arrival_ok_def parked_at_update)

lemma barrier_entry_ok_update:
  "barrier_entry_ok p pcs started name b \<Longrightarrow> \<not> omember t (arrivals b) \<Longrightarrow>
   barrier_entry_ok p (pcs[t := pc]) started name b"
  unfolding barrier_entry_ok_def by (metis arrival_ok_update)

lemma barrier_ok_pc_update:
  assumes "barrier_ok p pcs started barriers"
    and "\<forall>name b. mlookup barriers name = Some b \<longrightarrow> \<not> omember t (arrivals b)"
  shows "barrier_ok p (pcs[t := pc]) started barriers"
  using assms by (simp add: barrier_ok_def barrier_entry_ok_update)

lemma wf_pc_update:
  assumes "wf_state p s" "thread_free s t" "pc_target p t pc"
  shows "wf_state p (s\<lparr>st_pc := (st_pc s)[t := pc]\<rparr>)"
  using assms
  by (auto simp: wf_state_def shape_ok_def thread_free_def
      intro: pc_ok_update wait_ok_pc_update barrier_ok_pc_update)

lemma wf_advance:
  assumes "wf_state p s" "thread_free s t" "st_pc s ! t < length (p ! t)"
  shows "wf_state p (advance_pc p s t)"
  unfolding advance_pc_def using assms by (intro wf_pc_update pc_target_skip) auto

lemma wf_set_pc:
  assumes "wf_state p s" "thread_free s t" "pc < length (p ! t)"
  shows "wf_state p (set_pc p s t pc)"
  unfolding set_pc_def using assms by (intro wf_pc_update pc_target_skip) auto

section \<open>Updates of the components the invariant does not read\<close>

lemma wf_join_clock [simp]: "wf_state p (join_clock s t c) = wf_state p s"
  by (simp add: join_clock_def wf_state_def shape_ok_def)

lemma wf_begin_step [simp]: "wf_state p (begin_step s step) = wf_state p s"
  by (simp add: begin_step_def wf_state_def shape_ok_def)

lemma wf_store_register:
  "wf_state p s \<Longrightarrow> wf_state p (store_register s t reg v)"
  unfolding store_register_def wf_state_def shape_ok_def
  by simp (metis length_list_update nth_list_update_eq nth_list_update_neq)

lemma wf_write_register:
  "wf_state p s \<Longrightarrow> write_register s t dest v = Inr s' \<Longrightarrow> wf_state p s'"
  by (auto simp: write_register_def res_simps wf_store_register split: option.splits)

lemma wf_value_updates [simp]:
  "wf_state p (set_value s address v) = wf_state p s"
  "wf_state p (touch_value s address) = wf_state p s"
  "wf_state p (touch_atomic_clock s address) = wf_state p s"
  "wf_state p (publish_atomic s t address) = wf_state p s"
  by (simp_all add: state_ops wf_state_def shape_ok_def)

lemma wf_on_address [simp]:
  "wf_state p (fst (on_address f s address current)) = wf_state p s"
  by (simp add: on_address_def wf_state_def shape_ok_def split: prod.split)

section \<open>Updates of one synchronisation component\<close>

lemma wf_acquire_mutex:
  "wf_state p s \<Longrightarrow> t < length p \<Longrightarrow> wf_state p (acquire_mutex s t m)"
  by (auto simp: acquire_mutex_def Let_def) (auto simp: wf_state_def shape_ok_def mutex_ok_def)

lemma wf_release_mutex: "wf_state p s \<Longrightarrow> wf_state p (release_mutex s t m)"
  by (auto simp: release_mutex_def wf_state_def shape_ok_def mutex_ok_def split: if_splits)

lemma wf_set_rwlock:
  assumes "wf_state p s"
    and "\<And>u. omember u (reader_holders rw) \<Longrightarrow> u < length p"
    and "\<And>w. writer_holder rw = Some w \<Longrightarrow> w < length p \<and> reader_holders rw = mempty"
  shows "wf_state p (set_rwlock s name rw)"
  using assms by (auto simp: set_rwlock_def wf_state_def shape_ok_def rwlock_ok_def split: if_splits)

lemma wf_semaphores [simp]: "wf_state p (s\<lparr>st_semaphores := x\<rparr>) = wf_state p s"
  by (simp add: wf_state_def shape_ok_def)

end
