(* ===== verification/Step_Invariant.thy ===== *)
theory Step_Invariant
  imports Well_Formed
begin

text \<open>
  Every case of \<open>execute_enabled_step\<close> keeps the well-formedness invariant, and the
  initial state has it. One lemma per case of the step function; the last section puts them
  together.
\<close>

section \<open>Frames\<close>

lemma write_register_frame:
  assumes "write_register s t dest v = Inr s'"
  shows "st_pc s' = st_pc s" "st_phase s' = st_phase s" "st_barriers s' = st_barriers s"
    "st_started s' = st_started s" "st_waiters s' = st_waiters s" "st_model s' = st_model s"
    "st_mutex_owner s' = st_mutex_owner s" "st_clock s' = st_clock s"
    "st_values s' = st_values s" "st_steps s' = st_steps s" "st_schedule s' = st_schedule s"
    "st_rwlocks s' = st_rwlocks s" "st_semaphores s' = st_semaphores s"
    "st_memory s' = st_memory s" "st_atomic_clock s' = st_atomic_clock s"
    "st_store_buffers s' = st_store_buffers s" "st_pso_buffers s' = st_pso_buffers s"
    "st_flush_addresses s' = st_flush_addresses s" "st_mutex_clock s' = st_mutex_clock s"
  using assms
  by (auto simp: write_register_def store_register_def guarded_def split: option.splits if_splits)

lemma thread_free_frames [simp]:
  "thread_free (join_clock s t c) u = thread_free s u"
  "thread_free (begin_step s step) u = thread_free s u"
  "thread_free (advance_pc p s t) u = thread_free s u"
  "thread_free (acquire_mutex s t m) u = thread_free s u"
  by (simp_all add: thread_free_def state_ops Let_def)

lemma thread_free_write_register:
  "write_register s t dest v = Inr s' \<Longrightarrow> thread_free s' u = thread_free s u"
  by (simp add: thread_free_def write_register_frame)

lemma advance_frames [simp]:
  "st_phase (advance_pc p s t) = st_phase s" "st_barriers (advance_pc p s t) = st_barriers s"
  "st_started (advance_pc p s t) = st_started s" "st_waiters (advance_pc p s t) = st_waiters s"
  "st_rwlocks (advance_pc p s t) = st_rwlocks s" "st_clock (advance_pc p s t) = st_clock s"
  "st_mutex_owner (advance_pc p s t) = st_mutex_owner s" "st_model (advance_pc p s t) = st_model s"
  "st_semaphores (advance_pc p s t) = st_semaphores s" "st_values (advance_pc p s t) = st_values s"
  "st_registers (advance_pc p s t) = st_registers s" "st_schedule (advance_pc p s t) = st_schedule s"
  "st_store_buffers (advance_pc p s t) = st_store_buffers s"
  "st_pso_buffers (advance_pc p s t) = st_pso_buffers s" "st_steps (advance_pc p s t) = st_steps s"
  "st_flush_addresses (advance_pc p s t) = st_flush_addresses s"
  "st_memory (advance_pc p s t) = st_memory s" "st_mutex_clock (advance_pc p s t) = st_mutex_clock s"
  "st_atomic_clock (advance_pc p s t) = st_atomic_clock s"
  by (simp_all add: advance_pc_def)

lemma join_clock_frames [simp]:
  "st_pc (join_clock s t c) = st_pc s" "st_phase (join_clock s t c) = st_phase s"
  "st_barriers (join_clock s t c) = st_barriers s" "st_started (join_clock s t c) = st_started s"
  "st_waiters (join_clock s t c) = st_waiters s" "st_rwlocks (join_clock s t c) = st_rwlocks s"
  "st_mutex_owner (join_clock s t c) = st_mutex_owner s" "st_model (join_clock s t c) = st_model s"
  "st_semaphores (join_clock s t c) = st_semaphores s" "st_values (join_clock s t c) = st_values s"
  "st_registers (join_clock s t c) = st_registers s" "st_schedule (join_clock s t c) = st_schedule s"
  "st_store_buffers (join_clock s t c) = st_store_buffers s"
  "st_pso_buffers (join_clock s t c) = st_pso_buffers s" "st_steps (join_clock s t c) = st_steps s"
  "st_flush_addresses (join_clock s t c) = st_flush_addresses s"
  "st_memory (join_clock s t c) = st_memory s" "st_mutex_clock (join_clock s t c) = st_mutex_clock s"
  "st_atomic_clock (join_clock s t c) = st_atomic_clock s"
  by (simp_all add: join_clock_def)

lemma begin_step_frames [simp]:
  "st_pc (begin_step s x) = st_pc s" "st_started (begin_step s x) = st_started s"
  "st_phase (begin_step s x) = st_phase s" "st_barriers (begin_step s x) = st_barriers s"
  "st_waiters (begin_step s x) = st_waiters s" "st_rwlocks (begin_step s x) = st_rwlocks s"
  "st_mutex_owner (begin_step s x) = st_mutex_owner s" "st_model (begin_step s x) = st_model s"
  "st_semaphores (begin_step s x) = st_semaphores s" "st_values (begin_step s x) = st_values s"
  "st_registers (begin_step s x) = st_registers s"
  "st_store_buffers (begin_step s x) = st_store_buffers s"
  "st_pso_buffers (begin_step s x) = st_pso_buffers s"
  "st_flush_addresses (begin_step s x) = st_flush_addresses s"
  "st_memory (begin_step s x) = st_memory s" "st_mutex_clock (begin_step s x) = st_mutex_clock s"
  "st_atomic_clock (begin_step s x) = st_atomic_clock s"
  by (simp_all add: begin_step_def)

text \<open>The situation in which a source action runs.\<close>

definition at_action :: "program \<Rightarrow> exec_state \<Rightarrow> nat \<Rightarrow> action \<Rightarrow> bool" where
  "at_action p s t a \<longleftrightarrow>
     wf_state p s \<and> t < length p \<and> st_started s ! t \<and> st_pc s ! t < length (p ! t) \<and>
     p ! t ! (st_pc s ! t) = a"

lemma at_actionD:
  assumes "at_action p s t a"
  shows "wf_state p s" "t < length p" "st_started s ! t" "st_pc s ! t < length (p ! t)"
    "p ! t ! (st_pc s ! t) = a"
  using assms by (simp_all add: at_action_def)

lemma at_action_in_program: "at_action p s t a \<Longrightarrow> a \<in> set (concat p)"
proof -
  assume at: "at_action p s t a"
  have "p ! t \<in> set p" using at_actionD(2) [OF at] by simp
  moreover have "a \<in> set (p ! t)" using at_actionD(4,5) [OF at] nth_mem by metis
  ultimately show ?thesis by auto
qed

lemma at_action_begin_step [simp]: "at_action p (begin_step s x) t a = at_action p s t a"
  by (simp add: at_action_def)

lemma thread_free_plain:
  assumes "at_action p s t a" "a_kind a \<notin> {Wait, TimedWait, BarrierWait}"
  shows "thread_free s t"
proof -
  note wf = wf_stateD [OF at_actionD(1) [OF assms(1)]]
  have "st_phase s ! t = Phase_None"
    using wf(5) assms by (auto simp: wait_ok_def at_action_def)
  moreover have "\<not> omember t (arrivals b)" if "mlookup (st_barriers s) name = Some b" for name b
    using wf(6) that assms
    by (auto simp: barrier_ok_def barrier_entry_ok_def arrival_ok_def at_action_def)
  ultimately show ?thesis by (simp add: thread_free_def)
qed

lemma wf_at_advance:
  "at_action p s t a \<Longrightarrow> thread_free s t \<Longrightarrow> wf_state p (advance_pc p s t)"
  by (auto simp: at_action_def intro: wf_advance)

section \<open>Thread-local actions\<close>

lemma wf_exec_set:
  assumes "at_action p s (s_thread step) a" "thread_free s (s_thread step)"
    and "exec_set p s step a = Inr (s', r)"
  shows "wf_state p s'"
proof -
  obtain v s1 where w: "write_register s (s_thread step) (a_destination a) v = Inr s1"
    and s': "s' = advance_pc p s1 (s_thread step)"
    using assms(3) by (auto simp: exec_set_def Let_def res_simps finish_def)
  have "wf_state p s1" using w assms(1) by (auto intro: wf_write_register dest: at_actionD)
  then show ?thesis
    unfolding s' using assms(1,2) w
    by (intro wf_advance)
       (auto simp: thread_free_write_register write_register_frame at_action_def)
qed

lemma wf_exec_branch:
  assumes "at_action p s (s_thread step) a" "thread_free s (s_thread step)"
    and "exec_branch p s step a = Inr (s', r)"
  shows "wf_state p s'"
  using assms wf_at_advance [OF assms(1,2)]
  by (auto simp: exec_branch_def Let_def res_simps finish_def finish_error_def at_action_def
      intro!: wf_set_pc resolve_label_in_thread split: if_splits option.splits)

lemma wf_exec_assert:
  assumes "at_action p s (s_thread step) a" "thread_free s (s_thread step)"
    and "exec_assert p s step a = Inr (s', r)"
  shows "wf_state p s'"
  using assms wf_at_advance [OF assms(1,2)]
  by (auto simp: exec_assert_def Let_def res_simps finish_def split: if_splits)

lemma wf_exec_local:
  assumes "at_action p s (s_thread step) a" "thread_free s (s_thread step)"
    and "exec_local p s step = Inr (s', r)"
  shows "wf_state p s'"
  using assms wf_at_advance [OF assms(1,2)] by (auto simp: exec_local_def finish_def)

section \<open>Mutexes and reader-writer locks\<close>

lemma wf_exec_lock:
  assumes "at_action p s (s_thread step) a" "thread_free s (s_thread step)"
    and "exec_lock p s step a = Inr (s', r)"
  shows "wf_state p s'"
  using assms wf_at_advance [OF assms(1,2)]
  by (auto simp: exec_lock_def Let_def finish_def at_action_def intro: wf_acquire_mutex)

lemma wf_exec_try_lock:
  assumes "at_action p s (s_thread step) a" "thread_free s (s_thread step)"
    and "exec_try_lock p s step a = Inr (s', r)"
  shows "wf_state p s'"
  using assms wf_at_advance [OF assms(1,2)]
  by (auto simp: exec_try_lock_def Let_def finish_def res_simps at_action_def
      intro: wf_acquire_mutex wf_write_register split: if_splits)

lemma wf_exec_unlock:
  assumes "at_action p s (s_thread step) a" "thread_free s (s_thread step)"
    and "exec_unlock p s step a = Inr (s', r)"
  shows "wf_state p s'"
  using assms wf_at_advance [OF assms(1,2)]
  by (auto simp: exec_unlock_def Let_def finish_def finish_error_def
      intro: wf_release_mutex split: if_splits)

lemma rwlock_entry:
  assumes "wf_state p s"
  shows "omember u (reader_holders (mget empty_rwlock (st_rwlocks s) name)) \<Longrightarrow> u < length p"
    and "writer_holder (mget empty_rwlock (st_rwlocks s) name) = Some w \<Longrightarrow>
         w < length p \<and> reader_holders (mget empty_rwlock (st_rwlocks s) name) = mempty"
  using wf_stateD(4) [OF assms]
  by (force simp: rwlock_ok_def mget_def empty_rwlock_def split: option.splits)+

lemma rwlock_readers_exclude_writer:
  assumes "wf_state p s" "omember u (reader_holders (mget empty_rwlock (st_rwlocks s) name))"
  shows "writer_holder (mget empty_rwlock (st_rwlocks s) name) = None"
  using rwlock_entry(2) [OF assms(1)] assms(2) by (metis not_None_eq omember_mempty)

lemmas rwlock_exec_defs =
  exec_rlock_def exec_wlock_def exec_upgrade_def exec_runlock_def exec_wunlock_def
  exec_downgrade_def

lemma oremove_only:
  assumes "omember t s" "msize s = 1"
  shows "oremove t s = (mempty :: nat oset)"
proof -
  have "card {x. omember x s} = 1" using assms(2) by (simp add: msize_card)
  then obtain y where "{x. omember x s} = {y}" by (auto simp: card_1_singleton_iff)
  then have "omember x s \<longleftrightarrow> x = t" for x using assms(1) by (metis mem_Collect_eq singleton_iff)
  then show ?thesis by (simp add: mentries_oset_empty_iff)
qed

lemma wf_exec_rwlock:
  assumes "at_action p s (s_thread step) a" "thread_free s (s_thread step)"
    and "exec_rlock p s step a = Inr (s', r) \<or> exec_wlock p s step a = Inr (s', r) \<or>
         exec_upgrade p s step a = Inr (s', r) \<or> exec_runlock p s step a = Inr (s', r) \<or>
         exec_wunlock p s step a = Inr (s', r) \<or> exec_downgrade p s step a = Inr (s', r)"
  shows "wf_state p s'"
proof -
  define t where "t = s_thread step"
  have t: "t < length p" and wf: "wf_state p (advance_pc p s t)"
    using assms(1) wf_at_advance [OF assms(1,2)] by (auto simp: at_action_def t_def)
  note entry = rwlock_entry [OF wf, simplified]
    rwlock_readers_exclude_writer [OF wf, simplified]
  show ?thesis
    using assms(3) wf t
    by (elim disjE)
       (auto simp: rwlock_exec_defs Let_def res_simps finish_def finish_error_def
          holds_rwlock_write_def holds_rwlock_read_def t_def [symmetric] oremove_only
          dest: entry intro!: wf_set_rwlock split: if_splits)
qed

section \<open>Threads and semaphores\<close>

lemma wf_exec_join:
  assumes "at_action p s (s_thread step) a" "thread_free s (s_thread step)"
    and "exec_join p s step a = Inr (s', r)"
  shows "wf_state p s'"
  using assms wf_at_advance [OF assms(1,2)]
  by (auto simp: exec_join_def Let_def finish_def finish_error_def split: if_splits)

lemma parked_at_start:
  "length started = length p \<Longrightarrow> parked_at p pcs started t \<Longrightarrow>
   parked_at p pcs (started[u := True]) t"
  by (cases "t = u") (auto simp: parked_at_def)

lemma wf_start_thread:
  assumes "wf_state p s" "t < length p"
  shows "wf_state p (s\<lparr>st_started := (st_started s)[t := True]\<rparr>)"
proof -
  note wf = wf_stateD [OF assms(1)]
  have len: "length (st_started s) = length p" using wf(1) by (simp add: shape_ok_def)
  have w: "wait_ok p (st_pc s) ((st_started s)[t := True]) (st_phase s) (st_waiters s)"
    using wf(5) len unfolding wait_ok_def by (meson parked_at_start)
  have b: "barrier_ok p (st_pc s) ((st_started s)[t := True]) (st_barriers s)"
    using wf(6) len unfolding barrier_ok_def barrier_entry_ok_def arrival_ok_def
    by (meson parked_at_start)
  have m: "buffers_ok p (st_model s) ((st_started s)[t := True]) (st_store_buffers s) (st_pso_buffers s)"
    using wf(7) len unfolding buffers_ok_def by (metis nth_list_update nth_list_update_neq)
  show ?thesis using wf w b m by (simp add: wf_state_def shape_ok_def)
qed

lemma normalize_pc_id:
  assumes "wf_state p s" "t < length p"
  shows "normalize_pc p s t = s"
proof -
  have "skip_labels (p ! t) (st_pc s ! t) = st_pc s ! t"
    using wf_stateD(2) [OF assms(1)] assms(2) by (intro skip_labels_here) (auto simp: pc_ok_def)
  then show ?thesis by (simp add: normalize_pc_def)
qed

lemma wf_normalize_pc: "wf_state p s \<Longrightarrow> t < length p \<Longrightarrow> wf_state p (normalize_pc p s t)"
  by (simp add: normalize_pc_id)

lemma wf_exec_spawn:
  assumes "at_action p s (s_thread step) a" "thread_free s (s_thread step)"
    and "exec_spawn p s step a = Inr (s', r)"
  shows "wf_state p s'"
  using assms wf_at_advance [OF assms(1,2)] wf_start_thread [OF wf_at_advance [OF assms(1,2)], simplified]
  by (auto simp: exec_spawn_def Let_def finish_error_def spawn_target_is_invalid_def
      intro!: wf_normalize_pc split: if_splits)

lemma wf_exec_sem:
  assumes "at_action p s (s_thread step) a" "thread_free s (s_thread step)"
    and "exec_sem_post p s step a = Inr (s', r) \<or> exec_sem_wait p s step a = Inr (s', r)"
  shows "wf_state p s'"
  using assms wf_at_advance [OF assms(1,2)]
  by (auto simp: exec_sem_post_def exec_sem_wait_def Let_def res_simps finish_def
      split: if_splits option.splits)

section \<open>Barriers\<close>

lemma release_participant_frame:
  assumes "release_participant p a k c t s = Inr s'"
  shows "s' = advance_pc p (join_clock s t c) t" "t < length p" "st_pc s ! t < length (p ! t)"
    "a_kind (p ! t ! (st_pc s ! t)) = BarrierWait" "a_barrier (p ! t ! (st_pc s ! t)) = a_barrier a"
    "a_parties (p ! t ! (st_pc s ! t)) = k" "st_started s ! t"
  using assms
  by (auto simp: release_participant_def res_simps has_next_action_def next_action_def)

lemma wf_barrier_entry:
  assumes "wf_state p s" "mlookup (st_barriers s) name = Some b0" "parties b = parties b0"
    and "barrier_entry_ok p (st_pc s) (st_started s) name b"
  shows "wf_state p (s\<lparr>st_barriers := mupdate name b (st_barriers s)\<rparr>)"
  using assms
  by (auto simp: wf_state_def shape_ok_def barrier_ok_def barriers_registered_def)

lemma wf_release_participant:
  assumes wf: "wf_state p (s\<lparr>st_barriers := mupdate (a_barrier a) bc (st_barriers s)\<rparr>)"
    and empty: "arrivals bc = mempty"
    and rel: "release_participant p a k c t s = Inr s'"
  shows "wf_state p (s'\<lparr>st_barriers := mupdate (a_barrier a) bc (st_barriers s')\<rparr>)"
proof -
  define x where "x = s\<lparr>st_barriers := mupdate (a_barrier a) bc (st_barriers s)\<rparr>"
  note r = release_participant_frame [OF rel]
  have x: "wf_state p x" "st_pc x = st_pc s" "st_phase x = st_phase s"
    "st_barriers x = mupdate (a_barrier a) bc (st_barriers s)"
    using wf by (simp_all add: x_def)
  have "st_phase x ! t = Phase_None"
    using wf_stateD(5) [OF x(1)] r x by (auto simp: wait_ok_def)
  moreover have "\<not> omember t (arrivals b)" if "mlookup (st_barriers x) name = Some b" for name b
  proof (cases "name = a_barrier a")
    case True
    then show ?thesis using that x(4) empty by simp
  next
    case False
    then show ?thesis
      using wf_stateD(6) [OF x(1)] that r(5) x(2)
      by (auto simp: barrier_ok_def barrier_entry_ok_def arrival_ok_def)
  qed
  ultimately have "thread_free x t" by (simp add: thread_free_def)
  then have "wf_state p (advance_pc p (join_clock x t c) t)"
    using x r(3) by (intro wf_advance) auto
  then show ?thesis
    unfolding r(1) x_def by (simp add: advance_pc_def join_clock_def wf_state_def shape_ok_def)
qed

lemma res_fold_barriers_frame:
  "res_fold (release_participant p a k c) ts s = Inr s' \<Longrightarrow> st_barriers s' = st_barriers s"
proof (induction ts arbitrary: s)
  case (Cons t ts)
  then show ?case
    by (auto simp: res_bind_eq_Inr join_clock_def dest!: release_participant_frame(1))
qed simp

lemma wf_exec_barrier:
  assumes at: "at_action p s (s_thread step) a" and kind: "a_kind a = BarrierWait"
    and enabled: "barrier_enabled s (s_thread step) a"
    and ex: "exec_barrier p s step a = Inr (s', r)"
  shows "wf_state p s'"
proof -
  define t where "t = s_thread step"
  note A = at_actionD [OF at, folded t_def]
  note wf = wf_stateD [OF A(1)]
  obtain b where b: "mlookup (st_barriers s) (a_barrier a) = Some b"
    using enabled by (auto simp: barrier_enabled_def split: option.splits)
  have entry: "barrier_entry_ok p (st_pc s) (st_started s) (a_barrier a) b"
    using wf(6) b by (auto simp: barrier_ok_def)
  show ?thesis
  proof (cases "a_parties a = 0 \<or> a_parties a \<noteq> parties b")
    case True
    have "\<not> omember t (arrivals b')" if "mlookup (st_barriers s) name = Some b'" for name b'
    proof
      assume m: "omember t (arrivals b')"
      then have "arrival_ok p (st_pc s) (st_started s) name (parties b') t"
        using wf(6) that by (auto simp: barrier_ok_def barrier_entry_ok_def)
      then have "name = a_barrier a" "a_parties a = parties b'"
        using A(5) by (auto simp: arrival_ok_def)
      moreover have "msize (arrivals b') < max 1 (parties b')"
        using wf(6) that by (auto simp: barrier_ok_def barrier_entry_ok_def)
      ultimately have "b' = b" "parties b = 0" "msize (arrivals b) = 0"
        using that b True by auto
      then show False using m by (simp add: msize_zero_iff)
    qed
    moreover have "st_phase s ! t = Phase_None"
      using wf(5) A kind by (auto simp: wait_ok_def)
    ultimately have "wf_state p (advance_pc p s t)"
      using A by (intro wf_advance) (auto simp: thread_free_def)
    then show ?thesis
      using ex b True
      by (auto simp: exec_barrier_def Let_def finish_error_def t_def [symmetric] split: if_splits)
  next
    case False
    define b1 where "b1 = b\<lparr>arrivals := oinsert t (arrivals b),
      arrival_releases := vc_join (arrival_releases b) (st_clock s ! t)\<rparr>"
    define bc where "bc = b1\<lparr>arrivals := mempty, arrival_releases := mempty,
      generation := Suc (generation b1)\<rparr>"
    define s1 where "s1 = s\<lparr>st_barriers := mupdate (a_barrier a) b1 (st_barriers s)\<rparr>"
    show ?thesis
    proof (cases "msize (arrivals b1) < parties b1")
      case True
      have "barrier_entry_ok p (st_pc s) (st_started s) (a_barrier a) b1"
        using entry True A kind False
        by (auto simp: barrier_entry_ok_def b1_def arrival_ok_def parked_at_def)
      then have "wf_state p s1"
        unfolding s1_def using A(1) b by (intro wf_barrier_entry) (auto simp: b1_def)
      then show ?thesis
        using ex b False True
        by (auto simp: exec_barrier_def Let_def finish_def res_simps s1_def b1_def
            t_def [symmetric] split: if_splits)
    next
      case last: False
      have "barrier_entry_ok p (st_pc s) (st_started s) (a_barrier a) bc"
        by (simp add: barrier_entry_ok_def bc_def)
      then have "wf_state p (s\<lparr>st_barriers := mupdate (a_barrier a) bc (st_barriers s)\<rparr>)"
        using A(1) b by (intro wf_barrier_entry) (auto simp: bc_def b1_def)
      then have start: "wf_state p (s1\<lparr>st_barriers := mupdate (a_barrier a) bc (st_barriers s1)\<rparr>)"
        by (simp add: s1_def)
      obtain s2 where fold: "res_fold (release_participant p a (parties b1) (arrival_releases b1))
            (mkeys (arrivals b1)) s1 = Inr s2"
        and s': "s' = s2\<lparr>st_barriers := mupdate (a_barrier a) bc (st_barriers s2)\<rparr>"
        using ex b False last
        by (auto simp: exec_barrier_def Let_def finish_def res_simps s1_def b1_def bc_def
            t_def [symmetric] split: if_splits)
      show ?thesis
        unfolding s'
        by (rule res_fold_invariant [OF fold,
              where I = "\<lambda>u. wf_state p (u\<lparr>st_barriers := mupdate (a_barrier a) bc (st_barriers u)\<rparr>)"])
           (use start in \<open>auto simp: bc_def intro: wf_release_participant\<close>)
    qed
  qed
qed

section \<open>Condition variables\<close>

lemma wait_ok_cong:
  "(\<And>c. mget [] w c = mget [] w' c) \<Longrightarrow>
   wait_ok p pcs started phase w = wait_ok p pcs started phase w'"
  by (simp add: wait_ok_def)

lemma wf_set_waiters_same:
  "wf_state p (set_waiters s c (mget [] (st_waiters s) c)) = wf_state p s"
  by (auto simp: set_waiters_def wf_state_def shape_ok_def cong: conj_cong
      intro: wait_ok_cong [THEN iffD1, rotated])

text \<open>One thread changes phase at condition \<open>c\<close>, whose wait set becomes \<open>ws\<close>.\<close>

lemma wait_ok_change:
  assumes "wait_ok p pcs started phase waiters"
    and "t < length p" "length phase = length p"
    and "a_condition (p ! t ! (pcs ! t)) = c" "ascending ws"
    and "\<And>u. u \<in> set ws \<longleftrightarrow> (if u = t then ph = Waiting else u \<in> set (mget [] waiters c))"
    and "ph \<noteq> Phase_None \<Longrightarrow>
         parked_at p pcs started t \<and> a_kind (p ! t ! (pcs ! t)) \<in> {Wait, TimedWait}"
  shows "wait_ok p pcs started (phase[t := ph]) (mupdate c ws waiters)"
  using assms unfolding wait_ok_def by (auto simp: nth_list_update)

lemma wf_phase_change:
  assumes "wf_state p s" "t < length p"
    and "a_condition (p ! t ! (st_pc s ! t)) = c" "ascending ws"
    and "\<And>u. u \<in> set ws \<longleftrightarrow>
           (if u = t then ph = Waiting else u \<in> set (mget [] (st_waiters s) c))"
    and "ph \<noteq> Phase_None \<Longrightarrow> parked_at p (st_pc s) (st_started s) t \<and>
           a_kind (p ! t ! (st_pc s ! t)) \<in> {Wait, TimedWait}"
  shows "wf_state p (set_phase (set_waiters s c ws) t ph)"
proof -
  have "wait_ok p (st_pc s) (st_started s) ((st_phase s)[t := ph]) (mupdate c ws (st_waiters s))"
    using wf_stateD(1,5) [OF assms(1)] assms(2-6)
    by (intro wait_ok_change) (auto simp: shape_ok_def)
  then show ?thesis
    using assms(1) by (simp add: wf_state_def shape_ok_def set_phase_def set_waiters_def)
qed

lemma wake_waiter_frame:
  assumes "wake_waiter p signaler w s = Inr s'"
  shows "\<exists>s1. s1 = join_clock (set_phase s w Woken) w (st_clock s ! signaler) \<and>
     (s' = s1 \<or> (\<exists>reg v. write_register s1 w (Some reg) v = Inr s')) \<and>
     w < length p \<and> st_phase s ! w = Waiting \<and> st_pc s ! w < length (p ! w)"
  using assms
  by (auto simp: wake_waiter_def Let_def res_simps set_phase_def has_next_action_def
      split: if_splits)

lemma set_waiters_commute_register:
  "write_register s t d v = Inr s' \<Longrightarrow>
   write_register (set_waiters s c ws) t d v = Inr (set_waiters s' c ws)"
  by (auto simp: write_register_def store_register_def set_waiters_def res_simps split: option.splits)

lemma wf_wake_waiter:
  assumes wf: "wf_state p (set_waiters s c (w # rest))"
    and wake: "wake_waiter p signaler w s = Inr s'"
  shows "wf_state p (set_waiters s' c rest)"
proof -
  define x where "x = set_waiters s c (w # rest)"
  define s1 where "s1 = join_clock (set_phase s w Woken) w (st_clock s ! signaler)"
  have s': "s' = s1 \<or> (\<exists>reg v. write_register s1 w (Some reg) v = Inr s')" "w < length p"
    using wake_waiter_frame [OF wake] by (auto simp: s1_def)
  have x: "wf_state p x" "st_pc x = st_pc s" "st_started x = st_started s" "st_phase x = st_phase s"
    "mget [] (st_waiters x) c = w # rest"
    using wf by (simp_all add: x_def set_waiters_def)
  have w: "st_phase x ! w = Waiting" "a_condition (p ! w ! (st_pc x ! w)) = c"
    "ascending (w # rest)"
    using wf_stateD(5) [OF x(1)] x(5) unfolding wait_ok_def by (metis list.set_intros(1))+
  have "wf_state p (set_phase (set_waiters x c rest) w Woken)"
  proof (rule wf_phase_change [OF x(1) s'(2) w(2)])
    show "ascending rest" using w(3) by simp
    show "u \<in> set rest \<longleftrightarrow> (if u = w then Woken = Waiting else u \<in> set (mget [] (st_waiters x) c))"
      for u using w(3) x(5) by auto
    show "parked_at p (st_pc x) (st_started x) w \<and> a_kind (p ! w ! (st_pc x ! w)) \<in> {Wait, TimedWait}"
      using wf_stateD(5) [OF x(1)] w(1) s'(2) unfolding wait_ok_def by auto
  qed
  then have "wf_state p (set_waiters s1 c rest)"
    by (simp add: s1_def x_def set_waiters_def set_phase_def join_clock_def wf_state_def shape_ok_def)
  then show ?thesis
    using s'(1) by (auto dest: set_waiters_commute_register intro: wf_write_register)
qed

lemma wf_wake_all:
  "res_fold (wake_waiter p signaler) ws s = Inr s' \<Longrightarrow> wf_state p (set_waiters s c ws) \<Longrightarrow>
   wf_state p (set_waiters s' c [])"
proof (induction ws arbitrary: s)
  case (Cons w ws)
  then obtain s1 where "wake_waiter p signaler w s = Inr s1"
    and "res_fold (wake_waiter p signaler) ws s1 = Inr s'" by (auto simp: res_bind_eq_Inr)
  with Cons show ?case by (blast intro: wf_wake_waiter)
qed simp

lemma wake_waiters_frame:
  "wake_waiter p signaler w s = Inr s' \<Longrightarrow> st_waiters s' = st_waiters s"
  by (drule wake_waiter_frame) (auto simp: set_phase_def dest!: write_register_frame(5))

lemma wake_all_waiters_frame:
  "res_fold (wake_waiter p signaler) ws s = Inr s' \<Longrightarrow> st_waiters s' = st_waiters s"
  by (induction ws arbitrary: s) (auto simp: res_bind_eq_Inr dest!: wake_waiters_frame)

lemma set_waiters_twice [simp]: "set_waiters (set_waiters s c v) c w = set_waiters s c w"
  by (simp add: set_waiters_def)

lemma set_waiters_idem:
  "mlookup (st_waiters s) c = Some w \<Longrightarrow> set_waiters s c w = s"
  by (simp add: set_waiters_def) (metis mupdate_same exec_state.surjective exec_state.update_convs(9))

lemma wf_exec_signal:
  assumes "at_action p s (s_thread step) a" "thread_free s (s_thread step)"
    and ex: "exec_signal p s step a = Inr (s', r)"
  shows "wf_state p s'"
proof -
  define s1 where "s1 = advance_pc p s (s_thread step)"
  have wf: "wf_state p s1" using wf_at_advance [OF assms(1,2)] by (simp add: s1_def)
  note same = wf_set_waiters_same [of p s1 "a_condition a"]
  show ?thesis
  proof (cases "mget [] (st_waiters s1) (a_condition a)")
    case Nil
    then show ?thesis
      using ex wf same by (auto simp: exec_signal_def Let_def finish_def s1_def)
  next
    case (Cons w rest)
    then have "wake_waiter p (s_thread step) w (set_waiters s1 (a_condition a) rest) = Inr s'"
      using ex by (auto simp: exec_signal_def Let_def finish_def s1_def res_simps)
    note wake = this
    have "wf_state p (set_waiters s' (a_condition a) rest)"
      using wf same Cons by (intro wf_wake_waiter [OF _ wake]) simp
    moreover have "set_waiters s' (a_condition a) rest = s'"
      using wake_waiters_frame [OF wake] by (intro set_waiters_idem) (simp add: set_waiters_def)
    ultimately show ?thesis by simp
  qed
qed

lemma wf_exec_broadcast:
  assumes "at_action p s (s_thread step) a" "thread_free s (s_thread step)"
    and ex: "exec_broadcast p s step a = Inr (s', r)"
  shows "wf_state p s'"
proof -
  define s1 where "s1 = advance_pc p s (s_thread step)"
  define ws where "ws = mget [] (st_waiters s1) (a_condition a)"
  have wake: "res_fold (wake_waiter p (s_thread step)) ws (set_waiters s1 (a_condition a) []) = Inr s'"
    using ex by (auto simp: exec_broadcast_def Let_def finish_def s1_def ws_def res_simps)
  have "wf_state p (set_waiters s1 (a_condition a) ws)"
    using wf_at_advance [OF assms(1,2)] by (simp only: ws_def wf_set_waiters_same s1_def)
  then have "wf_state p (set_waiters s' (a_condition a) [])"
    by (intro wf_wake_all [OF wake]) simp
  moreover have "set_waiters s' (a_condition a) [] = s'"
    using wake_all_waiters_frame [OF wake] by (intro set_waiters_idem) (simp add: set_waiters_def)
  ultimately show ?thesis by simp
qed

lemma wf_phase_only:
  assumes "wf_state p s" "t < length p"
    and "st_phase s ! t \<noteq> Waiting" "ph \<noteq> Waiting"
    and "ph \<noteq> Phase_None \<Longrightarrow> parked_at p (st_pc s) (st_started s) t \<and>
           a_kind (p ! t ! (st_pc s ! t)) \<in> {Wait, TimedWait}"
  shows "wf_state p (set_phase s t ph)"
proof -
  define c where "c = a_condition (p ! t ! (st_pc s ! t))"
  note w = wf_stateD(5) [OF assms(1)]
  have "wf_state p (set_phase (set_waiters s c (mget [] (st_waiters s) c)) t ph)"
    using w assms by (intro wf_phase_change) (auto simp: wait_ok_def c_def)
  moreover have "wait_ok p (st_pc s) (st_started s) ((st_phase s)[t := ph])
      (mupdate c (mget [] (st_waiters s) c) (st_waiters s)) =
    wait_ok p (st_pc s) (st_started s) ((st_phase s)[t := ph]) (st_waiters s)"
    by (rule wait_ok_cong) simp
  ultimately show ?thesis
    by (simp add: wf_state_def shape_ok_def set_phase_def set_waiters_def)
qed

lemma wait_kind_free:
  assumes at: "at_action p s t a" and kind: "a_kind a \<in> {Wait, TimedWait}"
    and none: "st_phase s ! t = Phase_None"
  shows "thread_free s t"
  using wf_stateD(6) [OF at_actionD(1) [OF at]] at kind none
  by (auto simp: thread_free_def barrier_ok_def barrier_entry_ok_def arrival_ok_def at_action_def)

lemma acquire_mutex_frames [simp]:
  "st_pc (acquire_mutex s t m) = st_pc s" "st_phase (acquire_mutex s t m) = st_phase s"
  "st_started (acquire_mutex s t m) = st_started s"
  "st_barriers (acquire_mutex s t m) = st_barriers s"
  "st_waiters (acquire_mutex s t m) = st_waiters s"
  by (simp_all add: acquire_mutex_def Let_def)

lemma release_mutex_frames [simp]:
  "st_pc (release_mutex s t m) = st_pc s" "st_phase (release_mutex s t m) = st_phase s"
  "st_started (release_mutex s t m) = st_started s"
  "st_barriers (release_mutex s t m) = st_barriers s"
  "st_waiters (release_mutex s t m) = st_waiters s"
  by (simp_all add: release_mutex_def)

lemma wf_exec_wait:
  assumes at: "at_action p s (s_thread step) a" and kind: "a_kind a \<in> {Wait, TimedWait}"
    and ex: "exec_wait p s step a = Inr (s', r)"
  shows "wf_state p s'"
proof -
  define t where "t = s_thread step"
  note A = at_actionD [OF at, folded t_def]
  note w = wf_stateD(5) [OF A(1)]
  have len: "length (st_phase s) = length p"
    using wf_stateD(1) [OF A(1)] by (simp add: shape_ok_def)
  have parked: "parked_at p (st_pc s) (st_started s) t" using A by (simp add: parked_at_def)
  consider (woken) "st_phase s ! t = Woken"
    | (timeout) "a_kind a = TimedWait" "st_phase s ! t = Waiting"
    | (park) "st_phase s ! t = Phase_None"
    using ex by (cases "st_phase s ! t")
      (auto simp: exec_wait_def Let_def res_simps t_def [symmetric] split: if_splits)
  then show ?thesis
  proof cases
    case woken
    define s1 where "s1 = set_phase (acquire_mutex s t (a_mutex a)) t Phase_None"
    have s': "s' = advance_pc p s1 t"
      using ex woken
      by (auto simp: exec_wait_def Let_def res_simps finish_def t_def [symmetric] s1_def)
    have "wf_state p s1"
      unfolding s1_def using A woken
      by (intro wf_phase_only wf_acquire_mutex) auto
    moreover have "at_action p s1 t a"
      using \<open>wf_state p s1\<close> A by (simp add: at_action_def s1_def set_phase_def)
    moreover have "st_phase s1 ! t = Phase_None" using A(2) len by (simp add: s1_def set_phase_def)
    ultimately show ?thesis
      unfolding s' using kind by (blast intro: wf_at_advance wait_kind_free)
  next
    case timeout
    define ws where "ws = mget [] (st_waiters s) (a_condition a)"
    obtain v d where wr: "write_register
        (set_phase (set_waiters s (a_condition a) (vec_remove t ws)) t Woken) t d v = Inr s'"
      using ex timeout
      by (auto simp: exec_wait_def remove_waiter_def Let_def res_simps finish_def t_def [symmetric] ws_def)
    have asc: "ascending ws" using w by (auto simp: wait_ok_def ws_def)
    have "wf_state p (set_phase (set_waiters s (a_condition a) (vec_remove t ws)) t Woken)"
      using A kind asc parked
      by (intro wf_phase_change) (auto simp: ws_def)
    then show ?thesis using wr by (rule wf_write_register)
  next
    case park
    show ?thesis
    proof (cases "owns_mutex s t (a_mutex a)")
      case False
      then have "s' = advance_pc p s t"
        using ex park
        by (auto simp: exec_wait_def Let_def res_simps finish_error_def t_def [symmetric])
      then show ?thesis
        using at kind park by (auto intro: wf_at_advance wait_kind_free simp: t_def)
    next
      case True
      define s1 where "s1 = release_mutex s t (a_mutex a)"
      define ws where "ws = mget [] (st_waiters s) (a_condition a)"
      have s': "s' = set_phase (set_waiters s1 (a_condition a) (vec_insert t ws)) t Waiting"
        using ex park True
        by (auto simp: exec_wait_def insert_waiter_def Let_def res_simps finish_def
            t_def [symmetric] s1_def ws_def)
      have "wf_state p s1" using A(1) by (simp add: s1_def wf_release_mutex)
      then show ?thesis
        unfolding s' using A kind parked w
        by (intro wf_phase_change) (auto simp: ws_def s1_def wait_ok_def)
    qed
  qed
qed

section \<open>Memory\<close>

lemma wf_exec_atomic:
  assumes "at_action p s (s_thread step) a" "thread_free s (s_thread step)"
    and "exec_atomic_load p s step a = Inr (s', r) \<or> exec_atomic_store p s step a = Inr (s', r) \<or>
         exec_atomic_rmw p s step a = Inr (s', r) \<or> exec_cas p s step a = Inr (s', r) \<or>
         exec_read p s step a = Inr (s', r)"
  shows "wf_state p s'"
  using assms(3) wf_at_advance [OF assms(1,2)]
  by (elim disjE)
     (auto simp: exec_atomic_load_def exec_atomic_store_def exec_atomic_rmw_def exec_cas_def
        exec_read_def Let_def res_simps finish_def finish_race_def
        dest!: wf_write_register [rotated] split: if_splits)

lemma wf_buffers_update:
  assumes "wf_state p s"
    and "buffers_ok p (st_model s) (st_started s) tso pso"
    and "length tso = length p" "length pso = length p"
  shows "wf_state p (s\<lparr>st_store_buffers := tso, st_pso_buffers := pso\<rparr>)"
  using assms by (simp add: wf_state_def shape_ok_def)

lemma wf_tso_update:
  assumes "wf_state p s" "t < length p" "st_model s = TSO" "st_started s ! t"
    and "bufs = st_store_buffers s"
  shows "wf_state p (s\<lparr>st_store_buffers := bufs[t := b]\<rparr>)"
proof -
  have "buffers_ok p (st_model s) (st_started s) ((st_store_buffers s)[t := b]) (st_pso_buffers s)"
    using wf_stateD(7) [OF assms(1)] assms(3,4)
    unfolding buffers_ok_def by (metis nth_list_update_neq)
  then show ?thesis using assms(1,5) by (simp add: wf_state_def shape_ok_def)
qed

lemma wf_pso_update:
  assumes "wf_state p s" "t < length p" "st_model s = PSO" "st_started s ! t"
    and "\<And>address values. mlookup b address = Some values \<Longrightarrow>
           values \<noteq> [] \<and> address \<in> set (program_addresses p)"
    and "bufs = st_pso_buffers s"
  shows "wf_state p (s\<lparr>st_pso_buffers := bufs[t := b]\<rparr>)"
proof -
  have "buffers_ok p (st_model s) (st_started s) (st_store_buffers s) ((st_pso_buffers s)[t := b])"
    using wf_stateD(1,7) [OF assms(1)] assms(2-5)
    unfolding buffers_ok_def shape_ok_def by (simp add: nth_list_update)
  then show ?thesis using assms(1,6) by (simp add: wf_state_def shape_ok_def)
qed

lemma set_program_addresses:
  "address \<in> set (program_addresses p) \<longleftrightarrow> address \<noteq> [] \<and> address \<in> a_address ` set (concat p)"
  by (auto simp: program_addresses_def)

lemma wf_commit_store:
  "commit_store s step address v = Inr (s', r) \<Longrightarrow> wf_state p s \<Longrightarrow> wf_state p s'"
  by (auto simp: commit_store_def Let_def finish_race_def)

lemma wf_exec_write:
  assumes "at_action p s (s_thread step) a" "thread_free s (s_thread step)"
    and "exec_write p s step a = Inr (s', r)"
  shows "wf_state p s'"
proof -
  define t where "t = s_thread step"
  define s1 where "s1 = advance_pc p s t"
  note A = at_actionD [OF assms(1), folded t_def]
  have wf: "wf_state p s1" using wf_at_advance [OF assms(1,2)] by (simp add: s1_def t_def)
  have "a \<in> set (concat p)" by (rule at_action_in_program [OF assms(1)])
  then have addr: "a_address a \<noteq> [] \<Longrightarrow> a_address a \<in> set (program_addresses p)"
    by (auto simp: set_program_addresses)
  have queue: "vs \<noteq> [] \<and> address \<in> set (program_addresses p)"
    if "mlookup (st_pso_buffers s1 ! t) address = Some vs" for address vs
    using wf_stateD(7) [OF wf] A(2) that by (auto simp: buffers_ok_def)
  show ?thesis
  proof (cases "a_address a = []")
    case True
    then show ?thesis using assms(3) wf by (auto simp: exec_write_def Let_def finish_def s1_def t_def)
  next
    case False
    show ?thesis
    proof (cases "st_model s1")
      case SC
      then show ?thesis
        using assms(3) wf False
        by (auto simp: exec_write_def Let_def res_simps s1_def t_def intro: wf_commit_store)
    next
      case TSO
      then show ?thesis
        using assms(3) wf False A
        by (auto simp: exec_write_def Let_def res_simps finish_def s1_def t_def intro!: wf_tso_update)
    next
      case PSO
      then obtain v where s': "s' = s1\<lparr>st_pso_buffers := (st_pso_buffers s1)
          [t := mupdate (a_address a) (mget [] (st_pso_buffers s1 ! t) (a_address a) @ [v])
                  (st_pso_buffers s1 ! t)]\<rparr>"
        using assms(3) False unfolding exec_write_def Let_def t_def [symmetric] s1_def [symmetric]
        by (auto simp: res_simps finish_def)
      show ?thesis
        unfolding s'
      proof (rule wf_pso_update [OF wf A(2) PSO _ _ refl])
        show "st_started s1 ! t" using A(3) by (simp add: s1_def)
        show "values \<noteq> [] \<and> address \<in> set (program_addresses p)"
          if "mlookup (mupdate (a_address a)
               (mget [] (st_pso_buffers s1 ! t) (a_address a) @ [v]) (st_pso_buffers s1 ! t)) address
             = Some values" for address "values"
          using that queue [of address "values"] addr False by (auto split: if_splits)
      qed
    qed
  qed
qed

lemma wf_exec_flush:
  assumes wf: "wf_state p s" and t: "s_thread step < length p"
    and started: "st_started s ! s_thread step"
    and model: "is_buffered_memory_model (st_model s)"
    and ex: "exec_flush s step = Inr (s', r)"
  shows "wf_state p s'"
proof (cases "st_model s = TSO")
  case True
  then show ?thesis
    using wf t started ex
    by (auto simp: exec_flush_def Let_def intro!: wf_tso_update
        elim!: wf_commit_store split: list.splits)
next
  case False
  then have pso: "st_model s = PSO" using model by (auto simp: is_buffered_memory_model_def)
  have queue: "vs \<noteq> [] \<and> address \<in> set (program_addresses p)"
    if "mlookup (st_pso_buffers s ! s_thread step) address = Some vs" for address vs
    using wf_stateD(7) [OF wf] t that by (auto simp: buffers_ok_def)
  have nonempty: "mlookup (st_pso_buffers s ! s_thread step) address \<noteq> Some []" for address
    using queue [of address "[]"] by auto
  show ?thesis
    using wf t started ex False pso nonempty
    by (auto simp: exec_flush_def Let_def res_simps intro!: wf_pso_update
        elim!: wf_commit_store dest: queue split: option.splits list.splits if_splits)
qed

section \<open>The whole step\<close>

lemma flush_steps_index:
  "st \<in> set (flush_steps s t) \<Longrightarrow> s_index st = kFlushActionIndex \<and> s_thread st = t"
  by (auto simp: flush_steps_def split: if_splits)

lemma program_action_has_next:
  "is_program_action_enabled p s t \<Longrightarrow> st_started s ! t \<and> st_pc s ! t < length (p ! t)"
  by (auto simp: is_program_action_enabled_def has_next_action_def split: if_splits)

lemma enabled_source_step:
  assumes "wf_state p s" "step \<in> set (enabled_steps p s)" "\<not> is_flush_step step"
  shows "s_thread step < length p" "is_program_action_enabled p s (s_thread step)"
    "st_started s ! s_thread step" "s_index step = st_pc s ! s_thread step"
    "s_flush step = None" "s_index step < length (p ! s_thread step)"
proof -
  have mem: "s_thread step < length p" "step \<in> set (enabled_steps_for_thread p s (s_thread step))"
    using assms(2) by (simp_all add: enabled_step_iff)
  then show "s_thread step < length p" by simp
  have "step \<notin> set (flush_steps s (s_thread step))"
    using flush_steps_index [of step s] assms(3) by (auto simp: is_flush_step_def)
  then have *: "is_program_action_enabled p s (s_thread step)"
      "step = Step (s_thread step) (st_pc s ! s_thread step) None"
    using mem(2) by (auto simp: enabled_steps_for_thread_def split: if_splits)
  show "is_program_action_enabled p s (s_thread step)" by (rule *(1))
  show "s_index step = st_pc s ! s_thread step" by (subst *(2)) simp
  then show "s_index step < length (p ! s_thread step)"
    using program_action_has_next [OF *(1)] by simp
  show "st_started s ! s_thread step" using program_action_has_next [OF *(1)] by simp
  show "s_flush step = None" by (subst *(2)) simp
qed

lemma enabled_barrier:
  "is_program_action_enabled p s t \<Longrightarrow> a_kind (next_action p s t) = BarrierWait \<Longrightarrow>
   barrier_enabled s t (next_action p s t)"
  unfolding is_program_action_enabled_def Let_def by (simp split: if_splits)

lemma enabled_not_flush:
  "is_program_action_enabled p s t \<Longrightarrow> a_kind (next_action p s t) \<noteq> Flush"
  unfolding is_program_action_enabled_def Let_def by (auto split: if_splits)

lemma enabled_at_action:
  assumes "wf_state p s" "t < length p" "is_program_action_enabled p s t"
  shows "at_action p s t (next_action p s t)"
  using assms program_action_has_next [OF assms(3)] by (simp add: at_action_def next_action_def)

lemma enabled_flush_step:
  assumes "wf_state p s" "step \<in> set (enabled_steps p s)" "is_flush_step step"
    and "\<And>t. t < length p \<Longrightarrow> length (p ! t) < kFlushActionIndex"
  shows "s_thread step < length p" "st_started s ! s_thread step"
    "step \<in> set (flush_steps s (s_thread step))" "has_pending_store s (s_thread step)"
    "is_buffered_memory_model (st_model s)"
proof -
  have mem: "s_thread step < length p" "step \<in> set (enabled_steps_for_thread p s (s_thread step))"
    using assms(2) by (simp_all add: enabled_step_iff)
  then show "s_thread step < length p" by simp
  have "step \<noteq> Step (s_thread step) (st_pc s ! s_thread step) None"
    if "is_program_action_enabled p s (s_thread step)"
  proof
    assume "step = Step (s_thread step) (st_pc s ! s_thread step) None"
    then have "st_pc s ! s_thread step = kFlushActionIndex"
      using assms(3) by (metis is_flush_step_def schedule_step.sel(2))
    moreover have "st_pc s ! s_thread step < length (p ! s_thread step)"
      using that by (auto simp: is_program_action_enabled_def has_next_action_def split: if_splits)
    ultimately show False using assms(4) mem(1) by fastforce
  qed
  then show "st_started s ! s_thread step" and fl: "step \<in> set (flush_steps s (s_thread step))"
    using mem(2) by (auto simp: enabled_steps_for_thread_def split: if_splits)
  then show pend: "has_pending_store s (s_thread step)"
    by (auto simp: flush_steps_def split: if_splits)
  then show "is_buffered_memory_model (st_model s)"
    by (auto simp: has_pending_store_def is_buffered_memory_model_def split: memory_model.splits)
qed

lemma effective_flush_kind: "is_flush_step step \<Longrightarrow> a_kind (effective_action_for_step p s step) = Flush"
  by (auto simp: effective_action_for_step_def flush_action_for_def split: list.splits option.splits)

lemma wf_perform_action:
  assumes at: "at_action p s (s_thread step) a"
    and enabled: "a_kind a = BarrierWait \<Longrightarrow> barrier_enabled s (s_thread step) a"
    and kind: "a_kind a \<noteq> Flush"
    and ex: "perform_action p s step a = Inr (s', r)"
  shows "wf_state p s'"
proof (cases "a_kind a \<in> {Wait, TimedWait, BarrierWait}")
  case True
  then show ?thesis
    using ex at enabled by (auto simp: perform_action_def intro: wf_exec_wait wf_exec_barrier)
next
  case False
  then have free: "thread_free s (s_thread step)" by (intro thread_free_plain [OF at]) simp
  note plain = wf_exec_set [OF at free] wf_exec_branch [OF at free] wf_exec_assert [OF at free]
    wf_exec_lock [OF at free] wf_exec_try_lock [OF at free] wf_exec_unlock [OF at free]
    wf_exec_join [OF at free] wf_exec_spawn [OF at free] wf_exec_signal [OF at free]
    wf_exec_broadcast [OF at free] wf_exec_write [OF at free] wf_exec_local [OF at free]
  have "exec_set p s step a = Inr (s', r) \<or> exec_branch p s step a = Inr (s', r) \<or>
      exec_assert p s step a = Inr (s', r) \<or> exec_lock p s step a = Inr (s', r) \<or>
      exec_try_lock p s step a = Inr (s', r) \<or> exec_unlock p s step a = Inr (s', r) \<or>
      exec_join p s step a = Inr (s', r) \<or> exec_spawn p s step a = Inr (s', r) \<or>
      exec_signal p s step a = Inr (s', r) \<or> exec_broadcast p s step a = Inr (s', r) \<or>
      exec_write p s step a = Inr (s', r) \<or> exec_local p s step = Inr (s', r) \<or>
      (exec_rlock p s step a = Inr (s', r) \<or> exec_wlock p s step a = Inr (s', r) \<or>
       exec_upgrade p s step a = Inr (s', r) \<or> exec_runlock p s step a = Inr (s', r) \<or>
       exec_wunlock p s step a = Inr (s', r) \<or> exec_downgrade p s step a = Inr (s', r)) \<or>
      (exec_sem_post p s step a = Inr (s', r) \<or> exec_sem_wait p s step a = Inr (s', r)) \<or>
      (exec_atomic_load p s step a = Inr (s', r) \<or> exec_atomic_store p s step a = Inr (s', r) \<or>
       exec_atomic_rmw p s step a = Inr (s', r) \<or> exec_cas p s step a = Inr (s', r) \<or>
       exec_read p s step a = Inr (s', r))"
    using ex False kind by (cases "a_kind a") (simp_all add: perform_action_def)
  then show ?thesis
    by (elim disjE)
       (blast intro: plain wf_exec_rwlock [OF at free] wf_exec_sem [OF at free]
          wf_exec_atomic [OF at free])+
qed

text \<open>
  The numeric step encoding identifies a flush by the reserved action index; a thread must be
  shorter than that index for a source step not to be mistaken for a flush.
\<close>

definition indexable :: "program \<Rightarrow> bool" where
  "indexable p = list_all (\<lambda>thread. length thread < kFlushActionIndex) p"

lemma indexableD: "indexable p \<Longrightarrow> t < length p \<Longrightarrow> length (p ! t) < kFlushActionIndex"
  by (simp add: indexable_def list_all_length)

lemma wf_execute_enabled_step:
  assumes wf: "wf_state p s" and idx: "indexable p"
    and step: "step \<in> set (enabled_steps p s)"
    and ex: "execute_enabled_step p s step = Inr (s', r)"
  shows "wf_state p s'"
proof (cases "is_flush_step step")
  case True
  note fl = enabled_flush_step [OF wf step True indexableD [OF idx]]
  have "perform_action p (begin_step s step) step (effective_action_for_step p s step) = Inr (s', r)"
    using ex True by (simp add: execute_enabled_step_def res_simps Let_def)
  then have "exec_flush (begin_step s step) step = Inr (s', r)"
    by (simp add: perform_action_def effective_flush_kind [OF True] res_simps)
  from wf_exec_flush [OF _ _ _ _ this] show ?thesis using wf fl(1,2,5) by simp
next
  case False
  note src = enabled_source_step [OF wf step False]
  define a where "a = next_action p s (s_thread step)"
  have at: "at_action p s (s_thread step) a"
    unfolding a_def by (rule enabled_at_action [OF wf src(1,2)])
  have "perform_action p (begin_step s step) step a = Inr (s', r)"
    using ex False src(4) by (simp add: execute_enabled_step_def res_simps Let_def a_def next_action_def)
  moreover have "barrier_enabled (begin_step s step) (s_thread step) a" if "a_kind a = BarrierWait"
    using enabled_barrier [OF src(2)] that by (simp add: a_def barrier_enabled_def)
  moreover have "a_kind a \<noteq> Flush" using enabled_not_flush [OF src(2)] by (simp add: a_def)
  ultimately show ?thesis
    using at wf_perform_action [of p "begin_step s step" step a s' r] by simp
qed

section \<open>The initial state\<close>

lemma normalize_all_pcs_fold:
  "m \<le> length p \<Longrightarrow> length (st_pc s) = length p \<Longrightarrow>
   fold (\<lambda>tid s. normalize_pc p s tid) [0..<m] s =
   s\<lparr>st_pc := map (\<lambda>t. if t < m then skip_labels (p ! t) (st_pc s ! t) else st_pc s ! t)
       [0..<length p]\<rparr>"
proof (induction m)
  case 0
  have "map ((!) (st_pc s)) [0..<length p] = st_pc s" using 0(2) by (metis map_nth)
  then show ?case by simp
next
  case (Suc m)
  then have "fold (\<lambda>tid s. normalize_pc p s tid) [0..<Suc m] s =
    normalize_pc p (s\<lparr>st_pc := map (\<lambda>t. if t < m then skip_labels (p ! t) (st_pc s ! t)
        else st_pc s ! t) [0..<length p]\<rparr>) m" by simp
  also have "\<dots> = s\<lparr>st_pc := map (\<lambda>t. if t < Suc m then skip_labels (p ! t) (st_pc s ! t)
        else st_pc s ! t) [0..<length p]\<rparr>"
  proof -
    have "(map (\<lambda>t. if t < m then skip_labels (p ! t) (st_pc s ! t) else st_pc s ! t)
             [0..<length p]) [m := skip_labels (p ! m) (st_pc s ! m)] =
          map (\<lambda>t. if t < Suc m then skip_labels (p ! t) (st_pc s ! t) else st_pc s ! t)
             [0..<length p]"
      using Suc.prems by (intro nth_equalityI) (auto simp: nth_list_update less_Suc_eq)
    then show ?thesis using Suc.prems by (simp add: normalize_pc_def)
  qed
  finally show ?case .
qed

lemma initial_state_pc:
  "initial_state p m =
     \<lparr>st_model = m, st_pc = map (\<lambda>t. skip_labels (p ! t) 0) [0..<length p],
      st_started = initially_started_threads p, st_mutex_owner = mempty, st_mutex_clock = mempty,
      st_rwlocks = mempty, st_semaphores = mempty, st_barriers = initial_barriers p,
      st_waiters = mempty, st_clock = replicate (length p) mempty,
      st_registers = initial_registers (length p), st_steps = replicate (length p) 0,
      st_phase = replicate (length p) Phase_None, st_memory = mempty, st_values = mempty,
      st_atomic_clock = mempty, st_store_buffers = replicate (length p) [],
      st_pso_buffers = replicate (length p) mempty,
      st_flush_addresses = program_addresses p, st_schedule = []\<rparr>"
  unfolding initial_state_def normalize_all_pcs_def
  by (subst normalize_all_pcs_fold) auto

lemma length_clear_spawn [simp]: "length (clear_spawn_target n t a st) = length st"
  by (simp add: clear_spawn_target_def)

lemma length_fold_clear [simp]: "length (fold (clear_spawn_target n t) as st) = length st"
  by (induction as arbitrary: st) auto

lemma length_initially_started [simp]: "length (initially_started_threads p) = length p"
proof -
  have "length (fold (\<lambda>tid st. fold (clear_spawn_target n tid) (p ! tid) st) ts st) = length st"
    for n ts st by (induction ts arbitrary: st) auto
  then show ?thesis by (simp add: initially_started_threads_def)
qed

lemma initial_barriers_fresh:
  assumes "mlookup (initial_barriers p) name = Some b"
  shows "arrivals b = mempty"
proof -
  have "mlookup (fold add_barrier as m) name = Some b \<Longrightarrow>
     (\<And>n b. mlookup m n = Some b \<Longrightarrow> arrivals b = mempty) \<Longrightarrow> arrivals b = mempty" for as m
    by (induction as arbitrary: m) (fastforce simp: add_barrier_def split: if_splits)+
  then show ?thesis using assms by (fastforce simp: initial_barriers_def)
qed

lemma fold_add_barrier_keeps:
  "mlookup m n \<noteq> None \<Longrightarrow> mlookup (fold add_barrier as m) n \<noteq> None"
  by (induction as arbitrary: m) (auto simp: add_barrier_def)

lemma initial_barriers_registered: "barriers_registered p (initial_barriers p)"
proof -
  have "a \<in> set as \<Longrightarrow> a_kind a = BarrierWait \<Longrightarrow>
      mlookup (fold add_barrier as m) (a_barrier a) \<noteq> None" for a as m
  proof (induction as arbitrary: m)
    case (Cons x xs)
    then show ?case
    proof (cases "a = x")
      case True
      then have "mlookup (add_barrier x m) (a_barrier a) \<noteq> None"
        using Cons.prems(2) by (auto simp: add_barrier_def)
      then show ?thesis by (simp add: fold_add_barrier_keeps)
    qed auto
  qed simp
  then show ?thesis by (auto simp: barriers_registered_def initial_barriers_def)
qed

lemma wf_initial_state: "wf_state p (initial_state p m)"
proof -
  have "shape_ok p (initial_state p m)"
    by (simp add: shape_ok_def initial_state_pc initial_registers_def)
  moreover have "pc_ok p (map (\<lambda>t. skip_labels (p ! t) 0) [0..<length p])"
    by (simp add: pc_ok_def skip_labels_le skip_labels_stops)
  moreover have "barrier_ok p pcs st (initial_barriers p)" for pcs st
    by (simp add: barrier_ok_def initial_barriers_registered barrier_entry_ok_def
        initial_barriers_fresh less_max_iff_disj)
  ultimately show ?thesis
    by (auto simp: wf_state_def initial_state_pc mutex_ok_def rwlock_ok_def wait_ok_def buffers_ok_def)
qed

end
