(* ===== verification/Reachability.thy ===== *)
theory Reachability
  imports Step_Invariant
begin

text \<open>
  The transition system the explorers walk: from the initial state, any step of
  \<open>enabled_steps\<close> that \<open>execute_enabled_step\<close> carries out without a modeled error leads on
  (the explorers stop a branch at an error or an assertion failure). \<open>run\<close> executes a
  schedule the way \<open>observe_effective_schedule_state\<close> and the replays do, with every step
  checked against the enabled set.
\<close>

definition step_to :: "program \<Rightarrow> exec_state \<Rightarrow> schedule_step \<Rightarrow> exec_state \<Rightarrow> bool" where
  "step_to p s step s' \<longleftrightarrow>
     step \<in> set (enabled_steps p s) \<and>
     (\<exists>r. execute_enabled_step p s step = Inr (s', r) \<and> \<not> step_terminal r)"

inductive reachable :: "program \<Rightarrow> memory_model \<Rightarrow> exec_state \<Rightarrow> bool"
  for p :: program and m :: memory_model where
  initial: "reachable p m (initial_state p m)"
| step: "reachable p m s \<Longrightarrow> step_to p s step s' \<Longrightarrow> reachable p m s'"

inductive_cases reachableE: "reachable p m s"

fun run :: "program \<Rightarrow> schedule \<Rightarrow> exec_state \<Rightarrow> exec_state option" where
  "run p [] s = Some s"
| "run p (step # rest) s =
     (if step \<in> set (enabled_steps p s) then
        (case execute_enabled_step p s step of
           Inl _ \<Rightarrow> None
         | Inr (s', r) \<Rightarrow> if step_terminal r then None else run p rest s')
      else None)"

lemma run_append:
  "run p (xs @ ys) s = (case run p xs s of None \<Rightarrow> None | Some t \<Rightarrow> run p ys t)"
  by (induction xs arbitrary: s) (auto split: sum.splits)

lemma run_single: "run p [step] s = Some s' \<longleftrightarrow> step_to p s step s'"
  by (auto simp: step_to_def split: sum.splits if_splits)

lemma reachable_run: "reachable p m s \<Longrightarrow> run p xs s = Some s' \<Longrightarrow> reachable p m s'"
proof (induction xs arbitrary: s)
  case (Cons x xs)
  then obtain s1 where "step_to p s x s1" "run p xs s1 = Some s'"
    by (auto simp: step_to_def split: sum.splits if_splits)
  then show ?case using Cons by (blast intro: reachable.step)
qed simp

lemma reachable_iff_run: "reachable p m s \<longleftrightarrow> (\<exists>xs. run p xs (initial_state p m) = Some s)"
proof
  show "\<exists>xs. run p xs (initial_state p m) = Some s" if "reachable p m s"
    using that
  proof induction
    case initial
    then show ?case by (rule exI [of _ "[]"]) simp
  next
    case (step s x s')
    then obtain xs where "run p xs (initial_state p m) = Some s" by blast
    then have "run p (xs @ [x]) (initial_state p m) = Some s'"
      using step.hyps(2) run_single by (simp add: run_append)
    then show ?case by blast
  qed
  show "reachable p m s" if "\<exists>xs. run p xs (initial_state p m) = Some s"
    using that reachable_run reachable.initial by blast
qed

lemma wf_step_to: "indexable p \<Longrightarrow> wf_state p s \<Longrightarrow> step_to p s step s' \<Longrightarrow> wf_state p s'"
  unfolding step_to_def using wf_execute_enabled_step by blast

lemma wf_reachable: "reachable p m s \<Longrightarrow> indexable p \<Longrightarrow> wf_state p s"
  by (induction rule: reachable.induct) (auto intro: wf_initial_state wf_step_to)

lemma wf_run: "indexable p \<Longrightarrow> wf_state p s \<Longrightarrow> run p xs s = Some s' \<Longrightarrow> wf_state p s'"
  by (induction xs arbitrary: s)
     (auto split: sum.splits if_splits dest: wf_execute_enabled_step)

end
