(* ===== verification/Step_Frames.thy ===== *)
theory Step_Frames
  imports Reachability
begin

text \<open>
  What a step leaves alone. The schedule, the step counters, the memory model and the flush
  address table change in no case of the switch (the prologue alone appends to the schedule
  and counts the step); semaphores and barriers change in their own cases only.
\<close>

text \<open>The components no case of the switch writes.\<close>

definition header :: "exec_state \<Rightarrow> schedule \<times> nat list \<times> memory_model \<times> string list" where
  "header s = (st_schedule s, st_steps s, st_model s, st_flush_addresses s)"

definition permit_part ::
  "exec_state \<Rightarrow> (string, semaphore_state) omap \<times> (string, barrier_state) omap" where
  "permit_part s = (st_semaphores s, st_barriers s)"

lemma header_simps [simp]:
  "header (advance_pc p s t) = header s" "header (set_pc p s t pc) = header s"
  "header (normalize_pc p s t) = header s" "header (join_clock s t c) = header s"
  "header (acquire_mutex s t m) = header s" "header (release_mutex s t m) = header s"
  "header (set_rwlock s n rw) = header s" "header (set_phase s t ph) = header s"
  "header (set_waiters s cv ws) = header s" "header (set_value s x v) = header s"
  "header (touch_value s x) = header s" "header (touch_atomic_clock s x) = header s"
  "header (publish_atomic s t x) = header s" "header (s\<lparr>st_semaphores := x1\<rparr>) = header s"
  "header (s\<lparr>st_barriers := x2\<rparr>) = header s" "header (s\<lparr>st_started := x3\<rparr>) = header s"
  "header (s\<lparr>st_store_buffers := x4\<rparr>) = header s" "header (s\<lparr>st_pso_buffers := x5\<rparr>) = header s"
  "header (fst (on_address f s x acc)) = header s" "header (store_register s t r v) = header s"
  by (simp_all add: header_def state_ops Let_def on_address_def split: prod.split)

lemma permit_part_simps [simp]:
  "permit_part (advance_pc p s t) = permit_part s" "permit_part (set_pc p s t pc) = permit_part s"
  "permit_part (normalize_pc p s t) = permit_part s"
  "permit_part (join_clock s t c) = permit_part s"
  "permit_part (acquire_mutex s t m) = permit_part s"
  "permit_part (release_mutex s t m) = permit_part s"
  "permit_part (set_rwlock s n rw) = permit_part s" "permit_part (set_phase s t ph) = permit_part s"
  "permit_part (set_waiters s cv ws) = permit_part s" "permit_part (set_value s x v) = permit_part s"
  "permit_part (touch_value s x) = permit_part s"
  "permit_part (touch_atomic_clock s x) = permit_part s"
  "permit_part (publish_atomic s t x) = permit_part s"
  "permit_part (s\<lparr>st_started := x3\<rparr>) = permit_part s"
  "permit_part (s\<lparr>st_store_buffers := x4\<rparr>) = permit_part s"
  "permit_part (s\<lparr>st_pso_buffers := x5\<rparr>) = permit_part s"
  "permit_part (fst (on_address f s x acc)) = permit_part s"
  "permit_part (store_register s t r v) = permit_part s"
  by (simp_all add: permit_part_def state_ops Let_def on_address_def split: prod.split)

lemma write_register_parts:
  assumes "write_register s t d v = Inr s'"
  shows "header s' = header s \<and> permit_part s' = permit_part s"
  using assms by (auto simp: write_register_def guarded_def split: option.splits if_splits)

lemma wake_waiter_parts:
  assumes "wake_waiter p t w s = Inr s'"
  shows "header s' = header s \<and> permit_part s' = permit_part s"
  using assms
  by (auto simp: wake_waiter_def guarded_def Let_def dest!: write_register_parts split: if_splits)

lemma fold_wake_parts:
  assumes "res_fold (wake_waiter p t) ws s = Inr s'"
  shows "header s' = header s \<and> permit_part s' = permit_part s"
  by (rule res_fold_invariant [OF assms, where 
      I = "\<lambda>u. header u = header s \<and> permit_part u = permit_part s"])
     (auto dest: wake_waiter_parts)

lemma fold_release_parts:
  assumes "res_fold (release_participant p a k c) ws s = Inr s'"
  shows "header s' = header s \<and> permit_part s' = permit_part s"
  by (rule res_fold_invariant [OF assms, where 
      I = "\<lambda>u. header u = header s \<and> permit_part u = permit_part s"])
     (auto simp: release_participant_def res_simps)

section \<open>Cases that touch neither part\<close>

lemma local_parts:
  assumes "exec_set p s step a = Inr (s', r) \<or> exec_branch p s step a = Inr (s', r) \<or>
    exec_assert p s step a = Inr (s', r) \<or> exec_local p s step = Inr (s', r)"
  shows "header s' = header s \<and> permit_part s' = permit_part s"
  using assms
  by (elim disjE)
     (auto simp: exec_set_def exec_branch_def exec_assert_def exec_local_def Let_def res_simps
        finish_def finish_error_def dest!: write_register_parts split: option.splits if_splits)

lemma mutex_parts:
  assumes "exec_lock p s step a = Inr (s', r) \<or> exec_try_lock p s step a = Inr (s', r) \<or>
    exec_unlock p s step a = Inr (s', r) \<or> exec_join p s step a = Inr (s', r) \<or>
    exec_spawn p s step a = Inr (s', r)"
  shows "header s' = header s \<and> permit_part s' = permit_part s"
  using assms
  by (elim disjE)
     (auto simp: exec_lock_def exec_try_lock_def exec_unlock_def exec_join_def exec_spawn_def
        Let_def res_simps finish_def finish_error_def dest!: write_register_parts split: if_splits)

lemma rwlock_parts:
  assumes "exec_rlock p s step a = Inr (s', r) \<or> exec_wlock p s step a = Inr (s', r) \<or>
    exec_upgrade p s step a = Inr (s', r) \<or> exec_runlock p s step a = Inr (s', r) \<or>
    exec_wunlock p s step a = Inr (s', r) \<or> exec_downgrade p s step a = Inr (s', r)"
  shows "header s' = header s \<and> permit_part s' = permit_part s"
  using assms
  by (elim disjE)
     (auto simp: exec_rlock_def exec_wlock_def exec_upgrade_def exec_runlock_def exec_wunlock_def
        exec_downgrade_def Let_def res_simps finish_def finish_error_def split: if_splits)

lemma condition_parts:
  assumes "exec_signal p s step a = Inr (s', r) \<or> exec_broadcast p s step a = Inr (s', r) \<or>
    exec_wait p s step a = Inr (s', r)"
  shows "header s' = header s \<and> permit_part s' = permit_part s"
  using assms
  by (elim disjE)
     (auto simp: exec_signal_def exec_broadcast_def exec_wait_def insert_waiter_def
        remove_waiter_def Let_def res_simps finish_def finish_error_def
        dest!: write_register_parts wake_waiter_parts fold_wake_parts split: list.splits if_splits)

lemma commit_parts:
  "commit_store s step x v = Inr (s', r) \<Longrightarrow> header s' = header s \<and> permit_part s' = permit_part s"
  by (auto simp: commit_store_def Let_def finish_race_def)

lemma memory_parts:
  assumes "exec_atomic_load p s step a = Inr (s', r) \<or> exec_atomic_store p s step a = Inr (s', r) \<or>
    exec_atomic_rmw p s step a = Inr (s', r) \<or> exec_cas p s step a = Inr (s', r) \<or>
    exec_read p s step a = Inr (s', r)"
  shows "header s' = header s \<and> permit_part s' = permit_part s"
  using assms
  by (elim disjE)
     (auto simp: exec_atomic_load_def exec_atomic_store_def exec_atomic_rmw_def exec_cas_def
        exec_read_def Let_def res_simps finish_def finish_race_def
        dest!: write_register_parts split: if_splits)

lemma write_parts:
  assumes "exec_write p s step a = Inr (s', r)"
  shows "header s' = header s \<and> permit_part s' = permit_part s"
  using assms
  by (cases "st_model s")
     (auto simp: exec_write_def Let_def res_simps finish_def dest!: commit_parts split: if_splits)

lemma flush_parts:
  assumes "exec_flush s step = Inr (s', r)"
  shows "header s' = header s \<and> permit_part s' = permit_part s"
proof (cases "st_model s = TSO")
  case True
  then show ?thesis
    using assms by (auto simp: exec_flush_def Let_def dest!: commit_parts split: list.splits)
next
  case False
  then obtain bufs v address where
    "commit_store (s\<lparr>st_pso_buffers := bufs\<rparr>) step address v = Inr (s', r)"
    using assms
    by (auto simp: exec_flush_def Let_def res_simps split: option.splits list.splits)
  then show ?thesis by (auto dest: commit_parts)
qed

section \<open>The permit counters\<close>

text \<open>
  Permits and barrier generations are at most the number of executed steps; the party count
  of a barrier is the one it was registered with.
\<close>

definition counters_below :: "nat \<Rightarrow> exec_state \<Rightarrow> bool" where
  "counters_below n s \<longleftrightarrow>
     (\<forall>name. permits (mget empty_semaphore (st_semaphores s) name) \<le> n) \<and>
     (\<forall>name b. mlookup (st_barriers s) name = Some b \<longrightarrow> generation b \<le> n)"

definition parties_kept :: "exec_state \<Rightarrow> exec_state \<Rightarrow> bool" where
  "parties_kept s s' \<longleftrightarrow>
     (\<forall>name. map_option parties (mlookup (st_barriers s') name) =
             map_option parties (mlookup (st_barriers s) name))"

lemma permit_part_counters:
  assumes "permit_part s' = permit_part s"
  shows "counters_below n s' = counters_below n s" "parties_kept s s'"
  using assms by (auto simp: permit_part_def counters_below_def parties_kept_def)

lemma counters_below_permits:
  assumes "counters_below n s" "mlookup (st_semaphores s) name = Some sem"
  shows "permits sem \<le> n"
  using assms by (auto simp: counters_below_def mget_def dest!: spec [of _ name])

lemma counters_below_set_semaphore:
  assumes "counters_below n s" "permits sem \<le> m" "n \<le> m"
  shows "counters_below m (s\<lparr>st_semaphores := mupdate name sem (st_semaphores s)\<rparr>)"
  using assms unfolding counters_below_def by (auto intro: order_trans)

lemma sem_parts:
  assumes "exec_sem_post p s step a = Inr (s', r) \<or> exec_sem_wait p s step a = Inr (s', r)"
  shows "header s' = header s \<and> parties_kept s s' \<and>
    (counters_below n s \<longrightarrow> counters_below (Suc n) s')"
proof -
  define s1 where "s1 = advance_pc p s (s_thread step)"
  have s1: "counters_below n s1 = counters_below n s" "header s1 = header s"
      "st_barriers s1 = st_barriers s" "st_semaphores s1 = st_semaphores s"
    by (simp_all add: s1_def counters_below_def)
  obtain sem s2 where s2: "s2 = s1\<lparr>st_semaphores := mupdate (a_semaphore a) sem (st_semaphores s1)\<rparr>"
    and cases: "s' = s2 \<or> (\<exists>c. s' = join_clock s2 (s_thread step) c)"
    and sem: "counters_below n s \<Longrightarrow> permits sem \<le> Suc n"
  proof (cases "exec_sem_post p s step a = Inr (s', r)")
    case True
    define sem0 where "sem0 = mget empty_semaphore (st_semaphores s) (a_semaphore a)"
    define sem where "sem = sem0\<lparr>permits := Suc (permits sem0),
        post_releases := vc_join (post_releases sem0) (st_clock s1 ! s_thread step)\<rparr>"
    have "s' = s1\<lparr>st_semaphores := mupdate (a_semaphore a) sem (st_semaphores s1)\<rparr>"
      using True by (auto simp: exec_sem_post_def Let_def res_simps finish_def s1_def sem_def sem0_def)
    moreover have "counters_below n s \<Longrightarrow> permits sem \<le> Suc n"
      by (simp add: counters_below_def sem_def sem0_def)
    ultimately show ?thesis using that by blast
  next
    case False
    then obtain sem0 c where "mlookup (st_semaphores s) (a_semaphore a) = Some sem0"
        "s' = join_clock (s1\<lparr>st_semaphores :=
           mupdate (a_semaphore a) (sem0\<lparr>permits := permits sem0 - 1\<rparr>) (st_semaphores s1)\<rparr>)
           (s_thread step) c"
      using assms
      by (auto simp: exec_sem_wait_def Let_def res_simps finish_def s1_def split: option.splits)
    moreover have "counters_below n s \<Longrightarrow> permits (sem0\<lparr>permits := permits sem0 - 1\<rparr>) \<le> Suc n"
      using counters_below_permits [of n s "a_semaphore a" sem0] calculation(1) by simp
    ultimately show ?thesis using that by blast
  qed
  have "counters_below (Suc n) s2" if "counters_below n s"
    unfolding s2 by (rule counters_below_set_semaphore [of n]) (use that sem s1(1) in auto)
  moreover have "header s2 = header s" "st_barriers s2 = st_barriers s"
    using s1 by (simp_all add: s2)
  ultimately show ?thesis
    using cases by (auto simp: parties_kept_def counters_below_def)
qed

lemma barrier_parts:
  assumes "exec_barrier p s step a = Inr (s', r)"
  shows "header s' = header s \<and> parties_kept s s' \<and>
    (counters_below n s \<longrightarrow> counters_below (Suc n) s')"
proof -
  obtain b where b: "mlookup (st_barriers s) (a_barrier a) = Some b"
    using assms by (auto simp: exec_barrier_def Let_def split: option.splits)
  show ?thesis
  proof (cases "a_parties a = 0 \<or> a_parties a \<noteq> parties b")
    case True
    then show ?thesis
      using assms b
      by (auto simp: exec_barrier_def Let_def finish_error_def parties_kept_def counters_below_def
          le_SucI)
  next
    case False
    define t where "t = s_thread step"
    define b1 where "b1 = b\<lparr>arrivals := oinsert t (arrivals b),
        arrival_releases := vc_join (arrival_releases b) (st_clock s ! t)\<rparr>"
    define s1 where "s1 = s\<lparr>st_barriers := mupdate (a_barrier a) b1 (st_barriers s)\<rparr>"
    define release where "release = res_fold
        (release_participant p a (parties b1) (arrival_releases b1)) (mkeys (arrivals b1)) s1"
    have parties: "parties b1 = parties b" "generation b1 = generation b" by (simp_all add: b1_def)
    have s1: "header s1 = header s" "parties_kept s s1" "counters_below n s \<longrightarrow> counters_below n s1"
      using b parties by (auto simp: s1_def parties_kept_def counters_below_def)
    from assms False consider "s' = s1"
      | s2 where "release = Inr s2"
          "s' = s2\<lparr>st_barriers := mupdate (a_barrier a)
              (b1\<lparr>arrivals := mempty, arrival_releases := mempty,
                  generation := Suc (generation b1)\<rparr>) (st_barriers s2)\<rparr>"
      unfolding exec_barrier_def Let_def t_def [symmetric] b
      by (auto simp: b1_def [symmetric] s1_def [symmetric] release_def [symmetric] res_simps
          finish_def split: if_splits)
    then show ?thesis
    proof cases
      case 1
      then show ?thesis using s1 by (auto simp: counters_below_def le_SucI)
    next
      case 2
      then have same: "header s2 = header s1" "permit_part s2 = permit_part s1"
        using fold_release_parts [of p a "parties b1" "arrival_releases b1" "mkeys (arrivals b1)" s1 s2]
        by (simp_all add: release_def)
      then have bars: "st_barriers s2 = mupdate (a_barrier a) b1 (st_barriers s)"
          "st_semaphores s2 = st_semaphores s"
        by (simp_all add: permit_part_def s1_def)
      have "parties_kept s s'" "counters_below n s \<longrightarrow> counters_below (Suc n) s'"
        using b parties bars unfolding 2(2)
        by (auto simp: parties_kept_def counters_below_def le_SucI)
      moreover have "header s' = header s" using same s1(1) unfolding 2(2) by simp
      ultimately show ?thesis by blast
    qed
  qed
qed

section \<open>The whole step\<close>

lemma parties_kept_refl [simp]: "parties_kept s s"
  by (simp add: parties_kept_def)

lemma counters_below_mono: "counters_below m s \<Longrightarrow> m \<le> n \<Longrightarrow> counters_below n s"
  unfolding counters_below_def by (meson order_trans)

lemma perform_action_parts:
  assumes "perform_action p s step a = Inr (s', r)"
  shows "header s' = header s \<and> parties_kept s s' \<and>
    (counters_below n s \<longrightarrow> counters_below (Suc n) s')"
proof (cases "a_kind a \<in> {SemPost, SemWait, BarrierWait}")
  case True
  then show ?thesis
    using assms sem_parts [of p s step a s' r] barrier_parts [of p s step a s' r]
    by (auto simp: perform_action_def)
next
  case False
  have "header s' = header s \<and> permit_part s' = permit_part s"
    using assms False
      local_parts [of p s step a s' r] mutex_parts [of p s step a s' r]
      rwlock_parts [of p s step a s' r] condition_parts [of p s step a s' r]
      memory_parts [of p s step a s' r] write_parts [of p s step a s' r]
      flush_parts [of s step s' r]
    by (cases "a_kind a") (simp_all add: perform_action_def res_simps)
  then have "header s' = header s" and kept: "parties_kept s s'"
    and below: "counters_below n s' = counters_below n s"
    using permit_part_counters [of s' s] by simp_all
  moreover have "counters_below (Suc n) s'" if "counters_below n s"
    by (rule counters_below_mono [of n]) (use that below in simp_all)
  ultimately show ?thesis by simp
qed

text \<open>What every executed step does to the schedule, the counters and the fixed tables.\<close>

lemma execute_enabled_step_parts:
  assumes "execute_enabled_step p s step = Inr (s', r)"
  shows "st_schedule s' = st_schedule s @ [step]"
    "st_steps s' = (st_steps s)[s_thread step := Suc (st_steps s ! s_thread step)]"
    "st_model s' = st_model s" "st_flush_addresses s' = st_flush_addresses s"
    "parties_kept s s'"
    "counters_below (length (st_schedule s)) s \<Longrightarrow> counters_below (length (st_schedule s')) s'"
proof -
  obtain a where "perform_action p (begin_step s step) step a = Inr (s', r)"
    using assms unfolding execute_enabled_step_def Let_def
    by (cases "is_flush_step step") (auto simp only: if_True if_False res_simps)
  note * = perform_action_parts [OF this]
  show "st_schedule s' = st_schedule s @ [step]"
    "st_steps s' = (st_steps s)[s_thread step := Suc (st_steps s ! s_thread step)]"
    "st_model s' = st_model s" "st_flush_addresses s' = st_flush_addresses s"
    using * by (simp_all add: header_def begin_step_def)
  then show "counters_below (length (st_schedule s')) s'" if "counters_below (length (st_schedule s)) s"
    using * [of "length (st_schedule s)"] that by (simp add: counters_below_def)
  show "parties_kept s s'" using * by (simp add: parties_kept_def)
qed

lemma counters_initial: "counters_below n (initial_state p m)"
proof -
  have *: "mlookup (fold add_barrier as bs) name = Some b \<Longrightarrow>
      (\<And>name b. mlookup bs name = Some b \<Longrightarrow> generation b = 0) \<Longrightarrow> generation b = 0" for as bs name b
  proof (induction as arbitrary: bs)
    case (Cons a as)
    have "mlookup (fold add_barrier as (add_barrier a bs)) name = Some b" using Cons.prems(1) by simp
    then show ?case
      by (rule Cons.IH) (use Cons.prems(2) in \<open>auto simp: add_barrier_def split: if_splits\<close>)
  qed simp
  have "generation b = 0" if "mlookup (initial_barriers p) name = Some b" for name b
    using * [of "concat p" mempty name b] that by (simp add: initial_barriers_def)
  then show ?thesis
    by (simp add: counters_below_def initial_state_pc empty_semaphore_def)
qed

lemma run_parts:
  assumes "run p xs s = Some s'"
  shows "st_schedule s' = st_schedule s @ xs" "st_model s' = st_model s"
    "st_flush_addresses s' = st_flush_addresses s" "parties_kept s s'"
    "counters_below (length (st_schedule s)) s \<Longrightarrow> counters_below (length (st_schedule s')) s'"
proof -
  have "st_schedule s' = st_schedule s @ xs \<and> st_model s' = st_model s \<and>
    st_flush_addresses s' = st_flush_addresses s \<and> parties_kept s s' \<and>
    (counters_below (length (st_schedule s)) s \<longrightarrow> counters_below (length (st_schedule s')) s')"
    using assms
  proof (induction xs arbitrary: s)
    case (Cons x xs)
    then obtain s1 r where e: "execute_enabled_step p s x = Inr (s1, r)" and "run p xs s1 = Some s'"
      by (auto split: sum.splits if_splits)
    then show ?case
      using Cons.IH [of s1] execute_enabled_step_parts [OF e]
      by (auto simp: parties_kept_def)
  qed simp
  then show "st_schedule s' = st_schedule s @ xs" "st_model s' = st_model s"
    "st_flush_addresses s' = st_flush_addresses s" "parties_kept s s'"
    "counters_below (length (st_schedule s)) s \<Longrightarrow> counters_below (length (st_schedule s')) s'"
    by blast+
qed

text \<open>The step counters of a run count the steps of each thread in its schedule.\<close>

lemma run_steps:
  assumes "run p xs s = Some s'" "t < length (st_steps s)"
  shows "st_steps s' ! t = st_steps s ! t + length (filter (\<lambda>x. s_thread x = t) xs) \<and>
    length (st_steps s') = length (st_steps s)"
  using assms
proof (induction xs arbitrary: s)
  case (Cons x xs)
  then obtain s1 r where e: "execute_enabled_step p s x = Inr (s1, r)" and "run p xs s1 = Some s'"
    by (auto split: sum.splits if_splits)
  then show ?case
    using Cons.IH [of s1] Cons.prems(2) execute_enabled_step_parts(2) [OF e]
    by (auto simp: nth_list_update)
qed simp

end
