(* ===== verification/Step_Progress.thy ===== *)
theory Step_Progress
  imports Step_Frames
begin

text \<open>
  Progress: in a well-formed state an enabled step always completes. None of the
  \<open>assert\<close>s and \<open>.at()\<close> accesses of \<open>execute_enabled_step\<close> fires and no exception leaves it,
  provided every register id of the program is in range (the parser only builds such
  programs) and the execution is shorter than the counter limit, so that neither a permit
  count nor a barrier generation overflows.
\<close>

section \<open>Register ids\<close>

definition operand_in_range :: "value_operand option \<Rightarrow> bool" where
  "operand_in_range x = (case x of Some (Register r) \<Rightarrow> valid_register r | _ \<Rightarrow> True)"

definition register_in_range :: "nat option \<Rightarrow> bool" where
  "register_in_range x = (case x of Some r \<Rightarrow> valid_register r | None \<Rightarrow> True)"

definition action_registers_ok :: "action \<Rightarrow> bool" where
  "action_registers_ok a \<longleftrightarrow>
     register_in_range (a_destination a) \<and> register_in_range (a_source a) \<and>
     operand_in_range (a_value a) \<and> operand_in_range (a_expected a)"

definition registers_ok :: "program \<Rightarrow> bool" where
  "registers_ok p = list_all (list_all action_registers_ok) p"

lemma registers_ok_action:
  "registers_ok p \<Longrightarrow> at_action p s t a \<Longrightarrow> action_registers_ok a"
  by (auto simp: registers_ok_def at_action_def list_all_length)

section \<open>Completing computations\<close>

definition completes :: "'a res \<Rightarrow> bool" where
  "completes m \<longleftrightarrow> (\<exists>x. m = Inr x)"

named_theorems completes_simps \<open>when a computation completes\<close>

lemma completes_Inr [simp]: "completes (Inr x)"
  by (simp add: completes_def)

lemma completes_Inl [simp]: "\<not> completes (Inl e)"
  by (simp add: completes_def)

lemma completes_bind [completes_simps]:
  "completes (res_bind m f) \<longleftrightarrow> (\<exists>x. m = Inr x \<and> completes (f x))"
  by (cases m) (auto simp: completes_def)

lemma completes_guarded [completes_simps]: "completes (guarded b e m) \<longleftrightarrow> b \<and> completes m"
  by (simp add: guarded_def)

lemma completes_finish [simp]:
  "completes (finish s)" "completes (finish_error s e)" "completes (finish_race x)"
  by (simp_all add: finish_def finish_error_def finish_race_def)

lemma completes_write_register [simp]:
  "register_in_range d \<Longrightarrow> \<exists>s'. write_register s t d v = Inr s'"
  by (cases d) (auto simp: write_register_def register_in_range_def)

lemma completes_evaluate [simp]:
  "operand_in_range x \<Longrightarrow> \<exists>v. evaluate_operand_or s t x d = Inr v"
  by (auto simp: operand_in_range_def evaluate_operand_or_def evaluate_operand_def
      read_register_def split: option.splits value_operand.splits)

lemma valid_value_or: "register_in_range x \<Longrightarrow> valid_register (value_or x 0)"
  by (auto simp: register_in_range_def value_or_def valid_register_def kRegisterCount_def
      split: option.splits)

lemma register_in_range_value_or: "register_in_range x \<Longrightarrow> register_in_range (Some (value_or x 0))"
  using valid_value_or by (simp add: register_in_range_def)

lemma action_registersD:
  assumes "action_registers_ok a"
  shows "register_in_range (a_destination a)" "register_in_range (a_source a)"
    "operand_in_range (a_value a)" "operand_in_range (a_expected a)"
  using assms by (simp_all add: action_registers_ok_def)

section \<open>One case at a time\<close>

lemma completes_wait_phase:
  assumes "at_action p s (s_thread step) a" "action_registers_ok a"
    and "a_kind a \<in> {Wait, TimedWait}"
    and "is_program_action_enabled p s (s_thread step)"
  shows "completes (exec_wait p s step a)"
proof -
  define t where "t = s_thread step"
  note A = at_actionD [OF assms(1), folded t_def]
  have next_a: "next_action p s t = a" using A(5) by (simp add: next_action_def)
  note w = wf_stateD(5) [OF A(1), unfolded wait_ok_def]
  have member: "t \<in> set (mget [] (st_waiters s) (a_condition a)) \<longleftrightarrow> st_phase s ! t = Waiting"
    using w A by auto
  have reg: "\<exists>s'. write_register x t (Some (value_or (a_destination a) 0)) v = Inr s'" for x v
    using assms(2) by (intro completes_write_register register_in_range_value_or)
      (simp add: action_registersD)
  have waiting: "st_phase s ! t = Waiting \<Longrightarrow> a_kind a = TimedWait"
    using assms(3,4) next_a
    by (auto simp: is_program_action_enabled_def Let_def t_def [symmetric] split: if_splits)
  have woken: "st_phase s ! t = Woken \<Longrightarrow> mlookup (st_mutex_owner s) (a_mutex a) = None"
    using assms(3,4) next_a
    by (auto simp: is_program_action_enabled_def Let_def t_def [symmetric] split: if_splits)
  show ?thesis
  proof (cases "st_phase s ! t")
    case Woken
    then show ?thesis
      using woken by (simp add: exec_wait_def t_def [symmetric] Let_def completes_simps)
  next
    case Waiting
    then show ?thesis
      using waiting member reg
      by (auto simp: exec_wait_def t_def [symmetric] Let_def completes_simps remove_waiter_def
          res_simps)
  next
    case Phase_None
    then show ?thesis
      using member
      by (auto simp: exec_wait_def t_def [symmetric] Let_def completes_simps insert_waiter_def
          release_mutex_def res_simps)
  qed
qed

lemma completes_wake:
  assumes "wf_state p s" "registers_ok p" "waiter \<in> set (mget [] (st_waiters s) c)"
    and "st_pc s' ! waiter = st_pc s ! waiter" "st_phase s' ! waiter = Waiting"
  shows "completes (wake_waiter p t waiter s')"
proof -
  note w = wf_stateD(5) [OF assms(1), unfolded wait_ok_def]
  have *: "waiter < length p" "st_phase s ! waiter = Waiting" using w assms(3) by auto
  then have park: "parked_at p (st_pc s) (st_started s) waiter"
      "a_kind (p ! waiter ! (st_pc s ! waiter)) \<in> {Wait, TimedWait}"
    using w by auto
  then have "action_registers_ok (p ! waiter ! (st_pc s ! waiter))"
    using assms(2) * by (auto simp: registers_ok_def list_all_length parked_at_def)
  then have "\<exists>s'. write_register x waiter
      (Some (value_or (a_destination (p ! waiter ! (st_pc s ! waiter))) 0)) v = Inr s'" for x v
    by (intro completes_write_register register_in_range_value_or) (simp add: action_registersD)
  then show ?thesis
    using * park assms(4,5)
    by (auto simp: wake_waiter_def completes_simps Let_def has_next_action_def next_action_def
        parked_at_def completes_def guarded_def)
qed

text \<open>A loop over distinct elements completes when the work left for the others is undisturbed.\<close>

lemma completes_res_fold:
  assumes "distinct xs" "\<forall>x\<in>set xs. P x s"
    and "\<And>x s. P x s \<Longrightarrow> completes (f x s)"
    and "\<And>x y s s'. P x s \<Longrightarrow> P y s \<Longrightarrow> x \<noteq> y \<Longrightarrow> f x s = Inr s' \<Longrightarrow> P y s'"
  shows "completes (res_fold f xs s)"
  using assms(1,2)
proof (induction xs arbitrary: s)
  case (Cons x xs)
  then have "completes (f x s)" using assms(3) by simp
  then obtain s' where s': "f x s = Inr s'" by (auto simp: completes_def)
  have "P y s'" if "y \<in> set xs" for y
    by (rule assms(4) [OF _ _ _ s']) (use Cons.prems that in auto)
  then show ?case using Cons.IH [of s'] Cons.prems(1) s' by simp
qed simp

lemma wake_waiter_keeps:
  assumes "wake_waiter p t w s = Inr s'"
  shows "st_pc s' = st_pc s" "x \<noteq> w \<Longrightarrow> st_phase s' ! x = st_phase s ! x"
    "st_schedule s' = st_schedule s" "st_semaphores s' = st_semaphores s"
    "st_barriers s' = st_barriers s"
proof -
  define s1 where "s1 = join_clock (set_phase s w Woken) w (st_clock s ! t)"
  have "s' = s1 \<or> (\<exists>d. write_register s1 w d 1 = Inr s')"
    using assms by (auto simp: wake_waiter_def guarded_def Let_def s1_def split: if_splits)
  then have eqs: "st_pc s' = st_pc s1" "st_phase s' = st_phase s1" "st_schedule s' = st_schedule s1"
      "st_semaphores s' = st_semaphores s1" "st_barriers s' = st_barriers s1"
    using write_register_frame [of s1 w _ 1 s'] by auto
  show "st_pc s' = st_pc s" "x \<noteq> w \<Longrightarrow> st_phase s' ! x = st_phase s ! x"
    "st_schedule s' = st_schedule s" "st_semaphores s' = st_semaphores s"
    "st_barriers s' = st_barriers s"
    unfolding eqs by (simp_all add: s1_def set_phase_def)
qed

lemma completes_broadcast:
  assumes at: "at_action p s (s_thread step) a" and regs: "registers_ok p"
    and kind: "a_kind a \<notin> {Wait, TimedWait, BarrierWait}"
  shows "completes (exec_broadcast p s step a)"
proof -
  define t where "t = s_thread step"
  define ws where "ws = mget [] (st_waiters s) (a_condition a)"
  define s1 where "s1 = advance_pc p s t"
  note A = at_actionD [OF at, folded t_def]
  note w = wf_stateD(5) [OF A(1), unfolded wait_ok_def]
  have free: "st_phase s ! t = Phase_None"
    using thread_free_plain [OF at kind] by (simp add: thread_free_def t_def)
  have waiting: "st_phase s ! x = Waiting" "x < length p" if "x \<in> set ws" for x
    using w that by (auto simp: ws_def)
  have pcs: "st_pc s1 ! x = st_pc s ! x" if "x \<in> set ws" for x
    using waiting [OF that] free by (cases "x = t") (auto simp: s1_def advance_pc_def)
  have "completes (res_fold (wake_waiter p t) ws (set_waiters s1 (a_condition a) []))"
  proof (rule completes_res_fold [where P = "\<lambda>x u. x \<in> set ws \<and> st_pc u ! x = st_pc s ! x \<and>
            st_phase u ! x = Waiting"])
    show "distinct ws" using w by (simp add: ws_def ascending_distinct)
    show "\<forall>x\<in>set ws. x \<in> set ws \<and>
        st_pc (set_waiters s1 (a_condition a) []) ! x = st_pc s ! x \<and>
        st_phase (set_waiters s1 (a_condition a) []) ! x = Waiting"
      using waiting pcs by (simp add: set_waiters_def s1_def)
    show "completes (wake_waiter p t x u)"
      if "x \<in> set ws \<and> st_pc u ! x = st_pc s ! x \<and> st_phase u ! x = Waiting" for x u
      using that A(1) regs by (intro completes_wake [of p s x "a_condition a"]) (auto simp: ws_def)
    show "y \<in> set ws \<and> st_pc u' ! y = st_pc s ! y \<and> st_phase u' ! y = Waiting"
      if "y \<in> set ws \<and> st_pc u ! y = st_pc s ! y \<and> st_phase u ! y = Waiting" "x \<noteq> y"
        "wake_waiter p t x u = Inr u'" for x y u u'
      using that wake_waiter_keeps [OF that(3)] by auto
  qed
  then obtain u where "res_fold (wake_waiter p t) ws (set_waiters s1 (a_condition a) []) = Inr u"
    by (auto simp: completes_def)
  then show ?thesis
    by (simp add: exec_broadcast_def Let_def t_def [symmetric] s1_def [symmetric] ws_def
        completes_simps)
qed

lemma completes_signal:
  assumes at: "at_action p s (s_thread step) a" and regs: "registers_ok p"
    and kind: "a_kind a \<notin> {Wait, TimedWait, BarrierWait}"
  shows "completes (exec_signal p s step a)"
proof (cases "mget [] (st_waiters s) (a_condition a)")
  case Nil
  then show ?thesis by (simp add: exec_signal_def Let_def)
next
  case (Cons w rest)
  define t where "t = s_thread step"
  note A = at_actionD [OF at, folded t_def]
  have w_in: "w \<in> set (mget [] (st_waiters s) (a_condition a))" using Cons by simp
  then have waiting: "st_phase s ! w = Waiting"
    using wf_stateD(5) [OF A(1)] by (auto simp: wait_ok_def)
  then have "w \<noteq> t" using thread_free_plain [OF at kind] by (auto simp: thread_free_def t_def)
  then have "completes (wake_waiter p t w (set_waiters (advance_pc p s t) (a_condition a) rest))"
    using waiting by (intro completes_wake [OF A(1) regs w_in])
      (simp_all add: set_waiters_def advance_pc_def)
  then show ?thesis
    using Cons by (auto simp: exec_signal_def Let_def t_def [symmetric] completes_simps completes_def
        finish_def)
qed


lemma completes_barrier:
  assumes at: "at_action p s (s_thread step) a" and kind: "a_kind a = BarrierWait"
    and enabled: "barrier_enabled s (s_thread step) a"
    and counters: "\<And>name b. mlookup (st_barriers s) name = Some b \<Longrightarrow> generation b < counter_limit"
  shows "completes (exec_barrier p s step a)"
proof -
  define t where "t = s_thread step"
  note A = at_actionD [OF at, folded t_def]
  have "a \<in> set (concat p)" by (rule at_action_in_program [OF at])
  then have "mlookup (st_barriers s) (a_barrier a) \<noteq> None"
    using wf_stateD(6) [OF A(1)] kind unfolding barrier_ok_def barriers_registered_def by blast
  then obtain b where b: "mlookup (st_barriers s) (a_barrier a) = Some b" by blast
  have entry: "barrier_entry_ok p (st_pc s) (st_started s) (a_barrier a) b"
    using wf_stateD(6) [OF A(1)] b by (simp add: barrier_ok_def)
  show ?thesis
  proof (cases "a_parties a = 0 \<or> a_parties a \<noteq> parties b")
    case True
    then show ?thesis using b by (simp add: exec_barrier_def Let_def)
  next
    case False
    then have absent: "\<not> omember t (arrivals b)"
      using enabled b by (auto simp: barrier_enabled_def t_def split: if_splits)
    define b1 where "b1 = b\<lparr>arrivals := oinsert t (arrivals b),
        arrival_releases := vc_join (arrival_releases b) (st_clock s ! t)\<rparr>"
    define s1 where "s1 = s\<lparr>st_barriers := mupdate (a_barrier a) b1 (st_barriers s)\<rparr>"
    have size: "msize (arrivals b1) \<le> parties b1"
      using entry absent False by (auto simp: barrier_entry_ok_def b1_def msize_oinsert)
    have "arrival_ok p (st_pc s) (st_started s) (a_barrier a) (parties b) t"
      using A kind False by (simp add: arrival_ok_def parked_at_def)
    then have arrived: "arrival_ok p (st_pc s1) (st_started s1) (a_barrier a) (parties b1) x"
      if "omember x (arrivals b1)" for x
      using that entry by (auto simp: barrier_entry_ok_def b1_def s1_def)
    have "completes (res_fold (release_participant p a (parties b1) (arrival_releases b1))
        (mkeys (arrivals b1)) s1)"
    proof (rule completes_res_fold [where
          P = "\<lambda>x u. arrival_ok p (st_pc u) (st_started u) (a_barrier a) (parties b1) x"])
      show "distinct (mkeys (arrivals b1))" by (simp add: ascending_distinct)
      show "\<forall>x\<in>set (mkeys (arrivals b1)).
          arrival_ok p (st_pc s1) (st_started s1) (a_barrier a) (parties b1) x"
        using arrived by simp
      show "completes (release_participant p a (parties b1) (arrival_releases b1) x u)"
        if "arrival_ok p (st_pc u) (st_started u) (a_barrier a) (parties b1) x" for x u
        using that by (auto simp: release_participant_def completes_simps arrival_ok_def parked_at_def
            has_next_action_def next_action_def)
      show "arrival_ok p (st_pc u') (st_started u') (a_barrier a) (parties b1) y"
        if "arrival_ok p (st_pc u) (st_started u) (a_barrier a) (parties b1) y" "x \<noteq> y"
          "release_participant p a (parties b1) (arrival_releases b1) x u = Inr u'" for x y u u'
        using that by (auto simp: release_participant_def res_simps advance_pc_def arrival_ok_update)
    qed
    then show ?thesis
      using b False absent size counters [OF b]
      by (auto simp: exec_barrier_def Let_def t_def [symmetric] b1_def [symmetric] s1_def [symmetric]
          completes_simps) (auto simp: completes_def b1_def)
  qed
qed

lemma completes_simple:
  assumes at: "at_action p s (s_thread step) a" and regs: "action_registers_ok a"
  shows "completes (exec_set p s step a)" "completes (exec_branch p s step a)"
    "completes (exec_assert p s step a)" "completes (exec_local p s step)"
    "completes (exec_lock p s step a)" "completes (exec_try_lock p s step a)"
    "completes (exec_unlock p s step a)" "completes (exec_runlock p s step a)"
    "completes (exec_wunlock p s step a)" "completes (exec_join p s step a)"
    "completes (exec_spawn p s step a)"
proof -
  note R = action_registersD [OF regs]
  note D = register_in_range_value_or [OF R(1)]
  have read: "\<exists>v. read_register u t (value_or (a_source a) 0) = Inr v" for u t
    using valid_value_or [OF R(2)] by (simp add: read_register_def)
  show "completes (exec_set p s step a)" using R by (simp add: exec_set_def Let_def completes_simps)
  obtain v where "read_register s (s_thread step) (value_or (a_source a) 0) = Inr v"
    using read by blast
  then show "completes (exec_branch p s step a)" "completes (exec_assert p s step a)"
    by (simp_all add: exec_branch_def exec_assert_def Let_def split: option.splits)
  show "completes (exec_local p s step)" "completes (exec_lock p s step a)"
    "completes (exec_unlock p s step a)" "completes (exec_runlock p s step a)"
    "completes (exec_wunlock p s step a)" "completes (exec_join p s step a)"
    "completes (exec_spawn p s step a)"
    by (simp_all add: exec_local_def exec_lock_def exec_unlock_def exec_runlock_def
        exec_wunlock_def exec_join_def exec_spawn_def Let_def)
  show "completes (exec_try_lock p s step a)"
    using completes_write_register [OF D]
    by (cases "mlookup (st_mutex_owner s) (a_mutex a)")
      (simp_all add: exec_try_lock_def Let_def completes_simps)
qed

lemma completes_rwlock:
  assumes at: "at_action p s (s_thread step) a"
    and enabled: "is_program_action_enabled p s (s_thread step)"
  shows "a_kind a = RLock \<Longrightarrow> completes (exec_rlock p s step a)"
    "a_kind a = WLock \<Longrightarrow> completes (exec_wlock p s step a)"
    "a_kind a = Upgrade \<Longrightarrow> completes (exec_upgrade p s step a)"
    "a_kind a = Downgrade \<Longrightarrow> completes (exec_downgrade p s step a)"
proof -
  define t where "t = s_thread step"
  define rw where "rw = mget empty_rwlock (st_rwlocks s) (a_rwlock a)"
  note A = at_actionD [OF at, folded t_def]
  have next_a: "next_action p s t = a" using A(5) by (simp add: next_action_def)
  note en = enabled [folded t_def, unfolded is_program_action_enabled_def Let_def next_a]
  have exclusive: "writer_holder rw = Some w \<Longrightarrow> reader_holders rw = mempty" for w
    using wf_stateD(4) [OF A(1)]
    by (auto simp: rw_def mget_def rwlock_ok_def empty_rwlock_def split: option.splits)
  note unfolds = Let_def t_def [symmetric] rw_def [symmetric] completes_simps
  show "completes (exec_rlock p s step a)" if "a_kind a = RLock"
  proof -
    have "rlock_enabled s t (a_rwlock a)" using en that by (simp split: if_splits)
    then have "holds_rwlock_write rw t \<or> writer_holder rw = None"
      by (auto simp: rlock_enabled_def rw_def mget_def empty_rwlock_def holds_rwlock_write_def
          split: option.splits)
    then show ?thesis by (auto simp: exec_rlock_def unfolds)
  qed
  show "completes (exec_wlock p s step a)" if "a_kind a = WLock"
  proof -
    have "wlock_enabled s t (a_rwlock a)" using en that by (simp split: if_splits)
    then have "holds_rwlock_write rw t \<or> writer_holder rw = None \<and> reader_holders rw = mempty"
      by (auto simp: wlock_enabled_def rw_def mget_def empty_rwlock_def holds_rwlock_write_def
          split: option.splits)
    then show ?thesis by (auto simp: exec_wlock_def unfolds)
  qed
  show "completes (exec_upgrade p s step a)" if "a_kind a = Upgrade"
  proof -
    have "upgrade_enabled s t (a_rwlock a)" using en that by (simp split: if_splits)
    then have "\<not> holds_rwlock_read rw t \<or> msize (reader_holders rw) = 1"
      by (auto simp: upgrade_enabled_def rw_def mget_def empty_rwlock_def holds_rwlock_read_def
          split: option.splits if_splits)
    moreover have "writer_holder rw = None" if "holds_rwlock_read rw t"
      using exclusive that by (cases "writer_holder rw") (auto simp: holds_rwlock_read_def)
    ultimately show ?thesis by (auto simp: exec_upgrade_def unfolds)
  qed
  show "completes (exec_downgrade p s step a)" if "a_kind a = Downgrade"
  proof -
    have "holds_rwlock_write rw t \<Longrightarrow> \<not> omember t (reader_holders rw)"
      using exclusive by (auto simp: holds_rwlock_write_def)
    then show ?thesis by (auto simp: exec_downgrade_def unfolds)
  qed
qed

lemma completes_sem:
  assumes at: "at_action p s (s_thread step) a"
    and counters: "counters_below n s" "n < counter_limit"
  shows "completes (exec_sem_post p s step a)"
    "is_program_action_enabled p s (s_thread step) \<Longrightarrow> a_kind a = SemWait \<Longrightarrow>
     completes (exec_sem_wait p s step a)"
proof -
  have "permits (mget empty_semaphore (st_semaphores s) (a_semaphore a)) < counter_limit"
    using counters unfolding counters_below_def by (meson le_less_trans)
  then show "completes (exec_sem_post p s step a)"
    by (simp add: exec_sem_post_def Let_def completes_simps)
  assume en: "is_program_action_enabled p s (s_thread step)" and kind: "a_kind a = SemWait"
  have "next_action p s (s_thread step) = a"
    using at_actionD(5) [OF at] by (simp add: next_action_def)
  then obtain sem where "mlookup (st_semaphores s) (a_semaphore a) = Some sem" "permits sem > 0"
    using en kind
    by (auto simp: is_program_action_enabled_def Let_def split: if_splits option.splits)
  then show "completes (exec_sem_wait p s step a)"
    by (simp add: exec_sem_wait_def Let_def completes_simps)
qed

lemma completes_memory:
  assumes regs: "action_registers_ok a"
  shows "completes (exec_atomic_load p s step a)" "completes (exec_atomic_store p s step a)"
    "completes (exec_atomic_rmw p s step a)" "completes (exec_cas p s step a)"
    "completes (exec_read p s step a)" "completes (exec_write p s step a)"
proof -
  note R = action_registersD [OF regs]
  show "completes (exec_atomic_load p s step a)" "completes (exec_atomic_store p s step a)"
    "completes (exec_atomic_rmw p s step a)" "completes (exec_cas p s step a)"
    "completes (exec_read p s step a)"
    using R
    by (simp_all add: exec_atomic_load_def exec_atomic_store_def exec_atomic_rmw_def exec_cas_def
        exec_read_def Let_def completes_simps)
  obtain v where "evaluate_operand_or (advance_pc p s (s_thread step)) (s_thread step) (a_value a) 0
      = Inr v" using completes_evaluate [OF R(3)] by blast
  then show "completes (exec_write p s step a)"
    by (simp add: exec_write_def Let_def commit_store_def split: memory_model.split)
qed

section \<open>Flushes\<close>

lemma lower_bound_index_nth:
  assumes "ascending xs" "x \<in> set xs"
  shows "lower_bound_index xs x < length xs" "xs ! lower_bound_index xs x = x"
proof -
  have "lower_bound_index xs x < length xs \<and> xs ! lower_bound_index xs x = x"
    using assms
  proof (induction xs)
    case (Cons y ys)
    show ?case
    proof (cases "x = y")
      case True
      then show ?thesis by (simp add: lower_bound_index_def)
    next
      case False
      then have "y < x" "x \<in> set ys" using Cons.prems by auto
      then show ?thesis using Cons by (simp add: lower_bound_index_def)
    qed
  qed simp
  then show "lower_bound_index xs x < length xs" "xs ! lower_bound_index xs x = x" by simp_all
qed

lemma ascending_program_addresses [simp]: "ascending (program_addresses p)"
  by (simp add: program_addresses_def)

text \<open>A PSO flush step names the address whose queue it drains.\<close>

lemma pso_flush_step:
  assumes wf: "wf_state p s" and t: "s_thread step < length p"
    and mem: "step \<in> set (flush_steps s (s_thread step))" and pso: "st_model s \<noteq> TSO"
  obtains i address v rest where "s_flush step = Some i" "i < length (st_flush_addresses s)"
    "st_flush_addresses s ! i = address"
    "mlookup (st_pso_buffers s ! s_thread step) address = Some (v # rest)"
proof -
  define t where "t = s_thread step"
  obtain address qs where step: "step = Step t kFlushActionIndex
        (Some (lower_bound_index (st_flush_addresses s) address))"
    and entry: "(address, qs) \<in> set (mentries (st_pso_buffers s ! t))"
    using mem pso by (auto simp: flush_steps_def t_def [symmetric] split: if_splits)
  have look: "mlookup (st_pso_buffers s ! t) address = Some qs"
    using entry by (simp add: mentries_iff)
  then have "qs \<noteq> []" "address \<in> set (program_addresses p)"
    using wf_stateD(7) [OF wf] t by (auto simp: buffers_ok_def t_def)
  moreover have "st_flush_addresses s = program_addresses p"
    using wf_stateD(1) [OF wf] by (simp add: shape_ok_def)
  moreover have "s_flush step = Some (lower_bound_index (st_flush_addresses s) address)"
    by (subst step) simp
  ultimately show ?thesis
    using that [of "lower_bound_index (st_flush_addresses s) address" address] look
      lower_bound_index_nth [of "program_addresses p" address]
    by (cases qs) (simp_all add: t_def)
qed

lemma completes_flush:
  assumes wf: "wf_state p s" and t: "s_thread step < length p"
    and mem: "step \<in> set (flush_steps s (s_thread step))"
  shows "completes (exec_flush s step)"
proof (cases "st_model s = TSO")
  case True
  then have "st_store_buffers s ! s_thread step \<noteq> []"
    using mem by (auto simp: flush_steps_def has_pending_store_def split: if_splits)
  then show ?thesis
    using True by (auto simp: exec_flush_def Let_def commit_store_def split: list.split)
next
  case False
  then show ?thesis
    by (rule pso_flush_step [OF wf t mem])
       (simp add: exec_flush_def Let_def completes_simps commit_store_def False)
qed

section \<open>The whole step\<close>

lemma completes_perform:
  assumes at: "at_action p s (s_thread step) a" and regs: "registers_ok p"
    and enabled: "is_program_action_enabled p s (s_thread step)"
    and counters: "counters_below n s" "n < counter_limit"
  shows "completes (perform_action p s step a)"
proof -
  note A = at_actionD [OF at]
  note ra = registers_ok_action [OF regs at]
  have next_a: "next_action p s (s_thread step) = a" using A(5) by (simp add: next_action_def)
  have label: "a_kind a \<noteq> Label" using wf_stateD(2) [OF A(1)] A by (auto simp: pc_ok_def)
  have flush: "a_kind a \<noteq> Flush" using enabled_not_flush [OF enabled] next_a by simp
  have barrier: "a_kind a = BarrierWait \<Longrightarrow> completes (exec_barrier p s step a)"
    using enabled_barrier [OF enabled] counters next_a
    by (intro completes_barrier [OF at])
       (auto simp: counters_below_def dest: order.strict_trans1)
  show ?thesis
    using label flush barrier completes_simple [OF at ra] completes_rwlock [OF at enabled]
      completes_sem [OF at counters] completes_memory [OF ra] completes_signal [OF at regs]
      completes_broadcast [OF at regs] completes_wait_phase [OF at ra _ enabled] enabled
    by (cases "a_kind a") (simp_all add: perform_action_def)
qed

lemma begin_step_observers [simp]:
  "has_pending_store (begin_step s x) t = has_pending_store s t"
  "has_next_action p (begin_step s x) t = has_next_action p s t"
  "next_action p (begin_step s x) t = next_action p s t"
  "is_finished p (begin_step s x) t = is_finished p s t"
  "rlock_enabled (begin_step s x) t name = rlock_enabled s t name"
  "wlock_enabled (begin_step s x) t name = wlock_enabled s t name"
  "upgrade_enabled (begin_step s x) t name = upgrade_enabled s t name"
  "barrier_enabled (begin_step s x) t a = barrier_enabled s t a"
  unfolding has_pending_store_def has_next_action_def next_action_def is_finished_def
    rlock_enabled_def wlock_enabled_def upgrade_enabled_def barrier_enabled_def begin_step_frames
  by (rule refl)+

lemma enabled_begin_step [simp]:
  "is_program_action_enabled p (begin_step s x) t = is_program_action_enabled p s t"
  unfolding is_program_action_enabled_def begin_step_observers begin_step_frames ..

lemma flush_steps_begin_step [simp]: "flush_steps (begin_step s x) = flush_steps s"
  unfolding flush_steps_def begin_step_observers begin_step_frames ..

lemma execute_enabled_step_completes:
  assumes wf: "wf_state p s" and idx: "indexable p" and regs: "registers_ok p"
    and step: "step \<in> set (enabled_steps p s)"
    and counters: "counters_below n s" "n < counter_limit"
  shows "completes (execute_enabled_step p s step)"
proof -
  have c: "counters_below n (begin_step s step)" using counters(1) by (simp add: counters_below_def)
  show ?thesis
  proof (cases "is_flush_step step")
    case True
    note fl = enabled_flush_step [OF wf step True indexableD [OF idx]]
    have "completes (exec_flush (begin_step s step) step)"
      using wf fl by (intro completes_flush) simp_all
    then have "completes (perform_action p (begin_step s step) step
        (effective_action_for_step p s step))"
      using fl by (simp add: perform_action_def effective_flush_kind [OF True])
    then show ?thesis
      using fl True by (simp add: execute_enabled_step_def Let_def)
  next
    case False
    note src = enabled_source_step [OF wf step False]
    have at: "at_action p s (s_thread step) (p ! s_thread step ! s_index step)"
      using enabled_at_action [OF wf src(1,2)] src(4) by (simp add: next_action_def)
    have "completes (perform_action p (begin_step s step) step (p ! s_thread step ! s_index step))"
      using at src(2) by (intro completes_perform [OF _ regs _ c counters(2)]) simp_all
    then show ?thesis
      using src False by (simp add: execute_enabled_step_def Let_def)
  qed
qed

lemma enabled_step_completes_after_run:
  assumes "indexable p" "registers_ok p" "run p xs (initial_state p m) = Some s"
    and "length xs < counter_limit" "step \<in> set (enabled_steps p s)"
  shows "completes (execute_enabled_step p s step)"
proof (rule execute_enabled_step_completes [where n = "length xs"])
  show "wf_state p s" using assms(1,3) wf_run wf_initial_state by blast
  show "counters_below (length xs) s"
    using run_parts(1,5) [OF assms(3)] counters_initial by (simp add: initial_state_pc)
qed (use assms in auto)

end
