(* ===== verification/Reports.thy ===== *)
theory Reports
  imports Step_Progress
begin

text \<open>
  Reports of an exploration (src/include/model/checker.hpp and
  \<open>make_deadlock_report\<close>, \<open>record_step_report\<close>, \<open>record_bound_exceeded\<close> and
  \<open>record_nontermination\<close> of src/src/model/checker.cpp). The deadlock report asserts what it
  reads; the last section proves that in a state without enabled steps every assertion holds
  and that the report names exactly the started threads that are not finished.
\<close>

section \<open>The records\<close>

datatype blocked_on_kind =
    On_Mutex | On_Thread | On_Condition | On_RwLock_Writer | On_RwLock_Readers
  | On_Semaphore | On_Barrier | On_RwLock_Upgrade

record blocked_thread =
  bt_thread :: nat
  bt_mutex :: string
  bt_rwlock :: string
  bt_semaphore :: string
  bt_owner :: "nat option"
  bt_kind :: blocked_on_kind
  bt_target :: "nat option"
  bt_condition :: string
  bt_self_wait :: bool
  bt_barrier :: string

definition blocked_default :: "nat \<Rightarrow> blocked_thread" where
  "blocked_default tid = \<lparr>bt_thread = tid, bt_mutex = [], bt_rwlock = [], bt_semaphore = [],
     bt_owner = None, bt_kind = On_Mutex, bt_target = None, bt_condition = [],
     bt_self_wait = False, bt_barrier = []\<rparr>"

record deadlock_report =
  dl_blocked :: "blocked_thread list"
  dl_schedule :: schedule

datatype fairness = Unfair_Schedule_Witness | Fair_Divergence | Strongly_Unfair_Schedule_Witness

record nontermination_report =
  nt_fairness :: fairness
  nt_stem :: schedule
  nt_cycle :: schedule
  nt_schedule :: schedule

record check_result =
  schedules_explored :: nat
  cycles_detected :: nat
  fair_cycles :: nat
  unfair_cycles :: nat
  bound_exceeded_executions :: nat
  exploration_capped :: bool
  first_race :: "race_report option"
  first_deadlock :: "deadlock_report option"
  first_error :: "model_error_report option"
  first_assertion :: "assertion_report option"
  first_nontermination :: "nontermination_report option"
  strongly_unfair_cycles :: nat

definition empty_result :: check_result where
  "empty_result = \<lparr>schedules_explored = 0, cycles_detected = 0, fair_cycles = 0,
     unfair_cycles = 0, bound_exceeded_executions = 0, exploration_capped = False,
     first_race = None, first_deadlock = None, first_error = None, first_assertion = None,
     first_nontermination = None, strongly_unfair_cycles = 0\<rparr>"

section \<open>Deadlock reports\<close>

definition blocked_on_rwlock ::
  "exec_state \<Rightarrow> nat \<Rightarrow> action \<Rightarrow> blocked_thread res" where
  "blocked_on_rwlock s tid a =
     (case mlookup (st_rwlocks s) (a_rwlock a) of
        None \<Rightarrow> Inl (Assert_Failed ''blocked on an unused rwlock'')
      | Some rw \<Rightarrow>
          let blocked = (blocked_default tid)\<lparr>bt_rwlock := a_rwlock a\<rparr> in
          if a_kind a = Upgrade then
            guarded (writer_holder rw = None \<and> holds_rwlock_read rw tid \<and>
                     msize (reader_holders rw) > 1)
              (Assert_Failed ''blocked upgrade without other readers'')
              (Inr (blocked\<lparr>bt_kind := On_RwLock_Upgrade\<rparr>))
          else if writer_holder rw \<noteq> None then
            Inr (blocked\<lparr>bt_kind := On_RwLock_Writer, bt_owner := writer_holder rw\<rparr>)
          else
            guarded (a_kind a = WLock \<and> reader_holders rw \<noteq> mempty)
              (Assert_Failed ''blocked on a free rwlock'')
              (Inr (blocked\<lparr>bt_kind := On_RwLock_Readers,
                            bt_self_wait := holds_rwlock_read rw tid\<rparr>)))"

definition blocked_entry :: "program \<Rightarrow> exec_state \<Rightarrow> nat \<Rightarrow> blocked_thread option res" where
  "blocked_entry p s tid =
     (if \<not> st_started s ! tid \<or> is_finished p s tid then Inr None
      else guarded (has_next_action p s tid) Out_Of_Range
        (let a = next_action p s tid; blocked = blocked_default tid;
             on_mutex = blocked\<lparr>bt_kind := On_Mutex, bt_mutex := a_mutex a,
                                bt_owner := mlookup (st_mutex_owner s) (a_mutex a)\<rparr> in
         if a_kind a = Lock then Inr (Some on_mutex)
         else if a_kind a = RLock \<or> a_kind a = WLock \<or> a_kind a = Upgrade then
           res_bind (blocked_on_rwlock s tid a) (\<lambda>b. Inr (Some b))
         else if a_kind a = Join \<and> \<not> join_target_is_invalid p tid a then
           Inr (Some (blocked\<lparr>bt_kind := On_Thread, bt_target := Some (a_target a)\<rparr>))
         else if a_kind a = Wait \<or> a_kind a = TimedWait then
           (case st_phase s ! tid of
              Waiting \<Rightarrow>
                guarded (a_kind a = Wait) (Assert_Failed ''parked TimedWait in a deadlock'')
                  (Inr (Some (blocked\<lparr>bt_kind := On_Condition, bt_condition := a_condition a,
                                      bt_mutex := a_mutex a\<rparr>)))
            | Woken \<Rightarrow> Inr (Some on_mutex)
            | Phase_None \<Rightarrow> Inr None)
         else if a_kind a = SemWait then
           Inr (Some (blocked\<lparr>bt_kind := On_Semaphore, bt_semaphore := a_semaphore a\<rparr>))
         else if a_kind a = BarrierWait then
           (case mlookup (st_barriers s) (a_barrier a) of
              None \<Rightarrow> Inl (Assert_Failed ''unregistered barrier'')
            | Some b \<Rightarrow>
                guarded (a_parties a \<noteq> 0 \<and> a_parties a = parties b \<and> omember tid (arrivals b))
                  (Assert_Failed ''blocked at a barrier without arriving'')
                  (Inr (Some (blocked\<lparr>bt_kind := On_Barrier, bt_barrier := a_barrier a\<rparr>))))
         else Inr None))"

definition make_deadlock_report :: "program \<Rightarrow> exec_state \<Rightarrow> deadlock_report res" where
  "make_deadlock_report p s =
     res_bind (res_map (blocked_entry p s) [0..<length p]) (\<lambda>entries.
       Inr \<lparr>dl_blocked = List.map_filter (\<lambda>e. e) entries, dl_schedule = st_schedule s\<rparr>)"

section \<open>Recording outcomes\<close>

definition record_step_report :: "step_report \<Rightarrow> check_result \<Rightarrow> check_result" where
  "record_step_report report result =
     result\<lparr>first_error := or_else (first_error result) (sr_error report),
            first_assertion := or_else (first_assertion result) (sr_assertion report),
            first_race := or_else (first_race result) (sr_race report)\<rparr>"

definition count_schedule :: "check_result \<Rightarrow> check_result" where
  "count_schedule result = result\<lparr>schedules_explored := Suc (schedules_explored result)\<rparr>"

definition step_bound_reached :: "exec_state \<Rightarrow> nat \<Rightarrow> nat \<Rightarrow> bool" where
  "step_bound_reached s tid step_bound = (st_steps s ! tid \<ge> step_bound)"

definition record_bound_exceeded :: "check_result \<Rightarrow> check_result" where
  "record_bound_exceeded result =
     (count_schedule result)
       \<lparr>bound_exceeded_executions := Suc (bound_exceeded_executions result)\<rparr>"

definition record_nontermination ::
  "nontermination_report \<Rightarrow> check_result \<Rightarrow> check_result res" where
  "record_nontermination report result =
     (let r1 = (count_schedule result)\<lparr>cycles_detected := Suc (cycles_detected result)\<rparr>;
          r2 = (case nt_fairness report of
                  Unfair_Schedule_Witness \<Rightarrow> r1\<lparr>unfair_cycles := Suc (unfair_cycles r1)\<rparr>
                | Strongly_Unfair_Schedule_Witness \<Rightarrow>
                    r1\<lparr>strongly_unfair_cycles := Suc (strongly_unfair_cycles r1)\<rparr>
                | Fair_Divergence \<Rightarrow> r1\<lparr>fair_cycles := Suc (fair_cycles r1)\<rparr>)
      in guarded (fair_cycles r2 + strongly_unfair_cycles r2 + unfair_cycles r2 =
                  cycles_detected r2) (Assert_Failed ''cycle classes do not add up'')
           (Inr (r2\<lparr>first_nontermination := or_else (first_nontermination r2) (Some report)\<rparr>)))"

lemma count_schedule_fields [simp]:
  "schedules_explored (count_schedule r) = Suc (schedules_explored r)"
  "first_deadlock (count_schedule r) = first_deadlock r"
  "first_error (count_schedule r) = first_error r"
  "first_assertion (count_schedule r) = first_assertion r"
  "first_race (count_schedule r) = first_race r"
  "first_nontermination (count_schedule r) = first_nontermination r"
  "bound_exceeded_executions (count_schedule r) = bound_exceeded_executions r"
  "cycles_detected (count_schedule r) = cycles_detected r"
  "fair_cycles (count_schedule r) = fair_cycles r"
  "unfair_cycles (count_schedule r) = unfair_cycles r"
  "strongly_unfair_cycles (count_schedule r) = strongly_unfair_cycles r"
  by (simp_all add: count_schedule_def)

section \<open>Deadlocked states\<close>

definition source_kinds_ok :: "program \<Rightarrow> bool" where
  "source_kinds_ok p = list_all (list_all (\<lambda>a. a_kind a \<noteq> Flush)) p"

definition unfinished :: "program \<Rightarrow> exec_state \<Rightarrow> nat list" where
  "unfinished p s = filter (\<lambda>t. st_started s ! t \<and> \<not> is_finished p s t) [0..<length p]"

lemma any_enabled_iff:
  assumes "wf_state p s"
  shows "any_enabled p s \<longleftrightarrow> enabled_steps p s \<noteq> []"
proof -
  have started: "st_started s ! t" if "has_pending_store s t" "t < length p" for t
    using wf_stateD(7) [OF assms] that
    by (cases "st_model s") (auto simp: has_pending_store_def buffers_ok_def)
  have flush: "flush_steps s t \<noteq> [] \<longleftrightarrow> has_pending_store s t" for t
    by (cases "st_model s") (simp_all add: flush_steps_def has_pending_store_def mentries_empty_iff)
  have "enabled_steps_for_thread p s t \<noteq> [] \<longleftrightarrow>
      has_pending_store s t \<or> is_program_action_enabled p s t" if "t < length p" for t
    using started [OF _ that] flush [of t] program_action_has_next [of p s t]
    by (auto simp: enabled_steps_for_thread_def)
  moreover have "enabled_steps p s \<noteq> [] \<longleftrightarrow> (\<exists>t<length p. enabled_steps_for_thread p s t \<noteq> [])"
  proof -
    have ne: "xs \<noteq> [] \<longleftrightarrow> (\<exists>x. x \<in> set xs)" for xs :: "schedule_step list" by (cases xs) auto
    show ?thesis unfolding ne set_enabled_steps by blast
  qed
  ultimately show ?thesis by (auto simp: any_enabled_def list_ex_iff)
qed

lemma nothing_enabled:
  assumes "wf_state p s" "enabled_steps p s = []" "t < length p"
  shows "\<not> has_pending_store s t" "\<not> is_program_action_enabled p s t"
  using any_enabled_iff [OF assms(1)] assms(2,3) by (auto simp: any_enabled_def list_ex_iff)

text \<open>An unfinished thread of a deadlocked state is at an action that is disabled.\<close>

lemma deadlocked_at:
  assumes wf: "wf_state p s" and none: "enabled_steps p s = []" and t: "t \<in> set (unfinished p s)"
  obtains "t < length p" "has_next_action p s t" "at_action p s t (next_action p s t)"
    "\<not> is_program_action_enabled p s t"
    "\<not> (is_buffered_memory_model (st_model s) \<and> has_pending_store s t)"
proof -
  have t': "t < length p" "st_started s ! t" "\<not> is_finished p s t"
    using t by (auto simp: unfinished_def)
  note ne = nothing_enabled [OF wf none t'(1)]
  have "st_store_buffers s ! t = [] \<and> st_pso_buffers s ! t = mempty"
    using ne(1) wf_stateD(7) [OF wf] t'(1)
    by (cases "st_model s") (auto simp: has_pending_store_def buffers_ok_def)
  then have "has_next_action p s t" using t' by (simp add: is_finished_def)
  moreover have "at_action p s t (next_action p s t)"
    using calculation t' wf by (simp add: at_action_def has_next_action_def next_action_def)
  ultimately show ?thesis using that t' ne by blast
qed

lemma disabled_cases:
  assumes "\<not> is_program_action_enabled p s t" "st_started s ! t" "has_next_action p s t"
    and "\<not> (is_buffered_memory_model (st_model s) \<and> has_pending_store s t)"
    and "a = next_action p s t"
  shows "a_kind a \<in> {Label, Flush} \<or> a_kind a = Lock \<or>
    (a_kind a = RLock \<and> \<not> rlock_enabled s t (a_rwlock a)) \<or>
    (a_kind a = WLock \<and> \<not> wlock_enabled s t (a_rwlock a)) \<or>
    (a_kind a = Upgrade \<and> \<not> upgrade_enabled s t (a_rwlock a)) \<or>
    a_kind a = SemWait \<or> (a_kind a = BarrierWait \<and> \<not> barrier_enabled s t a) \<or>
    (a_kind a = Join \<and> \<not> join_target_is_invalid p t a) \<or>
    (a_kind a = Wait \<and> st_phase s ! t \<noteq> Phase_None) \<or>
    (a_kind a = TimedWait \<and> st_phase s ! t = Woken)"
proof -
  have guard: "(is_buffered_memory_model (st_model s) \<and> is_buffered_ordered_point a \<and>
      has_pending_store s t) = False" using assms(4) by blast
  show ?thesis
    using assms(1-3) unfolding is_program_action_enabled_def Let_def assms(5) [symmetric] guard
    by (cases "a_kind a") (simp_all split: if_splits)
qed

text \<open>Every assertion of the report holds, and an unfinished thread gets an entry.\<close>

lemma blocked_entry_unfinished:
  assumes wf: "wf_state p s" and none: "enabled_steps p s = []"
    and kinds: "source_kinds_ok p" and t: "t \<in> set (unfinished p s)"
  shows "\<exists>b. blocked_entry p s t = Inr (Some b) \<and> bt_thread b = t"
proof (rule deadlocked_at [OF wf none t])
  define a where "a = next_action p s t"
  assume T: "t < length p" "has_next_action p s t" "at_action p s t (next_action p s t)"
    "\<not> is_program_action_enabled p s t"
    "\<not> (is_buffered_memory_model (st_model s) \<and> has_pending_store s t)"
  note A = at_actionD [OF T(3), folded a_def]
  have live: "st_started s ! t" "\<not> is_finished p s t" using t by (auto simp: unfinished_def)
  have "a_kind a \<noteq> Label" using wf_stateD(2) [OF wf] A by (auto simp: pc_ok_def)
  moreover have "a_kind a \<noteq> Flush"
    using kinds A by (auto simp: source_kinds_ok_def list_all_length)
  moreover note disabled_cases [OF T(4) live(1) T(2,5) a_def]
  moreover have "\<exists>b. blocked_on_rwlock s t a = Inr b \<and> bt_thread b = t"
    if blocked: "a_kind a = RLock \<and> \<not> rlock_enabled s t (a_rwlock a) \<or>
        a_kind a = WLock \<and> \<not> wlock_enabled s t (a_rwlock a) \<or>
        a_kind a = Upgrade \<and> \<not> upgrade_enabled s t (a_rwlock a)"
  proof -
    obtain rw where rw: "mlookup (st_rwlocks s) (a_rwlock a) = Some rw"
      using blocked
      by (cases "mlookup (st_rwlocks s) (a_rwlock a)")
         (auto simp: rlock_enabled_def wlock_enabled_def upgrade_enabled_def)
    have exclusive: "writer_holder rw = Some w \<Longrightarrow> reader_holders rw = mempty" for w
      using wf_stateD(4) [OF wf] rw by (auto simp: rwlock_ok_def)
    have many: "msize (reader_holders rw) > 1"
      if "omember t (reader_holders rw)" "msize (reader_holders rw) \<noteq> 1"
      using that msize_zero_iff [of "reader_holders rw"] by (cases "msize (reader_holders rw)") auto
    from blocked show ?thesis
      using rw exclusive many
      by (cases "writer_holder rw")
         (auto simp: blocked_on_rwlock_def Let_def rlock_enabled_def wlock_enabled_def
            upgrade_enabled_def holds_rwlock_read_def blocked_default_def split: if_splits)
  qed
  moreover have "\<exists>b. mlookup (st_barriers s) (a_barrier a) = Some b \<and> a_parties a \<noteq> 0 \<and>
      a_parties a = parties b \<and> omember t (arrivals b)"
    if "a_kind a = BarrierWait \<and> \<not> barrier_enabled s t a"
  proof -
    have "a \<in> set (concat p)" using at_action_in_program [OF T(3)] by (simp add: a_def)
    then have "mlookup (st_barriers s) (a_barrier a) \<noteq> None"
      using wf_stateD(6) [OF wf] that unfolding barrier_ok_def barriers_registered_def by blast
    then show ?thesis using that by (auto simp: barrier_enabled_def split: if_splits)
  qed
  ultimately show ?thesis
    using live T(2) unfolding blocked_entry_def Let_def a_def [symmetric]
    by (cases "st_phase s ! t") (auto simp: blocked_default_def)
qed

lemma map_filter_entries:
  "length entries = length xs \<Longrightarrow>
   (\<And>i. i < length xs \<Longrightarrow>
      if P (xs ! i) then \<exists>b. entries ! i = Some b \<and> f b = xs ! i else entries ! i = None) \<Longrightarrow>
   map f (List.map_filter (\<lambda>e. e) entries) = filter P xs"
proof (induction entries xs rule: list_induct2)
  case (Cons e es x xs)
  have "if P x then \<exists>b. e = Some b \<and> f b = x else e = None"
    using Cons.prems [of 0] by (simp split: if_splits)
  moreover have "map f (List.map_filter (\<lambda>e. e) es) = filter P xs"
  proof (rule Cons.IH)
    fix i assume "i < length xs"
    then show "if P (xs ! i) then \<exists>b. es ! i = Some b \<and> f b = xs ! i else es ! i = None"
      using Cons.prems [of "Suc i"] by (simp split: if_splits)
  qed
  ultimately show ?case by (auto split: if_splits)
qed simp

lemma deadlock_report_exact:
  assumes wf: "wf_state p s" and none: "enabled_steps p s = []" and kinds: "source_kinds_ok p"
  shows "\<exists>report. make_deadlock_report p s = Inr report \<and>
    map bt_thread (dl_blocked report) = unfinished p s \<and> dl_schedule report = st_schedule s"
proof -
  have entry: "if st_started s ! t \<and> \<not> is_finished p s t
      then \<exists>b. blocked_entry p s t = Inr (Some b) \<and> bt_thread b = t
      else blocked_entry p s t = Inr None" if "t < length p" for t
    using blocked_entry_unfinished [OF wf none kinds, of t] that
    by (auto simp: unfinished_def blocked_entry_def)
  have all: "\<exists>entries. res_map (blocked_entry p s) ts = Inr entries"
    if "set ts \<subseteq> {..<length p}" for ts
    using that
  proof (induction ts)
    case (Cons t ts)
    have "\<exists>e. blocked_entry p s t = Inr e" using entry [of t] Cons.prems by (auto split: if_splits)
    then show ?case using Cons by auto
  qed simp
  obtain entries where entries: "res_map (blocked_entry p s) [0..<length p] = Inr entries"
    using all [of "[0..<length p]"] by (auto simp: atLeast0LessThan)
  have "map bt_thread (List.map_filter (\<lambda>e. e) entries) = unfinished p s"
    unfolding unfinished_def
  proof (rule map_filter_entries)
    show "length entries = length [0..<length p]" using res_map_Inr_length [OF entries] .
    fix i assume i: "i < length [0..<length p]"
    then have "blocked_entry p s i = Inr (entries ! i)"
      using res_map_Inr_nth [OF entries i] by simp
    then show "if st_started s ! ([0..<length p] ! i) \<and> \<not> is_finished p s ([0..<length p] ! i)
        then \<exists>b. entries ! i = Some b \<and> bt_thread b = [0..<length p] ! i else entries ! i = None"
      using entry [of i] i by (auto split: if_splits)
  qed
  then show ?thesis using entries by (simp add: make_deadlock_report_def)
qed

lemma all_finished_iff: "all_finished p s \<longleftrightarrow> unfinished p s = []"
  by (auto simp: all_finished_def unfinished_def list_all_iff filter_empty_conv)

end
