(* ===== verification/Fingerprint.thy ===== *)
theory Fingerprint
  imports Reachability
begin

text \<open>
  The behavioural fingerprint that closes lassos (src/src/model/checker.cpp,
  \<open>append_u64\<close> to \<open>observe_path_behavioral_state\<close>). The source appends fields to one byte
  string; here each field is an encoder and the fingerprint their concatenation. The locale
  \<open>prefix_code\<close> is the contract that makes byte equality exact: from an encoding followed by
  anything the value and the rest are determined.
\<close>

section \<open>Encoders\<close>

definition enc_u64 :: "nat \<Rightarrow> string" where
  "enc_u64 v = map (\<lambda>byte. char_of ((v div 256 ^ byte) mod 256)) [0..<8]"

definition enc_string :: "string \<Rightarrow> string" where
  "enc_string v = enc_u64 (length v) @ v"

text \<open>A length followed by the elements.\<close>

definition enc_counted :: "('a \<Rightarrow> string) \<Rightarrow> 'a list \<Rightarrow> string" where
  "enc_counted enc xs = enc_u64 (length xs) @ concat (map enc xs)"

definition enc_bool :: "bool \<Rightarrow> string" where
  "enc_bool b = enc_u64 (if b then 1 else 0)"

definition enc_val :: "val \<Rightarrow> string" where
  "enc_val v = enc_u64 (unat v)"

definition enc_model :: "memory_model \<Rightarrow> string" where
  "enc_model m = enc_u64 (case m of SC \<Rightarrow> 0 | TSO \<Rightarrow> 1 | PSO \<Rightarrow> 2)"

definition enc_phase :: "wait_phase \<Rightarrow> string" where
  "enc_phase ph = enc_u64 (case ph of Phase_None \<Rightarrow> 0 | Waiting \<Rightarrow> 1 | Woken \<Rightarrow> 2)"

definition enc_entry :: "('a \<Rightarrow> string) \<Rightarrow> string \<times> 'a \<Rightarrow> string" where
  "enc_entry enc e = enc_string (fst e) @ enc (snd e)"

text \<open>The optional writer: a flag, then the id when there is one.\<close>

definition enc_writer :: "nat option \<Rightarrow> string" where
  "enc_writer w = (case w of None \<Rightarrow> enc_bool False | Some t \<Rightarrow> enc_bool True @ enc_u64 t)"

definition enc_rwlock :: "nat option \<times> nat list \<Rightarrow> string" where
  "enc_rwlock v = enc_writer (fst v) @ enc_counted enc_u64 (snd v)"

definition enc_barrier :: "nat \<times> nat list \<Rightarrow> string" where
  "enc_barrier v = enc_u64 (fst v) @ enc_counted enc_u64 (snd v)"

section \<open>The behavioural part of a state\<close>

definition occupied_rwlocks :: "exec_state \<Rightarrow> (string \<times> nat option \<times> nat list) list" where
  "occupied_rwlocks s =
     map (\<lambda>(name, rw). (name, writer_holder rw, mkeys (reader_holders rw)))
       (filter (\<lambda>(_, rw). \<not> (writer_holder rw = None \<and> reader_holders rw = mempty))
         (mentries (st_rwlocks s)))"

definition nonzero_semaphores :: "exec_state \<Rightarrow> (string \<times> nat) list" where
  "nonzero_semaphores s =
     map (\<lambda>(name, sem). (name, permits sem))
       (filter (\<lambda>(_, sem). permits sem \<noteq> 0) (mentries (st_semaphores s)))"

definition active_barriers :: "exec_state \<Rightarrow> (string \<times> nat \<times> nat list) list" where
  "active_barriers s =
     map (\<lambda>(name, b). (name, parties b, mkeys (arrivals b)))
       (filter (\<lambda>(_, b). arrivals b \<noteq> mempty) (mentries (st_barriers s)))"

definition nonempty_wait_sets :: "exec_state \<Rightarrow> (string \<times> nat list) list" where
  "nonempty_wait_sets s = filter (\<lambda>(_, ws). ws \<noteq> []) (mentries (st_waiters s))"

definition nonzero_cells :: "exec_state \<Rightarrow> (string \<times> val) list" where
  "nonzero_cells s = filter (\<lambda>(_, v). v \<noteq> 0) (mentries (st_values s))"

definition pso_part :: "exec_state \<Rightarrow> (string \<times> val list) list list" where
  "pso_part s = map mentries (st_pso_buffers s)"

definition behavioral_state_fingerprint :: "exec_state \<Rightarrow> string" where
  "behavioral_state_fingerprint s =
     enc_string ''dpor-behavioral-state-v1'' @
     enc_model (st_model s) @
     enc_counted enc_u64 (st_pc s) @
     enc_counted enc_bool (st_started s) @
     enc_counted (enc_entry enc_u64) (mentries (st_mutex_owner s)) @
     enc_counted (enc_entry enc_rwlock) (occupied_rwlocks s) @
     enc_counted (enc_entry enc_u64) (nonzero_semaphores s) @
     enc_counted (enc_entry enc_barrier) (active_barriers s) @
     enc_counted (enc_entry (enc_counted enc_u64)) (nonempty_wait_sets s) @
     enc_counted (\<lambda>regs. concat (map enc_val regs)) (st_registers s) @
     enc_counted enc_phase (st_phase s) @
     enc_counted (enc_entry enc_val) (nonzero_cells s) @
     enc_counted (enc_counted (enc_entry enc_val)) (st_store_buffers s) @
     (if st_model s = PSO
      then enc_counted (enc_counted (enc_entry (enc_counted enc_val))) (pso_part s) else [])"

section \<open>Path histories\<close>

text \<open>
  \<open>StateHistory\<close> maps the fingerprints on the current path to the length of the schedule that
  reached them. \<open>observe_path_behavioral_state\<close> returns the start of the cycle a revisited
  state closes, or the history with the new fingerprint.
\<close>

type_synonym state_history = "(string, nat) omap"

definition initial_state_history :: "exec_state \<Rightarrow> state_history" where
  "initial_state_history s =
     memplace (behavioral_state_fingerprint s) (length (st_schedule s)) mempty"

definition observe_path_behavioral_state ::
  "exec_state \<Rightarrow> state_history \<Rightarrow> (nat option \<times> state_history) res" where
  "observe_path_behavioral_state s history =
     (let fp = behavioral_state_fingerprint s in
      case mlookup history fp of
        None \<Rightarrow> Inr (None, memplace fp (length (st_schedule s)) history)
      | Some first \<Rightarrow>
          guarded (first < length (st_schedule s)) (Assert_Failed ''cycle is empty'')
            (Inr (Some first, history)))"

section \<open>Prefix codes\<close>

locale prefix_code =
  fixes enc :: "'a \<Rightarrow> string" and encodable :: "'a \<Rightarrow> bool"
  assumes decode: "encodable x \<Longrightarrow> encodable y \<Longrightarrow> enc x @ r = enc y @ r' \<Longrightarrow> x = y \<and> r = r'"
begin

lemma decode_iff:
  "encodable x \<Longrightarrow> encodable y \<Longrightarrow> enc x @ r = enc y @ r' \<longleftrightarrow> x = y \<and> r = r'"
  using decode by blast

lemma decode_concat:
  assumes "list_all encodable xs" "list_all encodable ys" "length xs = length ys"
    and "concat (map enc xs) @ r = concat (map enc ys) @ r'"
  shows "xs = ys \<and> r = r'"
  using assms
proof (induction xs arbitrary: ys)
  case (Cons x xs)
  then obtain y ys' where ys: "ys = y # ys'" by (cases ys) auto
  then have "enc x @ (concat (map enc xs) @ r) = enc y @ (concat (map enc ys') @ r')"
    using Cons.prems(4) by simp
  then have "x = y" "concat (map enc xs) @ r = concat (map enc ys') @ r'"
    using decode Cons.prems(1,2) ys by auto
  then show ?case using Cons ys by simp
qed simp

end

lemma enc_u64_inject:
  assumes "m < 2 ^ 64" "n < 2 ^ 64" "enc_u64 m = enc_u64 n"
  shows "m = n"
proof -
  have digit: "(m div 256 ^ i) mod 256 = (n div 256 ^ i) mod 256" if "i < 8" for i
  proof -
    have "enc_u64 m ! i = enc_u64 n ! i" using assms(3) by simp
    then have "of_char (enc_u64 m ! i) = (of_char (enc_u64 n ! i) :: nat)" by simp
    then show ?thesis using that by (simp add: enc_u64_def)
  qed
  have expand: "k mod 256 ^ i = (\<Sum>j<i. (k div 256 ^ j) mod 256 * 256 ^ j)" for k i :: nat
  proof (induction i)
    case (Suc i)
    have "k mod (256 ^ i * 256) = 256 ^ i * (k div 256 ^ i mod 256) + k mod 256 ^ i"
      by (rule mod_mult2_eq)
    then show ?case using Suc by (simp add: mult.commute)
  qed simp
  have "m mod 256 ^ 8 = n mod 256 ^ 8" unfolding expand using digit by (intro sum.cong) simp_all
  then show ?thesis using assms(1,2) by simp
qed

lemma length_enc_u64 [simp]: "length (enc_u64 v) = 8"
  by (simp add: enc_u64_def)

interpretation u64_code: prefix_code enc_u64 "\<lambda>n. n < 2 ^ 64"
proof
  show "x = y \<and> r = r'"
    if "x < 2 ^ 64" "y < 2 ^ 64" "enc_u64 x @ r = enc_u64 y @ r'" for x y :: nat and r r'
  proof -
    have "enc_u64 x = enc_u64 y \<and> r = r'" using that(3) by simp
    then show ?thesis using enc_u64_inject that by blast
  qed
qed

lemma prefix_code_image:
  assumes "prefix_code enc P" "\<And>x. Q x \<Longrightarrow> P (f x)" "\<And>x y. Q x \<Longrightarrow> Q y \<Longrightarrow> f x = f y \<Longrightarrow> x = y"
  shows "prefix_code (\<lambda>x. enc (f x)) Q"
proof
  fix x y r r' assume q: "Q x" "Q y" and eq: "enc (f x) @ r = enc (f y) @ r'"
  have "f x = f y \<and> r = r'"
    by (rule prefix_code.decode [OF assms(1) _ _ eq]) (use assms(2) q in simp_all)
  then show "x = y \<and> r = r'" using assms(3) q by blast
qed

lemma prefix_code_string: "prefix_code enc_string (\<lambda>v. length v < 2 ^ 64)"
proof
  show "x = y \<and> r = r'"
    if "length x < 2 ^ 64" "length y < 2 ^ 64" "enc_string x @ r = enc_string y @ r'" for x y r r'
  proof -
    have "enc_u64 (length x) @ (x @ r) = enc_u64 (length y) @ (y @ r')"
      using that(3) by (simp add: enc_string_def)
    from u64_code.decode [OF that(1,2) this] have "length x = length y" "x @ r = y @ r'" by simp_all
    then show ?thesis by simp
  qed
qed

lemma prefix_code_counted:
  assumes "prefix_code enc P"
  shows "prefix_code (enc_counted enc) (\<lambda>xs. length xs < 2 ^ 64 \<and> list_all P xs)"
proof
  show "xs = ys \<and> r = r'"
    if "length xs < 2 ^ 64 \<and> list_all P xs" "length ys < 2 ^ 64 \<and> list_all P ys"
      "enc_counted enc xs @ r = enc_counted enc ys @ r'" for xs ys r r'
  proof -
    have "enc_u64 (length xs) @ (concat (map enc xs) @ r) =
        enc_u64 (length ys) @ (concat (map enc ys) @ r')"
      using that(3) by (simp add: enc_counted_def)
    from u64_code.decode [OF _ _ this]
    have "length xs = length ys" "concat (map enc xs) @ r = concat (map enc ys) @ r'"
      using that(1,2) by simp_all
    then show ?thesis using prefix_code.decode_concat [OF assms] that(1,2) by blast
  qed
qed

lemma prefix_code_pair:
  assumes "prefix_code enc1 P" "prefix_code enc2 Q"
  shows "prefix_code (\<lambda>e. enc1 (fst e) @ enc2 (snd e)) (\<lambda>e. P (fst e) \<and> Q (snd e))"
proof
  show "x = y \<and> r = r'"
    if "P (fst x) \<and> Q (snd x)" "P (fst y) \<and> Q (snd y)"
      "(enc1 (fst x) @ enc2 (snd x)) @ r = (enc1 (fst y) @ enc2 (snd y)) @ r'" for x y r r'
  proof -
    have "enc1 (fst x) @ (enc2 (snd x) @ r) = enc1 (fst y) @ (enc2 (snd y) @ r')"
      using that(3) by simp
    from prefix_code.decode [OF assms(1) _ _ this]
    have *: "fst x = fst y" "enc2 (snd x) @ r = enc2 (snd y) @ r'" using that(1,2) by simp_all
    from prefix_code.decode [OF assms(2) _ _ *(2)] have "snd x = snd y" "r = r'"
      using that(1,2) by simp_all
    then show ?thesis using *(1) by (simp add: prod_eq_iff)
  qed
qed

lemma prefix_code_entry:
  assumes "prefix_code enc P"
  shows "prefix_code (enc_entry enc) (\<lambda>e. length (fst e) < 2 ^ 64 \<and> P (snd e))"
  using prefix_code_pair [OF prefix_code_string assms] unfolding enc_entry_def .

lemma prefix_code_bool: "prefix_code enc_bool (\<lambda>_. True)"
  unfolding enc_bool_def
  by (rule prefix_code_image [OF u64_code.prefix_code_axioms]) (auto split: if_splits)

lemma prefix_code_val: "prefix_code enc_val (\<lambda>_. True)"
  unfolding enc_val_def
  by (rule prefix_code_image [OF u64_code.prefix_code_axioms])
     (use unsigned_less [where 'b = 64 and 'a = nat] in \<open>auto simp: word_unat_eq_iff\<close>)

lemma prefix_code_model: "prefix_code enc_model (\<lambda>_. True)"
  unfolding enc_model_def
  by (rule prefix_code_image [OF u64_code.prefix_code_axioms]) (auto split: memory_model.splits)

lemma prefix_code_phase: "prefix_code enc_phase (\<lambda>_. True)"
  unfolding enc_phase_def
  by (rule prefix_code_image [OF u64_code.prefix_code_axioms]) (auto split: wait_phase.splits)

lemma prefix_code_writer: "prefix_code enc_writer (\<lambda>w. case w of None \<Rightarrow> True | Some t \<Rightarrow> t < 2 ^ 64)"
proof
  show "x = y \<and> r = r'"
    if "case x of None \<Rightarrow> True | Some t \<Rightarrow> t < 2 ^ 64" "case y of None \<Rightarrow> True | Some t \<Rightarrow> t < 2 ^ 64"
      "enc_writer x @ r = enc_writer y @ r'" for x y r r'
  proof -
    note flag = prefix_code.decode [OF prefix_code_bool TrueI TrueI]
    show ?thesis
    proof (cases x; cases y)
      fix t u assume [simp]: "x = Some t" "y = Some u"
      have "enc_bool True @ (enc_u64 t @ r) = enc_bool True @ (enc_u64 u @ r')"
        using that(3) by (simp add: enc_writer_def)
      then have "enc_u64 t @ r = enc_u64 u @ r'" by simp
      from u64_code.decode [OF _ _ this] show ?thesis using that(1,2) by simp
    next
      fix t assume [simp]: "x = Some t" "y = None"
      have "enc_bool True @ (enc_u64 t @ r) = enc_bool False @ r'"
        using that(3) by (simp add: enc_writer_def)
      then show ?thesis by (auto dest: flag)
    next
      fix t assume [simp]: "x = None" "y = Some t"
      have "enc_bool False @ r = enc_bool True @ (enc_u64 t @ r')"
        using that(3) by (simp add: enc_writer_def)
      then show ?thesis by (auto dest: flag)
    next
      assume [simp]: "x = None" "y = None"
      show ?thesis using that(3) by (simp add: enc_writer_def)
    qed
  qed
qed

text \<open>The registers of a thread carry no length: every thread has the same number of them.\<close>

lemma prefix_code_registers:
  "prefix_code (\<lambda>regs. concat (map enc_val regs)) (\<lambda>regs. length regs = kRegisterCount)"
proof
  show "x = y \<and> r = r'"
    if "length x = kRegisterCount" "length y = kRegisterCount"
      "concat (map enc_val x) @ r = concat (map enc_val y) @ r'" for x y r r'
    by (rule prefix_code.decode_concat [OF prefix_code_val _ _ _ that(3)])
       (simp_all add: list_all_iff that(1,2))
qed

section \<open>Exactness\<close>

text \<open>What the fingerprint keeps of a state, as data.\<close>

record behavior =
  be_model :: memory_model
  be_pc :: "nat list"
  be_started :: "bool list"
  be_mutex_owner :: "(string \<times> nat) list"
  be_rwlocks :: "(string \<times> nat option \<times> nat list) list"
  be_semaphores :: "(string \<times> nat) list"
  be_barriers :: "(string \<times> nat \<times> nat list) list"
  be_waiters :: "(string \<times> nat list) list"
  be_registers :: "val list list"
  be_phase :: "wait_phase list"
  be_values :: "(string \<times> val) list"
  be_store_buffers :: "store_buffer_entry list list"
  be_pso_buffers :: "(string \<times> val list) list list"

definition behavior_of :: "exec_state \<Rightarrow> behavior" where
  "behavior_of s =
     \<lparr>be_model = st_model s, be_pc = st_pc s, be_started = st_started s,
      be_mutex_owner = mentries (st_mutex_owner s), be_rwlocks = occupied_rwlocks s,
      be_semaphores = nonzero_semaphores s, be_barriers = active_barriers s,
      be_waiters = nonempty_wait_sets s, be_registers = st_registers s,
      be_phase = st_phase s, be_values = nonzero_cells s,
      be_store_buffers = st_store_buffers s,
      be_pso_buffers = (if st_model s = PSO then pso_part s else [])\<rparr>"

text \<open>
  The sizes and ids of a state fit the 64 bits they are written in, as they do on any machine
  that holds the state, and every thread has its eight registers.
\<close>

definition fits :: "nat \<Rightarrow> bool" where
  "fits n = (n < 2 ^ 64)"

definition named :: "('a \<Rightarrow> bool) \<Rightarrow> string \<times> 'a \<Rightarrow> bool" where
  "named P e = (length (fst e) < 2 ^ 64 \<and> P (snd e))"

definition sized :: "('a \<Rightarrow> bool) \<Rightarrow> 'a list \<Rightarrow> bool" where
  "sized P xs = (length xs < 2 ^ 64 \<and> list_all P xs)"

definition machine_sized :: "exec_state \<Rightarrow> bool" where
  "machine_sized s \<longleftrightarrow>
     sized fits (st_pc s) \<and> sized (\<lambda>_. True) (st_started s) \<and>
     sized (named fits) (mentries (st_mutex_owner s)) \<and>
     sized (named (\<lambda>v. (case fst v of None \<Rightarrow> True | Some t \<Rightarrow> fits t) \<and> sized fits (snd v)))
       (occupied_rwlocks s) \<and>
     sized (named fits) (nonzero_semaphores s) \<and>
     sized (named (\<lambda>v. fits (fst v) \<and> sized fits (snd v))) (active_barriers s) \<and>
     sized (named (sized fits)) (nonempty_wait_sets s) \<and>
     sized (\<lambda>regs. length regs = kRegisterCount) (st_registers s) \<and>
     sized (\<lambda>_. True) (st_phase s) \<and> sized (named (\<lambda>_. True)) (nonzero_cells s) \<and>
     sized (sized (named (\<lambda>_. True))) (st_store_buffers s) \<and>
     (st_model s = PSO \<longrightarrow> sized (sized (named (sized (\<lambda>_. True)))) (pso_part s))"

lemma code_u64: "prefix_code enc_u64 fits"
  using u64_code.prefix_code_axioms unfolding fits_def .

lemma code_counted: "prefix_code enc P \<Longrightarrow> prefix_code (enc_counted enc) (sized P)"
  using prefix_code_counted unfolding sized_def .

lemma code_entry: "prefix_code enc P \<Longrightarrow> prefix_code (enc_entry enc) (named P)"
  using prefix_code_entry unfolding named_def .

lemma code_rwlock:
  "prefix_code enc_rwlock (\<lambda>v. (case fst v of None \<Rightarrow> True | Some t \<Rightarrow> fits t) \<and> sized fits (snd v))"
  using prefix_code_pair [OF prefix_code_writer code_counted [OF code_u64]]
  unfolding enc_rwlock_def fits_def .

lemma code_barrier: "prefix_code enc_barrier (\<lambda>v. fits (fst v) \<and> sized fits (snd v))"
  using prefix_code_pair [OF code_u64 code_counted [OF code_u64]] unfolding enc_barrier_def .

lemmas field_codes =
  prefix_code.decode_iff [OF prefix_code_model]
  prefix_code.decode_iff [OF code_counted [OF code_u64]]
  prefix_code.decode_iff [OF code_counted [OF prefix_code_bool]]
  prefix_code.decode_iff [OF code_counted [OF code_entry [OF code_u64]]]
  prefix_code.decode_iff [OF code_counted [OF code_entry [OF code_rwlock]]]
  prefix_code.decode_iff [OF code_counted [OF code_entry [OF code_barrier]]]
  prefix_code.decode_iff [OF code_counted [OF code_entry [OF code_counted [OF code_u64]]]]
  prefix_code.decode_iff [OF code_counted [OF prefix_code_registers]]
  prefix_code.decode_iff [OF code_counted [OF prefix_code_phase]]
  prefix_code.decode_iff [OF code_counted [OF code_entry [OF prefix_code_val]]]
  prefix_code.decode_iff [OF code_counted [OF code_counted [OF code_entry [OF prefix_code_val]]]]

lemma code_pso:
  "prefix_code (enc_counted (enc_counted (enc_entry (enc_counted enc_val))))
     (sized (sized (named (sized (\<lambda>_. True)))))"
  by (intro code_counted code_entry prefix_code_val)

lemma fingerprint_exact_when_sized:
  assumes "machine_sized s" "machine_sized t"
  shows "behavioral_state_fingerprint s = behavioral_state_fingerprint t \<longleftrightarrow>
         behavior_of s = behavior_of t"
proof -
  define tail where "tail u = (if st_model u = PSO
      then enc_counted (enc_counted (enc_entry (enc_counted enc_val))) (pso_part u) else [])" for u
  have tail_iff: "tail s = tail t \<longleftrightarrow> (st_model s = PSO \<longrightarrow> pso_part s = pso_part t)"
    if "st_model s = st_model t"
    using that assms prefix_code.decode_iff [OF code_pso, of "pso_part s" "pso_part t" "[]" "[]"]
    by (auto simp: tail_def machine_sized_def)
  have "behavioral_state_fingerprint s = behavioral_state_fingerprint t \<longleftrightarrow>
      st_model s = st_model t \<and> st_pc s = st_pc t \<and> st_started s = st_started t \<and>
      mentries (st_mutex_owner s) = mentries (st_mutex_owner t) \<and>
      occupied_rwlocks s = occupied_rwlocks t \<and> nonzero_semaphores s = nonzero_semaphores t \<and>
      active_barriers s = active_barriers t \<and> nonempty_wait_sets s = nonempty_wait_sets t \<and>
      st_registers s = st_registers t \<and> st_phase s = st_phase t \<and>
      nonzero_cells s = nonzero_cells t \<and> st_store_buffers s = st_store_buffers t \<and>
      tail s = tail t"
    using assms unfolding behavioral_state_fingerprint_def tail_def [symmetric] machine_sized_def
    by (simp add: field_codes)
  then show ?thesis using tail_iff by (auto simp: behavior_of_def)
qed

end
