(* ===== verification/Replay.thy ===== *)
theory Replay
  imports Reports Fingerprint
begin

text \<open>
  Replay of a numeric schedule (src/src/model/checker.cpp, \<open>validate_replay_step\<close>,
  \<open>make_nontermination_report\<close> and \<open>replay_schedule\<close>). An invalid schedule is the
  \<open>std::invalid_argument\<close> the source throws.
\<close>

section \<open>Validation\<close>

definition invalid_schedule :: "nat \<Rightarrow> string \<Rightarrow> exn" where
  "invalid_schedule index reason =
     Invalid_Argument (''invalid replay schedule at step '' @ nat_text index @ '': '' @ reason)"

definition validate_replay_step ::
  "program \<Rightarrow> exec_state \<Rightarrow> schedule_step \<Rightarrow> nat \<Rightarrow> unit res" where
  "validate_replay_step p s step index =
     (if s_thread step \<ge> length p then
        Inl (invalid_schedule index
          (''schedule names out-of-range thread '' @ nat_text (s_thread step)))
      else if is_flush_step step \<and> st_model s = SC then
        Inl (invalid_schedule index ''schedule names a flush step under SC'')
      else if is_flush_step step \<and> st_model s = TSO \<and> s_flush step \<noteq> None then
        Inl (invalid_schedule index ''TSO flush step includes a PSO address id'')
      else if is_flush_step step \<and> st_model s = PSO \<and> s_flush step = None then
        Inl (invalid_schedule index ''PSO flush step omits its address id'')
      else if \<not> is_flush_step step \<and> s_flush step \<noteq> None then
        Inl (invalid_schedule index ''source action includes a flush address id'')
      else if \<not> is_flush_step step \<and> s_index step \<ge> length (p ! s_thread step) then
        Inl (invalid_schedule index
          (''schedule names out-of-range action '' @ nat_text (s_index step) @
           '' for thread '' @ nat_text (s_thread step)))
      else if \<not> is_flush_step step \<and> s_index step \<noteq> st_pc s ! s_thread step then
        Inl (invalid_schedule index
          (''schedule names action '' @ nat_text (s_index step) @ '' for thread '' @
           nat_text (s_thread step) @ '' but the next action is '' @
           nat_text (st_pc s ! s_thread step)))
      else if mlookup (enabled_transitions p s) step = None then
        Inl (invalid_schedule index
          (''schedule names a disabled action for thread '' @ nat_text (s_thread step)))
      else Inr ())"

section \<open>Non-termination reports\<close>

fun replay_stem :: "program \<Rightarrow> nat \<Rightarrow> schedule \<Rightarrow> exec_state \<Rightarrow> exec_state res" where
  "replay_stem p index [] s = Inr s"
| "replay_stem p index (x # xs) s =
     res_bind (validate_replay_step p s x index) (\<lambda>_.
     res_bind (execute_enabled_step p s x) (\<lambda>(s', r).
     if step_terminal r
     then Inl (Logic_Error ''nontermination stem replay reached a terminal report'')
     else replay_stem p (Suc index) xs s'))"

text \<open>
  What the replay of the cycle observes: the non-participants enabled at every cycle state,
  and the endpoints of non-participants enabled at some cycle state.
\<close>

type_synonym enabledness = "bool list \<times> schedule_step oset"

definition observe_thread ::
  "program \<Rightarrow> bool list \<Rightarrow> exec_state \<Rightarrow> nat \<Rightarrow> enabledness \<Rightarrow> enabledness" where
  "observe_thread p participant s tid obs =
     (if participant ! tid then obs
      else let steps = enabled_steps_for_thread p s tid in
        (if steps = [] then (fst obs)[tid := False] else fst obs, oinsert_all steps (snd obs)))"

definition observe_enabledness ::
  "program \<Rightarrow> bool list \<Rightarrow> exec_state \<Rightarrow> enabledness \<Rightarrow> enabledness" where
  "observe_enabledness p participant s obs =
     fold (observe_thread p participant s) [0..<length p] obs"

fun replay_cycle ::
  "program \<Rightarrow> bool list \<Rightarrow> nat \<Rightarrow> schedule \<Rightarrow> exec_state \<Rightarrow> enabledness \<Rightarrow>
   (exec_state \<times> enabledness) res" where
  "replay_cycle p participant index [] s obs = Inr (s, obs)"
| "replay_cycle p participant index (x # xs) s obs =
     res_bind (validate_replay_step p s x index) (\<lambda>_.
     res_bind (execute_enabled_step p s x) (\<lambda>(s', r).
     if step_terminal r
     then Inl (Logic_Error ''nontermination cycle replay reached a terminal report'')
     else replay_cycle p participant (Suc index) xs s'
            (observe_enabledness p participant s' obs)))"

definition cycle_participants :: "program \<Rightarrow> schedule \<Rightarrow> bool list" where
  "cycle_participants p cycle =
     fold (\<lambda>x participant. participant[s_thread x := True]) cycle (replicate (length p) False)"

definition classify_fairness :: "program \<Rightarrow> bool list \<Rightarrow> enabledness \<Rightarrow> fairness" where
  "classify_fairness p participant obs =
     (if list_ex (\<lambda>tid. \<not> participant ! tid \<and> fst obs ! tid) [0..<length p]
      then Unfair_Schedule_Witness
      else if snd obs = mempty then Fair_Divergence else Strongly_Unfair_Schedule_Witness)"

definition make_nontermination_report ::
  "program \<Rightarrow> schedule \<Rightarrow> nat \<Rightarrow> memory_model \<Rightarrow> nontermination_report res" where
  "make_nontermination_report p sch cycle_start m =
     guarded (cycle_start < length sch) (Assert_Failed ''empty cycle'')
     (let stem = take cycle_start sch; cycle = drop cycle_start sch in
      guarded (list_all (\<lambda>x. s_thread x < length p) cycle) Out_Of_Range
      (let participant = cycle_participants p cycle in
       res_bind (replay_stem p 0 stem (initial_state p m)) (\<lambda>s.
       let start_fingerprint = behavioral_state_fingerprint s;
           obs = observe_enabledness p participant s (replicate (length p) True, mempty) in
       res_bind (replay_cycle p participant cycle_start cycle s obs) (\<lambda>(s', obs').
       if behavioral_state_fingerprint s' \<noteq> start_fingerprint
       then Inl (Logic_Error ''nontermination cycle replay did not close exactly'')
       else Inr \<lparr>nt_fairness = classify_fairness p participant obs', nt_stem = stem,
                 nt_cycle = cycle, nt_schedule = sch\<rparr>))))"

section \<open>Replay\<close>

fun replay_loop ::
  "program \<Rightarrow> nat \<Rightarrow> bool \<Rightarrow> nat \<Rightarrow> schedule \<Rightarrow> exec_state \<Rightarrow> state_history \<Rightarrow> check_result \<Rightarrow>
   check_result res" where
  "replay_loop p step_bound detect i [] s history result =
     (if any_enabled p s then Inr result
      else if all_finished p s then Inr (count_schedule result)
      else res_bind (make_deadlock_report p s) (\<lambda>d.
             Inr ((count_schedule result)\<lparr>first_deadlock := Some d\<rparr>)))"
| "replay_loop p step_bound detect i (x # xs) s history result =
     res_bind (validate_replay_step p s x i) (\<lambda>_.
     if step_bound_reached s (s_thread x) step_bound then
       (if xs \<noteq> []
        then Inl (invalid_schedule (Suc i) ''schedule continues after a step-bound outcome'')
        else Inr (record_bound_exceeded result))
     else
       res_bind (execute_enabled_step p s x) (\<lambda>(s', r).
       let result' = record_step_report r result in
       if step_terminal r then
         (if xs \<noteq> []
          then Inl (invalid_schedule (Suc i) ''schedule continues after a terminal execution report'')
          else Inr (count_schedule result'))
       else
         res_bind (if detect then observe_path_behavioral_state s' history
                   else Inr (None, history)) (\<lambda>(cycle, history').
         case cycle of
           Some cycle_start \<Rightarrow>
             if xs \<noteq> []
             then Inl (invalid_schedule (Suc i) ''schedule continues after a nontermination cycle'')
             else res_bind (make_nontermination_report p (st_schedule s') cycle_start (st_model s'))
                    (\<lambda>report. record_nontermination report result')
         | None \<Rightarrow> replay_loop p step_bound detect (Suc i) xs s' history' result')))"

definition initial_history :: "program \<Rightarrow> exec_state \<Rightarrow> state_history" where
  "initial_history p s =
     (if requires_cycle_detection p then initial_state_history s else mempty)"

definition replay_schedule ::
  "program \<Rightarrow> schedule \<Rightarrow> nat \<Rightarrow> memory_model \<Rightarrow> check_result res" where
  "replay_schedule p sch step_bound m =
     (let s = initial_state p m in
      replay_loop p step_bound (requires_cycle_detection p) 0 sch s (initial_history p s)
        empty_result)"

section \<open>Paths that end in no report\<close>

text \<open>
  \<open>walk\<close> follows a schedule as long as every step is enabled, below the step bound, free of
  errors and, with cycle detection, leads to a behaviour new on the path. It is what the
  explorers have executed when they stand at a node.
\<close>

definition observe :: "bool \<Rightarrow> exec_state \<Rightarrow> state_history \<Rightarrow> (nat option \<times> state_history) res" where
  "observe detect s history =
     (if detect then observe_path_behavioral_state s history else Inr (None, history))"

fun walk ::
  "program \<Rightarrow> nat \<Rightarrow> bool \<Rightarrow> schedule \<Rightarrow> exec_state \<Rightarrow> state_history \<Rightarrow>
   (exec_state \<times> state_history) option" where
  "walk p step_bound detect [] s history = Some (s, history)"
| "walk p step_bound detect (x # xs) s history =
     (if x \<in> set (enabled_steps p s) \<and> \<not> step_bound_reached s (s_thread x) step_bound then
        (case execute_enabled_step p s x of
           Inl _ \<Rightarrow> None
         | Inr (s', r) \<Rightarrow>
             if step_terminal r then None
             else (case observe detect s' history of
                     Inr (None, history') \<Rightarrow> walk p step_bound detect xs s' history'
                   | _ \<Rightarrow> None))
      else None)"

lemma walk_append:
  "walk p b d (xs @ ys) s h =
     (case walk p b d xs s h of None \<Rightarrow> None | Some (s', h') \<Rightarrow> walk p b d ys s' h')"
  by (induction xs arbitrary: s h) (simp_all split: sum.split option.split prod.split)

lemma walk_run: "walk p b d xs s h = Some (s', h') \<Longrightarrow> run p xs s = Some s'"
  by (induction xs arbitrary: s h) (auto split: sum.splits option.splits if_splits)

lemma walk_single:
  "walk p b d [x] s h = Some (s', h') \<longleftrightarrow>
     x \<in> set (enabled_steps p s) \<and> \<not> step_bound_reached s (s_thread x) b \<and>
     (\<exists>r. execute_enabled_step p s x = Inr (s', r) \<and> \<not> step_terminal r \<and>
          observe d s' h = Inr (None, h'))"
  by (auto split: sum.splits option.splits if_splits)

text \<open>An enabled step passes validation.\<close>

lemma validate_enabled:
  assumes wf: "wf_state p s" and idx: "indexable p" and step: "x \<in> set (enabled_steps p s)"
  shows "validate_replay_step p s x i = Inr ()"
proof (cases "is_flush_step x")
  case True
  note fl = enabled_flush_step [OF wf step True indexableD [OF idx]]
  have thread: "s_thread x < length p" and mem: "x \<in> set (flush_steps s (s_thread x))"
    using fl(1,3) by simp_all
  have "st_model s \<noteq> SC" using fl(5) by (auto simp: is_buffered_memory_model_def)
  moreover have "s_flush x = None" if "st_model s = TSO"
  proof -
    have "x = Step (s_thread x) kFlushActionIndex None"
      using fl(3,4) that by (simp add: flush_steps_def)
    then show ?thesis by (metis schedule_step.sel(3))
  qed
  moreover have "s_flush x \<noteq> None" if other: "st_model s \<noteq> TSO"
  proof -
    obtain j where "s_flush x = Some j" using pso_flush_step [OF wf thread mem other] by blast
    then show ?thesis by simp
  qed
  ultimately show ?thesis
    using True fl(1) step
    by (cases "st_model s") (simp_all add: validate_replay_step_def mlookup_enabled_transitions)
next
  case False
  note src = enabled_source_step [OF wf step False]
  show ?thesis
    using False src step by (simp add: validate_replay_step_def mlookup_enabled_transitions)
qed

text \<open>Validation accepts nothing but enabled steps.\<close>

lemma validate_only_enabled:
  "validate_replay_step p s x i = Inr u \<Longrightarrow> x \<in> set (enabled_steps p s)"
  by (auto simp: validate_replay_step_def mlookup_enabled_transitions split: if_splits)

lemma replay_loop_walk:
  assumes "walk p b d xs s h = Some (s', h')" "wf_state p s" "indexable p"
  shows "\<exists>result'. replay_loop p b d i (xs @ ys) s h result =
      replay_loop p b d (i + length xs) ys s' h' result'  \<and>
      first_deadlock result' = first_deadlock result \<and> first_error result' = first_error result \<and>
      first_assertion result' = first_assertion result \<and>
      first_nontermination result' = first_nontermination result \<and>
      schedules_explored result' = schedules_explored result"
  using assms(1,2)
proof (induction xs arbitrary: s h i result)
  case Nil
  then show ?case by auto
next
  case (Cons x xs)
  from Cons.prems(1) obtain s1 r h1 where x: "x \<in> set (enabled_steps p s)"
      "\<not> step_bound_reached s (s_thread x) b" "execute_enabled_step p s x = Inr (s1, r)"
      "\<not> step_terminal r" "observe d s1 h = Inr (None, h1)" "walk p b d xs s1 h1 = Some (s', h')"
    by (auto split: sum.splits option.splits if_splits)
  have wf1: "wf_state p s1" using wf_execute_enabled_step [OF Cons.prems(2) assms(3) x(1,3)] .
  have eq: "replay_loop p b d i ((x # xs) @ ys) s h result =
      replay_loop p b d (Suc i) (xs @ ys) s1 h1 (record_step_report r result)"
    using x validate_enabled [OF Cons.prems(2) assms(3) x(1), of i]
    by (simp add: observe_def [symmetric])
  have same: "first_error (record_step_report r result) = first_error result"
      "first_assertion (record_step_report r result) = first_assertion result"
      "first_deadlock (record_step_report r result) = first_deadlock result"
      "schedules_explored (record_step_report r result) = schedules_explored result"
      "first_nontermination (record_step_report r result) = first_nontermination result"
    using x(4) by (simp_all add: record_step_report_def step_terminal_def or_else_def split: option.split)
  show ?case
    using Cons.IH [OF x(6) wf1, of "Suc i" "record_step_report r result"] same unfolding eq by auto
qed

end
