(* ===== verification/Behavior.thy ===== *)
theory Behavior
  imports Fingerprint Step_Progress
begin

text \<open>
  Why the excluded components may be excluded: states with equal behaviour offer the same
  steps, and equal steps lead to states with equal behaviour and the same kind of report.
  \<open>sim\<close> is equality of behaviour stated by lookups; it is a bisimulation of the interpreter.
\<close>

section \<open>Equality of behaviour by lookups\<close>

definition rw_view :: "exec_state \<Rightarrow> string \<Rightarrow> nat oset \<times> nat option" where
  "rw_view s name =
     (let rw = mget empty_rwlock (st_rwlocks s) name in (reader_holders rw, writer_holder rw))"

definition permit_view :: "exec_state \<Rightarrow> string \<Rightarrow> nat" where
  "permit_view s name = permits (mget empty_semaphore (st_semaphores s) name)"

definition barrier_view :: "exec_state \<Rightarrow> string \<Rightarrow> (nat \<times> nat oset) option" where
  "barrier_view s name = map_option (\<lambda>b. (parties b, arrivals b)) (mlookup (st_barriers s) name)"

definition sim :: "exec_state \<Rightarrow> exec_state \<Rightarrow> bool" where
  "sim s t \<longleftrightarrow>
     st_model s = st_model t \<and> st_pc s = st_pc t \<and> st_started s = st_started t \<and>
     st_mutex_owner s = st_mutex_owner t \<and> rw_view s = rw_view t \<and>
     permit_view s = permit_view t \<and> barrier_view s = barrier_view t \<and>
     mget [] (st_waiters s) = mget [] (st_waiters t) \<and> st_registers s = st_registers t \<and>
     st_phase s = st_phase t \<and> mget 0 (st_values s) = mget 0 (st_values t) \<and>
     st_store_buffers s = st_store_buffers t \<and> st_pso_buffers s = st_pso_buffers t \<and>
     st_flush_addresses s = st_flush_addresses t"

lemma simD:
  assumes "sim s t"
  shows "st_model s = st_model t" "st_pc s = st_pc t" "st_started s = st_started t"
    "st_mutex_owner s = st_mutex_owner t" "rw_view s = rw_view t"
    "permit_view s = permit_view t" "barrier_view s = barrier_view t"
    "mget [] (st_waiters s) = mget [] (st_waiters t)" "st_registers s = st_registers t"
    "st_phase s = st_phase t" "mget 0 (st_values s) = mget 0 (st_values t)"
    "st_store_buffers s = st_store_buffers t" "st_pso_buffers s = st_pso_buffers t"
    "st_flush_addresses s = st_flush_addresses t"
  using assms by (simp_all add: sim_def)

lemma sim_refl [simp]: "sim s s"
  by (simp add: sim_def)

lemma sim_sym: "sim s t \<Longrightarrow> sim t s"
  by (simp add: sim_def)

lemma sim_trans: "sim s t \<Longrightarrow> sim t u \<Longrightarrow> sim s u"
  by (simp add: sim_def)

lemma filtered_view:
  assumes "map (\<lambda>(n, x). (n, f x)) (filter (\<lambda>(_, x). P x) (mentries m)) =
           map (\<lambda>(n, x). (n, f x)) (filter (\<lambda>(_, x). P x) (mentries m'))"
    and "\<And>x. \<not> P x \<Longrightarrow> f x = f d"
  shows "f (mget d m n) = f (mget d m' n)"
proof -
  have member: "(n, v) \<in> set (map (\<lambda>(n, x). (n, f x)) (filter (\<lambda>(_, x). P x) (mentries k))) \<longleftrightarrow>
      (\<exists>x. mlookup k n = Some x \<and> P x \<and> v = f x)" for k v
    by (auto simp: mentries_iff image_iff intro!: bexI [of _ "(n, _)"])
  have look: "f (mget d k n) = (if \<exists>x. mlookup k n = Some x \<and> P x
      then f (the (mlookup k n)) else f d)" for k
    using assms(2) by (auto simp: mget_def split: option.splits)
  have "(\<exists>x. mlookup m n = Some x \<and> P x \<and> v = f x) \<longleftrightarrow>
      (\<exists>x. mlookup m' n = Some x \<and> P x \<and> v = f x)" for v
    using member [of v m] member [of v m'] assms(1) by simp
  then show ?thesis unfolding look by (metis option.sel)
qed

lemma mkeys_inject: "mkeys s = mkeys t \<Longrightarrow> s = (t :: nat oset)"
  by (rule oset_eqI) (metis set_oelems)

lemma sim_if_behavior:
  assumes eq: "behavior_of s = behavior_of t"
    and parties: "map_option parties \<circ> mlookup (st_barriers s) =
                  map_option parties \<circ> mlookup (st_barriers t)"
    and pso: "st_model s \<noteq> PSO \<Longrightarrow> st_pso_buffers s = st_pso_buffers t"
    and addresses: "st_flush_addresses s = st_flush_addresses t"
  shows "sim s t"
proof -
  have entries: "mentries m = mentries m' \<Longrightarrow> m = m'" for m m' :: "('a::linorder, 'b) omap"
    by (simp add: mentries_inject)
  have rw: "rw_view s = rw_view t"
  proof
    fix n
    have "(writer_holder (mget empty_rwlock (st_rwlocks s) n),
           mkeys (reader_holders (mget empty_rwlock (st_rwlocks s) n))) =
          (writer_holder (mget empty_rwlock (st_rwlocks t) n),
           mkeys (reader_holders (mget empty_rwlock (st_rwlocks t) n)))"
      using eq
      by (intro filtered_view [where f = "\<lambda>rw. (writer_holder rw, mkeys (reader_holders rw))"
            and P = "\<lambda>rw. \<not> (writer_holder rw = None \<and> reader_holders rw = mempty)"])
        (auto simp: behavior_of_def occupied_rwlocks_def empty_rwlock_def)
    then show "rw_view s n = rw_view t n"
      by (auto simp: rw_view_def Let_def dest: mkeys_inject)
  qed
  have sem: "permit_view s = permit_view t"
    unfolding permit_view_def fun_eq_iff
    using eq
    by (intro allI filtered_view [where P = "\<lambda>sem. permits sem \<noteq> 0"])
      (auto simp: behavior_of_def nonzero_semaphores_def empty_semaphore_def)
  have bar: "barrier_view s = barrier_view t"
  proof
    fix n
    define d :: barrier_state where "d = \<lparr>generation = 0, parties = 0, arrivals = mempty,
      arrival_releases = mempty\<rparr>"
    have "map (\<lambda>(n, b). (n, mkeys (arrivals b))) (filter (\<lambda>(_, b). arrivals b \<noteq> mempty)
        (mentries (st_barriers u))) =
      map (\<lambda>(n, _, ks). (n, ks)) (active_barriers u)" for u
      by (simp add: active_barriers_def comp_def case_prod_unfold)
    then have "mkeys (arrivals (mget d (st_barriers s) n)) = mkeys (arrivals (mget d (st_barriers t) n))"
      using eq
      by (intro filtered_view [where f = "\<lambda>b. mkeys (arrivals b)" and P = "\<lambda>b. arrivals b \<noteq> mempty"])
        (auto simp: behavior_of_def d_def)
    then have "arrivals (mget d (st_barriers s) n) = arrivals (mget d (st_barriers t) n)"
      by (rule mkeys_inject)
    moreover have "map_option parties (mlookup (st_barriers s) n) =
        map_option parties (mlookup (st_barriers t) n)"
      using parties by (metis comp_apply)
    ultimately show "barrier_view s n = barrier_view t n"
      by (auto simp: barrier_view_def mget_def split: option.splits)
  qed
  have wait: "mget [] (st_waiters s) = mget [] (st_waiters t)"
  proof
    fix n
    have "filter (\<lambda>(_, ws). ws \<noteq> []) (mentries m) = map (\<lambda>(n, x). (n, id x))
        (filter (\<lambda>(_, ws). ws \<noteq> []) (mentries m))" for m :: "(string, nat list) omap"
      by (simp add: case_prod_unfold)
    then have "id (mget [] (st_waiters s) n) = id (mget [] (st_waiters t) n)"
      using eq by (intro filtered_view [where P = "\<lambda>ws. ws \<noteq> []"])
        (auto simp: behavior_of_def nonempty_wait_sets_def)
    then show "mget [] (st_waiters s) n = mget [] (st_waiters t) n" by simp
  qed
  have vals: "mget 0 (st_values s) = mget 0 (st_values t)"
  proof
    fix n
    have "filter (\<lambda>(_, v). v \<noteq> 0) (mentries m) = map (\<lambda>(n, x). (n, id x))
        (filter (\<lambda>(_, v). v \<noteq> 0) (mentries m))" for m :: "(string, val) omap"
      by (simp add: case_prod_unfold)
    then have "id (mget 0 (st_values s) n) = id (mget 0 (st_values t) n)"
      using eq by (intro filtered_view [where P = "\<lambda>v. v \<noteq> 0"])
        (auto simp: behavior_of_def nonzero_cells_def)
    then show "mget 0 (st_values s) n = mget 0 (st_values t) n" by simp
  qed
  have "st_pso_buffers s = st_pso_buffers t"
  proof (cases "st_model s = PSO")
    case True
    then have "map mentries (st_pso_buffers s) = map mentries (st_pso_buffers t)"
      using eq by (auto simp: behavior_of_def pso_part_def)
    then show ?thesis by (rule map_injective) (simp add: inj_def mentries_inject)
  qed (rule pso)
  then show ?thesis
    using eq rw sem bar wait vals addresses entries
    by (auto simp: sim_def behavior_of_def)
qed

section \<open>Enabledness depends on behaviour only\<close>

lemma observers_by_view:
  "rlock_enabled s t n = (case snd (rw_view s n) of None \<Rightarrow> True | Some w \<Rightarrow> w = t)"
  "wlock_enabled s t n = (case snd (rw_view s n) of Some w \<Rightarrow> w = t
     | None \<Rightarrow> fst (rw_view s n) = mempty)"
  "upgrade_enabled s t n = (if \<not> omember t (fst (rw_view s n)) then True
     else msize (fst (rw_view s n)) = 1)"
  "barrier_enabled s t a = (case barrier_view s (a_barrier a) of None \<Rightarrow> False
     | Some b \<Rightarrow> if a_parties a = 0 \<or> a_parties a \<noteq> fst b then True else \<not> omember t (snd b))"
  "(case mlookup (st_semaphores s) n of None \<Rightarrow> False | Some sem \<Rightarrow> permits sem > 0) =
     (permit_view s n > 0)"
  by (auto simp: rlock_enabled_def wlock_enabled_def upgrade_enabled_def barrier_enabled_def
      rw_view_def barrier_view_def permit_view_def Let_def mget_def empty_rwlock_def
      empty_semaphore_def holds_rwlock_read_def split: option.splits)

lemma sim_observers:
  assumes "sim s t"
  shows "has_next_action p s u = has_next_action p t u" "next_action p s u = next_action p t u"
    "is_finished p s u = is_finished p t u" "has_pending_store s u = has_pending_store t u"
    "rlock_enabled s u n = rlock_enabled t u n" "wlock_enabled s u n = wlock_enabled t u n"
    "upgrade_enabled s u n = upgrade_enabled t u n" "barrier_enabled s u a = barrier_enabled t u a"
    "owns_mutex s u n = owns_mutex t u n" "flush_steps s u = flush_steps t u"
  unfolding has_next_action_def next_action_def is_finished_def has_pending_store_def
    observers_by_view owns_mutex_def flush_steps_def simD [OF assms]
  by (rule refl)+

lemma sim_enabled_action:
  assumes "sim s t"
  shows "is_program_action_enabled p s u = is_program_action_enabled p t u"
  unfolding is_program_action_enabled_def observers_by_view(5) sim_observers [OF assms]
    simD [OF assms] ..

lemma sim_enabled_steps:
  assumes "sim s t"
  shows "enabled_steps p s = enabled_steps p t"
  unfolding enabled_steps_def enabled_steps_for_thread_def sim_enabled_action [OF assms]
    sim_observers [OF assms] simD [OF assms] ..

lemma sim_effective_action:
  assumes "sim s t"
  shows "effective_action_for_step p s step = effective_action_for_step p t step"
  unfolding effective_action_for_step_def effective_next_action_def sim_observers [OF assms]
    simD [OF assms] ..

end
