(* ===== verification/Footprint.thy ===== *)
theory Footprint
  imports Behavior
begin

text \<open>
  Where a step reads and writes. A behavioural state is a family of locations; two states agree
  on a set of locations when they have the same contents there, and agreement everywhere is
  equality of behaviour. An update of one location keeps agreement, and is invisible to agreement
  elsewhere: the two facts from which the locality of whole steps is composed.
\<close>

section \<open>Locations\<close>

datatype location =
    Control nat     \<comment> \<open>program counter, registers and wait phase of a thread\<close>
  | Started nat
  | Buffered nat         \<comment> \<open>the TSO queue of a thread\<close>
  | Pending nat string   \<comment> \<open>the PSO queue of a thread for an address\<close>
  | Owner string
  | Writer string        \<comment> \<open>the writer of a reader-writer lock\<close>
  | Reader string nat    \<comment> \<open>whether a thread is among its readers\<close>
  | Permits string
  | Arrived string
  | Waiters string
  | Cell string

definition same_shape :: "exec_state \<Rightarrow> exec_state \<Rightarrow> bool" where
  "same_shape s t \<longleftrightarrow>
     st_model s = st_model t \<and> st_flush_addresses s = st_flush_addresses t \<and>
     length (st_pc s) = length (st_pc t) \<and> length (st_started s) = length (st_started t) \<and>
     length (st_registers s) = length (st_registers t) \<and> length (st_phase s) = length (st_phase t) \<and>
     length (st_store_buffers s) = length (st_store_buffers t) \<and>
     length (st_pso_buffers s) = length (st_pso_buffers t)"

fun same_at :: "exec_state \<Rightarrow> exec_state \<Rightarrow> location \<Rightarrow> bool" where
  "same_at s t (Control u) \<longleftrightarrow>
     st_pc s ! u = st_pc t ! u \<and> st_registers s ! u = st_registers t ! u \<and> st_phase s ! u = st_phase t ! u"
| "same_at s t (Started u) \<longleftrightarrow> st_started s ! u = st_started t ! u"
| "same_at s t (Buffered u) \<longleftrightarrow>
     st_store_buffers s ! u = st_store_buffers t ! u"
| "same_at s t (Pending u x) \<longleftrightarrow>
     mlookup (st_pso_buffers s ! u) x = mlookup (st_pso_buffers t ! u) x"
| "same_at s t (Owner m) \<longleftrightarrow> mlookup (st_mutex_owner s) m = mlookup (st_mutex_owner t) m"
| "same_at s t (Writer n) \<longleftrightarrow> snd (rw_view s n) = snd (rw_view t n)"
| "same_at s t (Reader n u) \<longleftrightarrow> omember u (fst (rw_view s n)) = omember u (fst (rw_view t n))"
| "same_at s t (Permits n) \<longleftrightarrow> permit_view s n = permit_view t n"
| "same_at s t (Arrived n) \<longleftrightarrow> barrier_view s n = barrier_view t n"
| "same_at s t (Waiters c) \<longleftrightarrow> mget [] (st_waiters s) c = mget [] (st_waiters t) c"
| "same_at s t (Cell x) \<longleftrightarrow> mget 0 (st_values s) x = mget 0 (st_values t) x"

definition same_on :: "location set \<Rightarrow> exec_state \<Rightarrow> exec_state \<Rightarrow> bool" where
  "same_on L s t \<longleftrightarrow> same_shape s t \<and> (\<forall>l\<in>L. same_at s t l)"

lemma same_onD: "same_on L s t \<Longrightarrow> l \<in> L \<Longrightarrow> same_at s t l"
  by (simp add: same_on_def)

lemma same_on_refl [simp]: "same_on L s s"
proof -
  have "same_at s s l" for l by (cases l) simp_all
  then show ?thesis by (simp add: same_on_def same_shape_def)
qed

lemma same_at_sym: "same_at s t l \<Longrightarrow> same_at t s l"
  by (cases l) simp_all

lemma same_at_trans: "same_at s t l \<Longrightarrow> same_at t u l \<Longrightarrow> same_at s u l"
  by (cases l) simp_all

lemma same_on_sym: "same_on L s t \<Longrightarrow> same_on L t s"
  by (auto simp: same_on_def same_shape_def intro: same_at_sym)

lemma same_on_trans: "same_on L s t \<Longrightarrow> same_on L t u \<Longrightarrow> same_on L s u"
  by (auto simp: same_on_def same_shape_def intro: same_at_trans)

lemma same_on_mono: "same_on L s t \<Longrightarrow> K \<subseteq> L \<Longrightarrow> same_on K s t"
  by (auto simp: same_on_def)

lemma same_on_Un: "same_on (K \<union> L) s t \<longleftrightarrow> same_on K s t \<and> same_on L s t"
  by (auto simp: same_on_def)

lemma sim_same_on: "sim s t \<longleftrightarrow> same_on UNIV s t"
proof
  assume "sim s t"
  then have "same_shape s t" "same_at s t l" for l
    by (cases l; simp add: sim_def same_shape_def)+
  then show "same_on UNIV s t" by (simp add: same_on_def)
next
  assume "same_on UNIV s t"
  then have shape: "same_shape s t" and at: "\<And>l. same_at s t l" by (simp_all add: same_on_def)
  have eq: "st_pc s = st_pc t" "st_registers s = st_registers t" "st_phase s = st_phase t"
      "st_started s = st_started t" "st_store_buffers s = st_store_buffers t"
      "st_pso_buffers s = st_pso_buffers t"
    using shape at [of "Control _"] at [of "Started _"] at [of "Buffered _"] at [of "Pending _ _"]
    by (auto simp: same_shape_def intro!: nth_equalityI omap_eqI)
  have "rw_view s = rw_view t"
    using at [of "Writer _"] at [of "Reader _ _"] by (intro ext prod_eqI oset_eqI) simp_all
  have "st_mutex_owner s = st_mutex_owner t"
    by (rule omap_eqI) (use at [of "Owner _"] in simp)
  with \<open>rw_view s = rw_view t\<close> show "sim s t"
    using shape eq at [of "Permits _"] at [of "Arrived _"] at [of "Waiters _"]
      at [of "Cell _"]
    by (auto simp: sim_def same_shape_def fun_eq_iff)
qed

section \<open>Updates\<close>

lemma nth_update_if: "(xs[u := x]) ! w = (if u = w \<and> u < length xs then x else xs ! w)"
  by (cases "u < length xs") (auto simp: list_update_beyond)

lemma all_locations:
  "(\<forall>l. Q l) \<longleftrightarrow> (\<forall>u. Q (Control u)) \<and> (\<forall>u. Q (Started u)) \<and> (\<forall>u. Q (Buffered u)) \<and>
     (\<forall>u x. Q (Pending u x)) \<and> (\<forall>m. Q (Owner m)) \<and> (\<forall>n. Q (Writer n)) \<and> (\<forall>n u. Q (Reader n u)) \<and> (\<forall>n. Q (Permits n)) \<and> (\<forall>n. Q (Arrived n)) \<and>
     (\<forall>c. Q (Waiters c)) \<and> (\<forall>x. Q (Cell x))" (is "_ \<longleftrightarrow> ?each")
proof
  assume each: ?each
  show "\<forall>l. Q l"
  proof
    show "Q l" for l using each by (cases l) simp_all
  qed
qed simp

lemma same_on_iff:
  "same_on L s t \<longleftrightarrow> same_shape s t \<and>
     (\<forall>u. Control u \<in> L \<longrightarrow> same_at s t (Control u)) \<and> (\<forall>u. Started u \<in> L \<longrightarrow> same_at s t (Started u)) \<and>
     (\<forall>u. Buffered u \<in> L \<longrightarrow> same_at s t (Buffered u)) \<and> (\<forall>u x. Pending u x \<in> L \<longrightarrow> same_at s t (Pending u x)) \<and>
     (\<forall>m. Owner m \<in> L \<longrightarrow> same_at s t (Owner m)) \<and>
     (\<forall>n. Writer n \<in> L \<longrightarrow> same_at s t (Writer n)) \<and>
     (\<forall>n u. Reader n u \<in> L \<longrightarrow> same_at s t (Reader n u)) \<and> (\<forall>n. Permits n \<in> L \<longrightarrow> same_at s t (Permits n)) \<and>
     (\<forall>n. Arrived n \<in> L \<longrightarrow> same_at s t (Arrived n)) \<and> (\<forall>c. Waiters c \<in> L \<longrightarrow> same_at s t (Waiters c)) \<and>
     (\<forall>x. Cell x \<in> L \<longrightarrow> same_at s t (Cell x))"
  unfolding same_on_def Ball_def all_locations ..

text \<open>Clocks, access records and the entries that reading creates are no locations.\<close>

lemma same_on_replace: "same_on UNIV s' s \<Longrightarrow> same_on L s' t = same_on L s t"
    "same_on UNIV s' s \<Longrightarrow> same_on L t s' = same_on L t s"
  using same_on_mono [of UNIV _ _ L] same_on_trans same_on_sym by blast+

lemma views_frames [simp]:
  "rw_view (join_clock s u c) = rw_view s" "permit_view (join_clock s u c) = permit_view s"
  "barrier_view (join_clock s u c) = barrier_view s"
  by (simp_all add: rw_view_def permit_view_def barrier_view_def fun_eq_iff)

lemma invisible_updates:
  "same_on UNIV (join_clock s u c) s" "same_on UNIV (touch_value s x) s"
  "same_on UNIV (touch_atomic_clock s x) s" "same_on UNIV (publish_atomic s u x) s"
  "same_on UNIV (fst (on_address f s x acc)) s" "same_on UNIV (begin_step s step) s"
  unfolding sim_same_on [symmetric]
  by (simp_all add: sim_def state_ops on_address_def rw_view_def permit_view_def barrier_view_def
      fun_eq_iff mget_def split: prod.split option.split)

lemmas same_on_invisible [simp] =
  same_on_replace [OF invisible_updates(1)] same_on_replace [OF invisible_updates(2)]
  same_on_replace [OF invisible_updates(3)] same_on_replace [OF invisible_updates(4)]
  same_on_replace [OF invisible_updates(5)] same_on_replace [OF invisible_updates(6)]

lemma sim_begin_step [simp]: "sim (begin_step s x) s"
  by (simp add: sim_same_on)

text \<open>The same update on both sides, and an update elsewhere on one side.\<close>

named_theorems same_intros \<open>updates that keep agreement\<close>

lemmas same_views = same_shape_def state_ops rw_view_def permit_view_def barrier_view_def Let_def nth_update_if

lemma same_on_thread [same_intros]:
  assumes "same_on L s t"
  shows "same_on L (advance_pc p s u) (advance_pc p t u)"
    "same_on L (set_pc p s u pc) (set_pc p t u pc)"
    "same_on L (normalize_pc p s u) (normalize_pc p t u)"
    "same_on L (set_phase s u ph) (set_phase t u ph)"
    "same_on L (store_register s u r v) (store_register t u r v)"
    "same_on L (s\<lparr>st_started := (st_started s)[u := b]\<rparr>) (t\<lparr>st_started := (st_started t)[u := b]\<rparr>)"
    "same_on L (s\<lparr>st_store_buffers := (st_store_buffers s)[u := q]\<rparr>)
       (t\<lparr>st_store_buffers := (st_store_buffers t)[u := q]\<rparr>)"
  using assms by (auto simp: same_on_iff same_views)

lemma same_on_object [same_intros]:
  assumes "same_on L s t"
  shows "same_on L (acquire_mutex s u m) (acquire_mutex t u m)"
    "same_on L (release_mutex s u m) (release_mutex t u m)"
    "same_on L (set_waiters s c ws) (set_waiters t c ws)" "same_on L (set_value s x v) (set_value t x v)"
  using assms by (auto simp: same_on_iff same_views)

lemma same_on_set_pso:
  assumes "same_on L s t" "\<And>x. Pending u x \<in> L \<Longrightarrow> mlookup q x = mlookup q' x"
  shows "same_on L (s\<lparr>st_pso_buffers := (st_pso_buffers s)[u := q]\<rparr>)
    (t\<lparr>st_pso_buffers := (st_pso_buffers t)[u := q']\<rparr>)"
  using assms by (auto simp: same_on_iff same_views)

lemma same_on_set_rwlock:
  assumes "same_on L s t" "Writer n \<in> L \<Longrightarrow> writer_holder rw = writer_holder rw'"
    "\<And>u. Reader n u \<in> L \<Longrightarrow> omember u (reader_holders rw) = omember u (reader_holders rw')"
  shows "same_on L (set_rwlock s n rw) (set_rwlock t n rw')"
  using assms by (auto simp: same_on_iff same_views)

lemma same_on_set_semaphore:
  assumes "same_on L s t" "Permits n \<in> L \<Longrightarrow> permits x = permits y"
  shows "same_on L (s\<lparr>st_semaphores := mupdate n x (st_semaphores s)\<rparr>)
    (t\<lparr>st_semaphores := mupdate n y (st_semaphores t)\<rparr>)"
  using assms by (auto simp: same_on_iff same_views)

lemma same_on_set_barrier:
  assumes "same_on L s t" "Arrived n \<in> L \<Longrightarrow> parties x = parties y" "Arrived n \<in> L \<Longrightarrow> arrivals x = arrivals y"
  shows "same_on L (s\<lparr>st_barriers := mupdate n x (st_barriers s)\<rparr>)
    (t\<lparr>st_barriers := mupdate n y (st_barriers t)\<rparr>)"
  using assms by (auto simp: same_on_iff same_views)

text \<open>Updates outside of the locations.\<close>

lemma unseen_thread [simp]:
  "Control u \<notin> L \<Longrightarrow> same_on L (advance_pc p s u) t = same_on L s t"
  "Control u \<notin> L \<Longrightarrow> same_on L (set_pc p s u pc) t = same_on L s t"
  "Control u \<notin> L \<Longrightarrow> same_on L (normalize_pc p s u) t = same_on L s t"
  "Control u \<notin> L \<Longrightarrow> same_on L (set_phase s u ph) t = same_on L s t"
  "Control u \<notin> L \<Longrightarrow> same_on L (store_register s u r v) t = same_on L s t"
  "Started u \<notin> L \<Longrightarrow> bs = st_started s \<Longrightarrow> same_on L (s\<lparr>st_started := bs[u := b]\<rparr>) t = same_on L s t"
  "Buffered u \<notin> L \<Longrightarrow> qs = st_store_buffers s \<Longrightarrow> same_on L (s\<lparr>st_store_buffers := qs[u := q]\<rparr>) t = same_on L s t"
  by (auto simp: same_on_iff same_views)

lemma unseen_object [simp]:
  "Owner m \<notin> L \<Longrightarrow> same_on L (acquire_mutex s u m) t = same_on L s t"
  "Owner m \<notin> L \<Longrightarrow> same_on L (release_mutex s u m) t = same_on L s t"
  "Waiters c \<notin> L \<Longrightarrow> same_on L (set_waiters s c ws) t = same_on L s t"
  "Cell x \<notin> L \<Longrightarrow> same_on L (set_value s x v) t = same_on L s t"
  "Permits n \<notin> L \<Longrightarrow> sems = st_semaphores s \<Longrightarrow>
     same_on L (s\<lparr>st_semaphores := mupdate n sem sems\<rparr>) t = same_on L s t"
  "Arrived n \<notin> L \<Longrightarrow> bars = st_barriers s \<Longrightarrow>
     same_on L (s\<lparr>st_barriers := mupdate n b bars\<rparr>) t = same_on L s t"
  by (auto simp: same_on_iff same_views)

lemma unseen_pso:
  "qs = st_pso_buffers s \<Longrightarrow>
   (\<And>x. Pending u x \<in> L \<Longrightarrow> mlookup q x = mlookup (qs ! u) x) \<Longrightarrow>
   same_on L (s\<lparr>st_pso_buffers := qs[u := q]\<rparr>) s"
  by (auto simp: same_on_iff same_views)

lemma unseen_rwlock:
  "(Writer n \<in> L \<Longrightarrow> writer_holder rw = snd (rw_view s n)) \<Longrightarrow>
   (\<And>u. Reader n u \<in> L \<Longrightarrow> omember u (reader_holders rw) = omember u (fst (rw_view s n))) \<Longrightarrow>
   same_on L (set_rwlock s n rw) s"
  by (auto simp: same_on_iff same_views)

lemma same_on_write_register:
  "same_on L s t \<Longrightarrow> write_register s u d v = Inr s1 \<Longrightarrow> write_register t u d v = Inr t1 \<Longrightarrow> same_on L s1 t1"
  by (cases d) (auto simp: write_register_def guarded_def same_intros split: if_splits)

lemma unseen_write_register:
  "write_register s u d v = Inr s1 \<Longrightarrow> Control u \<notin> L \<Longrightarrow> same_on L s1 t = same_on L s t"
  by (cases d) (auto simp: write_register_def guarded_def split: if_splits)

end
