(* ===== verification/Bisimulation.thy ===== *)
theory Bisimulation
  imports Footprint
begin

text \<open>
  Locality of steps, which includes that equality of behaviour is a bisimulation. Every case of
  the step function maps states that agree on a set of locations to states that agree there, and
  to reports of the same kind, when the set holds the locations that the case reads; both
  executions are assumed to complete (the progress theorem gives completion). On all locations
  this says that states of equal behaviour stay so. One lemma per group of cases.
\<close>

section \<open>Agreeing results\<close>

definition same_kind :: "step_report \<Rightarrow> step_report \<Rightarrow> bool" where
  "same_kind r q \<longleftrightarrow>
     (sr_error r = None) = (sr_error q = None) \<and> (sr_assertion r = None) = (sr_assertion q = None)"

lemma same_kind_refl [simp]: "same_kind r r"
  by (simp add: same_kind_def)

lemma same_kind_terminal: "same_kind r q \<Longrightarrow> step_terminal r = step_terminal q"
  by (auto simp: same_kind_def step_terminal_def)

definition agree :: "location set \<Rightarrow> step_result \<Rightarrow> step_result \<Rightarrow> bool" where
  "agree L m n \<longleftrightarrow>
     (\<forall>s r t q. m = Inr (s, r) \<longrightarrow> n = Inr (t, q) \<longrightarrow> same_on L s t \<and> same_kind r q)"

named_theorems agree_intros \<open>introduction rules for agreeing results\<close>

lemma agree_bind [agree_intros]:
  "(\<And>x y. m = Inr x \<Longrightarrow> n = Inr y \<Longrightarrow> agree L (f x) (g y)) \<Longrightarrow> agree L (res_bind m f) (res_bind n g)"
  by (cases m; cases n) (auto simp: agree_def)

lemma agree_bind_same:
  "(\<And>x. m = Inr x \<Longrightarrow> agree L (f x) (g x)) \<Longrightarrow> agree L (res_bind m f) (res_bind m g)"
  by (cases m) (auto simp: agree_def)

lemma agree_guarded [agree_intros]:
  "(b \<Longrightarrow> b' \<Longrightarrow> agree L m n) \<Longrightarrow> agree L (guarded b e m) (guarded b' e' n)"
  by (cases b; cases b') (auto simp: agree_def)

lemma agree_finish [agree_intros]: "same_on L s t \<Longrightarrow> agree L (finish s) (finish t)"
  by (auto simp: agree_def finish_def)

lemma agree_error [agree_intros]: "same_on L s t \<Longrightarrow> agree L (finish_error s e) (finish_error t e')"
  by (auto simp: agree_def finish_error_def same_kind_def)

lemma agree_race [agree_intros]:
  "same_on L (fst x) (fst y) \<Longrightarrow> agree L (finish_race x) (finish_race y)"
  by (auto simp: agree_def finish_race_def same_kind_def no_report_def)

lemma agree_Inl [simp]: "agree L (Inl e) n" "agree L m (Inl e)"
  by (simp_all add: agree_def)

lemma agree_if [agree_intros]:
  "(b \<Longrightarrow> agree L m n) \<Longrightarrow> (\<not> b \<Longrightarrow> agree L m' n') \<Longrightarrow>
   agree L (if b then m else m') (if b then n else n')"
  by simp

text \<open>What is read at a location.\<close>

lemma same_shapeD:
  assumes "same_on L s t"
  shows "st_model s = st_model t" "st_flush_addresses s = st_flush_addresses t"
  using assms by (simp_all add: same_on_def same_shape_def)

lemma same_reads:
  assumes "same_on L s t"
  shows "Control u \<in> L \<Longrightarrow> st_pc s ! u = st_pc t ! u" "Control u \<in> L \<Longrightarrow> st_phase s ! u = st_phase t ! u"
    "Started u \<in> L \<Longrightarrow> st_started s ! u = st_started t ! u"
    "Owner m \<in> L \<Longrightarrow> mlookup (st_mutex_owner s) m = mlookup (st_mutex_owner t) m"
    "Waiters c \<in> L \<Longrightarrow> mget [] (st_waiters s) c = mget [] (st_waiters t) c"
    "Cell x \<in> L \<Longrightarrow> mget 0 (st_values s) x = mget 0 (st_values t) x"
    "Buffered u \<in> L \<Longrightarrow> st_store_buffers s ! u = st_store_buffers t ! u"
    "Pending u x \<in> L \<Longrightarrow> mlookup (st_pso_buffers s ! u) x = mlookup (st_pso_buffers t ! u) x"
    "Writer n \<in> L \<Longrightarrow> snd (rw_view s n) = snd (rw_view t n)"
    "Reader n u \<in> L \<Longrightarrow> omember u (fst (rw_view s n)) = omember u (fst (rw_view t n))"
    "Permits n \<in> L \<Longrightarrow> permit_view s n = permit_view t n"
    "Arrived n \<in> L \<Longrightarrow> barrier_view s n = barrier_view t n"
  using same_onD [OF assms] by fastforce+

lemma same_registers:
  assumes "same_on L s t" "Control u \<in> L"
  shows "evaluate_operand_or s u x d = evaluate_operand_or t u x d"
    "read_register s u r = read_register t u r" "next_action p s u = next_action p t u"
proof -
  have "st_registers s ! u = st_registers t ! u" using same_onD [OF assms] by simp
  then show read: "read_register s u r = read_register t u r" for r by (simp add: read_register_def)
  show "evaluate_operand_or s u x d = evaluate_operand_or t u x d"
    unfolding evaluate_operand_or_def evaluate_operand_def read ..
  show "next_action p s u = next_action p t u" using same_reads(1) [OF assms] by (simp add: next_action_def)
qed

section \<open>Thread-local actions, mutexes and threads\<close>

lemma agree_local:
  assumes "same_on L s t"
  shows "Control (s_thread step) \<in> L \<Longrightarrow> agree L (exec_set p s step a) (exec_set p t step a)"
    "Control (s_thread step) \<in> L \<Longrightarrow> agree L (exec_branch p s step a) (exec_branch p t step a)"
    "Control (s_thread step) \<in> L \<Longrightarrow> agree L (exec_assert p s step a) (exec_assert p t step a)"
    "agree L (exec_local p s step) (exec_local p t step)"
proof -
  assume own: "Control (s_thread step) \<in> L"
  show "agree L (exec_set p s step a) (exec_set p t step a)"
    unfolding exec_set_def Let_def same_registers [OF assms own]
    by (intro agree_intros same_intros) (auto intro: same_on_write_register [OF assms])
  show "agree L (exec_branch p s step a) (exec_branch p t step a)"
    unfolding exec_branch_def Let_def same_registers [OF assms own]
    by (intro agree_bind) (auto intro!: agree_intros same_intros assms split: option.splits)
  show "agree L (exec_assert p s step a) (exec_assert p t step a)"
    unfolding exec_assert_def Let_def same_registers [OF assms own]
    using same_on_thread(1) [OF assms]
    by (intro agree_bind) (auto simp: agree_def finish_def same_kind_def split: if_splits)
next
  show "agree L (exec_local p s step) (exec_local p t step)"
    unfolding exec_local_def by (intro agree_intros same_intros assms)
qed

lemma agree_mutex:
  assumes "same_on L s t"
  shows "agree L (exec_lock p s step a) (exec_lock p t step a)"
    "Owner (a_mutex a) \<in> L \<Longrightarrow> agree L (exec_try_lock p s step a) (exec_try_lock p t step a)"
    "Owner (a_mutex a) \<in> L \<Longrightarrow> agree L (exec_unlock p s step a) (exec_unlock p t step a)"
proof -
  have adv: "same_on L (advance_pc p s u) (advance_pc p t u)" for u by (rule same_on_thread(1) [OF assms])
  show "agree L (exec_lock p s step a) (exec_lock p t step a)"
    unfolding exec_lock_def Let_def by (intro agree_intros same_intros assms)
  assume "Owner (a_mutex a) \<in> L"
  note owner = same_reads(4) [OF adv this]
  show "agree L (exec_try_lock p s step a) (exec_try_lock p t step a)"
    unfolding exec_try_lock_def Let_def owner
    by (intro agree_intros same_intros; (erule same_on_write_register [OF adv])?; assumption?)
  show "agree L (exec_unlock p s step a) (exec_unlock p t step a)"
    unfolding exec_unlock_def Let_def owner
    by (intro agree_intros same_intros assms)
qed

lemma agree_threads:
  assumes "same_on L s t"
  shows "agree L (exec_join p s step a) (exec_join p t step a)"
    "spawn_target_is_invalid p (s_thread step) a \<or> Started (a_target a) \<in> L \<Longrightarrow>
     agree L (exec_spawn p s step a) (exec_spawn p t step a)"
proof -
  have adv: "same_on L (advance_pc p s u) (advance_pc p t u)" for u by (rule same_on_thread(1) [OF assms])
  show "agree L (exec_join p s step a) (exec_join p t step a)"
    using adv unfolding exec_join_def Let_def by (intro agree_intros) simp_all
  assume read: "spawn_target_is_invalid p (s_thread step) a \<or> Started (a_target a) \<in> L"
  show "agree L (exec_spawn p s step a) (exec_spawn p t step a)"
  proof (cases "spawn_target_is_invalid p (s_thread step) a")
    case True
    then show ?thesis unfolding exec_spawn_def Let_def by (simp add: agree_error adv)
  next
    case False
    with read have "Started (a_target a) \<in> L" by simp
    note started = same_reads(3) [OF adv this]
    have start: "same_on L (s1\<lparr>st_started := (st_started s1)[u := True]\<rparr>) (t1\<lparr>st_started := (st_started t1)[u := True]\<rparr>)"
      if "same_on L s1 t1" for s1 t1 u by (rule same_on_thread(6) [OF that])
    show ?thesis
      unfolding exec_spawn_def Let_def started
      using same_on_thread(3) [OF start [OF adv]] adv
      by (intro agree_if agree_error adv) (simp add: agree_def)
  qed
qed

section \<open>Reader-writer locks\<close>

lemma same_guard:
  assumes "same_on L s t"
  shows "Writer n \<in> L \<Longrightarrow> writer_holder (mget empty_rwlock (st_rwlocks s) n) =
      writer_holder (mget empty_rwlock (st_rwlocks t) n)"
    "Reader n u \<in> L \<Longrightarrow> omember u (reader_holders (mget empty_rwlock (st_rwlocks s) n)) =
      omember u (reader_holders (mget empty_rwlock (st_rwlocks t) n))"
  using same_reads(9,10) [OF assms] by (simp_all add: rw_view_def Let_def)

lemma agree_rwlock:
  assumes "same_on L s t"
  shows "Writer (a_rwlock a) \<in> L \<Longrightarrow> Reader (a_rwlock a) (s_thread step) \<in> L \<Longrightarrow>
      agree L (exec_rlock p s step a) (exec_rlock p t step a)"
    "Writer (a_rwlock a) \<in> L \<Longrightarrow> agree L (exec_wlock p s step a) (exec_wlock p t step a)"
    "Reader (a_rwlock a) (s_thread step) \<in> L \<Longrightarrow> agree L (exec_upgrade p s step a) (exec_upgrade p t step a)"
    "Reader (a_rwlock a) (s_thread step) \<in> L \<Longrightarrow> agree L (exec_runlock p s step a) (exec_runlock p t step a)"
    "Writer (a_rwlock a) \<in> L \<Longrightarrow> agree L (exec_wunlock p s step a) (exec_wunlock p t step a)"
    "Writer (a_rwlock a) \<in> L \<Longrightarrow> agree L (exec_downgrade p s step a) (exec_downgrade p t step a)"
proof -
  have adv: "same_on L (advance_pc p s u) (advance_pc p t u)" for u by (rule same_on_thread(1) [OF assms(1)])
  note guard = same_guard [OF adv] same_guard [OF assms]
  note unfolds = Let_def holds_rwlock_read_def holds_rwlock_write_def
  show "agree L (exec_rlock p s step a) (exec_rlock p t step a)"
    if "Writer (a_rwlock a) \<in> L" "Reader (a_rwlock a) (s_thread step) \<in> L"
    unfolding exec_rlock_def unfolds guard(1) [OF that(1)] guard(2) [OF that(2)]
    by (intro agree_intros adv same_on_set_rwlock) (simp_all add: adv guard)
  show "agree L (exec_wlock p s step a) (exec_wlock p t step a)" if "Writer (a_rwlock a) \<in> L"
    unfolding exec_wlock_def unfolds guard(1) [OF that]
    by (intro agree_intros adv same_on_set_rwlock) (simp_all add: adv guard)
  show "agree L (exec_upgrade p s step a) (exec_upgrade p t step a)"
    if "Reader (a_rwlock a) (s_thread step) \<in> L"
    unfolding exec_upgrade_def unfolds guard(2) [OF that]
    by (intro agree_intros adv same_on_set_rwlock) (simp_all add: adv guard)
  show "agree L (exec_runlock p s step a) (exec_runlock p t step a)"
    if "Reader (a_rwlock a) (s_thread step) \<in> L"
    unfolding exec_runlock_def unfolds guard(2) [OF that]
    by (intro agree_intros adv same_on_set_rwlock) (simp_all add: adv guard)
  show "agree L (exec_wunlock p s step a) (exec_wunlock p t step a)" if "Writer (a_rwlock a) \<in> L"
    unfolding exec_wunlock_def unfolds guard(1) [OF that]
    by (intro agree_intros adv same_on_set_rwlock) (simp_all add: adv guard)
  show "agree L (exec_downgrade p s step a) (exec_downgrade p t step a)" if "Writer (a_rwlock a) \<in> L"
    unfolding exec_downgrade_def unfolds guard(1) [OF that]
    by (intro agree_intros adv same_on_set_rwlock) (simp_all add: adv guard)
qed

section \<open>Semaphores\<close>

text \<open>Neither operation reads more than the permits that it changes.\<close>

lemma agree_sem:
  assumes "same_on L s t"
  shows "agree L (exec_sem_post p s step a) (exec_sem_post p t step a)"
    "agree L (exec_sem_wait p s step a) (exec_sem_wait p t step a)"
proof -
  have adv: "same_on L (advance_pc p s u) (advance_pc p t u)" for u by (rule same_on_thread(1) [OF assms])
  have permits: "permits (mget empty_semaphore (st_semaphores s) n) =
      permits (mget empty_semaphore (st_semaphores t) n)" if "Permits n \<in> L" for n
    using same_onD [OF assms that] by (simp add: permit_view_def)
  show "agree L (exec_sem_post p s step a) (exec_sem_post p t step a)"
    unfolding exec_sem_post_def Let_def
    by (intro agree_intros same_on_set_semaphore adv) (simp add: permits)
  show "agree L (exec_sem_wait p s step a) (exec_sem_wait p t step a)"
  proof (cases "mlookup (st_semaphores s) (a_semaphore a)")
    case s: (Some x)
    show ?thesis
    proof (cases "mlookup (st_semaphores t) (a_semaphore a)")
      case (Some y)
      have "permits x = permits y" if "Permits (a_semaphore a) \<in> L"
        using permits [OF that] s Some by (simp add: mget_def)
      then show ?thesis
        using s Some
        by (simp add: exec_sem_wait_def Let_def)
           (intro agree_intros, simp, intro same_on_set_semaphore [OF adv, simplified], simp)
    qed (simp add: exec_sem_wait_def Let_def)
  qed (simp add: exec_sem_wait_def Let_def)
qed

section \<open>Barriers\<close>

text \<open>Loops with related bodies lead related states to related states.\<close>

lemma res_fold_same:
  assumes "same_on L s t" "res_fold f xs s = Inr s'" "res_fold g xs t = Inr t'"
    and "\<And>x s t s' t'. x \<in> set xs \<Longrightarrow> same_on L s t \<Longrightarrow> f x s = Inr s' \<Longrightarrow> g x t = Inr t' \<Longrightarrow>
      same_on L s' t'"
  shows "same_on L s' t'"
  using assms
proof (induction xs arbitrary: s t)
  case (Cons x xs)
  then obtain s1 t1 where "f x s = Inr s1" "g x t = Inr t1" "res_fold f xs s1 = Inr s'"
    "res_fold g xs t1 = Inr t'"
    by (auto simp: res_simps)
  then show ?case using Cons.IH [of s1 t1] Cons.prems by (metis list.set_intros)
qed simp

lemma same_release_participant:
  assumes "same_on L s t" "release_participant p a k c x s = Inr s'"
    "release_participant p a k d x t = Inr t'"
  shows "same_on L s' t'"
proof -
  have "s' = advance_pc p (join_clock s x c) x" "t' = advance_pc p (join_clock t x d) x"
    using assms(2,3) by (simp_all add: release_participant_def res_simps)
  then show ?thesis using assms(1) by (simp add: same_intros)
qed

lemma agree_barrier:
  assumes "same_on L s t" "Arrived (a_barrier a) \<in> L"
  shows "agree L (exec_barrier p s step a) (exec_barrier p t step a)"
proof (cases "mlookup (st_barriers s) (a_barrier a)")
  case None
  then show ?thesis by (simp add: exec_barrier_def Let_def)
next
  case (Some b)
  then obtain c where c: "mlookup (st_barriers t) (a_barrier a) = Some c"
    and bc: "parties c = parties b" "arrivals c = arrivals b"
    using same_onD [OF assms]
    by (cases "mlookup (st_barriers t) (a_barrier a)") (auto simp: barrier_view_def)
  define b1 where "b1 = b\<lparr>arrivals := oinsert (s_thread step) (arrivals b),
      arrival_releases := vc_join (arrival_releases b) (st_clock s ! s_thread step)\<rparr>"
  define c1 where "c1 = c\<lparr>arrivals := oinsert (s_thread step) (arrivals c),
      arrival_releases := vc_join (arrival_releases c) (st_clock t ! s_thread step)\<rparr>"
  have bc1: "parties c1 = parties b1" "arrivals c1 = arrivals b1"
    by (simp_all add: b1_def c1_def bc)
  have arrive: "same_on L (s\<lparr>st_barriers := mupdate (a_barrier a) b1 (st_barriers s)\<rparr>)
      (t\<lparr>st_barriers := mupdate (a_barrier a) c1 (st_barriers t)\<rparr>)"
    by (rule same_on_set_barrier) (simp_all add: assms(1) bc1)
  show ?thesis
    unfolding exec_barrier_def Let_def Some c option.case
    unfolding b1_def [symmetric] c1_def [symmetric]
    unfolding bc bc1
  proof (intro agree_intros)
    show "same_on L (advance_pc p s (s_thread step)) (advance_pc p t (s_thread step))"
      by (rule same_on_thread(1) [OF assms(1)])
    fix s' t'
    assume "res_fold (release_participant p a (parties b1) (arrival_releases b1))
        (mkeys (arrivals b1)) (s\<lparr>st_barriers := mupdate (a_barrier a) b1 (st_barriers s)\<rparr>) = Inr s'"
      and "res_fold (release_participant p a (parties b1) (arrival_releases c1))
        (mkeys (arrivals b1)) (t\<lparr>st_barriers := mupdate (a_barrier a) c1 (st_barriers t)\<rparr>) = Inr t'"
    then have "same_on L s' t'" by (rule res_fold_same [OF arrive _ _ same_release_participant])
    then show "same_on L (s'\<lparr>st_barriers := mupdate (a_barrier a)
           (b1\<lparr>arrivals := mempty, arrival_releases := mempty,
               generation := Suc (generation b1)\<rparr>) (st_barriers s')\<rparr>)
        (t'\<lparr>st_barriers := mupdate (a_barrier a)
           (c1\<lparr>arrivals := mempty, arrival_releases := mempty,
               generation := Suc (generation c1)\<rparr>) (st_barriers t')\<rparr>)"
      by (rule same_on_set_barrier) (simp_all add: bc1)
  qed (rule arrive)
qed

section \<open>Condition variables\<close>

lemma same_wake_waiter:
  assumes "same_on L s t" "Control w \<in> L" "wake_waiter p u w s = Inr s'" "wake_waiter p u w t = Inr t'"
  shows "same_on L s' t'"
proof -
  define a where "a = next_action p s w"
  define s1 where "s1 = join_clock (set_phase s w Woken) w (st_clock s ! u)"
  define t1 where "t1 = join_clock (set_phase t w Woken) w (st_clock t ! u)"
  have "same_on L s1 t1" using assms(1) by (simp add: s1_def t1_def same_intros)
  moreover have "(if a_kind a = TimedWait then write_register s1 w (Some (value_or (a_destination a) 0)) 1
      else Inr s1) = Inr s'"
    using assms(3) unfolding wake_waiter_def Let_def a_def s1_def by (simp only: res_simps)
  moreover have "(if a_kind a = TimedWait then write_register t1 w (Some (value_or (a_destination a) 0)) 1
      else Inr t1) = Inr t'"
    using assms(4) unfolding wake_waiter_def Let_def a_def t1_def same_registers(3) [OF assms(1,2)]
    by (simp only: res_simps)
  ultimately show ?thesis by (auto split: if_splits intro: same_on_write_register)
qed

lemma agree_wakes:
  assumes "same_on L s t" "Waiters (a_condition a) \<in> L"
    and woken: "\<And>w. w \<in> set (mget [] (st_waiters s) (a_condition a)) \<Longrightarrow> Control w \<in> L"
  shows "agree L (exec_signal p s step a) (exec_signal p t step a)"
    "agree L (exec_broadcast p s step a) (exec_broadcast p t step a)"
proof -
  have adv: "same_on L (advance_pc p s u) (advance_pc p t u)" for u by (rule same_on_thread(1) [OF assms(1)])
  have waiters: "mget [] (st_waiters (advance_pc p s u)) (a_condition a) = mget [] (st_waiters s) (a_condition a)"
      "mget [] (st_waiters (advance_pc p t u)) (a_condition a) = mget [] (st_waiters s) (a_condition a)" for u
    using same_reads(5) [OF assms(1,2)] by (simp_all add: advance_pc_def)
  have set: "same_on L (set_waiters (advance_pc p s u) c ws) (set_waiters (advance_pc p t u) c ws)" for u c ws
    by (rule same_on_object(3) [OF adv])
  show "agree L (exec_signal p s step a) (exec_signal p t step a)"
    unfolding exec_signal_def Let_def waiters
  proof (cases "mget [] (st_waiters s) (a_condition a)")
    case (Cons w ws)
    then have "Control w \<in> L" using woken by simp
    then show "agree L
        (case mget [] (st_waiters s) (a_condition a) of
           [] \<Rightarrow> finish (set_waiters (advance_pc p s (s_thread step)) (a_condition a) [])
         | waiter # rest \<Rightarrow> res_bind (wake_waiter p (s_thread step) waiter
             (set_waiters (advance_pc p s (s_thread step)) (a_condition a) rest)) finish)
        (case mget [] (st_waiters s) (a_condition a) of
           [] \<Rightarrow> finish (set_waiters (advance_pc p t (s_thread step)) (a_condition a) [])
         | waiter # rest \<Rightarrow> res_bind (wake_waiter p (s_thread step) waiter
             (set_waiters (advance_pc p t (s_thread step)) (a_condition a) rest)) finish)"
      unfolding Cons list.case
      by (intro agree_intros) (rule same_wake_waiter [OF set])
  qed (simp add: agree_finish set)
  show "agree L (exec_broadcast p s step a) (exec_broadcast p t step a)"
    unfolding exec_broadcast_def Let_def waiters
    by (intro agree_intros) (erule (1) res_fold_same [OF set], blast intro: same_wake_waiter woken)
qed

lemma agree_wait:
  assumes "same_on L s t" "Control (s_thread step) \<in> L" "Owner (a_mutex a) \<in> L"
    "st_phase s ! s_thread step = Woken \<or> Waiters (a_condition a) \<in> L"
  shows "agree L (exec_wait p s step a) (exec_wait p t step a)"
proof -
  have rel: "same_on L (release_mutex s u m) (release_mutex t u m)" for u m
    by (rule same_on_object(2) [OF assms(1)])
  note phase = same_reads(2) [OF assms(1,2)] and owner = same_reads(4) [OF assms(1,3)]
  have owns: "owns_mutex s u (a_mutex a) = owns_mutex t u (a_mutex a)" for u
    by (simp add: owns_mutex_def owner)
  show ?thesis
  proof (cases "st_phase s ! s_thread step = Woken")
    case True
    then show ?thesis
      unfolding exec_wait_def Let_def phase owner
      by (simp, intro agree_intros same_intros assms)
  next
    case False
    then have "Waiters (a_condition a) \<in> L" using assms(4) by simp
    note waiters = same_reads(5) [OF assms(1) this] same_reads(5) [OF rel this]
    show ?thesis
      unfolding exec_wait_def Let_def phase owner owns remove_waiter_def insert_waiter_def waiters
      by (intro agree_intros same_intros assms)
        (auto simp: res_simps intro!: same_intros assms rel
          intro: same_on_write_register [OF same_on_thread(4)])
  qed
qed

section \<open>Memory\<close>

lemma same_read_plain:
  assumes "same_on L s t" "Buffered u \<in> L" "Pending u x \<in> L" "Cell x \<in> L"
  shows "read_plain_value s u x = read_plain_value t u x"
  unfolding read_plain_value_def Let_def same_shapeD [OF assms(1)] same_reads(7) [OF assms(1,2)]
    same_reads(8) [OF assms(1,3)] same_reads(6) [OF assms(1,4)] ..

lemma agree_commit:
  assumes "same_on L s t"
  shows "agree L (commit_store s step x v) (commit_store t step x v)"
  unfolding commit_store_def Let_def
  by (intro agree_intros) (simp add: same_intros assms)

lemma agree_atomics:
  assumes "same_on L s t" "a_address a \<noteq> [] \<Longrightarrow> Cell (a_address a) \<in> L" "Control (s_thread step) \<in> L"
  shows "agree L (exec_atomic_load p s step a) (exec_atomic_load p t step a)"
    "agree L (exec_atomic_store p s step a) (exec_atomic_store p t step a)"
    "agree L (exec_atomic_rmw p s step a) (exec_atomic_rmw p t step a)"
    "agree L (exec_cas p s step a) (exec_cas p t step a)"
    "Buffered (s_thread step) \<in> L \<Longrightarrow> range (Pending (s_thread step)) \<subseteq> L \<Longrightarrow>
     agree L (exec_read p s step a) (exec_read p t step a)"
proof -
  have adv: "same_on L (advance_pc p s u) (advance_pc p t u)" for u by (rule same_on_thread(1) [OF assms(1)])
  have touch: "same_on L (touch_value (advance_pc p s u) x) (touch_value (advance_pc p t u) x)" for u x
    using adv by simp
  have clk: "same_on L (join_clock (touch_atomic_clock (touch_value (advance_pc p s u) x) x) u c)
      (join_clock (touch_atomic_clock (touch_value (advance_pc p t u) x) x) u d)" for u x c d
    using adv by simp
  note wr = same_on_write_register [OF clk]
  note regs = same_registers [OF adv assms(3)] same_registers [OF touch assms(3)]
  have "agree L (exec_atomic_load p s step a) (exec_atomic_load p t step a) \<and>
    agree L (exec_atomic_store p s step a) (exec_atomic_store p t step a) \<and>
    agree L (exec_atomic_rmw p s step a) (exec_atomic_rmw p t step a) \<and>
    agree L (exec_cas p s step a) (exec_cas p t step a) \<and>
    (Buffered (s_thread step) \<in> L \<longrightarrow> range (Pending (s_thread step)) \<subseteq> L \<longrightarrow>
     agree L (exec_read p s step a) (exec_read p t step a))"
  proof (cases "a_address a = []")
    case True
    then show ?thesis
      by (simp add: exec_atomic_load_def exec_atomic_store_def exec_atomic_rmw_def exec_cas_def
          exec_read_def Let_def agree_finish adv)
  next
    case False
    note cell = assms(2) [OF False]
    note here = same_reads(6) [OF touch cell]
    have "agree L (exec_atomic_load p s step a) (exec_atomic_load p t step a)"
      unfolding exec_atomic_load_def Let_def here
      by (intro agree_intros adv) (simp, erule (1) wr)
    moreover have "agree L (exec_atomic_store p s step a) (exec_atomic_store p t step a)"
      unfolding exec_atomic_store_def Let_def regs
      by (intro agree_intros adv) (simp add: same_intros adv)
    moreover have "agree L (exec_atomic_rmw p s step a) (exec_atomic_rmw p t step a)"
      unfolding exec_atomic_rmw_def Let_def here regs
      by (intro agree_intros adv) (simp, intro same_intros, erule (1) wr)
    moreover have "agree L (exec_cas p s step a) (exec_cas p t step a)"
      unfolding exec_cas_def Let_def here regs
      by (intro agree_intros adv) (auto intro: same_intros wr)
    moreover have "agree L (exec_read p s step a) (exec_read p t step a)" if "Buffered (s_thread step) \<in> L"
      "range (Pending (s_thread step)) \<subseteq> L"
      unfolding exec_read_def Let_def same_read_plain [OF adv that(1) subsetD [OF that(2) rangeI] cell]
      by (intro agree_intros adv) (simp, erule (1) same_on_write_register [OF adv])
    ultimately show ?thesis by blast
  qed
  then show "agree L (exec_atomic_load p s step a) (exec_atomic_load p t step a)"
    "agree L (exec_atomic_store p s step a) (exec_atomic_store p t step a)"
    "agree L (exec_atomic_rmw p s step a) (exec_atomic_rmw p t step a)"
    "agree L (exec_cas p s step a) (exec_cas p t step a)"
    "Buffered (s_thread step) \<in> L \<Longrightarrow> range (Pending (s_thread step)) \<subseteq> L \<Longrightarrow>
     agree L (exec_read p s step a) (exec_read p t step a)"
    by blast+
qed

lemma agree_write:
  assumes "same_on L s t" "Control (s_thread step) \<in> L" "Buffered (s_thread step) \<in> L"
    "range (Pending (s_thread step)) \<subseteq> L"
  shows "agree L (exec_write p s step a) (exec_write p t step a)"
proof -
  have adv: "same_on L (advance_pc p s u) (advance_pc p t u)" for u by (rule same_on_thread(1) [OF assms(1)])
  note store = same_reads(7) [OF adv assms(3)]
  note queue = same_reads(8) [OF adv subsetD [OF assms(4) rangeI]]
  note unfolds = exec_write_def Let_def same_registers [OF adv assms(2)] same_shapeD [OF adv]
  show ?thesis
  proof (cases "st_model (advance_pc p t (s_thread step))")
    case SC
    show ?thesis unfolding unfolds SC memory_model.case by (intro agree_if agree_bind_same agree_finish agree_commit adv)
  next
    case TSO
    show ?thesis
      unfolding unfolds TSO memory_model.case store
      by (intro agree_if agree_bind_same agree_finish adv same_on_thread(7) [OF adv])
  next
    case PSO
    show ?thesis
      unfolding unfolds PSO memory_model.case mget_def queue
      by (intro agree_if agree_bind_same agree_finish adv same_on_set_pso) (simp_all add: queue same_reads(8) [OF assms(1)])
  qed
qed

lemma agree_flush:
  assumes "same_on L s t"
    "st_model s = TSO \<Longrightarrow> Buffered (s_thread step) \<in> L"
    "\<And>i. st_model s \<noteq> TSO \<Longrightarrow> s_flush step = Some i \<Longrightarrow>
       i < length (st_flush_addresses s) \<Longrightarrow> Pending (s_thread step) (st_flush_addresses s ! i) \<in> L"
  shows "agree L (exec_flush s step) (exec_flush t step)"
proof (cases "st_model t = TSO")
  case True
  then have "Buffered (s_thread step) \<in> L" using assms(2) same_shapeD [OF assms(1)] by simp
  then show ?thesis
    unfolding exec_flush_def Let_def same_shapeD [OF assms(1)] same_reads(7) [OF assms(1)]
    using True same_reads(7) [OF assms(1)] same_on_thread(7) [OF assms(1)]
    by (auto intro!: agree_commit split: list.split)
next
  case False
  show ?thesis
  proof (cases "\<exists>i. s_flush step = Some i \<and> i < length (st_flush_addresses t)")
    case out: False
    then show ?thesis
      unfolding exec_flush_def Let_def same_shapeD [OF assms(1)]
      using False by (cases "s_flush step") simp_all
  next
    case True
    then obtain i where Some: "s_flush step = Some i" and i: "i < length (st_flush_addresses t)" by blast
    define x where "x = st_flush_addresses t ! i"
    have "Pending (s_thread step) x \<in> L" using assms(3) [OF _ Some] i False same_shapeD [OF assms(1)] by (simp add: x_def)
    note queue = same_reads(8) [OF assms(1) this]
    have commit: "agree L (commit_store (s\<lparr>st_pso_buffers := (st_pso_buffers s)[s_thread step := q]\<rparr>) step x v)
        (commit_store (t\<lparr>st_pso_buffers := (st_pso_buffers t)[s_thread step := q']\<rparr>) step x v)"
      if "\<And>y. Pending (s_thread step) y \<in> L \<Longrightarrow> mlookup q y = mlookup q' y" for q q' v
      by (rule agree_commit [OF same_on_set_pso [OF assms(1) that]])
    show ?thesis
      unfolding exec_flush_def Let_def same_shapeD [OF assms(1)] Some option.case x_def [symmetric] queue
      using False
      by (auto intro!: agree_guarded commit split: option.split list.split dest: same_reads(8) [OF assms(1)])
  qed
qed

section \<open>The whole step\<close>

text \<open>
  The locations that an action of a thread reads, for whether it is enabled and for what it does.
  A \<open>Wait\<close> whose thread was woken takes its mutex again and leaves the wait set. Neither a post
  nor a store that is buffered reads what it changes.
\<close>

definition thread_reads :: "nat \<Rightarrow> location set" where
  "thread_reads u = {Control u, Started u, Buffered u} \<union> range (Pending u)"

definition reads :: "program \<Rightarrow> exec_state \<Rightarrow> nat \<Rightarrow> action \<Rightarrow> location set" where
  "reads p s tid a =
     (if a_kind a = Flush
      then {Started tid} \<union> (if st_model s = TSO then {Buffered tid} else {Pending tid (a_address a)})
      else thread_reads tid \<union>
        (case a_kind a of
           Lock \<Rightarrow> {Owner (a_mutex a)} | TryLock \<Rightarrow> {Owner (a_mutex a)} | Unlock \<Rightarrow> {Owner (a_mutex a)}
         | RLock \<Rightarrow> {Writer (a_rwlock a), Reader (a_rwlock a) tid}
         | RUnlock \<Rightarrow> {Reader (a_rwlock a) tid}
         | WLock \<Rightarrow> insert (Writer (a_rwlock a)) (range (Reader (a_rwlock a)))
         | WUnlock \<Rightarrow> insert (Writer (a_rwlock a)) (range (Reader (a_rwlock a)))
         | Upgrade \<Rightarrow> insert (Writer (a_rwlock a)) (range (Reader (a_rwlock a)))
         | Downgrade \<Rightarrow> insert (Writer (a_rwlock a)) (range (Reader (a_rwlock a)))
         | SemWait \<Rightarrow> {Permits (a_semaphore a)}
         | BarrierWait \<Rightarrow> {Arrived (a_barrier a)}
         | Join \<Rightarrow> if join_target_is_invalid p tid a then {} else thread_reads (a_target a)
         | Spawn \<Rightarrow> if spawn_target_is_invalid p tid a then {} else {Started (a_target a)}
         | Wait \<Rightarrow> insert (Owner (a_mutex a))
             (if st_phase s ! tid = Woken then {} else {Waiters (a_condition a)})
         | TimedWait \<Rightarrow> insert (Owner (a_mutex a))
             (if st_phase s ! tid = Woken then {} else {Waiters (a_condition a)})
         | Signal \<Rightarrow> insert (Waiters (a_condition a))
             (Control ` set (mget [] (st_waiters s) (a_condition a)))
         | Broadcast \<Rightarrow> insert (Waiters (a_condition a))
             (Control ` set (mget [] (st_waiters s) (a_condition a)))
         | Read \<Rightarrow> if a_address a = [] then {} else {Cell (a_address a)}
         | AtomicLoad \<Rightarrow> if a_address a = [] then {} else {Cell (a_address a)}
         | AtomicStore \<Rightarrow> if a_address a = [] then {} else {Cell (a_address a)}
         | AtomicRmw \<Rightarrow> if a_address a = [] then {} else {Cell (a_address a)}
         | CompareExchange \<Rightarrow> if a_address a = [] then {} else {Cell (a_address a)}
         | _ \<Rightarrow> {}))"

lemma agree_perform:
  assumes "same_on L s t" "reads p s (s_thread step) a \<subseteq> L" "a_kind a \<noteq> Flush \<or> L = UNIV"
  shows "agree L (perform_action p s step a) (perform_action p t step a)"
proof -
  have own: "Control (s_thread step) \<in> L" "Buffered (s_thread step) \<in> L"
      "range (Pending (s_thread step)) \<subseteq> L"
    using assms(2,3) by (auto simp: reads_def thread_reads_def split: if_splits)
  have flush: "agree L (exec_flush s step) (exec_flush t step)" if "a_kind a = Flush"
    using that assms(3) by (intro agree_flush [OF assms(1)]) simp_all
  note object = assms(2) [unfolded reads_def]
  show ?thesis
    using object own flush agree_guarded agree_local [OF assms(1)] agree_mutex [OF assms(1)]
      agree_threads [OF assms(1)] agree_rwlock [OF assms(1)] agree_sem [OF assms(1)]
      agree_barrier [OF assms(1)] agree_wakes [OF assms(1)] agree_wait [OF assms(1) own(1)]
      agree_atomics [OF assms(1) _ own(1)] agree_write [OF assms(1) own]
    by (cases "a_kind a")
      (simp_all add: perform_action_def image_subset_iff split: if_splits)
qed

lemma reads_begin_step [simp]: "reads p (begin_step s x) tid a = reads p s tid a"
  by (simp add: reads_def cong: action_kind.case_cong)

text \<open>The action that a step performs.\<close>

definition step_action :: "program \<Rightarrow> exec_state \<Rightarrow> schedule_step \<Rightarrow> action" where
  "step_action p s x =
     (if is_flush_step x then effective_action_for_step p s x else p ! s_thread x ! s_index x)"

abbreviation reads_by :: "program \<Rightarrow> exec_state \<Rightarrow> schedule_step \<Rightarrow> location set" where
  "reads_by p s x \<equiv> reads p s (s_thread x) (step_action p s x)"

lemma same_flush_action:
  assumes "same_on L s t" "st_model s = TSO \<Longrightarrow> Buffered (s_thread x) \<in> L" "is_flush_step x"
  shows "effective_action_for_step p s x = effective_action_for_step p t x"
proof (cases "st_model s = TSO")
  case True
  note buffer = same_reads(7) [OF assms(1) assms(2) [OF True]]
  show ?thesis
    unfolding effective_action_for_step_def same_shapeD [OF assms(1)] buffer using assms(3) by simp
next
  case False
  then show ?thesis
    unfolding effective_action_for_step_def same_shapeD [OF assms(1)] using assms(3) by simp
qed

lemma agree_execute_on:
  assumes "same_on L s t" "reads_by p s x \<subseteq> L" "is_flush_step x \<or> a_kind (p ! s_thread x ! s_index x) \<noteq> Flush \<or> L = UNIV"
  shows "agree L (execute_enabled_step p s x) (execute_enabled_step p t x)"
proof -
  have started: "same_on L (begin_step s x) (begin_step t x)" using assms(1) by simp
  show ?thesis
  proof (cases "is_flush_step x")
    case True
    have flush: "a_kind (effective_action_for_step p s x) = Flush" for s
      by (rule effective_flush_kind [OF True])
    have own: "st_model s = TSO \<Longrightarrow> Buffered (s_thread x) \<in> L"
      "st_model s \<noteq> TSO \<Longrightarrow> Pending (s_thread x) (a_address (effective_action_for_step p s x)) \<in> L"
      using assms(2) True by (simp_all add: reads_def step_action_def flush)
    have "agree L (exec_flush (begin_step s x) x) (exec_flush (begin_step t x) x)"
    proof (rule agree_flush [OF started])
      fix i
      assume "st_model (begin_step s x) \<noteq> TSO" "s_flush x = Some i"
        "i < length (st_flush_addresses (begin_step s x))"
      with own(2) True show "Pending (s_thread x) (st_flush_addresses (begin_step s x) ! i) \<in> L"
        by (simp add: effective_action_for_step_def flush_action_for_def)
    qed (use own in simp)
    then show ?thesis
      using True by (simp add: execute_enabled_step_def Let_def perform_action_def flush agree_guarded)
  next
    case False
    have "reads p (begin_step s x) (s_thread x) (p ! s_thread x ! s_index x) \<subseteq> L"
      using assms(2) False by (simp add: step_action_def)
    moreover have "a_kind (p ! s_thread x ! s_index x) \<noteq> Flush \<or> L = UNIV" using assms(3) False by blast
    ultimately have "agree L (perform_action p (begin_step s x) x (p ! s_thread x ! s_index x))
        (perform_action p (begin_step t x) x (p ! s_thread x ! s_index x))"
      by (rule agree_perform [OF started])
    then show ?thesis
      using False unfolding execute_enabled_step_def Let_def by (simp only: if_False) (intro agree_guarded)
  qed
qed

text \<open>States of equal behaviour stay so.\<close>

lemma agree_execute:
  assumes "sim s t" "execute_enabled_step p s x = Inr (s', r)" "execute_enabled_step p t x = Inr (t', q)"
  shows "sim s' t'" "same_kind r q"
  using agree_execute_on [of UNIV s t p x] assms unfolding sim_same_on agree_def by auto

end
