(* ===== verification/Lasso.thy ===== *)
theory Lasso
  imports Bisimulation
begin

text \<open>
  Why a repeated fingerprint is a proof of non-termination: the cycle of a lasso can be
  executed again and again. The locale states the contract (a step relation, a relation that
  is a bisimulation on states with budget left) and pumps a cycle; the interpretation
  instantiates it with the interpreter, equality of behaviour and the budget below which no
  counter of the implementation overflows.
\<close>

section \<open>Pumping a cycle\<close>

locale budgeted_bisimulation =
  fixes step :: "'l \<Rightarrow> 's \<Rightarrow> 's option" and related :: "'s \<Rightarrow> 's \<Rightarrow> bool"
    and budget :: "nat \<Rightarrow> 's \<Rightarrow> bool"
  assumes related_refl: "related s s"
    and related_trans: "related s t \<Longrightarrow> related t u \<Longrightarrow> related s u"
    and bisimulates: "related s t \<Longrightarrow> step x s = Some s' \<Longrightarrow> budget (Suc n) t \<Longrightarrow>
        \<exists>t'. step x t = Some t' \<and> related s' t' \<and> budget n t'"
begin

fun path :: "'l list \<Rightarrow> 's \<Rightarrow> 's option" where
  "path [] s = Some s"
| "path (x # xs) s = (case step x s of None \<Rightarrow> None | Some s' \<Rightarrow> path xs s')"

lemma path_append:
  "path (xs @ ys) s = (case path xs s of None \<Rightarrow> None | Some t \<Rightarrow> path ys t)"
  by (induction xs arbitrary: s) (auto split: option.splits)

lemma path_bisimulates:
  "related s t \<Longrightarrow> path xs s = Some s' \<Longrightarrow> budget (length xs + n) t \<Longrightarrow>
   \<exists>t'. path xs t = Some t' \<and> related s' t' \<and> budget n t'"
proof (induction xs arbitrary: s t)
  case (Cons x xs)
  then obtain s1 where s1: "step x s = Some s1" "path xs s1 = Some s'"
    by (auto split: option.splits)
  then obtain t1 where "step x t = Some t1" "related s1 t1" "budget (length xs + n) t1"
    using bisimulates [OF Cons.prems(1) s1(1), of "length xs + n"] Cons.prems(3) by auto
  then show ?case using Cons.IH [of s1 t1] s1 by auto
qed auto

lemma pump:
  assumes "path cycle s = Some s'" "related s s'"
  shows "related s t \<Longrightarrow> budget (k * length cycle + n) t \<Longrightarrow>
    \<exists>t'. path (concat (replicate k cycle)) t = Some t' \<and> related s t' \<and> budget n t'"
proof (induction k arbitrary: t)
  case (Suc k)
  have "budget (length cycle + (k * length cycle + n)) t" using Suc.prems(2) by (simp add: add.assoc)
  then obtain t1 where t1: "path cycle t = Some t1" "related s' t1" "budget (k * length cycle + n) t1"
    using path_bisimulates [OF Suc.prems(1) assms(1)] by blast
  then have "related s t1" using related_trans [OF assms(2)] by blast
  then obtain t' where "path (concat (replicate k cycle)) t1 = Some t'" "related s t'" "budget n t'"
    using Suc.IH t1(3) by blast
  then show ?case using t1(1) by (auto simp: path_append)
qed auto

end

section \<open>The interpreter pumps\<close>

definition run_step :: "program \<Rightarrow> schedule_step \<Rightarrow> exec_state \<Rightarrow> exec_state option" where
  "run_step p step s = run p [step] s"

text \<open>Room for \<open>n\<close> more steps in a well-formed state of a program with valid registers.\<close>

definition room_for :: "program \<Rightarrow> nat \<Rightarrow> exec_state \<Rightarrow> bool" where
  "room_for p n s \<longleftrightarrow>
     indexable p \<and> registers_ok p \<and> wf_state p s \<and>
     counters_below (length (st_schedule s)) s \<and> length (st_schedule s) + n \<le> counter_limit"

lemma run_step_iff: "run_step p x s = Some s' \<longleftrightarrow> step_to p s x s'"
  by (simp only: run_step_def run_single)

lemma sim_step_to:
  assumes "sim s t" "step_to p s x s'" "room_for p (Suc n) t"
  shows "\<exists>t'. step_to p t x t' \<and> sim s' t' \<and> room_for p n t'"
proof -
  note R = assms(3) [unfolded room_for_def]
  obtain r where ex: "x \<in> set (enabled_steps p s)" "execute_enabled_step p s x = Inr (s', r)"
    "\<not> step_terminal r"
    using assms(2) by (auto simp: step_to_def)
  have en: "x \<in> set (enabled_steps p t)" using ex(1) sim_enabled_steps [OF assms(1)] by simp
  have "completes (execute_enabled_step p t x)"
    using R by (intro execute_enabled_step_completes [OF _ _ _ en]) auto
  then obtain t' q where t': "execute_enabled_step p t x = Inr (t', q)"
    by (auto simp: completes_def)
  have sim: "sim s' t'" "step_terminal r = step_terminal q"
    using agree_execute [OF assms(1) ex(2) t'] same_kind_terminal by auto
  have "step_to p t x t'" using en t' ex(3) sim(2) by (simp add: step_to_def)
  moreover have "room_for p n t'"
    using R wf_execute_enabled_step [OF _ _ en t'] execute_enabled_step_parts [OF t']
    by (simp add: room_for_def)
  ultimately show ?thesis using sim(1) by blast
qed

interpretation lasso: budgeted_bisimulation "run_step p" sim "room_for p" for p
proof
  show "sim s s" for s by simp
  show "sim s t \<Longrightarrow> sim t u \<Longrightarrow> sim s u" for s t u by (rule sim_trans)
  show "\<exists>t'. run_step p x t = Some t' \<and> sim s' t' \<and> room_for p n t'"
    if "sim s t" "run_step p x s = Some s'" "room_for p (Suc n) t" for s t x s' n
    using sim_step_to that unfolding run_step_iff by blast
qed

lemma path_run: "lasso.path p xs s = run p xs s"
proof (induction xs arbitrary: s)
  case (Cons x xs)
  have "run p (x # xs) s = (case run_step p x s of None \<Rightarrow> None | Some u \<Rightarrow> run p xs u)"
    using run_append [of p "[x]" xs s] unfolding run_step_def by (simp only: append_Cons append_Nil)
  then show ?case unfolding lasso.path.simps Cons.IH by simp
qed simp

text \<open>Two states of one program's executions with one fingerprint are related.\<close>

lemma sim_of_fingerprint:
  assumes "wf_state p s" "wf_state p t" "st_model s = st_model t"
    and "parties_kept u s" "parties_kept u t" "machine_sized s" "machine_sized t"
    and "behavioral_state_fingerprint s = behavioral_state_fingerprint t"
  shows "sim s t"
proof (rule sim_if_behavior)
  show "behavior_of s = behavior_of t"
    using fingerprint_exact_when_sized [OF assms(6,7)] assms(8) by simp
  show "map_option parties \<circ> mlookup (st_barriers s) = map_option parties \<circ> mlookup (st_barriers t)"
    using assms(4,5) by (simp add: parties_kept_def fun_eq_iff)
  show "st_pso_buffers s = st_pso_buffers t" if "st_model s \<noteq> PSO"
    using wf_stateD(1,7) [OF assms(1)] wf_stateD(1,7) [OF assms(2)] assms(3) that
    by (intro nth_equalityI) (simp_all add: shape_ok_def buffers_ok_def)
  show "st_flush_addresses s = st_flush_addresses t"
    using wf_stateD(1) [OF assms(1)] wf_stateD(1) [OF assms(2)] by (simp add: shape_ok_def)
qed

lemma lasso_pumps:
  assumes prog: "indexable p" "registers_ok p"
    and stem: "run p stem (initial_state p m) = Some s"
    and cycle: "run p cycle s = Some s'"
    and same: "behavioral_state_fingerprint s' = behavioral_state_fingerprint s"
    and sized: "machine_sized s" "machine_sized s'"
    and room: "length stem + k * length cycle \<le> counter_limit"
  shows "\<exists>t. run p (stem @ concat (replicate k cycle)) (initial_state p m) = Some t \<and> sim s t"
proof -
  note stem_parts = run_parts [OF stem] and cycle_parts = run_parts [OF cycle]
  have wf: "wf_state p s" "wf_state p s'"
    using wf_run [OF prog(1) wf_initial_state stem] wf_run [OF prog(1) _ cycle] by auto
  have "parties_kept (initial_state p m) s'"
    using stem_parts(4) cycle_parts(4) by (simp add: parties_kept_def)
  then have related: "sim s s'"
    using stem_parts cycle_parts wf sized same
    by (intro sim_of_fingerprint [of p s s' "initial_state p m"]) simp_all
  have "room_for p (k * length cycle + 0) s"
    using prog wf(1) stem_parts counters_initial room by (simp add: room_for_def initial_state_pc)
  then obtain t where "run p (concat (replicate k cycle)) s = Some t" "sim s t"
    using lasso.pump [of p cycle s s' s k 0] cycle related unfolding path_run by auto
  then show ?thesis using stem by (auto simp: run_append)
qed

end
