(* ===== verification/Explorer_Naive.thy ===== *)
theory Explorer_Naive
  imports Replay Lasso
begin

text \<open>
  The naive depth-first explorer (src/src/model/checker.cpp, \<open>dfs\<close> and
  \<open>collect_naive_schedules_dfs\<close>). The path-local history is threaded through and restored
  after each child. Recursion depth is bounded by a fuel argument; the step bound limits the
  depth, and \<open>remaining_steps\<close> is enough fuel.
\<close>

section \<open>The explorer\<close>

text \<open>The destructor of \<open>PathHistoryRestore\<close>: erase what the observation inserted.\<close>

definition restore_history :: "bool \<Rightarrow> exec_state \<Rightarrow> state_history \<Rightarrow> state_history" where
  "restore_history detect s history =
     (if detect then mdelete (behavioral_state_fingerprint s) history else history)"

definition record_leaf :: "program \<Rightarrow> exec_state \<Rightarrow> check_result \<Rightarrow> check_result res" where
  "record_leaf p s result =
     (let r1 = count_schedule result in
      if \<not> all_finished p s \<and> first_deadlock r1 = None
      then res_bind (make_deadlock_report p s) (\<lambda>d. Inr (r1\<lparr>first_deadlock := Some d\<rparr>))
      else Inr r1)"

fun dfs :: "nat \<Rightarrow> program \<Rightarrow> nat \<Rightarrow> nat \<Rightarrow> bool \<Rightarrow> exec_state \<Rightarrow> check_result \<times> state_history \<Rightarrow>
    (check_result \<times> state_history) res"
and dfs_children :: "nat \<Rightarrow> program \<Rightarrow> nat \<Rightarrow> nat \<Rightarrow> bool \<Rightarrow> exec_state \<Rightarrow> schedule_step list \<Rightarrow>
    check_result \<times> state_history \<Rightarrow> (check_result \<times> state_history) res"
where
  "dfs 0 p max_schedules step_bound detect s rh = Inl Out_Of_Fuel"
| "dfs (Suc fuel) p max_schedules step_bound detect s rh =
     (if schedules_explored (fst rh) \<ge> max_schedules then Inr rh
      else if enabled_steps p s = []
      then res_bind (record_leaf p s (fst rh)) (\<lambda>r. Inr (r, snd rh))
      else dfs_children fuel p max_schedules step_bound detect s (enabled_steps p s) rh)"
| "dfs_children fuel p max_schedules step_bound detect s [] rh = Inr rh"
| "dfs_children fuel p max_schedules step_bound detect s (x # xs) rh =
     (if step_bound_reached s (s_thread x) step_bound then
        (let r1 = record_bound_exceeded (fst rh) in
         if schedules_explored r1 \<ge> max_schedules then Inr (r1, snd rh)
         else dfs_children fuel p max_schedules step_bound detect s xs (r1, snd rh))
      else
        res_bind (execute_enabled_step p s x) (\<lambda>(s', report).
        let r1 = record_step_report report (fst rh) in
        res_bind
          (if step_terminal report then Inr (count_schedule r1, snd rh)
           else
             res_bind (observe detect s' (snd rh)) (\<lambda>(cycle, h1).
             case cycle of
               Some cycle_start \<Rightarrow>
                 res_bind (make_nontermination_report p (st_schedule s') cycle_start (st_model s'))
                   (\<lambda>nt. res_bind (record_nontermination nt r1) (\<lambda>r2. Inr (r2, h1)))
             | None \<Rightarrow>
                 res_bind (dfs fuel p max_schedules step_bound detect s' (r1, h1))
                   (\<lambda>(r2, h2). Inr (r2, restore_history detect s' h2))))
          (\<lambda>rh2. if schedules_explored (fst rh2) \<ge> max_schedules then Inr rh2
                 else dfs_children fuel p max_schedules step_bound detect s xs rh2)))"

text \<open>\<open>collect_naive_schedules_dfs\<close>: the same walk, keeping the schedules of the executions.\<close>

fun collect_dfs :: "nat \<Rightarrow> program \<Rightarrow> nat \<Rightarrow> nat \<Rightarrow> bool \<Rightarrow> exec_state \<Rightarrow>
    schedule list \<times> state_history \<Rightarrow> (schedule list \<times> state_history) res"
and collect_children :: "nat \<Rightarrow> program \<Rightarrow> nat \<Rightarrow> nat \<Rightarrow> bool \<Rightarrow> exec_state \<Rightarrow> schedule_step list \<Rightarrow>
    schedule list \<times> state_history \<Rightarrow> (schedule list \<times> state_history) res"
where
  "collect_dfs 0 p max_schedules step_bound detect s sh = Inl Out_Of_Fuel"
| "collect_dfs (Suc fuel) p max_schedules step_bound detect s sh =
     (if length (fst sh) \<ge> max_schedules then Inr sh
      else if enabled_steps p s = [] then Inr (fst sh @ [st_schedule s], snd sh)
      else collect_children fuel p max_schedules step_bound detect s (enabled_steps p s) sh)"
| "collect_children fuel p max_schedules step_bound detect s [] sh = Inr sh"
| "collect_children fuel p max_schedules step_bound detect s (x # xs) sh =
     (if step_bound_reached s (s_thread x) step_bound then
        (let ss = fst sh @ [st_schedule s @ [x]] in
         if length ss \<ge> max_schedules then Inr (ss, snd sh)
         else collect_children fuel p max_schedules step_bound detect s xs (ss, snd sh))
      else
        res_bind (execute_enabled_step p s x) (\<lambda>(s', report).
        res_bind
          (if step_terminal report then Inr (fst sh @ [st_schedule s'], snd sh)
           else
             res_bind (observe detect s' (snd sh)) (\<lambda>(cycle, h1).
             case cycle of
               Some cycle_start \<Rightarrow> Inr (fst sh @ [st_schedule s'], h1)
             | None \<Rightarrow>
                 res_bind (collect_dfs fuel p max_schedules step_bound detect s' (fst sh, h1))
                   (\<lambda>(ss, h2). Inr (ss, restore_history detect s' h2))))
          (\<lambda>sh2. if length (fst sh2) \<ge> max_schedules then Inr sh2
                 else collect_children fuel p max_schedules step_bound detect s xs sh2)))"

text \<open>Fuel that every execution below the step bound stays within.\<close>

definition depth_fuel :: "program \<Rightarrow> nat \<Rightarrow> nat" where
  "depth_fuel p step_bound = Suc (length p * step_bound)"

definition dfs_from_start ::
  "program \<Rightarrow> nat \<Rightarrow> nat \<Rightarrow> memory_model \<Rightarrow> check_result res" where
  "dfs_from_start p max_schedules step_bound m =
     (let s = initial_state p m in
      res_bind (dfs (depth_fuel p step_bound) p max_schedules step_bound
                  (requires_cycle_detection p) s (empty_result, initial_history p s))
        (\<lambda>(r, _). Inr (r\<lparr>exploration_capped := schedules_explored r \<ge> max_schedules\<rparr>)))"

definition collect_naive_schedules ::
  "program \<Rightarrow> nat \<Rightarrow> nat \<Rightarrow> memory_model \<Rightarrow> schedule list res" where
  "collect_naive_schedules p max_schedules step_bound m =
     (let s = initial_state p m in
      res_bind (collect_dfs (depth_fuel p step_bound) p max_schedules step_bound
                  (requires_cycle_detection p) s ([], initial_history p s))
        (\<lambda>(ss, _). Inr ss))"

section \<open>One child\<close>

text \<open>
  What the loop body does with one enabled step below the bound, as one relation, so that the
  inductions below have four cases: bounded, terminal, cycle and descent.
\<close>

lemma dfs_children_cases:
  assumes "dfs_children n p mx b d s (x # xs) (r, h) = Inr (r', h')"
  obtains
    (bounded) r1 where "step_bound_reached s (s_thread x) b" "r1 = record_bound_exceeded r"
      "if schedules_explored r1 \<ge> mx then (r', h') = (r1, h)
       else dfs_children n p mx b d s xs (r1, h) = Inr (r', h')"
  | (terminal) s' report r1 where "\<not> step_bound_reached s (s_thread x) b"
      "execute_enabled_step p s x = Inr (s', report)" "step_terminal report"
      "r1 = count_schedule (record_step_report report r)"
      "if schedules_explored r1 \<ge> mx then (r', h') = (r1, h)
       else dfs_children n p mx b d s xs (r1, h) = Inr (r', h')"
  | (cycle) s' report start h1 nt r1 where "\<not> step_bound_reached s (s_thread x) b"
      "execute_enabled_step p s x = Inr (s', report)" "\<not> step_terminal report"
      "observe d s' h = Inr (Some start, h1)"
      "make_nontermination_report p (st_schedule s') start (st_model s') = Inr nt"
      "record_nontermination nt (record_step_report report r) = Inr r1"
      "if schedules_explored r1 \<ge> mx then (r', h') = (r1, h1)
       else dfs_children n p mx b d s xs (r1, h1) = Inr (r', h')"
  | (descent) s' report h1 r1 h2 where "\<not> step_bound_reached s (s_thread x) b"
      "execute_enabled_step p s x = Inr (s', report)" "\<not> step_terminal report"
      "observe d s' h = Inr (None, h1)"
      "dfs n p mx b d s' (record_step_report report r, h1) = Inr (r1, h2)"
      "if schedules_explored r1 \<ge> mx then (r', h') = (r1, restore_history d s' h2)
       else dfs_children n p mx b d s xs (r1, restore_history d s' h2) = Inr (r', h')"
proof (cases "step_bound_reached s (s_thread x) b")
  case True
  then show ?thesis using assms by (intro bounded) (auto simp: Let_def split: if_splits)
next
  case False
  then obtain s' report where ex: "execute_enabled_step p s x = Inr (s', report)"
    using assms by (auto simp: res_simps)
  show ?thesis
  proof (cases "step_terminal report")
    case True
    then show ?thesis
      using assms False ex by (intro terminal) (auto simp: Let_def split: if_splits)
  next
    case nt: False
    then obtain c h1 where ob: "observe d s' h = Inr (c, h1)"
      using assms False ex by (auto simp: Let_def res_simps)
    show ?thesis
    proof (cases c)
      case None
      then show ?thesis
        using assms False ex nt ob
        by (auto simp: Let_def res_simps split: if_splits intro!: descent [OF False ex nt])
    next
      case (Some start)
      then show ?thesis
        using assms False ex nt ob
        by (auto simp: Let_def res_simps split: if_splits intro!: cycle [OF False ex nt])
    qed
  qed
qed

section \<open>Big-step semantics of the explorer\<close>

text \<open>
  The explorer without fuel and without a threaded history: each node is explored under the
  history of its own path. The executable explorer computes this relation, and leaves the
  history as it found it.
\<close>

inductive explores_node ::
    "program \<Rightarrow> nat \<Rightarrow> nat \<Rightarrow> bool \<Rightarrow> exec_state \<Rightarrow> state_history \<Rightarrow> check_result \<Rightarrow>
     check_result \<Rightarrow> bool"
  and explores_list ::
    "program \<Rightarrow> nat \<Rightarrow> nat \<Rightarrow> bool \<Rightarrow> exec_state \<Rightarrow> state_history \<Rightarrow> schedule_step list \<Rightarrow>
     check_result \<Rightarrow> check_result \<Rightarrow> bool"
  and explores_child ::
    "program \<Rightarrow> nat \<Rightarrow> nat \<Rightarrow> bool \<Rightarrow> exec_state \<Rightarrow> state_history \<Rightarrow> schedule_step \<Rightarrow>
     check_result \<Rightarrow> check_result \<Rightarrow> bool"
  for p :: program and mx :: nat and b :: nat and d :: bool
where
  capped: "mx \<le> schedules_explored r \<Longrightarrow> explores_node p mx b d s h r r"
| leaf: "schedules_explored r < mx \<Longrightarrow> enabled_steps p s = [] \<Longrightarrow> record_leaf p s r = Inr r' \<Longrightarrow>
    explores_node p mx b d s h r r'"
| inner: "schedules_explored r < mx \<Longrightarrow> enabled_steps p s \<noteq> [] \<Longrightarrow>
    explores_list p mx b d s h (enabled_steps p s) r r' \<Longrightarrow> explores_node p mx b d s h r r'"
| nil: "explores_list p mx b d s h [] r r"
| stop: "explores_child p mx b d s h x r r1 \<Longrightarrow> mx \<le> schedules_explored r1 \<Longrightarrow>
    explores_list p mx b d s h (x # xs) r r1"
| go: "explores_child p mx b d s h x r r1 \<Longrightarrow> schedules_explored r1 < mx \<Longrightarrow>
    explores_list p mx b d s h xs r1 r' \<Longrightarrow> explores_list p mx b d s h (x # xs) r r'"
| bounded: "step_bound_reached s (s_thread x) b \<Longrightarrow>
    explores_child p mx b d s h x r (record_bound_exceeded r)"
| terminal: "\<not> step_bound_reached s (s_thread x) b \<Longrightarrow>
    execute_enabled_step p s x = Inr (s', report) \<Longrightarrow> step_terminal report \<Longrightarrow>
    explores_child p mx b d s h x r (count_schedule (record_step_report report r))"
| cycle: "\<not> step_bound_reached s (s_thread x) b \<Longrightarrow>
    execute_enabled_step p s x = Inr (s', report) \<Longrightarrow> \<not> step_terminal report \<Longrightarrow>
    observe d s' h = Inr (Some start, h1) \<Longrightarrow>
    make_nontermination_report p (st_schedule s') start (st_model s') = Inr nt \<Longrightarrow>
    record_nontermination nt (record_step_report report r) = Inr r1 \<Longrightarrow>
    explores_child p mx b d s h x r r1"
| descent: "\<not> step_bound_reached s (s_thread x) b \<Longrightarrow>
    execute_enabled_step p s x = Inr (s', report) \<Longrightarrow> \<not> step_terminal report \<Longrightarrow>
    observe d s' h = Inr (None, h1) \<Longrightarrow>
    explores_node p mx b d s' h1 (record_step_report report r) r1 \<Longrightarrow>
    explores_child p mx b d s h x r r1"

lemma observe_None:
  "observe d s' h = Inr (None, h1) \<Longrightarrow> restore_history d s' h1 = h"
  by (cases d)
     (auto simp: observe_def observe_path_behavioral_state_def restore_history_def Let_def res_simps
        memplace_def intro: mdelete_absent split: option.splits)

lemma observe_Some: "observe d s' h = Inr (Some k, h1) \<Longrightarrow> h1 = h"
  by (cases d)
     (auto simp: observe_def observe_path_behavioral_state_def Let_def res_simps split: option.splits)

lemma dfs_explores:
  "dfs n p mx b d s (r, h) = Inr (r', h') \<Longrightarrow> h' = h \<and> explores_node p mx b d s h r r'"
proof (induction n arbitrary: s r h r' h')
  case (Suc n)
  have children: "h' = h \<and> explores_list p mx b d s h xs r r'"
    if "dfs_children n p mx b d s xs (r, h) = Inr (r', h')" for xs s r h r' h'
    using that
  proof (induction xs arbitrary: r)
    case Nil
    then show ?case by (auto intro: explores_node_explores_list_explores_child.nil)
  next
    case (Cons x xs)
    have after: "h' = h \<and> explores_list p mx b d s h (x # xs) r r'"
      if "explores_child p mx b d s h x r r1"
        "if schedules_explored r1 \<ge> mx then (r', h') = (r1, h)
         else dfs_children n p mx b d s xs (r1, h) = Inr (r', h')" for r1
      using that Cons.IH [of r1]
      by (auto split: if_splits intro: explores_node_explores_list_explores_child.stop
          explores_node_explores_list_explores_child.go)
    from Cons.prems show ?case
    proof (cases rule: dfs_children_cases)
      case (bounded r1)
      then show ?thesis
        using after explores_node_explores_list_explores_child.bounded by blast
    next
      case (terminal s' report r1)
      then show ?thesis
        using after explores_node_explores_list_explores_child.terminal by blast
    next
      case (cycle s' report start h1 nt r1)
      have "explores_child p mx b d s h x r r1"
        by (rule explores_node_explores_list_explores_child.cycle [OF cycle(1-6)])
      then show ?thesis using after cycle(7) unfolding observe_Some [OF cycle(4)] by blast
    next
      case (descent s' report h1 r1 h2)
      have rec: "h2 = h1" "explores_node p mx b d s' h1 (record_step_report report r) r1"
        using Suc.IH [OF descent(5)] by simp_all
      have "explores_child p mx b d s h x r r1"
        by (rule explores_node_explores_list_explores_child.descent [OF descent(1-4) rec(2)])
      then show ?thesis
        using after descent(6) unfolding rec(1) observe_None [OF descent(4)] by blast
    qed
  qed
  from Suc.prems consider "mx \<le> schedules_explored r" "r' = r" "h' = h"
    | "schedules_explored r < mx" "enabled_steps p s = []" "record_leaf p s r = Inr r'" "h' = h"
    | "schedules_explored r < mx" "enabled_steps p s \<noteq> []"
        "dfs_children n p mx b d s (enabled_steps p s) (r, h) = Inr (r', h')"
    by (auto simp: res_simps split: if_splits)
  then show ?case
  proof cases
    case 1
    then show ?thesis by (simp add: explores_node_explores_list_explores_child.capped)
  next
    case 2
    then show ?thesis by (simp add: explores_node_explores_list_explores_child.leaf)
  next
    case 3
    then show ?thesis
      using children [OF 3(3)] by (simp add: explores_node_explores_list_explores_child.inner)
  qed
qed simp

end
