(* ===== verification/Step_Reports.thy ===== *)
theory Step_Reports
  imports Step_Frames
begin

text \<open>
  What a step's report carries: the schedule executed so far, ending in the step, and the
  step as its endpoint. Replays rely on it: the schedule of a report is a schedule that
  reproduces it.
\<close>

definition report_ok :: "exec_state \<Rightarrow> schedule_step \<Rightarrow> step_report \<Rightarrow> bool" where
  "report_ok s step r \<longleftrightarrow>
     (\<forall>e. sr_error r = Some e \<longrightarrow> me_schedule e = st_schedule s \<and> me_endpoint e = step) \<and>
     (\<forall>f. sr_assertion r = Some f \<longrightarrow>
        af_schedule f = st_schedule s \<and> af_endpoint f = step \<and> af_value f = 0) \<and>
     (\<forall>c. sr_race r = Some c \<longrightarrow> r_schedule c = st_schedule s \<and> r_second c = step)"

lemma report_ok_no_report [simp]: "report_ok s step no_report"
  by (simp add: report_ok_def no_report_def)

lemma report_ok_spawned [simp]: "report_ok s step (no_report\<lparr>sr_spawned := x\<rparr>)"
  by (simp add: report_ok_def no_report_def)

lemma report_ok_error:
  "me_schedule e = st_schedule s \<Longrightarrow> me_endpoint e = step \<Longrightarrow>
   report_ok s step (no_report\<lparr>sr_error := Some e\<rparr>)"
  by (simp add: report_ok_def no_report_def)

lemma report_ok_assertion:
  "af_schedule f = st_schedule s \<Longrightarrow> af_endpoint f = step \<Longrightarrow> af_value f = 0 \<Longrightarrow>
   report_ok s step (no_report\<lparr>sr_assertion := Some f\<rparr>)"
  by (simp add: report_ok_def no_report_def)

lemma error_fields [simp]:
  "me_schedule (make_unlock_error a step sch s) = sch"
  "me_schedule (make_rwlock_mode_error a step sch) = sch"
  "me_schedule (make_rwlock_reentrancy_error a step sch) = sch"
  "me_schedule (make_join_error a step sch) = sch"
  "me_schedule (make_spawn_error p a step sch) = sch"
  "me_schedule (make_wait_error a step sch s) = sch"
  "me_schedule (make_branch_error a step sch) = sch"
  "me_schedule (make_barrier_error a k step sch) = sch"
  "me_endpoint (make_unlock_error a step sch s) = step"
  "me_endpoint (make_rwlock_mode_error a step sch) = step"
  "me_endpoint (make_rwlock_reentrancy_error a step sch) = step"
  "me_endpoint (make_join_error a step sch) = step"
  "me_endpoint (make_spawn_error p a step sch) = step"
  "me_endpoint (make_wait_error a step sch s) = step"
  "me_endpoint (make_branch_error a step sch) = step"
  "me_endpoint (make_barrier_error a k step sch) = step"
  by (simp_all add: make_unlock_error_def make_rwlock_mode_error_def
      make_rwlock_reentrancy_error_def make_join_error_def make_spawn_error_def
      make_wait_error_def make_branch_error_def make_barrier_error_def model_error_def)

text \<open>The races of an address name the current access as their second endpoint.\<close>

lemma first_mixed_race_fields:
  "first_mixed_race x others cur sch = Some c \<Longrightarrow>
   r_address c = x \<and> r_second c = m_endpoint cur \<and> r_schedule c = sch"
  by (auto simp: first_mixed_race_def make_race_report_def)

lemma last_write_race_fields:
  "last_write_race x ad cur sch = Some c \<Longrightarrow>
   r_address c = x \<and> r_second c = m_endpoint cur \<and> r_schedule c = sch"
  by (auto simp: last_write_race_def make_race_report_def split: option.splits if_splits)

lemma record_races:
  "snd (record_read x cur sch ad) = Some c \<Longrightarrow>
     r_address c = x \<and> r_second c = m_endpoint cur \<and> r_schedule c = sch"
  "snd (record_write x cur sch ad) = Some c \<Longrightarrow>
     r_address c = x \<and> r_second c = m_endpoint cur \<and> r_schedule c = sch"
  "snd (record_atomic x cur sch ad) = Some c \<Longrightarrow>
     r_address c = x \<and> r_second c = m_endpoint cur \<and> r_schedule c = sch"
  by (auto simp: record_read_def record_write_def record_atomic_def or_else_def
      make_race_report_def dest: first_mixed_race_fields last_write_race_fields
      split: option.splits)

lemma report_ok_race:
  assumes "f = record_read \<or> f = record_write \<or> f = record_atomic" "m_endpoint cur = step"
  shows "report_ok (fst (on_address f s x cur)) step
    (no_report\<lparr>sr_race := snd (on_address f s x cur)\<rparr>)"
proof -
  have "st_schedule (fst (on_address f s x cur)) = st_schedule s"
    by (simp add: on_address_def split: prod.split)
  moreover have "snd (on_address f s x cur) =
      snd (f x cur (st_schedule s) (mget empty_address_state (st_memory s) x))"
    by (simp add: on_address_def split: prod.split)
  ultimately show ?thesis
    using assms record_races [of x cur "st_schedule s"]
    by (auto simp: report_ok_def no_report_def)
qed

lemma access_now_endpoint [simp]: "m_endpoint (access_now s step at wr) = step"
  by (simp add: access_now_def)

lemma header_schedule: "header s = header t \<Longrightarrow> st_schedule s = st_schedule t"
  by (simp add: header_def)

lemma local_reports:
  assumes "exec_set p s step a = Inr (s', r) \<or> exec_branch p s step a = Inr (s', r) \<or>
    exec_assert p s step a = Inr (s', r) \<or> exec_local p s step = Inr (s', r) \<or>
    exec_lock p s step a = Inr (s', r) \<or> exec_try_lock p s step a = Inr (s', r) \<or>
    exec_unlock p s step a = Inr (s', r) \<or> exec_join p s step a = Inr (s', r) \<or>
    exec_spawn p s step a = Inr (s', r)"
  shows "report_ok s' step r"
  using assms
  by (elim disjE)
     (auto simp: exec_set_def exec_branch_def exec_assert_def exec_local_def exec_lock_def
        exec_try_lock_def exec_unlock_def exec_join_def exec_spawn_def Let_def res_simps
        finish_def finish_error_def set_pc_def normalize_pc_def
        intro!: report_ok_error report_ok_assertion split: option.splits if_splits)

lemma rwlock_reports:
  assumes "exec_rlock p s step a = Inr (s', r) \<or> exec_wlock p s step a = Inr (s', r) \<or>
    exec_upgrade p s step a = Inr (s', r) \<or> exec_runlock p s step a = Inr (s', r) \<or>
    exec_wunlock p s step a = Inr (s', r) \<or> exec_downgrade p s step a = Inr (s', r)"
  shows "report_ok s' step r"
  using assms
  by (elim disjE)
     (auto simp: exec_rlock_def exec_wlock_def exec_upgrade_def exec_runlock_def exec_wunlock_def
        exec_downgrade_def Let_def res_simps finish_def finish_error_def intro!: report_ok_error
        split: if_splits)

lemma sync_reports:
  assumes "exec_sem_post p s step a = Inr (s', r) \<or> exec_sem_wait p s step a = Inr (s', r) \<or>
    exec_barrier p s step a = Inr (s', r) \<or> exec_signal p s step a = Inr (s', r) \<or>
    exec_broadcast p s step a = Inr (s', r) \<or> exec_wait p s step a = Inr (s', r)"
  shows "report_ok s' step r"
  using assms
  by (elim disjE)
     (auto simp: exec_sem_post_def exec_sem_wait_def exec_barrier_def exec_signal_def
        exec_broadcast_def exec_wait_def Let_def res_simps finish_def finish_error_def
        intro!: report_ok_error split: option.splits list.splits if_splits)

lemma commit_report:
  "commit_store s step x v = Inr (s', r) \<Longrightarrow> report_ok s' step r"
  by (auto simp: commit_store_def Let_def finish_race_def intro!: report_ok_race)

lemma atomic_reports:
  assumes "exec_atomic_load p s step a = Inr (s', r) \<or> exec_atomic_store p s step a = Inr (s', r) \<or>
    exec_atomic_rmw p s step a = Inr (s', r) \<or> exec_cas p s step a = Inr (s', r) \<or>
    exec_read p s step a = Inr (s', r)"
  shows "report_ok s' step r"
  using assms
  by (elim disjE)
     (auto simp: exec_atomic_load_def exec_atomic_store_def exec_atomic_rmw_def exec_cas_def
        exec_read_def Let_def res_simps finish_def finish_race_def
        intro!: report_ok_race split: if_splits)

lemma write_report: "exec_write p s step a = Inr (s', r) \<Longrightarrow> report_ok s' step r"
  by (cases "st_model s")
     (auto simp: exec_write_def Let_def res_simps finish_def dest: commit_report split: if_splits)

lemma flush_report: "exec_flush s step = Inr (s', r) \<Longrightarrow> report_ok s' step r"
proof (cases "st_model s = TSO")
  case True
  assume "exec_flush s step = Inr (s', r)"
  then show ?thesis
    using True by (auto simp: exec_flush_def Let_def dest!: commit_report split: list.splits)
next
  case False
  assume ex: "exec_flush s step = Inr (s', r)"
  obtain bufs v x where
    "commit_store (s\<lparr>st_pso_buffers := bufs\<rparr>) step x v = Inr (s', r)"
    using ex False
    by (auto simp: exec_flush_def Let_def res_simps split: option.splits list.splits)
  then show ?thesis by (rule commit_report)
qed

lemma execute_enabled_step_report:
  assumes "execute_enabled_step p s step = Inr (s', r)"
  shows "report_ok s' step r"
proof -
  obtain a where "perform_action p (begin_step s step) step a = Inr (s', r)"
    using assms unfolding execute_enabled_step_def Let_def
    by (cases "is_flush_step step") (auto simp only: if_True if_False res_simps)
  then show ?thesis
    using local_reports [of p "begin_step s step" step a s' r]
      rwlock_reports [of p "begin_step s step" step a s' r]
      sync_reports [of p "begin_step s step" step a s' r]
      atomic_reports [of p "begin_step s step" step a s' r]
      write_report [of p "begin_step s step" step a s' r] flush_report [of "begin_step s step" step s' r]
    by (cases "a_kind a") (simp_all add: perform_action_def res_simps)
qed

end
