(* ===== verification/Naive_Correct.thy ===== *)
theory Naive_Correct
  imports Explorer_Naive Step_Reports
begin

text \<open>
  What the naive explorer finds: every report comes from an execution that the replay
  reproduces (soundness), and a search that was not capped reports every kind of outcome that
  a walk below the step bound reaches (completeness). Both are rule inductions on the
  big-step relation.
\<close>

section \<open>Outcomes of walks\<close>

definition start_walk ::
  "program \<Rightarrow> memory_model \<Rightarrow> nat \<Rightarrow> schedule \<Rightarrow> exec_state \<Rightarrow> state_history \<Rightarrow> bool" where
  "start_walk p m b xs s h \<longleftrightarrow>
     walk p b (requires_cycle_detection p) xs (initial_state p m)
       (initial_history p (initial_state p m)) = Some (s, h)"

lemma start_walk_schedule: "start_walk p m b xs s h \<Longrightarrow> st_schedule s = xs"
  using run_parts(1) walk_run by (fastforce simp: start_walk_def initial_state_pc)

lemma start_walk_wf: "indexable p \<Longrightarrow> start_walk p m b xs s h \<Longrightarrow> wf_state p s"
  unfolding start_walk_def using walk_run wf_run wf_initial_state by blast

lemma start_walk_snoc:
  "start_walk p m b xs s h \<Longrightarrow> x \<in> set (enabled_steps p s) \<Longrightarrow>
   \<not> step_bound_reached s (s_thread x) b \<Longrightarrow> execute_enabled_step p s x = Inr (s', r) \<Longrightarrow>
   \<not> step_terminal r \<Longrightarrow> observe (requires_cycle_detection p) s' h = Inr (None, h') \<Longrightarrow>
   start_walk p m b (xs @ [x]) s' h'"
  unfolding start_walk_def by (simp add: walk_append)

text \<open>A step below the bound that a walk offers, with its successor and report.\<close>

definition offers ::
  "program \<Rightarrow> memory_model \<Rightarrow> nat \<Rightarrow> schedule \<Rightarrow> schedule_step \<Rightarrow> exec_state \<Rightarrow> step_report \<Rightarrow> bool"
where
  "offers p m b xs x s' r \<longleftrightarrow>
     (\<exists>s h. start_walk p m b xs s h \<and> x \<in> set (enabled_steps p s) \<and>
        \<not> step_bound_reached s (s_thread x) b \<and> execute_enabled_step p s x = Inr (s', r))"

lemma offersI:
  "start_walk p m b xs s h \<Longrightarrow> x \<in> set (enabled_steps p s) \<Longrightarrow>
   \<not> step_bound_reached s (s_thread x) b \<Longrightarrow> execute_enabled_step p s x = Inr (s', r) \<Longrightarrow>
   offers p m b xs x s' r"
  unfolding offers_def by blast

definition deadlocks :: "program \<Rightarrow> memory_model \<Rightarrow> nat \<Rightarrow> schedule \<Rightarrow> exec_state \<Rightarrow> bool" where
  "deadlocks p m b xs s \<longleftrightarrow>
     (\<exists>h. start_walk p m b xs s h) \<and> enabled_steps p s = [] \<and> \<not> all_finished p s"

text \<open>A step below the bound after which the walk is back at a behaviour of its path.\<close>

definition laps :: "program \<Rightarrow> memory_model \<Rightarrow> nat \<Rightarrow> nontermination_report \<Rightarrow> bool" where
  "laps p m b n \<longleftrightarrow>
     (\<exists>xs x s h s' q k h'. start_walk p m b xs s h \<and> x \<in> set (enabled_steps p s) \<and>
        \<not> step_bound_reached s (s_thread x) b \<and> execute_enabled_step p s x = Inr (s', q) \<and>
        \<not> step_terminal q \<and> observe (requires_cycle_detection p) s' h = Inr (Some k, h') \<and>
        make_nontermination_report p (st_schedule s') k (st_model s') = Inr n)"

lemma lapsI:
  "start_walk p m b xs s h \<Longrightarrow> x \<in> set (enabled_steps p s) \<Longrightarrow>
   \<not> step_bound_reached s (s_thread x) b \<Longrightarrow> execute_enabled_step p s x = Inr (s', q) \<Longrightarrow>
   \<not> step_terminal q \<Longrightarrow> observe (requires_cycle_detection p) s' h = Inr (Some k, h') \<Longrightarrow>
   make_nontermination_report p (st_schedule s') k (st_model s') = Inr n \<Longrightarrow> laps p m b n"
  unfolding laps_def by blast

section \<open>Soundness\<close>

definition genuine :: "program \<Rightarrow> memory_model \<Rightarrow> nat \<Rightarrow> check_result \<Rightarrow> bool" where
  "genuine p m b r \<longleftrightarrow>
     (\<forall>dl. first_deadlock r = Some dl \<longrightarrow>
        (\<exists>xs s. deadlocks p m b xs s \<and> make_deadlock_report p s = Inr dl)) \<and>
     (\<forall>e. first_error r = Some e \<longrightarrow>
        (\<exists>xs x s q. offers p m b xs x s q \<and> sr_error q = Some e)) \<and>
     (\<forall>f. first_assertion r = Some f \<longrightarrow>
        (\<exists>xs x s q. offers p m b xs x s q \<and> sr_assertion q = Some f)) \<and>
     (\<forall>c. first_race r = Some c \<longrightarrow>
        (\<exists>xs x s q. offers p m b xs x s q \<and> sr_race q = Some c)) \<and>
     (\<forall>n. first_nontermination r = Some n \<longrightarrow> laps p m b n)"

lemma genuine_empty [simp]: "genuine p m b empty_result"
  by (simp add: genuine_def empty_result_def)

lemma genuine_cong:
  "genuine p m b r \<Longrightarrow> first_deadlock r' = first_deadlock r \<Longrightarrow> first_error r' = first_error r \<Longrightarrow>
   first_assertion r' = first_assertion r \<Longrightarrow> first_race r' = first_race r \<Longrightarrow>
   first_nontermination r' = first_nontermination r \<Longrightarrow> genuine p m b r'"
  by (simp add: genuine_def)

lemma genuine_count: "genuine p m b r \<Longrightarrow> genuine p m b (count_schedule r)"
  by (erule genuine_cong) simp_all

lemma genuine_bounded: "genuine p m b r \<Longrightarrow> genuine p m b (record_bound_exceeded r)"
  by (erule genuine_cong) (simp_all add: record_bound_exceeded_def)

lemma record_nontermination_kept:
  assumes "record_nontermination nt r = Inr r'"
  shows "first_nontermination r' = or_else (first_nontermination r) (Some nt)"
    "first_deadlock r' = first_deadlock r" "first_error r' = first_error r"
    "first_assertion r' = first_assertion r" "first_race r' = first_race r"
  using assms by (auto simp: record_nontermination_def Let_def res_simps split: fairness.splits)

lemma genuine_nontermination:
  assumes "record_nontermination nt r = Inr r'" "laps p m b nt" "genuine p m b r"
  shows "genuine p m b r'"
  using record_nontermination_kept [OF assms(1)] assms(2,3)
  by (auto simp: genuine_def or_else_def split: option.splits)

lemma genuine_step:
  assumes "genuine p m b r" "offers p m b xs x s q"
  shows "genuine p m b (record_step_report q r)"
  using assms unfolding genuine_def record_step_report_def or_else_def
  by (auto split: option.splits)

lemma genuine_leaf:
  assumes "genuine p m b r" "start_walk p m b xs s h" "enabled_steps p s = []"
    and "record_leaf p s r = Inr r'"
  shows "genuine p m b r'"
proof (cases "all_finished p s \<or> first_deadlock r \<noteq> None")
  case True
  then have "r' = count_schedule r" using assms(4) by (auto simp: record_leaf_def Let_def)
  then show ?thesis using assms(1) by (simp add: genuine_count)
next
  case False
  then obtain dl where dl: "make_deadlock_report p s = Inr dl"
      "r' = (count_schedule r)\<lparr>first_deadlock := Some dl\<rparr>"
    using assms(4) by (auto simp: record_leaf_def Let_def res_simps)
  moreover have "deadlocks p m b xs s" using assms(2,3) False by (auto simp: deadlocks_def)
  ultimately show ?thesis
    using assms(1) unfolding genuine_def by (auto simp: count_schedule_def)
qed

lemma explores_genuine:
  "explores_node p mx b d s h r r' \<Longrightarrow> d = requires_cycle_detection p \<Longrightarrow>
     \<exists>xs. start_walk p m b xs s h \<Longrightarrow> genuine p m b r \<Longrightarrow> genuine p m b r'"
  "explores_list p mx b d s h ys r r' \<Longrightarrow> d = requires_cycle_detection p \<Longrightarrow>
     \<exists>xs. start_walk p m b xs s h \<Longrightarrow> set ys \<subseteq> set (enabled_steps p s) \<Longrightarrow> genuine p m b r \<Longrightarrow>
     genuine p m b r'"
  "explores_child p mx b d s h x r r' \<Longrightarrow> d = requires_cycle_detection p \<Longrightarrow>
     \<exists>xs. start_walk p m b xs s h \<Longrightarrow> x \<in> set (enabled_steps p s) \<Longrightarrow> genuine p m b r \<Longrightarrow>
     genuine p m b r'"
proof (induction rule: explores_node_explores_list_explores_child.inducts)
  case (leaf r s r' h)
  then show ?case using genuine_leaf by blast
next
  case (bounded s x h r)
  then show ?case by (simp add: genuine_bounded)
next
  case (terminal s x s' report h r)
  then obtain xs where "start_walk p m b xs s h" by blast
  then have "genuine p m b (record_step_report report r)"
    using terminal genuine_step [OF _ offersI] by blast
  then show ?case by (rule genuine_count)
next
  case (cycle s x s' report h start h1 nt r r1)
  then obtain xs where "start_walk p m b xs s h" by blast
  then have "genuine p m b (record_step_report report r)"
    using cycle genuine_step [OF _ offersI] by blast
  moreover have "laps p m b nt" using lapsI [OF \<open>start_walk p m b xs s h\<close>] cycle by blast
  ultimately show ?case using genuine_nontermination cycle.hyps by blast
next
  case (descent s x s' report h h1 r r1)
  then obtain xs where walk: "start_walk p m b xs s h" by blast
  then have "genuine p m b (record_step_report report r)"
    using descent genuine_step [OF _ offersI] by blast
  moreover have "start_walk p m b (xs @ [x]) s' h1"
    using start_walk_snoc [OF walk] descent by blast
  ultimately show ?case using descent.IH descent.prems(1) by blast
qed auto

section \<open>Reports replay\<close>

lemma replay_after_walk:
  assumes "indexable p" "start_walk p m b xs s h"
  shows "\<exists>r. replay_schedule p (xs @ ys) b m =
      replay_loop p b (requires_cycle_detection p) (length xs) ys s h r \<and>
    first_deadlock r = None \<and> first_error r = None \<and> first_assertion r = None \<and>
    first_nontermination r = None"
  using replay_loop_walk [OF assms(2) [unfolded start_walk_def] wf_initial_state assms(1),
      of 0 ys empty_result]
  unfolding replay_schedule_def Let_def by (auto simp: empty_result_def)

lemma replay_deadlock:
  assumes "indexable p" "deadlocks p m b xs s" "make_deadlock_report p s = Inr dl"
  shows "\<exists>r. replay_schedule p (dl_schedule dl) b m = Inr r \<and> first_deadlock r = Some dl"
proof -
  obtain h where walk: "start_walk p m b xs s h" and stuck: "enabled_steps p s = []" "\<not> all_finished p s"
    using assms(2) by (auto simp: deadlocks_def)
  have "dl_schedule dl = xs"
    using assms(3) start_walk_schedule [OF walk] by (auto simp: make_deadlock_report_def res_simps)
  moreover obtain r where "replay_schedule p (xs @ []) b m =
      replay_loop p b (requires_cycle_detection p) (length xs) [] s h r"
    using replay_after_walk [OF assms(1) walk] by blast
  moreover have "\<not> any_enabled p s"
    using any_enabled_iff [OF start_walk_wf [OF assms(1) walk]] stuck(1) by simp
  ultimately show ?thesis using stuck(2) assms(3) by simp
qed

lemma replay_terminal:
  assumes idx: "indexable p" and offer: "offers p m b xs x s' q" and final: "step_terminal q"
  shows "\<exists>r. replay_schedule p (xs @ [x]) b m = Inr r \<and> first_error r = sr_error q \<and>
    first_assertion r = sr_assertion q"
proof -
  obtain s h where walk: "start_walk p m b xs s h" and x: "x \<in> set (enabled_steps p s)"
      "\<not> step_bound_reached s (s_thread x) b" "execute_enabled_step p s x = Inr (s', q)"
    using offer by (auto simp: offers_def)
  obtain r where r: "replay_schedule p (xs @ [x]) b m =
      replay_loop p b (requires_cycle_detection p) (length xs) [x] s h r"
      "first_error r = None" "first_assertion r = None"
    using replay_after_walk [OF idx walk] by blast
  have "validate_replay_step p s x (length xs) = Inr ()"
    using validate_enabled [OF start_walk_wf [OF idx walk] idx x(1)] .
  then have "replay_schedule p (xs @ [x]) b m = Inr (count_schedule (record_step_report q r))"
    using r(1) x final by (simp add: Let_def)
  then show ?thesis using r(2,3) by (simp add: record_step_report_def or_else_def)
qed

lemma replay_lap:
  assumes idx: "indexable p" and lap: "laps p m b n"
  shows "\<exists>r. replay_schedule p (nt_schedule n) b m = record_nontermination n r \<and>
    first_nontermination r = None"
proof -
  obtain xs x s h s' q k h' where w: "start_walk p m b xs s h"
    and x: "x \<in> set (enabled_steps p s)" "\<not> step_bound_reached s (s_thread x) b"
      "execute_enabled_step p s x = Inr (s', q)" "\<not> step_terminal q"
      "observe (requires_cycle_detection p) s' h = Inr (Some k, h')"
    and n: "make_nontermination_report p (st_schedule s') k (st_model s') = Inr n"
    using lap unfolding laps_def by blast
  have "nt_schedule n = st_schedule s'"
    using n by (auto simp: make_nontermination_report_def Let_def res_simps split: if_splits)
  then have sch: "nt_schedule n = xs @ [x]"
    using execute_enabled_step_parts(1) [OF x(3)] start_walk_schedule [OF w] by simp
  obtain r where r: "replay_schedule p (xs @ [x]) b m =
      replay_loop p b (requires_cycle_detection p) (length xs) [x] s h r"
      "first_nontermination r = None"
    using replay_after_walk [OF idx w] by blast
  have "validate_replay_step p s x (length xs) = Inr ()"
    using validate_enabled [OF start_walk_wf [OF idx w] idx x(1)] .
  then have "replay_schedule p (xs @ [x]) b m = record_nontermination n (record_step_report q r)"
    using r(1) x n by (simp add: observe_def [symmetric] Let_def)
  then show ?thesis
    using r(2) sch by (intro exI [of _ "record_step_report q r"]) (simp add: record_step_report_def)
qed

lemma offered_schedule:
  assumes "offers p m b xs x s' q"
  shows "sr_error q = Some e \<Longrightarrow> me_schedule e = xs @ [x]"
    "sr_assertion q = Some f \<Longrightarrow> af_schedule f = xs @ [x]"
    "sr_race q = Some c \<Longrightarrow> r_schedule c = xs @ [x]"
proof -
  obtain s h where walk: "start_walk p m b xs s h" and x: "execute_enabled_step p s x = Inr (s', q)"
    using assms by (auto simp: offers_def)
  have "st_schedule s' = xs @ [x]"
    using execute_enabled_step_parts(1) [OF x] start_walk_schedule [OF walk] by simp
  then show "sr_error q = Some e \<Longrightarrow> me_schedule e = xs @ [x]"
    "sr_assertion q = Some f \<Longrightarrow> af_schedule f = xs @ [x]"
    "sr_race q = Some c \<Longrightarrow> r_schedule c = xs @ [x]"
    using execute_enabled_step_report [OF x] by (simp_all add: report_ok_def)
qed

lemma genuine_replays:
  assumes "indexable p" "genuine p m b r"
  shows "first_deadlock r = Some dl \<Longrightarrow>
      \<exists>q. replay_schedule p (dl_schedule dl) b m = Inr q \<and> first_deadlock q = Some dl"
    "first_error r = Some e \<Longrightarrow>
      \<exists>q. replay_schedule p (me_schedule e) b m = Inr q \<and> first_error q = Some e"
    "first_assertion r = Some f \<Longrightarrow>
      \<exists>q. replay_schedule p (af_schedule f) b m = Inr q \<and> first_assertion q = Some f"
proof -
  show "\<exists>q. replay_schedule p (dl_schedule dl) b m = Inr q \<and> first_deadlock q = Some dl"
    if "first_deadlock r = Some dl"
    using assms that replay_deadlock unfolding genuine_def by blast
  show "\<exists>q. replay_schedule p (me_schedule e) b m = Inr q \<and> first_error q = Some e"
    if "first_error r = Some e"
  proof -
    obtain xs x s q where q: "offers p m b xs x s q" "sr_error q = Some e"
      using assms(2) \<open>first_error r = Some e\<close> unfolding genuine_def by blast
    then have "step_terminal q" by (simp add: step_terminal_def)
    then show ?thesis using replay_terminal [OF assms(1) q(1)] offered_schedule(1) [OF q] q(2) by auto
  qed
  show "\<exists>q. replay_schedule p (af_schedule f) b m = Inr q \<and> first_assertion q = Some f"
    if "first_assertion r = Some f"
  proof -
    obtain xs x s q where q: "offers p m b xs x s q" "sr_assertion q = Some f"
      using assms(2) \<open>first_assertion r = Some f\<close> unfolding genuine_def by blast
    then have "step_terminal q" by (simp add: step_terminal_def)
    then show ?thesis using replay_terminal [OF assms(1) q(1)] offered_schedule(2) [OF q] q(2) by auto
  qed
qed

section \<open>Completeness\<close>

text \<open>A later result keeps what an earlier one has found.\<close>

definition extends :: "check_result \<Rightarrow> check_result \<Rightarrow> bool" where
  "extends r r' \<longleftrightarrow>
     schedules_explored r \<le> schedules_explored r' \<and>
     bound_exceeded_executions r \<le> bound_exceeded_executions r' \<and>
     (first_deadlock r \<noteq> None \<longrightarrow> first_deadlock r' \<noteq> None) \<and>
     (first_error r \<noteq> None \<longrightarrow> first_error r' \<noteq> None) \<and>
     (first_assertion r \<noteq> None \<longrightarrow> first_assertion r' \<noteq> None) \<and>
     (first_race r \<noteq> None \<longrightarrow> first_race r' \<noteq> None) \<and>
     (first_nontermination r \<noteq> None \<longrightarrow> first_nontermination r' \<noteq> None)"

lemma extends_refl [simp]: "extends r r"
  by (simp add: extends_def)

lemma extends_trans: "extends r s \<Longrightarrow> extends s t \<Longrightarrow> extends r t"
  unfolding extends_def by (meson order_trans)

lemma extends_record:
  "extends r (count_schedule r)" "extends r (record_bound_exceeded r)"
  "extends r (record_step_report q r)"
  "record_nontermination nt r = Inr r' \<Longrightarrow> extends r r' \<and> first_nontermination r' \<noteq> None"
  "record_leaf p s r = Inr r' \<Longrightarrow> extends r r'"
proof -
  show "extends r (record_bound_exceeded r)" by (simp add: extends_def record_bound_exceeded_def)
  show "extends r (record_step_report q r)"
    by (simp add: extends_def record_step_report_def or_else_def split: option.split)
  show "record_nontermination nt r = Inr r' \<Longrightarrow> extends r r' \<and> first_nontermination r' \<noteq> None"
    by (auto simp: record_nontermination_def Let_def res_simps extends_def or_else_def
        split: fairness.splits option.splits)
  show "record_leaf p s r = Inr r' \<Longrightarrow> extends r r'"
    by (auto simp: record_leaf_def Let_def res_simps extends_def count_schedule_def split: if_splits)
qed (simp add: extends_def)

lemma explores_extends:
  "explores_node p mx b d s h r r' \<Longrightarrow> extends r r'"
  "explores_list p mx b d s h ys r r' \<Longrightarrow> extends r r'"
  "explores_child p mx b d s h x r r' \<Longrightarrow> extends r r'"
proof (induction rule: explores_node_explores_list_explores_child.inducts)
  case (terminal s x s' report h r)
  show ?case by (rule extends_trans [OF extends_record(3) extends_record(1)])
qed (auto intro: extends_record extends_trans dest: extends_record(4))

text \<open>What a complete search owes to a state and to one of its enabled steps.\<close>

definition step_reported ::
  "program \<Rightarrow> nat \<Rightarrow> bool \<Rightarrow> exec_state \<Rightarrow> state_history \<Rightarrow> schedule_step \<Rightarrow> check_result \<Rightarrow> bool"
where
  "step_reported p b d s h x r \<longleftrightarrow>
     (step_bound_reached s (s_thread x) b \<longrightarrow> bound_exceeded_executions r \<noteq> 0) \<and>
     (\<not> step_bound_reached s (s_thread x) b \<longrightarrow>
        (\<forall>s' q. execute_enabled_step p s x = Inr (s', q) \<longrightarrow>
           (sr_error q \<noteq> None \<longrightarrow> first_error r \<noteq> None) \<and>
           (sr_assertion q \<noteq> None \<longrightarrow> first_assertion r \<noteq> None) \<and>
           (sr_race q \<noteq> None \<longrightarrow> first_race r \<noteq> None) \<and>
           (\<forall>k h'. \<not> step_terminal q \<longrightarrow> observe d s' h = Inr (Some k, h') \<longrightarrow>
              first_nontermination r \<noteq> None)))"

definition state_reported ::
  "program \<Rightarrow> nat \<Rightarrow> bool \<Rightarrow> exec_state \<Rightarrow> state_history \<Rightarrow> check_result \<Rightarrow> bool" where
  "state_reported p b d s h r \<longleftrightarrow>
     (enabled_steps p s = [] \<longrightarrow> \<not> all_finished p s \<longrightarrow> first_deadlock r \<noteq> None) \<and>
     (\<forall>x\<in>set (enabled_steps p s). step_reported p b d s h x r)"

definition subtree_reported ::
  "program \<Rightarrow> nat \<Rightarrow> bool \<Rightarrow> exec_state \<Rightarrow> state_history \<Rightarrow> check_result \<Rightarrow> bool" where
  "subtree_reported p b d s h r \<longleftrightarrow>
     (\<forall>ys s1 h1. walk p b d ys s h = Some (s1, h1) \<longrightarrow> state_reported p b d s1 h1 r)"

definition child_done ::
  "program \<Rightarrow> nat \<Rightarrow> bool \<Rightarrow> exec_state \<Rightarrow> state_history \<Rightarrow> schedule_step \<Rightarrow> check_result \<Rightarrow> bool"
where
  "child_done p b d s h x r \<longleftrightarrow>
     step_reported p b d s h x r \<and>
     (\<forall>s' q h1. \<not> step_bound_reached s (s_thread x) b \<longrightarrow>
        execute_enabled_step p s x = Inr (s', q) \<longrightarrow> \<not> step_terminal q \<longrightarrow>
        observe d s' h = Inr (None, h1) \<longrightarrow> subtree_reported p b d s' h1 r)"

lemma reported_extends:
  "step_reported p b d s h x r \<Longrightarrow> extends r r' \<Longrightarrow> step_reported p b d s h x r'"
  "state_reported p b d s h r \<Longrightarrow> extends r r' \<Longrightarrow> state_reported p b d s h r'"
  "subtree_reported p b d s h r \<Longrightarrow> extends r r' \<Longrightarrow> subtree_reported p b d s h r'"
  "child_done p b d s h x r \<Longrightarrow> extends r r' \<Longrightarrow> child_done p b d s h x r'"
proof -
  show step: "step_reported p b d s h x r'" if "step_reported p b d s h x r" "extends r r'"
    for s h x
    using that by (auto simp: step_reported_def extends_def)
  show state: "state_reported p b d s h r'" if "state_reported p b d s h r" "extends r r'" for s h
    using that step by (auto simp: state_reported_def extends_def)
  show sub: "subtree_reported p b d s h r'" if "subtree_reported p b d s h r" "extends r r'" for s h
    using that state unfolding subtree_reported_def by blast
  show "child_done p b d s h x r'" if "child_done p b d s h x r" "extends r r'"
    using that step sub unfolding child_done_def by blast
qed

lemma subtree_from_children:
  assumes "enabled_steps p s = [] \<Longrightarrow> \<not> all_finished p s \<Longrightarrow> first_deadlock r \<noteq> None"
    and "\<And>x. x \<in> set (enabled_steps p s) \<Longrightarrow> child_done p b d s h x r"
  shows "subtree_reported p b d s h r"
  unfolding subtree_reported_def
proof (intro allI impI)
  fix ys s1 h1 assume walk: "walk p b d ys s h = Some (s1, h1)"
  show "state_reported p b d s1 h1 r"
  proof (cases ys)
    case Nil
    then show ?thesis using walk assms by (auto simp: state_reported_def child_done_def)
  next
    case (Cons y zs)
    then show ?thesis
      using walk assms(2)
      by (fastforce simp: child_done_def subtree_reported_def
          split: sum.splits option.splits if_splits)
  qed
qed

lemma explores_complete:
  "explores_node p mx b d s h r r' \<Longrightarrow> schedules_explored r' < mx \<Longrightarrow> subtree_reported p b d s h r'"
  "explores_list p mx b d s h ys r r' \<Longrightarrow> schedules_explored r' < mx \<Longrightarrow>
     \<forall>x\<in>set ys. child_done p b d s h x r'"
  "explores_child p mx b d s h x r r' \<Longrightarrow> schedules_explored r' < mx \<Longrightarrow>
     child_done p b d s h x r'"
proof (induction rule: explores_node_explores_list_explores_child.inducts)
  case (leaf r s r' h)
  show ?case
    by (rule subtree_from_children)
       (use leaf in \<open>auto simp: record_leaf_def Let_def res_simps split: if_splits\<close>)
next
  case (inner r s h r')
  then show ?case by (intro subtree_from_children) auto
next
  case (go s h x r r1 xs r')
  then show ?case using explores_extends(2) reported_extends(4) by (auto intro: reported_extends)
next
  case (bounded s x h r)
  then show ?case by (simp add: child_done_def step_reported_def record_bound_exceeded_def)
next
  case (terminal s x s' report h r)
  then show ?case
    by (auto simp: child_done_def step_reported_def record_step_report_def or_else_def
        split: option.splits)
next
  case (cycle s x s' report h start h1 nt r r1)
  have "extends (record_step_report report r) r1" "first_nontermination r1 \<noteq> None"
    using extends_record(4) cycle by blast+
  then show ?case
    using cycle
    by (auto simp: child_done_def step_reported_def extends_def record_step_report_def or_else_def
        split: option.splits)
next
  case (descent s x s' report h h1 r r1)
  have "extends (record_step_report report r) r1" using explores_extends(1) descent by blast
  then show ?case
    using descent
    by (auto simp: child_done_def step_reported_def extends_def record_step_report_def or_else_def
        split: option.splits)
qed auto

end
