(* ===== verification/Sizes.thy ===== *)
theory Sizes
  imports Step_Frames Fingerprint
begin

text \<open>
  The sizes of reachable states. Every name a state holds comes from the program, so a map has at
  most as many entries as the program has actions, and a store buffer has at most as many entries
  as steps were taken. A program whose text and step counts fit 64 bits only reaches states that
  the fingerprint can encode.
\<close>

section \<open>Names of the program\<close>

definition keys_in :: "(string, 'a) omap \<Rightarrow> string set \<Rightarrow> bool" where
  "keys_in m K \<longleftrightarrow> (\<forall>k. mlookup m k \<noteq> None \<longrightarrow> k \<in> K)"

lemma keys_in_updates [simp]:
  "keys_in mempty K"
  "keys_in m K \<Longrightarrow> k \<in> K \<Longrightarrow> keys_in (mupdate k v m) K"
  "keys_in m K \<Longrightarrow> keys_in (mdelete k m) K"
  "keys_in m K \<Longrightarrow> k \<in> K \<Longrightarrow> keys_in (memplace k v m) K"
  by (auto simp: keys_in_def)

lemma keys_in_count:
  assumes "keys_in m (set names)"
  shows "length (mentries m) \<le> length names"
proof -
  have "set (map fst (mentries m)) \<subseteq> set names"
    using assms by (force simp: keys_in_def mentries_iff)
  then have "card (set (map fst (mentries m))) \<le> card (set names)" by (intro card_mono) simp_all
  also have "\<dots> \<le> length names" by (rule card_length)
  finally show ?thesis using distinct_card [OF distinct_mentries [of m]] by simp
qed

text \<open>The names, for each kind of object, and the store buffers, with at most \<open>n\<close> entries.\<close>

definition stores_ok ::
  "string set \<Rightarrow> nat \<Rightarrow> store_buffer_entry list list \<Rightarrow> pso_address_buffer list \<Rightarrow> bool" where
  "stores_ok K n tso pso \<longleftrightarrow>
     (\<forall>buf\<in>set tso. length buf \<le> n \<and> fst ` set buf \<subseteq> K) \<and>
     (\<forall>buf\<in>set pso. keys_in buf K \<and> (\<forall>x vs. mlookup buf x = Some vs \<longrightarrow> length vs \<le> n))"

definition names_ok :: "program \<Rightarrow> nat \<Rightarrow> exec_state \<Rightarrow> bool" where
  "names_ok p n s \<longleftrightarrow>
     keys_in (st_mutex_owner s) (a_mutex ` set (concat p)) \<and>
     keys_in (st_rwlocks s) (a_rwlock ` set (concat p)) \<and>
     keys_in (st_semaphores s) (a_semaphore ` set (concat p)) \<and>
     keys_in (st_barriers s) (a_barrier ` set (concat p)) \<and>
     keys_in (st_waiters s) (a_condition ` set (concat p)) \<and>
     keys_in (st_values s) (a_address ` set (concat p)) \<and>
     stores_ok (a_address ` set (concat p)) n (st_store_buffers s) (st_pso_buffers s)"

definition name_part where
  "name_part s = (st_mutex_owner s, st_rwlocks s, st_semaphores s, st_barriers s, st_waiters s, st_values s,
     st_store_buffers s, st_pso_buffers s)"

lemma name_part_cong: "name_part s' = name_part s \<Longrightarrow> names_ok p n s' = names_ok p n s"
  by (simp add: name_part_def names_ok_def)

lemma name_part_simps [simp]:
  "name_part (advance_pc p s t) = name_part s" "name_part (set_pc p s t pc) = name_part s"
  "name_part (normalize_pc p s t) = name_part s" "name_part (join_clock s t c) = name_part s"
  "name_part (set_phase s t ph) = name_part s" "name_part (touch_atomic_clock s x) = name_part s"
  "name_part (publish_atomic s t x) = name_part s" "name_part (s\<lparr>st_started := x3\<rparr>) = name_part s"
  "name_part (fst (on_address f s x acc)) = name_part s"
  "name_part (store_register s t r v) = name_part s" "name_part (begin_step s step) = name_part s"
  by (simp_all add: name_part_def state_ops Let_def on_address_def split: prod.split)

lemmas names_ok_simps [simp] = name_part_simps [THEN name_part_cong]

lemma names_write_register: "write_register s t d v = Inr s' \<Longrightarrow> names_ok p n s' = names_ok p n s"
  by (auto simp: write_register_def guarded_def split: option.splits if_splits)

lemma names_updates [simp]:
  "names_ok p n s \<Longrightarrow> m \<in> a_mutex ` set (concat p) \<Longrightarrow> names_ok p n (acquire_mutex s t m)"
  "names_ok p n s \<Longrightarrow> names_ok p n (release_mutex s t m)"
  "names_ok p n s \<Longrightarrow> x \<in> a_rwlock ` set (concat p) \<Longrightarrow> names_ok p n (set_rwlock s x rw)"
  "names_ok p n s \<Longrightarrow> c \<in> a_condition ` set (concat p) \<Longrightarrow> names_ok p n (set_waiters s c ws)"
  "names_ok p n s \<Longrightarrow> y \<in> a_address ` set (concat p) \<Longrightarrow> names_ok p n (set_value s y v)"
  "names_ok p n s \<Longrightarrow> y \<in> a_address ` set (concat p) \<Longrightarrow> names_ok p n (touch_value s y)"
  "names_ok p n s \<Longrightarrow> z \<in> a_semaphore ` set (concat p) \<Longrightarrow>
     names_ok p n (s\<lparr>st_semaphores := mupdate z sem (st_semaphores s)\<rparr>)"
  "names_ok p n s \<Longrightarrow> b \<in> a_barrier ` set (concat p) \<Longrightarrow>
     names_ok p n (s\<lparr>st_barriers := mupdate b bar (st_barriers s)\<rparr>)"
  by (simp_all add: names_ok_def state_ops Let_def del: set_concat)

section \<open>The cases of a step\<close>

lemma names_local:
  assumes "a \<in> set (concat p)" "names_ok p n s"
    and "exec_set p s step a = Inr (s', r) \<or> exec_branch p s step a = Inr (s', r) \<or>
    exec_assert p s step a = Inr (s', r) \<or> exec_local p s step = Inr (s', r) \<or>
    exec_lock p s step a = Inr (s', r) \<or> exec_try_lock p s step a = Inr (s', r) \<or>
    exec_unlock p s step a = Inr (s', r) \<or> exec_join p s step a = Inr (s', r) \<or>
    exec_spawn p s step a = Inr (s', r)"
  shows "names_ok p n s'"
  using assms(3,1,2)
  by (elim disjE)
     (auto simp: exec_set_def exec_branch_def exec_assert_def exec_local_def exec_lock_def
        exec_try_lock_def exec_unlock_def exec_join_def exec_spawn_def Let_def res_simps
        finish_def finish_error_def names_write_register simp del: set_concat
        split: option.splits if_splits)

lemma names_rwlock:
  assumes "a \<in> set (concat p)" "names_ok p n s"
    and "exec_rlock p s step a = Inr (s', r) \<or> exec_wlock p s step a = Inr (s', r) \<or>
    exec_upgrade p s step a = Inr (s', r) \<or> exec_runlock p s step a = Inr (s', r) \<or>
    exec_wunlock p s step a = Inr (s', r) \<or> exec_downgrade p s step a = Inr (s', r)"
  shows "names_ok p n s'"
  using assms(3,1,2)
  by (elim disjE)
     (auto simp: exec_rlock_def exec_wlock_def exec_upgrade_def exec_runlock_def exec_wunlock_def
        exec_downgrade_def Let_def res_simps finish_def finish_error_def simp del: set_concat
        split: if_splits)

lemma names_sync:
  assumes "a \<in> set (concat p)" "names_ok p n s"
    and "exec_sem_post p s step a = Inr (s', r) \<or> exec_sem_wait p s step a = Inr (s', r)"
  shows "names_ok p n s'"
  using assms(3,1,2) names_updates(7) [of p n "advance_pc p s (s_thread step)" "a_semaphore a"]
  by (elim disjE)
     (auto simp: exec_sem_post_def exec_sem_wait_def Let_def res_simps finish_def simp del: set_concat
        split: option.splits if_splits)

lemma names_wake:
  assumes "wake_waiter p signaler waiter s = Inr s'" "names_ok p n s"
  shows "names_ok p n s'"
  using assms by (auto simp: wake_waiter_def res_simps Let_def names_write_register split: if_splits)

lemma names_condition:
  assumes "a \<in> set (concat p)" "names_ok p n s"
    and "exec_signal p s step a = Inr (s', r) \<or> exec_broadcast p s step a = Inr (s', r) \<or>
      exec_wait p s step a = Inr (s', r)"
  shows "names_ok p n s'"
proof -
  have all: "names_ok p n v" if "res_fold (wake_waiter p t) ws u = Inr v" "names_ok p n u" for t ws u v
    by (rule res_fold_invariant [OF that(1), where I = "names_ok p n"])
       (use that(2) in \<open>auto intro: names_wake\<close>)
  show ?thesis
    using assms(3,1,2)
    by (elim disjE)
       (auto simp: exec_signal_def exec_broadcast_def exec_wait_def insert_waiter_def remove_waiter_def
          Let_def res_simps finish_def finish_error_def names_write_register simp del: set_concat
          elim!: names_wake all split: list.splits if_splits)
qed

lemma names_barrier:
  assumes "a \<in> set (concat p)" "names_ok p n s" and ex: "exec_barrier p s step a = Inr (s', r)"
  shows "names_ok p n s'"
proof -
  have loop: "names_ok p n v" if "res_fold (release_participant p a k c) xs u = Inr v" "names_ok p n u"
    for k c xs u v
    by (rule res_fold_invariant [OF that(1), where I = "names_ok p n"])
       (use that(2) in \<open>auto simp: release_participant_def res_simps\<close>)
  have bar: "names_ok p n (u\<lparr>st_barriers := mupdate (a_barrier a) b (st_barriers u)\<rparr>)"
    if "names_ok p n u" for b u
    using that assms(1) by (simp del: set_concat)
  show ?thesis
    using ex assms(2)
    by (auto simp: exec_barrier_def Let_def res_simps finish_def finish_error_def
        intro: bar dest!: loop [OF _ bar] split: option.splits if_splits)
qed

lemma names_commit:
  "commit_store s step x v = Inr (s', r) \<Longrightarrow> names_ok p n s \<Longrightarrow> x \<in> a_address ` set (concat p) \<Longrightarrow>
   names_ok p n s'"
  by (auto simp: commit_store_def Let_def finish_race_def simp del: set_concat)

lemma names_memory:
  assumes "a \<in> set (concat p)" "names_ok p n s"
    and "exec_atomic_load p s step a = Inr (s', r) \<or> exec_atomic_store p s step a = Inr (s', r) \<or>
    exec_atomic_rmw p s step a = Inr (s', r) \<or> exec_cas p s step a = Inr (s', r) \<or>
    exec_read p s step a = Inr (s', r)"
  shows "names_ok p n s'"
  using assms(3,1,2)
  by (elim disjE)
     (auto simp: exec_atomic_load_def exec_atomic_store_def exec_atomic_rmw_def exec_cas_def
        exec_read_def Let_def res_simps finish_def finish_race_def names_write_register
        simp del: set_concat split: if_splits)

section \<open>Store buffers\<close>

lemma stores_ok_mono: "stores_ok K n tso pso \<Longrightarrow> n \<le> m \<Longrightarrow> stores_ok K m tso pso"
  unfolding stores_ok_def by (meson order_trans)

lemma names_ok_mono: "names_ok p n s \<Longrightarrow> n \<le> m \<Longrightarrow> names_ok p m s"
  using stores_ok_mono by (auto simp: names_ok_def simp del: set_concat)

lemma stores_ok_tso:
  assumes "stores_ok K n tso pso" "length buf \<le> n" "fst ` set buf \<subseteq> K"
  shows "stores_ok K n (tso[t := buf]) pso"
  using assms set_update_subset_insert [of tso t buf] unfolding stores_ok_def by blast

lemma stores_ok_pso:
  assumes "stores_ok K n tso pso" "keys_in buf K" "\<And>x vs. mlookup buf x = Some vs \<Longrightarrow> length vs \<le> n"
  shows "stores_ok K n tso (pso[t := buf])"
  using assms set_update_subset_insert [of pso t buf] unfolding stores_ok_def by blast

lemma names_stores:
  "names_ok p n s \<Longrightarrow> stores_ok (a_address ` set (concat p)) n tso pso \<Longrightarrow>
   names_ok p n (s\<lparr>st_store_buffers := tso, st_pso_buffers := pso\<rparr>)"
  by (simp add: names_ok_def del: set_concat)

lemma names_storesD:
  assumes "names_ok p n s" "t < length (st_store_buffers s)" "t < length (st_pso_buffers s)"
  shows "length (st_store_buffers s ! t) \<le> n"
    "fst ` set (st_store_buffers s ! t) \<subseteq> a_address ` set (concat p)"
    "keys_in (st_pso_buffers s ! t) (a_address ` set (concat p))"
    "mlookup (st_pso_buffers s ! t) x = Some vs \<Longrightarrow> length vs \<le> n"
  using assms nth_mem [OF assms(2)] nth_mem [OF assms(3)]
  unfolding names_ok_def stores_ok_def by blast+

lemma names_write:
  assumes a: "a \<in> set (concat p)" and ok: "names_ok p n s" and ex: "exec_write p s step a = Inr (s', r)"
    and t: "s_thread step < length (st_store_buffers s)" "s_thread step < length (st_pso_buffers s)"
  shows "names_ok p (Suc n) s'"
proof -
  define t where "t = s_thread step"
  define s1 where "s1 = advance_pc p s t"
  have s1: "names_ok p (Suc n) s1" using names_ok_mono [OF ok, of "Suc n"] by (simp add: s1_def)
  note S = names_storesD [OF ok t, folded t_def]
  have st: "stores_ok (a_address ` set (concat p)) (Suc n) (st_store_buffers s1) (st_pso_buffers s1)"
    using s1 by (simp add: names_ok_def del: set_concat)
  have same: "st_store_buffers s1 = st_store_buffers s" "st_pso_buffers s1 = st_pso_buffers s"
    by (simp_all add: s1_def)
  show ?thesis
  proof (cases "a_address a = []")
    case True
    then show ?thesis
      using ex s1 unfolding exec_write_def Let_def t_def [symmetric] s1_def [symmetric]
      by (simp add: finish_def)
  next
    case False
    define x where "x = a_address a"
    have x: "x \<in> a_address ` set (concat p)" using a by (simp add: x_def del: set_concat)
    obtain v where v: "(case st_model s1 of
          TSO \<Rightarrow> finish (s1\<lparr>st_store_buffers := (st_store_buffers s1)
                   [t := st_store_buffers s1 ! t @ [(x, v)]]\<rparr>)
        | PSO \<Rightarrow> finish (s1\<lparr>st_pso_buffers := (st_pso_buffers s1)
                   [t := mupdate x (mget [] (st_pso_buffers s1 ! t) x @ [v]) (st_pso_buffers s1 ! t)]\<rparr>)
        | SC \<Rightarrow> commit_store s1 step x v) = Inr (s', r)"
      using ex False unfolding exec_write_def Let_def t_def [symmetric] s1_def [symmetric] x_def [symmetric]
      by (simp only: if_False res_simps) blast
    show ?thesis
    proof (cases "st_model s1")
      case SC
      then show ?thesis using v names_commit [OF _ s1 x] by simp
    next
      case TSO
      have "stores_ok (a_address ` set (concat p)) (Suc n)
          ((st_store_buffers s1)[t := st_store_buffers s1 ! t @ [(x, v)]]) (st_pso_buffers s1)"
        by (rule stores_ok_tso [OF st]) (use S(1,2) x same in \<open>auto simp del: set_concat\<close>)
      from names_stores [OF s1 this] show ?thesis using v TSO by (simp add: finish_def)
    next
      case PSO
      have "stores_ok (a_address ` set (concat p)) (Suc n) (st_store_buffers s1)
          ((st_pso_buffers s1)[t := mupdate x (mget [] (st_pso_buffers s1 ! t) x @ [v]) (st_pso_buffers s1 ! t)])"
        by (rule stores_ok_pso [OF st])
           (use S(3,4) x same in \<open>auto simp: mget_def le_SucI simp del: set_concat split: if_splits option.splits\<close>)
      from names_stores [OF s1 this] show ?thesis using v PSO by (simp add: finish_def)
    qed
  qed
qed

lemma names_flush:
  assumes ok: "names_ok p n s" and ex: "exec_flush s step = Inr (s', r)"
    and t: "s_thread step < length (st_store_buffers s)" "s_thread step < length (st_pso_buffers s)"
  shows "names_ok p n s'"
proof -
  define t where "t = s_thread step"
  note S = names_storesD [OF ok t, folded t_def]
  have st: "stores_ok (a_address ` set (concat p)) n (st_store_buffers s) (st_pso_buffers s)"
    using ok by (simp add: names_ok_def del: set_concat)
  show ?thesis
  proof (cases "st_model s = TSO")
    case True
    then obtain x v rest where buf: "st_store_buffers s ! t = (x, v) # rest"
      and c: "commit_store (s\<lparr>st_store_buffers := (st_store_buffers s)[t := rest]\<rparr>) step x v = Inr (s', r)"
      using ex by (auto simp: exec_flush_def Let_def t_def split: list.splits)
    have "stores_ok (a_address ` set (concat p)) n ((st_store_buffers s)[t := rest]) (st_pso_buffers s)"
      by (rule stores_ok_tso [OF st]) (use S(1,2) buf in \<open>auto simp del: set_concat\<close>)
    from names_commit [OF c] names_stores [OF ok this] show ?thesis
      using S(2) buf by (simp del: set_concat)
  next
    case False
    then obtain x v rest where buf: "mlookup (st_pso_buffers s ! t) x = Some (v # rest)"
      and c: "commit_store (s\<lparr>st_pso_buffers := (st_pso_buffers s)[t :=
          if rest = [] then mdelete x (st_pso_buffers s ! t)
          else mupdate x rest (st_pso_buffers s ! t)]\<rparr>) step x v = Inr (s', r)"
      using ex unfolding exec_flush_def Let_def t_def
      by (auto simp: res_simps split: option.splits list.splits)
    have x: "x \<in> a_address ` set (concat p)"
      using S(3) buf by (auto simp: keys_in_def simp del: set_concat)
    have "stores_ok (a_address ` set (concat p)) n (st_store_buffers s) ((st_pso_buffers s)[t :=
          if rest = [] then mdelete x (st_pso_buffers s ! t)
          else mupdate x rest (st_pso_buffers s ! t)])"
      by (rule stores_ok_pso [OF st])
         (use S(3) S(4) [OF buf] S(4) x in \<open>auto simp del: set_concat split: if_splits\<close>)
    from names_commit [OF c] names_stores [OF ok this] show ?thesis using x by (simp del: set_concat)
  qed
qed

section \<open>Reachable states\<close>

lemma names_perform:
  assumes a: "a \<in> set (concat p) \<or> a_kind a = Flush" and ok: "names_ok p n s"
    and t: "s_thread step < length (st_store_buffers s)" "s_thread step < length (st_pso_buffers s)"
    and ex: "perform_action p s step a = Inr (s', r)"
  shows "names_ok p (Suc n) s'"
proof (cases "a_kind a \<in> {Write, Flush}")
  case True
  then show ?thesis
    using ex names_write [OF _ ok _ t, of a] names_ok_mono [OF names_flush [OF ok _ t], of s' r "Suc n"] a
    by (auto simp: perform_action_def res_simps simp del: set_concat)
next
  case False
  then have a: "a \<in> set (concat p)" using a by auto
  have "names_ok p n s'"
    using ex False names_local [OF a ok, of step s' r] names_rwlock [OF a ok, of step s' r]
      names_sync [OF a ok, of step s' r] names_condition [OF a ok, of step s' r]
      names_barrier [OF a ok, of step s' r] names_memory [OF a ok, of step s' r]
    by (cases "a_kind a") (simp_all add: perform_action_def del: set_concat)
  then show ?thesis by (rule names_ok_mono) simp
qed

lemma names_step:
  assumes wf: "wf_state p s" and step: "step \<in> set (enabled_steps p s)"
    and ex: "execute_enabled_step p s step = Inr (s', r)" and ok: "names_ok p n s"
  shows "names_ok p (Suc n) s'"
proof -
  have t: "s_thread step < length p" using ex by (auto simp: execute_enabled_step_def Let_def res_simps)
  have len: "s_thread step < length (st_store_buffers (begin_step s step))"
      "s_thread step < length (st_pso_buffers (begin_step s step))"
    using wf_stateD(1) [OF wf] t by (simp_all add: shape_ok_def begin_step_def)
  have ok': "names_ok p n (begin_step s step)" using ok by simp
  show ?thesis
  proof (cases "is_flush_step step")
    case True
    then have "perform_action p (begin_step s step) step (effective_action_for_step p s step) = Inr (s', r)"
      using ex by (simp add: execute_enabled_step_def Let_def res_simps)
    then show ?thesis using names_perform [OF _ ok' len] effective_flush_kind [OF True] by blast
  next
    case False
    then have "perform_action p (begin_step s step) step (p ! s_thread step ! s_index step) = Inr (s', r)"
        "s_index step < length (p ! s_thread step)"
      using ex by (auto simp: execute_enabled_step_def Let_def res_simps)
    moreover have "p ! s_thread step ! s_index step \<in> set (concat p)"
      using nth_mem [OF calculation(2)] nth_mem [OF t] by (simp, blast)
    ultimately show ?thesis using names_perform [OF _ ok' len] by blast
  qed
qed

lemma initial_barrier_names: "keys_in (initial_barriers p) (a_barrier ` set (concat p))"
proof -
  have "set as \<subseteq> A \<Longrightarrow> keys_in bs (a_barrier ` A) \<Longrightarrow> keys_in (fold add_barrier as bs) (a_barrier ` A)"
    for as bs A
    by (induction as arbitrary: bs) (auto simp: add_barrier_def)
  from this [OF order_refl] show ?thesis by (simp add: initial_barriers_def del: set_concat)
qed

lemma names_initial: "names_ok p 0 (initial_state p m)"
  by (auto simp: names_ok_def initial_state_pc initial_barrier_names stores_ok_def simp del: set_concat)

lemma names_run:
  assumes idx: "indexable p" and run: "run p xs (initial_state p m) = Some s"
  shows "names_ok p (length xs) s"
  using run
proof (induction xs arbitrary: s rule: rev_induct)
  case Nil
  then show ?case using names_initial by auto
next
  case (snoc x xs)
  then obtain s0 where s0: "run p xs (initial_state p m) = Some s0" and step: "step_to p s0 x s"
    by (auto simp: run_append run_single simp del: run.simps(2) split: option.splits)
  have "wf_state p s0" using wf_run [OF idx wf_initial_state s0] idx by simp
  then show ?case using step names_step snoc.IH [OF s0] by (fastforce simp: step_to_def)
qed

section \<open>Sizes that fit\<close>

text \<open>The text of a program fits 64 bits, and so does the number \<open>n\<close> of steps.\<close>

definition action_fits :: "action \<Rightarrow> bool" where
  "action_fits a \<longleftrightarrow>
     length (a_mutex a) < 2 ^ 64 \<and> length (a_rwlock a) < 2 ^ 64 \<and> length (a_semaphore a) < 2 ^ 64 \<and>
     length (a_barrier a) < 2 ^ 64 \<and> length (a_condition a) < 2 ^ 64 \<and> length (a_address a) < 2 ^ 64 \<and>
     a_parties a < 2 ^ 64"

definition program_fits :: "program \<Rightarrow> nat \<Rightarrow> bool" where
  "program_fits p n \<longleftrightarrow>
     length p < 2 ^ 64 \<and> length (concat p) < 2 ^ 64 \<and> list_all (list_all action_fits) p \<and> n < 2 ^ 64"

lemma program_fitsD:
  assumes "program_fits p n"
  shows "length p < 2 ^ 64" "length (concat p) < 2 ^ 64" "n < 2 ^ 64"
    "a \<in> set (concat p) \<Longrightarrow> action_fits a"
  using assms by (auto simp: program_fits_def list_all_iff)

lemma thread_below_concat: "t < length p \<Longrightarrow> length (p ! t) \<le> length (concat p)"
  by (induction p arbitrary: t) (auto simp: nth_Cons split: nat.split intro: trans_le_add2)

lemma ascending_below: "ascending xs \<Longrightarrow> (\<And>x. x \<in> set xs \<Longrightarrow> x < n) \<Longrightarrow> length xs \<le> (n::nat)"
  using card_mono [of "{..<n}" "set xs"] by (auto simp: distinct_card [symmetric] ascending_distinct)

lemma sized_threads:
  assumes "program_fits p n" "ascending xs" "\<And>x. x \<in> set xs \<Longrightarrow> x < length p"
  shows "sized fits xs"
  using ascending_below [OF assms(2,3)] assms(3) program_fitsD(1) [OF assms(1)]
  by (fastforce simp: sized_def fits_def list_all_iff)

lemma sized_map:
  assumes "program_fits p n" "keys_in m (f ` set (concat p))"
    and "\<And>a. action_fits a \<Longrightarrow> length (f a) < 2 ^ 64"
    and "\<And>k v. mlookup m k = Some v \<Longrightarrow> P v"
  shows "sized (named P) (mentries m)"
proof -
  have "length (mentries m) \<le> length (map f (concat p))"
    using assms(2) by (intro keys_in_count) (simp del: set_concat)
  moreover have "named P e" if "e \<in> set (mentries m)" for e
  proof -
    obtain k v where e: "e = (k, v)" by (cases e)
    then have look: "mlookup m k = Some v" using that by (simp add: mentries_iff)
    then obtain a where "a \<in> set (concat p)" "k = f a" using assms(2) unfolding keys_in_def by blast
    then show ?thesis using assms(3,4) look program_fitsD(4) [OF assms(1)] e by (simp add: named_def)
  qed
  ultimately show ?thesis
    using program_fitsD(2) [OF assms(1)] by (auto simp: sized_def list_all_iff)
qed

lemma sized_filter: "sized P xs \<Longrightarrow> sized P (filter Q xs)"
  by (simp add: sized_def list_all_iff le_less_trans [OF length_filter_le])

lemma sized_mapped: "sized P xs \<Longrightarrow> (\<And>x. x \<in> set xs \<Longrightarrow> P x \<Longrightarrow> Q (g x)) \<Longrightarrow> sized Q (map g xs)"
  by (auto simp: sized_def list_all_iff)

lemma sized_all: "length xs < 2 ^ 64 \<Longrightarrow> (\<And>x. x \<in> set xs \<Longrightarrow> P x) \<Longrightarrow> sized P xs"
  by (simp add: sized_def list_all_iff)

lemma initial_barrier_parties:
  assumes "mlookup (initial_barriers p) x = Some b"
  shows "\<exists>a\<in>set (concat p). parties b = a_parties a"
proof -
  have "mlookup (fold add_barrier as bs) x = Some b \<Longrightarrow> set as \<subseteq> A \<Longrightarrow>
      (\<And>b. mlookup bs x = Some b \<Longrightarrow> \<exists>a\<in>A. parties b = a_parties a) \<Longrightarrow>
      \<exists>a\<in>A. parties b = a_parties a" for as bs and A :: "action set"
  proof (induction as arbitrary: bs)
    case (Cons a as)
    have "mlookup (fold add_barrier as (add_barrier a bs)) x = Some b" using Cons.prems(1) by simp
    then show ?case
      by (rule Cons.IH) (use Cons.prems(2,3) in \<open>auto simp: add_barrier_def split: if_splits\<close>)
  qed simp
  from this [of "concat p" mempty "set (concat p)"] show ?thesis
    using assms by (simp add: initial_barriers_def del: set_concat)
qed

lemma run_machine_sized:
  assumes fits: "program_fits p n" and idx: "indexable p"
    and run: "run p xs (initial_state p m) = Some s" and short: "length xs \<le> n"
  shows "machine_sized s"
proof -
  note wf = wf_stateD [OF wf_run [OF idx wf_initial_state run]]
  note F = program_fitsD [OF fits]
  have names: "names_ok p n s" using names_run [OF idx run] names_ok_mono short by blast
  note keys = names [unfolded names_ok_def]
  have stores: "stores_ok (a_address ` set (concat p)) n (st_store_buffers s) (st_pso_buffers s)"
    using keys by blast
  have thread: "fits t" if "t < length p" for t using that F(1) by (simp add: fits_def)
  have len: "length (st_pc s) = length p" "length (st_started s) = length p"
      "length (st_registers s) = length p" "length (st_phase s) = length p"
      "length (st_store_buffers s) = length p" "length (st_pso_buffers s) = length p"
    using wf(1) by (simp_all add: shape_ok_def)
  have pcs: "sized fits (st_pc s)"
  proof (rule sized_all)
    show "fits pc" if pc: "pc \<in> set (st_pc s)" for pc
    proof -
      obtain t where t: "t < length p" "pc = st_pc s ! t" using pc len(1) by (auto simp: in_set_conv_nth)
      then have "pc \<le> length (concat p)"
        using wf(2) thread_below_concat [OF t(1)] unfolding pc_ok_def by (metis order_trans)
      then show ?thesis using F(2) by (simp add: fits_def)
    qed
  qed (use F(1) in \<open>simp add: len\<close>)
  have mutexes: "sized (named fits) (mentries (st_mutex_owner s))"
    by (rule sized_map [OF fits, where f = a_mutex])
       (use keys wf(3) thread in \<open>auto simp: action_fits_def mutex_ok_def simp del: set_concat\<close>)
  have rwlocks: "sized (named (\<lambda>v. (case fst v of None \<Rightarrow> True | Some t \<Rightarrow> fits t) \<and> sized fits (snd v)))
       (occupied_rwlocks s)"
  proof -
    have "sized (named (\<lambda>rw. (\<forall>w. writer_holder rw = Some w \<longrightarrow> fits w) \<and> sized fits (mkeys (reader_holders rw))))
        (mentries (st_rwlocks s))"
    proof (rule sized_map [OF fits, where f = a_rwlock])
      show "(\<forall>w. writer_holder rw = Some w \<longrightarrow> fits w) \<and> sized fits (mkeys (reader_holders rw))"
        if "mlookup (st_rwlocks s) x = Some rw" for x rw
      proof (intro conjI allI impI)
        show "fits w" if "writer_holder rw = Some w" for w
          using wf(4) \<open>mlookup (st_rwlocks s) x = Some rw\<close> that thread unfolding rwlock_ok_def by blast
        show "sized fits (mkeys (reader_holders rw))"
          by (rule sized_threads [OF fits])
             (use wf(4) that in \<open>auto simp: rwlock_ok_def set_mkeys omember_def\<close>)
      qed
    qed (use keys in \<open>auto simp: action_fits_def simp del: set_concat\<close>)
    from sized_filter [OF this] show ?thesis
      unfolding occupied_rwlocks_def by (rule sized_mapped) (auto simp: named_def split: option.split)
  qed
  have sems: "sized (named fits) (nonzero_semaphores s)"
  proof -
    have "counters_below (length xs) s"
      using run_parts(1,5) [OF run] counters_initial by (simp add: initial_state_pc)
    then have "permits sem \<le> n" if "mlookup (st_semaphores s) x = Some sem" for x sem
      using counters_below_permits [OF _ that] short order_trans by blast
    then have "sized (named (\<lambda>sem. fits (permits sem))) (mentries (st_semaphores s))"
      by (intro sized_map [OF fits, where f = a_semaphore])
         (use keys F(3) in \<open>auto simp: action_fits_def fits_def simp del: set_concat intro: le_less_trans\<close>)
    from sized_filter [OF this] show ?thesis
      unfolding nonzero_semaphores_def by (rule sized_mapped) (auto simp: named_def)
  qed
  have bars: "sized (named (\<lambda>v. fits (fst v) \<and> sized fits (snd v))) (active_barriers s)"
  proof -
    have parties: "fits (parties b)" if look: "mlookup (st_barriers s) x = Some b" for x b
    proof -
      have "map_option parties (mlookup (initial_barriers p) x) = Some (parties b)"
        using run_parts(4) [OF run] look unfolding parties_kept_def
        by (metis (no_types) initial_state_pc exec_state.select_convs(8) option.map(2))
      then obtain c where c: "mlookup (initial_barriers p) x = Some c" "parties c = parties b" by blast
      obtain a where "a \<in> set (concat p)" "parties c = a_parties a"
        using initial_barrier_parties [OF c(1)] by blast
      then show ?thesis using F(4) c(2) by (simp add: action_fits_def fits_def)
    qed
    have "sized (named (\<lambda>b. fits (parties b) \<and> sized fits (mkeys (arrivals b)))) (mentries (st_barriers s))"
    proof (rule sized_map [OF fits, where f = a_barrier])
      show "fits (parties b) \<and> sized fits (mkeys (arrivals b))"
        if "mlookup (st_barriers s) x = Some b" for x b
      proof
        show "sized fits (mkeys (arrivals b))"
          by (rule sized_threads [OF fits])
             (use wf(6) that in \<open>auto simp: barrier_ok_def barrier_entry_ok_def arrival_ok_def
                parked_at_def set_mkeys omember_def\<close>)
      qed (rule parties [OF that])
    qed (use keys in \<open>auto simp: action_fits_def simp del: set_concat\<close>)
    from sized_filter [OF this] show ?thesis
      unfolding active_barriers_def by (rule sized_mapped) (auto simp: named_def)
  qed
  have waits: "sized (named (sized fits)) (nonempty_wait_sets s)"
    unfolding nonempty_wait_sets_def
  proof (rule sized_filter, rule sized_map [OF fits, where f = a_condition])
    show "sized fits ws" if "mlookup (st_waiters s) c = Some ws" for c ws
    proof -
      have "mget [] (st_waiters s) c = ws" using that by (simp add: mget_def)
      then show ?thesis using wf(5) by (intro sized_threads [OF fits]) (auto simp: wait_ok_def)
    qed
  qed (use keys in \<open>auto simp: action_fits_def simp del: set_concat\<close>)
  have regs: "sized (\<lambda>regs. length regs = kRegisterCount) (st_registers s)"
    by (rule sized_all) (use wf(1) F(1) in \<open>auto simp: shape_ok_def in_set_conv_nth\<close>)
  have cells: "sized (named (\<lambda>_. True)) (nonzero_cells s)"
    unfolding nonzero_cells_def
    by (rule sized_filter, rule sized_map [OF fits, where f = a_address])
       (use keys in \<open>auto simp: action_fits_def simp del: set_concat\<close>)
  have tso: "sized (sized (named (\<lambda>_. True))) (st_store_buffers s)"
  proof (rule sized_all)
    show "sized (named (\<lambda>_. True)) buf" if "buf \<in> set (st_store_buffers s)" for buf
    proof (rule sized_all)
      show "length buf < 2 ^ 64"
        using stores that F(3) unfolding stores_ok_def by (meson le_less_trans)
      show "named (\<lambda>_. True) e" if "e \<in> set buf" for e
      proof -
        have "fst e \<in> a_address ` set (concat p)"
          using stores \<open>buf \<in> set (st_store_buffers s)\<close> that unfolding stores_ok_def by blast
        then show ?thesis using F(4) by (auto simp: named_def action_fits_def simp del: set_concat)
      qed
    qed
  qed (use F(1) in \<open>simp add: len\<close>)
  have pso: "sized (sized (named (sized (\<lambda>_. True)))) (pso_part s)"
    unfolding pso_part_def
  proof (rule sized_all)
    show "sized (named (sized (\<lambda>_. True))) es" if es: "es \<in> set (map mentries (st_pso_buffers s))" for es
    proof -
      obtain buf where buf: "buf \<in> set (st_pso_buffers s)" "es = mentries buf" using es by auto
      have "keys_in buf (a_address ` set (concat p))"
          "\<And>x vs. mlookup buf x = Some vs \<Longrightarrow> length vs \<le> n"
        using stores buf(1) unfolding stores_ok_def by blast+
      then show ?thesis
        unfolding buf(2)
        by (intro sized_map [OF fits, where f = a_address])
           (use F(3) in \<open>auto simp: action_fits_def sized_def list_all_iff intro: le_less_trans\<close>)
    qed
  qed (use F(1) in \<open>simp add: len\<close>)
  show ?thesis
    unfolding machine_sized_def
    using pcs mutexes rwlocks sems bars waits regs cells tso pso
      sized_all [of "st_started s" "\<lambda>_. True"] sized_all [of "st_phase s" "\<lambda>_. True"] len F(1)
    by simp
qed

end
