(* ===== verification/Naive_Complete.thy ===== *)
theory Naive_Complete
  imports Naive_Correct Sizes
begin

text \<open>
  Exhaustiveness of the naive search, with the cycle cut: a run of minimal length to a state
  of interest never revisits a behaviour (the part between two visits could be left out, by
  the bisimulation), so the explorer follows it to its end.
\<close>

section \<open>The history of a walk\<close>

text \<open>An entry of the history is the fingerprint of a prefix of the walk, under its length.\<close>

definition history_of :: "program \<Rightarrow> memory_model \<Rightarrow> schedule \<Rightarrow> state_history \<Rightarrow> bool" where
  "history_of p m xs h \<longleftrightarrow>
     (\<forall>fp k. mlookup h fp = Some k \<longrightarrow> k \<le> length xs \<and>
        (\<exists>s. run p (take k xs) (initial_state p m) = Some s \<and> behavioral_state_fingerprint s = fp))"

lemma history_of_snoc:
  assumes "history_of p m xs h" "run p (xs @ [x]) (initial_state p m) = Some s"
    and "st_schedule s = xs @ [x]"
  shows "history_of p m (xs @ [x])
    (memplace (behavioral_state_fingerprint s) (length (st_schedule s)) h)"
  unfolding history_of_def
proof (intro allI impI)
  fix fp k
  assume look: "mlookup (memplace (behavioral_state_fingerprint s) (length (st_schedule s)) h) fp = Some k"
  show "k \<le> length (xs @ [x]) \<and> (\<exists>s. run p (take k (xs @ [x])) (initial_state p m) = Some s \<and>
      behavioral_state_fingerprint s = fp)"
  proof (cases "mlookup h fp = Some k")
    case True
    then have "k \<le> length xs" "\<exists>s. run p (take k xs) (initial_state p m) = Some s \<and>
        behavioral_state_fingerprint s = fp"
      using assms(1) by (auto simp: history_of_def)
    then show ?thesis by simp
  next
    case False
    then have "fp = behavioral_state_fingerprint s" "k = length (st_schedule s)"
      using look by (auto simp: mget_def split: if_splits option.splits)
    then show ?thesis using assms(2,3) by simp
  qed
qed

lemma start_walk_history:
  assumes "start_walk p m b xs s h" "requires_cycle_detection p"
  shows "history_of p m xs h"
  using assms(1)
proof (induction xs arbitrary: s h rule: rev_induct)
  case Nil
  then have "h = initial_state_history (initial_state p m)"
    using assms(2) by (auto simp: start_walk_def initial_history_def)
  then show ?case
    by (auto simp: history_of_def initial_state_history_def initial_state_pc split: if_splits)
next
  case (snoc x xs)
  define s0 where "s0 = initial_state p m"
  from snoc.prems obtain s1 h1 where w1: "start_walk p m b xs s1 h1"
    and last: "walk p b (requires_cycle_detection p) [x] s1 h1 = Some (s, h)"
    by (auto simp: start_walk_def walk_append simp del: walk.simps(2) split: option.splits)
  have "observe True s h1 = Inr (None, h)" using last assms(2) unfolding walk_single by auto
  then have h: "h = memplace (behavioral_state_fingerprint s) (length (st_schedule s)) h1"
    by (auto simp: observe_def observe_path_behavioral_state_def Let_def res_simps split: option.splits)
  have "run p (xs @ [x]) (initial_state p m) = Some s"
    using walk_run snoc.prems unfolding start_walk_def by blast
  then show ?case
    unfolding h using history_of_snoc snoc.IH [OF w1] start_walk_schedule [OF snoc.prems] by blast
qed

lemma observe_walk:
  assumes "start_walk p m b xs s h" "execute_enabled_step p s x = Inr (s', r)"
  shows "\<exists>c h'. observe (requires_cycle_detection p) s' h = Inr (c, h') \<and>
    (c \<noteq> None \<longrightarrow> requires_cycle_detection p \<and>
       (\<exists>k\<le>length xs. \<exists>sk. run p (take k xs) (initial_state p m) = Some sk \<and>
          behavioral_state_fingerprint sk = behavioral_state_fingerprint s' \<and> c = Some k))"
proof (cases "requires_cycle_detection p")
  case True
  have hist: "history_of p m xs h" by (rule start_walk_history [OF assms(1) True])
  have len: "length (st_schedule s') = Suc (length xs)"
    using execute_enabled_step_parts(1) [OF assms(2)] start_walk_schedule [OF assms(1)] by simp
  show ?thesis
  proof (cases "mlookup h (behavioral_state_fingerprint s')")
    case None
    then show ?thesis using True by (simp add: observe_def observe_path_behavioral_state_def Let_def)
  next
    case (Some k)
    then have "k \<le> length xs" "\<exists>sk. run p (take k xs) (initial_state p m) = Some sk \<and>
        behavioral_state_fingerprint sk = behavioral_state_fingerprint s'"
      using hist by (auto simp: history_of_def)
    then have "\<exists>j\<le>length xs. \<exists>sk. run p (take j xs) (initial_state p m) = Some sk \<and>
        behavioral_state_fingerprint sk = behavioral_state_fingerprint s' \<and> Some k = Some j" by blast
    moreover have "\<exists>h'. observe (requires_cycle_detection p) s' h = Inr (Some k, h')"
      using True Some len \<open>k \<le> length xs\<close>
      by (simp add: observe_def observe_path_behavioral_state_def Let_def)
    ultimately show ?thesis using True by blast
  qed
qed (simp add: observe_def)

section \<open>Walks are short\<close>

text \<open>Below the step bound each thread takes at most \<open>b\<close> steps.\<close>

lemma walk_steps_bounded:
  assumes "walk p b d xs s h = Some (s', h')" "t < length (st_steps s)" "st_steps s ! t \<le> b"
  shows "st_steps s' ! t \<le> b"
  using assms
proof (induction xs arbitrary: s h)
  case (Cons x xs)
  then obtain s1 r h1 where x: "\<not> step_bound_reached s (s_thread x) b"
      "execute_enabled_step p s x = Inr (s1, r)" "walk p b d xs s1 h1 = Some (s', h')"
    by (auto split: sum.splits option.splits if_splits)
  have "st_steps s1 = (st_steps s)[s_thread x := Suc (st_steps s ! s_thread x)]"
    using execute_enabled_step_parts(2) [OF x(2)] .
  then have "t < length (st_steps s1)" "st_steps s1 ! t \<le> b"
    using x(1) Cons.prems(2,3) by (cases "t = s_thread x"; simp add: step_bound_reached_def)+
  then show ?case using Cons.IH x(3) by blast
qed simp

lemma length_by_class:
  fixes cls :: "'a \<Rightarrow> nat"
  assumes "\<And>x. x \<in> set xs \<Longrightarrow> cls x < n"
  shows "length xs = sum_list (map (\<lambda>t. length (filter (\<lambda>x. cls x = t) xs)) [0..<n])"
  using assms
proof (induction xs)
  case (Cons x xs)
  have "sum_list (map (\<lambda>t. length (filter (\<lambda>y. cls y = t) (x # xs))) [0..<n]) =
      sum_list (map (\<lambda>t. (if cls x = t then 1 else 0) + length (filter (\<lambda>y. cls y = t) xs)) [0..<n])"
    by (rule arg_cong [where f = sum_list]) simp
  also have "\<dots> = sum_list (map (\<lambda>t. if cls x = t then 1 else 0) [0..<n]) + length xs"
    using Cons by (simp add: sum_list_addf)
  also have "sum_list (map (\<lambda>t. if cls x = t then 1 else 0) [0..<n]) = (1::nat)"
    using Cons.prems [of x] by (simp add: interv_sum_list_conv_sum_set_nat)
  finally show ?case by simp
qed simp

lemma sum_list_bound:
  "(\<And>t. t < n \<Longrightarrow> f t \<le> (b::nat)) \<Longrightarrow> sum_list (map f [0..<n]) \<le> n * b"
  by (induction n) (simp_all add: add.commute add_mono)

lemma run_threads:
  "run p xs s = Some s' \<Longrightarrow> x \<in> set xs \<Longrightarrow> s_thread x < length p"
proof (induction xs arbitrary: s)
  case (Cons y ys)
  then have "y \<in> set (enabled_steps p s)" "\<exists>s1. run p ys s1 = Some s'"
    by (auto split: sum.splits if_splits)
  moreover have "s_thread y < length p"
    using calculation(1) enabled_steps_for_thread_thread by (auto simp: set_enabled_steps)
  ultimately show ?case using Cons by auto
qed simp

lemma start_walk_short:
  assumes "start_walk p m b xs s h"
  shows "length xs \<le> length p * b"
proof -
  have w: "walk p b (requires_cycle_detection p) xs (initial_state p m)
      (initial_history p (initial_state p m)) = Some (s, h)"
    using assms unfolding start_walk_def .
  note run = walk_run [OF w]
  have init: "length (st_steps (initial_state p m)) = length p"
      "t < length p \<Longrightarrow> st_steps (initial_state p m) ! t = 0" for t
    by (simp_all add: initial_state_pc)
  have "length (filter (\<lambda>x. s_thread x = t) xs) \<le> b" if "t < length p" for t
    using walk_steps_bounded [OF w, of t] run_steps [OF run, of t] init that by simp
  then show ?thesis
    using length_by_class [of xs s_thread "length p"] run_threads [OF run] sum_list_bound by metis
qed

section \<open>Exhaustiveness\<close>

lemma sim_all_finished:
  assumes "sim s t"
  shows "all_finished p s = all_finished p t"
  unfolding all_finished_def sim_observers [OF assms] simD(3) [OF assms] ..

text \<open>
  What an exploration presupposes of the program and of the step bound, which a look at the
  program decides: action indices below the flush marker, register ids in range, no \<open>Flush\<close>
  action in the source, and sizes within the counters; the text need only fit where
  fingerprints are taken.
\<close>

definition explorable :: "program \<Rightarrow> nat \<Rightarrow> bool" where
  "explorable p b \<longleftrightarrow>
     indexable p \<and> registers_ok p \<and> source_kinds_ok p \<and> length p * b < counter_limit \<and>
     (requires_cycle_detection p \<longrightarrow> program_fits p (Suc (length p * b)))"

lemma room_for_walk:
  assumes "explorable p b" "start_walk p m b xs s h"
  shows "room_for p 1 s"
proof -
  have run: "run p xs (initial_state p m) = Some s"
    using walk_run assms(2) unfolding start_walk_def by blast
  show ?thesis
    using assms wf_run [OF _ wf_initial_state run] run_parts(1,5) [OF run] counters_initial
      start_walk_short [OF assms(2)]
    by (simp add: room_for_def explorable_def initial_state_pc)
qed

text \<open>
  Every state some run reaches is behaviourally a state of a walk, unless the step bound cuts
  a walk: a step that closes a cycle leads to a behaviour the walk had before.
\<close>

lemma prefix_walk:
  "start_walk p m b xs s h \<Longrightarrow> \<exists>sk hk. start_walk p m b (take k xs) sk hk"
  using walk_append [of p b "requires_cycle_detection p" "take k xs" "drop k xs"]
  by (auto simp: start_walk_def split: option.splits)

lemma run_to_walk:
  assumes prog: "explorable p b"
    and unbounded: "\<And>ys s h x. start_walk p m b ys s h \<Longrightarrow> x \<in> set (enabled_steps p s) \<Longrightarrow>
      \<not> step_bound_reached s (s_thread x) b"
  shows "run p xs (initial_state p m) = Some s \<Longrightarrow> \<exists>ys t h. start_walk p m b ys t h \<and> sim s t"
proof (induction xs arbitrary: s rule: rev_induct)
  case Nil
  then have "start_walk p m b [] s (initial_history p (initial_state p m))"
    by (simp add: start_walk_def)
  then show ?case using sim_refl by blast
next
  case (snoc x xs)
  then obtain s0 where "run p xs (initial_state p m) = Some s0" and step: "step_to p s0 x s"
    by (auto simp: run_append run_single simp del: run.simps(2) split: option.splits)
  then obtain ys t h where w: "start_walk p m b ys t h" and t: "sim s0 t"
    using snoc.IH by blast
  obtain t' where t': "step_to p t x t'" "sim s t'"
    using sim_step_to [OF t step, of 0] room_for_walk [OF prog w] by auto
  then obtain r where r: "x \<in> set (enabled_steps p t)" "execute_enabled_step p t x = Inr (t', r)"
      "\<not> step_terminal r" by (auto simp: step_to_def)
  obtain c h' where c: "observe (requires_cycle_detection p) t' h = Inr (c, h')"
    and revisit: "c \<noteq> None \<longrightarrow> requires_cycle_detection p \<and>
      (\<exists>k\<le>length ys. \<exists>tk. run p (take k ys) (initial_state p m) = Some tk \<and>
         behavioral_state_fingerprint tk = behavioral_state_fingerprint t' \<and> c = Some k)"
    using observe_walk [OF w r(2)] by blast
  show ?case
  proof (cases c)
    case None
    then have "start_walk p m b (ys @ [x]) t' h'"
      using start_walk_snoc [OF w r(1) _ r(2,3)] unbounded [OF w r(1)] c by simp
    then show ?thesis using t'(2) by blast
  next
    case (Some k)
    then obtain tk where cyc: "requires_cycle_detection p" and run_k: "run p (take k ys) (initial_state p m) = Some tk"
      and same: "behavioral_state_fingerprint tk = behavioral_state_fingerprint t'"
      using revisit by blast
    obtain tk' hk where wk: "start_walk p m b (take k ys) tk' hk" using prefix_walk [OF w] by blast
    then have "tk' = tk" using walk_run run_k unfolding start_walk_def by fastforce
    have run_t': "run p (ys @ [x]) (initial_state p m) = Some t'"
      using walk_run w t'(1) unfolding start_walk_def run_append run_single [symmetric] by fastforce
    have short: "length ys \<le> length p * b" using start_walk_short [OF w] .
    have "program_fits p (Suc (length p * b))" "indexable p" using prog cyc by (simp_all add: explorable_def)
    then have "machine_sized tk" "machine_sized t'"
      using run_machine_sized run_k run_t' short by fastforce+
    then have "sim t' tk"
      using sim_of_fingerprint [of p t' tk "initial_state p m"] run_parts [OF run_k] run_parts [OF run_t']
        wf_run [OF _ wf_initial_state run_k] wf_run [OF _ wf_initial_state run_t'] prog same
      by (simp add: explorable_def)
    then show ?thesis using wk \<open>tk' = tk\<close> t'(2) sim_trans by blast
  qed
qed

lemma dfs_reports_walks:
  assumes dfs: "dfs_from_start p mx b m = Inr r" and full: "\<not> exploration_capped r"
    and walk: "start_walk p m b ys t h"
  shows "state_reported p b (requires_cycle_detection p) t h r"
proof -
  define d where "d = requires_cycle_detection p"
  obtain r0 h0 where r0: "dfs (depth_fuel p b) p mx b d (initial_state p m)
      (empty_result, initial_history p (initial_state p m)) = Inr (r0, h0)"
    and r: "r = r0\<lparr>exploration_capped := schedules_explored r0 \<ge> mx\<rparr>"
    using dfs by (auto simp: dfs_from_start_def Let_def res_simps d_def)
  have "explores_node p mx b d (initial_state p m) (initial_history p (initial_state p m))
      empty_result r0"
    using dfs_explores [OF r0] by blast
  moreover have "schedules_explored r0 < mx" using full r by simp
  ultimately have "subtree_reported p b d (initial_state p m)
      (initial_history p (initial_state p m)) r0"
    by (rule explores_complete(1))
  then have "state_reported p b d t h r0"
    using walk unfolding subtree_reported_def start_walk_def d_def by blast
  then show ?thesis by (simp add: r d_def state_reported_def step_reported_def)
qed

text \<open>
  A complete search: not capped and never cut by the step bound. It reports a deadlock, an
  error or a failed assertion as soon as any run of the program has one.
\<close>

lemma dfs_exhaustive:
  assumes prog: "explorable p b"
    and dfs: "dfs_from_start p mx b m = Inr r"
    and full: "\<not> exploration_capped r" "bound_exceeded_executions r = 0"
    and run: "run p xs (initial_state p m) = Some s"
  shows "enabled_steps p s = [] \<Longrightarrow> \<not> all_finished p s \<Longrightarrow> first_deadlock r \<noteq> None"
    "x \<in> set (enabled_steps p s) \<Longrightarrow> execute_enabled_step p s x = Inr (s', q) \<Longrightarrow>
     sr_error q \<noteq> None \<Longrightarrow> first_error r \<noteq> None"
    "x \<in> set (enabled_steps p s) \<Longrightarrow> execute_enabled_step p s x = Inr (s', q) \<Longrightarrow>
     sr_assertion q \<noteq> None \<Longrightarrow> first_assertion r \<noteq> None"
proof -
  have all: "state_reported p b (requires_cycle_detection p) t h r" if "start_walk p m b ys t h" for ys t h
    using dfs_reports_walks [OF dfs full(1) that] .
  have unbounded: "\<not> step_bound_reached t (s_thread y) b"
    if "start_walk p m b ys t h" "y \<in> set (enabled_steps p t)" for ys t h y
    using all [OF that(1)] that(2) full(2) by (auto simp: state_reported_def step_reported_def)
  obtain ys t h where w: "start_walk p m b ys t h" and t: "sim s t"
    using run_to_walk [OF prog _ run] unbounded by blast
  have same: "enabled_steps p s = enabled_steps p t" "all_finished p s = all_finished p t"
    using sim_enabled_steps [OF t] sim_all_finished [OF t] by simp_all
  show "enabled_steps p s = [] \<Longrightarrow> \<not> all_finished p s \<Longrightarrow> first_deadlock r \<noteq> None"
    using all [OF w] same by (simp add: state_reported_def)
  have step: "\<exists>q' t'. execute_enabled_step p t x = Inr (t', q') \<and> same_kind q q' \<and>
      step_reported p b (requires_cycle_detection p) t h x r \<and> \<not> step_bound_reached t (s_thread x) b"
    if x: "x \<in> set (enabled_steps p s)" "execute_enabled_step p s x = Inr (s', q)"
  proof -
    have "completes (execute_enabled_step p t x)"
      using room_for_walk [OF prog w] x(1) same(1) unfolding room_for_def
      by (intro execute_enabled_step_completes) auto
    then show ?thesis
      using agree_execute(2) [OF t x(2)] x all [OF w] same(1) unbounded [OF w]
      by (auto simp: completes_def state_reported_def)
  qed
  show "x \<in> set (enabled_steps p s) \<Longrightarrow> execute_enabled_step p s x = Inr (s', q) \<Longrightarrow>
     sr_error q \<noteq> None \<Longrightarrow> first_error r \<noteq> None"
    "x \<in> set (enabled_steps p s) \<Longrightarrow> execute_enabled_step p s x = Inr (s', q) \<Longrightarrow>
     sr_assertion q \<noteq> None \<Longrightarrow> first_assertion r \<noteq> None"
    using step by (fastforce simp: same_kind_def step_reported_def)+
qed

end
