(* ===== verification/Naive_Total.thy ===== *)
theory Naive_Total
  imports Naive_Complete
begin

text \<open>
  The naive explorer returns: its fuel covers every execution below the step bound, every step
  it executes completes, every report it makes passes its assertions, and the replay inside
  \<open>make_nontermination_report\<close> accepts the path and closes the cycle.
\<close>

section \<open>Replay of a path\<close>

lemma replay_stem_run:
  "run p xs s = Some s' \<Longrightarrow> wf_state p s \<Longrightarrow> indexable p \<Longrightarrow> replay_stem p i xs s = Inr s'"
proof (induction xs arbitrary: s i)
  case (Cons x xs)
  then obtain s1 r where x: "x \<in> set (enabled_steps p s)" "execute_enabled_step p s x = Inr (s1, r)"
      "\<not> step_terminal r" "run p xs s1 = Some s'"
    by (auto split: sum.splits if_splits)
  then show ?case
    using Cons.IH validate_enabled [OF Cons.prems(2,3) x(1)]
      wf_execute_enabled_step [OF Cons.prems(2,3) x(1,2)] Cons.prems(3) by simp
qed simp

lemma replay_cycle_run:
  "run p xs s = Some s' \<Longrightarrow> wf_state p s \<Longrightarrow> indexable p \<Longrightarrow>
   \<exists>obs'. replay_cycle p participant i xs s obs = Inr (s', obs')"
proof (induction xs arbitrary: s i obs)
  case (Cons x xs)
  then obtain s1 r where x: "x \<in> set (enabled_steps p s)" "execute_enabled_step p s x = Inr (s1, r)"
      "\<not> step_terminal r" "run p xs s1 = Some s'"
    by (auto split: sum.splits if_splits)
  then show ?case
    using Cons.IH validate_enabled [OF Cons.prems(2,3) x(1)]
      wf_execute_enabled_step [OF Cons.prems(2,3) x(1,2)] Cons.prems(3) by simp
qed simp

lemma nontermination_report_made:
  assumes idx: "indexable p" and run: "run p sch (initial_state p m) = Some s"
    and k: "k < length sch" "run p (take k sch) (initial_state p m) = Some sk"
    and same: "behavioral_state_fingerprint sk = behavioral_state_fingerprint s"
  shows "\<exists>nt. make_nontermination_report p sch k m = Inr nt \<and>
    nt_schedule nt = sch \<and> nt_stem nt = take k sch \<and> nt_cycle nt = drop k sch"
proof -
  have cycle: "run p (drop k sch) sk = Some s"
    using run k(2) run_append [of p "take k sch" "drop k sch"] by simp
  obtain obs' where "replay_cycle p (cycle_participants p (drop k sch)) k (drop k sch) sk
      (observe_enabledness p (cycle_participants p (drop k sch)) sk
        (replicate (length p) True, mempty)) = Inr (s, obs')"
    using replay_cycle_run [OF cycle wf_run [OF idx wf_initial_state k(2)] idx] by blast
  moreover have "replay_stem p 0 (take k sch) (initial_state p m) = Inr sk"
    using replay_stem_run [OF k(2) wf_initial_state idx] .
  moreover have "list_all (\<lambda>x. s_thread x < length p) (drop k sch)"
    using run_threads [OF cycle] by (simp add: list_all_iff)
  ultimately show ?thesis
    using k(1) same by (simp add: make_nontermination_report_def Let_def guarded_def)
qed

section \<open>Cycle counts\<close>

definition counts_ok :: "check_result \<Rightarrow> bool" where
  "counts_ok r \<longleftrightarrow>
     fair_cycles r + strongly_unfair_cycles r + unfair_cycles r = cycles_detected r"

lemma counts_ok_record [simp]:
  "counts_ok empty_result" "counts_ok (count_schedule r) = counts_ok r"
  "counts_ok (record_bound_exceeded r) = counts_ok r"
  "counts_ok (record_step_report q r) = counts_ok r"
  by (simp_all add: counts_ok_def empty_result_def record_bound_exceeded_def record_step_report_def)

lemma record_nontermination_made:
  "counts_ok r \<Longrightarrow> \<exists>r'. record_nontermination nt r = Inr r' \<and> counts_ok r'"
  by (cases "nt_fairness nt")
     (simp_all add: record_nontermination_def counts_ok_def Let_def guarded_def)

lemma record_leaf_made:
  assumes "wf_state p s" "enabled_steps p s = []" "source_kinds_ok p" "counts_ok r"
  shows "\<exists>r'. record_leaf p s r = Inr r' \<and> counts_ok r'"
  using deadlock_report_exact [OF assms(1-3)] assms(4)
  by (auto simp: record_leaf_def Let_def counts_ok_def)

section \<open>The search returns\<close>

lemma observed_cycle_report:
  assumes prog: "explorable p b" and w: "start_walk p m b xs s h"
    and x: "x \<in> set (enabled_steps p s)" "execute_enabled_step p s x = Inr (s', q)"
      "\<not> step_terminal q"
    and ob: "observe (requires_cycle_detection p) s' h = Inr (Some k, h')"
  shows "\<exists>nt. make_nontermination_report p (st_schedule s') k (st_model s') = Inr nt"
proof -
  have run: "run p xs (initial_state p m) = Some s"
    using walk_run w unfolding start_walk_def by blast
  have run': "run p (xs @ [x]) (initial_state p m) = Some s'"
    using run x unfolding run_append by simp
  obtain tk where "k \<le> length xs" "run p (take k xs) (initial_state p m) = Some tk"
      "behavioral_state_fingerprint tk = behavioral_state_fingerprint s'"
    using observe_walk [OF w x(2)] ob by auto
  then have "\<exists>nt. make_nontermination_report p (xs @ [x]) k m = Inr nt"
    using nontermination_report_made [OF _ run', of k tk] prog by (auto simp: explorable_def)
  then show ?thesis using run_parts(1,2) [OF run'] by (simp add: initial_state_pc)
qed

lemma dfs_returns:
  assumes prog: "explorable p b"
  shows "start_walk p m b xs s h \<Longrightarrow> counts_ok r \<Longrightarrow> length p * b < length xs + n \<Longrightarrow>
    \<exists>r'. dfs n p mx b (requires_cycle_detection p) s (r, h) = Inr (r', h) \<and> counts_ok r'"
proof (induction n arbitrary: xs s h r)
  case 0
  then show ?case using start_walk_short by fastforce
next
  case (Suc n)
  define d where "d = requires_cycle_detection p"
  have parts: "indexable p" "registers_ok p" "source_kinds_ok p"
    using prog by (simp_all add: explorable_def)
  have wf: "wf_state p s" using start_walk_wf [OF parts(1) Suc.prems(1)] .
  have children: "\<exists>r'. dfs_children n p mx b d s ys (r, h) = Inr (r', h) \<and> counts_ok r'"
    if "set ys \<subseteq> set (enabled_steps p s)" "counts_ok r" for ys r
    using that
  proof (induction ys arbitrary: r)
    case (Cons y ys)
    have y: "y \<in> set (enabled_steps p s)" and rest: "set ys \<subseteq> set (enabled_steps p s)"
      using Cons.prems(1) by simp_all
    have next_child: "\<exists>r'. (if schedules_explored r1 \<ge> mx then Inr (r1, h)
        else dfs_children n p mx b d s ys (r1, h)) = Inr (r', h) \<and> counts_ok r'"
      if "counts_ok r1" for r1
      using Cons.IH [OF rest that] that by simp
    show ?case
    proof (cases "step_bound_reached s (s_thread y) b")
      case True
      then show ?thesis
        using next_child [of "record_bound_exceeded r"] Cons.prems(2)
        by (simp add: Let_def split: if_splits)
    next
      case False
      have "completes (execute_enabled_step p s y)"
        using room_for_walk [OF prog Suc.prems(1)] y unfolding room_for_def
        by (intro execute_enabled_step_completes) auto
      then obtain s' q where ex: "execute_enabled_step p s y = Inr (s', q)"
        by (auto simp: completes_def)
      have counts: "counts_ok (record_step_report q r)"
          "counts_ok (count_schedule (record_step_report q r))" using Cons.prems(2) by simp_all
      obtain c h' where ob: "observe d s' h = Inr (c, h')"
        using observe_walk [OF Suc.prems(1) ex] by (auto simp: d_def)
      have body: "\<exists>r2. (if step_terminal q then Inr (count_schedule (record_step_report q r), h)
           else
             res_bind (observe d s' h) (\<lambda>(cycle, h1).
             case cycle of
               Some cycle_start \<Rightarrow>
                 res_bind (make_nontermination_report p (st_schedule s') cycle_start (st_model s'))
                   (\<lambda>nt. res_bind (record_nontermination nt (record_step_report q r)) (\<lambda>r2. Inr (r2, h1)))
             | None \<Rightarrow>
                 res_bind (dfs n p mx b d s' (record_step_report q r, h1))
                   (\<lambda>(r2, h2). Inr (r2, restore_history d s' h2)))) = Inr (r2, h) \<and> counts_ok r2"
      proof (cases "step_terminal q")
        case nt: False
        show ?thesis
        proof (cases c)
          case None
          have "start_walk p m b (xs @ [y]) s' h'"
            using start_walk_snoc [OF Suc.prems(1) y False ex nt] ob None by (simp add: d_def)
          then obtain r2 where "dfs n p mx b d s' (record_step_report q r, h') = Inr (r2, h')" "counts_ok r2"
            using Suc.IH [of "xs @ [y]" s' h' "record_step_report q r"] Suc.prems(3) counts by (auto simp: d_def)
          moreover have "restore_history d s' h' = h" using observe_None ob None by blast
          ultimately show ?thesis using nt ob None by simp
        next
          case (Some k)
          obtain nt1 where "make_nontermination_report p (st_schedule s') k (st_model s') = Inr nt1"
            using observed_cycle_report [OF prog Suc.prems(1) y ex nt] ob Some by (auto simp: d_def)
          moreover obtain r2 where "record_nontermination nt1 (record_step_report q r) = Inr r2" "counts_ok r2"
            using record_nontermination_made [OF counts(1)] by blast
          moreover have "h' = h" using observe_Some ob Some by blast
          ultimately show ?thesis using nt ob Some by simp
        qed
      qed (use counts in simp)
      then obtain r2 where r2: "counts_ok r2" and eq: "dfs_children n p mx b d s (y # ys) (r, h) =
          (if schedules_explored r2 \<ge> mx then Inr (r2, h) else dfs_children n p mx b d s ys (r2, h))"
      proof (elim exE conjE)
        fix r2 assume "counts_ok r2" and "(if step_terminal q then Inr (count_schedule (record_step_report q r), h)
           else
             res_bind (observe d s' h) (\<lambda>(cycle, h1).
             case cycle of
               Some cycle_start \<Rightarrow>
                 res_bind (make_nontermination_report p (st_schedule s') cycle_start (st_model s'))
                   (\<lambda>nt. res_bind (record_nontermination nt (record_step_report q r)) (\<lambda>r2. Inr (r2, h1)))
             | None \<Rightarrow>
                 res_bind (dfs n p mx b d s' (record_step_report q r, h1))
                   (\<lambda>(r2, h2). Inr (r2, restore_history d s' h2)))) = Inr (r2, h)"
        then show thesis
          by (intro that [of r2])
            (simp_all add: False ex Let_def split del: if_split cong: if_cong)
      qed
      show ?thesis unfolding eq using next_child [OF r2] .
    qed
  qed simp
  show ?case
    using children [of "enabled_steps p s" r] record_leaf_made [OF wf _ parts(3) Suc.prems(2)]
      Suc.prems(2) by (auto simp: d_def)
qed

lemma dfs_from_start_returns:
  assumes "explorable p b"
  shows "\<exists>r. dfs_from_start p mx b m = Inr r \<and> counts_ok r"
proof -
  have "start_walk p m b [] (initial_state p m) (initial_history p (initial_state p m))"
    by (simp add: start_walk_def)
  from dfs_returns [OF assms this counts_ok_record(1), of "depth_fuel p b" mx]
  show ?thesis by (auto simp: dfs_from_start_def Let_def depth_fuel_def counts_ok_def)
qed

end
