(* ===== verification/Minimizer.thy ===== *)
theory Minimizer
  imports Naive_Total "HOL-Library.Sublist"
begin

text \<open>
  Bug identities and schedule minimization (src/src/model/checker.cpp, from
  \<open>schedule_step_less\<close> to \<open>minimize_result_reports\<close>), and with them the complete
  \<open>ModelChecker::explore_naive\<close> and \<open>ModelChecker::minimize_schedule\<close>.
\<close>

section \<open>Identities\<close>

definition schedule_step_less :: "schedule_step \<Rightarrow> schedule_step \<Rightarrow> bool" where
  "schedule_step_less l r =
     (if s_thread l \<noteq> s_thread r then s_thread l < s_thread r else s_index l < s_index r)"

record race_identity =
  ri_address :: string
  ri_first :: schedule_step
  ri_second :: schedule_step

record assertion_identity =
  ai_endpoint :: schedule_step
  ai_reg :: nat
  ai_value :: val

record bug_identity_set =
  bi_race :: "race_identity option"
  bi_deadlock :: "blocked_thread list option"
  bi_error :: "schedule_step option"
  bi_assertion :: "assertion_identity option"

definition no_identities :: bug_identity_set where
  "no_identities = \<lparr>bi_race = None, bi_deadlock = None, bi_error = None, bi_assertion = None\<rparr>"

text \<open>The position of an enumerator in \<open>BlockedOnKind\<close>.\<close>

definition kind_rank :: "blocked_on_kind \<Rightarrow> nat" where
  "kind_rank k = (case k of On_Mutex \<Rightarrow> 0 | On_Thread \<Rightarrow> 1 | On_Condition \<Rightarrow> 2
     | On_RwLock_Writer \<Rightarrow> 3 | On_RwLock_Readers \<Rightarrow> 4 | On_Semaphore \<Rightarrow> 5 | On_Barrier \<Rightarrow> 6
     | On_RwLock_Upgrade \<Rightarrow> 7)"

definition blocked_thread_less :: "blocked_thread \<Rightarrow> blocked_thread \<Rightarrow> bool" where
  "blocked_thread_less l r =
     (if bt_thread l \<noteq> bt_thread r then bt_thread l < bt_thread r
      else if bt_kind l \<noteq> bt_kind r then kind_rank (bt_kind l) < kind_rank (bt_kind r)
      else if bt_mutex l \<noteq> bt_mutex r then bt_mutex l < bt_mutex r
      else if bt_rwlock l \<noteq> bt_rwlock r then bt_rwlock l < bt_rwlock r
      else if bt_semaphore l \<noteq> bt_semaphore r then bt_semaphore l < bt_semaphore r
      else if bt_barrier l \<noteq> bt_barrier r then bt_barrier l < bt_barrier r
      else if (bt_owner l \<noteq> None) \<noteq> (bt_owner r \<noteq> None) then bt_owner l = None
      else if value_or (bt_owner l) 0 \<noteq> value_or (bt_owner r) 0
        then value_or (bt_owner l) 0 < value_or (bt_owner r) 0
      else if (bt_target l \<noteq> None) \<noteq> (bt_target r \<noteq> None) then bt_target l = None
      else if value_or (bt_target l) 0 \<noteq> value_or (bt_target r) 0
        then value_or (bt_target l) 0 < value_or (bt_target r) 0
      else if bt_condition l \<noteq> bt_condition r then bt_condition l < bt_condition r
      else bt_self_wait l < bt_self_wait r)"

text \<open>\<open>std::sort\<close> under a strict order on the elements.\<close>

fun insert_by :: "('a \<Rightarrow> 'a \<Rightarrow> bool) \<Rightarrow> 'a \<Rightarrow> 'a list \<Rightarrow> 'a list" where
  "insert_by lt x [] = [x]"
| "insert_by lt x (y # ys) = (if lt y x then y # insert_by lt x ys else x # y # ys)"

definition sort_by :: "('a \<Rightarrow> 'a \<Rightarrow> bool) \<Rightarrow> 'a list \<Rightarrow> 'a list" where
  "sort_by lt xs = foldr (insert_by lt) xs []"

definition identity_of_race :: "race_report \<Rightarrow> race_identity" where
  "identity_of_race r =
     (if schedule_step_less (r_second r) (r_first r)
      then \<lparr>ri_address = r_address r, ri_first = r_second r, ri_second = r_first r\<rparr>
      else \<lparr>ri_address = r_address r, ri_first = r_first r, ri_second = r_second r\<rparr>)"

definition identity_of_deadlock :: "deadlock_report \<Rightarrow> blocked_thread list" where
  "identity_of_deadlock r = sort_by blocked_thread_less (dl_blocked r)"

definition identity_of_error :: "model_error_report \<Rightarrow> schedule_step" where
  "identity_of_error r = me_endpoint r"

definition identity_of_assertion :: "assertion_report \<Rightarrow> assertion_identity" where
  "identity_of_assertion r =
     \<lparr>ai_endpoint = af_endpoint r, ai_reg = af_reg r, ai_value = af_value r\<rparr>"

definition identities_of :: "check_result \<Rightarrow> bug_identity_set" where
  "identities_of r =
     \<lparr>bi_race = map_option identity_of_race (first_race r),
      bi_deadlock = map_option identity_of_deadlock (first_deadlock r),
      bi_error = map_option identity_of_error (first_error r),
      bi_assertion = map_option identity_of_assertion (first_assertion r)\<rparr>"

definition empty_identities :: "bug_identity_set \<Rightarrow> bool" where
  "empty_identities i \<longleftrightarrow>
     bi_race i = None \<and> bi_deadlock i = None \<and> bi_error i = None \<and> bi_assertion i = None"

text \<open>Each \<open>if\<close> of \<open>reproduces_identities\<close>: a target that is present must be met.\<close>

definition meets :: "('a \<Rightarrow> 'b) \<Rightarrow> 'a option \<Rightarrow> 'b option \<Rightarrow> bool" where
  "meets identity report target =
     (case target of None \<Rightarrow> True
      | Some t \<Rightarrow> (case report of None \<Rightarrow> False | Some r \<Rightarrow> identity r = t))"

definition reproduces_identities :: "check_result \<Rightarrow> bug_identity_set \<Rightarrow> bool" where
  "reproduces_identities r target \<longleftrightarrow>
     meets identity_of_race (first_race r) (bi_race target) \<and>
     meets identity_of_deadlock (first_deadlock r) (bi_deadlock target) \<and>
     meets identity_of_error (first_error r) (bi_error target) \<and>
     meets identity_of_assertion (first_assertion r) (bi_assertion target)"

definition is_report_endpoint :: "schedule_step \<Rightarrow> bug_identity_set \<Rightarrow> bool" where
  "is_report_endpoint x target \<longleftrightarrow>
     (case bi_race target of None \<Rightarrow> False | Some i \<Rightarrow> x = ri_first i \<or> x = ri_second i) \<or>
     bi_error target = Some x \<or>
     (case bi_assertion target of None \<Rightarrow> False | Some i \<Rightarrow> x = ai_endpoint i)"

section \<open>Minimization\<close>

fun last_index_below :: "nat \<Rightarrow> schedule \<Rightarrow> nat \<Rightarrow> nat option" where
  "last_index_below 0 sch tid = None"
| "last_index_below (Suc i) sch tid =
     (if s_thread (sch ! i) = tid then Some i else last_index_below i sch tid)"

definition last_step_index_for_thread :: "schedule \<Rightarrow> nat \<Rightarrow> nat option" where
  "last_step_index_for_thread sch tid = last_index_below (length sch) sch tid"

definition erase_at :: "nat \<Rightarrow> 'a list \<Rightarrow> 'a list" where
  "erase_at i xs = take i xs @ drop (Suc i) xs"

text \<open>The candidate of one thread: its last step erased, unless a report names that step.\<close>

definition candidate_without :: "bug_identity_set \<Rightarrow> schedule \<Rightarrow> nat \<Rightarrow> schedule option" where
  "candidate_without target sch tid =
     (case last_step_index_for_thread sch tid of
        None \<Rightarrow> None
      | Some i \<Rightarrow> if is_report_endpoint (sch ! i) target then None else Some (erase_at i sch))"

definition minimize_thread ::
  "program \<Rightarrow> nat \<Rightarrow> memory_model \<Rightarrow> bug_identity_set \<Rightarrow> nat \<Rightarrow> schedule \<times> bool \<Rightarrow>
   (schedule \<times> bool) res" where
  "minimize_thread p step_bound m target tid mc =
     (case candidate_without target (fst mc) tid of
        None \<Rightarrow> Inr mc
      | Some candidate \<Rightarrow>
          (case replay_schedule p candidate step_bound m of
             Inl (Invalid_Argument _) \<Rightarrow> Inr mc
           | Inl e \<Rightarrow> Inl e
           | Inr r \<Rightarrow> Inr (if reproduces_identities r target then (candidate, True) else mc)))"

definition minimize_pass ::
  "program \<Rightarrow> nat \<Rightarrow> memory_model \<Rightarrow> bug_identity_set \<Rightarrow> schedule \<Rightarrow> (schedule \<times> bool) res" where
  "minimize_pass p step_bound m target sch =
     res_fold (minimize_thread p step_bound m target) [0..<length p] (sch, False)"

text \<open>A pass that changed something made the schedule shorter, so the loop ends.\<close>

lemma last_index_below_Some:
  "last_index_below n sch t = Some i \<Longrightarrow> i < n \<and> s_thread (sch ! i) = t \<and>
     (\<forall>j. i < j \<longrightarrow> j < n \<longrightarrow> s_thread (sch ! j) \<noteq> t)"
  by (induction n) (auto simp: less_Suc_eq split: if_splits)

lemma length_erase_at: "i < length xs \<Longrightarrow> Suc (length (erase_at i xs)) = length xs"
  by (simp add: erase_at_def)

lemma candidate_shorter:
  "candidate_without target sch tid = Some c \<Longrightarrow> Suc (length c) = length sch"
  by (auto simp: candidate_without_def last_step_index_for_thread_def length_erase_at
      dest: last_index_below_Some split: option.splits if_splits)

lemma minimize_thread_cases:
  assumes "minimize_thread p b m target tid mc = Inr mc'"
  obtains "mc' = mc" | r where "candidate_without target (fst mc) tid = Some (fst mc')" "snd mc'"
    "replay_schedule p (fst mc') b m = Inr r" "reproduces_identities r target"
  using assms
  by (auto simp: minimize_thread_def split: option.splits sum.splits exn.splits if_splits)

lemma minimize_pass_shorter:
  assumes "minimize_pass p b m target sch = Inr (sch', c)"
  shows "length sch' \<le> length sch \<and> (c \<longrightarrow> length sch' < length sch)"
proof -
  have "\<forall>mc. length (fst mc) \<le> length sch \<and> (snd mc \<longrightarrow> length (fst mc) < length sch) \<longrightarrow>
      minimize_thread p b m target t mc = Inr mc' \<longrightarrow>
      length (fst mc') \<le> length sch \<and> (snd mc' \<longrightarrow> length (fst mc') < length sch)" for t mc'
    by (auto elim!: minimize_thread_cases dest!: candidate_shorter)
  then show ?thesis
    using res_fold_invariant [of "minimize_thread p b m target" "[0..<length p]" "(sch, False)" "(sch', c)"
      "\<lambda>mc. length (fst mc) \<le> length sch \<and> (snd mc \<longrightarrow> length (fst mc) < length sch)"] assms
    by (simp add: minimize_pass_def)
qed

function minimize_schedule_for_identities ::
  "program \<Rightarrow> schedule \<Rightarrow> bug_identity_set \<Rightarrow> nat \<Rightarrow> memory_model \<Rightarrow> schedule res" where
  "minimize_schedule_for_identities p sch target step_bound m =
     (case minimize_pass p step_bound m target sch of
        Inl e \<Rightarrow> Inl e
      | Inr (sch', changed) \<Rightarrow>
          if changed then minimize_schedule_for_identities p sch' target step_bound m
          else Inr sch')"
  by pat_completeness auto
termination
  by (relation "measure (\<lambda>(p, sch, target, b, m). length sch)")
    (auto dest: minimize_pass_shorter)

declare minimize_schedule_for_identities.simps [simp del]

section \<open>What minimization keeps\<close>

definition reproduces :: "program \<Rightarrow> nat \<Rightarrow> memory_model \<Rightarrow> bug_identity_set \<Rightarrow> schedule \<Rightarrow> bool" where
  "reproduces p b m target sch \<longleftrightarrow>
     (\<exists>r. replay_schedule p sch b m = Inr r \<and> reproduces_identities r target)"

definition per_thread :: "nat \<Rightarrow> schedule \<Rightarrow> schedule" where
  "per_thread t sch = filter (\<lambda>x. s_thread x = t) sch"

text \<open>Erasing the last step of a thread leaves a prefix of every thread's steps.\<close>

lemma erase_last_prefix:
  assumes "i < length sch" "\<forall>j. i < j \<longrightarrow> j < length sch \<longrightarrow> s_thread (sch ! j) \<noteq> s_thread (sch ! i)"
  shows "prefix (per_thread t (erase_at i sch)) (per_thread t sch)"
proof -
  have split: "sch = take i sch @ sch ! i # drop (Suc i) sch" using assms(1) by (rule id_take_nth_drop)
  have "filter (\<lambda>x. s_thread x = s_thread (sch ! i)) (drop (Suc i) sch) = []"
    using assms(2) by (auto simp: filter_empty_conv in_set_conv_nth)
  then have "prefix (per_thread t (take i sch @ drop (Suc i) sch))
      (per_thread t (take i sch @ sch ! i # drop (Suc i) sch))"
    by (cases "s_thread (sch ! i) = t") (simp_all add: per_thread_def)
  then show ?thesis using split by (simp add: erase_at_def)
qed

lemma candidate_prefix:
  "candidate_without target sch tid = Some c \<Longrightarrow> prefix (per_thread t c) (per_thread t sch)"
  using erase_last_prefix
  by (auto simp: candidate_without_def last_step_index_for_thread_def
      dest!: last_index_below_Some split: option.splits if_splits)

text \<open>An invariant of the schedules that reproduce the target is an invariant of the result.\<close>

lemma minimize_pass_invariant:
  assumes pass: "minimize_pass p b m target sch = Inr (sch', c)" and start: "I sch"
    and step: "\<And>xs tid ys. I xs \<Longrightarrow> candidate_without target xs tid = Some ys \<Longrightarrow>
      reproduces p b m target ys \<Longrightarrow> I ys"
  shows "I sch'"
proof -
  have "I (fst mc')" if "I (fst mc)" "minimize_thread p b m target t mc = Inr mc'" for t mc mc'
    using that(2)
  proof (cases rule: minimize_thread_cases)
    case (2 r)
    then show ?thesis using step [OF that(1)] by (auto simp: reproduces_def)
  qed (use that in simp)
  then have "I (fst (sch', c))"
    using res_fold_invariant [of "minimize_thread p b m target" "[0..<length p]" "(sch, False)"
      "(sch', c)" "\<lambda>mc. I (fst mc)"] pass start by (simp add: minimize_pass_def)
  then show ?thesis by simp
qed

lemma minimize_invariant:
  assumes "minimize_schedule_for_identities p sch target b m = Inr sch'" and "I sch"
    and "\<And>xs tid ys. I xs \<Longrightarrow> candidate_without target xs tid = Some ys \<Longrightarrow>
      reproduces p b m target ys \<Longrightarrow> I ys"
  shows "I sch'"
  using assms(1,2)
proof (induction sch rule: measure_induct_rule [where f = length])
  case (less sch)
  from less.prems(1) obtain sch1 c where pass: "minimize_pass p b m target sch = Inr (sch1, c)"
    and rest: "if c then minimize_schedule_for_identities p sch1 target b m = Inr sch' else sch' = sch1"
    by (subst (asm) minimize_schedule_for_identities.simps) (auto split: sum.splits if_splits)
  have "I sch1" by (rule minimize_pass_invariant [OF pass, of I]) (use less.prems(2) assms(3) in blast)+
  then show ?case
    using rest less.IH [of sch1] minimize_pass_shorter [OF pass] by (cases c) auto
qed

lemma minimize_reproduces:
  assumes "minimize_schedule_for_identities p sch target b m = Inr sch'"
    and "reproduces p b m target sch"
  shows "reproduces p b m target sch'"
  using minimize_invariant [OF assms(1), of "reproduces p b m target"] assms(2) by blast

lemma minimize_prefix:
  assumes "minimize_schedule_for_identities p sch target b m = Inr sch'"
  shows "prefix (per_thread t sch') (per_thread t sch)"
  using minimize_invariant [OF assms, of "\<lambda>xs. prefix (per_thread t xs) (per_thread t sch)"]
    candidate_prefix prefix_order.trans by blast

text \<open>The last pass changed nothing: no thread's last step can be left out.\<close>

lemma res_fold_stuck:
  assumes "res_fold (minimize_thread p b m target) tids mc = Inr (xs, False)"
  shows "mc = (xs, False) \<and> (\<forall>tid\<in>set tids. minimize_thread p b m target tid (xs, False) = Inr (xs, False))"
  using assms
proof (induction tids arbitrary: mc)
  case (Cons tid tids)
  then obtain mc1 where step: "minimize_thread p b m target tid mc = Inr mc1"
    and rest: "res_fold (minimize_thread p b m target) tids mc1 = Inr (xs, False)"
    by (auto simp: res_simps)
  have mc1: "mc1 = (xs, False)" using Cons.IH [OF rest] by simp
  from step have "mc = mc1" by (cases rule: minimize_thread_cases) (use mc1 in simp_all)
  then show ?case using Cons.IH [OF rest] step mc1 by simp
qed simp

lemma minimize_minimal:
  assumes "minimize_schedule_for_identities p sch target b m = Inr sch'"
    and "tid < length p" "candidate_without target sch' tid = Some c"
  shows "\<not> reproduces p b m target c"
  using assms(1)
proof (induction sch rule: measure_induct_rule [where f = length])
  case (less sch)
  from less.prems obtain sch1 ch where pass: "minimize_pass p b m target sch = Inr (sch1, ch)"
    and rest: "if ch then minimize_schedule_for_identities p sch1 target b m = Inr sch' else sch' = sch1"
    by (subst (asm) minimize_schedule_for_identities.simps) (auto split: sum.splits if_splits)
  show ?case
  proof (cases ch)
    case True
    then show ?thesis using rest less.IH [of sch1] minimize_pass_shorter [OF pass] by simp
  next
    case False
    then have "minimize_thread p b m target tid (sch', False) = Inr (sch', False)"
      using rest pass assms(2) res_fold_stuck unfolding minimize_pass_def by force
    then show ?thesis
      using assms(3) by (auto simp: minimize_thread_def reproduces_def)
  qed
qed

text \<open>It returns when replay answers every candidate with a result or a rejection.\<close>

definition answers :: "'a res \<Rightarrow> bool" where
  "answers x \<longleftrightarrow> (\<exists>r. x = Inr r) \<or> (\<exists>msg. x = Inl (Invalid_Argument msg))"

lemma minimize_returns:
  assumes "\<And>xs. answers (replay_schedule p xs b m)"
  shows "\<exists>sch'. minimize_schedule_for_identities p sch target b m = Inr sch'"
proof (induction sch rule: measure_induct_rule [where f = length])
  case (less sch)
  have thread: "\<exists>mc'. minimize_thread p b m target tid mc = Inr mc'" for tid mc
  proof (cases "candidate_without target (fst mc) tid")
    case (Some c)
    then show ?thesis using assms [of c] by (auto simp: minimize_thread_def answers_def)
  qed (simp add: minimize_thread_def)
  have fold: "\<exists>mc'. res_fold (minimize_thread p b m target) tids mc = Inr mc'" for tids mc
  proof (induction tids arbitrary: mc)
    case (Cons tid tids)
    obtain mc1 where "minimize_thread p b m target tid mc = Inr mc1" using thread by blast
    then show ?case using Cons.IH by simp
  qed simp
  obtain sch1 c where pass: "minimize_pass p b m target sch = Inr (sch1, c)"
    using fold unfolding minimize_pass_def by (metis prod.exhaust)
  show ?case
    using less.IH [of sch1] minimize_pass_shorter [OF pass]
    by (subst minimize_schedule_for_identities.simps) (simp add: pass)
qed

end
