(* ===== verification/Explore_Naive.thy ===== *)
theory Explore_Naive
  imports Minimizer
begin

text \<open>
  \<open>ModelChecker::explore_naive\<close> and \<open>ModelChecker::minimize_schedule\<close> in full
  (src/src/model/checker.cpp): the search, then the minimization of each first report. The
  minimized reports are found by replaying minimized schedules, and a replay that loses the
  report's identity is a \<open>std::logic_error\<close>; the theorems show that this never happens.
\<close>

section \<open>Minimized reports\<close>

definition minimized_race_report ::
  "program \<Rightarrow> race_report \<Rightarrow> nat \<Rightarrow> memory_model \<Rightarrow> race_report res" where
  "minimized_race_report p report step_bound m =
     (let target = no_identities\<lparr>bi_race := Some (identity_of_race report)\<rparr> in
      res_bind (minimize_schedule_for_identities p (r_schedule report) target step_bound m) (\<lambda>sch.
      res_bind (replay_schedule p sch step_bound m) (\<lambda>r.
      case first_race r of
        Some minimized \<Rightarrow>
          guarded (reproduces_identities r target)
            (Logic_Error ''race schedule minimization failed to preserve bug identity'')
            (Inr minimized)
      | None \<Rightarrow> Inl (Logic_Error ''race schedule minimization failed to preserve bug identity''))))"

definition minimized_deadlock_report ::
  "program \<Rightarrow> deadlock_report \<Rightarrow> nat \<Rightarrow> memory_model \<Rightarrow> deadlock_report res" where
  "minimized_deadlock_report p report step_bound m =
     (let target = no_identities\<lparr>bi_deadlock := Some (identity_of_deadlock report)\<rparr> in
      res_bind (minimize_schedule_for_identities p (dl_schedule report) target step_bound m) (\<lambda>sch.
      res_bind (replay_schedule p sch step_bound m) (\<lambda>r.
      case first_deadlock r of
        Some minimized \<Rightarrow>
          guarded (reproduces_identities r target)
            (Logic_Error ''deadlock schedule minimization failed to preserve bug identity'')
            (Inr minimized)
      | None \<Rightarrow> Inl (Logic_Error ''deadlock schedule minimization failed to preserve bug identity''))))"

definition minimized_error_report ::
  "program \<Rightarrow> model_error_report \<Rightarrow> nat \<Rightarrow> memory_model \<Rightarrow> model_error_report res" where
  "minimized_error_report p report step_bound m =
     (let target = no_identities\<lparr>bi_error := Some (identity_of_error report)\<rparr> in
      res_bind (minimize_schedule_for_identities p (me_schedule report) target step_bound m) (\<lambda>sch.
      res_bind (replay_schedule p sch step_bound m) (\<lambda>r.
      case first_error r of
        Some minimized \<Rightarrow>
          guarded (reproduces_identities r target)
            (Logic_Error ''error schedule minimization failed to preserve bug identity'')
            (Inr minimized)
      | None \<Rightarrow> Inl (Logic_Error ''error schedule minimization failed to preserve bug identity''))))"

definition minimized_assertion_report ::
  "program \<Rightarrow> assertion_report \<Rightarrow> nat \<Rightarrow> memory_model \<Rightarrow> assertion_report res" where
  "minimized_assertion_report p report step_bound m =
     (let target = no_identities\<lparr>bi_assertion := Some (identity_of_assertion report)\<rparr> in
      res_bind (minimize_schedule_for_identities p (af_schedule report) target step_bound m) (\<lambda>sch.
      res_bind (replay_schedule p sch step_bound m) (\<lambda>r.
      case first_assertion r of
        Some minimized \<Rightarrow>
          guarded (reproduces_identities r target)
            (Logic_Error ''assertion schedule minimization failed to preserve bug identity'')
            (Inr minimized)
      | None \<Rightarrow> Inl (Logic_Error ''assertion schedule minimization failed to preserve bug identity''))))"

text \<open>A report that is present is replaced by its minimized version.\<close>

definition minimized :: "('a \<Rightarrow> 'a res) \<Rightarrow> 'a option \<Rightarrow> 'a option res" where
  "minimized f report =
     (case report of None \<Rightarrow> Inr None | Some x \<Rightarrow> res_bind (f x) (\<lambda>y. Inr (Some y)))"

definition minimize_result_reports ::
  "program \<Rightarrow> check_result \<Rightarrow> nat \<Rightarrow> memory_model \<Rightarrow> check_result res" where
  "minimize_result_reports p r step_bound m =
     res_bind (minimized (\<lambda>x. minimized_race_report p x step_bound m) (first_race r)) (\<lambda>race.
     res_bind (minimized (\<lambda>x. minimized_deadlock_report p x step_bound m) (first_deadlock r)) (\<lambda>dl.
     res_bind (minimized (\<lambda>x. minimized_error_report p x step_bound m) (first_error r)) (\<lambda>err.
     res_bind (minimized (\<lambda>x. minimized_assertion_report p x step_bound m) (first_assertion r)) (\<lambda>f.
       Inr (r\<lparr>first_race := race, first_deadlock := dl, first_error := err,
              first_assertion := f\<rparr>)))))"

definition explore_naive :: "program \<Rightarrow> nat \<Rightarrow> nat \<Rightarrow> memory_model \<Rightarrow> check_result res" where
  "explore_naive p max_schedules step_bound m =
     res_bind (dfs_from_start p max_schedules step_bound m) (\<lambda>r.
       minimize_result_reports p r step_bound m)"

definition minimize_schedule :: "program \<Rightarrow> schedule \<Rightarrow> nat \<Rightarrow> memory_model \<Rightarrow> schedule res" where
  "minimize_schedule p sch step_bound m =
     res_bind (replay_schedule p sch step_bound m) (\<lambda>replayed.
       if first_nontermination replayed \<noteq> None then Inr sch
       else if empty_identities (identities_of replayed) then Inr sch
       else minimize_schedule_for_identities p sch (identities_of replayed) step_bound m)"

section \<open>Replay answers every schedule\<close>

lemma answers_Inr [simp]: "answers (Inr r)"
  by (simp add: answers_def)

lemma answers_invalid [simp]: "answers (Inl (invalid_schedule i reason))"
  by (simp add: answers_def invalid_schedule_def)

lemma answers_validate: "answers (validate_replay_step p s x i)"
  unfolding validate_replay_step_def by simp

lemma replay_loop_answers:
  assumes prog: "explorable p b"
  shows "start_walk p m b xs s h \<Longrightarrow> counts_ok r \<Longrightarrow>
    answers (replay_loop p b (requires_cycle_detection p) i ys s h r)"
proof (induction ys arbitrary: xs s h r i)
  case Nil
  have parts: "indexable p" "source_kinds_ok p" using prog by (simp_all add: explorable_def)
  have wf: "wf_state p s" using start_walk_wf [OF parts(1) Nil.prems(1)] .
  show ?case
  proof (cases "enabled_steps p s = []")
    case True
    then obtain d where "make_deadlock_report p s = Inr d"
      using deadlock_report_exact [OF wf _ parts(2)] by blast
    then show ?thesis by simp
  next
    case False
    then show ?thesis using any_enabled_iff [OF wf] by simp
  qed
next
  case (Cons x ys)
  show ?case
  proof (cases "validate_replay_step p s x i")
    case (Inl e)
    then show ?thesis using answers_validate [of p s x i] by (simp add: answers_def)
  next
    case (Inr u)
    then have x: "x \<in> set (enabled_steps p s)" by (rule validate_only_enabled)
    show ?thesis
    proof (cases "step_bound_reached s (s_thread x) b")
      case False
      have "completes (execute_enabled_step p s x)"
        using room_for_walk [OF prog Cons.prems(1)] x unfolding room_for_def
        by (intro execute_enabled_step_completes) auto
      then obtain s' q where ex: "execute_enabled_step p s x = Inr (s', q)"
        by (auto simp: completes_def)
      have counts: "counts_ok (record_step_report q r)" using Cons.prems(2) by simp
      obtain c h' where ob: "observe (requires_cycle_detection p) s' h = Inr (c, h')"
        using observe_walk [OF Cons.prems(1) ex] by blast
      show ?thesis
      proof (cases "step_terminal q")
        case nt: False
        show ?thesis
        proof (cases c)
          case None
          have "start_walk p m b (xs @ [x]) s' h'"
            using start_walk_snoc [OF Cons.prems(1) x False ex nt] ob None by simp
          then show ?thesis
            using Cons.IH [of "xs @ [x]" s' h' "record_step_report q r" "Suc i"] counts Inr False ex nt
              ob None by (simp add: observe_def [symmetric])
        next
          case (Some k)
          obtain n where "make_nontermination_report p (st_schedule s') k (st_model s') = Inr n"
            using observed_cycle_report [OF prog Cons.prems(1) x ex nt] ob Some by auto
          moreover obtain r2 where "record_nontermination n (record_step_report q r) = Inr r2"
            using record_nontermination_made [OF counts] by blast
          ultimately show ?thesis
            using Inr False ex nt ob Some by (simp add: observe_def [symmetric])
        qed
      qed (use Inr False ex in simp)
    qed (use Inr in simp)
  qed
qed

lemma start_walk_Nil:
  "start_walk p m b [] (initial_state p m) (initial_history p (initial_state p m))"
  by (simp add: start_walk_def)

lemma replay_answers:
  assumes "explorable p b"
  shows "answers (replay_schedule p sch b m)"
  using replay_loop_answers [OF assms start_walk_Nil counts_ok_record(1)]
  by (simp add: replay_schedule_def Let_def)

lemma minimizer_returns:
  assumes "explorable p b"
  shows "\<exists>sch'. minimize_schedule_for_identities p sch target b m = Inr sch'"
  using minimize_returns replay_answers [OF assms] by blast

section \<open>The first race of a search\<close>

text \<open>
  A replay reports the first race of its own path, so a race the search reports is found again
  only if no earlier step of the path had one. The search met that earlier step before, and
  keeps the first race it meets.
\<close>

fun raceless :: "program \<Rightarrow> schedule \<Rightarrow> exec_state \<Rightarrow> bool" where
  "raceless p [] s \<longleftrightarrow> True"
| "raceless p (x # xs) s \<longleftrightarrow>
     (case execute_enabled_step p s x of
        Inl _ \<Rightarrow> False | Inr (s', r) \<Rightarrow> sr_race r = None \<and> raceless p xs s')"

lemma raceless_snoc:
  "run p xs s = Some s1 \<Longrightarrow> raceless p xs s \<Longrightarrow> execute_enabled_step p s1 x = Inr (s', r) \<Longrightarrow>
   sr_race r = None \<Longrightarrow> raceless p (xs @ [x]) s"
  by (induction xs arbitrary: s) (auto split: sum.splits if_splits)

lemma record_nothing:
  "\<not> step_terminal q \<Longrightarrow> sr_race q = None \<Longrightarrow> record_step_report q r = r"
  by (simp add: record_step_report_def step_terminal_def or_else_def split: option.split)

lemma replay_loop_raceless:
  assumes "walk p b d xs s h = Some (s', h')" "wf_state p s" "indexable p" "raceless p xs s"
  shows "replay_loop p b d i (xs @ ys) s h r = replay_loop p b d (i + length xs) ys s' h' r"
  using assms(1,2,4)
proof (induction xs arbitrary: s h i)
  case (Cons x xs)
  from Cons.prems(1) obtain s1 q h1 where x: "x \<in> set (enabled_steps p s)"
      "\<not> step_bound_reached s (s_thread x) b" "execute_enabled_step p s x = Inr (s1, q)"
      "\<not> step_terminal q" "observe d s1 h = Inr (None, h1)" "walk p b d xs s1 h1 = Some (s', h')"
    by (auto split: sum.splits option.splits if_splits)
  have wf1: "wf_state p s1" using wf_execute_enabled_step [OF Cons.prems(2) assms(3) x(1,3)] .
  have "record_step_report q r = r" "raceless p xs s1"
    using record_nothing x(3,4) Cons.prems(3) by simp_all
  then show ?case
    using Cons.IH [OF x(6) wf1, of "Suc i"] x validate_enabled [OF Cons.prems(2) assms(3) x(1), of i]
    by (simp add: observe_def [symmetric])
qed simp

definition race_met :: "program \<Rightarrow> memory_model \<Rightarrow> nat \<Rightarrow> check_result \<Rightarrow> bool" where
  "race_met p m b r \<longleftrightarrow>
     (\<forall>c. first_race r = Some c \<longrightarrow>
        (\<exists>xs x s q. offers p m b xs x s q \<and> sr_race q = Some c \<and>
           raceless p xs (initial_state p m)))"

lemma race_met_cong: "race_met p m b r \<Longrightarrow> first_race r' = first_race r \<Longrightarrow> race_met p m b r'"
  by (simp add: race_met_def)

text \<open>The path to a node has had no race, unless one is already recorded.\<close>

definition clear_path ::
  "program \<Rightarrow> memory_model \<Rightarrow> nat \<Rightarrow> exec_state \<Rightarrow> state_history \<Rightarrow> check_result \<Rightarrow> bool" where
  "clear_path p m b s h r \<longleftrightarrow>
     (\<exists>xs. start_walk p m b xs s h \<and>
        (first_race r = None \<longrightarrow> raceless p xs (initial_state p m)))"

lemma clear_path_extends: "clear_path p m b s h r \<Longrightarrow> extends r r' \<Longrightarrow> clear_path p m b s h r'"
  by (auto simp: clear_path_def extends_def)

lemma race_met_step:
  assumes "race_met p m b r" "clear_path p m b s h r" "x \<in> set (enabled_steps p s)"
    "\<not> step_bound_reached s (s_thread x) b" "execute_enabled_step p s x = Inr (s', q)"
  shows "race_met p m b (record_step_report q r)"
proof (cases "first_race r")
  case None
  then obtain xs where "start_walk p m b xs s h" "raceless p xs (initial_state p m)"
    using assms(2) by (auto simp: clear_path_def)
  then show ?thesis
    using None offersI [of p m b xs s h x s' q] assms(3-5)
    by (auto simp: race_met_def record_step_report_def or_else_def split: option.splits)
next
  case (Some c)
  then show ?thesis
    using assms(1) by (auto simp: record_step_report_def or_else_def elim: race_met_cong)
qed

lemma clear_path_snoc:
  assumes "clear_path p m b s h r" "x \<in> set (enabled_steps p s)"
    "\<not> step_bound_reached s (s_thread x) b" "execute_enabled_step p s x = Inr (s', q)"
    "\<not> step_terminal q" "observe (requires_cycle_detection p) s' h = Inr (None, h')"
  shows "clear_path p m b s' h' (record_step_report q r)"
proof -
  obtain xs where w: "start_walk p m b xs s h"
    and clear: "first_race r = None \<longrightarrow> raceless p xs (initial_state p m)"
    using assms(1) by (auto simp: clear_path_def)
  have "raceless p (xs @ [x]) (initial_state p m)"
    if none: "first_race (record_step_report q r) = None"
  proof (rule raceless_snoc [OF _ _ assms(4)])
    have both: "first_race r = None" "sr_race q = None"
      using none by (cases "first_race r"; simp add: record_step_report_def or_else_def)+
    show "run p xs (initial_state p m) = Some s" using walk_run w unfolding start_walk_def by blast
    show "raceless p xs (initial_state p m)" "sr_race q = None" using clear both by simp_all
  qed
  then show ?thesis
    using start_walk_snoc [OF w assms(2-6)] unfolding clear_path_def
    by (intro exI [of _ "xs @ [x]"] conjI impI) simp_all
qed

lemma explores_race_met:
  "explores_node p mx b d s h r r' \<Longrightarrow> d = requires_cycle_detection p \<Longrightarrow>
     clear_path p m b s h r \<Longrightarrow> race_met p m b r \<Longrightarrow> race_met p m b r'"
  "explores_list p mx b d s h ys r r' \<Longrightarrow> d = requires_cycle_detection p \<Longrightarrow>
     clear_path p m b s h r \<Longrightarrow> set ys \<subseteq> set (enabled_steps p s) \<Longrightarrow> race_met p m b r \<Longrightarrow>
     race_met p m b r'"
  "explores_child p mx b d s h x r r' \<Longrightarrow> d = requires_cycle_detection p \<Longrightarrow>
     clear_path p m b s h r \<Longrightarrow> x \<in> set (enabled_steps p s) \<Longrightarrow> race_met p m b r \<Longrightarrow>
     race_met p m b r'"
proof (induction rule: explores_node_explores_list_explores_child.inducts)
  case (leaf r s r' h)
  then have "first_race r' = first_race r"
    by (auto simp: record_leaf_def Let_def res_simps split: if_splits)
  then show ?case using leaf race_met_cong by blast
next
  case (go s h x r r1 xs r')
  then show ?case using clear_path_extends explores_extends(3) by auto
next
  case (bounded s x h r)
  then show ?case by (auto simp: record_bound_exceeded_def elim: race_met_cong)
next
  case (terminal s x s' report h r)
  then have "race_met p m b (record_step_report report r)" using race_met_step by blast
  then show ?case by (rule race_met_cong) simp
next
  case (cycle s x s' report h start h1 nt r r1)
  then have "race_met p m b (record_step_report report r)" using race_met_step by blast
  moreover have "first_race r1 = first_race (record_step_report report r)"
    using cycle by (auto simp: record_nontermination_def Let_def res_simps split: fairness.splits)
  ultimately show ?case by (rule race_met_cong)
next
  case (descent s x s' report h h1 r r1)
  then show ?case using race_met_step clear_path_snoc by blast
qed auto

section \<open>Every report of the search reproduces\<close>

lemma replay_end:
  assumes prog: "explorable p b" and w: "start_walk p m b xs s h"
  shows "\<exists>r'. replay_loop p b d i [] s h r = Inr r' \<and> first_race r' = first_race r"
proof (cases "enabled_steps p s = []")
  case True
  have parts: "indexable p" "source_kinds_ok p" using prog by (simp_all add: explorable_def)
  obtain dl where "make_deadlock_report p s = Inr dl"
    using deadlock_report_exact [OF start_walk_wf [OF parts(1) w] True parts(2)] by blast
  then show ?thesis by simp
next
  case False
  then show ?thesis using any_enabled_iff [OF start_walk_wf [OF _ w]] prog by (simp add: explorable_def)
qed

lemma replay_last_step:
  assumes prog: "explorable p b" and w: "start_walk p m b xs s h"
    and x: "x \<in> set (enabled_steps p s)" "\<not> step_bound_reached s (s_thread x) b"
    and ex: "execute_enabled_step p s x = Inr (s', q)" and counts: "counts_ok r"
  shows "\<exists>r'. replay_loop p b (requires_cycle_detection p) i [x] s h r = Inr r' \<and>
    first_race r' = first_race (record_step_report q r)"
proof -
  have idx: "indexable p" using prog by (simp add: explorable_def)
  have valid: "validate_replay_step p s x i = Inr ()"
    using validate_enabled [OF start_walk_wf [OF idx w] idx x(1)] .
  obtain c h' where ob: "observe (requires_cycle_detection p) s' h = Inr (c, h')"
    using observe_walk [OF w ex] by blast
  show ?thesis
  proof (cases "step_terminal q")
    case nt: False
    show ?thesis
    proof (cases c)
      case None
      have "start_walk p m b (xs @ [x]) s' h'"
        using start_walk_snoc [OF w x ex nt] ob None by simp
      then show ?thesis
        using replay_end [OF prog] valid x(2) ex nt ob None
        by (simp add: observe_def [symmetric] del: replay_loop.simps(1))
    next
      case (Some k)
      obtain n where n: "make_nontermination_report p (st_schedule s') k (st_model s') = Inr n"
        using observed_cycle_report [OF prog w x(1) ex nt] ob Some by auto
      obtain r2 where r2: "record_nontermination n (record_step_report q r) = Inr r2"
        using record_nontermination_made counts_ok_record(4) counts by blast
      then have "first_race r2 = first_race (record_step_report q r)"
        by (auto simp: record_nontermination_def Let_def res_simps split: fairness.splits)
      then show ?thesis
        using n r2 valid x(2) ex nt ob Some by (simp add: observe_def [symmetric])
    qed
  qed (use valid x(2) ex in \<open>simp add: Let_def\<close>)
qed

lemma replay_loop_after_race:
  assumes prog: "explorable p b" and offer: "offers p m b xs x s' q" and race: "sr_race q = Some c"
    and clear: "raceless p xs (initial_state p m)"
  shows "\<exists>r. replay_schedule p (xs @ [x]) b m = Inr r \<and> first_race r = Some c"
proof -
  define d where "d = requires_cycle_detection p"
  have idx: "indexable p" using prog by (simp add: explorable_def)
  obtain s h where w: "start_walk p m b xs s h" and x: "x \<in> set (enabled_steps p s)"
      "\<not> step_bound_reached s (s_thread x) b" and ex: "execute_enabled_step p s x = Inr (s', q)"
    using offer by (auto simp: offers_def)
  have "replay_schedule p (xs @ [x]) b m = replay_loop p b d (length xs) [x] s h empty_result"
    using replay_loop_raceless [OF w [unfolded start_walk_def] wf_initial_state idx clear]
    by (simp add: replay_schedule_def Let_def d_def)
  moreover have "first_race (record_step_report q empty_result) = Some c"
    using race by (simp add: record_step_report_def empty_result_def or_else_def)
  ultimately show ?thesis
    using replay_last_step [OF prog w x ex counts_ok_record(1)] unfolding d_def by metis
qed

lemma dfs_from_start_explores:
  assumes "dfs_from_start p mx b m = Inr r"
  obtains r0 where "explores_node p mx b (requires_cycle_detection p) (initial_state p m)
      (initial_history p (initial_state p m)) empty_result r0"
    "r = r0\<lparr>exploration_capped := schedules_explored r0 \<ge> mx\<rparr>"
  using assms dfs_explores by (fastforce simp: dfs_from_start_def Let_def res_simps)

lemma dfs_from_start_genuine:
  assumes "dfs_from_start p mx b m = Inr r"
  shows "genuine p m b r" "race_met p m b r"
proof -
  obtain r0 where ex: "explores_node p mx b (requires_cycle_detection p) (initial_state p m)
      (initial_history p (initial_state p m)) empty_result r0"
    and r: "r = r0\<lparr>exploration_capped := schedules_explored r0 \<ge> mx\<rparr>"
    using assms by (rule dfs_from_start_explores)
  have "genuine p m b r0"
    using explores_genuine(1) [OF ex refl _ genuine_empty] start_walk_Nil by blast
  then show "genuine p m b r" by (rule genuine_cong) (simp_all add: r)
  have "clear_path p m b (initial_state p m) (initial_history p (initial_state p m)) empty_result"
    using start_walk_Nil unfolding clear_path_def by fastforce
  then have "race_met p m b r0"
    using explores_race_met(1) [OF ex refl] by (simp add: race_met_def empty_result_def)
  then show "race_met p m b r" by (rule race_met_cong) (simp add: r)
qed

text \<open>A genuine result reports what a replay of the reported schedule reports.\<close>

lemma genuine_reports_replay:
  assumes prog: "explorable p b" and ok: "genuine p m b r" "race_met p m b r"
  shows "first_race r = Some c \<Longrightarrow>
      \<exists>q. replay_schedule p (r_schedule c) b m = Inr q \<and> first_race q = Some c"
    "first_deadlock r = Some dl \<Longrightarrow>
      \<exists>q. replay_schedule p (dl_schedule dl) b m = Inr q \<and> first_deadlock q = Some dl"
    "first_error r = Some e \<Longrightarrow>
      \<exists>q. replay_schedule p (me_schedule e) b m = Inr q \<and> first_error q = Some e"
    "first_assertion r = Some f \<Longrightarrow>
      \<exists>q. replay_schedule p (af_schedule f) b m = Inr q \<and> first_assertion q = Some f"
    "first_nontermination r = Some n \<Longrightarrow>
      \<exists>q. replay_schedule p (nt_schedule n) b m = Inr q \<and> first_nontermination q = Some n"
proof -
  show "\<exists>q. replay_schedule p (nt_schedule n) b m = Inr q \<and> first_nontermination q = Some n"
    if nt: "first_nontermination r = Some n"
  proof -
    have "laps p m b n" using ok(1) nt by (simp add: genuine_def)
    then obtain r0 where r0: "replay_schedule p (nt_schedule n) b m = record_nontermination n r0"
        "first_nontermination r0 = None"
      using replay_lap [of p m b n] prog by (auto simp: explorable_def)
    then obtain q where "record_nontermination n r0 = Inr q"
      using replay_answers [OF prog, of "nt_schedule n" m]
      by (auto simp: answers_def record_nontermination_def Let_def guarded_def split: if_splits)
    moreover from this have "first_nontermination q = Some n"
      using record_nontermination_kept(1) r0(2) by (simp add: or_else_def)
    ultimately show ?thesis using r0(1) by simp
  qed
  show "\<exists>q. replay_schedule p (r_schedule c) b m = Inr q \<and> first_race q = Some c"
    if race: "first_race r = Some c"
  proof -
    obtain xs x s q where offer: "offers p m b xs x s q" "sr_race q = Some c"
        "raceless p xs (initial_state p m)"
      using ok(2) race unfolding race_met_def by blast
    then show ?thesis
      using replay_loop_after_race [OF prog offer] offered_schedule(3) [OF offer(1,2)] by simp
  qed
qed (use genuine_replays [OF _ ok(1)] prog in \<open>auto simp: explorable_def\<close>)

section \<open>Minimization keeps the bug\<close>

text \<open>The common core of the four kinds of report.\<close>

lemma minimized_replay:
  assumes prog: "explorable p b" and "replay_schedule p sch b m = Inr q"
    and "reproduces_identities q target"
  shows "\<exists>sch' q'. minimize_schedule_for_identities p sch target b m = Inr sch' \<and>
    replay_schedule p sch' b m = Inr q' \<and> reproduces_identities q' target"
proof -
  obtain sch' where "minimize_schedule_for_identities p sch target b m = Inr sch'"
    using minimizer_returns [OF prog] by blast
  moreover from this have "reproduces p b m target sch'"
    by (rule minimize_reproduces) (use assms in \<open>auto simp: reproduces_def\<close>)
  ultimately show ?thesis by (auto simp: reproduces_def)
qed

lemma minimized_reports:
  assumes prog: "explorable p b"
  shows "replay_schedule p (r_schedule c) b m = Inr q \<Longrightarrow> first_race q = Some c \<Longrightarrow>
      \<exists>c'. minimized_race_report p c b m = Inr c' \<and> identity_of_race c' = identity_of_race c"
    "replay_schedule p (dl_schedule dl) b m = Inr q \<Longrightarrow> first_deadlock q = Some dl \<Longrightarrow>
      \<exists>dl'. minimized_deadlock_report p dl b m = Inr dl' \<and>
        identity_of_deadlock dl' = identity_of_deadlock dl"
    "replay_schedule p (me_schedule e) b m = Inr q \<Longrightarrow> first_error q = Some e \<Longrightarrow>
      \<exists>e'. minimized_error_report p e b m = Inr e' \<and> identity_of_error e' = identity_of_error e"
    "replay_schedule p (af_schedule f) b m = Inr q \<Longrightarrow> first_assertion q = Some f \<Longrightarrow>
      \<exists>f'. minimized_assertion_report p f b m = Inr f' \<and>
        identity_of_assertion f' = identity_of_assertion f"
proof -
  note defs = reproduces_identities_def meets_def no_identities_def
  show "\<exists>c'. minimized_race_report p c b m = Inr c' \<and> identity_of_race c' = identity_of_race c"
    if "replay_schedule p (r_schedule c) b m = Inr q" "first_race q = Some c"
    using minimized_replay [OF prog that(1), of "no_identities\<lparr>bi_race := Some (identity_of_race c)\<rparr>"] that(2)
    by (auto simp: minimized_race_report_def Let_def defs split: option.splits)
  show "\<exists>dl'. minimized_deadlock_report p dl b m = Inr dl' \<and>
        identity_of_deadlock dl' = identity_of_deadlock dl"
    if "replay_schedule p (dl_schedule dl) b m = Inr q" "first_deadlock q = Some dl"
    using minimized_replay [OF prog that(1), of "no_identities\<lparr>bi_deadlock := Some (identity_of_deadlock dl)\<rparr>"] that(2)
    by (auto simp: minimized_deadlock_report_def Let_def defs split: option.splits)
  show "\<exists>e'. minimized_error_report p e b m = Inr e' \<and> identity_of_error e' = identity_of_error e"
    if "replay_schedule p (me_schedule e) b m = Inr q" "first_error q = Some e"
    using minimized_replay [OF prog that(1), of "no_identities\<lparr>bi_error := Some (identity_of_error e)\<rparr>"] that(2)
    by (auto simp: minimized_error_report_def Let_def defs split: option.splits)
  show "\<exists>f'. minimized_assertion_report p f b m = Inr f' \<and>
        identity_of_assertion f' = identity_of_assertion f"
    if "replay_schedule p (af_schedule f) b m = Inr q" "first_assertion q = Some f"
    using minimized_replay [OF prog that(1), of "no_identities\<lparr>bi_assertion := Some (identity_of_assertion f)\<rparr>"] that(2)
    by (auto simp: minimized_assertion_report_def Let_def defs split: option.splits)
qed

lemma minimized_option:
  "(\<And>x. report = Some x \<Longrightarrow> \<exists>y. f x = Inr y \<and> i y = i x) \<Longrightarrow>
   \<exists>y. minimized f report = Inr y \<and> map_option i y = map_option i report"
  by (cases report) (fastforce simp: minimized_def)+

text \<open>The reports of a genuine result are minimized; everything else of the result is kept.\<close>

definition same_outcome :: "check_result \<Rightarrow> check_result \<Rightarrow> bool" where
  "same_outcome r r0 \<longleftrightarrow>
     identities_of r = identities_of r0 \<and>
     first_nontermination r = first_nontermination r0 \<and>
     schedules_explored r = schedules_explored r0 \<and> exploration_capped r = exploration_capped r0 \<and>
     bound_exceeded_executions r = bound_exceeded_executions r0"

lemma minimize_result_made:
  assumes prog: "explorable p b" and ok: "genuine p m b r0" "race_met p m b r0"
  shows "\<exists>r. minimize_result_reports p r0 b m = Inr r \<and> same_outcome r r0"
proof -
  note rep = genuine_reports_replay [OF prog ok]
  obtain race where race: "minimized (\<lambda>x. minimized_race_report p x b m) (first_race r0) = Inr race"
      "map_option identity_of_race race = map_option identity_of_race (first_race r0)"
    using minimized_option [of "first_race r0" "\<lambda>x. minimized_race_report p x b m"]
      rep(1) minimized_reports(1) [OF prog] by blast
  obtain dl where dl: "minimized (\<lambda>x. minimized_deadlock_report p x b m) (first_deadlock r0) = Inr dl"
      "map_option identity_of_deadlock dl = map_option identity_of_deadlock (first_deadlock r0)"
    using minimized_option [of "first_deadlock r0" "\<lambda>x. minimized_deadlock_report p x b m"]
      rep(2) minimized_reports(2) [OF prog] by blast
  obtain e where e: "minimized (\<lambda>x. minimized_error_report p x b m) (first_error r0) = Inr e"
      "map_option identity_of_error e = map_option identity_of_error (first_error r0)"
    using minimized_option [of "first_error r0" "\<lambda>x. minimized_error_report p x b m"]
      rep(3) minimized_reports(3) [OF prog] by blast
  obtain f where f: "minimized (\<lambda>x. minimized_assertion_report p x b m) (first_assertion r0) = Inr f"
      "map_option identity_of_assertion f = map_option identity_of_assertion (first_assertion r0)"
    using minimized_option [of "first_assertion r0" "\<lambda>x. minimized_assertion_report p x b m"]
      rep(4) minimized_reports(4) [OF prog] by blast
  show ?thesis
    using race dl e f
    by (simp add: minimize_result_reports_def identities_of_def same_outcome_def)
qed

lemma explore_naive_minimizes:
  assumes prog: "explorable p b"
  shows "\<exists>r0 r. dfs_from_start p mx b m = Inr r0 \<and> explore_naive p mx b m = Inr r \<and>
    same_outcome r r0"
proof -
  obtain r0 where r0: "dfs_from_start p mx b m = Inr r0" using dfs_from_start_returns [OF prog] by blast
  then show ?thesis
    using minimize_result_made [OF prog dfs_from_start_genuine [OF r0]]
    by (auto simp: explore_naive_def)
qed

section \<open>What replay reports is genuine\<close>

lemma replay_loop_genuine:
  assumes idx: "indexable p"
  shows "replay_loop p b (requires_cycle_detection p) i ys s h r = Inr q \<Longrightarrow>
    clear_path p m b s h r \<Longrightarrow> genuine p m b r \<Longrightarrow> race_met p m b r \<Longrightarrow>
    genuine p m b q \<and> race_met p m b q"
proof (induction ys arbitrary: i s h r)
  case Nil
  obtain xs where w: "start_walk p m b xs s h" using Nil.prems(2) by (auto simp: clear_path_def)
  show ?case
  proof (cases "any_enabled p s \<or> all_finished p s")
    case True
    then have "q = r \<or> q = count_schedule r" using Nil.prems(1) by (auto split: if_splits)
    then show ?thesis
      using Nil.prems(3,4) genuine_count race_met_cong [of p m b r "count_schedule r"] by auto
  next
    case False
    then obtain dl where dl: "make_deadlock_report p s = Inr dl"
        "q = (count_schedule r)\<lparr>first_deadlock := Some dl\<rparr>"
      using Nil.prems(1) by (auto simp: res_simps)
    have "deadlocks p m b xs s"
      using False w any_enabled_iff [OF start_walk_wf [OF idx w]] by (auto simp: deadlocks_def)
    then have "genuine p m b q"
      using Nil.prems(3) dl unfolding genuine_def by (auto simp: count_schedule_def)
    moreover have "race_met p m b q"
      using Nil.prems(4) by (rule race_met_cong) (simp add: dl)
    ultimately show ?thesis ..
  qed
next
  case (Cons x ys)
  obtain u where valid: "validate_replay_step p s x i = Inr u"
    using Cons.prems(1) by (auto simp: res_simps)
  then have x: "x \<in> set (enabled_steps p s)" by (rule validate_only_enabled)
  obtain xs where w: "start_walk p m b xs s h" using Cons.prems(2) by (auto simp: clear_path_def)
  show ?case
  proof (cases "step_bound_reached s (s_thread x) b")
    case True
    then have "q = record_bound_exceeded r"
      using Cons.prems(1) valid by (auto split: if_splits)
    then show ?thesis
      using Cons.prems(3,4) genuine_bounded race_met_cong [of p m b r "record_bound_exceeded r"]
      by (auto simp: record_bound_exceeded_def)
  next
    case False
    then obtain s' t where ex: "execute_enabled_step p s x = Inr (s', t)"
      using Cons.prems(1) valid by (auto simp: res_simps)
    define r1 where "r1 = record_step_report t r"
    have r1: "genuine p m b r1" "race_met p m b r1"
      using genuine_step [OF Cons.prems(3) offersI [OF w x False ex]]
        race_met_step [OF Cons.prems(4,2) x False ex] by (simp_all add: r1_def)
    show ?thesis
    proof (cases "step_terminal t")
      case True
      then have "q = count_schedule r1"
        using Cons.prems(1) valid False ex by (auto simp: r1_def Let_def split: if_splits)
      then show ?thesis using r1 genuine_count race_met_cong [of p m b r1 q] by simp
    next
      case nt: False
      then obtain c h' where ob: "observe (requires_cycle_detection p) s' h = Inr (c, h')"
        using Cons.prems(1) valid False ex by (auto simp: observe_def [symmetric] Let_def res_simps)
      show ?thesis
      proof (cases c)
        case None
        have "clear_path p m b s' h' r1"
          using clear_path_snoc [OF Cons.prems(2) x False ex nt] ob None by (simp add: r1_def)
        then show ?thesis
          using Cons.IH [of "Suc i" s' h' r1] Cons.prems(1) valid False ex nt ob None r1
          by (simp add: observe_def [symmetric] r1_def)
      next
        case (Some k)
        then obtain n where n: "make_nontermination_report p (st_schedule s') k (st_model s') = Inr n"
            "record_nontermination n r1 = Inr q"
          using Cons.prems(1) valid False ex nt ob
          by (auto simp: observe_def [symmetric] Let_def res_simps r1_def split: if_splits)
        have "first_race q = first_race r1" using record_nontermination_kept(5) [OF n(2)] .
        moreover have "laps p m b n"
          using lapsI [OF w x False ex nt] ob Some n(1) by simp
        ultimately show ?thesis using n(2) r1 genuine_nontermination race_met_cong by blast
      qed
    qed
  qed
qed

lemma clear_start:
  "clear_path p m b (initial_state p m) (initial_history p (initial_state p m)) r"
  unfolding clear_path_def using start_walk_Nil by (intro exI [of _ "[]"]) simp

lemma replay_genuine:
  assumes "indexable p" "replay_schedule p sch b m = Inr q"
  shows "genuine p m b q" "race_met p m b q"
proof -
  have "race_met p m b empty_result" by (simp add: race_met_def empty_result_def)
  then have "genuine p m b q \<and> race_met p m b q"
    using replay_loop_genuine [OF assms(1) _ clear_start genuine_empty] assms(2)
    by (simp add: replay_schedule_def Let_def)
  then show "genuine p m b q" "race_met p m b q" by simp_all
qed

lemma minimized_report_is_replayed:
  "minimized_race_report p c b m = Inr c' \<Longrightarrow>
     \<exists>sch q. replay_schedule p sch b m = Inr q \<and> first_race q = Some c'"
  "minimized_deadlock_report p dl b m = Inr dl' \<Longrightarrow>
     \<exists>sch q. replay_schedule p sch b m = Inr q \<and> first_deadlock q = Some dl'"
  "minimized_error_report p e b m = Inr e' \<Longrightarrow>
     \<exists>sch q. replay_schedule p sch b m = Inr q \<and> first_error q = Some e'"
  "minimized_assertion_report p f b m = Inr f' \<Longrightarrow>
     \<exists>sch q. replay_schedule p sch b m = Inr q \<and> first_assertion q = Some f'"
  by (auto simp: minimized_race_report_def minimized_deadlock_report_def
      minimized_error_report_def minimized_assertion_report_def Let_def res_simps
      split: option.splits)

lemma minimized_Some:
  "minimized f report = Inr (Some y) \<Longrightarrow> \<exists>x. report = Some x \<and> f x = Inr y"
  by (cases report) (auto simp: minimized_def res_simps)

lemma minimized_result_replays:
  assumes prog: "explorable p b" and r: "minimize_result_reports p r0 b m = Inr r"
  shows "first_race r = Some c \<Longrightarrow>
      \<exists>q. replay_schedule p (r_schedule c) b m = Inr q \<and> first_race q = Some c"
    "first_deadlock r = Some dl \<Longrightarrow>
      \<exists>q. replay_schedule p (dl_schedule dl) b m = Inr q \<and> first_deadlock q = Some dl"
    "first_error r = Some e \<Longrightarrow>
      \<exists>q. replay_schedule p (me_schedule e) b m = Inr q \<and> first_error q = Some e"
    "first_assertion r = Some f \<Longrightarrow>
      \<exists>q. replay_schedule p (af_schedule f) b m = Inr q \<and> first_assertion q = Some f"
proof -
  have idx: "indexable p" using prog by (simp add: explorable_def)
  obtain race dl1 e1 f1 where parts:
      "minimized (\<lambda>x. minimized_race_report p x b m) (first_race r0) = Inr race"
      "minimized (\<lambda>x. minimized_deadlock_report p x b m) (first_deadlock r0) = Inr dl1"
      "minimized (\<lambda>x. minimized_error_report p x b m) (first_error r0) = Inr e1"
      "minimized (\<lambda>x. minimized_assertion_report p x b m) (first_assertion r0) = Inr f1"
    and eq: "r = r0\<lparr>first_race := race, first_deadlock := dl1, first_error := e1,
        first_assertion := f1\<rparr>"
    using r by (auto simp: minimize_result_reports_def res_simps)
  have r': "first_race r = race" "first_deadlock r = dl1" "first_error r = e1" "first_assertion r = f1"
    using eq by simp_all
  note again = genuine_reports_replay [OF prog replay_genuine [OF idx]]
  show "\<exists>q. replay_schedule p (r_schedule c) b m = Inr q \<and> first_race q = Some c"
    if "first_race r = Some c"
    using that parts(1) r'(1) minimized_Some minimized_report_is_replayed(1) again(1) by metis
  show "\<exists>q. replay_schedule p (dl_schedule dl) b m = Inr q \<and> first_deadlock q = Some dl"
    if "first_deadlock r = Some dl"
    using that parts(2) r'(2) minimized_Some minimized_report_is_replayed(2) again(2) by metis
  show "\<exists>q. replay_schedule p (me_schedule e) b m = Inr q \<and> first_error q = Some e"
    if "first_error r = Some e"
    using that parts(3) r'(3) minimized_Some minimized_report_is_replayed(3) again(3) by metis
  show "\<exists>q. replay_schedule p (af_schedule f) b m = Inr q \<and> first_assertion q = Some f"
    if "first_assertion r = Some f"
    using that parts(4) r'(4) minimized_Some minimized_report_is_replayed(4) again(4) by metis
qed

lemma kept_nontermination_replays:
  assumes prog: "explorable p b" and ok: "genuine p m b r0" "race_met p m b r0"
    and r: "minimize_result_reports p r0 b m = Inr r" "first_nontermination r = Some n"
  shows "\<exists>q. replay_schedule p (nt_schedule n) b m = Inr q \<and> first_nontermination q = Some n"
proof -
  have "first_nontermination r0 = Some n"
    using r by (auto simp: minimize_result_reports_def res_simps)
  then show ?thesis by (rule genuine_reports_replay(5) [OF prog ok])
qed

lemma explore_naive_reports:
  assumes "explore_naive p mx b m = Inr r"
  obtains r0 where "dfs_from_start p mx b m = Inr r0" "minimize_result_reports p r0 b m = Inr r"
  using assms by (auto simp: explore_naive_def res_simps)

text \<open>Every report of a result that was minimized from a genuine one is that of a replay.\<close>

lemma result_replays:
  assumes prog: "explorable p b" and ok: "genuine p m b r0" "race_met p m b r0"
    and r: "minimize_result_reports p r0 b m = Inr r"
  shows "first_race r = Some c \<Longrightarrow>
      \<exists>q. replay_schedule p (r_schedule c) b m = Inr q \<and> first_race q = Some c"
    "first_deadlock r = Some dl \<Longrightarrow>
      \<exists>q. replay_schedule p (dl_schedule dl) b m = Inr q \<and> first_deadlock q = Some dl"
    "first_error r = Some e \<Longrightarrow>
      \<exists>q. replay_schedule p (me_schedule e) b m = Inr q \<and> first_error q = Some e"
    "first_assertion r = Some f \<Longrightarrow>
      \<exists>q. replay_schedule p (af_schedule f) b m = Inr q \<and> first_assertion q = Some f"
    "first_nontermination r = Some n \<Longrightarrow>
      \<exists>q. replay_schedule p (nt_schedule n) b m = Inr q \<and> first_nontermination q = Some n"
  using minimized_result_replays [OF prog r] kept_nontermination_replays [OF prog ok r] by blast+

lemma explore_naive_replays:
  assumes prog: "explorable p b" and r: "explore_naive p mx b m = Inr r"
  shows "first_race r = Some c \<Longrightarrow>
      \<exists>q. replay_schedule p (r_schedule c) b m = Inr q \<and> first_race q = Some c"
    "first_deadlock r = Some dl \<Longrightarrow>
      \<exists>q. replay_schedule p (dl_schedule dl) b m = Inr q \<and> first_deadlock q = Some dl"
    "first_error r = Some e \<Longrightarrow>
      \<exists>q. replay_schedule p (me_schedule e) b m = Inr q \<and> first_error q = Some e"
    "first_assertion r = Some f \<Longrightarrow>
      \<exists>q. replay_schedule p (af_schedule f) b m = Inr q \<and> first_assertion q = Some f"
    "first_nontermination r = Some n \<Longrightarrow>
      \<exists>q. replay_schedule p (nt_schedule n) b m = Inr q \<and> first_nontermination q = Some n"
proof -
  obtain r0 where r0: "dfs_from_start p mx b m = Inr r0" "minimize_result_reports p r0 b m = Inr r"
    using explore_naive_reports [OF r] by blast
  note all = result_replays [OF prog dfs_from_start_genuine [OF r0(1)] r0(2)]
  show "\<exists>q. replay_schedule p (r_schedule c) b m = Inr q \<and> first_race q = Some c" if "first_race r = Some c"
    using all(1) that .
  show "\<exists>q. replay_schedule p (dl_schedule dl) b m = Inr q \<and> first_deadlock q = Some dl" if "first_deadlock r = Some dl"
    using all(2) that .
  show "\<exists>q. replay_schedule p (me_schedule e) b m = Inr q \<and> first_error q = Some e" if "first_error r = Some e"
    using all(3) that .
  show "\<exists>q. replay_schedule p (af_schedule f) b m = Inr q \<and> first_assertion q = Some f" if "first_assertion r = Some f"
    using all(4) that .
  show "\<exists>q. replay_schedule p (nt_schedule n) b m = Inr q \<and> first_nontermination q = Some n" if "first_nontermination r = Some n"
    using all(5) that .
qed

text \<open>An exploration that nothing cut short has met whatever a run can meet.\<close>

lemma explore_naive_complete:
  assumes "explorable p b" and "explore_naive p mx b m = Inr r"
    and "\<not> exploration_capped r" "bound_exceeded_executions r = 0"
    and "run p steps (initial_state p m) = Some s"
  shows "(enabled_steps p s = [] \<and> \<not> all_finished p s \<longrightarrow> first_deadlock r \<noteq> None) \<and>
    (\<forall>x s' q. x \<in> set (enabled_steps p s) \<longrightarrow> execute_enabled_step p s x = Inr (s', q) \<longrightarrow>
       (sr_error q \<noteq> None \<longrightarrow> first_error r \<noteq> None) \<and>
       (sr_assertion q \<noteq> None \<longrightarrow> first_assertion r \<noteq> None))"
proof -
  obtain r0 where r0: "dfs_from_start p mx b m = Inr r0"
      "identities_of r = identities_of r0" "exploration_capped r = exploration_capped r0"
      "bound_exceeded_executions r = bound_exceeded_executions r0"
    using explore_naive_minimizes [OF assms(1), of mx m] assms(2) by (auto simp: same_outcome_def)
  have full: "\<not> exploration_capped r0" "bound_exceeded_executions r0 = 0" using assms(3,4) r0 by simp_all
  have same: "(first_deadlock r = None) = (first_deadlock r0 = None)"
      "(first_error r = None) = (first_error r0 = None)"
      "(first_assertion r = None) = (first_assertion r0 = None)"
    using r0(2) by (auto simp: identities_of_def map_option_eq_Some dest: sym)
  show ?thesis
    unfolding same using dfs_exhaustive [OF assms(1) r0(1) full assms(5)] by blast
qed

end
