(* ===== verification/Dpor.thy ===== *)
theory Dpor
  imports Independence Explore_Naive
begin

text \<open>
  The DPOR explorer (src/src/model/checker.cpp, \<open>initialize_dpor_backtrack\<close> to
  \<open>inherited_sleep_set\<close>, \<open>dpor_dfs\<close>, \<open>ModelChecker::explore_dpor\<close> and
  \<open>collect_dpor_schedules\<close>). The vectors \<open>nodes\<close> and \<open>trace\<close> that the recursion shares, the
  path history, the result and the optional vector of terminal schedules are one record that
  the recursion threads. Fuel bounds the depth of the recursion and the choices of a node.
\<close>

section \<open>The initial persistent set\<close>

definition flushes_of_siblings :: "'a transition_scheme \<Rightarrow> 'b transition_scheme \<Rightarrow> bool" where
  "flushes_of_siblings c t =
     (tr_thread c = tr_thread t \<and> a_kind (tr_action c) = Flush \<and> a_kind (tr_action t) = Flush \<and>
      a_address (tr_action c) \<noteq> a_address (tr_action t))"

definition arrivals_of_siblings ::
  "exec_state \<Rightarrow> 'a transition_scheme \<Rightarrow> 'b transition_scheme \<Rightarrow> bool" where
  "arrivals_of_siblings s c t =
     (if a_kind (tr_action c) = BarrierWait \<and> a_kind (tr_action t) = BarrierWait \<and>
         a_barrier (tr_action c) = a_barrier (tr_action t)
      then case mlookup (st_barriers s) (a_barrier (tr_action c)) of
          None \<Rightarrow> False
        | Some b \<Rightarrow>
            a_parties (tr_action c) \<noteq> 0 \<and> a_parties (tr_action c) = parties b \<and>
            a_parties (tr_action t) = parties b \<and>
            oc_generation (tr_occurrence c) = oc_generation (tr_occurrence t) \<and>
            oc_generation (tr_occurrence c) = Some (generation b)
      else False)"

text \<open>The candidate is kept because of a transition that is already selected.\<close>

definition keeps_candidate ::
  "program \<Rightarrow> exec_state \<Rightarrow> dpor_node \<Rightarrow> transition \<Rightarrow> transition \<Rightarrow> bool" where
  "keeps_candidate p s node c t \<longleftrightarrow>
     flushes_of_siblings c t \<or> arrivals_of_siblings s c t \<or>
     \<not> transitions_independent_at_node p (st_model s) node c t"

definition node_transition :: "dpor_node \<Rightarrow> schedule_step \<Rightarrow> transition res" where
  "node_transition node step =
     (case mlookup (dn_transitions node) step of
        None \<Rightarrow> Inl Out_Of_Range | Some et \<Rightarrow> Inr (enabled_as_transition step et))"

fun kept_by ::
  "program \<Rightarrow> exec_state \<Rightarrow> dpor_node \<Rightarrow> schedule_step \<Rightarrow> schedule_step list \<Rightarrow> bool res" where
  "kept_by p s node candidate [] = Inr False"
| "kept_by p s node candidate (selected # rest) =
     res_bind (node_transition node candidate) (\<lambda>c.
     res_bind (node_transition node selected) (\<lambda>t.
     if keeps_candidate p s node c t then Inr True else kept_by p s node candidate rest))"

text \<open>The body of the loop over the candidates; the state is the backtrack set and \<open>changed\<close>.\<close>

definition consider_candidate ::
  "program \<Rightarrow> exec_state \<Rightarrow> dpor_node \<Rightarrow> schedule_step \<Rightarrow> schedule_step list \<times> bool \<Rightarrow>
   (schedule_step list \<times> bool) res" where
  "consider_candidate p s node candidate bc =
     (if candidate \<in> set (fst bc) \<or> candidate \<in> set (dn_sleep node) then Inr bc
      else res_bind (kept_by p s node candidate (fst bc)) (\<lambda>kept.
             Inr (if kept then (vec_insert candidate (fst bc), True) else bc)))"

definition closure_pass ::
  "program \<Rightarrow> exec_state \<Rightarrow> dpor_node \<Rightarrow> schedule_step list \<Rightarrow> (schedule_step list \<times> bool) res"
where
  "closure_pass p s node backtrack =
     res_fold (consider_candidate p s node) (dn_enabled node) (backtrack, False)"

text \<open>The candidates outside the set: their number falls with every pass that changes it.\<close>

definition outside :: "dpor_node \<Rightarrow> schedule_step list \<Rightarrow> schedule_step list" where
  "outside node backtrack = filter (\<lambda>x. x \<notin> set backtrack) (dn_enabled node)"

lemma consider_candidate_cases:
  assumes "consider_candidate p s node x bc = Inr bc'"
  shows "bc' = bc \<or> (x \<notin> set (fst bc) \<and> x \<notin> set (dn_sleep node) \<and>
    bc' = (vec_insert x (fst bc), True) \<and> kept_by p s node x (fst bc) = Inr True)"
  using assms by (auto simp: consider_candidate_def res_simps split: if_splits)

lemma closure_pass_outside:
  assumes "closure_pass p s node backtrack = Inr (bt, changed)"
  shows "set backtrack \<subseteq> set bt" "changed \<Longrightarrow> length (outside node bt) < length (outside node backtrack)"
proof -
  have "set backtrack \<subseteq> set (fst bc) \<and>
      (snd bc \<longrightarrow> (\<exists>x\<in>set (dn_enabled node). x \<notin> set backtrack \<and> x \<in> set (fst bc)))"
    if "res_fold (consider_candidate p s node) xs (backtrack, False) = Inr bc"
      "set xs \<subseteq> set (dn_enabled node)" for xs bc
  proof (rule res_fold_invariant [OF that(1)])
    fix x a b
    assume x: "x \<in> set xs" and inv: "set backtrack \<subseteq> set (fst a) \<and>
        (snd a \<longrightarrow> (\<exists>y\<in>set (dn_enabled node). y \<notin> set backtrack \<and> y \<in> set (fst a)))"
      and step: "consider_candidate p s node x a = Inr b"
    show "set backtrack \<subseteq> set (fst b) \<and>
        (snd b \<longrightarrow> (\<exists>y\<in>set (dn_enabled node). y \<notin> set backtrack \<and> y \<in> set (fst b)))"
      using consider_candidate_cases [OF step] inv x that(2) by auto
  qed simp
  from this [OF assms [unfolded closure_pass_def]] have
    sub: "set backtrack \<subseteq> set bt" and new: "changed \<Longrightarrow>
      \<exists>x\<in>set (dn_enabled node). x \<notin> set backtrack \<and> x \<in> set bt" by auto
  show "set backtrack \<subseteq> set bt" by (rule sub)
  assume changed
  then obtain x where x: "x \<in> set (dn_enabled node)" "x \<notin> set backtrack" "x \<in> set bt"
    using new by blast
  have eq: "outside node bt = filter (\<lambda>x. x \<notin> set bt) (outside node backtrack)"
    using sub by (auto simp: outside_def intro!: filter_cong)
  have "x \<in> set (outside node backtrack)" using x by (simp add: outside_def)
  then show "length (outside node bt) < length (outside node backtrack)"
    unfolding eq using x(3) by (intro length_filter_less) auto
qed

function close_backtrack ::
  "program \<Rightarrow> exec_state \<Rightarrow> dpor_node \<Rightarrow> schedule_step list \<Rightarrow> schedule_step list res" where
  "close_backtrack p s node backtrack =
     (case closure_pass p s node backtrack of
        Inl e \<Rightarrow> Inl e
      | Inr (bt, changed) \<Rightarrow> if changed then close_backtrack p s node bt else Inr bt)"
  by pat_completeness auto
termination
  by (relation "measure (\<lambda>(p, s, node, backtrack). length (outside node backtrack))")
    (auto dest: closure_pass_outside(2))

declare close_backtrack.simps [simp del]

definition initialize_dpor_backtrack ::
  "program \<Rightarrow> exec_state \<Rightarrow> dpor_node \<Rightarrow> dpor_node res" where
  "initialize_dpor_backtrack p s node =
     (if dn_backtrack node \<noteq> [] \<or> dn_enabled node = [] then Inr node
      else case filter (\<lambda>x. x \<notin> set (dn_sleep node)) (dn_enabled node) of
          [] \<Rightarrow> Inr node
        | first_awake # _ \<Rightarrow>
            res_bind (close_backtrack p s node (vec_insert first_awake (dn_backtrack node)))
              (\<lambda>bt. Inr (node\<lparr>dn_backtrack := bt\<rparr>)))"

section \<open>Backtrack points\<close>

type_synonym trace = "executed_transition list"

text \<open>The last transition of the prefix that spawned the thread.\<close>

fun spawn_enabler :: "trace \<Rightarrow> nat \<Rightarrow> nat \<Rightarrow> nat option" where
  "spawn_enabler trace tid 0 = None"
| "spawn_enabler trace tid (Suc i) =
     (if tr_spawned (trace ! i) = Some tid then Some i else spawn_enabler trace tid i)"

definition too_early :: "nat option \<Rightarrow> nat \<Rightarrow> bool" where
  "too_early spawn_index i = (case spawn_index of None \<Rightarrow> False | Some k \<Rightarrow> i \<le> k)"

definition add_backtrack :: "schedule_step \<Rightarrow> dpor_node \<Rightarrow> dpor_node" where
  "add_backtrack step node =
     node\<lparr>dn_backtrack := vec_insert step (dn_backtrack node),
          dn_sleep := vec_remove step (dn_sleep node)\<rparr>"

definition repair_node :: "program \<Rightarrow> executed_transition \<Rightarrow> dpor_node \<Rightarrow> dpor_node" where
  "repair_node p current node =
     (case disabled_repair_steps p node current of
        Some steps \<Rightarrow> add_repair_steps steps node
      | None \<Rightarrow> add_all_enabled_repair_steps node)"

definition at_node :: "nat \<Rightarrow> (dpor_node \<Rightarrow> dpor_node) \<Rightarrow> dpor_node list \<Rightarrow> dpor_node list" where
  "at_node i f nodes = nodes[i := f (nodes ! i)]"

text \<open>
  The scan over the prefix, from its end. \<open>disabled\<close> collects the dependent prefixes where the
  transition is not enabled; they are repaired, in the order collected, when the scan ends
  without a reversible pair.
\<close>

fun scan_prefix ::
  "program \<Rightarrow> memory_model \<Rightarrow> trace \<Rightarrow> executed_transition \<Rightarrow> nat option \<Rightarrow> nat \<Rightarrow> nat list \<Rightarrow>
   dpor_node list \<Rightarrow> dpor_node list" where
  "scan_prefix p m trace current spawn_index 0 disabled nodes =
     fold (\<lambda>i. at_node i (repair_node p current)) disabled nodes"
| "scan_prefix p m trace current spawn_index (Suc i) disabled nodes =
     (let previous = trace ! i in
      if tr_thread previous = tr_thread current then
        scan_prefix p m trace current spawn_index i disabled nodes
      else if transitions_independent_at_node p m (nodes ! i) previous current then
        scan_prefix p m trace current spawn_index i disabled nodes
      else if \<not> transition_enabled_at_node (nodes ! i) current then
        scan_prefix p m trace current spawn_index i
          (if too_early spawn_index i then disabled else disabled @ [i]) nodes
      else if vc_hb (tr_clock previous) (tr_clock current) then
        scan_prefix p m trace current spawn_index i disabled nodes
      else at_node i (add_backtrack (tr_endpoint current)) nodes)"

definition add_backtracks_for_transition_against_prefix ::
  "program \<Rightarrow> memory_model \<Rightarrow> dpor_node list \<Rightarrow> trace \<Rightarrow> executed_transition \<Rightarrow> nat \<Rightarrow>
   dpor_node list res" where
  "add_backtracks_for_transition_against_prefix p m nodes trace current prefix_size =
     guarded (prefix_size \<le> length trace \<and> prefix_size \<le> length nodes) Out_Of_Range
       (Inr (scan_prefix p m trace current
               (spawn_enabler trace (tr_thread current) prefix_size) prefix_size [] nodes))"

definition add_backtracks_for_transition ::
  "program \<Rightarrow> memory_model \<Rightarrow> dpor_node list \<Rightarrow> trace \<Rightarrow> dpor_node list res" where
  "add_backtracks_for_transition p m nodes trace =
     (if trace = [] then Inr nodes
      else add_backtracks_for_transition_against_prefix p m nodes trace (last trace)
             (length trace - 1))"

text \<open>The next action of a blocked thread, as a transition of the end of the trace.\<close>

definition blocked_transition :: "program \<Rightarrow> exec_state \<Rightarrow> nat \<Rightarrow> executed_transition" where
  "blocked_transition p s tid =
     (let a = effective_next_action p s tid; step = Step tid (st_pc s ! tid) None in
      \<lparr>tr_thread = tid, tr_action = a, tr_endpoint = step,
       tr_occurrence = transition_occurrence_identity_for s step a,
       tr_clock = st_clock s ! tid, tr_spawned = None\<rparr>)"

definition add_disabled_backtracks_for ::
  "program \<Rightarrow> exec_state \<Rightarrow> trace \<Rightarrow> nat \<Rightarrow> dpor_node list \<Rightarrow> dpor_node list res" where
  "add_disabled_backtracks_for p s trace tid nodes =
     (if is_finished p s tid \<or> enabled_steps_for_thread p s tid \<noteq> [] then Inr nodes
      else if \<not> has_next_action p s tid then Inr nodes
      else add_backtracks_for_transition_against_prefix p (st_model s) nodes trace
             (blocked_transition p s tid) (length trace))"

definition add_disabled_backtracks ::
  "program \<Rightarrow> exec_state \<Rightarrow> dpor_node list \<Rightarrow> trace \<Rightarrow> dpor_node list res" where
  "add_disabled_backtracks p s nodes trace =
     res_fold (add_disabled_backtracks_for p s trace) [0..<length p] nodes"

section \<open>Sleep sets\<close>

text \<open>A slept step of the parent survives in the child as the same occurrence and commutes.\<close>

definition stays_asleep ::
  "program \<Rightarrow> memory_model \<Rightarrow> dpor_node \<Rightarrow> transition_map \<Rightarrow> executed_transition \<Rightarrow> schedule_step \<Rightarrow> bool"
where
  "stays_asleep p m parent child executed slept =
     (if slept = tr_endpoint executed then False
      else case (mlookup (dn_transitions parent) slept, mlookup child slept) of
          (Some slept_et, Some child_et) \<Rightarrow>
            et_action child_et = et_action slept_et \<and> et_occurrence child_et = et_occurrence slept_et \<and>
            transitions_independent_at_node p m parent (enabled_as_transition slept slept_et) executed
        | _ \<Rightarrow> False)"

definition inherited_sleep_set ::
  "program \<Rightarrow> exec_state \<Rightarrow> dpor_node \<Rightarrow> executed_transition \<Rightarrow> schedule_step list" where
  "inherited_sleep_set p s parent executed =
     (if dn_sleep parent = [] then []
      else fold (\<lambda>slept acc.
             if stays_asleep p (st_model s) parent (enabled_transitions p s) executed slept
             then vec_insert slept acc else acc) (dn_sleep parent) [])"

section \<open>The search\<close>

record dpor_search =
  ds_result :: check_result
  ds_nodes :: "dpor_node list"
  ds_trace :: trace
  ds_history :: state_history
  ds_schedules :: "schedule list option"

text \<open>\<open>terminal_schedules->push_back\<close>, when there is a vector.\<close>

definition push_schedule :: "schedule \<Rightarrow> dpor_search \<Rightarrow> dpor_search" where
  "push_schedule sch ds = ds\<lparr>ds_schedules := map_option (\<lambda>ss. ss @ [sch]) (ds_schedules ds)\<rparr>"

definition on_result :: "(check_result \<Rightarrow> check_result) \<Rightarrow> dpor_search \<Rightarrow> dpor_search" where
  "on_result f ds = ds\<lparr>ds_result := f (ds_result ds)\<rparr>"

definition on_node :: "nat \<Rightarrow> (dpor_node \<Rightarrow> dpor_node) \<Rightarrow> dpor_search \<Rightarrow> dpor_search" where
  "on_node i f ds = ds\<lparr>ds_nodes := at_node i f (ds_nodes ds)\<rparr>"

definition set_nodes :: "dpor_node list \<Rightarrow> dpor_search \<Rightarrow> dpor_search" where
  "set_nodes ns ds = ds\<lparr>ds_nodes := ns\<rparr>"

definition pop_node :: "dpor_search \<Rightarrow> dpor_search" where
  "pop_node ds = ds\<lparr>ds_nodes := butlast (ds_nodes ds)\<rparr>"

definition mark_done :: "schedule_step \<Rightarrow> dpor_node \<Rightarrow> dpor_node" where
  "mark_done step node = node\<lparr>dn_done := vec_insert step (dn_done node)\<rparr>"

definition put_to_sleep :: "schedule_step \<Rightarrow> dpor_node \<Rightarrow> dpor_node" where
  "put_to_sleep step node = node\<lparr>dn_sleep := vec_insert step (dn_sleep node)\<rparr>"

text \<open>After a terminal outcome every enabled sibling is kept and nothing sleeps.\<close>

definition open_node :: "dpor_node \<Rightarrow> dpor_node" where
  "open_node node =
     node\<lparr>dn_sleep := [], dn_backtrack := append_steps (dn_backtrack node) (dn_enabled node)\<rparr>"

definition dpor_leaf :: "program \<Rightarrow> exec_state \<Rightarrow> dpor_search \<Rightarrow> dpor_search res" where
  "dpor_leaf p s ds =
     (let ds1 = push_schedule (st_schedule s) (on_result count_schedule ds) in
      if all_finished p s then Inr (pop_node ds1)
      else
        res_bind (add_disabled_backtracks p s (ds_nodes ds1) (ds_trace ds1)) (\<lambda>nodes.
        let ds2 = set_nodes nodes ds1 in
        if first_deadlock (ds_result ds2) = None
        then res_bind (make_deadlock_report p s) (\<lambda>d.
               Inr (pop_node (on_result (\<lambda>r. r\<lparr>first_deadlock := Some d\<rparr>) ds2)))
        else Inr (pop_node ds2)))"

definition dpor_sleep_blocked :: "program \<Rightarrow> exec_state \<Rightarrow> dpor_search \<Rightarrow> dpor_search res" where
  "dpor_sleep_blocked p s ds =
     (if all_finished p s then Inr (pop_node ds)
      else res_bind (add_disabled_backtracks p s (ds_nodes ds) (ds_trace ds)) (\<lambda>nodes.
             Inr (pop_node (set_nodes nodes ds))))"

definition dpor_bounded :: "nat \<Rightarrow> exec_state \<Rightarrow> schedule_step \<Rightarrow> dpor_search \<Rightarrow> dpor_search" where
  "dpor_bounded depth s step ds =
     on_node depth (put_to_sleep step)
       (push_schedule (st_schedule s @ [step])
         (on_result record_bound_exceeded (on_node depth open_node ds)))"

definition dpor_terminal ::
  "program \<Rightarrow> nat \<Rightarrow> exec_state \<Rightarrow> exec_state \<Rightarrow> dpor_search \<Rightarrow> dpor_search res" where
  "dpor_terminal p depth s s' ds =
     res_bind (add_disabled_backtracks p s (ds_nodes ds) (ds_trace ds)) (\<lambda>nodes.
       Inr (push_schedule (st_schedule s')
              (on_result count_schedule (on_node depth open_node (set_nodes nodes ds)))))"

definition dpor_cycle ::
  "program \<Rightarrow> nat \<Rightarrow> exec_state \<Rightarrow> nat \<Rightarrow> dpor_search \<Rightarrow> dpor_search res" where
  "dpor_cycle p depth s' cycle_start ds =
     (let ds1 = on_node depth open_node ds in
      res_bind (make_nontermination_report p (st_schedule s') cycle_start (st_model s')) (\<lambda>nt.
      res_bind (record_nontermination nt (ds_result ds1)) (\<lambda>r.
        Inr (push_schedule (st_schedule s') (ds1\<lparr>ds_result := r\<rparr>)))))"

text \<open>The transition of an executed step, as it is pushed on the trace.\<close>

definition executed ::
  "schedule_step \<Rightarrow> enabled_transition \<Rightarrow> exec_state \<Rightarrow> step_report \<Rightarrow> executed_transition" where
  "executed step et s' report =
     \<lparr>tr_thread = s_thread step, tr_action = et_action et, tr_endpoint = step,
      tr_occurrence = et_occurrence et, tr_clock = st_clock s' ! s_thread step,
      tr_spawned = sr_spawned report\<rparr>"

definition dpor_descend ::
  "program \<Rightarrow> nat \<Rightarrow> exec_state \<Rightarrow> step_report \<Rightarrow> executed_transition \<Rightarrow> dpor_search \<Rightarrow>
   dpor_search res" where
  "dpor_descend p depth s report t ds =
     (let trace = ds_trace ds @ [t] in
      res_bind (add_backtracks_for_transition p (st_model s) (ds_nodes ds) trace) (\<lambda>nodes.
        Inr (on_result (record_step_report report) (ds\<lparr>ds_nodes := nodes, ds_trace := trace\<rparr>))))"

definition dpor_return :: "nat \<Rightarrow> schedule_step \<Rightarrow> bool \<Rightarrow> dpor_search \<Rightarrow> dpor_search" where
  "dpor_return depth step cycle_cut ds =
     (let ds1 = ds\<lparr>ds_trace := butlast (ds_trace ds)\<rparr> in
      if cycle_cut then ds1 else on_node depth (put_to_sleep step) ds1)"

text \<open>
  What follows an executed step: a terminal outcome, a cycle cut or the recursive call, which is
  an argument here. The flag is \<open>cycle_cut\<close>.
\<close>

definition dpor_follow ::
  "program \<Rightarrow> nat \<Rightarrow> bool \<Rightarrow> exec_state \<Rightarrow> exec_state \<Rightarrow> step_report \<Rightarrow> executed_transition \<Rightarrow>
   (exec_state \<Rightarrow> schedule_step list \<Rightarrow> dpor_search \<Rightarrow> dpor_search res) \<Rightarrow>
   dpor_search \<Rightarrow> (dpor_search \<times> bool) res" where
  "dpor_follow p depth detect s s' report t search ds =
     (if step_terminal report then
        res_bind (dpor_terminal p depth s s' ds) (\<lambda>ds1. Inr (ds1, False))
      else
        res_bind (observe detect s' (ds_history ds)) (\<lambda>(cycle, h1).
        case cycle of
          Some cycle_start \<Rightarrow>
            res_bind (dpor_cycle p depth s' cycle_start (ds\<lparr>ds_history := h1\<rparr>))
              (\<lambda>ds1. Inr (ds1, True))
        | None \<Rightarrow>
            res_bind (search s' (inherited_sleep_set p s' (ds_nodes ds ! depth) t)
                (ds\<lparr>ds_history := h1\<rparr>))
              (\<lambda>ds1. Inr (ds1\<lparr>ds_history := restore_history detect s' (ds_history ds1)\<rparr>, False))))"

text \<open>One choice of a node: the body of the loop from the call of \<open>at\<close> on.\<close>

definition dpor_choose ::
  "program \<Rightarrow> nat \<Rightarrow> bool \<Rightarrow> exec_state \<Rightarrow> schedule_step \<Rightarrow>
   (exec_state \<Rightarrow> schedule_step list \<Rightarrow> dpor_search \<Rightarrow> dpor_search res) \<Rightarrow>
   dpor_search \<Rightarrow> dpor_search res" where
  "dpor_choose p depth detect s step search ds =
     (case mlookup (dn_transitions (ds_nodes ds ! depth)) step of
        None \<Rightarrow> Inl Out_Of_Range
      | Some et \<Rightarrow>
          res_bind (execute_enabled_step p s step) (\<lambda>(s', report).
          let t = executed step et s' report in
          res_bind (dpor_descend p depth s report t ds) (\<lambda>ds1.
          res_bind (dpor_follow p depth detect s s' report t search ds1) (\<lambda>(ds2, cycle_cut).
            Inr (dpor_return depth step cycle_cut ds2)))))"

fun dpor_dfs :: "nat \<Rightarrow> program \<Rightarrow> nat \<Rightarrow> nat \<Rightarrow> bool \<Rightarrow> exec_state \<Rightarrow> schedule_step list \<Rightarrow>
    dpor_search \<Rightarrow> dpor_search res"
and dpor_choices :: "nat \<Rightarrow> program \<Rightarrow> nat \<Rightarrow> nat \<Rightarrow> bool \<Rightarrow> exec_state \<Rightarrow> nat \<Rightarrow>
    dpor_search \<Rightarrow> dpor_search res"
where
  "dpor_dfs 0 p max_schedules step_bound detect s sleep_set ds = Inl Out_Of_Fuel"
| "dpor_dfs (Suc fuel) p max_schedules step_bound detect s sleep_set ds =
     (if schedules_explored (ds_result ds) \<ge> max_schedules then Inr ds
      else
        let depth = length (ds_nodes ds);
            node = dpor_node_for p s sleep_set;
            ds1 = set_nodes (ds_nodes ds @ [node]) ds in
        if dn_enabled node = [] then dpor_leaf p s ds1
        else
          res_bind (initialize_dpor_backtrack p s node) (\<lambda>node1.
          let ds2 = set_nodes (ds_nodes ds @ [node1]) ds in
          if dn_backtrack node1 = [] then dpor_sleep_blocked p s ds2
          else
            res_bind (dpor_choices fuel p max_schedules step_bound detect s depth ds2) (\<lambda>ds3.
              Inr (pop_node ds3))))"
| "dpor_choices 0 p max_schedules step_bound detect s depth ds = Inl Out_Of_Fuel"
| "dpor_choices (Suc fuel) p max_schedules step_bound detect s depth ds =
     (if schedules_explored (ds_result ds) \<ge> max_schedules then Inr ds
      else case next_unexplored_backtrack (ds_nodes ds ! depth) of
          None \<Rightarrow> Inr ds
        | Some step \<Rightarrow>
            let ds1 = on_node depth (mark_done step) ds; node = ds_nodes ds1 ! depth in
            if step \<notin> set (dn_enabled node) \<or> step \<in> set (dn_sleep node) then
              dpor_choices fuel p max_schedules step_bound detect s depth ds1
            else if step_bound_reached s (s_thread step) step_bound then
              dpor_choices fuel p max_schedules step_bound detect s depth
                (dpor_bounded depth s step ds1)
            else
              res_bind (dpor_choose p depth detect s step
                  (dpor_dfs fuel p max_schedules step_bound detect) ds1)
                (dpor_choices fuel p max_schedules step_bound detect s depth))"

text \<open>
  Fuel: along a path of the recursion, each of the at most \<open>length p * step_bound + 1\<close> levels
  makes at most one choice per enabled step and one call to find that none is left. A thread
  has at most one source step and one flush step per address.
\<close>

definition width :: "program \<Rightarrow> nat" where
  "width p = length p * (2 + length (program_addresses p))"

definition dpor_fuel :: "program \<Rightarrow> nat \<Rightarrow> nat" where
  "dpor_fuel p step_bound = Suc (length p * step_bound) * (width p + 2)"

definition initial_search :: "program \<Rightarrow> memory_model \<Rightarrow> bool \<Rightarrow> dpor_search" where
  "initial_search p m collect =
     \<lparr>ds_result = empty_result, ds_nodes = [], ds_trace = [],
      ds_history = initial_history p (initial_state p m),
      ds_schedules = (if collect then Some [] else None)\<rparr>"

definition dpor_search_from_start ::
  "program \<Rightarrow> nat \<Rightarrow> nat \<Rightarrow> memory_model \<Rightarrow> bool \<Rightarrow> dpor_search res" where
  "dpor_search_from_start p max_schedules step_bound m collect =
     dpor_dfs (dpor_fuel p step_bound) p max_schedules step_bound (requires_cycle_detection p)
       (initial_state p m) [] (initial_search p m collect)"

definition dpor_result :: "program \<Rightarrow> nat \<Rightarrow> nat \<Rightarrow> memory_model \<Rightarrow> check_result res" where
  "dpor_result p max_schedules step_bound m =
     res_bind (dpor_search_from_start p max_schedules step_bound m False) (\<lambda>ds.
       Inr ((ds_result ds)\<lparr>exploration_capped :=
              schedules_explored (ds_result ds) \<ge> max_schedules\<rparr>))"

definition explore_dpor :: "program \<Rightarrow> nat \<Rightarrow> nat \<Rightarrow> memory_model \<Rightarrow> check_result res" where
  "explore_dpor p max_schedules step_bound m =
     res_bind (dpor_result p max_schedules step_bound m) (\<lambda>r.
       minimize_result_reports p r step_bound m)"

definition collect_dpor_schedules ::
  "program \<Rightarrow> nat \<Rightarrow> nat \<Rightarrow> memory_model \<Rightarrow> schedule list res" where
  "collect_dpor_schedules p max_schedules step_bound m =
     res_bind (dpor_search_from_start p max_schedules step_bound m True) (\<lambda>ds.
       case ds_schedules ds of
         None \<Rightarrow> Inr []
       | Some schedules \<Rightarrow>
           guarded (length schedules = schedules_explored (ds_result ds))
             (Assert_Failed ''schedules do not match the count'') (Inr schedules))"

end
