(* ===== verification/Dpor_Nodes.thy ===== *)
theory Dpor_Nodes
  imports Dpor
begin

text \<open>
  What the DPOR explorer keeps about its nodes: the enabled steps and transitions of a node
  never change, its backtrack set only grows and stays within the enabled steps, and only the
  search loop of the node itself marks choices as done.
\<close>

section \<open>Nodes\<close>

definition node_ok :: "dpor_node \<Rightarrow> bool" where
  "node_ok node \<longleftrightarrow>
     set (dn_backtrack node) \<subseteq> set (dn_enabled node) \<and>
     (\<forall>x. mlookup (dn_transitions node) x \<noteq> None \<longleftrightarrow> x \<in> set (dn_enabled node))"

definition node_frame :: "dpor_node \<Rightarrow> dpor_node \<Rightarrow> bool" where
  "node_frame n n' \<longleftrightarrow>
     dn_enabled n' = dn_enabled n \<and> dn_transitions n' = dn_transitions n \<and>
     dn_done n' = dn_done n \<and> set (dn_backtrack n) \<subseteq> set (dn_backtrack n') \<and>
     (node_ok n \<longrightarrow> node_ok n')"

lemma node_frame_refl [simp]: "node_frame n n"
  by (simp add: node_frame_def)

lemma node_frame_trans: "node_frame n n' \<Longrightarrow> node_frame n' n'' \<Longrightarrow> node_frame n n''"
  by (auto simp: node_frame_def)

lemma node_ok_dpor_node_for: "node_ok (dpor_node_for p s sleep_set)"
  by (simp add: node_ok_def dpor_node_for_def mlookup_enabled_transitions_of)

lemma set_append_steps [simp]: "set (append_steps xs ys) = set xs \<union> set ys"
  unfolding append_steps_def by (induction ys arbitrary: xs) auto

lemma frame_open_node: "node_frame n (open_node n)"
  by (auto simp: node_frame_def node_ok_def open_node_def)

lemma frame_put_to_sleep: "node_frame n (put_to_sleep x n)"
  by (auto simp: node_frame_def node_ok_def put_to_sleep_def)

lemma frame_add_backtrack: "transition_enabled_at_node n t \<Longrightarrow> node_frame n (add_backtrack (tr_endpoint t) n)"
  by (auto simp: node_frame_def node_ok_def add_backtrack_def transition_enabled_at_node_def
      split: option.splits)

lemma frame_add_repair_steps: "node_frame n (add_repair_steps steps n)"
proof -
  have "node_frame n0 (fold (\<lambda>step n.
         if step \<in> set (dn_enabled n)
         then n\<lparr>dn_backtrack := vec_insert step (dn_backtrack n),
                dn_sleep := vec_remove step (dn_sleep n)\<rparr>
         else n) steps n)" if "node_frame n0 n" for n0 n
    using that
  proof (induction steps arbitrary: n)
    case (Cons x xs)
    have "node_frame n (if x \<in> set (dn_enabled n)
        then n\<lparr>dn_backtrack := vec_insert x (dn_backtrack n), dn_sleep := vec_remove x (dn_sleep n)\<rparr>
        else n)"
      by (auto simp: node_frame_def node_ok_def)
    then show ?case using Cons.IH node_frame_trans [OF Cons.prems] by simp
  qed simp
  then show ?thesis by (simp add: add_repair_steps_def)
qed

lemma frame_repair_node: "node_frame n (repair_node p t n)"
  by (simp add: repair_node_def add_all_enabled_repair_steps_def frame_add_repair_steps
      split: option.split)

section \<open>Stacks of nodes\<close>

definition nodes_frame :: "dpor_node list \<Rightarrow> dpor_node list \<Rightarrow> bool" where
  "nodes_frame ns ns' \<longleftrightarrow> list_all2 node_frame ns ns'"

lemma nodes_frame_refl [simp]: "nodes_frame ns ns"
  by (simp add: nodes_frame_def list_all2_refl)

lemma nodes_frame_trans: "nodes_frame a b \<Longrightarrow> nodes_frame b c \<Longrightarrow> nodes_frame a c"
  unfolding nodes_frame_def by (rule list_all2_trans [OF node_frame_trans])

lemma nodes_frame_length: "nodes_frame a b \<Longrightarrow> length b = length a"
  by (simp add: nodes_frame_def list_all2_lengthD)

lemma nodes_frame_at: "node_frame (ns ! i) (f (ns ! i)) \<Longrightarrow> nodes_frame ns (at_node i f ns)"
  unfolding nodes_frame_def at_node_def list_all2_conv_all_nth
  by (metis length_list_update node_frame_refl nth_list_update_eq nth_list_update_neq)

lemma nodes_frame_snoc [simp]:
  "nodes_frame (a @ [x]) (b @ [y]) \<longleftrightarrow> nodes_frame a b \<and> node_frame x y"
  by (cases "length a = length b")
    (auto simp: nodes_frame_def list_all2_append dest: list_all2_lengthD)

lemma nodes_frame_snocE:
  assumes "nodes_frame (a @ [x]) c"
  obtains b y where "c = b @ [y]" "nodes_frame a b" "node_frame x y"
proof (cases c rule: rev_cases)
  case Nil
  then show ?thesis using assms by (simp add: nodes_frame_def)
next
  case (snoc b y)
  then show ?thesis using assms that by simp
qed

lemma nodes_frame_butlast: "nodes_frame a b \<Longrightarrow> nodes_frame (butlast a) (butlast b)"
  by (auto simp: nodes_frame_def list_all2_conv_all_nth nth_butlast)

lemma nodes_frame_ok: "nodes_frame a b \<Longrightarrow> \<forall>n\<in>set a. node_ok n \<Longrightarrow> \<forall>n\<in>set b. node_ok n"
  unfolding nodes_frame_def by (induction rule: list_all2_induct) (auto simp: node_frame_def)

lemma nodes_frame_scan:
  "nodes_frame nodes (scan_prefix p m trace current k i disabled nodes)"
proof (induction i arbitrary: disabled)
  case 0
  have "nodes_frame nodes (fold (\<lambda>i. at_node i (repair_node p current)) disabled ns)"
    if "nodes_frame nodes ns" for ns
    using that
  proof (induction disabled arbitrary: ns)
    case (Cons i rest)
    have "nodes_frame ns (at_node i (repair_node p current) ns)"
      by (intro nodes_frame_at frame_repair_node)
    then show ?case using Cons.IH nodes_frame_trans [OF Cons.prems] by simp
  qed simp
  then show ?case by simp
next
  case (Suc i)
  have "nodes_frame nodes (at_node i (add_backtrack (tr_endpoint current)) nodes)"
    if "transition_enabled_at_node (nodes ! i) current"
    using that by (intro nodes_frame_at frame_add_backtrack) simp
  then show ?case using Suc.IH by (simp add: Let_def)
qed

text \<open>
  A reversible pair: dependent steps of two threads, the later one enabled at the earlier
  prefix and not ordered after the earlier one. A dependent prefix where the later step is not
  enabled needs a repair, unless the thread had not been spawned yet.
\<close>

definition dependent_at ::
  "program \<Rightarrow> memory_model \<Rightarrow> dpor_node list \<Rightarrow> trace \<Rightarrow> executed_transition \<Rightarrow> nat \<Rightarrow> bool" where
  "dependent_at p m nodes trace current i \<longleftrightarrow>
     tr_thread (trace ! i) \<noteq> tr_thread current \<and>
     \<not> transitions_independent_at_node p m (nodes ! i) (trace ! i) current"

definition reversible_at ::
  "program \<Rightarrow> memory_model \<Rightarrow> dpor_node list \<Rightarrow> trace \<Rightarrow> executed_transition \<Rightarrow> nat \<Rightarrow> bool" where
  "reversible_at p m nodes trace current i \<longleftrightarrow>
     dependent_at p m nodes trace current i \<and> transition_enabled_at_node (nodes ! i) current \<and>
     \<not> vc_hb (tr_clock (trace ! i)) (tr_clock current)"

definition repairable_at ::
  "program \<Rightarrow> memory_model \<Rightarrow> dpor_node list \<Rightarrow> trace \<Rightarrow> executed_transition \<Rightarrow> nat option \<Rightarrow> nat \<Rightarrow>
   bool" where
  "repairable_at p m nodes trace current spawn_index i \<longleftrightarrow>
     dependent_at p m nodes trace current i \<and>
     \<not> transition_enabled_at_node (nodes ! i) current \<and> \<not> too_early spawn_index i"

lemma scan_prefix_spec:
  "scan_prefix p m trace current k n disabled nodes =
     (case find (reversible_at p m nodes trace current) (rev [0..<n]) of
        Some i \<Rightarrow> at_node i (add_backtrack (tr_endpoint current)) nodes
      | None \<Rightarrow> fold (\<lambda>i. at_node i (repair_node p current))
          (disabled @ filter (repairable_at p m nodes trace current k) (rev [0..<n])) nodes)"
proof (induction n arbitrary: disabled)
  case (Suc n)
  have "scan_prefix p m trace current k (Suc n) disabled nodes =
      (if reversible_at p m nodes trace current n
       then at_node n (add_backtrack (tr_endpoint current)) nodes
       else scan_prefix p m trace current k n
         (if repairable_at p m nodes trace current k n then disabled @ [n] else disabled) nodes)"
    by (simp add: Let_def dependent_at_def reversible_at_def repairable_at_def)
  then show ?case using Suc.IH by (simp split: option.split)
qed simp

lemma against_prefix_completes:
  assumes "i \<le> length trace" "i \<le> length nodes"
  shows "\<exists>ns. add_backtracks_for_transition_against_prefix p m nodes trace t i = Inr ns \<and>
    nodes_frame nodes ns"
  using assms nodes_frame_scan
  by (simp add: add_backtracks_for_transition_against_prefix_def guarded_def)

lemma add_backtracks_completes:
  assumes "length trace \<le> Suc (length nodes)"
  shows "\<exists>ns. add_backtracks_for_transition p m nodes trace = Inr ns \<and> nodes_frame nodes ns"
  using against_prefix_completes [of "length trace - 1" trace nodes p m "last trace"] assms
  by (auto simp: add_backtracks_for_transition_def)

lemma add_disabled_completes:
  assumes "length trace \<le> length nodes"
  shows "\<exists>ns. add_disabled_backtracks p s nodes trace = Inr ns \<and> nodes_frame nodes ns"
proof -
  have "\<exists>ns. res_fold (add_disabled_backtracks_for p s trace) tids nodes0 = Inr ns \<and>
      nodes_frame nodes0 ns" if "length trace \<le> length nodes0" for tids nodes0
    using that
  proof (induction tids arbitrary: nodes0)
    case (Cons t ts)
    have "\<exists>ns. add_disabled_backtracks_for p s trace t nodes0 = Inr ns \<and> nodes_frame nodes0 ns"
      using against_prefix_completes [OF order_refl Cons.prems, of p "st_model s" "blocked_transition p s t"]
      unfolding add_disabled_backtracks_for_def by (metis nodes_frame_refl)
    then obtain ns where ns: "add_disabled_backtracks_for p s trace t nodes0 = Inr ns" "nodes_frame nodes0 ns"
      by blast
    then show ?case
      using Cons.IH [of ns] Cons.prems nodes_frame_length [OF ns(2)] nodes_frame_trans [OF ns(2)]
      by auto
  qed simp
  then show ?thesis using assms by (simp add: add_disabled_backtracks_def)
qed

section \<open>The persistent set\<close>

lemma node_transition_completes:
  "node_ok node \<Longrightarrow> x \<in> set (dn_enabled node) \<Longrightarrow>
   \<exists>et. mlookup (dn_transitions node) x = Some et \<and>
        node_transition node x = Inr (enabled_as_transition x et)"
  unfolding node_ok_def node_transition_def
  by (cases "mlookup (dn_transitions node) x") fastforce+

lemma kept_by_completes:
  assumes "node_ok node" "x \<in> set (dn_enabled node)" "set ys \<subseteq> set (dn_enabled node)"
  shows "\<exists>kept. kept_by p s node x ys = Inr kept \<and>
    (\<not> kept \<longrightarrow> (\<forall>y\<in>set ys. \<forall>c t. node_transition node x = Inr c \<longrightarrow>
       node_transition node y = Inr t \<longrightarrow> \<not> keeps_candidate p s node c t))"
  using assms(3)
proof (induction ys)
  case (Cons y ys)
  obtain c t where "node_transition node x = Inr c" "node_transition node y = Inr t"
    using node_transition_completes [OF assms(1)] assms(2) Cons.prems by (metis list.set_intros(1) subsetD)
  then show ?case using Cons by (cases "keeps_candidate p s node c t") auto
qed (auto intro: exI [of _ False])

text \<open>
  No step of the set keeps an enabled step that is awake and outside the set: the set is
  closed under dependence.
\<close>

definition closed_backtrack ::
  "program \<Rightarrow> exec_state \<Rightarrow> dpor_node \<Rightarrow> schedule_step list \<Rightarrow> bool" where
  "closed_backtrack p s node bt \<longleftrightarrow>
     (\<forall>x\<in>set (dn_enabled node). x \<notin> set bt \<longrightarrow> x \<notin> set (dn_sleep node) \<longrightarrow>
        (\<forall>y\<in>set bt. \<forall>c t. node_transition node x = Inr c \<longrightarrow> node_transition node y = Inr t \<longrightarrow>
           \<not> keeps_candidate p s node c t))"

lemma closure_pass_completes:
  assumes ok: "node_ok node" and bt: "set bt \<subseteq> set (dn_enabled node)"
  shows "\<exists>bt' changed. closure_pass p s node bt = Inr (bt', changed) \<and>
    set bt' \<subseteq> set (dn_enabled node)"
proof -
  have "\<exists>bc'. res_fold (consider_candidate p s node) xs bc = Inr bc' \<and>
      set (fst bc') \<subseteq> set (dn_enabled node)"
    if "set xs \<subseteq> set (dn_enabled node)" "set (fst bc) \<subseteq> set (dn_enabled node)" for xs bc
    using that
  proof (induction xs arbitrary: bc)
    case (Cons x xs)
    have x: "x \<in> set (dn_enabled node)" and xs: "set xs \<subseteq> set (dn_enabled node)"
      using Cons.prems(1) by simp_all
    obtain kept where "kept_by p s node x (fst bc) = Inr kept"
      using kept_by_completes [OF ok x Cons.prems(2)] by blast
    then have "consider_candidate p s node x bc = Inr bc \<or>
        consider_candidate p s node x bc = Inr (vec_insert x (fst bc), True)"
      by (simp add: consider_candidate_def)
    then show ?case
      using Cons.IH [OF xs Cons.prems(2)] Cons.IH [OF xs, of "(vec_insert x (fst bc), True)"]
        x Cons.prems(2) by auto
  qed simp
  from this [OF subset_refl, of "(bt, False)"] show ?thesis
    using bt by (auto simp: closure_pass_def)
qed

lemma closure_pass_stuck:
  assumes "res_fold (consider_candidate p s node) xs bc = Inr (bt, False)"
  shows "bc = (bt, False) \<and> (\<forall>x\<in>set xs. consider_candidate p s node x (bt, False) = Inr (bt, False))"
  using assms
proof (induction xs arbitrary: bc)
  case (Cons x xs)
  then obtain bc1 where step: "consider_candidate p s node x bc = Inr bc1"
    and rest: "res_fold (consider_candidate p s node) xs bc1 = Inr (bt, False)"
    by (auto simp: res_simps)
  have bc1: "bc1 = (bt, False)" using Cons.IH [OF rest] by simp
  then have "bc = (bt, False)" using consider_candidate_cases [OF step] by auto
  then show ?case using Cons.IH [OF rest] step bc1 by simp
qed simp

lemma close_backtrack_completes:
  assumes ok: "node_ok node"
  shows "set bt \<subseteq> set (dn_enabled node) \<Longrightarrow>
    \<exists>bt'. close_backtrack p s node bt = Inr bt' \<and> set bt' \<subseteq> set (dn_enabled node) \<and>
      set bt \<subseteq> set bt' \<and> closed_backtrack p s node bt'"
proof (induction bt rule: measure_induct_rule [where f = "\<lambda>bt. length (outside node bt)"])
  case (less bt)
  obtain bt1 changed where pass: "closure_pass p s node bt = Inr (bt1, changed)"
      "set bt1 \<subseteq> set (dn_enabled node)"
    using closure_pass_completes [OF ok less.prems] by blast
  note grow = closure_pass_outside [OF pass(1)]
  show ?case
  proof (cases changed)
    case True
    then obtain bt' where "close_backtrack p s node bt1 = Inr bt'" "set bt' \<subseteq> set (dn_enabled node)"
        "set bt1 \<subseteq> set bt'" "closed_backtrack p s node bt'"
      using less.IH [OF grow(2) pass(2)] by blast
    then show ?thesis
      using True pass(1) grow(1) by (subst close_backtrack.simps) auto
  next
    case False
    then have same: "bt1 = bt" and each: "\<forall>x\<in>set (dn_enabled node).
        consider_candidate p s node x (bt, False) = Inr (bt, False)"
      using pass(1) closure_pass_stuck unfolding closure_pass_def by (metis prod.inject)+
    have "closed_backtrack p s node bt"
      unfolding closed_backtrack_def
    proof (intro ballI impI)
      fix x y
      assume x: "x \<in> set (dn_enabled node)" "x \<notin> set bt" "x \<notin> set (dn_sleep node)" and y: "y \<in> set bt"
      obtain kept where kept: "kept_by p s node x bt = Inr kept"
        "\<not> kept \<longrightarrow> (\<forall>y\<in>set bt. \<forall>c t. node_transition node x = Inr c \<longrightarrow>
           node_transition node y = Inr t \<longrightarrow> \<not> keeps_candidate p s node c t)"
        using kept_by_completes [OF ok x(1) less.prems] by blast
      moreover have "\<not> kept" using each x kept(1) by (auto simp: consider_candidate_def)
      ultimately show "\<forall>c t. node_transition node x = Inr c \<longrightarrow> node_transition node y = Inr t \<longrightarrow>
          \<not> keeps_candidate p s node c t" using y by blast
    qed
    then show ?thesis
      using False pass(1) same less.prems by (subst close_backtrack.simps) simp
  qed
qed

lemma initialize_completes:
  assumes ok: "node_ok node" and empty: "dn_backtrack node = []"
  shows "\<exists>node1. initialize_dpor_backtrack p s node = Inr node1 \<and> node_frame node node1 \<and>
    dn_sleep node1 = dn_sleep node \<and> closed_backtrack p s node (dn_backtrack node1) \<and>
    (dn_backtrack node1 = [] \<longrightarrow> set (dn_enabled node) \<subseteq> set (dn_sleep node))"
proof (cases "filter (\<lambda>x. x \<notin> set (dn_sleep node)) (dn_enabled node)")
  case Nil
  then have "set (dn_enabled node) \<subseteq> set (dn_sleep node)" by (auto simp: filter_empty_conv)
  then show ?thesis
    using Nil empty by (auto simp: initialize_dpor_backtrack_def closed_backtrack_def)
next
  case (Cons x xs)
  then have "x \<in> set (filter (\<lambda>x. x \<notin> set (dn_sleep node)) (dn_enabled node))" by simp
  then have x: "x \<in> set (dn_enabled node)" "dn_enabled node \<noteq> []" by auto
  then obtain bt where bt: "close_backtrack p s node (vec_insert x (dn_backtrack node)) = Inr bt"
      "set bt \<subseteq> set (dn_enabled node)" "set (vec_insert x (dn_backtrack node)) \<subseteq> set bt"
      "closed_backtrack p s node bt"
    using close_backtrack_completes [OF ok, of "vec_insert x (dn_backtrack node)" p s] empty by auto
  then have "bt \<noteq> []" by auto
  then show ?thesis
    using Cons bt empty x ok by (auto simp: initialize_dpor_backtrack_def node_frame_def node_ok_def)
qed

end
