(* ===== verification/Complete_Schedules.thy ===== *)
theory Complete_Schedules
  imports Explore_Naive "HOL-Library.Sublist"
begin

text \<open>
  The executions of a program below a step bound, as the set of its complete schedules, and the
  naive collector as the enumeration of that set: \<open>collect_naive_schedules\<close> returns, lists
  complete schedules only, in ascending order, and lists them all when it is not capped.
\<close>

section \<open>A state offers a step once\<close>

lemma distinct_concat_map:
  "distinct ts \<Longrightarrow> (\<And>t. t \<in> set ts \<Longrightarrow> distinct (f t)) \<Longrightarrow>
   (\<And>t u x. x \<in> set (f t) \<Longrightarrow> x \<in> set (f u) \<Longrightarrow> t = u) \<Longrightarrow> distinct (concat (map f ts))"
  by (induction ts) fastforce+

lemma distinct_flush_steps:
  assumes wf: "wf_state p s" and t: "t < length p"
  shows "distinct (flush_steps s t)"
proof (cases "st_model s = TSO \<or> \<not> has_pending_store s t")
  case False
  have addr: "st_flush_addresses s = program_addresses p"
    using wf_stateD(1) [OF wf] by (simp add: shape_ok_def)
  have member: "a \<in> set (program_addresses p)" if "(a, vs) \<in> set (mentries (st_pso_buffers s ! t))" for a vs
    using that wf_stateD(7) [OF wf] t by (simp add: mentries_iff buffers_ok_def)
  have "inj_on (lower_bound_index (program_addresses p)) (set (program_addresses p))"
    by (rule inj_onI) (metis ascending_program_addresses lower_bound_index_nth(2))
  then have "distinct (map (lower_bound_index (program_addresses p)) (map fst (mentries (st_pso_buffers s ! t))))"
    using member distinct_mentries [of "st_pso_buffers s ! t"]
    by (subst distinct_map) (auto intro: inj_on_subset)
  then have "distinct (map (\<lambda>i. Step t kFlushActionIndex (Some i))
      (map (lower_bound_index (program_addresses p)) (map fst (mentries (st_pso_buffers s ! t)))))"
    by (subst distinct_map) (simp add: inj_on_def)
  moreover have "flush_steps s t = map (\<lambda>i. Step t kFlushActionIndex (Some i))
      (map (lower_bound_index (program_addresses p)) (map fst (mentries (st_pso_buffers s ! t))))"
    using False addr by (simp add: flush_steps_def comp_def case_prod_unfold)
  ultimately show ?thesis by simp
qed (auto simp: flush_steps_def)

lemma distinct_enabled_steps:
  assumes wf: "wf_state p s" and idx: "indexable p"
  shows "distinct (enabled_steps p s)"
proof -
  have "distinct (enabled_steps_for_thread p s t)" if "t < length p" for t
    using distinct_flush_steps [OF wf that] indexableD [OF idx that] program_action_has_next [of p s t]
    by (auto simp: enabled_steps_for_thread_def flush_steps_def has_next_action_def split: if_splits)
  moreover have "t = u" if "x \<in> set (enabled_steps_for_thread p s t)" "x \<in> set (enabled_steps_for_thread p s u)"
    for t u x
    using that [THEN enabled_steps_for_thread_thread] by simp
  ultimately have "distinct (concat (map (enabled_steps_for_thread p s) [0..<length p]))"
    by (intro distinct_concat_map) auto
  then show ?thesis by (simp add: enabled_steps_def)
qed

lemma ascending_enabled_steps:
  "wf_state p s \<Longrightarrow> indexable p \<Longrightarrow> ascending (enabled_steps p s)"
  using distinct_enabled_steps [of p s] by (simp add: ascending_def strict_sorted_iff enabled_steps_def)

section \<open>Complete schedules\<close>

text \<open>
  A schedule on which an execution ends: nothing is enabled, or its last step is cut by the
  bound, is terminal or returns to a behaviour of the path.
\<close>

definition step_ends :: "program \<Rightarrow> nat \<Rightarrow> exec_state \<Rightarrow> state_history \<Rightarrow> schedule_step \<Rightarrow> bool" where
  "step_ends p b s h x \<longleftrightarrow>
     step_bound_reached s (s_thread x) b \<or>
     (\<exists>s' q. execute_enabled_step p s x = Inr (s', q) \<and>
        (step_terminal q \<or>
         (\<exists>k h'. observe (requires_cycle_detection p) s' h = Inr (Some k, h'))))"

definition complete_schedule :: "program \<Rightarrow> memory_model \<Rightarrow> nat \<Rightarrow> schedule \<Rightarrow> bool" where
  "complete_schedule p m b sch \<longleftrightarrow>
     (\<exists>s h. start_walk p m b sch s h \<and> enabled_steps p s = []) \<or>
     (\<exists>xs x s h. sch = xs @ [x] \<and> start_walk p m b xs s h \<and> x \<in> set (enabled_steps p s) \<and>
        step_ends p b s h x)"

lemma complete_leaf: "start_walk p m b xs s h \<Longrightarrow> enabled_steps p s = [] \<Longrightarrow> complete_schedule p m b xs"
  unfolding complete_schedule_def by blast

lemma complete_last:
  "start_walk p m b xs s h \<Longrightarrow> x \<in> set (enabled_steps p s) \<Longrightarrow> step_ends p b s h x \<Longrightarrow>
   complete_schedule p m b (xs @ [x])"
  unfolding complete_schedule_def by blast

lemma start_walk_unique:
  "start_walk p m b xs s h \<Longrightarrow> start_walk p m b xs s' h' \<Longrightarrow> s' = s \<and> h' = h"
  by (simp add: start_walk_def)

text \<open>A walk that goes on made a step that is enabled and does not end an execution.\<close>

lemma start_walk_Cons:
  assumes w: "start_walk p m b xs s h" and more: "start_walk p m b (xs @ x # ys) s1 h1"
  shows "x \<in> set (enabled_steps p s)" "\<not> step_ends p b s h x"
proof -
  have "walk p b (requires_cycle_detection p) (x # ys) s h = Some (s1, h1)"
    using more w by (simp add: start_walk_def walk_append)
  then show "x \<in> set (enabled_steps p s)" "\<not> step_ends p b s h x"
    by (auto simp: step_ends_def split: if_splits sum.splits option.splits)
qed

lemma complete_beyond:
  assumes w: "start_walk p m b xs s h" and sch: "complete_schedule p m b sch" and pre: "prefix xs sch"
  shows "(sch = xs \<and> enabled_steps p s = []) \<or>
    (\<exists>x\<in>set (enabled_steps p s). prefix (xs @ [x]) sch \<and> (step_ends p b s h x \<longrightarrow> sch = xs @ [x]))"
proof -
  obtain zs where zs: "sch = xs @ zs" using pre by (auto simp: prefix_def)
  from sch consider s1 h1 where "start_walk p m b sch s1 h1" "enabled_steps p s1 = []"
    | ys y s1 h1 where "sch = ys @ [y]" "start_walk p m b ys s1 h1" "y \<in> set (enabled_steps p s1)"
        "step_ends p b s1 h1 y"
    unfolding complete_schedule_def by blast
  then show ?thesis
  proof cases
    case 1
    show ?thesis
    proof (cases zs)
      case Nil
      then show ?thesis using 1 zs start_walk_unique [OF w] by auto
    next
      case (Cons x rest)
      then show ?thesis
        using start_walk_Cons [OF w] 1 zs by auto
    qed
  next
    case 2
    consider "sch = xs" | "ys = xs" | x rest where "ys = xs @ x # rest"
      using zs 2(1) by (cases zs rule: rev_cases; cases "butlast zs") auto
    then show ?thesis
    proof cases
      case 1
      then have "start_walk p m b (ys @ [y]) s h" using w 2(1) by simp
      then show ?thesis using start_walk_Cons(2) [OF 2(2)] 2(4) by blast
    next
      case 2
      then show ?thesis using \<open>sch = ys @ [y]\<close> \<open>start_walk p m b ys s1 h1\<close>
          \<open>y \<in> set (enabled_steps p s1)\<close> start_walk_unique [OF w] by auto
    next
      case (3 x rest)
      then have "x \<in> set (enabled_steps p s)" "\<not> step_ends p b s h x"
        using start_walk_Cons [OF w] 2(2) by blast+
      then show ?thesis using 3 2(1) by auto
    qed
  qed
qed

text \<open>No complete schedule continues another.\<close>

lemma complete_prefix_free:
  assumes "complete_schedule p m b xs" "complete_schedule p m b ys" "prefix xs ys"
  shows "xs = ys"
  using assms(1) unfolding complete_schedule_def
proof (elim disjE exE conjE)
  fix s h assume "start_walk p m b xs s h" "enabled_steps p s = []"
  then show ?thesis using complete_beyond [OF _ assms(2,3)] by fastforce
next
  fix zs z s h assume z: "xs = zs @ [z]" "start_walk p m b zs s h" "step_ends p b s h z"
  have "prefix zs ys" using assms(3) z(1) append_prefixD by blast
  from complete_beyond [OF z(2) assms(2) this] show ?thesis
    using assms(3) z(1,3) by (auto simp: prefix_def)
qed

section \<open>The naive collector\<close>

definition collects ::
  "program \<Rightarrow> memory_model \<Rightarrow> nat \<Rightarrow> nat \<Rightarrow> schedule list \<Rightarrow> schedule list \<Rightarrow>
   (schedule \<Rightarrow> bool) \<Rightarrow> bool" where
  "collects p m b mx ss new mine \<longleftrightarrow>
     ascending new \<and> (\<forall>sch\<in>set new. complete_schedule p m b sch \<and> mine sch) \<and>
     (length ss + length new < mx \<longrightarrow>
        (\<forall>sch. complete_schedule p m b sch \<longrightarrow> mine sch \<longrightarrow> sch \<in> set new))"

text \<open>Schedules are compared lexicographically; they go the way of their first difference.\<close>

lemma schedules_below:
  fixes x y :: "'a::linorder"
  assumes "x < y" "prefix (xs @ [x]) u" "prefix (xs @ [y]) v"
  shows "u < v"
  using assms by (induction xs arbitrary: u v) (auto simp: prefix_def)

lemma collects_one:
  assumes "complete_schedule p m b sch" "mine sch"
    and only: "\<And>sch'. complete_schedule p m b sch' \<Longrightarrow> mine sch' \<Longrightarrow> sch' = sch"
  shows "collects p m b mx ss [sch] mine"
proof -
  have all: "\<forall>sch'. complete_schedule p m b sch' \<longrightarrow> mine sch' \<longrightarrow> sch' \<in> set [sch]"
  proof (intro allI impI)
    fix sch' assume "complete_schedule p m b sch'" "mine sch'"
    then have "sch' = sch" by (rule only)
    then show "sch' \<in> set [sch]" by simp
  qed
  have own: "\<forall>sch'\<in>set [sch]. complete_schedule p m b sch' \<and> mine sch'"
    using assms(1,2) by simp
  show ?thesis
    unfolding collects_def by (intro conjI impI all own) simp
qed

lemma collects_append:
  assumes "collects p m b mx ss new mine" "collects p m b mx (ss @ new) new' mine'"
    and below: "\<And>sch sch'. mine sch \<Longrightarrow> mine' sch' \<Longrightarrow> sch < sch'"
  shows "collects p m b mx ss (new @ new') (\<lambda>sch. mine sch \<or> mine' sch)"
proof -
  have own: "ascending new" "\<forall>sch\<in>set new. complete_schedule p m b sch \<and> mine sch"
      "ascending new'" "\<forall>sch\<in>set new'. complete_schedule p m b sch \<and> mine' sch"
    using assms(1,2) unfolding collects_def by blast+
  have "ascending (new @ new')"
    using own below unfolding ascending_def sorted_wrt_append by blast
  moreover have "\<forall>sch\<in>set (new @ new'). complete_schedule p m b sch \<and> (mine sch \<or> mine' sch)"
    using own unfolding set_append by blast
  moreover have "\<forall>sch. complete_schedule p m b sch \<longrightarrow> mine sch \<or> mine' sch \<longrightarrow> sch \<in> set (new @ new')"
    if "length ss + length (new @ new') < mx"
  proof -
    have "length ss + length new < mx" "length (ss @ new) + length new' < mx" using that by simp_all
    then show ?thesis using assms(1,2) unfolding collects_def set_append by blast
  qed
  ultimately show ?thesis unfolding collects_def by blast
qed

lemma collects_capped:
  assumes "collects p m b mx ss new mine" "mx \<le> length ss + length new" "\<And>sch. mine sch \<Longrightarrow> mine' sch"
  shows "collects p m b mx ss new mine'"
  using assms unfolding collects_def not_less [symmetric] by blast

text \<open>One enabled step: the schedules that pass through it.\<close>

lemma collects_through:
  assumes w: "start_walk p m b xs s h" and x: "x \<in> set (enabled_steps p s)" "step_ends p b s h x"
  shows "collects p m b mx ss [xs @ [x]] (prefix (xs @ [x]))"
proof (rule collects_one)
  show "complete_schedule p m b (xs @ [x])" using complete_last [OF w x] .
  fix sch assume "complete_schedule p m b sch" "prefix (xs @ [x]) sch"
  then show "sch = xs @ [x]"
    using complete_prefix_free complete_last [OF w x] by metis
qed simp

lemma collect_completes:
  assumes prog: "explorable p b"
  shows "start_walk p m b xs s h \<Longrightarrow> length p * b < length xs + n \<Longrightarrow>
    \<exists>new. collect_dfs n p mx b (requires_cycle_detection p) s (ss, h) = Inr (ss @ new, h) \<and>
      collects p m b mx ss new (prefix xs)"
proof (induction n arbitrary: xs s h ss)
  case 0
  then show ?case using start_walk_short by fastforce
next
  case (Suc n)
  define d where "d = requires_cycle_detection p"
  note w = Suc.prems(1)
  have idx: "indexable p" using prog by (simp add: explorable_def)
  have one: "\<exists>new. (if step_bound_reached s (s_thread y) b then Inr (ss @ [st_schedule s @ [y]], h)
      else res_bind (execute_enabled_step p s y) (\<lambda>(s', report).
        if step_terminal report then Inr (ss @ [st_schedule s'], h)
        else res_bind (observe d s' h) (\<lambda>(cycle, h1).
          case cycle of Some cycle_start \<Rightarrow> Inr (ss @ [st_schedule s'], h1)
          | None \<Rightarrow> res_bind (collect_dfs n p mx b d s' (ss, h1))
              (\<lambda>(ss, h2). Inr (ss, restore_history d s' h2))))) = Inr (ss @ new, h) \<and>
      collects p m b mx ss new (prefix (xs @ [y]))" if y: "y \<in> set (enabled_steps p s)" for y ss
  proof (cases "step_bound_reached s (s_thread y) b")
    case True
    then show ?thesis
      using collects_through [OF w y] start_walk_schedule [OF w] by (auto simp: step_ends_def)
  next
    case False
    have "completes (execute_enabled_step p s y)"
      using room_for_walk [OF prog w] y unfolding room_for_def
      by (intro execute_enabled_step_completes) auto
    then obtain s' q where ex: "execute_enabled_step p s y = Inr (s', q)"
      by (auto simp: completes_def)
    have sch: "st_schedule s' = xs @ [y]"
      using execute_enabled_step_parts(1) [OF ex] start_walk_schedule [OF w] by simp
    obtain c h1 where ob: "observe d s' h = Inr (c, h1)"
      using observe_walk [OF w ex] by (auto simp: d_def)
    show ?thesis
    proof (cases "step_terminal q \<or> c \<noteq> None")
      case True
      have "step_ends p b s h y" using True ex ob by (auto simp: step_ends_def d_def)
      then have "collects p m b mx ss [xs @ [y]] (prefix (xs @ [y]))" by (rule collects_through [OF w y])
      moreover have "c \<noteq> None \<Longrightarrow> h1 = h" using ob observe_Some by (cases c) auto
      ultimately show ?thesis using True False ex ob sch by auto
    next
      case going: False
      have w': "start_walk p m b (xs @ [y]) s' h1"
        using start_walk_snoc [OF w y False ex] going ob by (simp add: d_def)
      obtain new where new: "collect_dfs n p mx b d s' (ss, h1) = Inr (ss @ new, h1)"
          "collects p m b mx ss new (prefix (xs @ [y]))"
        using Suc.IH [OF w'] Suc.prems(2) unfolding d_def by auto
      have "restore_history d s' h1 = h" using ob going observe_None by auto
      then show ?thesis using False ex ob going new by auto
    qed
  qed
  have children: "\<exists>new. collect_children n p mx b d s ys (ss, h) = Inr (ss @ new, h) \<and>
      collects p m b mx ss new (\<lambda>sch. \<exists>y\<in>set ys. prefix (xs @ [y]) sch)"
    if "set ys \<subseteq> set (enabled_steps p s)" "ascending ys" for ys ss
    using that
  proof (induction ys arbitrary: ss)
    case (Cons y ys)
    obtain new1 where new1: "(if step_bound_reached s (s_thread y) b then Inr (ss @ [st_schedule s @ [y]], h)
      else res_bind (execute_enabled_step p s y) (\<lambda>(s', report).
        if step_terminal report then Inr (ss @ [st_schedule s'], h)
        else res_bind (observe d s' h) (\<lambda>(cycle, h1).
          case cycle of Some cycle_start \<Rightarrow> Inr (ss @ [st_schedule s'], h1)
          | None \<Rightarrow> res_bind (collect_dfs n p mx b d s' (ss, h1))
              (\<lambda>(ss, h2). Inr (ss, restore_history d s' h2))))) = Inr (ss @ new1, h)"
        "collects p m b mx ss new1 (prefix (xs @ [y]))"
      using one Cons.prems(1) by force
    have eq: "collect_children n p mx b d s (y # ys) (ss, h) =
        (if mx \<le> length (ss @ new1) then Inr (ss @ new1, h)
         else collect_children n p mx b d s ys (ss @ new1, h))"
      using new1(1) by (cases "step_bound_reached s (s_thread y) b")
        (auto simp: Let_def res_simps split del: if_split cong: if_cong option.case_cong)
    show ?case
    proof (cases "mx \<le> length (ss @ new1)")
      case True
      have "collects p m b mx ss new1 (\<lambda>sch. \<exists>z\<in>set (y # ys). prefix (xs @ [z]) sch)"
        by (rule collects_capped [OF new1(2)]) (use True in auto)
      then show ?thesis using eq True by auto
    next
      case False
      obtain new2 where new2: "collect_children n p mx b d s ys (ss @ new1, h) = Inr ((ss @ new1) @ new2, h)"
          "collects p m b mx (ss @ new1) new2 (\<lambda>sch. \<exists>z\<in>set ys. prefix (xs @ [z]) sch)"
        using Cons.IH [of "ss @ new1"] Cons.prems by auto
      have "collects p m b mx ss (new1 @ new2)
          (\<lambda>sch. prefix (xs @ [y]) sch \<or> (\<exists>z\<in>set ys. prefix (xs @ [z]) sch))"
        by (rule collects_append [OF new1(2) new2(2)])
          (use Cons.prems(2) schedules_below in \<open>fastforce\<close>)
      then show ?thesis using eq False new2(1) by simp
    qed
  qed (simp add: collects_def)
  have wf: "wf_state p s" using start_walk_wf [OF idx w] .
  show ?case
  proof (cases "mx \<le> length ss")
    case True
    then show ?thesis by (simp add: collects_def)
  next
    case room: False
    show ?thesis
    proof (cases "enabled_steps p s = []")
      case True
      have "collects p m b mx ss [xs] (prefix xs)"
        by (rule collects_one [OF complete_leaf [OF w True]])
          (use complete_beyond [OF w] True in auto)
      then show ?thesis using room True start_walk_schedule [OF w] by auto
    next
      case False
      obtain new where new: "collect_children n p mx b d s (enabled_steps p s) (ss, h) = Inr (ss @ new, h)"
          "collects p m b mx ss new (\<lambda>sch. \<exists>y\<in>set (enabled_steps p s). prefix (xs @ [y]) sch)"
        using children [OF subset_refl ascending_enabled_steps [OF wf idx]] by blast
      have "prefix xs sch \<longleftrightarrow> (\<exists>y\<in>set (enabled_steps p s). prefix (xs @ [y]) sch)"
        if "complete_schedule p m b sch" for sch
        using complete_beyond [OF w that] False append_prefixD by blast
      then have "collects p m b mx ss new (prefix xs)"
        using new(2) unfolding collects_def by blast
      then show ?thesis using new(1) room False by (auto simp: d_def)
    qed
  qed
qed

lemma collect_naive_completes:
  assumes "explorable p b"
  shows "\<exists>ss. collect_naive_schedules p mx b m = Inr ss \<and> ascending ss \<and>
    (\<forall>sch\<in>set ss. complete_schedule p m b sch) \<and>
    (length ss < mx \<longrightarrow> set ss = {sch. complete_schedule p m b sch})"
  using collect_completes [OF assms start_walk_Nil [of p m], where n = "depth_fuel p b" and mx = mx and ss = "[]"]
  by (auto simp: collect_naive_schedules_def depth_fuel_def collects_def)

section \<open>The explorer counts what the collector lists\<close>

lemma dfs_counts_collected:
  "dfs n p mx b d s (r, h) = Inr (r', h') \<Longrightarrow> length ss = schedules_explored r \<Longrightarrow>
   \<exists>ss'. collect_dfs n p mx b d s (ss, h) = Inr (ss', h') \<and> length ss' = schedules_explored r'"
proof (induction n arbitrary: s r h r' h' ss)
  case (Suc n)
  have children: "\<exists>ss'. collect_children n p mx b d s ys (ss, h) = Inr (ss', h') \<and>
      length ss' = schedules_explored r'"
    if "dfs_children n p mx b d s ys (r, h) = Inr (r', h')" "length ss = schedules_explored r"
    for ys r h r' h' ss
    using that
  proof (induction ys arbitrary: r h ss)
    case (Cons y ys)
    have go: ?case
      if step: "collect_children n p mx b d s (y # ys) (ss, h) =
          (if mx \<le> length ss1 then Inr (ss1, h1) else collect_children n p mx b d s ys (ss1, h1))"
        and count: "length ss1 = schedules_explored r1"
        and rest: "if mx \<le> schedules_explored r1 then (r', h') = (r1, h1)
          else dfs_children n p mx b d s ys (r1, h1) = Inr (r', h')" for ss1 r1 h1
      using Cons.IH [of r1 h1 ss1] that by (cases "mx \<le> schedules_explored r1") auto
    from Cons.prems(1) show ?case
    proof (cases rule: dfs_children_cases)
      case (bounded r1)
      then show ?thesis
        using Cons.prems(2) by (intro go [of "ss @ [st_schedule s @ [y]]" h r1])
          (simp_all add: Let_def record_bound_exceeded_def split del: if_split cong: if_cong)
    next
      case (terminal s' report r1)
      then show ?thesis
        using Cons.prems(2) by (intro go [of "ss @ [st_schedule s']" h r1])
          (simp_all add: record_step_report_def split del: if_split cong: if_cong)
    next
      case (cycle s' report start h1 nt r1)
      have "schedules_explored r1 = Suc (schedules_explored r)"
        using cycle(6) by (auto simp: record_nontermination_def record_step_report_def Let_def res_simps
            split: fairness.splits)
      then show ?thesis
        using cycle Cons.prems(2) by (intro go [of "ss @ [st_schedule s']" h1 r1])
          (simp_all split del: if_split cong: if_cong)
    next
      case (descent s' report h1 r1 h2)
      have "length ss = schedules_explored (record_step_report report r)"
        using Cons.prems(2) by (simp add: record_step_report_def)
      then obtain ss1 where ss1: "collect_dfs n p mx b d s' (ss, h1) = Inr (ss1, h2)"
          "length ss1 = schedules_explored r1"
        using Suc.IH [OF descent(5)] by blast
      then show ?thesis
        using descent by (intro go [of ss1 "restore_history d s' h2" r1])
          (simp_all split del: if_split cong: if_cong)
    qed
  qed simp
  show ?case
  proof (cases "mx \<le> schedules_explored r")
    case False
    show ?thesis
    proof (cases "enabled_steps p s = []")
      case True
      then obtain r1 where "record_leaf p s r = Inr r1" "r' = r1" "h' = h"
        using Suc.prems(1) False by (auto simp: res_simps)
      then show ?thesis
        using Suc.prems(2) False True
        by (auto simp: record_leaf_def Let_def res_simps split: if_splits)
    next
      case inner: False
      then show ?thesis using children [of "enabled_steps p s" r h r' h' ss] Suc.prems False by simp
    qed
  qed (use Suc.prems in simp)
qed simp

lemma dfs_from_start_counts:
  assumes prog: "explorable p b" and r: "dfs_from_start p mx b m = Inr r"
  shows "\<exists>ss. collect_naive_schedules p mx b m = Inr ss \<and> length ss = schedules_explored r"
proof -
  obtain r0 h0 where "dfs (depth_fuel p b) p mx b (requires_cycle_detection p) (initial_state p m)
      (empty_result, initial_history p (initial_state p m)) = Inr (r0, h0)"
    "r = r0\<lparr>exploration_capped := schedules_explored r0 \<ge> mx\<rparr>"
    using r by (auto simp: dfs_from_start_def Let_def res_simps)
  then show ?thesis
    using dfs_counts_collected [of _ p mx b _ _ _ _ _ _ "[]"]
    by (fastforce simp: collect_naive_schedules_def Let_def empty_result_def)
qed

lemma naive_counts_executions:
  assumes prog: "explorable p b" and r: "dfs_from_start p mx b m = Inr r"
    and full: "schedules_explored r < mx"
  shows "finite {sch. complete_schedule p m b sch}"
    "schedules_explored r = card {sch. complete_schedule p m b sch}"
proof -
  obtain ss where ss: "collect_naive_schedules p mx b m = Inr ss" "length ss = schedules_explored r"
    using dfs_from_start_counts [OF prog r] by blast
  then have all: "distinct ss" "set ss = {sch. complete_schedule p m b sch}"
    using collect_naive_completes [OF prog, where mx = mx and m = m] full by (auto dest: ascending_distinct)
  show "finite {sch. complete_schedule p m b sch}" unfolding all(2) [symmetric] by simp
  show "schedules_explored r = card {sch. complete_schedule p m b sch}"
    unfolding all(2) [symmetric] using ss(2) distinct_card [OF all(1)] by simp
qed

end
