(* ===== verification/Dpor_Correct.thy ===== *)
theory Dpor_Correct
  imports Dpor_Nodes Complete_Schedules
begin

text \<open>
  The DPOR search returns, and everything it counts is an execution it ran: with enough fuel
  each call of \<open>dpor_dfs\<close> completes, puts the shared trace and history back, changes the nodes
  below it only by adding backtrack points, and adds complete schedules that extend its own
  path, each of them once. The proof is one induction on the fuel for \<open>dpor_dfs\<close> and
  \<open>dpor_choices\<close>, over one lemma for each outcome of a choice.
\<close>

section \<open>The number of choices of a state\<close>

lemma enabled_steps_for_thread_subset:
  "set (enabled_steps_for_thread p s t) \<subseteq> insert (Step t (st_pc s ! t) None)
     (if st_model s = TSO then {Step t kFlushActionIndex None}
      else (\<lambda>i. Step t kFlushActionIndex (Some i)) ` {..length (st_flush_addresses s)})"
proof -
  have "lower_bound_index xs a \<le> length xs" for xs a
    by (simp add: lower_bound_index_def length_takeWhile_le)
  then show ?thesis by (auto simp: enabled_steps_for_thread_def flush_steps_def)
qed

lemma card_enabled_steps:
  assumes "wf_state p s"
  shows "card (set (enabled_steps p s)) \<le> width p"
proof -
  define n where "n = length (program_addresses p)"
  have addr: "st_flush_addresses s = program_addresses p"
    using wf_stateD(1) [OF assms] by (simp add: shape_ok_def)
  have each: "card (set (enabled_steps_for_thread p s t)) \<le> 2 + n" for t
  proof -
    let ?flushes = "if st_model s = TSO then {Step t kFlushActionIndex None}
        else (\<lambda>i. Step t kFlushActionIndex (Some i)) ` {..n}"
    have sub: "set (enabled_steps_for_thread p s t) \<subseteq> insert (Step t (st_pc s ! t) None) ?flushes"
      using enabled_steps_for_thread_subset [of p s t] unfolding addr n_def .
    have "card ?flushes \<le> Suc n"
      using card_image_le [of "{..n}" "\<lambda>i. Step t kFlushActionIndex (Some i)"] by simp
    then have "card (insert (Step t (st_pc s ! t) None) ?flushes) \<le> 2 + n"
      using card_insert_le_m1 [of "2 + n" ?flushes] by simp
    then show ?thesis using card_mono [OF _ sub] by (simp split: if_splits)
  qed
  have "set (enabled_steps p s) = (\<Union>t\<in>{..<length p}. set (enabled_steps_for_thread p s t))"
    by (auto simp: set_enabled_steps)
  then have "card (set (enabled_steps p s)) \<le>
      (\<Sum>t\<in>{..<length p}. card (set (enabled_steps_for_thread p s t)))"
    using card_UN_le [of "{..<length p}"] by simp
  also have "\<dots> \<le> length p * (2 + n)"
    using sum_bounded_above [of "{..<length p}" _ "2 + n"] each by simp
  finally show ?thesis by (simp add: width_def n_def)
qed

section \<open>What a part of the search adds and keeps\<close>

definition result_ok :: "program \<Rightarrow> memory_model \<Rightarrow> nat \<Rightarrow> check_result \<Rightarrow> bool" where
  "result_ok p m b r \<longleftrightarrow> genuine p m b r \<and> race_met p m b r \<and> counts_ok r"

lemma result_ok_simple [simp]:
  "result_ok p m b empty_result"
  "result_ok p m b r \<Longrightarrow> result_ok p m b (count_schedule r)"
  "result_ok p m b r \<Longrightarrow> result_ok p m b (record_bound_exceeded r)"
  using genuine_count genuine_bounded race_met_cong [of p m b r "count_schedule r"]
    race_met_cong [of p m b r "record_bound_exceeded r"]
  by (auto simp: result_ok_def race_met_def empty_result_def record_bound_exceeded_def)
    (simp_all add: genuine_def counts_ok_def)

lemma explored_bounded [simp]:
  "schedules_explored (record_bound_exceeded r) = Suc (schedules_explored r)"
  by (simp add: record_bound_exceeded_def)

definition adds ::
  "program \<Rightarrow> memory_model \<Rightarrow> nat \<Rightarrow> schedule list \<Rightarrow> dpor_search \<Rightarrow> dpor_search \<Rightarrow> bool" where
  "adds p m b new ds ds' \<longleftrightarrow>
     extends (ds_result ds) (ds_result ds') \<and> result_ok p m b (ds_result ds') \<and>
     ds_schedules ds' = map_option (\<lambda>ss. ss @ new) (ds_schedules ds) \<and>
     schedules_explored (ds_result ds') = schedules_explored (ds_result ds) + length new \<and>
     distinct new \<and> (\<forall>sch\<in>set new. complete_schedule p m b sch)"

definition keeps :: "dpor_search \<Rightarrow> dpor_search \<Rightarrow> bool" where
  "keeps ds ds' \<longleftrightarrow>
     ds_history ds' = ds_history ds \<and> ds_trace ds' = ds_trace ds \<and>
     nodes_frame (ds_nodes ds) (ds_nodes ds')"

lemma adds_trans:
  assumes "adds p m b new ds ds1" "adds p m b new' ds1 ds2" "set new \<inter> set new' = {}"
  shows "adds p m b (new @ new') ds ds2"
  using assms extends_trans [of "ds_result ds" "ds_result ds1" "ds_result ds2"]
  by (auto simp: adds_def option.map_comp comp_def)

lemma adds_cong:
  "adds p m b new ds ds' \<Longrightarrow> ds_result ds0 = ds_result ds \<Longrightarrow> ds_schedules ds0 = ds_schedules ds \<Longrightarrow>
   ds_result ds1 = ds_result ds' \<Longrightarrow> ds_schedules ds1 = ds_schedules ds' \<Longrightarrow> adds p m b new ds0 ds1"
  by (simp add: adds_def)

lemma adds_nothing:
  "result_ok p m b (ds_result ds) \<Longrightarrow> ds_result ds' = ds_result ds \<Longrightarrow>
   ds_schedules ds' = ds_schedules ds \<Longrightarrow> adds p m b [] ds ds'"
  by (simp add: adds_def option.map_ident)

lemma keeps_trans: "keeps ds ds1 \<Longrightarrow> keeps ds1 ds2 \<Longrightarrow> keeps ds ds2"
  unfolding keeps_def using nodes_frame_trans by metis

text \<open>The search stands at a state its path leads to.\<close>

definition on_path ::
  "program \<Rightarrow> memory_model \<Rightarrow> nat \<Rightarrow> schedule \<Rightarrow> exec_state \<Rightarrow> dpor_search \<Rightarrow> bool" where
  "on_path p m b xs s ds \<longleftrightarrow>
     start_walk p m b xs s (ds_history ds) \<and>
     clear_path p m b s (ds_history ds) (ds_result ds) \<and> result_ok p m b (ds_result ds)"

lemma on_path_adds:
  "on_path p m b xs s ds \<Longrightarrow> adds p m b new ds ds' \<Longrightarrow> ds_history ds' = ds_history ds \<Longrightarrow>
   on_path p m b xs s ds'"
  using clear_path_extends by (auto simp: on_path_def adds_def)

lemma ds_simps [simp]:
  "ds_result (push_schedule sch ds) = ds_result ds" "ds_nodes (push_schedule sch ds) = ds_nodes ds"
  "ds_trace (push_schedule sch ds) = ds_trace ds" "ds_history (push_schedule sch ds) = ds_history ds"
  "ds_schedules (push_schedule sch ds) = map_option (\<lambda>ss. ss @ [sch]) (ds_schedules ds)"
  "ds_result (on_result f ds) = f (ds_result ds)" "ds_nodes (on_result f ds) = ds_nodes ds"
  "ds_trace (on_result f ds) = ds_trace ds" "ds_history (on_result f ds) = ds_history ds"
  "ds_schedules (on_result f ds) = ds_schedules ds"
  "ds_result (set_nodes ns ds) = ds_result ds" "ds_nodes (set_nodes ns ds) = ns"
  "ds_trace (set_nodes ns ds) = ds_trace ds" "ds_history (set_nodes ns ds) = ds_history ds"
  "ds_schedules (set_nodes ns ds) = ds_schedules ds"
  "ds_result (on_node i g ds) = ds_result ds" "ds_nodes (on_node i g ds) = at_node i g (ds_nodes ds)"
  "ds_trace (on_node i g ds) = ds_trace ds" "ds_history (on_node i g ds) = ds_history ds"
  "ds_schedules (on_node i g ds) = ds_schedules ds"
  "ds_result (pop_node ds) = ds_result ds" "ds_nodes (pop_node ds) = butlast (ds_nodes ds)"
  "ds_trace (pop_node ds) = ds_trace ds" "ds_history (pop_node ds) = ds_history ds"
  "ds_schedules (pop_node ds) = ds_schedules ds"
  by (simp_all add: push_schedule_def on_result_def set_nodes_def on_node_def pop_node_def)

section \<open>Leaves\<close>

lemma result_ok_leaf:
  assumes prog: "explorable p b" and w: "start_walk p m b xs s h" and stuck: "enabled_steps p s = []"
    and ok: "result_ok p m b r"
  obtains r' where "record_leaf p s r = Inr r'" "result_ok p m b r'" "extends r r'"
    "schedules_explored r' = Suc (schedules_explored r)"
proof -
  have parts: "indexable p" "source_kinds_ok p" using prog by (simp_all add: explorable_def)
  obtain r' where r': "record_leaf p s r = Inr r'" "counts_ok r'"
    using record_leaf_made [OF start_walk_wf [OF parts(1) w] stuck parts(2)] ok
    by (auto simp: result_ok_def)
  have same: "first_race r' = first_race r" "schedules_explored r' = Suc (schedules_explored r)"
    using r'(1) by (auto simp: record_leaf_def Let_def res_simps split: if_splits)
  have "result_ok p m b r'"
    using genuine_leaf [OF _ w stuck r'(1)] race_met_cong [OF _ same(1)] r'(2) ok
    by (simp add: result_ok_def)
  then show thesis using that r'(1) extends_record(5) same(2) by blast
qed

lemma leaf_completes:
  assumes prog: "explorable p b" and path: "on_path p m b xs s ds"
    and stuck: "enabled_steps p s = []" and len: "length (ds_trace ds) \<le> length (ds_nodes ds)"
  shows "\<exists>ds'. dpor_leaf p s ds = Inr ds' \<and> adds p m b [xs] ds ds' \<and>
    ds_history ds' = ds_history ds \<and> ds_trace ds' = ds_trace ds \<and>
    nodes_frame (butlast (ds_nodes ds)) (ds_nodes ds')"
proof -
  have w: "start_walk p m b xs s (ds_history ds)" and ok: "result_ok p m b (ds_result ds)"
    using path by (simp_all add: on_path_def)
  obtain r' where r': "record_leaf p s (ds_result ds) = Inr r'" "result_ok p m b r'"
      "extends (ds_result ds) r'" "schedules_explored r' = Suc (schedules_explored (ds_result ds))"
    using result_ok_leaf [OF prog w stuck ok] .
  obtain ns where ns: "add_disabled_backtracks p s (ds_nodes ds) (ds_trace ds) = Inr ns"
      "nodes_frame (ds_nodes ds) ns"
    using add_disabled_completes [OF len] by blast
  have pop: "nodes_frame (butlast (ds_nodes ds)) (butlast ns)"
    using ns(2) by (rule nodes_frame_butlast)
  have "\<exists>ds'. dpor_leaf p s ds = Inr ds' \<and> ds_result ds' = r' \<and>
      ds_schedules ds' = map_option (\<lambda>ss. ss @ [xs]) (ds_schedules ds) \<and>
      ds_history ds' = ds_history ds \<and> ds_trace ds' = ds_trace ds \<and>
      (ds_nodes ds' = butlast (ds_nodes ds) \<or> ds_nodes ds' = butlast ns)"
  proof (cases "all_finished p s \<or> first_deadlock (ds_result ds) \<noteq> None")
    case True
    then have "r' = count_schedule (ds_result ds)" using r'(1) by (auto simp: record_leaf_def Let_def)
    then show ?thesis
      using True ns(1) start_walk_schedule [OF w] by (auto simp: dpor_leaf_def Let_def)
  next
    case False
    then obtain d where "make_deadlock_report p s = Inr d"
        "r' = (count_schedule (ds_result ds))\<lparr>first_deadlock := Some d\<rparr>"
      using r'(1) by (auto simp: record_leaf_def Let_def res_simps)
    then show ?thesis
      using False ns(1) start_walk_schedule [OF w] by (auto simp: dpor_leaf_def Let_def)
  qed
  then obtain ds' where leaf: "dpor_leaf p s ds = Inr ds'" "ds_result ds' = r'"
      "ds_schedules ds' = map_option (\<lambda>ss. ss @ [xs]) (ds_schedules ds)"
      "ds_history ds' = ds_history ds" "ds_trace ds' = ds_trace ds"
      "ds_nodes ds' = butlast (ds_nodes ds) \<or> ds_nodes ds' = butlast ns"
    by blast
  moreover have "adds p m b [xs] ds ds'"
    using leaf r' complete_leaf [OF w stuck] by (simp add: adds_def)
  ultimately show ?thesis using pop by (metis nodes_frame_refl)
qed

lemma sleep_blocked_completes:
  assumes ok: "result_ok p m b (ds_result ds)" and len: "length (ds_trace ds) \<le> length (ds_nodes ds)"
  shows "\<exists>ds'. dpor_sleep_blocked p s ds = Inr ds' \<and> adds p m b [] ds ds' \<and>
    ds_history ds' = ds_history ds \<and> ds_trace ds' = ds_trace ds \<and>
    nodes_frame (butlast (ds_nodes ds)) (ds_nodes ds')"
proof -
  obtain ns where ns: "add_disabled_backtracks p s (ds_nodes ds) (ds_trace ds) = Inr ns"
      "nodes_frame (ds_nodes ds) ns"
    using add_disabled_completes [OF len] by blast
  have pop: "nodes_frame (butlast (ds_nodes ds)) (butlast ns)"
    using ns(2) by (rule nodes_frame_butlast)
  show ?thesis
    using ns(1) pop adds_nothing [OF ok] by (simp add: dpor_sleep_blocked_def)
qed

section \<open>One choice\<close>

lemma frame_at: "(\<And>n. node_frame n (f n)) \<Longrightarrow> nodes_frame ns (at_node i f ns)"
  by (rule nodes_frame_at) blast

lemma bounded_completes:
  assumes path: "on_path p m b xs s ds" and x: "x \<in> set (enabled_steps p s)"
    and bound: "step_bound_reached s (s_thread x) b"
  shows "adds p m b [xs @ [x]] ds (dpor_bounded depth s x ds) \<and> keeps ds (dpor_bounded depth s x ds)"
proof -
  have w: "start_walk p m b xs s (ds_history ds)" and ok: "result_ok p m b (ds_result ds)"
    using path by (simp_all add: on_path_def)
  have "complete_schedule p m b (xs @ [x])"
    using complete_last [OF w x] bound by (simp add: step_ends_def)
  moreover have "nodes_frame (ds_nodes ds) (at_node depth (put_to_sleep x) (at_node depth open_node (ds_nodes ds)))"
    by (rule nodes_frame_trans; rule frame_at) (simp_all add: frame_open_node frame_put_to_sleep)
  ultimately show ?thesis
    using ok start_walk_schedule [OF w] extends_record(2)
    by (simp add: adds_def keeps_def dpor_bounded_def)
qed

text \<open>The step of a choice: executed, reported, and compared with the path for backtrack points.\<close>

definition steps_from :: "program \<Rightarrow> nat \<Rightarrow> exec_state \<Rightarrow> schedule_step \<Rightarrow> exec_state \<Rightarrow> step_report \<Rightarrow> bool"
where
  "steps_from p b s x s' q \<longleftrightarrow>
     x \<in> set (enabled_steps p s) \<and> \<not> step_bound_reached s (s_thread x) b \<and>
     execute_enabled_step p s x = Inr (s', q)"

lemma result_ok_step:
  assumes path: "on_path p m b xs s ds" and step: "steps_from p b s x s' q"
  shows "result_ok p m b (record_step_report q (ds_result ds))"
proof -
  have w: "start_walk p m b xs s (ds_history ds)" and clear: "clear_path p m b s (ds_history ds) (ds_result ds)"
    and ok: "genuine p m b (ds_result ds)" "race_met p m b (ds_result ds)" "counts_ok (ds_result ds)"
    using path by (simp_all add: on_path_def result_ok_def)
  have x: "x \<in> set (enabled_steps p s)" "\<not> step_bound_reached s (s_thread x) b"
      "execute_enabled_step p s x = Inr (s', q)" using step by (simp_all add: steps_from_def)
  show ?thesis
    using genuine_step [OF ok(1) offersI [OF w x]] race_met_step [OF ok(2) clear x] ok(3)
    by (simp add: result_ok_def)
qed

lemma descend_completes:
  assumes path: "on_path p m b xs s ds" and step: "steps_from p b s x s' q"
    and len: "length (ds_trace ds) \<le> length (ds_nodes ds)"
  shows "\<exists>ds1. dpor_descend p depth s q t ds = Inr ds1 \<and> adds p m b [] ds ds1 \<and>
    ds_history ds1 = ds_history ds \<and> ds_trace ds1 = ds_trace ds @ [t] \<and>
    nodes_frame (ds_nodes ds) (ds_nodes ds1) \<and>
    ds_result ds1 = record_step_report q (ds_result ds)"
proof -
  obtain ns where "add_backtracks_for_transition p (st_model s) (ds_nodes ds) (ds_trace ds @ [t]) = Inr ns"
      "nodes_frame (ds_nodes ds) ns"
    using add_backtracks_completes [of "ds_trace ds @ [t]" "ds_nodes ds" p "st_model s"] len by auto
  moreover have "schedules_explored (record_step_report q r) = schedules_explored r" for r
    by (simp add: record_step_report_def)
  ultimately show ?thesis
    using extends_record(3) [of "ds_result ds" q] result_ok_step [OF path step]
    by (simp add: dpor_descend_def Let_def adds_def option.map_ident on_result_def)
qed

text \<open>What is assumed of the recursive call: the claim about \<open>dpor_dfs\<close> itself.\<close>

definition searches ::
  "program \<Rightarrow> memory_model \<Rightarrow> nat \<Rightarrow> schedule \<Rightarrow> exec_state \<Rightarrow>
   (exec_state \<Rightarrow> schedule_step list \<Rightarrow> dpor_search \<Rightarrow> dpor_search res) \<Rightarrow> bool" where
  "searches p m b xs s search \<longleftrightarrow>
     (\<forall>sleep_set ds. on_path p m b xs s ds \<longrightarrow> length (ds_trace ds) = length (ds_nodes ds) \<longrightarrow>
        (\<exists>ds' new. search s sleep_set ds = Inr ds' \<and> adds p m b new ds ds' \<and> keeps ds ds' \<and>
           (\<forall>sch\<in>set new. prefix xs sch)))"

lemma searchesD:
  "searches p m b xs s search \<Longrightarrow> on_path p m b xs s ds \<Longrightarrow>
   length (ds_trace ds) = length (ds_nodes ds) \<Longrightarrow>
   \<exists>ds' new. search s sleep_set ds = Inr ds' \<and> adds p m b new ds ds' \<and> keeps ds ds' \<and>
     (\<forall>sch\<in>set new. prefix xs sch)"
  unfolding searches_def by blast

lemma terminal_completes:
  assumes path: "on_path p m b xs s ds" and step: "steps_from p b s x s' q"
    and len: "length (ds_trace ds) \<le> length (ds_nodes ds)" and final: "step_terminal q"
  shows "\<exists>ds'. dpor_terminal p depth s s' ds = Inr ds' \<and> adds p m b [xs @ [x]] ds ds' \<and> keeps ds ds'"
proof -
  have w: "start_walk p m b xs s (ds_history ds)" and ok: "result_ok p m b (ds_result ds)"
    using path by (simp_all add: on_path_def)
  have x: "x \<in> set (enabled_steps p s)" "execute_enabled_step p s x = Inr (s', q)"
    using step by (simp_all add: steps_from_def)
  obtain ns where ns: "add_disabled_backtracks p s (ds_nodes ds) (ds_trace ds) = Inr ns"
      "nodes_frame (ds_nodes ds) ns"
    using add_disabled_completes [OF len] by blast
  have "complete_schedule p m b (xs @ [x])"
    using complete_last [OF w x(1)] x(2) final by (auto simp: step_ends_def)
  moreover have "st_schedule s' = xs @ [x]"
    using execute_enabled_step_parts(1) [OF x(2)] start_walk_schedule [OF w] by simp
  moreover have "nodes_frame (ds_nodes ds) (at_node depth open_node ns)"
    using ns(2) by (rule nodes_frame_trans) (simp add: frame_at frame_open_node)
  ultimately show ?thesis
    using ns(1) ok extends_record(1) by (simp add: dpor_terminal_def adds_def keeps_def)
qed

lemma cycle_completes:
  assumes prog: "explorable p b" and path: "on_path p m b xs s ds" and step: "steps_from p b s x s' q"
    and going: "\<not> step_terminal q"
    and ob: "observe (requires_cycle_detection p) s' (ds_history ds) = Inr (Some k, h1)"
  shows "\<exists>ds'. dpor_cycle p depth s' k (ds\<lparr>ds_history := h1\<rparr>) = Inr ds' \<and>
    adds p m b [xs @ [x]] ds ds' \<and> keeps ds ds'"
proof -
  have w: "start_walk p m b xs s (ds_history ds)" and ok: "result_ok p m b (ds_result ds)"
    using path by (simp_all add: on_path_def)
  have x: "x \<in> set (enabled_steps p s)" "execute_enabled_step p s x = Inr (s', q)"
    using step by (simp_all add: steps_from_def)
  obtain nt where nt: "make_nontermination_report p (st_schedule s') k (st_model s') = Inr nt"
    using observed_cycle_report [OF prog w x going ob] by blast
  obtain r where r: "record_nontermination nt (ds_result ds) = Inr r" "counts_ok r"
    using record_nontermination_made ok by (auto simp: result_ok_def)
  have lap: "laps p m b nt"
    using lapsI [OF w x(1) _ x(2) going ob nt] step by (simp add: steps_from_def)
  have same: "first_race r = first_race (ds_result ds)"
      "schedules_explored r = Suc (schedules_explored (ds_result ds))"
    using r(1) by (auto simp: record_nontermination_def Let_def res_simps split: fairness.splits)
  have "result_ok p m b r"
    using genuine_nontermination [OF r(1) lap] race_met_cong [OF _ same(1)] r(2) ok
    by (simp add: result_ok_def)
  moreover have "complete_schedule p m b (xs @ [x])"
    using complete_last [OF w x(1)] x(2) ob unfolding step_ends_def by blast
  moreover have "st_schedule s' = xs @ [x]"
    using execute_enabled_step_parts(1) [OF x(2)] start_walk_schedule [OF w] by simp
  moreover have "h1 = ds_history ds" using observe_Some [OF ob] .
  moreover have "nodes_frame (ds_nodes ds) (at_node depth open_node (ds_nodes ds))"
    by (simp add: frame_at frame_open_node)
  ultimately show ?thesis
    using nt r(1) same(2) extends_record(4) [OF r(1)]
    by (simp add: dpor_cycle_def Let_def adds_def keeps_def on_node_def push_schedule_def)
qed

lemma follow_completes:
  assumes prog: "explorable p b" and path: "on_path p m b xs s ds" and step: "steps_from p b s x s' q"
    and ds1: "ds_result ds1 = record_step_report q (ds_result ds)" "ds_history ds1 = ds_history ds"
      "result_ok p m b (ds_result ds1)" "length (ds_trace ds1) = length (ds_nodes ds1)"
    and rec: "\<And>h. start_walk p m b (xs @ [x]) s' h \<Longrightarrow> searches p m b (xs @ [x]) s' search"
  shows "\<exists>ds2 cut new. dpor_follow p depth (requires_cycle_detection p) s s' q t search ds1 = Inr (ds2, cut) \<and>
    adds p m b new ds1 ds2 \<and> keeps ds1 ds2 \<and> (\<forall>sch\<in>set new. prefix (xs @ [x]) sch)"
proof -
  define d where "d = requires_cycle_detection p"
  have w: "start_walk p m b xs s (ds_history ds)" and clear: "clear_path p m b s (ds_history ds) (ds_result ds)"
    using path by (simp_all add: on_path_def)
  have x: "x \<in> set (enabled_steps p s)" "\<not> step_bound_reached s (s_thread x) b"
      "execute_enabled_step p s x = Inr (s', q)" using step by (simp_all add: steps_from_def)
  have path1: "on_path p m b xs s ds1"
    using path ds1 clear_path_extends [OF clear extends_record(3)] by (simp add: on_path_def)
  obtain c h1 where ob: "observe d s' (ds_history ds1) = Inr (c, h1)"
    using observe_walk [OF w x(3)] by (auto simp: d_def ds1)
  show ?thesis
  proof (cases "step_terminal q")
    case True
    then show ?thesis
      using terminal_completes [OF path1 step _ True, of depth] ds1(4)
      by (fastforce simp: dpor_follow_def)
  next
    case going: False
    show ?thesis
    proof (cases c)
      case (Some k)
      then show ?thesis
        using cycle_completes [OF prog path1 step going, of k h1 depth] ob going
        by (fastforce simp: dpor_follow_def d_def)
    next
      case None
      define ds2 where "ds2 = ds1\<lparr>ds_history := h1\<rparr>"
      have w2: "start_walk p m b (xs @ [x]) s' h1"
        using start_walk_snoc [OF w x going] ob None by (simp add: d_def ds1)
      have "clear_path p m b s' h1 (ds_result ds1)"
        using clear_path_snoc [OF clear x going] ob None by (simp add: d_def ds1)
      then have "on_path p m b (xs @ [x]) s' ds2"
        using w2 ds1(3) by (simp add: on_path_def ds2_def)
      then obtain ds3 new where ds3: "search s' (inherited_sleep_set p s' (ds_nodes ds1 ! depth) t) ds2 = Inr ds3"
          "adds p m b new ds2 ds3" "keeps ds2 ds3" "\<forall>sch\<in>set new. prefix (xs @ [x]) sch"
        using searchesD [OF rec [OF w2], of ds2 "inherited_sleep_set p s' (ds_nodes ds1 ! depth) t"] ds1(4)
        unfolding ds2_def by auto
      have "restore_history d s' (ds_history ds3) = ds_history ds1"
        using observe_None ob None ds3(3) by (auto simp: keeps_def ds2_def)
      then show ?thesis
        using ds3 ob None going
        by (auto simp: dpor_follow_def ds2_def d_def adds_def keeps_def)
    qed
  qed
qed

lemma choose_completes:
  assumes prog: "explorable p b" and path: "on_path p m b xs s ds" and step: "steps_from p b s x s' q"
    and len: "length (ds_nodes ds) = Suc (length (ds_trace ds))"
    and node: "node_ok (ds_nodes ds ! depth)" "dn_enabled (ds_nodes ds ! depth) = enabled_steps p s"
    and rec: "\<And>h. start_walk p m b (xs @ [x]) s' h \<Longrightarrow> searches p m b (xs @ [x]) s' search"
  shows "\<exists>ds' new. dpor_choose p depth (requires_cycle_detection p) s x search ds = Inr ds' \<and>
    adds p m b new ds ds' \<and> keeps ds ds' \<and> (\<forall>sch\<in>set new. prefix (xs @ [x]) sch)"
proof -
  have x: "x \<in> set (enabled_steps p s)" "execute_enabled_step p s x = Inr (s', q)"
    using step by (simp_all add: steps_from_def)
  obtain et where et: "mlookup (dn_transitions (ds_nodes ds ! depth)) x = Some et"
    using node_transition_completes [OF node(1)] node(2) x(1) by auto
  define t where "t = executed x et s' q"
  obtain ds1 where ds1: "dpor_descend p depth s q t ds = Inr ds1" "adds p m b [] ds ds1"
      "ds_history ds1 = ds_history ds" "ds_trace ds1 = ds_trace ds @ [t]"
      "nodes_frame (ds_nodes ds) (ds_nodes ds1)" "ds_result ds1 = record_step_report q (ds_result ds)"
    using descend_completes [OF path step] len by fastforce
  have "result_ok p m b (ds_result ds1)" "length (ds_trace ds1) = length (ds_nodes ds1)"
    using ds1(2,4) len nodes_frame_length [OF ds1(5)] by (simp_all add: adds_def)
  then obtain ds2 cut new where ds2:
      "dpor_follow p depth (requires_cycle_detection p) s s' q t search ds1 = Inr (ds2, cut)"
      "adds p m b new ds1 ds2" "keeps ds1 ds2" "\<forall>sch\<in>set new. prefix (xs @ [x]) sch"
    using follow_completes [OF prog path step ds1(6,3) _ _ rec, of "\<lambda>h. h" depth t] by blast
  define ds3 where "ds3 = dpor_return depth x cut ds2"
  have "nodes_frame (ds_nodes ds2) (ds_nodes ds3)"
    by (simp add: ds3_def dpor_return_def Let_def frame_at frame_put_to_sleep)
  then have "nodes_frame (ds_nodes ds) (ds_nodes ds3)"
    using ds1(5) ds2(3) nodes_frame_trans unfolding keeps_def by blast
  moreover have "ds_history ds3 = ds_history ds" "ds_trace ds3 = ds_trace ds"
    using ds1(3,4) ds2(3) by (simp_all add: keeps_def ds3_def dpor_return_def Let_def)
  ultimately have keeps: "keeps ds ds3" by (simp add: keeps_def)
  have "adds p m b new ds ds2" using adds_trans [OF ds1(2) ds2(2)] by simp
  then have "adds p m b new ds ds3"
    by (rule adds_cong) (simp_all add: ds3_def dpor_return_def Let_def)
  then show ?thesis
    using et x(2) ds1(1) ds2(1,4) keeps by (auto simp: dpor_choose_def t_def ds3_def Let_def)
qed

section \<open>The search returns\<close>

lemma next_unexplored_Some:
  "next_unexplored bt finished = Some x \<Longrightarrow> x \<in> set bt \<and> x \<notin> set finished"
  by (induction bt) (auto split: if_splits)

text \<open>What the loop over the choices of a node does with enough fuel.\<close>

definition chooses ::
  "program \<Rightarrow> nat \<Rightarrow> nat \<Rightarrow> memory_model \<Rightarrow> nat \<Rightarrow> schedule \<Rightarrow> exec_state \<Rightarrow> dpor_node list \<Rightarrow>
   dpor_node \<Rightarrow> dpor_search \<Rightarrow> bool" where
  "chooses p mx b m fuel xs s ns node ds \<longleftrightarrow>
     (\<exists>ds' new. dpor_choices fuel p mx b (requires_cycle_detection p) s (length ns) ds = Inr ds' \<and>
        adds p m b new ds ds' \<and> ds_history ds' = ds_history ds \<and> ds_trace ds' = ds_trace ds \<and>
        nodes_frame ns (butlast (ds_nodes ds')) \<and>
        (\<forall>sch\<in>set new. \<exists>y. y \<notin> set (dn_done node) \<and> prefix (xs @ [y]) sch))"

lemma prefixes_apart: "prefix (xs @ [x]) zs \<Longrightarrow> prefix (xs @ [y]) zs \<Longrightarrow> x = y"
  by (auto simp: prefix_def)

definition choosable ::
  "program \<Rightarrow> memory_model \<Rightarrow> nat \<Rightarrow> schedule \<Rightarrow> exec_state \<Rightarrow> dpor_node list \<Rightarrow> dpor_node \<Rightarrow>
   dpor_search \<Rightarrow> bool" where
  "choosable p m b xs s ns node ds \<longleftrightarrow>
     on_path p m b xs s ds \<and> ds_nodes ds = ns @ [node] \<and> length (ds_trace ds) = length ns \<and>
     dn_enabled node = enabled_steps p s \<and> node_ok node"

definition unfinished_choices :: "dpor_node \<Rightarrow> nat" where
  "unfinished_choices node = card (set (dn_enabled node) - set (dn_done node))"

lemma mark_done_simps [simp]:
  "dn_enabled (mark_done x n) = dn_enabled n" "node_ok (mark_done x n) = node_ok n"
  "set (dn_done (mark_done x n)) = insert x (set (dn_done n))"
  "dn_transitions (mark_done x n) = dn_transitions n"
  by (simp_all add: mark_done_def node_ok_def)

lemma unfinished_mark_done:
  "x \<in> set (dn_enabled n) \<Longrightarrow> x \<notin> set (dn_done n) \<Longrightarrow>
   unfinished_choices (mark_done x n) < unfinished_choices n"
  unfolding unfinished_choices_def by (intro psubset_card_mono) auto

lemma at_node_last [simp]: "at_node (length ns) f (ns @ [n]) = ns @ [f n]"
  by (simp add: at_node_def)

text \<open>The loop goes on after one choice.\<close>

lemma chooses_after:
  assumes start: "choosable p m b xs s ns node ds"
    and new: "x \<notin> set (dn_done node)"
    and part: "adds p m b new1 (on_node (length ns) (mark_done x) ds) ds1"
      "keeps (on_node (length ns) (mark_done x) ds) ds1" "\<forall>sch\<in>set new1. prefix (xs @ [x]) sch"
    and rest: "\<And>ns1 node1. choosable p m b xs s ns1 node1 ds1 \<Longrightarrow> length ns1 = length ns \<Longrightarrow>
      unfinished_choices node1 = unfinished_choices (mark_done x node) \<Longrightarrow>
      chooses p mx b m fuel xs s ns1 node1 ds1"
  shows "\<exists>ds' new. dpor_choices fuel p mx b (requires_cycle_detection p) s (length ns) ds1 = Inr ds' \<and>
    adds p m b new ds ds' \<and> ds_history ds' = ds_history ds \<and> ds_trace ds' = ds_trace ds \<and>
    nodes_frame ns (butlast (ds_nodes ds')) \<and>
    (\<forall>sch\<in>set new. \<exists>y. y \<notin> set (dn_done node) \<and> prefix (xs @ [y]) sch)"
proof -
  have nodes: "ds_nodes ds = ns @ [node]" using start by (simp add: choosable_def)
  have "nodes_frame (ns @ [mark_done x node]) (ds_nodes ds1)"
    using part(2) nodes by (simp add: keeps_def)
  then obtain ns1 node1 where ns1: "ds_nodes ds1 = ns1 @ [node1]" "nodes_frame ns ns1"
      "node_frame (mark_done x node) node1"
    by (rule nodes_frame_snocE)
  have same: "dn_enabled node1 = dn_enabled node" "set (dn_done node1) = insert x (set (dn_done node))"
      "node_ok node1"
    using ns1(3) start by (simp_all add: node_frame_def choosable_def)
  have kept: "ds_history ds1 = ds_history ds" "ds_trace ds1 = ds_trace ds"
    using part(2) by (simp_all add: keeps_def)
  have part1: "adds p m b new1 ds ds1"
    using part(1) by (rule adds_cong) simp_all
  have "choosable p m b xs s ns1 node1 ds1"
    using start same ns1 kept on_path_adds [OF _ part1 kept(1)] nodes_frame_length [OF ns1(2)]
    by (simp add: choosable_def)
  moreover have "unfinished_choices node1 = unfinished_choices (mark_done x node)"
    by (simp add: unfinished_choices_def same)
  ultimately have "chooses p mx b m fuel xs s ns1 node1 ds1"
    using rest nodes_frame_length [OF ns1(2)] by blast
  then obtain ds' new2 where ds': "dpor_choices fuel p mx b (requires_cycle_detection p) s (length ns1) ds1 = Inr ds'"
      "adds p m b new2 ds1 ds'" "ds_history ds' = ds_history ds1" "ds_trace ds' = ds_trace ds1"
      "nodes_frame ns1 (butlast (ds_nodes ds'))"
      "\<forall>sch\<in>set new2. \<exists>y. y \<notin> set (dn_done node1) \<and> prefix (xs @ [y]) sch"
    unfolding chooses_def by blast
  have "set new1 \<inter> set new2 = {}"
  proof (rule ccontr)
    assume "set new1 \<inter> set new2 \<noteq> {}"
    then obtain sch where sch: "sch \<in> set new1" "sch \<in> set new2" by blast
    then obtain y where y: "y \<notin> set (dn_done node1)" "prefix (xs @ [y]) sch" using ds'(6) by blast
    have "x = y" using prefixes_apart [OF _ y(2)] part(3) sch(1) by blast
    then show False using y(1) same(2) by simp
  qed
  then have "adds p m b (new1 @ new2) ds ds'" using adds_trans [OF part1 ds'(2)] by blast
  moreover have "\<forall>sch\<in>set (new1 @ new2). \<exists>y. y \<notin> set (dn_done node) \<and> prefix (xs @ [y]) sch"
  proof
    fix sch assume "sch \<in> set (new1 @ new2)"
    then consider "sch \<in> set new1" | "sch \<in> set new2" by auto
    then show "\<exists>y. y \<notin> set (dn_done node) \<and> prefix (xs @ [y]) sch"
    proof cases
      case 1
      then show ?thesis using part(3) new by blast
    next
      case 2
      then obtain y where "y \<notin> set (dn_done node1)" "prefix (xs @ [y]) sch" using ds'(6) by blast
      then show ?thesis using same(2) by auto
    qed
  qed
  moreover have "nodes_frame ns (butlast (ds_nodes ds'))"
    using nodes_frame_trans [OF ns1(2) ds'(5)] .
  ultimately show ?thesis
    using ds'(1,3,4) kept nodes_frame_length [OF ns1(2)]
    by (intro exI [of _ ds'] exI [of _ "new1 @ new2"]) simp
qed

text \<open>
  The fuel a call needs: every level below it takes one call of \<open>dpor_dfs\<close> and at most
  \<open>width p + 1\<close> calls of \<open>dpor_choices\<close>.
\<close>

definition dfs_need :: "program \<Rightarrow> nat \<Rightarrow> schedule \<Rightarrow> nat" where
  "dfs_need p b xs = (Suc (length p * b) - length xs) * (width p + 2)"

definition choices_need :: "program \<Rightarrow> nat \<Rightarrow> schedule \<Rightarrow> dpor_node \<Rightarrow> nat" where
  "choices_need p b xs node =
     (length p * b - length xs) * (width p + 2) + unfinished_choices node + 1"

lemma chooses_nothing:
  assumes "choosable p m b xs s ns node ds"
    and "dpor_choices fuel p mx b (requires_cycle_detection p) s (length ns) ds = Inr ds"
  shows "chooses p mx b m fuel xs s ns node ds"
proof -
  have "adds p m b [] ds ds" using assms(1) by (intro adds_nothing) (simp_all add: choosable_def on_path_def)
  then show ?thesis
    using assms unfolding chooses_def by (intro exI [of _ ds] exI [of _ "[]"]) (simp add: choosable_def)
qed

lemma chooses_step:
  assumes prog: "explorable p b" and start: "choosable p m b xs s ns node ds"
    and dfs: "\<And>x s'. Suc (length xs) \<le> length p * b \<Longrightarrow>
      searches p m b (xs @ [x]) s' (dpor_dfs n p mx b (requires_cycle_detection p))"
    and loop: "\<And>ns1 node1 ds1. choosable p m b xs s ns1 node1 ds1 \<Longrightarrow>
      unfinished_choices node1 < unfinished_choices node \<Longrightarrow> chooses p mx b m n xs s ns1 node1 ds1"
  shows "chooses p mx b m (Suc n) xs s ns node ds"
proof -
  define d where "d = requires_cycle_detection p"
  have nodes: "ds_nodes ds = ns @ [node]" and ok: "node_ok node"
    and enabled: "dn_enabled node = enabled_steps p s" and path: "on_path p m b xs s ds"
    and len: "length (ds_trace ds) = length ns"
    using start by (simp_all add: choosable_def)
  show ?thesis
  proof (cases "mx \<le> schedules_explored (ds_result ds) \<or> next_unexplored_backtrack node = None")
    case True
    then have "dpor_choices (Suc n) p mx b d s (length ns) ds = Inr ds"
      using nodes by auto
    then show ?thesis using chooses_nothing [OF start] by (simp add: d_def)
  next
    case False
    then obtain x where x: "next_unexplored_backtrack node = Some x" by auto
    have new: "x \<notin> set (dn_done node)" and xe: "x \<in> set (enabled_steps p s)"
      using next_unexplored_Some [of "dn_backtrack node" "dn_done node" x] x ok enabled
      by (auto simp: next_unexplored_backtrack_def node_ok_def)
    define ds1 where "ds1 = on_node (length ns) (mark_done x) ds"
    have nodes1: "ds_nodes ds1 = ns @ [mark_done x node]" by (simp add: ds1_def nodes)
    have path1: "on_path p m b xs s ds1" using path by (simp add: ds1_def on_path_def)
    have fewer: "unfinished_choices (mark_done x node) < unfinished_choices node"
      using unfinished_mark_done new xe enabled by simp
    have go: "chooses p mx b m (Suc n) xs s ns node ds"
      if part: "adds p m b new1 ds1 ds2" "keeps ds1 ds2" "\<forall>sch\<in>set new1. prefix (xs @ [x]) sch"
        and eq: "dpor_choices (Suc n) p mx b d s (length ns) ds = dpor_choices n p mx b d s (length ns) ds2"
      for new1 ds2
      unfolding chooses_def eq [unfolded d_def]
      by (rule chooses_after [OF start new part [unfolded ds1_def]]) (use loop fewer in simp)
    show ?thesis
    proof (cases "x \<in> set (dn_sleep (mark_done x node))")
      case True
      have "adds p m b [] ds1 ds1" using path1 by (intro adds_nothing) (simp_all add: on_path_def)
      moreover have "keeps ds1 ds1" by (simp add: keeps_def)
      ultimately show ?thesis
        by (rule go) (use False x True nodes nodes1 in \<open>auto simp: ds1_def Let_def\<close>)
    next
      case awake: False
      show ?thesis
      proof (cases "step_bound_reached s (s_thread x) b")
        case True
        note bounded = bounded_completes [OF path1 xe True, of "length ns"]
        show ?thesis
          by (rule go [of "[xs @ [x]]" "dpor_bounded (length ns) s x ds1"])
            (use bounded False x True awake nodes nodes1 xe enabled in \<open>auto simp: ds1_def Let_def\<close>)
      next
        case unbounded: False
        have w: "start_walk p m b xs s (ds_history ds)" using path by (simp add: on_path_def)
        have "completes (execute_enabled_step p s x)"
          using room_for_walk [OF prog w] xe unfolding room_for_def
          by (intro execute_enabled_step_completes) auto
        then obtain s' q where step: "steps_from p b s x s' q"
          using xe unbounded by (auto simp: completes_def steps_from_def)
        have rec: "searches p m b (xs @ [x]) s' (dpor_dfs n p mx b d)"
          if "start_walk p m b (xs @ [x]) s' h" for h
          using dfs start_walk_short [OF that] by (simp add: d_def)
        have "\<exists>ds2 new. dpor_choose p (length ns) d s x (dpor_dfs n p mx b d) ds1 = Inr ds2 \<and>
            adds p m b new ds1 ds2 \<and> keeps ds1 ds2 \<and> (\<forall>sch\<in>set new. prefix (xs @ [x]) sch)"
          unfolding d_def
          by (rule choose_completes [OF prog path1 step])
            (use nodes1 len ok enabled rec in \<open>simp_all add: ds1_def d_def\<close>)
        then obtain ds2 new1 where ds2: "dpor_choose p (length ns) d s x (dpor_dfs n p mx b d) ds1 = Inr ds2"
            "adds p m b new1 ds1 ds2" "keeps ds1 ds2" "\<forall>sch\<in>set new1. prefix (xs @ [x]) sch"
          by blast
        show ?thesis
          by (rule go [OF ds2(2-4)])
            (use ds2(1) False x unbounded awake nodes nodes1 xe enabled in \<open>auto simp: ds1_def Let_def\<close>)
      qed
    qed
  qed
qed

lemma searches_step:
  assumes prog: "explorable p b"
    and loop: "\<And>ns node ds. choosable p m b xs s ns node ds \<Longrightarrow>
      unfinished_choices node \<le> width p \<Longrightarrow> chooses p mx b m n xs s ns node ds"
  shows "searches p m b xs s (dpor_dfs (Suc n) p mx b (requires_cycle_detection p))"
  unfolding searches_def
proof (intro allI impI)
  fix sleep_set ds
  assume path: "on_path p m b xs s ds" and len: "length (ds_trace ds) = length (ds_nodes ds)"
  define d where "d = requires_cycle_detection p"
  define node where "node = dpor_node_for p s sleep_set"
  have node: "node_ok node" "dn_enabled node = enabled_steps p s" "dn_backtrack node = []" "dn_done node = []"
    by (simp_all add: node_def node_ok_dpor_node_for) (simp_all add: dpor_node_for_def)
  have ok: "result_ok p m b (ds_result ds)" and w: "start_walk p m b xs s (ds_history ds)"
    using path by (simp_all add: on_path_def)
  have wf: "wf_state p s" using start_walk_wf [OF _ w] prog by (simp add: explorable_def)
  show "\<exists>ds' new. dpor_dfs (Suc n) p mx b (requires_cycle_detection p) s sleep_set ds = Inr ds' \<and>
      adds p m b new ds ds' \<and> keeps ds ds' \<and> (\<forall>sch\<in>set new. prefix xs sch)"
  proof (cases "mx \<le> schedules_explored (ds_result ds)")
    case True
    have "adds p m b [] ds ds" using ok by (intro adds_nothing) simp_all
    then show ?thesis using True by (intro exI [of _ ds] exI [of _ "[]"]) (simp add: keeps_def)
  next
    case room: False
    show ?thesis
    proof (cases "enabled_steps p s = []")
      case True
      define ds1 where "ds1 = set_nodes (ds_nodes ds @ [node]) ds"
      have "on_path p m b xs s ds1" using path by (simp add: ds1_def on_path_def)
      then obtain ds' where ds': "dpor_leaf p s ds1 = Inr ds'" "adds p m b [xs] ds1 ds'"
          "ds_history ds' = ds_history ds1" "ds_trace ds' = ds_trace ds1"
          "nodes_frame (butlast (ds_nodes ds1)) (ds_nodes ds')"
        using leaf_completes [OF prog _ True, where m = m and xs = xs and ds = ds1] len by (auto simp: ds1_def)
      have "adds p m b [xs] ds ds'" using ds'(2) by (rule adds_cong) (simp_all add: ds1_def)
      then show ?thesis
        using ds' room True node(2)
        by (intro exI [of _ ds'] exI [of _ "[xs]"]) (simp add: Let_def ds1_def node_def keeps_def)
    next
      case False
      obtain node1 where node1: "initialize_dpor_backtrack p s node = Inr node1" "node_frame node node1"
        using initialize_completes [OF node(1,3)] by blast
      define ds2 where "ds2 = set_nodes (ds_nodes ds @ [node1]) ds"
      have path2: "on_path p m b xs s ds2" using path by (simp add: ds2_def on_path_def)
      show ?thesis
      proof (cases "dn_backtrack node1 = []")
        case True
        obtain ds' where ds': "dpor_sleep_blocked p s ds2 = Inr ds'" "adds p m b [] ds2 ds'"
            "ds_history ds' = ds_history ds2" "ds_trace ds' = ds_trace ds2"
            "nodes_frame (butlast (ds_nodes ds2)) (ds_nodes ds')"
          using sleep_blocked_completes [of p m b ds2 s] ok len by (auto simp: ds2_def)
        have "adds p m b [] ds ds'" using ds'(2) by (rule adds_cong) (simp_all add: ds2_def)
        then show ?thesis
          using ds' room False True node(2) node1(1)
          by (intro exI [of _ ds'] exI [of _ "[]"]) (simp add: Let_def ds2_def node_def keeps_def)
      next
        case busy: False
        have "choosable p m b xs s (ds_nodes ds) node1 ds2"
          using path2 node1(2) node len by (simp add: choosable_def ds2_def node_frame_def)
        moreover have "unfinished_choices node1 \<le> width p"
          using card_enabled_steps [OF wf] node1(2) node(2,4)
          by (simp add: unfinished_choices_def node_frame_def)
        ultimately have "chooses p mx b m n xs s (ds_nodes ds) node1 ds2" by (rule loop)
        then obtain ds3 new where ds3: "dpor_choices n p mx b d s (length (ds_nodes ds)) ds2 = Inr ds3"
            "adds p m b new ds2 ds3" "ds_history ds3 = ds_history ds2" "ds_trace ds3 = ds_trace ds2"
            "nodes_frame (ds_nodes ds) (butlast (ds_nodes ds3))"
            "\<forall>sch\<in>set new. \<exists>y. y \<notin> set (dn_done node1) \<and> prefix (xs @ [y]) sch"
          unfolding chooses_def d_def by blast
        have "adds p m b new ds (pop_node ds3)"
          using ds3(2) by (rule adds_cong) (simp_all add: ds2_def)
        moreover have "keeps ds (pop_node ds3)" using ds3(3-5) by (simp add: keeps_def ds2_def)
        moreover have "\<forall>sch\<in>set new. prefix xs sch" using ds3(6) append_prefixD by blast
        moreover have "dpor_dfs (Suc n) p mx b d s sleep_set ds = Inr (pop_node ds3)"
          using ds3(1) room False busy node(2) node1(1)
          by (simp add: Let_def ds2_def node_def set_nodes_def)
        ultimately show ?thesis unfolding d_def by blast
      qed
    qed
  qed
qed

lemma dpor_completes:
  assumes prog: "explorable p b"
  shows "(dfs_need p b xs \<le> n \<longrightarrow> searches p m b xs s (dpor_dfs n p mx b (requires_cycle_detection p))) \<and>
    (choices_need p b xs node \<le> n \<longrightarrow> choosable p m b xs s ns node ds \<longrightarrow>
       chooses p mx b m n xs s ns node ds)"
proof (induction n arbitrary: xs s ns node ds)
  case 0
  have "length xs \<le> length p * b" if "on_path p m b xs s ds" for ds
    using that start_walk_short by (auto simp: on_path_def)
  then show ?case by (fastforce simp: dfs_need_def choices_need_def searches_def)
next
  case (Suc n)
  have "searches p m b xs s (dpor_dfs (Suc n) p mx b (requires_cycle_detection p))"
    if need: "dfs_need p b xs \<le> Suc n"
  proof (cases "length xs \<le> length p * b")
    case True
    then have "(length p * b - length xs) * (width p + 2) + width p + 1 \<le> n"
      using need by (simp add: dfs_need_def Suc_diff_le)
    then show ?thesis
      using Suc.IH by (intro searches_step [OF prog]) (auto simp: choices_need_def)
  next
    case False
    then show ?thesis using start_walk_short by (auto simp: searches_def on_path_def)
  qed
  moreover have "chooses p mx b m (Suc n) xs s ns node ds"
    if need: "choices_need p b xs node \<le> Suc n" and start: "choosable p m b xs s ns node ds"
  proof (rule chooses_step [OF prog start])
    show "searches p m b (xs @ [x]) s' (dpor_dfs n p mx b (requires_cycle_detection p))"
      if "Suc (length xs) \<le> length p * b" for x s'
      using Suc.IH [of "xs @ [x]" s'] need that by (simp add: dfs_need_def choices_need_def)
    show "chooses p mx b m n xs s ns1 node1 ds1"
      if "choosable p m b xs s ns1 node1 ds1" "unfinished_choices node1 < unfinished_choices node"
      for ns1 node1 ds1
      using Suc.IH [of xs s node1 ns1 ds1] need that by (simp add: choices_need_def)
  qed
  ultimately show ?case by blast
qed

section \<open>The whole search\<close>

lemma dpor_search_completes:
  assumes prog: "explorable p b"
  shows "\<exists>ds new. dpor_search_from_start p mx b m collect = Inr ds \<and>
    adds p m b new (initial_search p m collect) ds \<and> keeps (initial_search p m collect) ds"
proof -
  have path: "on_path p m b [] (initial_state p m) (initial_search p m collect)"
    using start_walk_Nil clear_start by (simp add: on_path_def initial_search_def)
  have "dfs_need p b [] \<le> dpor_fuel p b" by (simp add: dfs_need_def dpor_fuel_def)
  then have "searches p m b [] (initial_state p m) (dpor_dfs (dpor_fuel p b) p mx b (requires_cycle_detection p))"
    using dpor_completes [OF prog] by blast
  from searchesD [OF this path, of "[]"] show ?thesis
    by (auto simp: dpor_search_from_start_def) (auto simp: initial_search_def)
qed

text \<open>The shared vectors and the path history are back where the search started.\<close>

lemma dpor_search_clean:
  assumes "explorable p b" "dpor_search_from_start p mx b m collect = Inr ds"
  shows "ds_nodes ds = []" "ds_trace ds = []" "ds_history ds = initial_history p (initial_state p m)"
  using dpor_search_completes [OF assms(1), where mx = mx and m = m and collect = collect] assms(2)
  by (auto simp: keeps_def initial_search_def nodes_frame_def)

lemma dpor_result_ok:
  assumes prog: "explorable p b"
  shows "\<exists>r0. dpor_result p mx b m = Inr r0 \<and> genuine p m b r0 \<and> race_met p m b r0 \<and>
    counts_ok r0 \<and> (exploration_capped r0 \<longleftrightarrow> schedules_explored r0 \<ge> mx)"
proof -
  obtain ds new where ds: "dpor_search_from_start p mx b m False = Inr ds"
      "adds p m b new (initial_search p m False) ds"
    using dpor_search_completes [OF prog] by blast
  define r0 where "r0 = (ds_result ds)\<lparr>exploration_capped := schedules_explored (ds_result ds) \<ge> mx\<rparr>"
  have "dpor_result p mx b m = Inr r0" using ds(1) by (simp add: dpor_result_def r0_def)
  moreover have "genuine p m b (ds_result ds)" "race_met p m b (ds_result ds)" "counts_ok (ds_result ds)"
    using ds(2) by (simp_all add: adds_def result_ok_def)
  then have "genuine p m b r0" "race_met p m b r0" "counts_ok r0"
    by (auto simp: r0_def counts_ok_def elim: genuine_cong race_met_cong)
  ultimately show ?thesis by (simp add: r0_def)
qed

lemma explore_dpor_minimizes:
  assumes prog: "explorable p b"
  shows "\<exists>r0 r. dpor_result p mx b m = Inr r0 \<and> explore_dpor p mx b m = Inr r \<and> same_outcome r r0 \<and>
    genuine p m b r0 \<and> (exploration_capped r0 \<longleftrightarrow> schedules_explored r0 \<ge> mx)"
proof -
  obtain r0 where r0: "dpor_result p mx b m = Inr r0" "genuine p m b r0" "race_met p m b r0"
      "exploration_capped r0 \<longleftrightarrow> schedules_explored r0 \<ge> mx"
    using dpor_result_ok [OF prog] by blast
  obtain r where "minimize_result_reports p r0 b m = Inr r" "same_outcome r r0"
    using minimize_result_made [OF prog r0(2,3)] by blast
  then show ?thesis using r0 by (auto simp: explore_dpor_def)
qed

lemma explore_dpor_reports:
  assumes "explore_dpor p mx b m = Inr r"
  obtains r0 where "dpor_result p mx b m = Inr r0" "minimize_result_reports p r0 b m = Inr r"
  using assms by (auto simp: explore_dpor_def res_simps)

lemma explore_dpor_replays:
  assumes prog: "explorable p b" and r: "explore_dpor p mx b m = Inr r"
  shows "first_race r = Some c \<Longrightarrow>
      \<exists>q. replay_schedule p (r_schedule c) b m = Inr q \<and> first_race q = Some c"
    "first_deadlock r = Some dl \<Longrightarrow>
      \<exists>q. replay_schedule p (dl_schedule dl) b m = Inr q \<and> first_deadlock q = Some dl"
    "first_error r = Some e \<Longrightarrow>
      \<exists>q. replay_schedule p (me_schedule e) b m = Inr q \<and> first_error q = Some e"
    "first_assertion r = Some f \<Longrightarrow>
      \<exists>q. replay_schedule p (af_schedule f) b m = Inr q \<and> first_assertion q = Some f"
    "first_nontermination r = Some n \<Longrightarrow>
      \<exists>q. replay_schedule p (nt_schedule n) b m = Inr q \<and> first_nontermination q = Some n"
proof -
  obtain r0 where r0: "dpor_result p mx b m = Inr r0" "minimize_result_reports p r0 b m = Inr r"
    using explore_dpor_reports [OF r] by blast
  have ok: "genuine p m b r0" "race_met p m b r0" using dpor_result_ok [OF prog, where mx = mx and m = m] r0(1) by auto
  note all = result_replays [OF prog ok r0(2)]
  show "\<exists>q. replay_schedule p (r_schedule c) b m = Inr q \<and> first_race q = Some c" if "first_race r = Some c"
    using all(1) that .
  show "\<exists>q. replay_schedule p (dl_schedule dl) b m = Inr q \<and> first_deadlock q = Some dl" if "first_deadlock r = Some dl"
    using all(2) that .
  show "\<exists>q. replay_schedule p (me_schedule e) b m = Inr q \<and> first_error q = Some e" if "first_error r = Some e"
    using all(3) that .
  show "\<exists>q. replay_schedule p (af_schedule f) b m = Inr q \<and> first_assertion q = Some f" if "first_assertion r = Some f"
    using all(4) that .
  show "\<exists>q. replay_schedule p (nt_schedule n) b m = Inr q \<and> first_nontermination q = Some n" if "first_nontermination r = Some n"
    using all(5) that .
qed

text \<open>The collected schedules are complete executions, counted once each.\<close>

lemma collect_dpor_completes:
  assumes prog: "explorable p b"
  shows "\<exists>ss. collect_dpor_schedules p mx b m = Inr ss \<and> distinct ss \<and>
    (\<forall>sch\<in>set ss. complete_schedule p m b sch)"
proof -
  obtain ds new where ds: "dpor_search_from_start p mx b m True = Inr ds"
      "adds p m b new (initial_search p m True) ds"
    using dpor_search_completes [OF prog] by blast
  then have "ds_schedules ds = Some new" "length new = schedules_explored (ds_result ds)"
      "distinct new" "\<forall>sch\<in>set new. complete_schedule p m b sch"
    by (simp_all add: adds_def initial_search_def empty_result_def)
  then show ?thesis using ds(1) by (simp add: collect_dpor_schedules_def)
qed

text \<open>The count of an exploration is a number of distinct executions.\<close>

lemma dpor_counts_executions:
  assumes prog: "explorable p b" and r: "dpor_result p mx b m = Inr r"
  shows "\<exists>ss. distinct ss \<and> (\<forall>sch\<in>set ss. complete_schedule p m b sch) \<and>
    length ss = schedules_explored r"
proof -
  obtain ds new where ds: "dpor_search_from_start p mx b m False = Inr ds"
      "adds p m b new (initial_search p m False) ds"
    using dpor_search_completes [OF prog] by blast
  then have "schedules_explored r = length new"
    using r by (auto simp: dpor_result_def adds_def initial_search_def empty_result_def)
  then show ?thesis using ds(2) by (auto simp: adds_def)
qed

end
