(* ===== verification/Inspection.thy ===== *)
theory Inspection
  imports Explore_Naive
begin

text \<open>
  Observations of a replay (src/src/model/checker.cpp, \<open>replay_effective_trace\<close>,
  \<open>dense_clock\<close>, \<open>observed_buffer\<close>, \<open>observed_memory_value\<close> and \<open>inspect_replay_schedule\<close>).
  Both functions replay a schedule and record what each step does; the theorems show that they
  accept exactly the schedules \<open>replay_schedule\<close> accepts, that the two records agree, and that
  the recorded effects lead from the state before a step to the state after it.
\<close>

section \<open>Effective traces\<close>

record effective_step =
  es_endpoint :: schedule_step
  es_action :: action
  es_waking_set :: "nat list option"
  es_timed_wait :: "timed_wait_occurrence option"

definition effective_step_for :: "program \<Rightarrow> exec_state \<Rightarrow> schedule_step \<Rightarrow> effective_step" where
  "effective_step_for p s step =
     (let a = effective_action_for_step p s step in
      \<lparr>es_endpoint = step, es_action = a, es_waking_set = broadcast_waking_set_for s a,
       es_timed_wait = timed_wait_occurrence_for s step a\<rparr>)"

text \<open>The trace a loop returns: \<open>push_back\<close> before the rest of the loop.\<close>

definition cons_res :: "'a \<Rightarrow> 'a list res \<Rightarrow> 'a list res" where
  "cons_res x r = res_bind r (\<lambda>xs. Inr (x # xs))"

text \<open>A schedule may not go on after the step that ends its execution.\<close>

definition end_of_schedule :: "schedule \<Rightarrow> nat \<Rightarrow> string \<Rightarrow> 'a res \<Rightarrow> 'a res" where
  "end_of_schedule rest i reason r =
     (if rest \<noteq> [] then Inl (invalid_schedule (Suc i) reason) else r)"

fun effective_loop ::
  "program \<Rightarrow> nat \<Rightarrow> bool \<Rightarrow> nat \<Rightarrow> schedule \<Rightarrow> exec_state \<Rightarrow> state_history \<Rightarrow>
   effective_step list res" where
  "effective_loop p step_bound detect i [] s history = Inr []"
| "effective_loop p step_bound detect i (x # xs) s history =
     res_bind (validate_replay_step p s x i) (\<lambda>_.
     if step_bound_reached s (s_thread x) step_bound then
       end_of_schedule xs i ''schedule continues after a step-bound outcome'' (Inr [])
     else
       res_bind (execute_enabled_step p s x) (\<lambda>(s', r).
       let step = effective_step_for p s x in
       if step_terminal r then
         end_of_schedule xs i ''schedule continues after a terminal execution report'' (Inr [step])
       else
         res_bind (observe detect s' history) (\<lambda>(cycle, history').
         case cycle of
           Some _ \<Rightarrow>
             end_of_schedule xs i ''schedule continues after a nontermination cycle'' (Inr [step])
         | None \<Rightarrow> cons_res step (effective_loop p step_bound detect (Suc i) xs s' history'))))"

definition replay_effective_trace ::
  "program \<Rightarrow> schedule \<Rightarrow> nat \<Rightarrow> memory_model \<Rightarrow> effective_step list res" where
  "replay_effective_trace p sch step_bound m =
     (let s = initial_state p m in
      effective_loop p step_bound (requires_cycle_detection p) 0 sch s (initial_history p s))"

section \<open>Inspection\<close>

definition dense_clock :: "vclock \<Rightarrow> nat \<Rightarrow> nat list" where
  "dense_clock clock thread_count = map (vc_get clock) [0..<thread_count]"

definition observed_buffer :: "exec_state \<Rightarrow> nat \<Rightarrow> store_buffer_entry list" where
  "observed_buffer s tid =
     (case st_model s of
        TSO \<Rightarrow> st_store_buffers s ! tid
      | PSO \<Rightarrow> concat (map (\<lambda>(address, values). map (Pair address) values)
                        (mentries (st_pso_buffers s ! tid)))
      | SC \<Rightarrow> [])"

definition observed_memory_value :: "exec_state \<Rightarrow> string \<Rightarrow> val option" where
  "observed_memory_value s address =
     (case mlookup (st_values s) address of None \<Rightarrow> Some 0 | Some v \<Rightarrow> Some v)"

record register_effect =
  re_thread :: nat
  re_reg :: nat
  re_before :: val
  re_after :: val

record memory_effect =
  mf_address :: string
  mf_before :: "val option"
  mf_after :: "val option"

record buffer_effect =
  bf_thread :: nat
  bf_before :: "store_buffer_entry list"
  bf_after :: "store_buffer_entry list"

record inspected_step =
  is_endpoint :: schedule_step
  is_action :: action
  is_executed :: bool
  is_enabled_before :: "schedule_step list"
  is_clock_before :: "nat list"
  is_clock_after :: "nat list"
  is_registers :: "register_effect list"
  is_memory :: "memory_effect list"
  is_buffers :: "buffer_effect list"
  is_waking_set :: "nat list option"
  is_timed_wait :: "timed_wait_occurrence option"

definition inspected_before :: "program \<Rightarrow> exec_state \<Rightarrow> schedule_step \<Rightarrow> inspected_step" where
  "inspected_before p s step =
     (let a = effective_action_for_step p s step in
      \<lparr>is_endpoint = step, is_action = a, is_executed = True,
       is_enabled_before = enabled_steps p s,
       is_clock_before = dense_clock (st_clock s ! s_thread step) (length p),
       is_clock_after = [], is_registers = [], is_memory = [], is_buffers = [],
       is_waking_set = broadcast_waking_set_for s a,
       is_timed_wait = timed_wait_occurrence_for s step a\<rparr>)"

text \<open>The step that is cut by the step bound.\<close>

definition inspected_bounded :: "program \<Rightarrow> exec_state \<Rightarrow> schedule_step \<Rightarrow> inspected_step" where
  "inspected_bounded p s step =
     (let i = inspected_before p s step in
      i\<lparr>is_executed := False, is_clock_after := is_clock_before i\<rparr>)"

text \<open>What the step changed: the cells of the three loops that differ.\<close>

definition register_effects :: "program \<Rightarrow> exec_state \<Rightarrow> exec_state \<Rightarrow> register_effect list" where
  "register_effects p s s' =
     concat (map (\<lambda>tid.
       map (\<lambda>reg. \<lparr>re_thread = tid, re_reg = reg, re_before = st_registers s ! tid ! reg,
                   re_after = st_registers s' ! tid ! reg\<rparr>)
         (filter (\<lambda>reg. st_registers s ! tid ! reg \<noteq> st_registers s' ! tid ! reg)
           [0..<kRegisterCount])) [0..<length p])"

definition buffer_effects :: "program \<Rightarrow> exec_state \<Rightarrow> exec_state \<Rightarrow> buffer_effect list" where
  "buffer_effects p s s' =
     map (\<lambda>tid. \<lparr>bf_thread = tid, bf_before = observed_buffer s tid,
                 bf_after = observed_buffer s' tid\<rparr>)
       (filter (\<lambda>tid. observed_buffer s tid \<noteq> observed_buffer s' tid) [0..<length p])"

definition memory_effects :: "program \<Rightarrow> exec_state \<Rightarrow> exec_state \<Rightarrow> memory_effect list" where
  "memory_effects p s s' =
     map (\<lambda>address. \<lparr>mf_address = address, mf_before = observed_memory_value s address,
                     mf_after = observed_memory_value s' address\<rparr>)
       (filter (\<lambda>address. observed_memory_value s address \<noteq> observed_memory_value s' address)
         (program_addresses p))"

definition inspected_executed ::
  "program \<Rightarrow> exec_state \<Rightarrow> schedule_step \<Rightarrow> exec_state \<Rightarrow> inspected_step" where
  "inspected_executed p s step s' =
     (inspected_before p s step)
       \<lparr>is_clock_after := dense_clock (st_clock s' ! s_thread step) (length p),
        is_registers := register_effects p s s', is_buffers := buffer_effects p s s',
        is_memory := memory_effects p s s'\<rparr>"

fun inspect_loop ::
  "program \<Rightarrow> nat \<Rightarrow> bool \<Rightarrow> nat \<Rightarrow> schedule \<Rightarrow> exec_state \<Rightarrow> state_history \<Rightarrow>
   inspected_step list res" where
  "inspect_loop p step_bound detect i [] s history = Inr []"
| "inspect_loop p step_bound detect i (x # xs) s history =
     res_bind (validate_replay_step p s x i) (\<lambda>_.
     if step_bound_reached s (s_thread x) step_bound then
       end_of_schedule xs i ''schedule continues after a step-bound outcome''
         (Inr [inspected_bounded p s x])
     else
       res_bind (execute_enabled_step p s x) (\<lambda>(s', r).
       let step = inspected_executed p s x s' in
       if step_terminal r then
         end_of_schedule xs i ''schedule continues after a terminal execution report'' (Inr [step])
       else
         res_bind (observe detect s' history) (\<lambda>(cycle, history').
         case cycle of
           Some _ \<Rightarrow>
             end_of_schedule xs i ''schedule continues after a nontermination cycle'' (Inr [step])
         | None \<Rightarrow> cons_res step (inspect_loop p step_bound detect (Suc i) xs s' history'))))"

definition inspect_replay_schedule ::
  "program \<Rightarrow> schedule \<Rightarrow> nat \<Rightarrow> memory_model \<Rightarrow> inspected_step list res" where
  "inspect_replay_schedule p sch step_bound m =
     (let s = initial_state p m in
      inspect_loop p step_bound (requires_cycle_detection p) 0 sch s (initial_history p s))"

section \<open>One replay, three records\<close>

text \<open>The verdict of a computation: its exception, or none.\<close>

definition verdict :: "'a res \<Rightarrow> exn option" where
  "verdict r = (case r of Inl e \<Rightarrow> Some e | Inr _ \<Rightarrow> None)"

lemma verdict_simps [simp]:
  "verdict (Inl e) = Some e" "verdict (Inr x) = None"
  "verdict (cons_res x r) = verdict r"
  "verdict (end_of_schedule rest i reason (Inr y)) =
     (if rest = [] then None else Some (invalid_schedule (Suc i) reason))"
  by (simp_all add: verdict_def cons_res_def end_of_schedule_def res_bind_def split: sum.split)

lemma inspect_loop_verdict:
  "verdict (inspect_loop p b d i xs s h) = verdict (effective_loop p b d i xs s h)"
proof (induction xs arbitrary: i s h)
  case (Cons x xs)
  show ?case
  proof (cases "validate_replay_step p s x i")
    case valid: (Inr u)
    show ?thesis
    proof (cases "step_bound_reached s (s_thread x) b")
      case False
      show ?thesis
      proof (cases "execute_enabled_step p s x")
        case (Inr sr)
        obtain s' r where sr: "sr = (s', r)" by (cases sr)
        show ?thesis
        proof (cases "step_terminal r")
          case going: False
          show ?thesis
          proof (cases "observe d s' h")
            case (Inr ch)
            then show ?thesis
              using valid False \<open>execute_enabled_step p s x = Inr sr\<close> sr going Cons.IH
              by (cases ch; cases "fst ch") simp_all
          qed (use valid False Inr sr going in simp)
        qed (use valid False Inr sr in \<open>simp add: Let_def\<close>)
      qed (use valid False in simp)
    qed (use valid in simp)
  qed simp
qed simp

lemma effective_loop_verdict:
  assumes prog: "explorable p b"
  shows "start_walk p m b xs s h \<Longrightarrow> counts_ok r \<Longrightarrow>
    verdict (effective_loop p b (requires_cycle_detection p) i ys s h) =
    verdict (replay_loop p b (requires_cycle_detection p) i ys s h r)"
proof (induction ys arbitrary: xs s h r i)
  case Nil
  show ?case using replay_end [OF prog Nil.prems(1)] by (metis effective_loop.simps(1) verdict_simps(2))
next
  case (Cons x ys)
  show ?case
  proof (cases "validate_replay_step p s x i")
    case (Inr u)
    then have x: "x \<in> set (enabled_steps p s)" by (rule validate_only_enabled)
    show ?thesis
    proof (cases "step_bound_reached s (s_thread x) b")
      case False
      have "completes (execute_enabled_step p s x)"
        using room_for_walk [OF prog Cons.prems(1)] x unfolding room_for_def
        by (intro execute_enabled_step_completes) auto
      then obtain s' q where ex: "execute_enabled_step p s x = Inr (s', q)"
        by (auto simp: completes_def)
      have counts: "counts_ok (record_step_report q r)" using Cons.prems(2) by simp
      obtain c h' where ob: "observe (requires_cycle_detection p) s' h = Inr (c, h')"
        using observe_walk [OF Cons.prems(1) ex] by blast
      show ?thesis
      proof (cases "step_terminal q")
        case nt: False
        show ?thesis
        proof (cases c)
          case None
          have "start_walk p m b (xs @ [x]) s' h'"
            using start_walk_snoc [OF Cons.prems(1) x False ex nt] ob None by simp
          then show ?thesis
            using Cons.IH [of "xs @ [x]" s' h' "record_step_report q r" "Suc i"] counts Inr False ex nt
              ob None by (simp add: observe_def [symmetric])
        next
          case (Some k)
          obtain n where "make_nontermination_report p (st_schedule s') k (st_model s') = Inr n"
            using observed_cycle_report [OF prog Cons.prems(1) x ex nt] ob Some by auto
          moreover obtain r2 where "record_nontermination n (record_step_report q r) = Inr r2"
            using record_nontermination_made [OF counts] by blast
          ultimately show ?thesis
            using Inr False ex nt ob Some by (simp add: observe_def [symmetric])
        qed
      qed (use Inr False ex in \<open>simp add: Let_def\<close>)
    qed (use Inr in simp)
  qed simp
qed

lemma replay_verdicts:
  assumes "explorable p b"
  shows "verdict (replay_effective_trace p sch b m) = verdict (replay_schedule p sch b m)"
    "verdict (inspect_replay_schedule p sch b m) = verdict (replay_schedule p sch b m)"
  using effective_loop_verdict [OF assms start_walk_Nil counts_ok_record(1), of 0 sch]
  by (simp_all add: replay_effective_trace_def inspect_replay_schedule_def replay_schedule_def
      Let_def inspect_loop_verdict)

text \<open>The effective trace is the inspection of the executed steps.\<close>

definition effective_part :: "inspected_step list \<Rightarrow> effective_step list" where
  "effective_part steps =
     map (\<lambda>i. \<lparr>es_endpoint = is_endpoint i, es_action = is_action i,
               es_waking_set = is_waking_set i, es_timed_wait = is_timed_wait i\<rparr>)
       (filter is_executed steps)"

lemma effective_part_Cons [simp]:
  "effective_part [] = []" "effective_part [inspected_bounded p s x] = []"
  "effective_part (inspected_executed p s x s' # steps) =
     effective_step_for p s x # effective_part steps"
  by (simp_all add: effective_part_def inspected_bounded_def inspected_executed_def
      inspected_before_def effective_step_for_def Let_def)

lemma effective_part_loop:
  "inspect_loop p b d i xs s h = Inr steps \<Longrightarrow>
   effective_loop p b d i xs s h = Inr (effective_part steps)"
proof (induction xs arbitrary: i s h steps)
  case (Cons x xs)
  then obtain u where valid: "validate_replay_step p s x i = Inr u" by (auto simp: res_simps)
  show ?case
  proof (cases "step_bound_reached s (s_thread x) b")
    case True
    then show ?thesis using Cons.prems valid by (auto simp: end_of_schedule_def split: if_splits)
  next
    case False
    then obtain s' r where ex: "execute_enabled_step p s x = Inr (s', r)"
      using Cons.prems valid by (auto simp: res_simps)
    show ?thesis
    proof (cases "step_terminal r")
      case True
      then show ?thesis
        using Cons.prems valid False ex by (auto simp: Let_def end_of_schedule_def split: if_splits)
    next
      case going: False
      then obtain c h' where ob: "observe d s' h = Inr (c, h')"
        using Cons.prems valid False ex by (auto simp: Let_def res_simps)
      show ?thesis
      proof (cases c)
        case None
        then obtain rest where "inspect_loop p b d (Suc i) xs s' h' = Inr rest"
            "steps = inspected_executed p s x s' # rest"
          using Cons.prems valid False ex going ob by (auto simp: Let_def cons_res_def res_simps)
        then show ?thesis
          using Cons.IH valid False ex going ob None by (simp add: cons_res_def)
      next
        case (Some k)
        then show ?thesis
          using Cons.prems valid False ex going ob
          by (auto simp: Let_def end_of_schedule_def split: if_splits)
      qed
    qed
  qed
qed simp

section \<open>The effects rebuild the state\<close>

record machine_view =
  vw_registers :: "nat \<Rightarrow> nat \<Rightarrow> val"
  vw_memory :: "string \<Rightarrow> val option"
  vw_buffers :: "nat \<Rightarrow> store_buffer_entry list"

definition view_of :: "exec_state \<Rightarrow> machine_view" where
  "view_of s =
     \<lparr>vw_registers = (\<lambda>t r. st_registers s ! t ! r), vw_memory = observed_memory_value s,
      vw_buffers = observed_buffer s\<rparr>"

definition apply_effects :: "inspected_step \<Rightarrow> machine_view \<Rightarrow> machine_view" where
  "apply_effects i v =
     \<lparr>vw_registers = (\<lambda>t r.
        case find (\<lambda>e. re_thread e = t \<and> re_reg e = r) (is_registers i) of
          None \<Rightarrow> vw_registers v t r | Some e \<Rightarrow> re_after e),
      vw_memory = (\<lambda>a. case find (\<lambda>e. mf_address e = a) (is_memory i) of
          None \<Rightarrow> vw_memory v a | Some e \<Rightarrow> mf_after e),
      vw_buffers = (\<lambda>t. case find (\<lambda>e. bf_thread e = t) (is_buffers i) of
          None \<Rightarrow> vw_buffers v t | Some e \<Rightarrow> bf_after e)\<rparr>"

text \<open>Two views agree on the registers, cells and buffers of the program.\<close>

definition same_view :: "program \<Rightarrow> machine_view \<Rightarrow> machine_view \<Rightarrow> bool" where
  "same_view p v w \<longleftrightarrow>
     (\<forall>t<length p. vw_buffers v t = vw_buffers w t \<and>
        (\<forall>r<kRegisterCount. vw_registers v t r = vw_registers w t r)) \<and>
     (\<forall>a\<in>set (program_addresses p). vw_memory v a = vw_memory w a)"

lemma find_outcome:
  "(find P xs = None \<and> (\<forall>x\<in>set xs. \<not> P x)) \<or> (\<exists>x\<in>set xs. P x \<and> find P xs = Some x)"
  by (induction xs) auto

lemma apply_effects_executed:
  assumes "same_view p v (view_of s)"
  shows "same_view p (apply_effects (inspected_executed p s x s') v) (view_of s')"
proof -
  define i where "i = inspected_executed p s x s'"
  have parts: "is_registers i = register_effects p s s'" "is_memory i = memory_effects p s s'"
      "is_buffers i = buffer_effects p s s'"
    by (simp_all add: i_def inspected_executed_def)
  have "vw_registers (apply_effects i v) t r = st_registers s' ! t ! r"
    if "t < length p" "r < kRegisterCount" for t r
    using find_outcome [of "\<lambda>e. re_thread e = t \<and> re_reg e = r" "is_registers i"] that assms
    unfolding parts by (auto simp: apply_effects_def parts register_effects_def same_view_def view_of_def)
  moreover have "vw_memory (apply_effects i v) a = observed_memory_value s' a"
    if "a \<in> set (program_addresses p)" for a
    using find_outcome [of "\<lambda>e. mf_address e = a" "is_memory i"] that assms
    unfolding parts by (auto simp: apply_effects_def parts memory_effects_def same_view_def view_of_def)
  moreover have "vw_buffers (apply_effects i v) t = observed_buffer s' t" if "t < length p" for t
    using find_outcome [of "\<lambda>e. bf_thread e = t" "is_buffers i"] that assms
    unfolding parts by (auto simp: apply_effects_def parts buffer_effects_def same_view_def view_of_def)
  ultimately show ?thesis by (simp add: same_view_def view_of_def i_def)
qed

lemma effects_rebuild:
  "inspect_loop p b d i xs s h = Inr steps \<Longrightarrow> run p xs s = Some s' \<Longrightarrow>
   list_all is_executed steps \<Longrightarrow> same_view p v (view_of s) \<Longrightarrow>
   same_view p (fold apply_effects steps v) (view_of s')"
proof (induction xs arbitrary: i s h steps v)
  case (Cons x xs)
  obtain s1 r where ex: "execute_enabled_step p s x = Inr (s1, r)" "\<not> step_terminal r"
      and rest: "run p xs s1 = Some s'"
    using Cons.prems(2) by (auto split: sum.splits if_splits)
  obtain u where valid: "validate_replay_step p s x i = Inr u"
    using Cons.prems(1) by (auto simp: res_simps)
  have below: "\<not> step_bound_reached s (s_thread x) b"
  proof
    assume "step_bound_reached s (s_thread x) b"
    then have "steps = [inspected_bounded p s x]"
      using Cons.prems(1) valid by (simp add: end_of_schedule_def split: if_splits)
    then show False using Cons.prems(3) by (simp add: inspected_bounded_def Let_def)
  qed
  then obtain c h1 where ob: "observe d s1 h = Inr (c, h1)"
    using Cons.prems(1) valid ex by (auto simp: Let_def res_simps)
  define i1 where "i1 = inspected_executed p s x s1"
  have view: "same_view p (apply_effects i1 v) (view_of s1)"
    unfolding i1_def using apply_effects_executed [OF Cons.prems(4)] .
  show ?case
  proof (cases c)
    case None
    then obtain rest' where "inspect_loop p b d (Suc i) xs s1 h1 = Inr rest'" "steps = i1 # rest'"
      using Cons.prems(1) valid below ex ob by (auto simp: Let_def cons_res_def res_simps i1_def)
    then show ?thesis using Cons.IH [OF _ rest _ view] Cons.prems(3) by simp
  next
    case (Some k)
    then have "xs = []" "steps = [i1]"
      using Cons.prems(1) valid below ex ob
      by (auto simp: Let_def end_of_schedule_def i1_def split: if_splits)
    then show ?thesis using view rest by simp
  qed
qed simp

end
