(* ===== verification/Model_Checker.thy ===== *)
theory Model_Checker
  imports Dpor_Correct Inspection
begin

text \<open>
  The class \<open>ModelChecker\<close> (src/include/model/checker.hpp and the end of
  src/src/model/checker.cpp): the checks of its constructor and its methods. The constructor
  keeps the five kinds of names apart; \<open>std::set\<close> orders the names, so the name an exception
  mentions is the least one that clashes.
\<close>

section \<open>Names\<close>

record used_names =
  un_mutexes :: "string oset"
  un_rwlocks :: "string oset"
  un_semaphores :: "string oset"
  un_conditions :: "string oset"
  un_barriers :: "string oset"

definition no_names :: used_names where
  "no_names = \<lparr>un_mutexes = mempty, un_rwlocks = mempty, un_semaphores = mempty,
     un_conditions = mempty, un_barriers = mempty\<rparr>"

definition collect_names :: "action \<Rightarrow> used_names \<Rightarrow> used_names" where
  "collect_names a n =
     (if a_kind a \<in> {Lock, TryLock, Unlock} then n\<lparr>un_mutexes := oinsert (a_mutex a) (un_mutexes n)\<rparr>
      else if a_kind a \<in> {Wait, TimedWait} then
        n\<lparr>un_mutexes := oinsert (a_mutex a) (un_mutexes n),
          un_conditions := oinsert (a_condition a) (un_conditions n)\<rparr>
      else if a_kind a \<in> {Signal, Broadcast} then
        n\<lparr>un_conditions := oinsert (a_condition a) (un_conditions n)\<rparr>
      else if a_kind a \<in> {RLock, RUnlock, WLock, WUnlock, Upgrade, Downgrade} then
        n\<lparr>un_rwlocks := oinsert (a_rwlock a) (un_rwlocks n)\<rparr>
      else if a_kind a \<in> {SemPost, SemWait} then
        n\<lparr>un_semaphores := oinsert (a_semaphore a) (un_semaphores n)\<rparr>
      else if a_kind a = BarrierWait then
        n\<lparr>un_barriers := oinsert (a_barrier a) (un_barriers n)\<rparr>
      else n)"

definition names_of :: "program \<Rightarrow> used_names" where
  "names_of p = fold collect_names (concat p) no_names"

definition name_clash :: "string \<Rightarrow> string \<Rightarrow> exn" where
  "name_clash name kinds =
     Invalid_Argument (''name '' @ [CHR 0x27] @ name @ [CHR 0x27] @
       '' cannot be used as both '' @ kinds)"

text \<open>A loop over a set of names that throws at the first name in another set.\<close>

fun check_each :: "(string \<Rightarrow> exn option) \<Rightarrow> string list \<Rightarrow> unit res" where
  "check_each f [] = Inr ()"
| "check_each f (x # xs) = (case f x of Some e \<Rightarrow> Inl e | None \<Rightarrow> check_each f xs)"

definition mutex_clash :: "used_names \<Rightarrow> string \<Rightarrow> exn option" where
  "mutex_clash n name =
     (if omember name (un_rwlocks n) then Some (name_clash name ''a mutex and rwlock'') else None)"

definition semaphore_clash :: "used_names \<Rightarrow> string \<Rightarrow> exn option" where
  "semaphore_clash n name =
     (if omember name (un_mutexes n) then Some (name_clash name ''a mutex and semaphore'')
      else if omember name (un_rwlocks n) then Some (name_clash name ''an rwlock and semaphore'')
      else None)"

definition barrier_clash :: "used_names \<Rightarrow> string \<Rightarrow> exn option" where
  "barrier_clash n name =
     (if omember name (un_mutexes n) then Some (name_clash name ''a barrier and mutex'')
      else if omember name (un_rwlocks n) then Some (name_clash name ''a barrier and rwlock'')
      else if omember name (un_semaphores n) then Some (name_clash name ''a barrier and semaphore'')
      else if omember name (un_conditions n)
      then Some (name_clash name ''a barrier and condition variable'')
      else None)"

section \<open>The class\<close>

record model_checker =
  mc_program :: program
  mc_step_bound :: nat
  mc_memory_model :: memory_model

definition kDefaultStepBound :: nat where
  "kDefaultStepBound = 2000"

definition make_model_checker :: "program \<Rightarrow> nat \<Rightarrow> memory_model \<Rightarrow> model_checker res" where
  "make_model_checker p step_bound m =
     (if step_bound = 0 then Inl (Invalid_Argument ''step bound must be greater than zero'')
      else
        let n = names_of p in
        res_bind (check_each (mutex_clash n) (mkeys (un_mutexes n))) (\<lambda>_.
        res_bind (check_each (semaphore_clash n) (mkeys (un_semaphores n))) (\<lambda>_.
        res_bind (check_each (barrier_clash n) (mkeys (un_barriers n))) (\<lambda>_.
          Inr \<lparr>mc_program = p, mc_step_bound = step_bound, mc_memory_model = m\<rparr>))))"

definition mc_explore_naive :: "model_checker \<Rightarrow> nat \<Rightarrow> check_result res" where
  "mc_explore_naive mc mx = explore_naive (mc_program mc) mx (mc_step_bound mc) (mc_memory_model mc)"

definition mc_explore_dpor :: "model_checker \<Rightarrow> nat \<Rightarrow> check_result res" where
  "mc_explore_dpor mc mx = explore_dpor (mc_program mc) mx (mc_step_bound mc) (mc_memory_model mc)"

definition mc_replay :: "model_checker \<Rightarrow> schedule \<Rightarrow> check_result res" where
  "mc_replay mc sch = replay_schedule (mc_program mc) sch (mc_step_bound mc) (mc_memory_model mc)"

definition mc_replay_effective_trace :: "model_checker \<Rightarrow> schedule \<Rightarrow> effective_step list res" where
  "mc_replay_effective_trace mc sch =
     replay_effective_trace (mc_program mc) sch (mc_step_bound mc) (mc_memory_model mc)"

definition mc_inspect_schedule :: "model_checker \<Rightarrow> schedule \<Rightarrow> inspected_step list res" where
  "mc_inspect_schedule mc sch =
     inspect_replay_schedule (mc_program mc) sch (mc_step_bound mc) (mc_memory_model mc)"

definition dpor_transitions_independent ::
  "model_checker \<Rightarrow> nat \<Rightarrow> action \<Rightarrow> nat \<Rightarrow> action \<Rightarrow> bool" where
  "dpor_transitions_independent mc t a u b =
     transitions_independent (mc_program mc) (mc_memory_model mc) t a u b"

definition mc_minimize_schedule :: "model_checker \<Rightarrow> schedule \<Rightarrow> schedule res" where
  "mc_minimize_schedule mc sch =
     minimize_schedule (mc_program mc) sch (mc_step_bound mc) (mc_memory_model mc)"

section \<open>What the constructor accepts\<close>

lemma check_each_accepts: "check_each f xs = Inr () \<longleftrightarrow> (\<forall>x\<in>set xs. f x = None)"
  by (induction xs) (auto split: option.split)

lemma check_each_rejects:
  "check_each f xs = Inl e \<Longrightarrow> \<exists>x\<in>set xs. f x = Some e"
  by (induction xs) (auto split: option.splits)

text \<open>The names a program uses as each kind of object.\<close>

definition mutexes_in :: "program \<Rightarrow> string set" where
  "mutexes_in p = a_mutex ` {a \<in> set (concat p). a_kind a \<in> {Lock, TryLock, Unlock, Wait, TimedWait}}"

definition rwlocks_in :: "program \<Rightarrow> string set" where
  "rwlocks_in p = a_rwlock ` {a \<in> set (concat p).
     a_kind a \<in> {RLock, RUnlock, WLock, WUnlock, Upgrade, Downgrade}}"

definition semaphores_in :: "program \<Rightarrow> string set" where
  "semaphores_in p = a_semaphore ` {a \<in> set (concat p). a_kind a \<in> {SemPost, SemWait}}"

definition conditions_in :: "program \<Rightarrow> string set" where
  "conditions_in p = a_condition ` {a \<in> set (concat p).
     a_kind a \<in> {Wait, TimedWait, Signal, Broadcast}}"

definition barriers_in :: "program \<Rightarrow> string set" where
  "barriers_in p = a_barrier ` {a \<in> set (concat p). a_kind a = BarrierWait}"

lemma collect_names_member:
  "omember x (un_mutexes (collect_names a n)) \<longleftrightarrow> omember x (un_mutexes n) \<or>
     (a_kind a \<in> {Lock, TryLock, Unlock, Wait, TimedWait} \<and> x = a_mutex a)"
  "omember x (un_rwlocks (collect_names a n)) \<longleftrightarrow> omember x (un_rwlocks n) \<or>
     (a_kind a \<in> {RLock, RUnlock, WLock, WUnlock, Upgrade, Downgrade} \<and> x = a_rwlock a)"
  "omember x (un_semaphores (collect_names a n)) \<longleftrightarrow> omember x (un_semaphores n) \<or>
     (a_kind a \<in> {SemPost, SemWait} \<and> x = a_semaphore a)"
  "omember x (un_conditions (collect_names a n)) \<longleftrightarrow> omember x (un_conditions n) \<or>
     (a_kind a \<in> {Wait, TimedWait, Signal, Broadcast} \<and> x = a_condition a)"
  "omember x (un_barriers (collect_names a n)) \<longleftrightarrow> omember x (un_barriers n) \<or>
     (a_kind a = BarrierWait \<and> x = a_barrier a)"
  by (cases "a_kind a"; simp add: collect_names_def; blast?)+

lemma names_of_fold:
  "omember x (un_mutexes (fold collect_names as n)) \<longleftrightarrow> omember x (un_mutexes n) \<or>
     (\<exists>a\<in>set as. a_kind a \<in> {Lock, TryLock, Unlock, Wait, TimedWait} \<and> x = a_mutex a)"
  "omember x (un_rwlocks (fold collect_names as n)) \<longleftrightarrow> omember x (un_rwlocks n) \<or>
     (\<exists>a\<in>set as. a_kind a \<in> {RLock, RUnlock, WLock, WUnlock, Upgrade, Downgrade} \<and> x = a_rwlock a)"
  "omember x (un_semaphores (fold collect_names as n)) \<longleftrightarrow> omember x (un_semaphores n) \<or>
     (\<exists>a\<in>set as. a_kind a \<in> {SemPost, SemWait} \<and> x = a_semaphore a)"
  "omember x (un_conditions (fold collect_names as n)) \<longleftrightarrow> omember x (un_conditions n) \<or>
     (\<exists>a\<in>set as. a_kind a \<in> {Wait, TimedWait, Signal, Broadcast} \<and> x = a_condition a)"
  "omember x (un_barriers (fold collect_names as n)) \<longleftrightarrow> omember x (un_barriers n) \<or>
     (\<exists>a\<in>set as. a_kind a = BarrierWait \<and> x = a_barrier a)"
  by (induction as arbitrary: n) (simp_all only: fold_simps list.set collect_names_member
      bex_simps ball_simps insert_iff empty_iff simp_thms disj_assoc)

lemma names_of_sets:
  "set (mkeys (un_mutexes (names_of p))) = mutexes_in p"
  "set (mkeys (un_rwlocks (names_of p))) = rwlocks_in p"
  "set (mkeys (un_semaphores (names_of p))) = semaphores_in p"
  "set (mkeys (un_conditions (names_of p))) = conditions_in p"
  "set (mkeys (un_barriers (names_of p))) = barriers_in p"
  unfolding names_of_def mutexes_in_def rwlocks_in_def semaphores_in_def conditions_in_def barriers_in_def
  by (auto simp: names_of_fold no_names_def simp del: set_concat)

lemma omember_names:
  "omember x (un_mutexes (names_of p)) \<longleftrightarrow> x \<in> mutexes_in p"
  "omember x (un_rwlocks (names_of p)) \<longleftrightarrow> x \<in> rwlocks_in p"
  "omember x (un_semaphores (names_of p)) \<longleftrightarrow> x \<in> semaphores_in p"
  "omember x (un_conditions (names_of p)) \<longleftrightarrow> x \<in> conditions_in p"
  "omember x (un_barriers (names_of p)) \<longleftrightarrow> x \<in> barriers_in p"
  by (simp_all only: names_of_sets [symmetric] set_oelems)

text \<open>Only a mutex and a condition variable, and a semaphore or rwlock and one, may share a name.\<close>

definition names_apart :: "program \<Rightarrow> bool" where
  "names_apart p \<longleftrightarrow>
     mutexes_in p \<inter> rwlocks_in p = {} \<and> semaphores_in p \<inter> (mutexes_in p \<union> rwlocks_in p) = {} \<and>
     barriers_in p \<inter> (mutexes_in p \<union> rwlocks_in p \<union> semaphores_in p \<union> conditions_in p) = {}"

lemma constructor_accepts:
  "make_model_checker p b m = Inr mc \<longleftrightarrow>
     0 < b \<and> names_apart p \<and> mc = \<lparr>mc_program = p, mc_step_bound = b, mc_memory_model = m\<rparr>"
proof -
  have each: "check_each (mutex_clash (names_of p)) (mkeys (un_mutexes (names_of p))) = Inr () \<longleftrightarrow>
      mutexes_in p \<inter> rwlocks_in p = {}"
    "check_each (semaphore_clash (names_of p)) (mkeys (un_semaphores (names_of p))) = Inr () \<longleftrightarrow>
      semaphores_in p \<inter> (mutexes_in p \<union> rwlocks_in p) = {}"
    "check_each (barrier_clash (names_of p)) (mkeys (un_barriers (names_of p))) = Inr () \<longleftrightarrow>
      barriers_in p \<inter> (mutexes_in p \<union> rwlocks_in p \<union> semaphores_in p \<union> conditions_in p) = {}"
    unfolding check_each_accepts names_of_sets mutex_clash_def semaphore_clash_def barrier_clash_def
      omember_names by (auto split: if_splits)
  have unit: "(\<exists>u. r = Inr u \<and> P) \<longleftrightarrow> r = Inr () \<and> P" for r :: "unit res" and P by auto
  show ?thesis
    unfolding make_model_checker_def Let_def names_apart_def each [symmetric]
    by (cases "b = 0") (auto simp: res_simps unit)
qed

text \<open>What it rejects, it rejects as an invalid argument.\<close>

lemma constructor_rejects:
  "make_model_checker p b m = Inl e \<Longrightarrow> \<exists>msg. e = Invalid_Argument msg"
  unfolding make_model_checker_def Let_def res_bind_def
  by (auto dest!: check_each_rejects simp: mutex_clash_def semaphore_clash_def barrier_clash_def
      name_clash_def split: if_splits sum.splits)

end
