(* ===== verification/Report.thy ===== *)
theory Report
  imports Parser Model_Checker
begin

text \<open>
  The report a command prints (src/src/cli/report.cpp): the verdict, the bug of highest
  priority, its trace with one line per step, and its schedule in the format that
  \<open>parse_schedule_file\<close> reads. Printing appends to a stream; a printer that may throw returns the
  text it has written so far and the exception.
\<close>

section \<open>Printing\<close>

type_synonym printed = "string \<times> exn option"

definition prints :: "string \<Rightarrow> printed" where
  "prints s = (s, None)"

definition and_then :: "printed \<Rightarrow> printed \<Rightarrow> printed" where
  "and_then a b = (case snd a of None \<Rightarrow> (fst a @ fst b, snd b) | Some e \<Rightarrow> a)"

definition endl :: string where
  "endl = [CHR 0x0A]"

section \<open>The verdict\<close>

text \<open>\<open>bug_schedule\<close> is only called when some bug is present; otherwise the source dereferences an
  empty optional.\<close>

definition bug_schedule :: "check_result \<Rightarrow> schedule option" where
  "bug_schedule result =
     (case first_race result of Some r \<Rightarrow> Some (r_schedule r) | None \<Rightarrow>
      case first_deadlock result of Some d \<Rightarrow> Some (dl_schedule d) | None \<Rightarrow>
      case first_error result of Some e \<Rightarrow> Some (me_schedule e) | None \<Rightarrow>
      case first_assertion result of Some f \<Rightarrow> Some (af_schedule f) | None \<Rightarrow>
      map_option nt_schedule (first_nontermination result))"

definition has_bug :: "check_result \<Rightarrow> bool" where
  "has_bug result \<longleftrightarrow>
     first_race result \<noteq> None \<or> first_deadlock result \<noteq> None \<or> first_error result \<noteq> None \<or>
     first_assertion result \<noteq> None \<or> first_nontermination result \<noteq> None"

definition verdict_of :: "check_result \<Rightarrow> string" where
  "verdict_of result =
     (if first_race result \<noteq> None then ''race''
      else if first_deadlock result \<noteq> None then ''deadlock''
      else if first_error result \<noteq> None then ''error''
      else if first_assertion result \<noteq> None then ''assertion''
      else if first_nontermination result \<noteq> None then ''nontermination''
      else if bound_exceeded_executions result > 0 then ''clean up to bound''
      else ''clean'')"

text \<open>The loop state of \<open>print_also_found\<close> is \<open>primary_seen\<close> and the vector \<open>also\<close>.\<close>

definition consider_bug :: "bool \<Rightarrow> string \<Rightarrow> bool \<times> string list \<Rightarrow> bool \<times> string list" where
  "consider_bug present name state =
     (if \<not> present then state
      else if \<not> fst state then (True, snd state) else (fst state, snd state @ [name]))"

definition also_found :: "check_result \<Rightarrow> string list" where
  "also_found result =
     snd (consider_bug (first_nontermination result \<noteq> None) ''nontermination''
         (consider_bug (first_assertion result \<noteq> None) ''assertion''
         (consider_bug (first_error result \<noteq> None) ''error''
         (consider_bug (first_deadlock result \<noteq> None) ''deadlock''
         (consider_bug (first_race result \<noteq> None) ''race'' (False, []))))))"

definition print_also_found :: "check_result \<Rightarrow> string" where
  "print_also_found result = concat (map (\<lambda>name. ''also_found: '' @ name @ endl) (also_found result))"

section \<open>Details of a bug\<close>

definition endpoint_text :: "schedule_step \<Rightarrow> string" where
  "endpoint_text step =
     ''thread '' @ nat_text (s_thread step) @
     (if s_index step = kFlushActionIndex then '' flush'' else '' action '' @ nat_text (s_index step))"

definition print_numeric_step :: "string \<Rightarrow> schedule_step \<Rightarrow> string" where
  "print_numeric_step indentation step =
     indentation @ nat_text (s_thread step) @ '' '' @ nat_text (s_index step) @
     (case s_flush step of Some f \<Rightarrow> '' '' @ nat_text f | None \<Rightarrow> '''') @ endl"

definition owner_text :: "nat option \<Rightarrow> string" where
  "owner_text owner = (case owner of Some t \<Rightarrow> nat_text t | None \<Rightarrow> ''none'')"

definition print_deadlock_blocker :: "blocked_thread \<Rightarrow> string" where
  "print_deadlock_blocker b =
     ''    thread '' @ nat_text (bt_thread b) @ '': '' @
     (case bt_kind b of
        On_Mutex \<Rightarrow> ''mutex '' @ bt_mutex b @ '' owned_by '' @ owner_text (bt_owner b)
      | On_Thread \<Rightarrow> ''thread '' @ nat_text (value_or (bt_target b) 0)
      | On_Condition \<Rightarrow> ''condition '' @ bt_condition b @ '' mutex '' @ bt_mutex b
      | On_RwLock_Writer \<Rightarrow>
          ''rwlock '' @ bt_rwlock b @ '' waiting_for_writer owned_by '' @ owner_text (bt_owner b)
      | On_RwLock_Readers \<Rightarrow>
          ''rwlock '' @ bt_rwlock b @ '' waiting_for_readers_to_drain'' @
          (if bt_self_wait b then '' self_wait'' else '''')
      | On_Semaphore \<Rightarrow> ''semaphore '' @ bt_semaphore b @ '' waiting_for_post''
      | On_Barrier \<Rightarrow> ''barrier '' @ bt_barrier b @ '' waiting_on_barrier''
      | On_RwLock_Upgrade \<Rightarrow>
          ''rwlock '' @ bt_rwlock b @ '' upgrade_waiting_for_readers_to_drain'') @ endl"

definition fairness_text :: "fairness \<Rightarrow> string" where
  "fairness_text f =
     (case f of
        Unfair_Schedule_Witness \<Rightarrow> ''unfair-schedule witness''
      | Strongly_Unfair_Schedule_Witness \<Rightarrow> ''strongly-unfair-schedule witness''
      | Fair_Divergence \<Rightarrow> ''fair divergence'')"

definition print_race :: "race_report \<Rightarrow> string" where
  "print_race r =
     ''race:'' @ endl @
     ''  address: '' @ r_address r @ endl @
     ''  first: '' @ endpoint_text (r_first r) @ endl @
     ''  second: '' @ endpoint_text (r_second r) @ endl"

definition print_deadlock :: "deadlock_report \<Rightarrow> string" where
  "print_deadlock d =
     ''deadlock:'' @ endl @ ''  blocked:'' @ endl @
     concat (map print_deadlock_blocker (dl_blocked d))"

definition print_error :: "model_error_report \<Rightarrow> string" where
  "print_error e =
     ''error:'' @ endl @
     ''  endpoint: '' @ endpoint_text (me_endpoint e) @ endl @
     ''  message: '' @ me_message e @ endl"

definition print_assertion :: "assertion_report \<Rightarrow> string" where
  "print_assertion f =
     ''assertion:'' @ endl @
     ''  endpoint: '' @ endpoint_text (af_endpoint f) @ endl @
     ''  register: r'' @ nat_text (af_reg f) @ endl @
     ''  value: '' @ int_text (sint (af_value f)) @ endl"

definition print_nontermination :: "nontermination_report \<Rightarrow> string" where
  "print_nontermination n =
     ''nontermination:'' @ endl @
     ''  fairness: '' @ fairness_text (nt_fairness n) @ endl @
     ''  stem:'' @ endl @ concat (map (print_numeric_step ''    '') (nt_stem n)) @
     ''  cycle:'' @ endl @ concat (map (print_numeric_step ''    '') (nt_cycle n))"

definition print_bug_details :: "check_result \<Rightarrow> string" where
  "print_bug_details result =
     (case first_race result of Some r \<Rightarrow> print_race r | None \<Rightarrow>
      case first_deadlock result of Some d \<Rightarrow> print_deadlock d | None \<Rightarrow>
      case first_error result of Some e \<Rightarrow> print_error e | None \<Rightarrow>
      case first_assertion result of Some f \<Rightarrow> print_assertion f | None \<Rightarrow>
      case first_nontermination result of Some n \<Rightarrow> print_nontermination n | None \<Rightarrow> [])"

section \<open>The trace\<close>

definition is_selected_error_endpoint :: "check_result \<Rightarrow> schedule_step \<Rightarrow> nat \<Rightarrow> schedule \<Rightarrow> bool" where
  "is_selected_error_endpoint result step step_index sch =
     (case first_error result of
        None \<Rightarrow> False
      | Some e \<Rightarrow> step_index + 1 = length sch \<and> me_endpoint e = step)"

text \<open>\<open>.at()\<close> on a vector.\<close>

definition vec_at :: "'a list \<Rightarrow> nat \<Rightarrow> 'a res" where
  "vec_at xs i = (if i < length xs then Inr (xs ! i) else Inl Out_Of_Range)"

definition wait_mark :: "nat \<Rightarrow> string" where
  "wait_mark occurrence = (if occurrence = 0 then '' (sleep)'' else '' (reacquire)'')"

definition timed_wait_mark :: "effective_step \<Rightarrow> string" where
  "timed_wait_mark es =
     (case es_timed_wait es of
        Some occurrence \<Rightarrow> (case fst occurrence of Park \<Rightarrow> '' (sleep)'' | Timeout \<Rightarrow> '' (timeout)'')
      | None \<Rightarrow> if a_kind (es_action es) = Lock then '' (reacquire)'' else '''')"

text \<open>
  One line of the trace: the text, and the map that counts the occurrences of each wait. Of the
  program only the action is read, so its two \<open>.at()\<close> calls are made for ordinary steps.
\<close>

definition trace_action :: "program \<Rightarrow> effective_step \<Rightarrow> schedule_step \<Rightarrow> action res" where
  "trace_action p es step =
     (if s_index step = kFlushActionIndex then Inr (es_action es)
      else res_bind (vec_at p (s_thread step)) (\<lambda>thread. vec_at thread (s_index step)))"

definition trace_line ::
  "check_result \<Rightarrow> schedule \<Rightarrow> nat \<Rightarrow> schedule_step \<Rightarrow> effective_step \<Rightarrow> action \<Rightarrow>
   (nat \<times> nat, nat) omap \<Rightarrow> string \<times> (nat \<times> nat, nat) omap" where
  "trace_line result sch index step es a occurrences =
     (let flush = (s_index step = kFlushActionIndex);
          marked = (\<not> flush \<and> \<not> is_selected_error_endpoint result step index sch);
          key = (s_thread step, s_index step);
          occurrence = mget 0 occurrences key;
          start = ''  '' @ nat_text index @ '': thread '' @ nat_text (s_thread step) @
            (if flush then '' flush '' @ a_address a
             else '' action '' @ nat_text (s_index step) @ '' '' @ action_text a) in
      (start @
       (if marked \<and> a_kind a = Wait then wait_mark occurrence else '''') @
       (if marked \<and> a_kind a = TimedWait then timed_wait_mark es else '''') @ endl,
       if marked \<and> a_kind a = Wait then mupdate key (Suc occurrence) occurrences else occurrences))"

fun trace_lines ::
  "program \<Rightarrow> check_result \<Rightarrow> schedule \<Rightarrow> effective_step list \<Rightarrow> nat \<Rightarrow> schedule \<Rightarrow>
   (nat \<times> nat, nat) omap \<Rightarrow> printed" where
  "trace_lines p result sch effective index [] occurrences = prints []"
| "trace_lines p result sch effective index (step # steps) occurrences =
     (case res_bind (vec_at effective index) (\<lambda>es.
           res_bind (trace_action p es step) (\<lambda>a. Inr (es, a))) of
        Inl e \<Rightarrow> ([], Some e)
      | Inr (es, a) \<Rightarrow>
          let (line, occurrences') = trace_line result sch index step es a occurrences in
          and_then (prints line)
            (trace_lines p result sch effective (Suc index) steps occurrences'))"

definition print_trace ::
  "program \<Rightarrow> check_result \<Rightarrow> schedule \<Rightarrow> memory_model \<Rightarrow> nat \<Rightarrow> printed" where
  "print_trace p result sch m step_bound =
     and_then (prints (''trace:'' @ endl))
       (case res_bind (make_model_checker p step_bound m) (\<lambda>mc. mc_replay_effective_trace mc sch) of
          Inl e \<Rightarrow> ([], Some e)
        | Inr effective \<Rightarrow> trace_lines p result sch effective 0 sch mempty)"

definition print_schedule :: "schedule \<Rightarrow> string" where
  "print_schedule sch = ''schedule:'' @ endl @ concat (map (print_numeric_step ''  '') sch)"

section \<open>The report\<close>

definition memory_model_text :: "memory_model \<Rightarrow> string" where
  "memory_model_text m = (case m of SC \<Rightarrow> ''sc'' | TSO \<Rightarrow> ''tso'' | PSO \<Rightarrow> ''pso'')"

definition counted_line :: "string \<Rightarrow> nat \<Rightarrow> string" where
  "counted_line name n = (if n > 0 then name @ '': '' @ nat_text n @ endl else '''')"

definition report_head :: "check_result \<Rightarrow> memory_model \<Rightarrow> string" where
  "report_head result m =
     ''verdict: '' @ verdict_of result @ endl @
     (if m \<noteq> SC then ''memory_model: '' @ memory_model_text m @ endl else '''') @
     ''schedules_explored: '' @ nat_text (schedules_explored result) @ endl @
     counted_line ''cycles_detected'' (cycles_detected result) @
     counted_line ''bound_exceeded_executions'' (bound_exceeded_executions result) @
     (if exploration_capped result
      then ''exploration_capped: true (schedule cap reached; verdict may be incomplete)'' @ endl
      else '''')"

definition print_report :: "program \<Rightarrow> check_result \<Rightarrow> memory_model \<Rightarrow> nat \<Rightarrow> printed" where
  "print_report p result m step_bound =
     and_then (prints (report_head result m))
       (if \<not> has_bug result then prints []
        else case bug_schedule result of
          None \<Rightarrow> prints []
        | Some sch \<Rightarrow>
            and_then (prints (print_also_found result @ print_bug_details result))
              (and_then (print_trace p result sch m step_bound) (prints (print_schedule sch))))"

end
