(* ===== verification/Parser_Actions.thy ===== *)
theory Parser_Actions
  imports Parser Model_Checker
begin

text \<open>
  The lines of a program file. \<open>source_action\<close> lists the actions that a line can denote; the
  parser of a line returns nothing else, and it reads the printed form of each of them back.
\<close>

section \<open>Operands are read back\<close>

lemma parse_i64_exact:
  "parse_i64_token tok line d = Inr v \<longleftrightarrow> (\<exists>i. stoll tok = Inr (i, length tok) \<and> v = word_of_int i)"
  by (auto simp: parse_i64_token_def split: sum.splits exn.splits)

lemma sint_val_bounds: "- (2 ^ 63) \<le> sint (v :: val)" "sint (v :: val) < 2 ^ 63"
  using sint_ge [of v] sint_lt [of v] by simp_all

lemma parse_i64_text [simp]: "parse_i64_token (int_text (sint v)) line d = Inr v"
  using stoll_int_text [OF sint_val_bounds, of v] by (simp add: parse_i64_exact)

interpretation i64: token_codec "\<lambda>v. int_text (sint v)" parse_i64_token "\<lambda>v. True"
  by unfold_locales simp_all

lemma nat_text_digit: "n < 10 \<Longrightarrow> nat_text n = [digit_char n]"
  by (subst nat_text.simps) simp

lemma parse_register_exact:
  "parse_register_token tok line d = Inr r \<longleftrightarrow>
     (\<exists>c. tok = [CHR ''r'', c] \<and> is_digit c \<and> digit_value c = r \<and> r < kRegisterCount)"
  by (auto simp: parse_register_token_def length_Suc_conv numeral_2_eq_2 split: if_splits)

lemma register_text_small: "r < kRegisterCount \<Longrightarrow> register_text r = [CHR ''r'', digit_char r]"
  by (simp add: register_text_def nat_text_digit kRegisterCount_def)

lemma parse_register_text [simp]:
  "r < kRegisterCount \<Longrightarrow> parse_register_token (register_text r) line d = Inr r"
  by (simp add: parse_register_exact register_text_small kRegisterCount_def)

lemma token_register_text [simp]: "r < kRegisterCount \<Longrightarrow> token (register_text r)"
  using token_nat_text [of r]
  by (auto simp: register_text_def token_def token_char_def is_space_def is_blank_def)

interpretation reg: token_codec register_text parse_register_token "\<lambda>r. r < kRegisterCount"
  by unfold_locales (auto simp: parse_register_exact)

definition operand_ok :: "value_operand \<Rightarrow> bool" where
  "operand_ok v = (case v of Immediate i \<Rightarrow> True | Register r \<Rightarrow> r < kRegisterCount)"

lemma int_text_front: "hd (int_text i) \<noteq> CHR ''r''"
proof -
  have "hd (nat_text n) \<noteq> CHR ''r''" for n
  proof -
    have "is_digit (hd (nat_text n))"
      using nat_text_digits [of n] by (cases "nat_text n") auto
    moreover have "\<not> is_digit (CHR ''r'')" by (simp add: is_digit_iff)
    ultimately show ?thesis by metis
  qed
  then show ?thesis by (simp add: int_text_def)
qed

lemma int_text_nonempty [simp]: "int_text i \<noteq> []"
  by (simp add: int_text_def)

lemma token_operand_text [simp]: "operand_ok v \<Longrightarrow> token (operand_text v)"
  by (cases v) (simp_all add: operand_text_def operand_ok_def)

lemma parse_operand_text [simp]: "operand_ok v \<Longrightarrow> parse_value_operand (operand_text v) line = Inr v"
  using int_text_front
  by (cases v) (simp_all add: parse_value_operand_def operand_text_def operand_ok_def register_text_def [THEN arg_cong [of _ _ hd]] register_text_def [THEN arg_cong [of _ _ "\<lambda>s. s = []"]] res_bind_def)

lemma parse_operand_ok: "parse_value_operand tok line = Inr v \<Longrightarrow> operand_ok v"
  by (auto simp: parse_value_operand_def operand_ok_def res_simps split: if_splits dest: reg.read_valid)

interpretation operand: token_codec operand_text "\<lambda>tok line _. parse_value_operand tok line" operand_ok
  by unfold_locales (auto intro: parse_operand_ok)


section \<open>Actions\<close>

text \<open>The actions that a line of a program file denotes.\<close>

inductive source_action :: "action \<Rightarrow> bool" where
  "r < kRegisterCount \<Longrightarrow> source_action (set_action r v)"
| "token l \<Longrightarrow> source_action (label_action l)"
| "r < kRegisterCount \<Longrightarrow> token l \<Longrightarrow> source_action (branch_action r l)"
| "r < kRegisterCount \<Longrightarrow> source_action (assert_action r)"
| "kind \<in> {Read, AtomicLoad} \<Longrightarrow> token x \<Longrightarrow> pred_option (\<lambda>r. r < kRegisterCount) d \<Longrightarrow>
     source_action (memory_read_action kind x d)"
| "kind \<in> {Write, AtomicStore} \<Longrightarrow> token x \<Longrightarrow> pred_option operand_ok v \<Longrightarrow>
     source_action (memory_write_action kind x v)"
| "token x \<Longrightarrow> source_action (atomic_rmw_action x None None)"
| "token x \<Longrightarrow> operand_ok v \<Longrightarrow> r < kRegisterCount \<Longrightarrow> source_action (atomic_rmw_action x (Some v) (Some r))"
| "token x \<Longrightarrow> operand_ok e \<Longrightarrow> operand_ok v \<Longrightarrow> r < kRegisterCount \<Longrightarrow> source_action (cas_action x e v r)"
| "source_action fence_action"
| "source_action yield_action"
| "kind \<in> {Lock, Unlock} \<Longrightarrow> token m \<Longrightarrow> source_action (mutex_action kind m)"
| "token m \<Longrightarrow> r < kRegisterCount \<Longrightarrow> source_action (try_lock_action m r)"
| "kind \<in> {RLock, RUnlock, WLock, WUnlock, Upgrade, Downgrade} \<Longrightarrow> token l \<Longrightarrow>
     source_action (rwlock_action kind l)"
| "kind \<in> {SemPost, SemWait} \<Longrightarrow> token x \<Longrightarrow> source_action (semaphore_action kind x)"
| "token b \<Longrightarrow> 0 < n \<Longrightarrow> n \<le> kMaxU32 \<Longrightarrow> source_action (barrier_action b n)"
| "token c \<Longrightarrow> token m \<Longrightarrow> source_action (wait_action c m)"
| "token c \<Longrightarrow> token m \<Longrightarrow> r < kRegisterCount \<Longrightarrow> source_action (timed_wait_action c m r)"
| "kind \<in> {Signal, Broadcast} \<Longrightarrow> token c \<Longrightarrow> source_action (condition_action kind c)"
| "t \<le> kMaxU32 \<Longrightarrow> source_action (join_action t)"
| "t \<le> kMaxU32 \<Longrightarrow> source_action (spawn_action t)"

lemmas action_shapes =
  set_action_def label_action_def branch_action_def assert_action_def memory_action_def
  memory_read_action_def memory_write_action_def atomic_rmw_action_def cas_action_def
  fence_action_def yield_action_def mutex_action_def try_lock_action_def rwlock_action_def
  semaphore_action_def barrier_action_def wait_action_def timed_wait_action_def
  condition_action_def join_action_def spawn_action_def default_action_def

lemma require_arity_Inr [res_simps]:
  "require_arity words n line keyword rest = Inr a \<longleftrightarrow> length words = n \<and> rest = Inr a"
  by (simp add: require_arity_def)

lemma words_nth: "list_all token words \<Longrightarrow> i < length words \<Longrightarrow> token (words ! i)"
  by (simp add: list_all_length)

lemma line_label_token:
  assumes "is_line_label words" "list_all token words"
  shows "token (line_label_name (hd words))"
proof -
  obtain w where w: "words = [w]" "length w > 1"
    using assms(1) by (auto simp: is_line_label_def length_Suc_conv)
  then have "butlast w \<noteq> []" by (cases w rule: rev_cases) auto
  then show ?thesis
    using assms(2) w by (auto simp: line_label_name_def token_def list_all_iff dest: in_set_butlastD)
qed

lemma res_ifE:
  assumes "(if b then m else n) = Inr a"
  obtains "b" "m = Inr a" | "n = Inr a"
  using assms by (cases b) auto

text \<open>One lemma per shape of operands.\<close>

lemma parse_load_source:
  assumes "parse_load kind words line keyword = Inr a" "list_all token words" "kind \<in> {Read, AtomicLoad}"
  shows "source_action a"
proof -
  obtain d where "a = memory_read_action kind (words ! 1) d" "pred_option (\<lambda>r. r < kRegisterCount) d"
      "1 < length words"
    using assms(1) by (auto simp: parse_load_def res_simps split: if_splits dest: reg.read_valid)
  then show ?thesis using assms(2,3) words_nth by (auto intro: source_action.intros)
qed

lemma parse_store_source:
  assumes "parse_store kind words line keyword = Inr a" "list_all token words" "kind \<in> {Write, AtomicStore}"
  shows "source_action a"
proof -
  obtain v where "a = memory_write_action kind (words ! 1) v" "pred_option operand_ok v"
      "1 < length words"
    using assms(1) by (auto simp: parse_store_def res_simps split: if_splits dest: operand.read_valid)
  then show ?thesis using assms(2,3) words_nth by (auto intro: source_action.intros)
qed

lemma parse_shapes_source:
  assumes "list_all token words"
  shows "parse_rmw words line = Inr a \<Longrightarrow> source_action a"
    and "parse_cas words line = Inr a \<Longrightarrow> source_action a"
    and "parse_try_lock words line = Inr a \<Longrightarrow> source_action a"
    and "parse_timed_wait words line = Inr a \<Longrightarrow> source_action a"
    and "parse_barrier_wait words line = Inr a \<Longrightarrow> source_action a"
  using words_nth [OF assms]
  by (auto simp: parse_rmw_def parse_cas_def parse_try_lock_def parse_timed_wait_def
      parse_barrier_wait_def res_simps split: if_splits
      intro!: source_action.intros dest: reg.read_valid operand.read_valid u32.read_valid)

lemma parse_named_source:
  assumes "parse_named act words line keyword = Inr a" "list_all token words"
    and "\<And>x. token x \<Longrightarrow> source_action (act x)"
  shows "source_action a"
  using assms words_nth [of words 1] by (auto simp: parse_named_def res_simps)

lemma parse_target_source:
  assumes "parse_target act words line keyword d = Inr a"
    and "\<And>x. x \<le> kMaxU32 \<Longrightarrow> source_action (act x)"
  shows "source_action a"
  using assms by (auto simp: parse_target_def res_simps dest: u32.read_valid)

lemma parse_action_source:
  assumes "parse_action words line = Inr a" "list_all token words" "words \<noteq> []"
  shows "source_action a"
proof -
  note shapes = parse_shapes_source [OF assms(2)]
    parse_load_source [OF _ assms(2)] parse_store_source [OF _ assms(2)]
    parse_named_source [OF _ assms(2)] parse_target_source
  have words: "words ! i \<in> set words \<longrightarrow> token (words ! i)" for i
    using assms(2) by (auto simp: list_all_iff)
  show ?thesis
    using assms(1) unfolding parse_action_def Let_def
  proof (elim res_ifE)
  qed (auto simp: res_simps words_nth [OF assms(2)] line_label_token [OF _ assms(2)]
      intro: source_action.intros shapes dest: reg.read_valid)
qed


section \<open>Printed actions\<close>

text \<open>A printed action is a list of words with one space between them.\<close>

fun unwords :: "string list \<Rightarrow> string" where
  "unwords [] = []"
| "unwords [w] = w"
| "unwords (w # v # ws) = w @ CHR 0x20 # unwords (v # ws)"

lemma split_unwords [simp]: "list_all token ws \<Longrightarrow> split_words (unwords ws) = ws"
  by (induction ws rule: unwords.induct) (simp_all add: is_space_def is_blank_def)

lemma unwords_plain:
  "list_all token ws \<Longrightarrow> list_all (\<lambda>c. c \<noteq> CHR 0x23) (unwords ws) \<and> list_all (\<lambda>c. c \<noteq> CHR 0x0A) (unwords ws)"
  by (induction ws rule: unwords.induct) (simp_all add: token_no_comment token_one_line)

definition action_words :: "action \<Rightarrow> string list" where
  "action_words a =
     (let r = \<lambda>d. register_text (value_or d 0); v = \<lambda>x. operand_text (value_or x (Immediate 0));
          arrow = \<lambda>d. (case d of None \<Rightarrow> [] | Some r \<Rightarrow> [''->'', register_text r]);
          opt = \<lambda>x. (case x of None \<Rightarrow> [] | Some y \<Rightarrow> [operand_text y]) in
      case a_kind a of
        Set \<Rightarrow> [''set'', r (a_destination a), v (a_value a)]
      | Label \<Rightarrow> [''label'', a_label a]
      | BranchNonzero \<Rightarrow> [''bnz'', r (a_source a), a_label a]
      | Assert \<Rightarrow> [''assert'', r (a_source a)]
      | Read \<Rightarrow> ''read'' # a_address a # arrow (a_destination a)
      | Write \<Rightarrow> ''write'' # a_address a # opt (a_value a)
      | AtomicLoad \<Rightarrow> ''atomic_load'' # a_address a # arrow (a_destination a)
      | AtomicStore \<Rightarrow> ''atomic_store'' # a_address a # opt (a_value a)
      | AtomicRmw \<Rightarrow> ''atomic_rmw'' # a_address a #
          (if a_value a \<noteq> None \<and> a_destination a \<noteq> None
           then opt (a_value a) @ arrow (a_destination a) else [])
      | CompareExchange \<Rightarrow> [''cas'', a_address a, v (a_expected a), v (a_value a), ''->'', r (a_destination a)]
      | Fence \<Rightarrow> [''fence'']
      | Flush \<Rightarrow> [''flush'', a_address a]
      | Lock \<Rightarrow> [''lock'', a_mutex a]
      | TryLock \<Rightarrow> [''try_lock'', a_mutex a, ''->'', r (a_destination a)]
      | Unlock \<Rightarrow> [''unlock'', a_mutex a]
      | RLock \<Rightarrow> [''rlock'', a_rwlock a]
      | RUnlock \<Rightarrow> [''runlock'', a_rwlock a]
      | WLock \<Rightarrow> [''wlock'', a_rwlock a]
      | WUnlock \<Rightarrow> [''wunlock'', a_rwlock a]
      | Upgrade \<Rightarrow> [''upgrade'', a_rwlock a]
      | Downgrade \<Rightarrow> [''downgrade'', a_rwlock a]
      | SemPost \<Rightarrow> [''sem_post'', a_semaphore a]
      | SemWait \<Rightarrow> [''sem_wait'', a_semaphore a]
      | BarrierWait \<Rightarrow> [''barrier_wait'', a_barrier a, nat_text (a_parties a)]
      | Spawn \<Rightarrow> [''spawn'', nat_text (a_target a)]
      | Join \<Rightarrow> [''join'', nat_text (a_target a)]
      | Wait \<Rightarrow> [''wait'', a_condition a, a_mutex a]
      | TimedWait \<Rightarrow> [''timedwait'', a_condition a, a_mutex a, ''->'', r (a_destination a)]
      | Signal \<Rightarrow> [''signal'', a_condition a]
      | Broadcast \<Rightarrow> [''broadcast'', a_condition a]
      | Yield \<Rightarrow> [''yield''])"

lemma action_text_words: "action_text a = unwords (action_words a)"
  by (cases "a_kind a")
    (simp_all add: action_text_def action_words_def arrow_text_def spaced_operand_def
      split: option.split)

lemma keyword_tokens [simp]:
  "token ''set''" "token ''label''" "token ''bnz''" "token ''assert''" "token ''read''"
  "token ''write''" "token ''atomic_load''" "token ''atomic_store''" "token ''atomic_rmw''" "token ''cas''"
  "token ''fence''" "token ''lock''" "token ''try_lock''" "token ''unlock''" "token ''rlock''"
  "token ''runlock''" "token ''wlock''" "token ''wunlock''" "token ''upgrade''" "token ''downgrade''"
  "token ''sem_post''" "token ''sem_wait''" "token ''barrier_wait''" "token ''wait''" "token ''timedwait''"
  "token ''signal''" "token ''broadcast''" "token ''join''" "token ''spawn''" "token ''yield''"
  "token ''->''"
  by code_simp+

lemma action_words_tokens:
  assumes "source_action a"
  shows "list_all token (action_words a)"
  using assms
  by cases (auto simp: action_shapes action_words_def value_or_def operand_ok_def split: option.split)

lemma action_words_keyword:
  "source_action a \<Longrightarrow> action_words a \<noteq> [] \<and> hd (action_words a) \<noteq> ''thread:''"
  by (cases "a_kind a") (simp_all add: action_words_def Let_def)

lemma not_line_label: "is_line_label (w # v # ws) = False" "is_line_label [''fence''] = False"
    "is_line_label [''yield''] = False"
  by (simp_all add: is_line_label_def)

lemmas reparse_simps =
  action_shapes action_words_def value_or_def parse_action_def not_line_label require_arity_def
  parse_load_def parse_store_def parse_rmw_def parse_cas_def parse_try_lock_def
  parse_timed_wait_def parse_barrier_wait_def parse_named_def parse_target_def

lemma operand_text_simps [simp]: "operand_text (Immediate v) = int_text (sint v)"
    "operand_text (Register r) = register_text r"
  by (simp_all add: operand_text_def)

lemma reparse_action:
  assumes "source_action a"
  shows "parse_action (action_words a) line = Inr a"
  using assms
proof cases
  case (5 kind x d)
  then show ?thesis by (cases d) (elim insertE emptyE; simp add: reparse_simps)+
next
  case (6 kind x v)
  then show ?thesis by (cases v) (elim insertE emptyE; simp add: reparse_simps)+
qed (simp add: reparse_simps; fail | elim insertE emptyE; simp add: reparse_simps)+

end
