(* ===== verification/Parser_Correct.thy ===== *)
theory Parser_Correct
  imports Parser_Actions Model_Checker
begin

text \<open>
  What the program parser accepts. \<open>tracks\<close> relates the local variables of the parsing loop to
  the program read so far; from it follows that a file is accepted exactly when its program is
  \<open>program_ok\<close>, and that the text the printer writes for a program is read back.
\<close>

section \<open>Programs that files denote\<close>

definition labels_of :: "action list \<Rightarrow> string list" where
  "labels_of thread = map a_label (filter (\<lambda>a. a_kind a = Label) thread)"

definition joins_of :: "program \<Rightarrow> nat list" where
  "joins_of p = map a_target (filter (\<lambda>a. a_kind a = Join) (concat p))"

definition by_thread :: "(action \<Rightarrow> bool) \<Rightarrow> (action \<Rightarrow> 'b) \<Rightarrow> program \<Rightarrow> (nat \<times> 'b) list" where
  "by_thread sel f p = concat (map (\<lambda>(i, thread). map (\<lambda>a. (i, f a)) (filter sel thread)) (enumerate 0 p))"

definition spawns_of :: "program \<Rightarrow> (nat \<times> nat) list" where
  "spawns_of p = by_thread (\<lambda>a. a_kind a = Spawn) a_target p"

definition branches_of :: "program \<Rightarrow> (nat \<times> string) list" where
  "branches_of p = by_thread (\<lambda>a. a_kind a = BranchNonzero) a_label p"

definition parties_agree :: "program \<Rightarrow> bool" where
  "parties_agree p \<longleftrightarrow> (\<forall>a\<in>set (concat p). \<forall>b\<in>set (concat p).
     a_kind a = BarrierWait \<and> a_kind b = BarrierWait \<and> a_barrier a = a_barrier b \<longrightarrow>
     a_parties a = a_parties b)"

definition lines_ok :: "program \<Rightarrow> bool" where
  "lines_ok p \<longleftrightarrow> names_apart p \<and> parties_agree p \<and> list_all (\<lambda>thread. distinct (labels_of thread)) p"

definition references_ok :: "program \<Rightarrow> bool" where
  "references_ok p \<longleftrightarrow>
     list_all (\<lambda>t. t < length p) (joins_of p) \<and>
     list_all (\<lambda>(i, l). l \<in> set (labels_of (p ! i))) (branches_of p) \<and>
     list_all (\<lambda>(i, t). t < length p \<and> t \<noteq> i) (spawns_of p) \<and>
     distinct (map snd (spawns_of p))"

definition program_ok :: "program \<Rightarrow> bool" where
  "program_ok p \<longleftrightarrow> p \<noteq> [] \<and> list_all (list_all source_action) p \<and> lines_ok p \<and> references_ok p"

lemma by_thread_Nil [simp]: "by_thread sel f [] = []"
  by (simp add: by_thread_def)

lemma by_thread_snoc [simp]:
  "by_thread sel f (q @ [t]) = by_thread sel f q @ map (\<lambda>a. (length q, f a)) (filter sel t)"
  by (simp add: by_thread_def enumerate_append_eq)

section \<open>The state of the loop\<close>

definition known :: "(string, 'b) omap \<Rightarrow> string set" where
  "known m = {x. mlookup m x \<noteq> None}"

definition tracks :: "parser_state \<Rightarrow> bool" where
  "tracks ps \<longleftrightarrow>
     known (ps_mutexes ps) = mutexes_in (ps_program ps) \<and>
     known (ps_rwlocks ps) = rwlocks_in (ps_program ps) \<and>
     known (ps_semaphores ps) = semaphores_in (ps_program ps) \<and>
     known (ps_conditions ps) = conditions_in (ps_program ps) \<and>
     known (ps_barriers ps) = barriers_in (ps_program ps) \<and>
     (\<forall>a\<in>set (concat (ps_program ps)). a_kind a = BarrierWait \<longrightarrow>
        map_option snd (mlookup (ps_barriers ps) (a_barrier a)) = Some (a_parties a)) \<and>
     map snd (ps_joins ps) = joins_of (ps_program ps) \<and>
     map (\<lambda>s. (sp_source s, sp_target s)) (ps_spawns ps) = spawns_of (ps_program ps) \<and>
     list_all (\<lambda>s. sp_line s \<noteq> 0) (ps_spawns ps) \<and>
     map (\<lambda>b. (br_source b, br_label b)) (ps_branches ps) = branches_of (ps_program ps) \<and>
     map known (ps_labels ps) = map (\<lambda>thread. set (labels_of thread)) (ps_program ps) \<and>
     ps_current ps = (if ps_program ps = [] then None else Some (length (ps_program ps) - 1)) \<and>
     lines_ok (ps_program ps)"

lemma known_simps [simp]: "known mempty = {}" "known (memplace x l m) = insert x (known m)"
    "known (mupdate x l' n) = insert x (known n)"
  by (auto simp: known_def)

lemma known_None: "mlookup m x = None \<longleftrightarrow> x \<notin> known m"
  by (simp add: known_def)

text \<open>What one action does to the state when no check fails, and when none does.\<close>

definition fresh_names :: "nat \<Rightarrow> action \<Rightarrow> parser_state \<Rightarrow> bool" where
  "fresh_names current a ps \<longleftrightarrow>
     (uses_mutex a \<longrightarrow>
        a_mutex a \<notin> known (ps_rwlocks ps) \<union> known (ps_semaphores ps) \<union> known (ps_barriers ps)) \<and>
     (uses_rwlock a \<longrightarrow>
        a_rwlock a \<notin> known (ps_mutexes ps) \<union> known (ps_semaphores ps) \<union> known (ps_barriers ps)) \<and>
     (uses_semaphore a \<longrightarrow>
        a_semaphore a \<notin> known (ps_mutexes ps) \<union> known (ps_rwlocks ps) \<union> known (ps_barriers ps)) \<and>
     (uses_condition a \<longrightarrow> a_condition a \<notin> known (ps_barriers ps)) \<and>
     (uses_barrier a \<longrightarrow>
        a_barrier a \<notin> known (ps_mutexes ps) \<union> known (ps_rwlocks ps) \<union> known (ps_semaphores ps) \<union>
          known (ps_conditions ps) \<and>
        map_option snd (mlookup (ps_barriers ps) (a_barrier a)) \<in> {None, Some (a_parties a)}) \<and>
     (a_kind a = Label \<longrightarrow> a_label a \<notin> known (ps_labels ps ! current))"

definition note_action :: "nat \<Rightarrow> nat \<Rightarrow> action \<Rightarrow> parser_state \<Rightarrow> parser_state" where
  "note_action line current a ps = ps\<lparr>
     ps_program := (ps_program ps)[current := ps_program ps ! current @ [a]],
     ps_mutexes := (if uses_mutex a then memplace (a_mutex a) line (ps_mutexes ps) else ps_mutexes ps),
     ps_rwlocks := (if uses_rwlock a then memplace (a_rwlock a) line (ps_rwlocks ps) else ps_rwlocks ps),
     ps_semaphores := (if uses_semaphore a then memplace (a_semaphore a) line (ps_semaphores ps) else ps_semaphores ps),
     ps_conditions := (if uses_condition a then memplace (a_condition a) line (ps_conditions ps) else ps_conditions ps),
     ps_barriers := (if uses_barrier a then memplace (a_barrier a) (line, a_parties a) (ps_barriers ps) else ps_barriers ps),
     ps_joins := ps_joins ps @ (if a_kind a = Join then [(line, a_target a)] else []),
     ps_spawns := ps_spawns ps @ (if a_kind a = Spawn
       then [\<lparr>sp_line = line, sp_source = current, sp_target = a_target a\<rparr>] else []),
     ps_branches := ps_branches ps @ (if a_kind a = BranchNonzero
       then [\<lparr>br_line = line, br_source = current, br_label = a_label a\<rparr>] else []),
     ps_labels := (if a_kind a = Label
       then (ps_labels ps)[current := mupdate (a_label a) line (ps_labels ps ! current)] else ps_labels ps)\<rparr>"

lemma reject_use_Inr [res_simps]:
  "reject_use line name first_use line_of other this rest = Inr x \<longleftrightarrow>
     name \<notin> known first_use \<and> rest = Inr x"
  by (auto simp: reject_use_def known_def split: option.splits)

lemmas uses_defs = uses_mutex_def uses_rwlock_def uses_semaphore_def uses_condition_def uses_barrier_def
lemmas note_defs = note_mutex_def note_rwlock_def note_semaphore_def note_condition_def
  note_reference_def push_action_def

lemma note_barrier_Inr [res_simps]:
  "note_barrier line a ps = Inr ps' \<longleftrightarrow>
     (if uses_barrier a then
        a_barrier a \<notin> known (ps_mutexes ps) \<union> known (ps_rwlocks ps) \<union> known (ps_semaphores ps) \<union>
          known (ps_conditions ps) \<and>
        map_option snd (mlookup (ps_barriers ps) (a_barrier a)) \<in> {None, Some (a_parties a)} \<and>
        ps' = ps\<lparr>ps_barriers := memplace (a_barrier a) (line, a_parties a) (ps_barriers ps)\<rparr>
      else ps' = ps)"
  by (auto simp: note_barrier_def res_simps memplace_def split: option.splits if_splits)

lemma add_action_Inr:
  "add_action line current a ps = Inr ps' \<longleftrightarrow>
     fresh_names current a ps \<and> ps' = note_action line current a ps"
  by (cases "a_kind a")
    (auto simp: add_action_def note_defs uses_defs fresh_names_def note_action_def res_simps known_None)


section \<open>Programs that grow by one action\<close>

abbreviation grow :: "action \<Rightarrow> program \<Rightarrow> action list \<Rightarrow> program" where
  "grow a q t \<equiv> q @ [t @ [a]]"

lemma names_grow:
  "mutexes_in (grow a q t) = mutexes_in (q @ [t]) \<union> (if uses_mutex a then {a_mutex a} else {})"
  "rwlocks_in (grow a q t) = rwlocks_in (q @ [t]) \<union> (if uses_rwlock a then {a_rwlock a} else {})"
  "semaphores_in (grow a q t) = semaphores_in (q @ [t]) \<union> (if uses_semaphore a then {a_semaphore a} else {})"
  "conditions_in (grow a q t) = conditions_in (q @ [t]) \<union> (if uses_condition a then {a_condition a} else {})"
  "barriers_in (grow a q t) = barriers_in (q @ [t]) \<union> (if uses_barrier a then {a_barrier a} else {})"
  by (auto simp: mutexes_in_def rwlocks_in_def semaphores_in_def conditions_in_def barriers_in_def uses_defs)

lemma names_open:
  "mutexes_in (q @ [[]]) = mutexes_in q" "rwlocks_in (q @ [[]]) = rwlocks_in q"
  "semaphores_in (q @ [[]]) = semaphores_in q" "conditions_in (q @ [[]]) = conditions_in q"
  "barriers_in (q @ [[]]) = barriers_in q"
  by (simp_all add: mutexes_in_def rwlocks_in_def semaphores_in_def conditions_in_def barriers_in_def)

lemma names_apart_grow:
  "names_apart (grow a q t) \<longleftrightarrow> names_apart (q @ [t]) \<and>
     (uses_mutex a \<longrightarrow> a_mutex a \<notin> rwlocks_in (q @ [t]) \<union> semaphores_in (q @ [t]) \<union> barriers_in (q @ [t])) \<and>
     (uses_rwlock a \<longrightarrow> a_rwlock a \<notin> mutexes_in (q @ [t]) \<union> semaphores_in (q @ [t]) \<union> barriers_in (q @ [t])) \<and>
     (uses_semaphore a \<longrightarrow> a_semaphore a \<notin> mutexes_in (q @ [t]) \<union> rwlocks_in (q @ [t]) \<union> barriers_in (q @ [t])) \<and>
     (uses_condition a \<longrightarrow> a_condition a \<notin> barriers_in (q @ [t])) \<and>
     (uses_barrier a \<longrightarrow> a_barrier a \<notin> mutexes_in (q @ [t]) \<union> rwlocks_in (q @ [t]) \<union>
        semaphores_in (q @ [t]) \<union> conditions_in (q @ [t]))"
  unfolding names_apart_def names_grow
  by (cases "a_kind a"; simp add: uses_defs; blast?)

lemma ball_insert_symmetric:
  assumes "\<And>x y. P x y \<longleftrightarrow> P y x" "P a a"
  shows "(\<forall>x\<in>insert a A. \<forall>y\<in>insert a A. P x y) \<longleftrightarrow>
    (\<forall>x\<in>A. \<forall>y\<in>A. P x y) \<and> (\<forall>y\<in>A. P y a)"
  using assms by blast

lemma parties_agree_grow:
  "parties_agree (grow a q t) \<longleftrightarrow> parties_agree (q @ [t]) \<and>
     (uses_barrier a \<longrightarrow> (\<forall>b\<in>set (concat (q @ [t])). a_kind b = BarrierWait \<and> a_barrier b = a_barrier a \<longrightarrow>
        a_parties b = a_parties a))"
proof -
  have grow: "set (concat (grow a q t)) = insert a (set (concat (q @ [t])))" by auto
  show ?thesis
    unfolding parties_agree_def grow uses_barrier_def
    by (subst ball_insert_symmetric) auto
qed

lemma labels_of_grow [simp]:
  "labels_of (t @ [a]) = labels_of t @ (if a_kind a = Label then [a_label a] else [])"
  by (simp add: labels_of_def)

lemma lines_ok_grow:
  "lines_ok (grow a q t) \<longleftrightarrow> lines_ok (q @ [t]) \<and> names_apart (grow a q t) \<and> parties_agree (grow a q t) \<and>
     (a_kind a = Label \<longrightarrow> a_label a \<notin> set (labels_of t))"
  unfolding lines_ok_def by (auto simp: names_apart_grow parties_agree_grow)

lemma lines_ok_open: "lines_ok (q @ [[]]) \<longleftrightarrow> lines_ok q"
  by (simp add: lines_ok_def names_apart_def names_open parties_agree_def labels_of_def)

text \<open>The checks of one action are those of the grown program.\<close>

lemma tracks_entry:
  assumes "tracks ps" "b \<in> set (concat (ps_program ps))" "a_kind b = BarrierWait"
  shows "map_option snd (mlookup (ps_barriers ps) (a_barrier b)) = Some (a_parties b)"
  using assms(1) [unfolded tracks_def] assms(2,3) by blast

lemma barriers_inI: "b \<in> set (concat p) \<Longrightarrow> a_kind b = BarrierWait \<Longrightarrow> a_barrier b \<in> barriers_in p"
  by (auto simp: barriers_in_def)

lemma tracks_parties:
  assumes "tracks ps" "uses_barrier a"
  shows "map_option snd (mlookup (ps_barriers ps) (a_barrier a)) \<in> {None, Some (a_parties a)} \<longleftrightarrow>
     (\<forall>b\<in>set (concat (ps_program ps)). a_kind b = BarrierWait \<and> a_barrier b = a_barrier a \<longrightarrow>
        a_parties b = a_parties a)"
proof (cases "a_barrier a \<in> barriers_in (ps_program ps)")
  case True
  then obtain b where "b \<in> {a \<in> set (concat (ps_program ps)). a_kind a = BarrierWait}"
      "a_barrier a = a_barrier b"
    unfolding barriers_in_def by (rule imageE)
  then have b: "b \<in> set (concat (ps_program ps))" "a_kind b = BarrierWait" "a_barrier b = a_barrier a"
    by (simp_all del: set_concat)
  note all = tracks_entry [OF assms(1)]
  have lookup: "map_option snd (mlookup (ps_barriers ps) (a_barrier a)) = Some (a_parties b)"
    using all [OF b(1,2)] b(3) by simp
  have same: "a_parties c = a_parties b"
    if "c \<in> set (concat (ps_program ps))" "a_kind c = BarrierWait \<and> a_barrier c = a_barrier a" for c
    using all [OF that(1)] lookup that(2) by simp
  show ?thesis
  proof
    assume "map_option snd (mlookup (ps_barriers ps) (a_barrier a)) \<in> {None, Some (a_parties a)}"
    then have "a_parties b = a_parties a" by (simp add: lookup)
    then show "\<forall>c\<in>set (concat (ps_program ps)). a_kind c = BarrierWait \<and> a_barrier c = a_barrier a \<longrightarrow>
        a_parties c = a_parties a" using same by metis
  next
    assume "\<forall>c\<in>set (concat (ps_program ps)). a_kind c = BarrierWait \<and> a_barrier c = a_barrier a \<longrightarrow>
        a_parties c = a_parties a"
    then have "a_parties b = a_parties a" using b by blast
    then show "map_option snd (mlookup (ps_barriers ps) (a_barrier a)) \<in> {None, Some (a_parties a)}"
      by (simp add: lookup)
  qed
next
  case False
  then have "mlookup (ps_barriers ps) (a_barrier a) = None"
    using assms(1) by (simp add: known_None tracks_def)
  moreover have "a_barrier b \<noteq> a_barrier a"
    if "b \<in> set (concat (ps_program ps))" "a_kind b = BarrierWait" for b
    using False barriers_inI [OF that] by metis
  ultimately show ?thesis by (auto simp del: set_concat)
qed

lemma fresh_iff_lines_ok:
  assumes "tracks ps" "ps_program ps = q @ [t]"
  shows "fresh_names (length q) a ps \<longleftrightarrow> lines_ok (grow a q t)"
proof -
  have "length (ps_labels ps) = length (ps_program ps)"
    using assms(1) by (metis tracks_def length_map)
  then have "known (ps_labels ps ! length q) = set (labels_of t)"
    using assms by (auto simp: tracks_def nth_append dest!: arg_cong [of _ _ "\<lambda>xs. xs ! length q"])
  then have label: "a_label a \<notin> known (ps_labels ps ! length q) \<longleftrightarrow> a_label a \<notin> set (labels_of t)"
    by simp
  have lines: "names_apart (q @ [t])" "parties_agree (q @ [t])" "lines_ok (q @ [t])"
    using assms by (simp_all add: tracks_def lines_ok_def)
  have sets: "known (ps_mutexes ps) = mutexes_in (q @ [t])" "known (ps_rwlocks ps) = rwlocks_in (q @ [t])"
      "known (ps_semaphores ps) = semaphores_in (q @ [t])" "known (ps_conditions ps) = conditions_in (q @ [t])"
      "known (ps_barriers ps) = barriers_in (q @ [t])"
    using assms by (simp_all add: tracks_def)
  define same where "same \<longleftrightarrow> (\<forall>b\<in>set (concat (q @ [t])).
      a_kind b = BarrierWait \<and> a_barrier b = a_barrier a \<longrightarrow> a_parties b = a_parties a)"
  define entry where "entry \<longleftrightarrow>
      map_option snd (mlookup (ps_barriers ps) (a_barrier a)) \<in> {None, Some (a_parties a)}"
  have parties: "uses_barrier a \<Longrightarrow> entry \<longleftrightarrow> same"
    using tracks_parties [OF assms(1), of a] unfolding entry_def same_def assms(2) .
  show ?thesis
    unfolding lines_ok_grow names_apart_grow parties_agree_grow fresh_names_def sets label
      same_def [symmetric] entry_def [symmetric]
    using lines parties by argo
qed


text \<open>The loop keeps the relation.\<close>

lemma tracks_start: "tracks start_parsing"
  by (simp add: tracks_def start_parsing_def mutexes_in_def rwlocks_in_def semaphores_in_def
      conditions_in_def barriers_in_def joins_of_def spawns_of_def branches_of_def lines_ok_def
      names_apart_def parties_agree_def)

lemma tracks_add_thread:
  assumes "tracks ps"
  shows "tracks (add_thread ps)" "ps_program (add_thread ps) = ps_program ps @ [[]]"
  using assms
  by (simp_all add: tracks_def add_thread_def names_open lines_ok_open joins_of_def spawns_of_def
      branches_of_def labels_of_def)

lemma list_update_last [simp]: "(xs @ [x])[length xs := y] = xs @ [y]"
  by (simp add: list_update_append)

lemma tracks_barriers_grow:
  assumes "tracks ps" "ps_program ps = q @ [t]" "fresh_names (length q) a ps" "uses_barrier a"
    and "b \<in> set (concat (grow a q t))" "a_kind b = BarrierWait"
  shows "map_option snd (mlookup (memplace (a_barrier a) (line, a_parties a) (ps_barriers ps)) (a_barrier b)) =
    Some (a_parties b)"
proof (cases "b = a")
  case True
  have "map_option snd (mlookup (ps_barriers ps) (a_barrier a)) \<in> {None, Some (a_parties a)}"
    using assms(3,4) by (simp add: fresh_names_def)
  then show ?thesis using True by (auto simp: mget_def split: option.splits)
next
  case False
  then have "b \<in> set (concat (ps_program ps))" using assms(2,5) by auto
  then have "map_option snd (mlookup (ps_barriers ps) (a_barrier b)) = Some (a_parties b)"
    by (rule tracks_entry [OF assms(1) _ assms(6)])
  then show ?thesis by (auto simp: mget_def split: option.splits)
qed

lemma tracks_note_action:
  assumes "tracks ps" "ps_program ps = q @ [t]" "fresh_names (length q) a ps"
  shows "line \<noteq> 0 \<Longrightarrow> tracks (note_action line (length q) a ps)"
    "ps_program (note_action line (length q) a ps) = grow a q t"
proof -
  show program: "ps_program (note_action line (length q) a ps) = grow a q t"
    by (simp add: note_action_def assms(2))
  have labels: "length (ps_labels ps) = Suc (length q)" "map known (ps_labels ps) =
      map (\<lambda>thread. set (labels_of thread)) (q @ [t])"
    using assms(1,2) by (auto simp: tracks_def dest: arg_cong [of _ _ length])
  then obtain ls l where ls: "ps_labels ps = ls @ [l]" "length ls = length q"
    by (metis length_Suc_conv_rev)
  have barriers: "\<forall>b\<in>set (concat (grow a q t)). a_kind b = BarrierWait \<longrightarrow>
      map_option snd (mlookup (ps_barriers (note_action line (length q) a ps)) (a_barrier b)) =
        Some (a_parties b)"
  proof (intro ballI impI)
    fix b assume b: "b \<in> set (concat (grow a q t))" "a_kind b = BarrierWait"
    show "map_option snd (mlookup (ps_barriers (note_action line (length q) a ps)) (a_barrier b)) =
        Some (a_parties b)"
    proof (cases "uses_barrier a")
      case True
      then show ?thesis using tracks_barriers_grow [OF assms True b] by (simp add: note_action_def)
    next
      case False
      then have "b \<noteq> a" using b(2) by (auto simp: uses_barrier_def)
      then have "b \<in> set (concat (ps_program ps))" using b(1) assms(2) by auto
      then show ?thesis using tracks_entry [OF assms(1) _ b(2)] False by (simp add: note_action_def del: set_concat)
    qed
  qed
  have lines: "lines_ok (grow a q t)" using fresh_iff_lines_ok [OF assms(1,2)] assms(3) by simp
  show "tracks (note_action line (length q) a ps)" if "line \<noteq> 0"
    unfolding tracks_def program
    using assms(1) that barriers lines ls(1) labels(2)
    by (simp add: tracks_def note_action_def names_grow assms(2) joins_of_def spawns_of_def branches_of_def
        ls(2) [symmetric] nth_append list_update_append del: set_concat)
qed


text \<open>A line changes nothing, opens a thread, or adds an action to the last one.\<close>

definition line_words :: "string \<Rightarrow> string list" where
  "line_words line = split_words (strip_comment line)"

lemma line_words_tokens: "list_all token (line_words line)"
  using words_are_tokens [OF strip_comment_clean, of line] by (simp add: line_words_def list_all_iff)

lemma parse_line_words:
  "parse_line (n, line) ps =
     (if line_words line = [] then Inr ps
      else if hd (line_words line) = ''thread:'' then
        (if length (line_words line) \<noteq> 1
         then Inl (Parse_Error n ''thread declaration takes no operands'') else Inr (add_thread ps))
      else case ps_current ps of
          None \<Rightarrow> Inl (Parse_Error n ''action appears before first thread declaration'')
        | Some current \<Rightarrow> res_bind (parse_action (line_words line) n) (\<lambda>a. add_action n current a ps))"
proof -
  have "trim (strip_comment line) = [] \<Longrightarrow> line_words line = []"
    using split_words_trim [of "strip_comment line"] by (simp add: line_words_def)
  then show ?thesis
    unfolding parse_line_def Let_def fst_conv snd_conv split_words_trim line_words_def by simp
qed

definition sound :: "parser_state \<Rightarrow> bool" where
  "sound ps \<longleftrightarrow> tracks ps \<and> list_all (list_all source_action) (ps_program ps)"

lemma tracks_current:
  assumes "tracks ps" "ps_current ps = Some current"
  obtains q t where "ps_program ps = q @ [t]" "current = length q"
  using assms by (cases "ps_program ps" rule: rev_cases) (auto simp: tracks_def)

lemma parse_line_sound:
  assumes "parse_line (n, line) ps = Inr ps'" "sound ps" "n \<noteq> 0"
  shows "sound ps'"
proof -
  consider "ps' = ps" | "ps' = add_thread ps"
    | (act) current a where "ps_current ps = Some current" "line_words line \<noteq> []"
        "parse_action (line_words line) n = Inr a" "add_action n current a ps = Inr ps'"
    using assms(1) unfolding parse_line_words
    by (auto simp: res_simps split: if_splits option.splits)
  then show ?thesis
  proof cases
    case act
    from tracks_current [OF _ act(1)] assms(2)
    obtain q t where q: "ps_program ps = q @ [t]" "current = length q" by (auto simp: sound_def)
    have "source_action a" using parse_action_source [OF act(3) line_words_tokens act(2)] .
    moreover have "fresh_names (length q) a ps" "ps' = note_action n (length q) a ps"
      using act(4) q(2) by (simp_all add: add_action_Inr)
    ultimately show ?thesis
      using tracks_note_action [of ps q t a n] assms(2,3) q(1) by (simp add: sound_def)
  qed (use assms(2) tracks_add_thread [of ps] in \<open>simp_all add: sound_def\<close>)
qed

lemma parse_lines_sound:
  assumes "res_fold parse_line (enumerate 1 ls) start_parsing = Inr ps"
  shows "sound ps"
proof (rule res_fold_invariant [OF assms, where I = sound])
  show "sound start_parsing" using tracks_start by (simp add: sound_def) (simp add: start_parsing_def)
  fix x a b
  assume "x \<in> set (enumerate 1 ls)" "sound a" "parse_line x a = Inr b"
  then show "sound b" using parse_line_sound [of "fst x" "snd x" a b] by (auto simp: in_set_enumerate_eq)
qed

section \<open>The checks after the last line\<close>

lemma res_fold_unit:
  "res_fold f xs () = Inr u \<longleftrightarrow> list_all (\<lambda>x. f x () = Inr ()) xs"
proof (induction xs)
  case (Cons x xs)
  then show ?case by (auto simp: res_bind_eq_Inr)
qed simp

lemma res_fold_spawns:
  assumes "list_all (\<lambda>s. sp_line s \<noteq> 0) ss" "length first = length p"
  shows "(\<exists>first'. res_fold (check_spawn p) ss first = Inr first') \<longleftrightarrow>
    list_all (\<lambda>s. sp_target s < length p \<and> sp_target s \<noteq> sp_source s \<and> first ! sp_target s = 0) ss \<and>
    distinct (map sp_target ss)"
  using assms
proof (induction ss arbitrary: first)
  case (Cons s ss)
  have "(\<exists>first'. res_fold (check_spawn p) (s # ss) first = Inr first') \<longleftrightarrow>
      sp_target s < length p \<and> sp_target s \<noteq> sp_source s \<and> first ! sp_target s = 0 \<and>
      (\<exists>first'. res_fold (check_spawn p) ss (first[sp_target s := sp_line s]) = Inr first')"
    by (auto simp: res_bind_eq_Inr check_spawn_def Let_def split: if_splits)
  also have "\<dots> \<longleftrightarrow> sp_target s < length p \<and> sp_target s \<noteq> sp_source s \<and> first ! sp_target s = 0 \<and>
      list_all (\<lambda>r. sp_target r < length p \<and> sp_target r \<noteq> sp_source r \<and>
        first[sp_target s := sp_line s] ! sp_target r = 0) ss \<and> distinct (map sp_target ss)"
    using Cons by simp
  also have "\<dots> \<longleftrightarrow> list_all (\<lambda>r. sp_target r < length p \<and> sp_target r \<noteq> sp_source r \<and>
      first ! sp_target r = 0) (s # ss) \<and> distinct (map sp_target (s # ss))"
    using Cons.prems by (auto simp: list_all_iff nth_list_update image_iff split: if_splits)
  finally show ?case .
qed simp

lemma finish_parsing_Inr:
  assumes "tracks ps"
  shows "finish_parsing ps = Inr p \<longleftrightarrow> p = ps_program ps \<and> p \<noteq> [] \<and> references_ok p"
proof -
  let ?p = "ps_program ps"
  have joins: "res_fold (check_join ?p) (ps_joins ps) () = Inr u \<longleftrightarrow>
      list_all (\<lambda>t. t < length ?p) (joins_of ?p)" for u
  proof -
    have "joins_of ?p = map snd (ps_joins ps)" using assms by (simp add: tracks_def)
    then show ?thesis by (auto simp: res_fold_unit check_join_def list_all_iff not_le split: if_splits)
  qed
  have known: "mlookup (ps_labels ps ! i) l \<noteq> None \<longleftrightarrow> l \<in> set (labels_of (?p ! i))" if "i < length ?p" for i l
  proof -
    have len: "length (ps_labels ps) = length ?p" using assms by (metis tracks_def length_map)
    have "map known (ps_labels ps) ! i = map (\<lambda>t. set (labels_of t)) ?p ! i" using assms by (simp add: tracks_def)
    then show ?thesis using that len by (simp add: known_None)
  qed
  have sources: "list_all (\<lambda>(i, l). i < length ?p) (by_thread sel f ?p)" for sel and f :: "action \<Rightarrow> 'a"
    by (auto simp: by_thread_def list_all_iff in_set_enumerate_eq)
  have branches: "res_fold (check_branch (ps_labels ps)) (ps_branches ps) () = Inr u \<longleftrightarrow>
      list_all (\<lambda>(i, l). l \<in> set (labels_of (?p ! i))) (branches_of ?p)" for u
  proof -
    have b: "branches_of ?p = map (\<lambda>b. (br_source b, br_label b)) (ps_branches ps)"
      using assms by (simp add: tracks_def)
    have "list_all (\<lambda>b. br_source b < length ?p) (ps_branches ps)"
      using sources [of "\<lambda>a. a_kind a = BranchNonzero" a_label] b
      by (simp add: branches_of_def [symmetric] list_all_iff)
    then show ?thesis
      using known b by (auto simp: res_fold_unit check_branch_def list_all_iff split: if_splits)
  qed
  have spawns: "(\<exists>first'. res_fold (check_spawn ?p) (ps_spawns ps) (replicate (length ?p) 0) = Inr first') \<longleftrightarrow>
      list_all (\<lambda>(i, t). t < length ?p \<and> t \<noteq> i) (spawns_of ?p) \<and> distinct (map snd (spawns_of ?p))"
  proof -
    have s: "spawns_of ?p = map (\<lambda>s. (sp_source s, sp_target s)) (ps_spawns ps)"
      using assms by (simp add: tracks_def)
    have "map snd (spawns_of ?p) = map sp_target (ps_spawns ps)" by (simp add: s)
    then show ?thesis
      using res_fold_spawns [of "ps_spawns ps" "replicate (length ?p) 0" ?p] assms
      by (auto simp: s tracks_def list_all_iff comp_def)
  qed
  show ?thesis
    unfolding finish_parsing_def Let_def references_ok_def
    using joins branches spawns by (auto simp: res_simps)
qed

lemma parse_program_sound:
  assumes "parse_program_text text = Inr p"
  shows "program_ok p"
proof -
  obtain ps where ps: "res_fold parse_line (enumerate 1 (get_lines text)) start_parsing = Inr ps"
      "finish_parsing ps = Inr p"
    using assms by (auto simp: parse_program_text_def res_simps)
  then have "sound ps" by (auto intro: parse_lines_sound)
  then show ?thesis
    using finish_parsing_Inr [of ps p] ps(2) by (auto simp: sound_def program_ok_def tracks_def)
qed


section \<open>Printed programs are read back\<close>

lemma lines_ok_prefix: "lines_ok (q @ [t @ acts]) \<Longrightarrow> lines_ok (q @ [t])"
proof (induction acts rule: rev_induct)
  case (snoc a acts)
  then show ?case using lines_ok_grow [of q "t @ acts" a] by simp
qed simp

lemma lines_ok_threads: "lines_ok (q @ ts) \<Longrightarrow> lines_ok q"
proof (induction ts rule: rev_induct)
  case (snoc t ts)
  then have "lines_ok ((q @ ts) @ [[] @ t])" by simp
  then show ?case using lines_ok_prefix lines_ok_open snoc.IH by blast
qed simp

lemma line_words_action:
  assumes "source_action a"
  shows "line_words (''  '' @ action_text a) = action_words a"
proof -
  note plain = unwords_plain [OF action_words_tokens [OF assms]]
  have "strip_comment (''  '' @ action_text a) = ''  '' @ action_text a"
    using plain by (intro strip_comment_id) (simp add: action_text_words)
  then show ?thesis
    using action_words_tokens [OF assms]
    by (simp add: line_words_def action_text_words is_space_def is_blank_def)
qed

lemma parse_line_action:
  assumes "tracks ps" "ps_program ps = q @ [t]" "source_action a" "lines_ok (grow a q t)"
  shows "parse_line (n, ''  '' @ action_text a) ps = Inr (note_action n (length q) a ps)"
proof -
  have "ps_current ps = Some (length q)" using assms(1,2) by (simp add: tracks_def)
  then show ?thesis
    using action_words_keyword [OF assms(3)] reparse_action [OF assms(3), of n]
      fresh_iff_lines_ok [OF assms(1,2), of a] assms(4)
    unfolding parse_line_words line_words_action [OF assms(3)] by (simp add: add_action_Inr)
qed

lemma parse_actions:
  assumes "tracks ps" "ps_program ps = q @ [t]" "list_all source_action acts" "lines_ok (q @ [t @ acts])" "n \<noteq> 0"
  shows "\<exists>ps'. res_fold parse_line (enumerate n (map (\<lambda>a. ''  '' @ action_text a) acts)) ps = Inr ps' \<and>
    tracks ps' \<and> ps_program ps' = q @ [t @ acts]"
  using assms
proof (induction acts arbitrary: ps t n)
  case (Cons a acts)
  have grow: "lines_ok (grow a q t)" using lines_ok_prefix [of q "t @ [a]" acts] Cons.prems(4) by simp
  have line: "parse_line (n, ''  '' @ action_text a) ps = Inr (note_action n (length q) a ps)"
    using parse_line_action [OF Cons.prems(1,2) _ grow] Cons.prems(3) by simp
  have "fresh_names (length q) a ps" using fresh_iff_lines_ok [OF Cons.prems(1,2)] grow by simp
  note noted = tracks_note_action [OF Cons.prems(1,2) this]
  show ?case
    using Cons.IH [OF noted(1) noted(2), of n "Suc n"] Cons.prems line by simp
qed simp

lemma parse_threads:
  assumes "tracks ps" "list_all (list_all source_action) ts" "lines_ok (ps_program ps @ ts)" "n \<noteq> 0"
  shows "\<exists>ps'. res_fold parse_line (enumerate n (concat (map (\<lambda>t. ''thread:'' #
      map (\<lambda>a. ''  '' @ action_text a) t) ts))) ps = Inr ps' \<and>
    tracks ps' \<and> ps_program ps' = ps_program ps @ ts"
  using assms
proof (induction ts arbitrary: ps n)
  case (Cons t ts)
  let ?lines = "\<lambda>t. map (\<lambda>a. ''  '' @ action_text a) t"
  note thread = tracks_add_thread [OF Cons.prems(1)]
  have words: "line_words ''thread:'' = [''thread:'']" by code_simp
  have line: "parse_line (n, ''thread:'') ps = Inr (add_thread ps)" by (simp add: parse_line_words words)
  have "lines_ok ((ps_program ps @ [t]) @ ts)" using Cons.prems(3) by simp
  then have "lines_ok (ps_program ps @ [[] @ t])" using lines_ok_threads by fastforce
  from parse_actions [OF thread _ this, of "Suc n"] Cons.prems(2)
  obtain ps1 where ps1: "res_fold parse_line (enumerate (Suc n) (?lines t)) (add_thread ps) = Inr ps1"
      "tracks ps1" "ps_program ps1 = ps_program ps @ [t]" by auto
  show ?case
    using Cons.IH [OF ps1(2), of "Suc n + length t"] Cons.prems ps1
    by (simp add: line enumerate_append_eq res_fold_append)
qed simp

lemma get_lines_render:
  assumes "list_all (list_all source_action) p"
  shows "get_lines (render_program p) =
    concat (map (\<lambda>t. ''thread:'' # map (\<lambda>a. ''  '' @ action_text a) t) p)"
proof -
  have action: "get_lines (''  '' @ action_text a @ CHR 0x0A # rest) = (''  '' @ action_text a) # get_lines rest"
    if "source_action a" for a rest
  proof -
    have "list_all (\<lambda>c. c \<noteq> CHR 0x0A) (''  '' @ action_text a)"
      using unwords_plain [OF action_words_tokens [OF that]] by (simp add: action_text_words)
    from get_lines_line [OF this] show ?thesis by (simp only: append_assoc)
  qed
  have actions: "get_lines (concat (map (\<lambda>a. ''  '' @ action_text a @ [CHR 0x0A]) acts) @ rest) =
      map (\<lambda>a. ''  '' @ action_text a) acts @ get_lines rest" if "list_all source_action acts" for acts rest
    using that
  proof (induction acts)
    case (Cons a acts)
    then show ?case using action [of a] by (simp del: get_lines_line)
  qed simp
  show ?thesis
    using assms
  proof (induction p)
    case (Cons t p)
    have "get_lines (render_program (t # p)) = get_lines (''thread:'' @ CHR 0x0A #
        concat (map (\<lambda>a. ''  '' @ action_text a @ [CHR 0x0A]) t) @ render_program p)"
      by (simp add: render_program_def render_thread_def)
    also have "\<dots> = ''thread:'' # map (\<lambda>a. ''  '' @ action_text a) t @ get_lines (render_program p)"
      using actions [of t "render_program p"] Cons.prems by (subst get_lines_line) simp_all
    finally show ?case using Cons by simp
  qed (simp add: render_program_def)
qed

lemma parse_render_program:
  assumes "program_ok p"
  shows "parse_program_text (render_program p) = Inr p"
proof -
  have ok: "list_all (list_all source_action) p" "lines_ok p" "references_ok p" "p \<noteq> []"
    using assms by (simp_all add: program_ok_def)
  have "ps_program start_parsing = []" by (simp add: start_parsing_def)
  with parse_threads [OF tracks_start ok(1), of 1] ok(2)
  obtain ps where "res_fold parse_line (enumerate 1 (get_lines (render_program p))) start_parsing = Inr ps"
      "tracks ps" "ps_program ps = p"
    by (auto simp: get_lines_render [OF ok(1)])
  then show ?thesis
    using finish_parsing_Inr [of ps p] ok by (simp add: parse_program_text_def)
qed

lemma parse_program_exact: "program_ok p \<longleftrightarrow> parse_program_text (render_program p) = Inr p"
  using parse_program_sound parse_render_program by blast

end
