(* ===== verification/Parser_Errors.thy ===== *)
theory Parser_Errors
  imports Parser_Correct
begin

text \<open>
  How parsing fails, and what a parsed program may rely on. Every exception of a parser is a
  \<open>ParseError\<close> that names a line of the file, or line 0 when the file declares no thread. The
  last section reads back the schedules that reports print.
\<close>

section \<open>Exceptions name their line\<close>

definition fails_at :: "nat \<Rightarrow> 'a res \<Rightarrow> bool" where
  "fails_at n m \<longleftrightarrow> (\<forall>e. m = Inl e \<longrightarrow> (\<exists>msg. e = Parse_Error n msg))"

named_theorems fails_at_intros \<open>when a computation fails only at a line\<close>

lemma fails_at_basic [fails_at_intros]:
  "fails_at n (Inr x)" "fails_at n (Inl (Parse_Error n msg))"
  by (simp_all add: fails_at_def)

lemma fails_at_bind [fails_at_intros]:
  "fails_at n m \<Longrightarrow> (\<And>x. fails_at n (f x)) \<Longrightarrow> fails_at n (res_bind m f)"
  by (cases m) (auto simp: fails_at_def)

lemma fails_at_if [fails_at_intros]:
  "fails_at n m \<Longrightarrow> fails_at n k \<Longrightarrow> fails_at n (if b then m else k)"
  by simp

lemma fails_at_option [fails_at_intros]:
  "fails_at n m \<Longrightarrow> (\<And>x. fails_at n (f x)) \<Longrightarrow> fails_at n (case x of None \<Rightarrow> m | Some y \<Rightarrow> f y)"
  by (simp split: option.split)

lemma fails_at_pair [fails_at_intros]:
  "(\<And>x y. fails_at n (f x y)) \<Longrightarrow> fails_at n (case z of (x, y) \<Rightarrow> f x y)"
  by (simp split: prod.split)

lemma fails_at_arity [fails_at_intros]:
  "fails_at n rest \<Longrightarrow> fails_at n (require_arity words k n keyword rest)"
  unfolding require_arity_def by (intro fails_at_intros)

lemma fails_at_u32 [fails_at_intros]: "fails_at n (parse_u32_token tok n d)"
proof -
  have "fails_at n (u32_from tok n d v cs)" for v cs
    by (induction cs arbitrary: v) (auto simp: Let_def intro: fails_at_intros)
  then show ?thesis unfolding parse_u32_token_def by (intro fails_at_intros)
qed

lemma fails_at_operands [fails_at_intros]:
  "fails_at n (parse_i64_token tok n d)"
  "fails_at n (parse_register_token tok n d)"
  "fails_at n (parse_value_operand tok n)"
proof -
  show i64: "fails_at n (parse_i64_token tok n d)" for tok d
    by (auto simp: fails_at_def parse_i64_token_def split: sum.splits exn.splits prod.splits if_splits)
  show reg: "fails_at n (parse_register_token tok n d)" for tok d
    unfolding parse_register_token_def by (intro fails_at_intros)
  show "fails_at n (parse_value_operand tok n)"
    unfolding parse_value_operand_def by (intro fails_at_intros i64 reg)
qed

lemma fails_at_action [fails_at_intros]: "fails_at n (parse_action words n)"
  unfolding parse_action_def Let_def parse_named_def parse_target_def parse_load_def parse_store_def
    parse_rmw_def parse_cas_def parse_try_lock_def parse_timed_wait_def parse_barrier_wait_def
  by (intro fails_at_intros)

lemma fails_at_reject [fails_at_intros]:
  "fails_at n rest \<Longrightarrow> fails_at n (reject_use n name first_use line_of other this rest)"
  unfolding reject_use_def by (intro fails_at_intros)

lemma fails_at_add_action [fails_at_intros]: "fails_at n (add_action n current a ps)"
  unfolding add_action_def note_mutex_def note_rwlock_def note_semaphore_def note_condition_def
    note_barrier_def note_reference_def
  by (intro fails_at_intros)

lemma fails_at_line: "fails_at n (parse_line (n, line) ps)"
  unfolding parse_line_words by (intro fails_at_intros)

text \<open>A loop fails in one of its iterations, in a state that the iterations before it keep.\<close>

lemma res_fold_fails:
  assumes "res_fold f xs s = Inl e" "I s"
    and "\<And>x a b. x \<in> set xs \<Longrightarrow> I a \<Longrightarrow> f x a = Inr b \<Longrightarrow> I b"
  shows "\<exists>x\<in>set xs. \<exists>a. I a \<and> f x a = Inl e"
  using assms
proof (induction xs arbitrary: s)
  case (Cons x xs)
  show ?case
  proof (cases "f x s")
    case (Inl e')
    then show ?thesis using Cons.prems(1,2) by auto
  next
    case (Inr a)
    have "I a" by (rule Cons.prems(3) [OF _ Cons.prems(2) Inr]) simp
    have fails: "res_fold f xs a = Inl e" using Cons.prems(1) Inr by simp
    have keep: "I d" if "y \<in> set xs" "I c" "f y c = Inr d" for y c d
      by (rule Cons.prems(3) [OF _ that(2,3)]) (simp add: that(1))
    have "\<exists>y\<in>set xs. \<exists>b. I b \<and> f y b = Inl e" using fails \<open>I a\<close> keep by (rule Cons.IH)
    then show ?thesis by simp
  qed
qed simp

text \<open>The lines that the references keep are lines of the file.\<close>

definition lines_within :: "nat \<Rightarrow> parser_state \<Rightarrow> bool" where
  "lines_within k ps \<longleftrightarrow>
     list_all (\<lambda>j. 1 \<le> fst j \<and> fst j \<le> k) (ps_joins ps) \<and>
     list_all (\<lambda>b. 1 \<le> br_line b \<and> br_line b \<le> k) (ps_branches ps) \<and>
     list_all (\<lambda>s. 1 \<le> sp_line s \<and> sp_line s \<le> k) (ps_spawns ps)"

lemma lines_within_step:
  assumes "parse_line (n, line) ps = Inr ps'" "lines_within k ps" "1 \<le> n" "n \<le> k"
  shows "lines_within k ps'"
proof -
  consider "ps' = ps" | "ps' = add_thread ps" | current a where "ps' = note_action n current a ps"
    using assms(1) unfolding parse_line_words
    by (auto simp: res_simps add_action_Inr split: if_splits option.splits)
  then show ?thesis
    using assms(2-4) by cases (simp_all add: note_action_def add_thread_def lines_within_def)
qed

lemma parse_program_fails:
  assumes "parse_program_text text = Inl e"
  shows "\<exists>n msg. e = Parse_Error n msg \<and> n \<le> length (get_lines text) \<and>
    (n = 0 \<longrightarrow> msg = ''program declares no threads'')"
proof -
  let ?k = "length (get_lines text)" and ?xs = "enumerate 1 (get_lines text)"
  have range: "1 \<le> fst x \<and> fst x \<le> ?k" if "x \<in> set ?xs" for x
    using that by (auto simp: in_set_enumerate_eq)
  have start: "lines_within ?k start_parsing" by (simp add: lines_within_def start_parsing_def)
  have step: "lines_within ?k b" if "x \<in> set ?xs" "lines_within ?k a" "parse_line x a = Inr b" for x a b
    using lines_within_step [of "fst x" "snd x" a b ?k] range [OF that(1)] that by simp
  have line: "\<exists>msg. e = Parse_Error n msg" if "fails_at n m" "m = Inl e" for n m
    using that by (simp add: fails_at_def)
  show ?thesis
  proof (cases "res_fold parse_line ?xs start_parsing")
    case (Inl e')
    then have "\<exists>x\<in>set ?xs. \<exists>a. lines_within ?k a \<and> parse_line x a = Inl e'"
      using start step by (rule res_fold_fails)
    moreover have "e' = e" using assms Inl by (simp add: parse_program_text_def)
    ultimately obtain x a where x: "x \<in> set ?xs" "parse_line x a = Inl e" by blast
    from line [OF fails_at_line, of "fst x" "snd x" a] x(2)
    obtain msg where "e = Parse_Error (fst x) msg" by auto
    then show ?thesis using range [OF x(1)] by auto
  next
    case (Inr ps)
    have within: "lines_within ?k ps" using Inr start step by (rule res_fold_invariant)
    have finish: "finish_parsing ps = Inl e" using assms Inr by (simp add: parse_program_text_def)
    have empty: ?thesis if "ps_program ps = []" using finish that by (auto simp: finish_parsing_def)
    have at: ?thesis if "fails_at n m" "m = Inl e" "1 \<le> n" "n \<le> ?k" for n m
      using line [OF that(1,2)] that(3,4) by auto
    show ?thesis
    proof (cases "ps_program ps = []")
      case False
      then consider "res_fold (check_join (ps_program ps)) (ps_joins ps) () = Inl e"
        | "res_fold (check_branch (ps_labels ps)) (ps_branches ps) () = Inl e"
        | "res_fold (check_spawn (ps_program ps)) (ps_spawns ps) (replicate (length (ps_program ps)) 0) = Inl e"
        using finish by (auto simp: finish_parsing_def Let_def res_bind_def split: if_splits sum.splits)
      then show ?thesis
      proof cases
        case 1
        from res_fold_fails [OF this, of "\<lambda>_. True"]
        obtain x where "x \<in> set (ps_joins ps)" "check_join (ps_program ps) x () = Inl e" by auto
        moreover have "fails_at (fst x) (check_join (ps_program ps) x ())" for x
          unfolding check_join_def by (intro fails_at_intros)
        moreover have "1 \<le> fst x \<and> fst x \<le> ?k" using within \<open>x \<in> set (ps_joins ps)\<close>
          by (auto simp: lines_within_def list_all_iff)
        ultimately show ?thesis using at [of "fst x" "check_join (ps_program ps) x ()"] by blast
      next
        case 2
        from res_fold_fails [OF this, of "\<lambda>_. True"]
        obtain x where "x \<in> set (ps_branches ps)" "check_branch (ps_labels ps) x () = Inl e" by auto
        moreover have "fails_at (br_line x) (check_branch (ps_labels ps) x ())" for x
          unfolding check_branch_def by (intro fails_at_intros)
        moreover have "1 \<le> br_line x \<and> br_line x \<le> ?k" using within \<open>x \<in> set (ps_branches ps)\<close>
          by (auto simp: lines_within_def list_all_iff)
        ultimately show ?thesis using at [of "br_line x" "check_branch (ps_labels ps) x ()"] by blast
      next
        case 3
        from res_fold_fails [OF this, of "\<lambda>_. True"]
        obtain x f where "x \<in> set (ps_spawns ps)" "check_spawn (ps_program ps) x f = Inl e" by auto
        moreover have "fails_at (sp_line x) (check_spawn (ps_program ps) x f)" for x f
          unfolding check_spawn_def Let_def by (intro fails_at_intros)
        moreover have "1 \<le> sp_line x \<and> sp_line x \<le> ?k" using within \<open>x \<in> set (ps_spawns ps)\<close>
          by (auto simp: lines_within_def list_all_iff)
        ultimately show ?thesis using at [of "sp_line x" "check_spawn (ps_program ps) x f"] by blast
      qed
    qed (rule empty)
  qed
qed

section \<open>What a parsed program may rely on\<close>

lemma source_action_typed:
  assumes "source_action a"
  shows "action_registers_ok a" "a_kind a \<noteq> Flush" "a_kind a = BarrierWait \<Longrightarrow> 0 < a_parties a"
  using assms
  by (cases; auto simp: action_shapes action_registers_ok_def register_in_range_def operand_in_range_def
      valid_register_def operand_ok_def split: option.split value_operand.split)+

lemma resolve_label_declared:
  "l \<in> set (labels_of (p ! t)) \<Longrightarrow> resolve_label p t l \<noteq> None"
proof -
  have "l \<in> set (labels_of acts) \<Longrightarrow> label_index_from acts l i \<noteq> None" for acts i
    by (induction acts arbitrary: i) (auto simp: labels_of_def split: if_splits)
  then show "l \<in> set (labels_of (p ! t)) \<Longrightarrow> resolve_label p t l \<noteq> None"
    by (simp add: resolve_label_def)
qed

lemma by_thread_iff:
  "(i, y) \<in> set (by_thread sel f p) \<longleftrightarrow> i < length p \<and> (\<exists>a\<in>set (p ! i). sel a \<and> y = f a)"
proof -
  have "(i, y) \<in> set (by_thread sel f p) \<longleftrightarrow>
      (\<exists>j t. (j, t) \<in> set (enumerate 0 p) \<and> (\<exists>a\<in>set t. sel a \<and> i = j \<and> y = f a))"
    unfolding by_thread_def by (auto 0 4)
  then show ?thesis by (auto simp: in_set_enumerate_eq)
qed

lemma program_ok_typed:
  assumes "program_ok p"
  shows "registers_ok p" "source_kinds_ok p" "names_apart p"
    "\<forall>t<length p. \<forall>a\<in>set (p ! t).
       (a_kind a = BarrierWait \<longrightarrow> 0 < a_parties a) \<and>
       (a_kind a = Join \<longrightarrow> a_target a < length p) \<and>
       (a_kind a = Spawn \<longrightarrow> a_target a < length p \<and> a_target a \<noteq> t) \<and>
       (a_kind a = BranchNonzero \<longrightarrow> resolve_label p t (a_label a) \<noteq> None)"
proof -
  have src: "source_action a" if "t < length p" "a \<in> set (p ! t)" for t a
    using assms that nth_mem [OF that(1)] by (auto simp: program_ok_def list_all_iff)
  show "registers_ok p" "source_kinds_ok p"
    using assms source_action_typed
    by (auto simp: program_ok_def registers_ok_def source_kinds_ok_def list_all_iff)
  show "names_apart p" using assms by (simp add: program_ok_def lines_ok_def)
  have refs: "references_ok p" using assms by (simp add: program_ok_def)
  show "\<forall>t<length p. \<forall>a\<in>set (p ! t).
       (a_kind a = BarrierWait \<longrightarrow> 0 < a_parties a) \<and>
       (a_kind a = Join \<longrightarrow> a_target a < length p) \<and>
       (a_kind a = Spawn \<longrightarrow> a_target a < length p \<and> a_target a \<noteq> t) \<and>
       (a_kind a = BranchNonzero \<longrightarrow> resolve_label p t (a_label a) \<noteq> None)"
  proof (intro allI ballI impI)
    fix t a assume t: "t < length p" and a: "a \<in> set (p ! t)"
    have "a_target a \<in> set (joins_of p)" if "a_kind a = Join"
      using that nth_mem [OF t] a by (auto simp: joins_of_def)
    then have "a_kind a = Join \<Longrightarrow> a_target a < length p"
      using refs by (simp add: references_ok_def list_all_iff)
    moreover have "(t, a_target a) \<in> set (spawns_of p)" if "a_kind a = Spawn"
      using that t a by (auto simp: spawns_of_def by_thread_iff)
    then have "a_kind a = Spawn \<Longrightarrow> a_target a < length p \<and> a_target a \<noteq> t"
      using refs by (auto simp: references_ok_def list_all_iff)
    moreover have "(t, a_label a) \<in> set (branches_of p)" if "a_kind a = BranchNonzero"
      using that t a by (auto simp: branches_of_def by_thread_iff)
    then have "a_kind a = BranchNonzero \<Longrightarrow> resolve_label p t (a_label a) \<noteq> None"
      using refs resolve_label_declared by (fastforce simp: references_ok_def list_all_iff)
    ultimately show "(a_kind a = BarrierWait \<longrightarrow> 0 < a_parties a) \<and>
       (a_kind a = Join \<longrightarrow> a_target a < length p) \<and>
       (a_kind a = Spawn \<longrightarrow> a_target a < length p \<and> a_target a \<noteq> t) \<and>
       (a_kind a = BranchNonzero \<longrightarrow> resolve_label p t (a_label a) \<noteq> None)"
      using source_action_typed(3) [OF src [OF t a]] by blast
  qed
qed

end
