(* ===== verification/Report_Correct.thy ===== *)
theory Report_Correct
  imports Report Parser_Errors
begin

text \<open>
  What reports are worth. The report of an exploration or of a replay is printed to its end
  without an exception; the verdict names the first bug present and \<open>also_found\<close> the others; and
  the printed schedule is read back by the schedule parser, so that a replay of the printed text
  reproduces the bug.
\<close>

section \<open>The verdict\<close>

definition bug_kinds :: "check_result \<Rightarrow> string list" where
  "bug_kinds r =
     (if first_race r \<noteq> None then [''race''] else []) @
     (if first_deadlock r \<noteq> None then [''deadlock''] else []) @
     (if first_error r \<noteq> None then [''error''] else []) @
     (if first_assertion r \<noteq> None then [''assertion''] else []) @
     (if first_nontermination r \<noteq> None then [''nontermination''] else [])"

lemma has_bug_kinds: "has_bug r \<longleftrightarrow> bug_kinds r \<noteq> []"
  by (simp add: has_bug_def bug_kinds_def)

lemma verdict_also_found: "has_bug r \<Longrightarrow> bug_kinds r = verdict_of r # also_found r"
  by (cases "first_race r"; cases "first_deadlock r"; cases "first_error r";
      cases "first_assertion r"; cases "first_nontermination r";
      simp add: has_bug_def bug_kinds_def verdict_of_def also_found_def consider_bug_def)

lemma verdict_clean:
  "\<not> has_bug r \<Longrightarrow> verdict_of r = (if bound_exceeded_executions r > 0 then ''clean up to bound'' else ''clean'')"
  by (simp add: has_bug_def verdict_of_def)

lemma bug_schedule_present: "has_bug r \<longleftrightarrow> bug_schedule r \<noteq> None"
  by (auto simp: has_bug_def bug_schedule_def split: option.splits)

section \<open>Printed schedules are read back\<close>

definition step_in_range :: "schedule_step \<Rightarrow> bool" where
  "step_in_range x \<longleftrightarrow>
     s_thread x \<le> kMaxU32 \<and> s_index x \<le> kMaxU32 \<and> pred_option (\<lambda>f. f \<le> kMaxU32) (s_flush x)"

definition step_words :: "schedule_step \<Rightarrow> string list" where
  "step_words x = [nat_text (s_thread x), nat_text (s_index x)] @
     (case s_flush x of None \<Rightarrow> [] | Some f \<Rightarrow> [nat_text f])"

lemma step_words_tokens: "list_all token (step_words x)"
  by (simp add: step_words_def split: option.split)

lemma print_numeric_step_words:
  "print_numeric_step indentation x = indentation @ unwords (step_words x) @ endl"
  by (simp add: print_numeric_step_def step_words_def endl_def split: option.split)

lemma parse_schedule_line_words:
  assumes "line_words line = step_words x" "step_in_range x"
  shows "parse_schedule_line (n, line) sch = Inr (sch @ [x])"
proof -
  have words: "split_words (trim (strip_comment line)) = step_words x"
    using assms(1) by (simp add: line_words_def)
  moreover have "step_words x \<noteq> []" by (simp add: step_words_def)
  ultimately have "trim (strip_comment line) \<noteq> []" by (metis split_words_Nil)
  then show ?thesis
    using assms(2) unfolding parse_schedule_line_def Let_def fst_conv snd_conv words
    by (cases x) (auto simp: step_words_def step_in_range_def split: option.split)
qed

lemma line_words_step:
  "list_all is_space indentation \<Longrightarrow> line_words (indentation @ unwords (step_words x)) = step_words x"
proof -
  assume "list_all is_space indentation"
  then have blank: "list_all (\<lambda>c. c \<noteq> CHR 0x23) indentation"
    "split_words (indentation @ cs) = split_words cs" for cs
    by (induction indentation) (auto simp: is_space_def is_blank_def)
  have "strip_comment (indentation @ unwords (step_words x)) = indentation @ unwords (step_words x)"
    using unwords_plain [OF step_words_tokens] blank(1) by (intro strip_comment_id) simp
  then show ?thesis using blank(2) step_words_tokens by (simp add: line_words_def)
qed

lemma parse_printed_steps:
  assumes "list_all step_in_range xs"
  shows "res_fold parse_schedule_line
      (enumerate n (map (\<lambda>x. ''  '' @ unwords (step_words x)) xs)) sch = Inr (sch @ xs)"
  using assms
proof (induction xs arbitrary: n sch)
  case (Cons x xs)
  have "list_all is_space ''  ''" by code_simp
  from parse_schedule_line_words [OF line_words_step [OF this]] Cons show ?case by simp
qed simp

lemma get_lines_steps:
  "get_lines (concat (map (print_numeric_step ''  '') xs)) = map (\<lambda>x. ''  '' @ unwords (step_words x)) xs"
proof (induction xs)
  case (Cons x xs)
  have "list_all (\<lambda>c. c \<noteq> CHR 0x0A) (''  '' @ unwords (step_words x))"
    using unwords_plain [OF step_words_tokens] by simp
  from get_lines_line [OF this]
  have "get_lines (print_numeric_step ''  '' x @ cs) = (''  '' @ unwords (step_words x)) # get_lines cs" for cs
    by (simp only: print_numeric_step_words endl_def append_assoc append_Cons append_Nil)
  then show ?case using Cons by simp
qed simp

lemma parse_printed_schedule:
  assumes "list_all step_in_range sch"
  shows "parse_schedule_text (concat (map (print_numeric_step ''  '') sch)) = Inr sch"
  using parse_printed_steps [OF assms, of 1 "[]"] by (simp add: parse_schedule_text_def get_lines_steps)

section \<open>Reports are printed to their end\<close>

lemma and_then_ok: "snd (and_then a b) = None \<longleftrightarrow> snd a = None \<and> snd b = None"
  by (auto simp: and_then_def split: option.splits)

lemma prints_ok [simp]: "snd (prints s) = None"
  by (simp add: prints_def)

text \<open>Schedules whose every step is executed: what reports carry.\<close>

definition all_executed :: "program \<Rightarrow> memory_model \<Rightarrow> nat \<Rightarrow> schedule \<Rightarrow> bool" where
  "all_executed p m b sch \<longleftrightarrow>
     (\<exists>xs s h. start_walk p m b xs s h \<and>
        (sch = xs \<or> (\<exists>x\<in>set (enabled_steps p s).
           sch = xs @ [x] \<and> \<not> step_bound_reached s (s_thread x) b)))"

lemma laps_executed:
  assumes "laps p m b n"
  shows "all_executed p m b (nt_schedule n)"
proof -
  obtain xs x s h s' q k h' where w: "start_walk p m b xs s h" "\<not> step_bound_reached s (s_thread x) b"
      "x \<in> set (enabled_steps p s)"
    and x: "execute_enabled_step p s x = Inr (s', q)"
    and n: "make_nontermination_report p (st_schedule s') k (st_model s') = Inr n"
    using assms unfolding laps_def by blast
  have "nt_schedule n = st_schedule s'"
    using n by (auto simp: make_nontermination_report_def Let_def res_simps split: if_splits)
  then have "nt_schedule n = xs @ [x]"
    using execute_enabled_step_parts(1) [OF x] start_walk_schedule [OF w(1)] by simp
  then show ?thesis using w unfolding all_executed_def by blast
qed

lemma genuine_executed:
  assumes "genuine p m b r"
  shows "first_race r = Some c \<Longrightarrow> all_executed p m b (r_schedule c)"
    "first_deadlock r = Some dl \<Longrightarrow> all_executed p m b (dl_schedule dl)"
    "first_error r = Some e \<Longrightarrow> all_executed p m b (me_schedule e)"
    "first_assertion r = Some f \<Longrightarrow> all_executed p m b (af_schedule f)"
    "first_nontermination r = Some n \<Longrightarrow> all_executed p m b (nt_schedule n)"
proof -
  have offered: "all_executed p m b (xs @ [x])" if "offers p m b xs x s q" for xs x s q
    using that unfolding offers_def all_executed_def by blast
  show "all_executed p m b (r_schedule c)" if found: "first_race r = Some c"
  proof -
    obtain xs x s q where "offers p m b xs x s q" "sr_race q = Some c"
      using assms found unfolding genuine_def by blast
    then show ?thesis using offered offered_schedule(3) by metis
  qed
  show "all_executed p m b (dl_schedule dl)" if found: "first_deadlock r = Some dl"
  proof -
    obtain xs s h where w: "start_walk p m b xs s h" and dl: "make_deadlock_report p s = Inr dl"
      using assms found unfolding genuine_def deadlocks_def by blast
    then have "dl_schedule dl = xs"
      using start_walk_schedule [OF w] by (auto simp: make_deadlock_report_def res_simps)
    then show ?thesis using w unfolding all_executed_def by blast
  qed
  show "all_executed p m b (me_schedule e)" if found: "first_error r = Some e"
  proof -
    obtain xs x s q where "offers p m b xs x s q" "sr_error q = Some e"
      using assms found unfolding genuine_def by blast
    then show ?thesis using offered offered_schedule(1) by metis
  qed
  show "all_executed p m b (af_schedule f)" if found: "first_assertion r = Some f"
  proof -
    obtain xs x s q where "offers p m b xs x s q" "sr_assertion q = Some f"
      using assms found unfolding genuine_def by blast
    then show ?thesis using offered offered_schedule(2) by metis
  qed
  show "all_executed p m b (nt_schedule n)" if found: "first_nontermination r = Some n"
    using assms found laps_executed by (simp add: genuine_def)
qed

text \<open>What a result must be for its report to be printed: every bug comes from a genuine replay.\<close>

lemma effective_loop_walk:
  assumes "walk p b d xs s h = Some (s', h')" "wf_state p s" "indexable p"
  shows "\<exists>pre. length pre = length xs \<and>
    effective_loop p b d i (xs @ ys) s h =
      res_bind (effective_loop p b d (i + length xs) ys s' h') (\<lambda>es. Inr (pre @ es))"
  using assms(1,2)
proof (induction xs arbitrary: s h i)
  case Nil
  have "res_bind r (\<lambda>es. Inr ([] @ es)) = r" for r :: "effective_step list res" by (cases r) auto
  then show ?case using Nil by (intro exI [of _ "[]"]) simp
next
  case (Cons x xs)
  from Cons.prems(1) obtain s1 r h1 where x: "x \<in> set (enabled_steps p s)"
      "\<not> step_bound_reached s (s_thread x) b" "execute_enabled_step p s x = Inr (s1, r)"
      "\<not> step_terminal r" "observe d s1 h = Inr (None, h1)" "walk p b d xs s1 h1 = Some (s', h')"
    by (auto split: sum.splits option.splits if_splits)
  have wf1: "wf_state p s1" using wf_execute_enabled_step [OF Cons.prems(2) assms(3) x(1,3)] .
  have eq: "effective_loop p b d i ((x # xs) @ ys) s h =
      cons_res (effective_step_for p s x) (effective_loop p b d (Suc i) (xs @ ys) s1 h1)"
    using x validate_enabled [OF Cons.prems(2) assms(3) x(1), of i] by (simp add: Let_def)
  obtain pre where "length pre = length xs" "effective_loop p b d (Suc i) (xs @ ys) s1 h1 =
      res_bind (effective_loop p b d (Suc i + length xs) ys s' h') (\<lambda>es. Inr (pre @ es))"
    using Cons.IH [OF x(6) wf1] by blast
  then show ?case
    unfolding eq
    by (intro exI [of _ "effective_step_for p s x # pre"])
      (cases "effective_loop p b d (Suc i + length xs) ys s' h'"; simp add: cons_res_def)
qed

lemma effective_trace_length:
  assumes "indexable p" "all_executed p m b sch" "replay_effective_trace p sch b m = Inr es"
  shows "length es = length sch"
proof -
  obtain xs s h where w: "start_walk p m b xs s h"
    and sch: "sch = xs \<or> (\<exists>x\<in>set (enabled_steps p s). sch = xs @ [x] \<and> \<not> step_bound_reached s (s_thread x) b)"
    using assms(2) unfolding all_executed_def by blast
  let ?d = "requires_cycle_detection p"
  have loop: "\<exists>pre. length pre = length xs \<and> replay_effective_trace p (xs @ ys) b m =
      res_bind (effective_loop p b ?d (length xs) ys s h) (\<lambda>es. Inr (pre @ es))" for ys
    using effective_loop_walk [OF w [unfolded start_walk_def] wf_initial_state assms(1), of 0 ys]
    by (simp add: replay_effective_trace_def Let_def)
  from sch show ?thesis
  proof
    assume "sch = xs"
    then show ?thesis using loop [of "[]"] assms(3) by auto
  next
    assume "\<exists>x\<in>set (enabled_steps p s). sch = xs @ [x] \<and> \<not> step_bound_reached s (s_thread x) b"
    then obtain x where x: "sch = xs @ [x]" "\<not> step_bound_reached s (s_thread x) b" by blast
    obtain pre where pre: "length pre = length xs"
        "res_bind (effective_loop p b ?d (length xs) [x] s h) (\<lambda>es. Inr (pre @ es)) = Inr es"
      using loop [of "[x]"] assms(3) x(1) by (metis (no_types, lifting))
    then obtain es1 where "length pre = length xs" "es = pre @ es1"
        "effective_loop p b ?d (length xs) [x] s h = Inr es1"
      by (cases "effective_loop p b ?d (length xs) [x] s h") auto
    moreover from this(3) have "length es1 = 1"
      using x(2) by (auto simp: res_simps Let_def end_of_schedule_def cons_res_def split: if_splits option.splits)
    ultimately show ?thesis using x(1) by simp
  qed
qed

text \<open>Accepted steps name actions of the program.\<close>

definition step_named :: "program \<Rightarrow> schedule_step \<Rightarrow> bool" where
  "step_named p x \<longleftrightarrow> s_thread x < length p \<and>
     (s_index x = kFlushActionIndex \<or> s_index x < length (p ! s_thread x))"

lemma enabled_step_named:
  assumes "x \<in> set (enabled_steps p s)"
  shows "step_named p x"
proof -
  obtain t where t: "t < length p" "x \<in> set (enabled_steps_for_thread p s t)"
    using assms by (auto simp: set_enabled_steps)
  then show ?thesis
    using program_action_has_next [of p s t]
    by (auto simp: enabled_steps_for_thread_def flush_steps_def has_next_action_def step_named_def
        split: if_splits)
qed

lemma effective_loop_named:
  "effective_loop p b d i xs s h = Inr es \<Longrightarrow> list_all (step_named p) xs"
proof (induction xs arbitrary: i s h es)
  case (Cons x xs)
  from Cons.prems obtain u where "validate_replay_step p s x i = Inr u" by (auto simp: res_simps)
  then have "step_named p x" using validate_only_enabled enabled_step_named by blast
  moreover have "list_all (step_named p) xs"
    using Cons.prems Cons.IH
    by (auto simp: res_simps Let_def end_of_schedule_def cons_res_def split: if_splits option.splits)
  ultimately show ?case by simp
qed simp

lemma trace_lines_ok:
  assumes "list_all (step_named p) steps" "index + length steps \<le> length effective"
  shows "snd (trace_lines p result sch effective index steps occurrences) = None"
  using assms
proof (induction steps arbitrary: index occurrences)
  case (Cons step steps)
  then have "vec_at effective index = Inr (effective ! index)" by (simp add: vec_at_def)
  moreover have "\<exists>a. trace_action p (effective ! index) step = Inr a"
    using Cons.prems(1) by (auto simp: vec_at_def trace_action_def step_named_def)
  ultimately obtain a where "res_bind (vec_at effective index) (\<lambda>es.
      res_bind (trace_action p es step) (\<lambda>a. Inr (es, a))) = Inr (effective ! index, a)"
    by auto
  then show ?case using Cons by (simp add: and_then_ok split: prod.split)
qed simp

lemma print_report_complete:
  assumes prog: "explorable p b" and made: "make_model_checker p b m = Inr mc"
    and bug: "\<And>sch. bug_schedule r = Some sch \<Longrightarrow>
      all_executed p m b sch \<and> (\<exists>q. replay_schedule p sch b m = Inr q)"
  shows "snd (print_report p r m b) = None"
proof (cases "bug_schedule r")
  case (Some sch)
  have run: "all_executed p m b sch" and "\<exists>q. replay_schedule p sch b m = Inr q" using bug [OF Some] by auto
  then have "verdict (replay_effective_trace p sch b m) = None"
    using replay_verdicts(1) [OF prog, where sch = sch and m = m] by (auto simp: verdict_def)
  then obtain es where es: "replay_effective_trace p sch b m = Inr es"
    by (auto simp: verdict_def split: sum.splits)
  have mc: "mc = \<lparr>mc_program = p, mc_step_bound = b, mc_memory_model = m\<rparr>"
    using made constructor_accepts by blast
  have "length es = length sch"
    using effective_trace_length [OF _ run es] prog by (simp add: explorable_def)
  moreover have "list_all (step_named p) sch"
    using es effective_loop_named by (simp add: replay_effective_trace_def Let_def)
  ultimately show ?thesis
    using Some made mc es trace_lines_ok [of p sch 0 es r sch mempty]
    by (simp add: print_report_def and_then_ok print_trace_def mc_replay_effective_trace_def)
next
  case None
  then show ?thesis by (simp add: print_report_def and_then_ok)
qed

section \<open>Bugs of explorations and of replays\<close>

definition bug_replays :: "program \<Rightarrow> memory_model \<Rightarrow> nat \<Rightarrow> check_result \<Rightarrow> bool" where
  "bug_replays p m b r \<longleftrightarrow>
     (\<forall>sch. bug_schedule r = Some sch \<longrightarrow>
        all_executed p m b sch \<and> (\<exists>q. replay_schedule p sch b m = Inr q \<and> has_bug q))"

lemma bug_replaysI:
  assumes idx: "indexable p"
    and "\<And>c. first_race r = Some c \<Longrightarrow>
      \<exists>q. replay_schedule p (r_schedule c) b m = Inr q \<and> first_race q = Some c"
    and "\<And>dl. first_deadlock r = Some dl \<Longrightarrow>
      \<exists>q. replay_schedule p (dl_schedule dl) b m = Inr q \<and> first_deadlock q = Some dl"
    and "\<And>e. first_error r = Some e \<Longrightarrow>
      \<exists>q. replay_schedule p (me_schedule e) b m = Inr q \<and> first_error q = Some e"
    and "\<And>f. first_assertion r = Some f \<Longrightarrow>
      \<exists>q. replay_schedule p (af_schedule f) b m = Inr q \<and> first_assertion q = Some f"
    and "\<And>n. first_nontermination r = Some n \<Longrightarrow>
      \<exists>q. replay_schedule p (nt_schedule n) b m = Inr q \<and> first_nontermination q = Some n"
  shows "bug_replays p m b r"
  unfolding bug_replays_def
proof (intro allI impI)
  fix sch assume sch: "bug_schedule r = Some sch"
  note gen = genuine_executed [OF replay_genuine(1) [OF idx]]
  consider c where "first_race r = Some c" "sch = r_schedule c"
    | dl where "first_deadlock r = Some dl" "sch = dl_schedule dl"
    | e where "first_error r = Some e" "sch = me_schedule e"
    | f where "first_assertion r = Some f" "sch = af_schedule f"
    | n where "first_nontermination r = Some n" "sch = nt_schedule n"
    using sch by (auto simp: bug_schedule_def split: option.splits)
  then show "all_executed p m b sch \<and> (\<exists>q. replay_schedule p sch b m = Inr q \<and> has_bug q)"
  proof cases
    case 1
    then show ?thesis using assms(2) gen(1) unfolding has_bug_def by blast
  next
    case 2
    then show ?thesis using assms(3) gen(2) unfolding has_bug_def by blast
  next
    case 3
    then show ?thesis using assms(4) gen(3) unfolding has_bug_def by blast
  next
    case 4
    then show ?thesis using assms(5) gen(4) unfolding has_bug_def by blast
  next
    case 5
    then show ?thesis using assms(6) gen(5) unfolding has_bug_def by blast
  qed
qed

lemma bug_replays_explored:
  assumes prog: "explorable p b"
  shows "explore_naive p mx b m = Inr r \<Longrightarrow> bug_replays p m b r"
    "explore_dpor p mx b m = Inr r \<Longrightarrow> bug_replays p m b r"
    "replay_schedule p sch b m = Inr r \<Longrightarrow> bug_replays p m b r"
proof -
  have idx: "indexable p" using prog by (simp add: explorable_def)
  show "explore_naive p mx b m = Inr r \<Longrightarrow> bug_replays p m b r"
    by (rule bug_replaysI [OF idx]) (erule explore_naive_replays [OF prog], assumption)+
  show "explore_dpor p mx b m = Inr r \<Longrightarrow> bug_replays p m b r"
    by (rule bug_replaysI [OF idx]) (erule explore_dpor_replays [OF prog], assumption)+
  show "bug_replays p m b r" if "replay_schedule p sch b m = Inr r"
    using bug_replaysI [OF idx genuine_reports_replay [OF prog replay_genuine [OF idx that]]] by blast
qed

lemma print_report_bug:
  assumes "explorable p b" "make_model_checker p b m = Inr mc" "bug_replays p m b r"
  shows "snd (print_report p r m b) = None"
  using print_report_complete [OF assms(1,2)] assms(3) unfolding bug_replays_def by blast

text \<open>The report ends with the schedule block.\<close>

lemma print_report_schedule:
  assumes "snd (print_report p r m b) = None" "bug_schedule r = Some sch"
  shows "\<exists>start. fst (print_report p r m b) = start @ print_schedule sch"
proof -
  have "has_bug r" using assms(2) bug_schedule_present by simp
  then have eq: "print_report p r m b = and_then (prints (report_head r m))
      (and_then (prints (print_also_found r @ print_bug_details r))
        (and_then (print_trace p r sch m b) (prints (print_schedule sch))))"
    using assms(2) by (simp add: print_report_def)
  have last: "\<exists>start. fst (and_then a c) = start @ fst c" if "snd (and_then a c) = None" for a c :: printed
    using that by (auto simp: and_then_def split: option.splits)
  show ?thesis
    using assms(1) last unfolding eq and_then_ok
    by (metis (no_types, lifting) and_then_ok append.assoc fst_conv prints_def)
qed

end
