(* ===== verification/Command_Line.thy ===== *)
theory Command_Line
  imports Report
begin

text \<open>
  The command line (src/src/cli/main.cpp): the options of \<open>check\<close> and \<open>replay\<close>, the two
  commands, and \<open>main\<close> with its exception handlers. What the process reads and the text of a
  \<open>std::out_of_range\<close>, which the standard library chooses, come from an environment.
\<close>

section \<open>Options\<close>

datatype explorer = Naive | Dpor

record check_command =
  cc_program_path :: string
  cc_explorer :: explorer
  cc_max_schedules :: nat
  cc_step_bound :: nat
  cc_memory_model :: memory_model

record replay_command =
  rc_program_path :: string
  rc_schedule_path :: string
  rc_memory_model :: memory_model

text \<open>The accumulator is a \<open>std::uint64_t\<close>, and so is \<open>std::size_t\<close>.\<close>

definition kMaxSize :: nat where
  "kMaxSize = 2 ^ 64 - 1"

fun size_from :: "string \<Rightarrow> 64 word \<Rightarrow> string \<Rightarrow> 64 word res" where
  "size_from description value [] = Inr value"
| "size_from description value (c # cs) =
     (if \<not> is_digit c then Inl (Usage_Error (''invalid '' @ description))
      else let value = value * 10 + of_nat (digit_value c) in
        if unat value > kMaxSize then Inl (Usage_Error (description @ '' is too large''))
        else size_from description value cs)"

definition parse_size_token :: "string \<Rightarrow> string \<Rightarrow> nat res" where
  "parse_size_token tok description =
     (if tok = [] then Inl (Usage_Error (''missing '' @ description))
      else res_bind (size_from description 0 tok) (\<lambda>v.
        if v = 0 then Inl (Usage_Error (description @ '' must be greater than zero''))
        else Inr (unat v)))"

definition parse_explorer :: "string \<Rightarrow> explorer res" where
  "parse_explorer v =
     (if v = ''naive'' then Inr Naive else if v = ''dpor'' then Inr Dpor
      else Inl (Usage_Error ''invalid explorer''))"

definition parse_memory_model :: "string \<Rightarrow> memory_model res" where
  "parse_memory_model v =
     (if v = ''sc'' then Inr SC else if v = ''tso'' then Inr TSO else if v = ''pso'' then Inr PSO
      else Inl (Usage_Error ''invalid memory model''))"

definition check_usage :: string where
  "check_usage = ''usage: dpor check <program.dpor> [--explorer naive|dpor] [--memory-model sc|tso|pso] [--max-schedules N] [--step-bound N]''"

definition replay_usage :: string where
  "replay_usage = ''usage: dpor replay <program.dpor> --schedule <schedule-file> [--memory-model sc|tso|pso]''"

definition main_usage :: string where
  "main_usage = ''usage: dpor <check|replay> ...''"

text \<open>The loops over the flags take the arguments from \<open>index\<close> on.\<close>

definition flag_value :: "string \<Rightarrow> string list \<Rightarrow> (string \<Rightarrow> 'a res) \<Rightarrow> 'a res" where
  "flag_value missing rest f =
     (case rest of [] \<Rightarrow> Inl (Usage_Error missing) | v # _ \<Rightarrow> f v)"

function check_flags :: "string list \<Rightarrow> check_command \<Rightarrow> check_command res" where
  "check_flags [] command = Inr command"
| "check_flags (flag # rest) command =
     (if flag = ''--explorer'' then
        flag_value ''missing explorer'' rest (\<lambda>v. res_bind (parse_explorer v) (\<lambda>e.
          check_flags (drop 1 rest) (command\<lparr>cc_explorer := e\<rparr>)))
      else if flag = ''--memory-model'' then
        flag_value ''missing memory model'' rest (\<lambda>v. res_bind (parse_memory_model v) (\<lambda>m.
          check_flags (drop 1 rest) (command\<lparr>cc_memory_model := m\<rparr>)))
      else if flag = ''--max-schedules'' then
        flag_value ''missing max schedules'' rest (\<lambda>v.
          res_bind (parse_size_token v ''max schedules'') (\<lambda>n.
          check_flags (drop 1 rest) (command\<lparr>cc_max_schedules := n\<rparr>)))
      else if flag = ''--step-bound'' then
        flag_value ''missing step bound'' rest (\<lambda>v.
          res_bind (parse_size_token v ''step bound'') (\<lambda>n.
          check_flags (drop 1 rest) (command\<lparr>cc_step_bound := n\<rparr>)))
      else Inl (Usage_Error ''unknown option''))"
  by pat_completeness auto
termination
  by (relation "measure (\<lambda>(args, _). length args)") auto

definition parse_check_command :: "string list \<Rightarrow> check_command res" where
  "parse_check_command argv =
     (if length argv < 3 then Inl (Usage_Error check_usage)
      else check_flags (drop 3 argv)
        \<lparr>cc_program_path = argv ! 2, cc_explorer = Dpor, cc_max_schedules = 100000,
         cc_step_bound = kDefaultStepBound, cc_memory_model = SC\<rparr>)"

function replay_flags :: "string list \<Rightarrow> replay_command \<Rightarrow> replay_command res" where
  "replay_flags [] command = Inr command"
| "replay_flags (flag # rest) command =
     (if flag = ''--schedule'' then
        flag_value ''missing schedule file'' rest (\<lambda>v.
          replay_flags (drop 1 rest) (command\<lparr>rc_schedule_path := v\<rparr>))
      else if flag = ''--memory-model'' then
        flag_value ''missing memory model'' rest (\<lambda>v. res_bind (parse_memory_model v) (\<lambda>m.
          replay_flags (drop 1 rest) (command\<lparr>rc_memory_model := m\<rparr>)))
      else Inl (Usage_Error ''unknown option''))"
  by pat_completeness auto
termination
  by (relation "measure (\<lambda>(args, _). length args)") auto

definition parse_replay_command :: "string list \<Rightarrow> replay_command res" where
  "parse_replay_command argv =
     (if length argv < 5 then Inl (Usage_Error replay_usage)
      else res_bind (replay_flags (drop 3 argv)
        \<lparr>rc_program_path = argv ! 2, rc_schedule_path = [], rc_memory_model = SC\<rparr>) (\<lambda>command.
        if rc_schedule_path command = [] then Inl (Usage_Error replay_usage) else Inr command))"

section \<open>The commands\<close>

record environment =
  env_files :: "string \<Rightarrow> string option"
  env_range_text :: string

definition open_input_file :: "environment \<Rightarrow> string \<Rightarrow> string \<Rightarrow> string res" where
  "open_input_file env path kind =
     (case env_files env path of
        None \<Rightarrow> Inl (Runtime_Error (''could not open '' @ kind @ '' file''))
      | Some text \<Rightarrow> Inr text)"

definition parse_program_file :: "environment \<Rightarrow> string \<Rightarrow> program res" where
  "parse_program_file env path = res_bind (open_input_file env path ''program'') parse_program_text"

definition parse_schedule_file :: "environment \<Rightarrow> string \<Rightarrow> schedule res" where
  "parse_schedule_file env path = res_bind (open_input_file env path ''schedule'') parse_schedule_text"

text \<open>A command that has its result prints it; the value is the exit status.\<close>

definition report_and_status ::
  "program \<Rightarrow> check_result \<Rightarrow> memory_model \<Rightarrow> nat \<Rightarrow> string \<times> nat res" where
  "report_and_status p result m step_bound =
     (let printed = print_report p result m step_bound in
      (fst printed,
       case snd printed of Some e \<Rightarrow> Inl e | None \<Rightarrow> Inr (if has_bug result then 1 else 0)))"

definition run_check :: "environment \<Rightarrow> check_command \<Rightarrow> string \<times> nat res" where
  "run_check env command =
     (let m = cc_memory_model command; b = cc_step_bound command in
      case res_bind (parse_program_file env (cc_program_path command)) (\<lambda>p.
           res_bind (make_model_checker p b m) (\<lambda>mc.
           res_bind (if cc_explorer command = Naive
                     then mc_explore_naive mc (cc_max_schedules command)
                     else mc_explore_dpor mc (cc_max_schedules command)) (\<lambda>result.
             Inr (p, result)))) of
        Inl e \<Rightarrow> ([], Inl e)
      | Inr (p, result) \<Rightarrow> report_and_status p result m b)"

definition run_replay :: "environment \<Rightarrow> replay_command \<Rightarrow> string \<times> nat res" where
  "run_replay env command =
     (let m = rc_memory_model command in
      case res_bind (parse_program_file env (rc_program_path command)) (\<lambda>p.
           res_bind (parse_schedule_file env (rc_schedule_path command)) (\<lambda>sch.
           res_bind (make_model_checker p kDefaultStepBound m) (\<lambda>mc.
           res_bind (mc_replay mc sch) (\<lambda>result. Inr (p, result))))) of
        Inl e \<Rightarrow> ([], Inl e)
      | Inr (p, result) \<Rightarrow> report_and_status p result m kDefaultStepBound)"

section \<open>The process\<close>

text \<open>A process exits with its two outputs and a status, or a failed \<open>assert\<close> aborts it.\<close>

datatype process = Exited (out: string) (err: string) (status: nat) | Aborted string

definition print_parse_error :: "nat \<Rightarrow> string \<Rightarrow> string" where
  "print_parse_error line msg =
     (if line = 0 then ''parse error: '' @ msg @ endl
      else ''parse error at line '' @ nat_text line @ '': '' @ msg @ endl)"

definition handle_exception :: "environment \<Rightarrow> string \<Rightarrow> exn \<Rightarrow> process" where
  "handle_exception env printed e =
     (case e of
        Parse_Error line msg \<Rightarrow> Exited printed (print_parse_error line msg) 2
      | Invalid_Argument msg \<Rightarrow> Exited printed (msg @ endl) 2
      | Usage_Error msg \<Rightarrow> Exited printed (msg @ endl) 2
      | Logic_Error msg \<Rightarrow> Exited printed (msg @ endl) 2
      | Overflow_Error msg \<Rightarrow> Exited printed (msg @ endl) 2
      | Runtime_Error msg \<Rightarrow> Exited printed (msg @ endl) 2
      | Out_Of_Range \<Rightarrow> Exited printed (env_range_text env @ endl) 2
      | Assert_Failed msg \<Rightarrow> Aborted msg
      | Out_Of_Fuel \<Rightarrow> Aborted [])"

definition finish_command :: "environment \<Rightarrow> string \<times> nat res \<Rightarrow> process" where
  "finish_command env outcome =
     (case snd outcome of
        Inr code \<Rightarrow> Exited (fst outcome) [] code
      | Inl e \<Rightarrow> handle_exception env (fst outcome) e)"

definition dpor_main :: "environment \<Rightarrow> string list \<Rightarrow> process" where
  "dpor_main env argv =
     finish_command env
       (if length argv < 2 then ([], Inl (Usage_Error main_usage))
        else if argv ! 1 = ''check'' then
          (case parse_check_command argv of
             Inl e \<Rightarrow> ([], Inl e) | Inr command \<Rightarrow> run_check env command)
        else if argv ! 1 = ''replay'' then
          (case parse_replay_command argv of
             Inl e \<Rightarrow> ([], Inl e) | Inr command \<Rightarrow> run_replay env command)
        else ([], Inl (Usage_Error main_usage)))"

end
