(* ===== verification/Exporter.thy ===== *)
theory Exporter
  imports Json Report_Correct Command_Line
begin

text \<open>
  The showcase exporter (src/showcase/exporter.cpp): it explores one program with both explorers,
  checks that they agree, and prints runs, witnesses and the tree of explored and pruned
  schedules as one JSON value. \<open>require\<close> is a \<open>guarded\<close> computation; the elapsed times come from
  the environment of the process.
\<close>

section \<open>Options\<close>

record exporter_options =
  xo_program_path :: string
  xo_program_id :: string
  xo_memory_model :: memory_model
  xo_step_bound :: nat
  xo_max_schedules :: nat

definition require :: "bool \<Rightarrow> string \<Rightarrow> 'a res \<Rightarrow> 'a res" where
  "require condition message m = guarded condition (Runtime_Error message) m"

text \<open>The loop over the characters keeps a \<open>std::size_t\<close>.\<close>

fun size_digits :: "string \<Rightarrow> 64 word \<Rightarrow> string \<Rightarrow> 64 word res" where
  "size_digits description v [] = Inr v"
| "size_digits description v (c # cs) =
     (if \<not> is_digit c then Inl (Runtime_Error (''invalid '' @ description))
      else
        let digit = of_nat (digit_value c) :: 64 word in
        if v > (- 1 - digit) div 10 then Inl (Runtime_Error (description @ '' is too large''))
        else size_digits description (v * 10 + digit) cs)"

definition parse_size :: "string \<Rightarrow> string \<Rightarrow> nat res" where
  "parse_size t description =
     (if t = [] then Inl (Runtime_Error (''missing '' @ description))
      else res_bind (size_digits description 0 t) (\<lambda>v.
        if v = 0 then Inl (Runtime_Error (description @ '' must be greater than zero''))
        else Inr (unat v)))"

definition parse_model_option :: "string \<Rightarrow> memory_model res" where
  "parse_model_option t =
     (if t = ''sc'' then Inr SC else if t = ''tso'' then Inr TSO else if t = ''pso'' then Inr PSO
      else Inl (Runtime_Error (''invalid memory model '' @ quoted t)))"

definition memory_model_code :: "memory_model \<Rightarrow> string" where
  "memory_model_code m = (case m of SC \<Rightarrow> ''sc'' | TSO \<Rightarrow> ''tso'' | PSO \<Rightarrow> ''pso'')"

fun exporter_flags :: "string list \<Rightarrow> exporter_options \<Rightarrow> exporter_options res" where
  "exporter_flags [] options = Inr options"
| "exporter_flags [flag] options = Inl (Runtime_Error ''every exporter option requires a value'')"
| "exporter_flags (flag # v # rest) options =
     (if flag = ''--program'' then exporter_flags rest (options\<lparr>xo_program_path := v\<rparr>)
      else if flag = ''--program-id'' then exporter_flags rest (options\<lparr>xo_program_id := v\<rparr>)
      else if flag = ''--memory-model'' then
        res_bind (parse_model_option v) (\<lambda>m. exporter_flags rest (options\<lparr>xo_memory_model := m\<rparr>))
      else if flag = ''--step-bound'' then
        res_bind (parse_size v ''step bound'') (\<lambda>n. exporter_flags rest (options\<lparr>xo_step_bound := n\<rparr>))
      else if flag = ''--max-schedules'' then
        res_bind (parse_size v ''max schedules'') (\<lambda>n.
          exporter_flags rest (options\<lparr>xo_max_schedules := n\<rparr>))
      else Inl (Runtime_Error (''unknown exporter option '' @ quoted flag)))"

definition parse_options :: "string list \<Rightarrow> exporter_options res" where
  "parse_options argv =
     res_bind (exporter_flags (drop 1 argv)
       \<lparr>xo_program_path = [], xo_program_id = [], xo_memory_model = SC,
        xo_step_bound = kDefaultStepBound, xo_max_schedules = 100000\<rparr>) (\<lambda>options.
     require (xo_program_path options \<noteq> []) ''--program is required''
     (require (xo_program_id options \<noteq> []) ''--program-id is required'' (Inr options)))"

section \<open>Actions and schedules\<close>

fun action_kind_text :: "action_kind \<Rightarrow> string" where
  "action_kind_text Set = ''set''"
| "action_kind_text Label = ''label''"
| "action_kind_text BranchNonzero = ''branch_nonzero''"
| "action_kind_text Assert = ''assert''"
| "action_kind_text Read = ''read''"
| "action_kind_text Write = ''write''"
| "action_kind_text AtomicLoad = ''atomic_load''"
| "action_kind_text AtomicStore = ''atomic_store''"
| "action_kind_text AtomicRmw = ''atomic_rmw''"
| "action_kind_text CompareExchange = ''compare_exchange''"
| "action_kind_text Fence = ''fence''"
| "action_kind_text Flush = ''flush''"
| "action_kind_text Lock = ''lock''"
| "action_kind_text TryLock = ''try_lock''"
| "action_kind_text Unlock = ''unlock''"
| "action_kind_text Spawn = ''spawn''"
| "action_kind_text Join = ''join''"
| "action_kind_text Wait = ''wait''"
| "action_kind_text Signal = ''signal''"
| "action_kind_text Broadcast = ''broadcast''"
| "action_kind_text Yield = ''yield''"
| "action_kind_text RLock = ''rlock''"
| "action_kind_text RUnlock = ''runlock''"
| "action_kind_text WLock = ''wlock''"
| "action_kind_text WUnlock = ''wunlock''"
| "action_kind_text SemPost = ''sem_post''"
| "action_kind_text SemWait = ''sem_wait''"
| "action_kind_text BarrierWait = ''barrier_wait''"
| "action_kind_text Upgrade = ''upgrade''"
| "action_kind_text Downgrade = ''downgrade''"
| "action_kind_text TimedWait = ''timed_wait''"

definition json_name :: "string \<Rightarrow> json" where
  "json_name name = (if name = [] then JNull else JString name)"

definition json_val :: "val \<Rightarrow> json" where
  "json_val v = json_int (sint v)"

definition schedule_step_json :: "schedule_step \<Rightarrow> json" where
  "schedule_step_json step = json_object
     [(''action_index'', json_nat (s_index step)),
      (''flush_address_id'', json_option json_nat (s_flush step)),
      (''thread'', json_nat (s_thread step))]"

definition schedule_json :: "schedule \<Rightarrow> json" where
  "schedule_json sch = JArray (map schedule_step_json sch)"

definition operand_json :: "value_operand option \<Rightarrow> json" where
  "operand_json operand =
     (case operand of
        None \<Rightarrow> JNull
      | Some (Register r) \<Rightarrow>
          json_object [(''kind'', JString ''register''), (''register'', json_nat r)]
      | Some (Immediate v) \<Rightarrow>
          json_object [(''immediate'', json_val v), (''kind'', JString ''immediate'')])"

definition action_json :: "action \<Rightarrow> json" where
  "action_json a = json_object
     [(''address'', json_name (a_address a)),
      (''barrier'', json_name (a_barrier a)),
      (''condition'', json_name (a_condition a)),
      (''destination_register'', json_option json_nat (a_destination a)),
      (''expected'', operand_json (a_expected a)),
      (''kind'', JString (action_kind_text (a_kind a))),
      (''label'', JString (action_text a)),
      (''mutex'', json_name (a_mutex a)),
      (''parties'', json_nat (a_parties a)),
      (''rwlock'', json_name (a_rwlock a)),
      (''semaphore'', json_name (a_semaphore a)),
      (''source_register'', json_option json_nat (a_source a)),
      (''target_thread'', json_nat (a_target a)),
      (''value'', operand_json (a_value a))]"

section \<open>Inspected steps\<close>

definition clock_json :: "nat list \<Rightarrow> json" where
  "clock_json clock = JArray (map json_nat clock)"

definition clock_leq :: "nat list \<Rightarrow> nat list \<Rightarrow> bool res" where
  "clock_leq lhs rhs =
     require (length lhs = length rhs) ''vector-clock widths differ''
       (Inr (list_all2 (\<le>) lhs rhs))"

text \<open>The earlier executed steps whose clocks are below; the loop stops at \<open>index\<close>.\<close>

definition happens_before_predecessors :: "inspected_step \<Rightarrow> nat \<Rightarrow> inspected_step list \<Rightarrow> nat list res" where
  "happens_before_predecessors step index trace =
     (if is_executed step then
        res_fold (\<lambda>prior hb.
          res_bind (vec_at trace prior) (\<lambda>q.
          if is_executed q then
            res_bind (clock_leq (is_clock_after q) (is_clock_after step)) (\<lambda>below.
              Inr (if below then hb @ [prior] else hb))
          else Inr hb)) [0..<index] []
      else Inr [])"

definition register_effect_json :: "register_effect \<Rightarrow> json" where
  "register_effect_json effect = json_object
     [(''after'', json_val (re_after effect)), (''before'', json_val (re_before effect)),
      (''register'', json_nat (re_reg effect)), (''thread'', json_nat (re_thread effect))]"

definition memory_effect_json :: "memory_effect \<Rightarrow> json" where
  "memory_effect_json effect = json_object
     [(''address'', JString (mf_address effect)), (''after'', json_option json_val (mf_after effect)),
      (''before'', json_option json_val (mf_before effect))]"

definition stores_json :: "store_buffer_entry list \<Rightarrow> json" where
  "stores_json stores = JArray (map (\<lambda>(address, v).
     json_object [(''address'', JString address), (''value'', json_val v)]) stores)"

definition buffer_effect_json :: "buffer_effect \<Rightarrow> json" where
  "buffer_effect_json effect = json_object
     [(''after'', stores_json (bf_after effect)), (''before'', stores_json (bf_before effect)),
      (''thread'', json_nat (bf_thread effect))]"

definition timed_wait_json :: "timed_wait_occurrence \<Rightarrow> json" where
  "timed_wait_json occ = json_object
     [(''episode'', json_nat (snd occ)),
      (''transition'', JString (case fst occ of Park \<Rightarrow> ''park'' | Timeout \<Rightarrow> ''timeout''))]"

definition inspected_step_json :: "inspected_step \<Rightarrow> nat \<Rightarrow> inspected_step list \<Rightarrow> json res" where
  "inspected_step_json step index trace =
     res_bind (happens_before_predecessors step index trace) (\<lambda>hb.
     Inr (json_object
       [(''action'', action_json (is_action step)),
        (''clock_after'', clock_json (is_clock_after step)),
        (''clock_before'', clock_json (is_clock_before step)),
        (''endpoint'', schedule_step_json (is_endpoint step)),
        (''executed'', JBool (is_executed step)),
        (''enabled_before'', schedule_json (is_enabled_before step)),
        (''happens_before_predecessors'', JArray (map json_nat hb)),
        (''index'', json_nat index),
        (''register_effects'', JArray (map register_effect_json (is_registers step))),
        (''memory_effects'', JArray (map memory_effect_json (is_memory step))),
        (''store_buffer_effects'', JArray (map buffer_effect_json (is_buffers step))),
        (''broadcast_waking_set'',
           json_option (\<lambda>tids. JArray (map json_nat tids)) (is_waking_set step)),
        (''timed_wait_occurrence'', json_option timed_wait_json (is_timed_wait step))]))"

definition detailed_trace_json :: "inspected_step list \<Rightarrow> json res" where
  "detailed_trace_json trace =
     res_bind (res_map (\<lambda>index. res_bind (vec_at trace index) (\<lambda>step.
         inspected_step_json step index trace)) [0..<length trace]) (\<lambda>steps.
     Inr (JArray steps))"

section \<open>Results\<close>

definition bug_shape_json :: "check_result \<Rightarrow> json" where
  "bug_shape_json r = json_object
     [(''assertion'', JBool (first_assertion r \<noteq> None)),
      (''deadlock'', JBool (first_deadlock r \<noteq> None)),
      (''error'', JBool (first_error r \<noteq> None)),
      (''nontermination'', JBool (first_nontermination r \<noteq> None)),
      (''race'', JBool (first_race r \<noteq> None))]"

text \<open>The assignments of the summary, which \<open>run_json\<close> continues.\<close>

definition result_summary :: "check_result \<Rightarrow> (string \<times> json) list" where
  "result_summary r =
     [(''bound_exceeded_executions'', json_nat (bound_exceeded_executions r)),
      (''bug_shape'', bug_shape_json r),
      (''cycles_detected'', json_nat (cycles_detected r)),
      (''exploration_capped'', JBool (exploration_capped r)),
      (''fair_cycles'', json_nat (fair_cycles r)),
      (''primary_verdict'', JString (verdict_of r)),
      (''schedules_explored'', json_nat (schedules_explored r)),
      (''strongly_unfair_cycles'', json_nat (strongly_unfair_cycles r)),
      (''unfair_cycles'', json_nat (unfair_cycles r))]"

definition result_summary_json :: "check_result \<Rightarrow> json" where
  "result_summary_json r = json_object (result_summary r)"

definition same_bug_existence :: "check_result \<Rightarrow> check_result \<Rightarrow> bool" where
  "same_bug_existence l r \<longleftrightarrow>
     (first_race l \<noteq> None) = (first_race r \<noteq> None) \<and>
     (first_deadlock l \<noteq> None) = (first_deadlock r \<noteq> None) \<and>
     (first_error l \<noteq> None) = (first_error r \<noteq> None) \<and>
     (first_assertion l \<noteq> None) = (first_assertion r \<noteq> None) \<and>
     (first_nontermination l \<noteq> None) = (first_nontermination r \<noteq> None)"

text \<open>A result with the microseconds its exploration took.\<close>

record timed_result =
  td_result :: check_result
  td_wall_clock_us :: nat

fun common_prefix_length :: "schedule \<Rightarrow> schedule \<Rightarrow> nat" where
  "common_prefix_length (x # xs) (y # ys) =
     (if x = y then Suc (common_prefix_length xs ys) else 0)"
| "common_prefix_length _ _ = 0"

fun count_new_states :: "schedule \<Rightarrow> schedule list \<Rightarrow> nat" where
  "count_new_states previous [] = 0"
| "count_new_states previous (sch # rest) =
     length sch - common_prefix_length previous sch + count_new_states sch rest"

definition prefix_state_count :: "schedule list \<Rightarrow> nat" where
  "prefix_state_count schedules =
     (if schedules = [] then 1 else 1 + count_new_states [] (sort schedules))"

definition max_depth :: "schedule list \<Rightarrow> nat" where
  "max_depth schedules = fold (\<lambda>sch depth. max depth (length sch)) schedules 0"

text \<open>The loop keeps the last executed occurrence of the endpoint.\<close>

definition clock_for_endpoint :: "inspected_step list \<Rightarrow> schedule_step \<Rightarrow> nat list res" where
  "clock_for_endpoint trace endpoint =
     (case fold (\<lambda>step clock.
             if is_endpoint step = endpoint \<and> is_executed step then Some (is_clock_after step)
             else clock) trace None of
        None \<Rightarrow> Inl (Runtime_Error ''race endpoint missing from detailed trace'')
      | Some clock \<Rightarrow> Inr clock)"

fun blocked_kind_text :: "blocked_on_kind \<Rightarrow> string" where
  "blocked_kind_text On_Mutex = ''mutex''"
| "blocked_kind_text On_Thread = ''thread''"
| "blocked_kind_text On_Condition = ''condition_variable''"
| "blocked_kind_text On_RwLock_Writer = ''rwlock_writer''"
| "blocked_kind_text On_RwLock_Readers = ''rwlock_readers''"
| "blocked_kind_text On_Semaphore = ''semaphore''"
| "blocked_kind_text On_Barrier = ''barrier''"
| "blocked_kind_text On_RwLock_Upgrade = ''rwlock_upgrade''"

definition blocked_thread_json :: "blocked_thread \<Rightarrow> json" where
  "blocked_thread_json blocked = json_object
     [(''barrier'', json_name (bt_barrier blocked)),
      (''condition'', json_name (bt_condition blocked)),
      (''kind'', JString (blocked_kind_text (bt_kind blocked))),
      (''mutex'', json_name (bt_mutex blocked)),
      (''owner'', json_option json_nat (bt_owner blocked)),
      (''rwlock'', json_name (bt_rwlock blocked)),
      (''self_wait'', JBool (bt_self_wait blocked)),
      (''semaphore'', json_name (bt_semaphore blocked)),
      (''target_thread'', json_option json_nat (bt_target blocked)),
      (''thread'', json_nat (bt_thread blocked))]"

definition fairness_code :: "fairness \<Rightarrow> string" where
  "fairness_code f =
     (case f of
        Unfair_Schedule_Witness \<Rightarrow> ''unfair-schedule witness''
      | Strongly_Unfair_Schedule_Witness \<Rightarrow> ''strongly-unfair-schedule witness''
      | Fair_Divergence \<Rightarrow> ''fair divergence'')"

section \<open>Witnesses\<close>

text \<open>The conflict of a race, with the clocks of its endpoints in a trace.\<close>

definition conflict_json :: "race_report \<Rightarrow> inspected_step list \<Rightarrow> json res" where
  "conflict_json race trace =
     res_bind (clock_for_endpoint trace (r_first race)) (\<lambda>clock1.
     res_bind (clock_for_endpoint trace (r_second race)) (\<lambda>clock2.
     Inr (json_object
       [(''address'', JString (r_address race)),
        (''first'', schedule_step_json (r_first race)),
        (''first_clock'', clock_json clock1),
        (''second'', schedule_step_json (r_second race)),
        (''second_clock'', clock_json clock2)])))"

definition blockers_json :: "deadlock_report \<Rightarrow> json" where
  "blockers_json deadlock = JArray (map blocked_thread_json (dl_blocked deadlock))"

text \<open>The schedule of the first report of a replay, and what is told about it.\<close>

definition primary_report :: "check_result \<Rightarrow> model_checker \<Rightarrow> (schedule \<times> (string \<times> json) list) res" where
  "primary_report replayed mc =
     (case first_race replayed of
        Some race \<Rightarrow>
          res_bind (mc_inspect_schedule mc (r_schedule race)) (\<lambda>trace.
          res_bind (conflict_json race trace) (\<lambda>conflict.
          Inr (r_schedule race, [(''conflict'', conflict), (''kind'', JString ''race'')])))
      | None \<Rightarrow>
     (case first_deadlock replayed of
        Some deadlock \<Rightarrow>
          Inr (dl_schedule deadlock,
            [(''blocked_threads'', blockers_json deadlock), (''kind'', JString ''deadlock'')])
      | None \<Rightarrow>
     (case first_error replayed of
        Some error \<Rightarrow>
          Inr (me_schedule error,
            [(''endpoint'', schedule_step_json (me_endpoint error)), (''kind'', JString ''error''),
             (''message'', JString (me_message error))])
      | None \<Rightarrow>
     (case first_assertion replayed of
        Some assertion \<Rightarrow>
          Inr (af_schedule assertion,
            [(''endpoint'', schedule_step_json (af_endpoint assertion)),
             (''kind'', JString ''assertion''), (''register'', json_nat (af_reg assertion)),
             (''value'', json_val (af_value assertion))])
      | None \<Rightarrow>
     (case first_nontermination replayed of
        Some nt \<Rightarrow>
          Inr (nt_schedule nt,
            [(''cycle'', schedule_json (nt_cycle nt)),
             (''fairness'', JString (fairness_code (nt_fairness nt))),
             (''kind'', JString ''nontermination''), (''stem'', schedule_json (nt_stem nt))])
      | None \<Rightarrow> Inl (Runtime_Error ''witness replay produced no primary bug report''))))))"

definition replay_primary_report_json :: "check_result \<Rightarrow> model_checker \<Rightarrow> json res" where
  "replay_primary_report_json replayed mc =
     res_bind (primary_report replayed mc) (\<lambda>(sch, fields).
     res_bind (mc_inspect_schedule mc sch) (\<lambda>trace.
     res_bind (detailed_trace_json trace) (\<lambda>steps.
     Inr (json_object (fields @ [(''schedule'', schedule_json sch), (''steps'', steps)])))))"

text \<open>The assignments of a witness, which the caller continues.\<close>

definition base_witness :: "string \<Rightarrow> schedule \<Rightarrow> model_checker \<Rightarrow> (string \<times> json) list res" where
  "base_witness kind sch mc =
     res_bind (mc_replay mc sch) (\<lambda>replayed.
     res_bind (mc_inspect_schedule mc sch) (\<lambda>trace.
     res_bind (replay_primary_report_json replayed mc) (\<lambda>primary.
     res_bind (detailed_trace_json trace) (\<lambda>steps.
     Inr [(''kind'', JString kind), (''reported_primary'', primary),
          (''replay_outcome'', result_summary_json replayed),
          (''schedule'', schedule_json sch), (''steps'', steps)]))))"

text \<open>
  What the five kinds of reports share: when there is a report, replaying its schedule gives it
  again, and it adds a witness of its kind.
\<close>

definition witness_for ::
  "model_checker \<Rightarrow> check_result \<Rightarrow> (check_result \<Rightarrow> 'a option) \<Rightarrow> string \<Rightarrow> string \<Rightarrow>
   ('a \<Rightarrow> schedule) \<Rightarrow> ('a \<Rightarrow> (string \<times> json) list res) \<Rightarrow> json list res" where
  "witness_for mc result first_of kind message sch_of fields_of =
     (case first_of result of
        None \<Rightarrow> Inr []
      | Some report \<Rightarrow>
          res_bind (mc_replay mc (sch_of report)) (\<lambda>replayed.
          require (first_of replayed = first_of result) message
          (res_bind (base_witness kind (sch_of report) mc) (\<lambda>witness.
           res_bind (fields_of report) (\<lambda>fields.
           Inr [json_object (witness @ fields)])))))"

definition race_fields :: "model_checker \<Rightarrow> race_report \<Rightarrow> (string \<times> json) list res" where
  "race_fields mc race =
     res_bind (mc_inspect_schedule mc (r_schedule race)) (\<lambda>trace.
     res_bind (conflict_json race trace) (\<lambda>conflict. Inr [(''conflict'', conflict)]))"

definition deadlock_fields :: "deadlock_report \<Rightarrow> (string \<times> json) list" where
  "deadlock_fields deadlock = [(''blocked_threads'', blockers_json deadlock)]"

definition error_fields_json :: "model_error_report \<Rightarrow> (string \<times> json) list" where
  "error_fields_json error =
     [(''endpoint'', schedule_step_json (me_endpoint error)), (''message'', JString (me_message error))]"

definition assertion_fields :: "assertion_report \<Rightarrow> (string \<times> json) list" where
  "assertion_fields assertion =
     [(''endpoint'', schedule_step_json (af_endpoint assertion)),
      (''register'', json_nat (af_reg assertion)), (''value'', json_val (af_value assertion))]"

definition nontermination_fields :: "nontermination_report \<Rightarrow> (string \<times> json) list" where
  "nontermination_fields nt =
     [(''cycle'', schedule_json (nt_cycle nt)), (''fairness'', JString (fairness_code (nt_fairness nt))),
      (''stem'', schedule_json (nt_stem nt))]"

definition witnesses_json :: "check_result \<Rightarrow> model_checker \<Rightarrow> json res" where
  "witnesses_json result mc =
     res_bind (witness_for mc result first_race ''race'' ''race witness did not replay identically''
       r_schedule (race_fields mc)) (\<lambda>races.
     res_bind (witness_for mc result first_deadlock ''deadlock''
       ''deadlock witness did not replay identically''
       dl_schedule (\<lambda>r. Inr (deadlock_fields r))) (\<lambda>deadlocks.
     res_bind (witness_for mc result first_error ''error''
       ''modeled-error witness did not replay identically''
       me_schedule (\<lambda>r. Inr (error_fields_json r))) (\<lambda>errors.
     res_bind (witness_for mc result first_assertion ''assertion''
       ''assertion witness did not replay identically''
       af_schedule (\<lambda>r. Inr (assertion_fields r))) (\<lambda>assertions.
     res_bind (witness_for mc result first_nontermination ''nontermination''
       ''nontermination witness did not replay identically''
       nt_schedule (\<lambda>r. Inr (nontermination_fields r))) (\<lambda>nonterminations.
     Inr (JArray (races @ deadlocks @ errors @ assertions @ nonterminations)))))))"

definition evidence_json :: "check_result \<Rightarrow> model_checker \<Rightarrow> json res" where
  "evidence_json result mc =
     res_bind (witnesses_json result mc) (\<lambda>witnesses.
     Inr (json_object
       [(''explorer'', JString ''dpor''),
        (''property'', json_object
           [(''name'', JString ''assertion_reachability''),
            (''reachable'', JBool (first_assertion result \<noteq> None)),
            (''verdict'',
               JString (if first_assertion result \<noteq> None then ''violated'' else ''holds''))]),
        (''run_outcome'', result_summary_json result),
        (''witnesses'', witnesses)]))"

definition run_json :: "timed_result \<Rightarrow> schedule list \<Rightarrow> nat \<Rightarrow> json" where
  "run_json timed schedules schedules_pruned = json_object
     (result_summary (td_result timed) @
      [(''max_depth'', json_nat (max_depth schedules)),
       (''prefix_states_visited'', json_nat (prefix_state_count schedules)),
       (''schedules_pruned'', json_nat schedules_pruned),
       (''wall_clock_us'', json_nat (td_wall_clock_us timed)),
       (''wall_clock_note'',
          JString ''environment-dependent; excluded from deterministic comparison'')])"

section \<open>The tree\<close>

text \<open>What is known of the prefixes of the explored schedules.\<close>

record tree_index =
  ti_expanded :: "schedule oset"
  ti_terminals :: "schedule oset"
  ti_enabled_at :: "(schedule, schedule_step list) omap"
  ti_edges :: "(schedule, inspected_step) omap"

definition empty_index :: tree_index where
  "empty_index = \<lparr>ti_expanded = oinsert [] mempty, ti_terminals = mempty,
     ti_enabled_at = mempty, ti_edges = mempty\<rparr>"

text \<open>\<open>emplace\<close>, and the check that a value which is there is the same.\<close>

definition emplace_same :: "'k::linorder \<Rightarrow> 'v \<Rightarrow> string \<Rightarrow> ('k, 'v) omap \<Rightarrow> ('k, 'v) omap res" where
  "emplace_same k v message m =
     (case mlookup m k of
        None \<Rightarrow> Inr (mupdate k v m)
      | Some w \<Rightarrow> require (w = v) message (Inr m))"

fun index_steps :: "schedule \<Rightarrow> (schedule_step \<times> inspected_step) list \<Rightarrow> tree_index \<Rightarrow> tree_index res" where
  "index_steps pre [] ti = Inr ti"
| "index_steps pre ((x, step) # rest) ti =
     res_bind (emplace_same pre (is_enabled_before step)
       ''same numeric prefix produced different enabled sets'' (ti_enabled_at ti)) (\<lambda>enabled_at.
     let pre' = pre @ [x] in
     res_bind (emplace_same pre' step
       ''same numeric prefix produced different transition evidence'' (ti_edges ti)) (\<lambda>edges.
     index_steps pre' rest
       (ti\<lparr>ti_expanded := oinsert pre' (ti_expanded ti), ti_enabled_at := enabled_at,
          ti_edges := edges\<rparr>)))"

definition index_schedule :: "model_checker \<Rightarrow> schedule \<Rightarrow> tree_index \<Rightarrow> tree_index res" where
  "index_schedule mc sch ti =
     res_bind (mc_inspect_schedule mc sch) (\<lambda>trace.
     require (length trace = length sch) ''inspection omitted a collected DPOR terminal step''
     (res_bind (index_steps [] (zip sch trace) ti) (\<lambda>ti'.
      Inr (ti'\<lparr>ti_terminals := oinsert sch (ti_terminals ti')\<rparr>))))"

text \<open>The boundaries: steps that are enabled at an inner node and lead out of the tree.\<close>

definition prune_child ::
  "model_checker \<Rightarrow> schedule oset \<Rightarrow> schedule \<Rightarrow> schedule_step \<Rightarrow>
   schedule oset \<times> (schedule, inspected_step) omap \<Rightarrow>
   (schedule oset \<times> (schedule, inspected_step) omap) res" where
  "prune_child mc expanded pre step = (\<lambda>(pruned, edges).
     let child = pre @ [step] in
     if omember child expanded then Inr (pruned, edges)
     else
       res_bind (mc_inspect_schedule mc child) (\<lambda>inspected.
       require (length inspected = length child) ''pruned boundary inspection omitted its edge''
       (Inr (oinsert child pruned, memplace child (last inspected) edges))))"

definition prune_prefix ::
  "model_checker \<Rightarrow> tree_index \<Rightarrow> schedule \<Rightarrow> schedule oset \<times> (schedule, inspected_step) omap \<Rightarrow>
   (schedule oset \<times> (schedule, inspected_step) omap) res" where
  "prune_prefix mc ti pre acc =
     (if omember pre (ti_terminals ti) then Inr acc
      else
        case mlookup (ti_enabled_at ti) pre of
          None \<Rightarrow> Inl (Runtime_Error ''nonterminal expanded prefix omitted enabled transitions'')
        | Some enabled \<Rightarrow> res_fold (prune_child mc (ti_expanded ti) pre) enabled acc)"

text \<open>The numbers of schedules below the nodes.\<close>

definition zero_counts :: "schedule list \<Rightarrow> (schedule, nat) omap" where
  "zero_counts pres = fold (\<lambda>pre counts. memplace pre 0 counts) pres mempty"

definition bump :: "schedule \<Rightarrow> (schedule, nat) omap \<Rightarrow> (schedule, nat) omap" where
  "bump pre counts =
     (case mlookup counts pre of None \<Rightarrow> counts | Some n \<Rightarrow> mupdate pre (Suc n) counts)"

fun bump_prefixes :: "schedule \<Rightarrow> schedule \<Rightarrow> (schedule, nat) omap \<Rightarrow> (schedule, nat) omap" where
  "bump_prefixes pre [] counts = counts"
| "bump_prefixes pre (x # xs) counts =
     bump_prefixes (pre @ [x]) xs (bump (pre @ [x]) counts)"

definition count_prefixes :: "schedule list \<Rightarrow> (schedule, nat) omap \<Rightarrow> (schedule, nat) omap" where
  "count_prefixes schedules counts =
     fold (\<lambda>sch counts. bump_prefixes [] sch (bump [] counts)) schedules counts"

definition map_at :: "('k::linorder, 'v) omap \<Rightarrow> 'k \<Rightarrow> 'v res" where
  "map_at m k = (case mlookup m k of None \<Rightarrow> Inl Out_Of_Range | Some v \<Rightarrow> Inr v)"

definition add_pruned ::
  "(schedule, nat) omap \<Rightarrow> (schedule, nat) omap \<Rightarrow> schedule \<Rightarrow> nat \<Rightarrow> nat res" where
  "add_pruned naive_counts dpor_counts pre pruned_total =
     res_bind (map_at naive_counts pre) (\<lambda>naive.
     require (naive > 0) ''DPOR pruned a boundary absent from the naive tree''
     (res_bind (map_at dpor_counts pre) (\<lambda>dpor.
      require (dpor = 0) ''pruned boundary contains a DPOR representative''
      (Inr (pruned_total + naive)))))"

text \<open>Nodes are ordered by depth, then lexicographically.\<close>

definition order_nodes :: "schedule list \<Rightarrow> schedule list" where
  "order_nodes pres = sort_key (\<lambda>pre. (length pre, pre)) pres"

definition number_nodes :: "schedule list \<Rightarrow> (schedule, nat) omap" where
  "number_nodes nodes = fold (\<lambda>(index, pre) ids. memplace pre index ids) (enumerate 0 nodes) mempty"

record tree_data =
  tr_index :: tree_index
  tr_pruned :: "schedule oset"
  tr_edges :: "(schedule, inspected_step) omap"
  tr_naive_counts :: "(schedule, nat) omap"
  tr_dpor_counts :: "(schedule, nat) omap"

definition node_status :: "schedule oset \<Rightarrow> schedule \<Rightarrow> json" where
  "node_status pruned pre = JString (if omember pre pruned then ''PRUNED'' else ''EXPLORED'')"

definition node_json :: "model_checker \<Rightarrow> tree_data \<Rightarrow> nat \<times> schedule \<Rightarrow> json res" where
  "node_json mc td = (\<lambda>(index, pre).
     let pruned = omember pre (tr_pruned td);
         terminal = omember pre (ti_terminals (tr_index td)) in
     res_bind (if \<not> pruned \<and> \<not> terminal then map_at (ti_enabled_at (tr_index td)) pre
               else Inr []) (\<lambda>enabled.
     res_bind (map_at (tr_dpor_counts td) pre) (\<lambda>dpor_count.
     res_bind (map_at (tr_naive_counts td) pre) (\<lambda>naive_count.
     res_bind (if terminal
               then res_bind (mc_replay mc pre) (\<lambda>r. Inr (result_summary_json r))
               else Inr JNull) (\<lambda>outcome.
     Inr (json_object
       [(''choice_point'', JBool (\<not> pruned \<and> \<not> terminal \<and> length enabled > 1)),
        (''depth'', json_nat (length pre)),
        (''dpor_schedules_below'', json_nat dpor_count),
        (''enabled'', schedule_json enabled),
        (''enabled_threads'',
           JArray (map json_nat (mkeys (fold (\<lambda>x. oinsert (s_thread x)) enabled mempty)))),
        (''id'', json_nat index),
        (''naive_schedules_below'', json_nat naive_count),
        (''status'', node_status (tr_pruned td) pre),
        (''terminal'', JBool terminal),
        (''outcome'', outcome)]))))))"

definition absent_parent :: "schedule \<Rightarrow> string" where
  "absent_parent child =
     ''tree edge parent is absent: child_depth='' @ nat_text (length child) @
     '' parent_depth='' @ nat_text (length child - 1) @ '' child='' @
     concat (map (\<lambda>x. '' ('' @ nat_text (s_thread x) @ '','' @ nat_text (s_index x) @ '')'') child)"

definition edge_json :: "tree_data \<Rightarrow> (schedule, nat) omap \<Rightarrow> nat \<times> schedule \<Rightarrow> json res" where
  "edge_json td node_id = (\<lambda>(target, child).
     case mlookup node_id (butlast child) of
       None \<Rightarrow> Inl (Runtime_Error (absent_parent child))
     | Some source \<Rightarrow>
         (case mlookup (tr_edges td) child of
            None \<Rightarrow> Inl (Runtime_Error ''tree edge lacks action evidence'')
          | Some observed \<Rightarrow>
              Inr (json_object
                [(''action'', action_json (is_action observed)),
                 (''executed'', JBool (is_executed observed)),
                 (''source'', json_nat source),
                 (''status'', node_status (tr_pruned td) child),
                 (''step'', schedule_step_json (last child)),
                 (''target'', json_nat target)])))"

text \<open>The data of the tree, with its checks.\<close>

definition build_tree ::
  "model_checker \<Rightarrow> schedule list \<Rightarrow> schedule list \<Rightarrow> nat \<Rightarrow> tree_data res" where
  "build_tree mc naive_schedules dpor_schedules expected_pruned =
     res_bind (res_fold (index_schedule mc) dpor_schedules empty_index) (\<lambda>ti.
     let expanded = mkeys (ti_expanded ti) in
     res_bind (res_fold (prune_prefix mc ti) expanded (mempty, ti_edges ti)) (\<lambda>(pruned, edges).
     let counts = zero_counts (expanded @ mkeys pruned);
         naive_counts = count_prefixes naive_schedules counts;
         dpor_counts = count_prefixes dpor_schedules counts in
     res_bind (res_fold (add_pruned naive_counts dpor_counts) (mkeys pruned) 0) (\<lambda>pruned_total.
     require (pruned_total = expected_pruned) ''pruned subtree counts do not conserve naive schedules''
     (Inr \<lparr>tr_index = ti, tr_pruned = pruned, tr_edges = edges,
        tr_naive_counts = naive_counts, tr_dpor_counts = dpor_counts\<rparr>))))"

definition tree_json ::
  "model_checker \<Rightarrow> schedule list \<Rightarrow> schedule list \<Rightarrow> nat \<Rightarrow> json res" where
  "tree_json mc naive_schedules dpor_schedules expected_pruned =
     res_bind (build_tree mc naive_schedules dpor_schedules expected_pruned) (\<lambda>td.
     let ordered = order_nodes (mkeys (ti_expanded (tr_index td)) @ mkeys (tr_pruned td));
         node_id = number_nodes ordered in
     res_bind (res_map (node_json mc td) (enumerate 0 ordered)) (\<lambda>nodes.
     res_bind (res_map (edge_json td node_id) (drop 1 (enumerate 0 ordered))) (\<lambda>edges.
     Inr (json_object
       [(''edges'', JArray edges),
        (''expansion'', JString
          ''DPOR-reached prefixes plus exact counted boundaries for naive-only PRUNED subtrees''),
        (''nodes'', JArray nodes),
        (''root'', json_nat 0)]))))"

section \<open>The export\<close>

text \<open>\<open>std::binary_search\<close> on an ascending range: the first element that is not below.\<close>

definition binary_search :: "'a::linorder list \<Rightarrow> 'a \<Rightarrow> bool" where
  "binary_search xs x = (case dropWhile (\<lambda>y. y < x) xs of [] \<Rightarrow> False | y # _ \<Rightarrow> \<not> x < y)"

text \<open>The checks of the two explorations and their collected schedules.\<close>

definition agreed_schedules ::
  "model_checker \<Rightarrow> nat \<Rightarrow> check_result \<Rightarrow> check_result \<Rightarrow> (schedule list \<times> schedule list) res" where
  "agreed_schedules mc mx naive dpor =
     require (\<not> exploration_capped naive) ''naive exploration reached its schedule cap''
     (require (\<not> exploration_capped dpor) ''DPOR exploration reached its schedule cap''
     (require (same_bug_existence naive dpor) ''naive and DPOR bug existence differs''
     (res_bind (collect_naive_schedules (mc_program mc) mx (mc_step_bound mc) (mc_memory_model mc))
       (\<lambda>naive_schedules.
      res_bind (collect_dpor_schedules (mc_program mc) mx (mc_step_bound mc) (mc_memory_model mc))
       (\<lambda>dpor_schedules.
      require (length naive_schedules = schedules_explored naive)
        ''naive terminal collector count differs from exploration''
      (require (length dpor_schedules = schedules_explored dpor)
        ''DPOR terminal collector count differs from exploration''
      (require (length dpor_schedules \<le> length naive_schedules)
        ''DPOR explored more schedules than naive''
      (require (list_all (binary_search naive_schedules) dpor_schedules)
        ''DPOR terminal schedule is absent from naive exploration''
      (Inr (naive_schedules, dpor_schedules))))))))))"

definition pruning_json :: "nat \<Rightarrow> nat \<Rightarrow> json" where
  "pruning_json naive dpor =
     (let pruned = naive - dpor in
      json_object
        [(''dpor_schedules_explored'', json_nat dpor),
         (''naive_equivalent_schedules'', json_nat naive),
         (''pruning_fraction_denominator'', json_nat naive),
         (''pruning_fraction_numerator'', json_nat pruned),
         (''pruning_percent_milli'',
            json_nat (if naive = 0 then 0 else (pruned * 100000) mod 2 ^ 64 div naive)),
         (''schedules_pruned'', json_nat pruned)])"

text \<open>What an export reads: the files, and the microseconds that the two explorations take.\<close>

record exporter_environment =
  xe_process :: environment
  xe_naive_us :: nat
  xe_dpor_us :: nat

definition export_run :: "exporter_environment \<Rightarrow> exporter_options \<Rightarrow> json res" where
  "export_run env options =
     res_bind (parse_program_file (xe_process env) (xo_program_path options)) (\<lambda>p.
     res_bind (make_model_checker p (xo_step_bound options) (xo_memory_model options)) (\<lambda>mc.
     let mx = xo_max_schedules options in
     res_bind (mc_explore_naive mc mx) (\<lambda>naive.
     res_bind (mc_explore_dpor mc mx) (\<lambda>dpor.
     res_bind (agreed_schedules mc mx naive dpor) (\<lambda>(naive_schedules, dpor_schedules).
     let pruned = length naive_schedules - length dpor_schedules in
     res_bind (evidence_json dpor mc) (\<lambda>evidence.
     res_bind (tree_json mc naive_schedules dpor_schedules pruned) (\<lambda>tree.
     Inr (json_object
       [(''configuration'', json_object
           [(''max_schedules'', json_nat mx),
            (''step_bound_per_thread'', json_nat (xo_step_bound options))]),
        (''evidence'', evidence),
        (''memory_model'', JString (memory_model_code (xo_memory_model options))),
        (''program_id'', JString (xo_program_id options)),
        (''pruning'', pruning_json (length naive_schedules) (length dpor_schedules)),
        (''runs'', json_object
           [(''dpor'', run_json \<lparr>td_result = dpor, td_wall_clock_us = xe_dpor_us env\<rparr>
               dpor_schedules pruned),
            (''naive'', run_json \<lparr>td_result = naive, td_wall_clock_us = xe_naive_us env\<rparr>
               naive_schedules 0)]),
        (''schema_version'', json_nat 1),
        (''tree'', tree)]))))))))"

section \<open>The process\<close>

definition export_failed :: "string \<Rightarrow> process" where
  "export_failed what = Exited [] (''showcase export failed: '' @ what @ endl) 2"

definition handle_export_exception :: "exporter_environment \<Rightarrow> exn \<Rightarrow> process" where
  "handle_export_exception env e =
     (case e of
        Parse_Error line msg \<Rightarrow>
          Exited [] (''parse error'' @ (if line \<noteq> 0 then '' at line '' @ nat_text line else []) @
            '': '' @ msg @ endl) 2
      | Invalid_Argument msg \<Rightarrow> export_failed msg
      | Usage_Error msg \<Rightarrow> export_failed msg
      | Logic_Error msg \<Rightarrow> export_failed msg
      | Overflow_Error msg \<Rightarrow> export_failed msg
      | Runtime_Error msg \<Rightarrow> export_failed msg
      | Out_Of_Range \<Rightarrow> export_failed (env_range_text (xe_process env))
      | Assert_Failed msg \<Rightarrow> Aborted msg
      | Out_Of_Fuel \<Rightarrow> Aborted [])"

definition exporter_main :: "exporter_environment \<Rightarrow> string list \<Rightarrow> process" where
  "exporter_main env argv =
     (case res_bind (parse_options argv) (export_run env) of
        Inl e \<Rightarrow> handle_export_exception env e
      | Inr exported \<Rightarrow> Exited (write_json 0 exported @ newline) [] 0)"

end
