(* ===== verification/Exporter_Values.thy ===== *)
theory Exporter_Values
  imports Exporter
begin

text \<open>
  Every value that the exporter assembles is one that the writer prints as JSON: the only numbers
  are integers, and each builder keeps that.
\<close>

lemma json_ok_map: "(\<And>x. json_ok (f x)) \<Longrightarrow> json_ok (JArray (map f xs))"
  by (simp add: list_all_iff)

lemmas json_base = json_ok_nat json_ok_int json_ok_map json_ok_object json_ok_simple

lemma json_ok_action:
  "json_ok (json_name name)" "json_ok (json_val v)" "json_ok (operand_json operand)"
  "json_ok (schedule_step_json step)" "json_ok (schedule_json sch)" "json_ok (clock_json clock)"
proof -
  show name: "json_ok (json_name name)" for name by (simp add: json_name_def)
  show val: "json_ok (json_val v)" for v by (simp add: json_val_def json_base)
  show "json_ok (operand_json operand)"
    by (auto simp: operand_json_def val intro!: json_base split: option.split value_operand.split)
  show step: "json_ok (schedule_step_json step)" for step
    unfolding schedule_step_json_def by (intro json_base) (simp add: json_base json_ok_simple)
  show "json_ok (schedule_json sch)" unfolding schedule_json_def by (intro json_base step)
  show "json_ok (clock_json clock)" unfolding clock_json_def by (intro json_base)
qed

lemma json_ok_effects:
  "json_ok (action_json a)" "json_ok (register_effect_json re)" "json_ok (memory_effect_json me)"
  "json_ok (stores_json stores)" "json_ok (buffer_effect_json be)" "json_ok (timed_wait_json occ)"
proof -
  show "json_ok (action_json a)"
    unfolding action_json_def by (intro json_base) (simp add: json_base json_ok_action)
  show "json_ok (register_effect_json re)"
    unfolding register_effect_json_def by (intro json_base) (simp add: json_base json_ok_action)
  show "json_ok (memory_effect_json me)"
    unfolding memory_effect_json_def by (intro json_base) (simp add: json_base json_ok_action)
  show stores: "json_ok (stores_json stores)" for stores
  proof -
    have "json_ok (json_object [(''address'', JString a), (''value'', json_val v)])" for a v
      by (intro json_base) (simp add: json_ok_action)
    then show ?thesis by (auto simp: stores_json_def list_all_iff)
  qed
  show "json_ok (buffer_effect_json be)"
    unfolding buffer_effect_json_def by (intro json_base) (simp add: json_base stores)
  show "json_ok (timed_wait_json occ)"
    unfolding timed_wait_json_def by (intro json_base) (simp add: json_base)
qed

lemma json_ok_results:
  "json_ok (bug_shape_json r)" "list_all (\<lambda>(k, v). json_ok v) (result_summary r)"
  "json_ok (result_summary_json r)" "json_ok (run_json td schedules n)"
  "json_ok (blocked_thread_json blocked)" "json_ok (blockers_json deadlock)"
  "json_ok (pruning_json n k)"
proof -
  show shape: "json_ok (bug_shape_json r)" for r
    unfolding bug_shape_json_def by (intro json_base) simp
  show summary: "list_all (\<lambda>(k, v). json_ok v) (result_summary r)" for r
    by (simp add: result_summary_def shape json_base)
  show "json_ok (result_summary_json r)"
    unfolding result_summary_json_def by (intro json_base summary)
  show "json_ok (run_json td schedules n)"
    unfolding run_json_def by (intro json_base) (simp add: summary json_base)
  show blocked: "json_ok (blocked_thread_json blocked)" for blocked
    unfolding blocked_thread_json_def by (intro json_base) (simp add: json_base json_ok_action)
  show "json_ok (blockers_json deadlock)" unfolding blockers_json_def by (intro json_base blocked)
  show "json_ok (pruning_json n k)"
    unfolding pruning_json_def Let_def by (intro json_base) (simp add: json_base)
qed

lemma json_ok_fields:
  "list_all (\<lambda>(k, v). json_ok v) (deadlock_fields deadlock)"
  "list_all (\<lambda>(k, v). json_ok v) (error_fields_json error)"
  "list_all (\<lambda>(k, v). json_ok v) (assertion_fields assertion)"
  "list_all (\<lambda>(k, v). json_ok v) (nontermination_fields nt)"
  by (simp_all add: deadlock_fields_def error_fields_json_def assertion_fields_def
      nontermination_fields_def json_base json_ok_action json_ok_results)

text \<open>The builders that may throw.\<close>

lemma json_ok_inspected:
  "inspected_step_json step i trace = Inr j \<Longrightarrow> json_ok j"
  unfolding inspected_step_json_def
  by (auto simp: res_simps json_base json_ok_action json_ok_effects intro!: json_ok_object
      simp del: json_ok.simps(2))

lemma res_map_all:
  "res_map f xs = Inr ys \<Longrightarrow> \<forall>x y. f x = Inr y \<longrightarrow> P y \<Longrightarrow> list_all P ys"
  by (induction xs arbitrary: ys) (auto simp: res_simps)

lemma json_ok_trace:
  "detailed_trace_json trace = Inr j \<Longrightarrow> json_ok j"
  unfolding detailed_trace_json_def
  by (auto simp: res_simps dest!: res_map_all [where P = json_ok] dest: json_ok_inspected)

lemma json_ok_conflict: "conflict_json race trace = Inr j \<Longrightarrow> json_ok j"
  unfolding conflict_json_def
  by (auto simp: res_simps json_ok_action intro!: json_ok_object)

lemma json_ok_primary:
  assumes "replay_primary_report_json q mc = Inr j"
  shows "json_ok j"
proof -
  have "list_all (\<lambda>(k, v). json_ok v) fields" if "primary_report q mc = Inr (sch, fields)" for sch fields
    using that unfolding primary_report_def
    by (auto simp: res_simps json_base json_ok_action json_ok_results json_ok_conflict split: option.splits)
  then show ?thesis
    using assms unfolding replay_primary_report_json_def
    by (auto simp: res_simps json_ok_action json_ok_trace intro!: json_ok_object)
qed

lemma json_ok_witness:
  assumes "witness_for mc r first_of kind msg sch_of fields_of = Inr js"
    and "\<And>report fields. fields_of report = Inr fields \<Longrightarrow> list_all (\<lambda>(k, v). json_ok v) fields"
  shows "list_all json_ok js"
proof -
  have "list_all (\<lambda>(k, v). json_ok v) base" if "base_witness kind sch mc = Inr base" for sch base
    using that unfolding base_witness_def
    by (auto simp: res_simps json_ok_action json_ok_results dest: json_ok_primary json_ok_trace)
  then show ?thesis
    using assms unfolding witness_for_def
    by (auto simp: res_simps require_def intro!: json_ok_object split: option.splits)
qed

lemma json_ok_evidence:
  assumes "evidence_json r mc = Inr j"
  shows "json_ok j"
proof -
  have "list_all (\<lambda>(k, v). json_ok v) fields" if "race_fields mc race = Inr fields" for race fields
    using that by (auto simp: race_fields_def res_simps dest: json_ok_conflict)
  then have "json_ok w" if "witnesses_json r mc = Inr w" for w
    using that unfolding witnesses_json_def
    by (auto simp: res_simps json_ok_fields dest!: json_ok_witness)
  then show ?thesis
    using assms unfolding evidence_json_def
    by (auto simp: res_simps json_ok_results intro!: json_ok_object)
qed

end
