(* ===== verification/Dpor_Progress.thy ===== *)
theory Dpor_Progress
  imports Dpor_Correct
begin

text \<open>
  Two facts of the DPOR search that need no invariant: collecting the terminal schedules changes
  nothing else, and a search that starts with an empty sleep set and has budget left counts at
  least one execution.
\<close>

section \<open>Collecting is an observation\<close>

definition forget :: "dpor_search \<Rightarrow> dpor_search" where
  "forget ds = ds\<lparr>ds_schedules := None\<rparr>"

definition forgets :: "(dpor_search \<Rightarrow> dpor_search res) \<Rightarrow> bool" where
  "forgets f \<longleftrightarrow> (\<forall>ds. f (forget ds) = map_sum id forget (f ds))"

lemma forgetsD: "forgets f \<Longrightarrow> f (forget ds) = map_sum id forget (f ds)"
  by (simp add: forgets_def)

lemma map_res_bind: "map_sum id g (res_bind m f) = res_bind m (\<lambda>x. map_sum id g (f x))"
  by (simp add: res_bind_def split: sum.split)

lemma map_if: "map_sum id g (if c then m else n) = (if c then map_sum id g m else map_sum id g n)"
  by simp

lemma res_bind_map: "res_bind (map_sum id g m) f = res_bind m (\<lambda>x. f (g x))"
  by (simp add: res_bind_def map_sum_def split: sum.split)

lemma forget_fields [simp]:
  "ds_result (forget ds) = ds_result ds" "ds_nodes (forget ds) = ds_nodes ds"
  "ds_trace (forget ds) = ds_trace ds" "ds_history (forget ds) = ds_history ds"
  by (simp_all add: forget_def)

lemma forget_updates [simp]:
  "push_schedule sch (forget ds) = forget (push_schedule sch ds)"
  "on_result g (forget ds) = forget (on_result g ds)"
  "set_nodes ns (forget ds) = forget (set_nodes ns ds)"
  "on_node i h (forget ds) = forget (on_node i h ds)"
  "pop_node (forget ds) = forget (pop_node ds)"
  "(forget ds)\<lparr>ds_history := hs\<rparr> = forget (ds\<lparr>ds_history := hs\<rparr>)"
  "(forget ds)\<lparr>ds_trace := tr\<rparr> = forget (ds\<lparr>ds_trace := tr\<rparr>)"
  "(forget ds)\<lparr>ds_result := r\<rparr> = forget (ds\<lparr>ds_result := r\<rparr>)"
  "(forget ds)\<lparr>ds_nodes := ns, ds_trace := tr\<rparr> = forget (ds\<lparr>ds_nodes := ns, ds_trace := tr\<rparr>)"
  by (simp_all add: forget_def push_schedule_def on_result_def set_nodes_def on_node_def pop_node_def)

lemma forgets_parts:
  "forgets (dpor_leaf p s)" "forgets (dpor_sleep_blocked p s)"
  "forgets (dpor_terminal p depth s s')" "forgets (dpor_cycle p depth s' k)"
  "forgets (dpor_descend p depth s q t)"
  "dpor_bounded depth s x (forget ds) = forget (dpor_bounded depth s x ds)"
  "dpor_return depth x c (forget ds) = forget (dpor_return depth x c ds)"
  by (auto simp: forgets_def dpor_leaf_def dpor_sleep_blocked_def dpor_terminal_def dpor_cycle_def
      dpor_descend_def dpor_bounded_def dpor_return_def Let_def map_res_bind map_if cong: if_cong)

lemma forgets_follow:
  assumes "\<And>s' sl. forgets (search s' sl)"
  shows "dpor_follow p depth detect s s' q t search (forget ds) =
    map_sum id (apfst forget) (dpor_follow p depth detect s s' q t search ds)"
  using forgetsD [OF assms] forgetsD [OF forgets_parts(3)] forgetsD [OF forgets_parts(4)]
  by (auto simp: dpor_follow_def map_res_bind res_bind_map res_bind_def split: sum.split option.split)

lemma forgets_choose:
  assumes "\<And>s' sl. forgets (search s' sl)"
  shows "forgets (dpor_choose p depth detect s x search)"
  using forgets_follow [of search, OF assms] forgetsD [OF forgets_parts(5)]
  by (auto simp: forgets_def dpor_choose_def Let_def res_bind_def forgets_parts(7)
      split: option.split sum.split)

lemma forgets_search:
  "forgets (dpor_dfs n p mx b detect s sl)" "forgets (dpor_choices n p mx b detect s depth)"
proof (induction n arbitrary: s sl depth)
  case 0
  case 1
  show ?case by (simp add: forgets_def)
next
  case 0
  case 2
  show ?case by (simp add: forgets_def)
next
  case (Suc n)
  case 1
  show ?case
    by (simp add: forgets_def Let_def map_res_bind res_bind_map map_if
        forgetsD [OF forgets_parts(1)] forgetsD [OF forgets_parts(2)] forgetsD [OF Suc(2)] cong: if_cong)
next
  case (Suc n)
  case 2
  show ?case
    by (simp add: forgets_def Let_def map_res_bind res_bind_map map_if forgets_parts(6)
        forgetsD [OF forgets_choose [of "dpor_dfs n p mx b detect", OF Suc(1)]] forgetsD [OF Suc(2)]
        split: option.split cong: if_cong)
qed

lemma collecting_observes:
  "map_sum id forget (dpor_search_from_start p mx b m True) = dpor_search_from_start p mx b m False"
proof -
  have "forget (initial_search p m True) = initial_search p m False"
    by (simp add: initial_search_def forget_def)
  then show ?thesis
    unfolding dpor_search_from_start_def using forgetsD [OF forgets_search(1)] by metis
qed

section \<open>The count only grows\<close>

definition grows :: "(dpor_search \<Rightarrow> dpor_search res) \<Rightarrow> bool" where
  "grows f \<longleftrightarrow> (\<forall>ds ds'. f ds = Inr ds' \<longrightarrow>
     schedules_explored (ds_result ds) \<le> schedules_explored (ds_result ds'))"

lemma growsD:
  "grows f \<Longrightarrow> f ds = Inr ds' \<Longrightarrow>
   schedules_explored (ds_result ds) \<le> schedules_explored (ds_result ds')"
  by (simp add: grows_def)

lemma explored_simps [simp]:
  "schedules_explored (count_schedule r) = Suc (schedules_explored r)"
  "schedules_explored (record_step_report q r) = schedules_explored r"
  by (simp_all add: record_step_report_def)

lemma explored_cycle:
  "record_nontermination nt r = Inr r' \<Longrightarrow> schedules_explored r' = Suc (schedules_explored r)"
  by (auto simp: record_nontermination_def Let_def res_simps split: fairness.splits if_splits)

text \<open>The leaves of the search count one execution each.\<close>

lemma leaves_count:
  "dpor_leaf p s ds = Inr ds' \<Longrightarrow>
     schedules_explored (ds_result ds') = Suc (schedules_explored (ds_result ds))"
  "dpor_terminal p depth s s' ds = Inr ds' \<Longrightarrow>
     schedules_explored (ds_result ds') = Suc (schedules_explored (ds_result ds))"
  "dpor_cycle p depth s' k ds = Inr ds' \<Longrightarrow>
     schedules_explored (ds_result ds') = Suc (schedules_explored (ds_result ds))"
  "schedules_explored (ds_result (dpor_bounded depth s x ds)) = Suc (schedules_explored (ds_result ds))"
  by (auto simp: dpor_leaf_def dpor_terminal_def dpor_cycle_def dpor_bounded_def Let_def res_simps
      explored_cycle split: if_splits)

lemma parts_keep_count:
  "dpor_sleep_blocked p s ds = Inr ds' \<Longrightarrow> ds_result ds' = ds_result ds"
  "dpor_descend p depth s q t ds = Inr ds' \<Longrightarrow>
     schedules_explored (ds_result ds') = schedules_explored (ds_result ds)"
  "ds_result (dpor_return depth x c ds) = ds_result ds"
  by (auto simp: dpor_sleep_blocked_def dpor_descend_def dpor_return_def Let_def res_simps split: if_splits)

lemma grows_follow:
  assumes "\<And>s' sl. grows (search s' sl)"
    and "dpor_follow p depth detect s s' q t search ds = Inr (ds', c)"
  shows "schedules_explored (ds_result ds) \<le> schedules_explored (ds_result ds')"
  using assms(2) growsD [OF assms(1)]
  by (fastforce simp: dpor_follow_def res_simps dest: leaves_count(2,3) split: if_splits option.splits)

lemma dpor_choose_cases:
  assumes "dpor_choose p depth detect s x search ds = Inr ds'"
  obtains s' q t ds1 ds2 c where "dpor_descend p depth s q t ds = Inr ds1"
    "dpor_follow p depth detect s s' q t search ds1 = Inr (ds2, c)" "ds' = dpor_return depth x c ds2"
  using assms by (auto simp: dpor_choose_def Let_def res_simps split: option.splits)

lemma grows_choose:
  assumes "\<And>s' sl. grows (search s' sl)"
  shows "grows (dpor_choose p depth detect s x search)"
  unfolding grows_def
proof (intro allI impI)
  fix ds ds' assume "dpor_choose p depth detect s x search ds = Inr ds'"
  then obtain s' q t ds1 ds2 c where run: "dpor_descend p depth s q t ds = Inr ds1"
      "dpor_follow p depth detect s s' q t search ds1 = Inr (ds2, c)" "ds' = dpor_return depth x c ds2"
    by (rule dpor_choose_cases)
  show "schedules_explored (ds_result ds) \<le> schedules_explored (ds_result ds')"
    using grows_follow [OF assms run(2)] parts_keep_count(2) [OF run(1)]
    by (simp add: run(3) parts_keep_count(3))
qed

text \<open>One call of the loop over the choices of a node.\<close>

lemma dpor_choices_cases:
  assumes "dpor_choices (Suc n) p mx b detect s depth ds = Inr ds'"
  obtains (1) "ds' = ds" "mx \<le> schedules_explored (ds_result ds) \<or>
        next_unexplored_backtrack (ds_nodes ds ! depth) = None"
    | (2) x where "next_unexplored_backtrack (ds_nodes ds ! depth) = Some x"
        "dpor_choices n p mx b detect s depth (on_node depth (mark_done x) ds) = Inr ds'"
        "x \<notin> set (dn_enabled (ds_nodes (on_node depth (mark_done x) ds) ! depth)) \<or>
         x \<in> set (dn_sleep (ds_nodes (on_node depth (mark_done x) ds) ! depth))"
    | (3) x where "next_unexplored_backtrack (ds_nodes ds ! depth) = Some x"
        "x \<in> set (dn_enabled (ds_nodes (on_node depth (mark_done x) ds) ! depth))"
        "step_bound_reached s (s_thread x) b"
        "dpor_choices n p mx b detect s depth
           (dpor_bounded depth s x (on_node depth (mark_done x) ds)) = Inr ds'"
    | (4) x ds1 where "next_unexplored_backtrack (ds_nodes ds ! depth) = Some x"
        "x \<in> set (dn_enabled (ds_nodes (on_node depth (mark_done x) ds) ! depth))"
        "\<not> step_bound_reached s (s_thread x) b"
        "dpor_choose p depth detect s x (dpor_dfs n p mx b detect) (on_node depth (mark_done x) ds) = Inr ds1"
        "dpor_choices n p mx b detect s depth ds1 = Inr ds'"
proof (cases "next_unexplored_backtrack (ds_nodes ds ! depth)")
  case None
  then show ?thesis using assms that(1) by (simp split: if_splits)
next
  case (Some x)
  define ds1 where "ds1 = on_node depth (mark_done x) ds"
  define node where "node = ds_nodes ds1 ! depth"
  consider "mx \<le> schedules_explored (ds_result ds)" "ds' = ds"
    | "x \<notin> set (dn_enabled node) \<or> x \<in> set (dn_sleep node)"
        "dpor_choices n p mx b detect s depth ds1 = Inr ds'"
    | "x \<in> set (dn_enabled node)" "step_bound_reached s (s_thread x) b"
        "dpor_choices n p mx b detect s depth (dpor_bounded depth s x ds1) = Inr ds'"
    | ds2 where "x \<in> set (dn_enabled node)" "\<not> step_bound_reached s (s_thread x) b"
        "dpor_choose p depth detect s x (dpor_dfs n p mx b detect) ds1 = Inr ds2"
        "dpor_choices n p mx b detect s depth ds2 = Inr ds'"
    using assms unfolding dpor_choices.simps Some option.case Let_def ds1_def [symmetric] node_def [symmetric]
    by (auto simp: res_simps split: if_splits)
  then show ?thesis
  proof cases
    case 1
    then show ?thesis using that(1) by simp
  next
    case 2
    then show ?thesis using that(2) [OF Some] unfolding ds1_def node_def by blast
  next
    case 3
    then show ?thesis using that(3) [OF Some] unfolding ds1_def node_def by blast
  next
    case (4 ds2)
    then show ?thesis using that(4) [OF Some] unfolding ds1_def node_def by blast
  qed
qed

lemma grows_search:
  "grows (dpor_dfs n p mx b detect s sl)" "grows (dpor_choices n p mx b detect s depth)"
proof (induction n arbitrary: s sl depth)
  case 0
  case 1
  show ?case by (simp add: grows_def)
next
  case 0
  case 2
  show ?case by (simp add: grows_def)
next
  case (Suc n)
  case 1
  show ?case
    using growsD [OF Suc(2)]
    by (fastforce simp: grows_def Let_def res_simps dest: leaves_count(1) parts_keep_count(1) split: if_splits)
next
  case (Suc n)
  case 2
  have choose: "grows (dpor_choose p depth detect s x (dpor_dfs n p mx b detect))" for x
    by (rule grows_choose) (rule Suc(1))
  show ?case
    unfolding grows_def
  proof (intro allI impI)
    fix ds ds' assume run: "dpor_choices (Suc n) p mx b detect s depth ds = Inr ds'"
    show "schedules_explored (ds_result ds) \<le> schedules_explored (ds_result ds')"
    proof (cases rule: dpor_choices_cases [OF run])
      case (2 x)
      then show ?thesis using growsD [OF Suc(2) 2(2)] by simp
    next
      case (3 x)
      then show ?thesis using growsD [OF Suc(2) 3(4)] by (simp add: leaves_count(4))
    next
      case (4 x ds1)
      then show ?thesis using growsD [OF choose 4(4)] growsD [OF Suc(2) 4(5)] by simp
    qed simp
  qed
qed

section \<open>Something is explored\<close>

text \<open>Backtrack points wake steps up; they put none to sleep.\<close>

lemma awake_points:
  "dn_sleep n = [] \<Longrightarrow> dn_sleep (add_backtrack x n) = []"
  "dn_sleep n = [] \<Longrightarrow> dn_sleep (repair_node p t n) = []"
proof -
  have "dn_sleep (add_repair_steps steps n) = []" if "dn_sleep n = []" for steps n
    unfolding add_repair_steps_def using that by (induction steps arbitrary: n) simp_all
  then show "dn_sleep n = [] \<Longrightarrow> dn_sleep (repair_node p t n) = []"
    by (simp add: repair_node_def add_all_enabled_repair_steps_def split: option.split)
qed (simp add: add_backtrack_def)

lemma awake_at_node:
  assumes "dn_sleep (ns ! j) = []" "\<And>n. dn_sleep n = [] \<Longrightarrow> dn_sleep (f n) = []"
  shows "dn_sleep (at_node i f ns ! j) = []"
  using assms by (cases "i = j"; cases "j < length ns") (simp_all add: at_node_def list_update_beyond)

lemma awake_scan:
  assumes "dn_sleep (ns ! j) = []"
  shows "dn_sleep (scan_prefix p m trace current k n disabled ns ! j) = []"
proof -
  have "dn_sleep (fold (\<lambda>i. at_node i (repair_node p current)) is ns ! j) = []"
    if "dn_sleep (ns ! j) = []" for "is" ns
    using that by (induction "is" arbitrary: ns) (simp_all add: awake_at_node awake_points)
  then show ?thesis
    using assms by (auto simp: scan_prefix_spec awake_at_node awake_points split: option.split)
qed

lemma awake_descend:
  assumes "dpor_descend p depth s q t ds = Inr ds1" "dn_sleep (ds_nodes ds ! j) = []"
  shows "dn_sleep (ds_nodes ds1 ! j) = []"
  using assms awake_scan
  by (auto simp: dpor_descend_def add_backtracks_for_transition_def
      add_backtracks_for_transition_against_prefix_def Let_def res_simps split: if_splits)

text \<open>A search counts an execution when it starts with an empty sleep set.\<close>

definition progresses :: "nat \<Rightarrow> (dpor_search \<Rightarrow> dpor_search res) \<Rightarrow> bool" where
  "progresses mx f \<longleftrightarrow> (\<forall>ds ds'. f ds = Inr ds' \<longrightarrow> schedules_explored (ds_result ds) < mx \<longrightarrow>
     schedules_explored (ds_result ds) < schedules_explored (ds_result ds'))"

lemma progresses_choose:
  assumes search: "\<And>s'. progresses mx (search s' [])"
    and run: "dpor_choose p depth detect s x search ds = Inr ds'"
    and awake: "dn_sleep (ds_nodes ds ! depth) = []" and room: "schedules_explored (ds_result ds) < mx"
  shows "schedules_explored (ds_result ds) < schedules_explored (ds_result ds')"
proof -
  obtain s' q t ds1 ds2 c where parts: "dpor_descend p depth s q t ds = Inr ds1"
      "dpor_follow p depth detect s s' q t search ds1 = Inr (ds2, c)" "ds' = dpor_return depth x c ds2"
    using run by (rule dpor_choose_cases)
  have "inherited_sleep_set p s' (ds_nodes ds1 ! depth) t = []"
    using awake_descend [OF parts(1) awake] by (simp add: inherited_sleep_set_def)
  then have "schedules_explored (ds_result ds1) < schedules_explored (ds_result ds2)"
    using parts(2) search [of s'] room unfolding progresses_def parts_keep_count(2) [OF parts(1), symmetric]
    by (fastforce simp: dpor_follow_def res_simps dest: leaves_count(2,3) split: if_splits option.splits)
  then show ?thesis using parts_keep_count(2) [OF parts(1)] by (simp add: parts(3) parts_keep_count(3))
qed

lemma progresses_level:
  assumes deeper: "\<And>n' s. n = Suc n' \<Longrightarrow> progresses mx (dpor_dfs n' p mx b detect s [])"
  shows "progresses mx (dpor_dfs (Suc n) p mx b detect s [])"
  unfolding progresses_def
proof (intro allI impI)
  fix ds ds'
  assume run: "dpor_dfs (Suc n) p mx b detect s [] ds = Inr ds'"
    and room: "schedules_explored (ds_result ds) < mx"
  define node where "node = dpor_node_for p s []"
  have node: "node_ok node" "dn_backtrack node = []" "dn_done node = []" "dn_sleep node = []"
    by (simp_all add: node_def node_ok_dpor_node_for) (simp_all add: dpor_node_for_def)
  show "schedules_explored (ds_result ds) < schedules_explored (ds_result ds')"
  proof (cases "dn_enabled node = []")
    case True
    then show ?thesis
      using run room leaves_count(1) by (fastforce simp: node_def [symmetric] Let_def)
  next
    case False
    obtain node1 where node1: "initialize_dpor_backtrack p s node = Inr node1" "node_frame node node1"
        "dn_sleep node1 = []" "dn_backtrack node1 \<noteq> []"
      using initialize_completes [OF node(1,2), of p s] node(4) False by fastforce
    define ds2 where "ds2 = set_nodes (ds_nodes ds @ [node1]) ds"
    obtain n' ds3 where loop: "n = Suc n'" "dpor_choices (Suc n') p mx b detect s (length (ds_nodes ds)) ds2 = Inr ds3"
        "ds' = pop_node ds3"
      using run room False node1 by (cases n) (auto simp: node_def [symmetric] ds2_def Let_def res_simps)
    have last: "ds_nodes ds2 ! length (ds_nodes ds) = node1" by (simp add: ds2_def)
    have first: "next_unexplored_backtrack node1 = Some (hd (dn_backtrack node1))"
      using node1(2,4) node(3)
      by (cases "dn_backtrack node1") (simp_all add: next_unexplored_backtrack_def node_frame_def)
    have "hd (dn_backtrack node1) \<in> set (dn_enabled node1)"
      using node1(2) node(1) hd_in_set [OF node1(4)] unfolding node_frame_def node_ok_def by blast
    then have marked: "x \<in> set (dn_enabled (ds_nodes (on_node (length (ds_nodes ds)) (mark_done x) ds2) ! length (ds_nodes ds)))"
        "dn_sleep (ds_nodes (on_node (length (ds_nodes ds)) (mark_done x) ds2) ! length (ds_nodes ds)) = []"
      if "next_unexplored_backtrack (ds_nodes ds2 ! length (ds_nodes ds)) = Some x" for x
      using that first node1(3) unfolding last
      by (simp_all add: ds2_def at_node_def nth_append mark_done_def)
    have "schedules_explored (ds_result ds2) < schedules_explored (ds_result ds3)"
    proof (cases rule: dpor_choices_cases [OF loop(2)])
      case 1
      then show ?thesis using first room unfolding last by (simp add: ds2_def)
    next
      case (2 x)
      then show ?thesis using marked [OF 2(1)] by simp
    next
      case (3 x)
      then show ?thesis using growsD [OF grows_search(2) 3(4)] by (simp add: leaves_count(4))
    next
      case (4 x ds4)
      have "schedules_explored (ds_result ds2) < schedules_explored (ds_result ds4)"
        using progresses_choose [OF deeper [OF loop(1)] 4(4) marked(2) [OF 4(1)]] room
        by (simp add: ds2_def)
      then show ?thesis using growsD [OF grows_search(2) 4(5)] by simp
    qed
    then show ?thesis by (simp add: loop(3) ds2_def)
  qed
qed

lemma progresses_dfs: "progresses mx (dpor_dfs n p mx b detect s [])"
proof (induction n arbitrary: s rule: less_induct)
  case (less n)
  show ?case
  proof (cases n)
    case (Suc n1)
    show ?thesis unfolding Suc by (rule progresses_level) (simp add: less Suc)
  qed (simp add: progresses_def)
qed

lemma dpor_explores_something:
  assumes "dpor_search_from_start p mx b m collect = Inr ds" "0 < mx"
  shows "0 < schedules_explored (ds_result ds)"
  using progresses_dfs assms unfolding progresses_def dpor_search_from_start_def
  by (fastforce simp: initial_search_def empty_result_def)

end
