(* ===== verification/Exporter_Tree.thy ===== *)
theory Exporter_Tree
  imports Exporter_Values Dpor_Progress
begin

text \<open>
  The tree of an export. The locale \<open>explored_tree\<close> states what the exporter relies on: complete
  schedules are prefix-free, an inspection shows the same step at the same prefix whatever
  follows, and every step that is offered at an inner prefix goes on to some complete schedule.
  From that the tree is built without a failing check, and the schedules below the pruned
  boundaries are exactly those that were not explored.
\<close>

section \<open>Counting prefixes\<close>

lemma mlookup_bump:
  "mlookup (bump pre counts) q =
     map_option (\<lambda>n. n + (if q = pre then 1 else 0)) (mlookup counts q)"
  by (auto simp: bump_def option.map_ident split: option.split)

lemma mlookup_bump_prefixes:
  "mlookup (bump_prefixes pre xs counts) q =
     map_option (\<lambda>n. n + (if strict_prefix pre q \<and> prefix q (pre @ xs) then 1 else 0)) (mlookup counts q)"
proof (induction xs arbitrary: pre counts)
  case Nil
  have "\<not> (strict_prefix pre q \<and> prefix q (pre @ []))" by (auto simp: strict_prefix_def)
  then show ?case by (simp only: bump_prefixes.simps if_False add_0_right option.map_ident)
next
  case (Cons x xs)
  have "(if q = pre @ [x] then 1 else 0) + (if strict_prefix (pre @ [x]) q \<and> prefix q (pre @ x # xs) then 1 else 0) =
      (if strict_prefix pre q \<and> prefix q (pre @ x # xs) then 1 else 0 :: nat)"
    by (auto simp: strict_prefix_def prefix_def append_eq_append_conv2 append_eq_Cons_conv Cons_eq_append_conv)
  then show ?case by (simp add: Cons.IH mlookup_bump option.map_comp comp_def add.assoc)
qed

lemma mlookup_count_prefixes:
  "mlookup (count_prefixes ss counts) q =
     map_option (\<lambda>n. n + length (filter (prefix q) ss)) (mlookup counts q)"
proof (induction ss arbitrary: counts)
  case Nil
  then show ?case by (simp add: count_prefixes_def option.map_ident)
next
  case (Cons sch ss)
  have "(if q = [] then 1 else 0) + (if strict_prefix [] q \<and> prefix q sch then 1 else 0) =
      (if prefix q sch then 1 else 0 :: nat)"
    by (auto simp: strict_prefix_def)
  then show ?case
    using Cons.IH [of "bump_prefixes [] sch (bump [] counts)"]
    by (auto simp: count_prefixes_def mlookup_bump_prefixes mlookup_bump option.map_comp comp_def)
qed

lemma mlookup_zero_counts:
  "mlookup (zero_counts qs) q = (if q \<in> set qs then Some 0 else None)"
proof -
  have "mlookup (fold (\<lambda>pre counts. memplace pre 0 counts) qs m) q =
      (if q \<in> set qs then Some (mget 0 m q) else mlookup m q)" for m :: "(schedule, nat) omap"
    by (induction qs arbitrary: m) (auto simp: mget_def)
  then show ?thesis by (simp add: zero_counts_def)
qed

lemma enumerated: "(i, q) \<in> set (enumerate n qs) \<Longrightarrow> q \<in> set qs"
  by (induction qs arbitrary: n) auto

lemma order_nodes_first:
  assumes "distinct qs" "[] \<in> set qs"
  shows "set (order_nodes qs) = set qs" "(i, q) \<in> set (drop 1 (enumerate 0 (order_nodes qs))) \<Longrightarrow> q \<noteq> []"
proof -
  let ?ks = "order_nodes qs"
  show all: "set ?ks = set qs" by (simp add: order_nodes_def)
  then obtain k ks where ks: "?ks = k # ks" using assms(2) by (cases ?ks) auto
  have "sorted (map (\<lambda>pre. (length pre, pre)) ?ks)" unfolding order_nodes_def by (rule sorted_sort_key)
  then have "\<forall>r\<in>set ks. (length k, k) \<le> (length r, r)" by (simp add: ks)
  moreover have "[] \<in> set (k # ks)" using all assms(2) by (simp add: ks)
  ultimately have "k = []" by (auto simp: less_eq_prod_def)
  moreover have "distinct (k # ks)" using assms(1) unfolding ks [symmetric] order_nodes_def by simp
  ultimately have "[] \<notin> set ks" by simp
  moreover have "q \<in> set ks" if "(i, q) \<in> set (drop 1 (enumerate 0 ?ks))"
    using that enumerated unfolding ks by simp
  ultimately show "(i, q) \<in> set (drop 1 (enumerate 0 ?ks)) \<Longrightarrow> q \<noteq> []" by blast
qed

lemma res_map_completes:
  "\<forall>x\<in>set xs. \<exists>y. f x = Inr y \<and> P y \<Longrightarrow> \<exists>ys. res_map f xs = Inr ys \<and> list_all P ys"
  by (induction xs) auto

section \<open>The contract\<close>

text \<open>The inspection of a schedule whose first steps are \<open>pre\<close>.\<close>

fun trace_from ::
  "(schedule \<Rightarrow> schedule_step \<Rightarrow> inspected_step) \<Rightarrow> schedule \<Rightarrow> schedule \<Rightarrow> inspected_step list" where
  "trace_from f pre [] = []"
| "trace_from f pre (x # xs) = f pre x # trace_from f (pre @ [x]) xs"

lemma length_trace_from [simp]: "length (trace_from f pre xs) = length xs"
  by (induction xs arbitrary: pre) simp_all

locale explored_tree =
  fixes mc :: model_checker
    and obs :: "schedule \<Rightarrow> schedule_step \<Rightarrow> inspected_step"
    and enabled_at :: "schedule \<Rightarrow> schedule_step list"
    and complete :: "schedule \<Rightarrow> bool"
  assumes inspected: "complete sch \<Longrightarrow> mc_inspect_schedule mc sch = Inr (trace_from obs [] sch)"
    and offered: "complete sch \<Longrightarrow> strict_prefix pre sch \<Longrightarrow> x \<in> set (enabled_at pre) \<Longrightarrow>
      mc_inspect_schedule mc (pre @ [x]) = Inr (trace_from obs [] (pre @ [x]))"
    and extended: "complete sch \<Longrightarrow> strict_prefix pre sch \<Longrightarrow> x \<in> set (enabled_at pre) \<Longrightarrow>
      \<exists>sch'. complete sch' \<and> prefix (pre @ [x]) sch'"
    and prefix_free: "complete sch \<Longrightarrow> complete sch' \<Longrightarrow> prefix sch sch' \<Longrightarrow> sch = sch'"
    and taken: "complete sch \<Longrightarrow> prefix (pre @ [x]) sch \<Longrightarrow> x \<in> set (enabled_at pre)"
    and enabled_shown: "is_enabled_before (obs pre x) = enabled_at pre"
    and replayed: "complete sch \<Longrightarrow> \<exists>r. mc_replay mc sch = Inr r"
begin

definition edge_obs :: "schedule \<Rightarrow> inspected_step" where
  "edge_obs q = obs (butlast q) (last q)"

definition consistent :: "tree_index \<Rightarrow> bool" where
  "consistent ti \<longleftrightarrow>
     (\<forall>q e. mlookup (ti_enabled_at ti) q = Some e \<longrightarrow> e = enabled_at q) \<and>
     (\<forall>q e. mlookup (ti_edges ti) q = Some e \<longrightarrow> e = edge_obs q)"

lemma emplace_consistent:
  assumes "\<And>e. mlookup m k = Some e \<Longrightarrow> e = v"
  shows "\<exists>m'. emplace_same k v msg m = Inr m' \<and>
    (\<forall>q. mlookup m' q = (if q = k then Some v else mlookup m q))"
  using assms by (auto simp: emplace_same_def require_def split: option.split)

lemma index_steps_completes:
  assumes "consistent ti"
  shows "\<exists>ti'. index_steps pre (zip xs (trace_from obs pre xs)) ti = Inr ti' \<and> consistent ti' \<and>
    (\<forall>q. omember q (ti_expanded ti') \<longleftrightarrow>
       omember q (ti_expanded ti) \<or> strict_prefix pre q \<and> prefix q (pre @ xs)) \<and>
    ti_terminals ti' = ti_terminals ti \<and>
    (\<forall>q. mlookup (ti_enabled_at ti') q =
       (if prefix pre q \<and> strict_prefix q (pre @ xs) then Some (enabled_at q)
        else mlookup (ti_enabled_at ti) q)) \<and>
    (\<forall>q. mlookup (ti_edges ti') q =
       (if strict_prefix pre q \<and> prefix q (pre @ xs) then Some (edge_obs q)
        else mlookup (ti_edges ti) q))"
  using assms
proof (induction xs arbitrary: pre ti)
  case Nil
  have none: "\<not> (strict_prefix pre q \<and> prefix q pre)" "\<not> (prefix pre q \<and> strict_prefix q pre)" for q
    by (auto simp: strict_prefix_def)
  then show ?case using Nil by auto
next
  case (Cons x xs)
  obtain en where en: "emplace_same pre (is_enabled_before (obs pre x))
      ''same numeric prefix produced different enabled sets'' (ti_enabled_at ti) = Inr en"
      "\<And>q. mlookup en q = (if q = pre then Some (enabled_at pre) else mlookup (ti_enabled_at ti) q)"
    using emplace_consistent [of "ti_enabled_at ti" pre "enabled_at pre"] Cons.prems
    unfolding consistent_def enabled_shown by blast
  have edge: "edge_obs (pre @ [x]) = obs pre x" by (simp add: edge_obs_def)
  obtain ed where ed: "emplace_same (pre @ [x]) (obs pre x)
      ''same numeric prefix produced different transition evidence'' (ti_edges ti) = Inr ed"
      "\<And>q. mlookup ed q = (if q = pre @ [x] then Some (edge_obs (pre @ [x])) else mlookup (ti_edges ti) q)"
    using emplace_consistent [of "ti_edges ti" "pre @ [x]" "obs pre x"] Cons.prems
    unfolding consistent_def edge [symmetric] by blast
  define ti1 where "ti1 = ti\<lparr>ti_expanded := oinsert (pre @ [x]) (ti_expanded ti), ti_enabled_at := en,
      ti_edges := ed\<rparr>"
  have "consistent ti1"
    using Cons.prems by (auto simp: consistent_def ti1_def en(2) ed(2) split: if_splits)
  from Cons.IH [OF this, of "pre @ [x]"] obtain ti' where
    ti': "index_steps (pre @ [x]) (zip xs (trace_from obs (pre @ [x]) xs)) ti1 = Inr ti'" "consistent ti'"
      "\<And>q. omember q (ti_expanded ti') \<longleftrightarrow>
         omember q (ti_expanded ti1) \<or> strict_prefix (pre @ [x]) q \<and> prefix q (pre @ x # xs)"
      "ti_terminals ti' = ti_terminals ti1"
      "\<And>q. mlookup (ti_enabled_at ti') q =
         (if prefix (pre @ [x]) q \<and> strict_prefix q (pre @ x # xs) then Some (enabled_at q)
          else mlookup (ti_enabled_at ti1) q)"
      "\<And>q. mlookup (ti_edges ti') q =
         (if strict_prefix (pre @ [x]) q \<and> prefix q (pre @ x # xs) then Some (edge_obs q)
          else mlookup (ti_edges ti1) q)"
    by auto
  have next_up: "strict_prefix pre q \<and> prefix q (pre @ x # xs) \<longleftrightarrow>
      q = pre @ [x] \<or> strict_prefix (pre @ [x]) q \<and> prefix q (pre @ x # xs)" for q
    by (auto simp: strict_prefix_def prefix_def append_eq_append_conv2 append_eq_Cons_conv Cons_eq_append_conv)
  have next_down: "prefix pre q \<and> strict_prefix q (pre @ x # xs) \<longleftrightarrow>
      q = pre \<or> prefix (pre @ [x]) q \<and> strict_prefix q (pre @ x # xs)" for q
    by (auto simp: strict_prefix_def prefix_def append_eq_append_conv2 append_eq_Cons_conv Cons_eq_append_conv)
  show ?case
    using ti' en(1) ed(1) unfolding next_up next_down
    by (auto simp: Let_def ti1_def en(2) ed(2))
qed

text \<open>The prefixes of the explored schedules, and the boundaries of the tree.\<close>

definition reached :: "schedule list \<Rightarrow> schedule \<Rightarrow> bool" where
  "reached ds q \<longleftrightarrow> q = [] \<or> (\<exists>d\<in>set ds. prefix q d)"

definition indexes :: "schedule list \<Rightarrow> tree_index \<Rightarrow> bool" where
  "indexes ds ti \<longleftrightarrow>
     (\<forall>q. omember q (ti_expanded ti) \<longleftrightarrow> reached ds q) \<and>
     (\<forall>q. omember q (ti_terminals ti) \<longleftrightarrow> q \<in> set ds) \<and>
     (\<forall>q. mlookup (ti_enabled_at ti) q =
       (if \<exists>d\<in>set ds. strict_prefix q d then Some (enabled_at q) else None)) \<and>
     (\<forall>q. mlookup (ti_edges ti) q =
       (if q \<noteq> [] \<and> reached ds q then Some (edge_obs q) else None))"

lemma indexes_consistent: "indexes ds ti \<Longrightarrow> consistent ti"
  by (auto simp: indexes_def consistent_def split: if_splits)

lemma index_schedule_completes:
  assumes "indexes ds ti" "complete sch"
  shows "\<exists>ti'. index_schedule mc sch ti = Inr ti' \<and> indexes (ds @ [sch]) ti'"
proof -
  obtain ti1 where ti1: "index_steps [] (zip sch (trace_from obs [] sch)) ti = Inr ti1"
      "\<And>q. omember q (ti_expanded ti1) \<longleftrightarrow>
         omember q (ti_expanded ti) \<or> strict_prefix [] q \<and> prefix q sch"
      "ti_terminals ti1 = ti_terminals ti"
      "\<And>q. mlookup (ti_enabled_at ti1) q =
         (if strict_prefix q sch then Some (enabled_at q) else mlookup (ti_enabled_at ti) q)"
      "\<And>q. mlookup (ti_edges ti1) q =
         (if strict_prefix [] q \<and> prefix q sch then Some (edge_obs q) else mlookup (ti_edges ti) q)"
    using index_steps_completes [OF indexes_consistent [OF assms(1)], of "[]" sch] by auto
  define ti' where "ti' = ti1\<lparr>ti_terminals := oinsert sch (ti_terminals ti1)\<rparr>"
  have "index_schedule mc sch ti = Inr ti'"
    using ti1(1) by (simp add: index_schedule_def inspected [OF assms(2)] require_def ti'_def)
  moreover have "indexes (ds @ [sch]) ti'"
    using assms(1) by (auto simp: indexes_def ti'_def ti1(2-5) reached_def strict_prefix_def)
  ultimately show ?thesis by blast
qed

lemma index_all_completes:
  assumes "indexes ds ti" "\<forall>sch\<in>set more_ds. complete sch"
  shows "\<exists>ti'. res_fold (index_schedule mc) more_ds ti = Inr ti' \<and> indexes (ds @ more_ds) ti'"
  using assms
proof (induction more_ds arbitrary: ds ti)
  case (Cons sch rest)
  obtain ti1 where "index_schedule mc sch ti = Inr ti1" "indexes (ds @ [sch]) ti1"
    using index_schedule_completes [OF Cons.prems(1), of sch] Cons.prems(2) by auto
  then show ?case using Cons.IH [of "ds @ [sch]" ti1] Cons.prems(2) by simp
qed simp

section \<open>The boundaries\<close>

definition boundary :: "schedule list \<Rightarrow> schedule \<Rightarrow> bool" where
  "boundary ds c \<longleftrightarrow> \<not> reached ds c \<and>
     (\<exists>q x. c = q @ [x] \<and> reached ds q \<and> q \<notin> set ds \<and> x \<in> set (enabled_at q))"

definition prunes ::
  "schedule list \<Rightarrow> (schedule \<Rightarrow> bool) \<Rightarrow> schedule oset \<times> (schedule, inspected_step) omap \<Rightarrow> bool" where
  "prunes ds parent acc \<longleftrightarrow>
     (\<forall>c. omember c (fst acc) \<longleftrightarrow>
       \<not> reached ds c \<and> (\<exists>q x. c = q @ [x] \<and> parent q \<and> x \<in> set (enabled_at q))) \<and>
     (\<forall>c. c \<noteq> [] \<longrightarrow> reached ds c \<or> omember c (fst acc) \<longrightarrow> mlookup (snd acc) c \<noteq> None)"

lemma prune_child_completes:
  assumes ds: "indexes ds ti" "\<forall>sch\<in>set ds. complete sch" "sch \<in> set ds" "strict_prefix pre sch"
    and x: "x \<in> set (enabled_at pre)"
  shows "\<exists>acc'. prune_child mc (ti_expanded ti) pre x acc = Inr acc' \<and>
    (\<forall>c. omember c (fst acc') \<longleftrightarrow> omember c (fst acc) \<or> \<not> reached ds c \<and> c = pre @ [x]) \<and>
    (\<forall>c. mlookup (snd acc) c \<noteq> None \<or> \<not> reached ds c \<and> c = pre @ [x] \<longrightarrow> mlookup (snd acc') c \<noteq> None)"
proof -
  have exp: "omember q (ti_expanded ti) \<longleftrightarrow> reached ds q" for q using ds(1) by (simp add: indexes_def)
  obtain pruned edges where acc: "acc = (pruned, edges)" by (cases acc)
  have "mc_inspect_schedule mc (pre @ [x]) = Inr (trace_from obs [] (pre @ [x]))"
    using offered [OF _ ds(4) x] ds(2,3) by blast
  then show ?thesis
    by (auto simp: prune_child_def acc exp Let_def require_def)
qed

lemma prune_children_completes:
  assumes ds: "indexes ds ti" "\<forall>sch\<in>set ds. complete sch" "sch \<in> set ds" "strict_prefix pre sch"
  shows "set xs \<subseteq> set (enabled_at pre) \<Longrightarrow>
    \<exists>acc'. res_fold (prune_child mc (ti_expanded ti) pre) xs acc = Inr acc' \<and>
    (\<forall>c. omember c (fst acc') \<longleftrightarrow>
       omember c (fst acc) \<or> \<not> reached ds c \<and> (\<exists>x\<in>set xs. c = pre @ [x])) \<and>
    (\<forall>c. mlookup (snd acc) c \<noteq> None \<or> \<not> reached ds c \<and> (\<exists>x\<in>set xs. c = pre @ [x]) \<longrightarrow>
       mlookup (snd acc') c \<noteq> None)"
proof (induction xs arbitrary: acc)
  case (Cons x xs)
  obtain acc1 where acc1: "prune_child mc (ti_expanded ti) pre x acc = Inr acc1"
      "\<forall>c. omember c (fst acc1) \<longleftrightarrow> omember c (fst acc) \<or> \<not> reached ds c \<and> c = pre @ [x]"
      "\<forall>c. mlookup (snd acc) c \<noteq> None \<or> \<not> reached ds c \<and> c = pre @ [x] \<longrightarrow> mlookup (snd acc1) c \<noteq> None"
    using prune_child_completes [OF ds, of x acc] Cons.prems by auto
  obtain acc' where acc': "res_fold (prune_child mc (ti_expanded ti) pre) xs acc1 = Inr acc'"
      "\<forall>c. omember c (fst acc') \<longleftrightarrow>
         omember c (fst acc1) \<or> \<not> reached ds c \<and> (\<exists>x\<in>set xs. c = pre @ [x])"
      "\<forall>c. mlookup (snd acc1) c \<noteq> None \<or> \<not> reached ds c \<and> (\<exists>x\<in>set xs. c = pre @ [x]) \<longrightarrow>
         mlookup (snd acc') c \<noteq> None"
    using Cons.IH [of acc1] Cons.prems by auto
  show ?case
  proof (intro exI conjI allI impI)
    show "res_fold (prune_child mc (ti_expanded ti) pre) (x # xs) acc = Inr acc'"
      using acc1(1) acc'(1) by simp
    show "omember c (fst acc') \<longleftrightarrow>
        omember c (fst acc) \<or> \<not> reached ds c \<and> (\<exists>x\<in>set (x # xs). c = pre @ [x])" for c
      using acc1(2) acc'(2) by auto
    fix c assume "mlookup (snd acc) c \<noteq> None \<or> \<not> reached ds c \<and> (\<exists>x\<in>set (x # xs). c = pre @ [x])"
    then have "mlookup (snd acc1) c \<noteq> None \<or> \<not> reached ds c \<and> (\<exists>x\<in>set xs. c = pre @ [x])"
      using acc1(3) by auto
    then show "mlookup (snd acc') c \<noteq> None" using acc'(3) by blast
  qed
qed simp

lemma prune_all_completes:
  assumes ds: "indexes ds ti" "\<forall>sch\<in>set ds. complete sch" "ds \<noteq> []"
  shows "list_all (reached ds) qs \<Longrightarrow> prunes ds parent acc \<Longrightarrow>
    \<exists>acc'. res_fold (prune_prefix mc ti) qs acc = Inr acc' \<and>
      prunes ds (\<lambda>q. parent q \<or> q \<in> set qs \<and> q \<notin> set ds) acc'"
proof (induction qs arbitrary: acc parent)
  case (Cons q qs)
  have terminal: "omember q (ti_terminals ti) \<longleftrightarrow> q \<in> set ds" using ds(1) by (simp add: indexes_def)
  show ?case
  proof (cases "q \<in> set ds")
    case True
    then have "(\<lambda>r. parent r \<or> r \<in> set (q # qs) \<and> r \<notin> set ds) = (\<lambda>r. parent r \<or> r \<in> set qs \<and> r \<notin> set ds)"
      by auto
    then show ?thesis
      using Cons.IH [of parent acc] Cons.prems True terminal by (simp add: prune_prefix_def)
  next
    case False
    have "\<exists>d\<in>set ds. prefix q d"
      using Cons.prems(1) hd_in_set [OF ds(3)] by (cases "q = []") (auto simp: reached_def)
    then obtain d where d: "d \<in> set ds" "prefix q d" by blast
    then have strict: "strict_prefix q d" using False by (auto simp: strict_prefix_def)
    then have "mlookup (ti_enabled_at ti) q = Some (enabled_at q)"
      using ds(1) d(1) by (auto simp: indexes_def)
    moreover obtain acc1 where acc1: "res_fold (prune_child mc (ti_expanded ti) q) (enabled_at q) acc = Inr acc1"
        "\<forall>c. omember c (fst acc1) \<longleftrightarrow>
           omember c (fst acc) \<or> \<not> reached ds c \<and> (\<exists>x\<in>set (enabled_at q). c = q @ [x])"
        "\<forall>c. mlookup (snd acc) c \<noteq> None \<or> \<not> reached ds c \<and> (\<exists>x\<in>set (enabled_at q). c = q @ [x]) \<longrightarrow>
           mlookup (snd acc1) c \<noteq> None"
      using prune_children_completes [OF ds(1,2) d(1) strict, of "enabled_at q" acc] by blast
    ultimately have step: "prune_prefix mc ti q acc = Inr acc1"
      using False terminal by (simp add: prune_prefix_def)
    have "prunes ds (\<lambda>r. parent r \<or> r = q) acc1"
      unfolding prunes_def
    proof (intro conjI allI impI)
      fix c
      have "omember c (fst acc) \<longleftrightarrow>
          \<not> reached ds c \<and> (\<exists>r x. c = r @ [x] \<and> parent r \<and> x \<in> set (enabled_at r))"
        using Cons.prems(2) by (simp add: prunes_def)
      then show "omember c (fst acc1) \<longleftrightarrow>
          \<not> reached ds c \<and> (\<exists>r x. c = r @ [x] \<and> (parent r \<or> r = q) \<and> x \<in> set (enabled_at r))"
        using acc1(2) by auto
    next
      fix c assume "c \<noteq> []" "reached ds c \<or> omember c (fst acc1)"
      then have "mlookup (snd acc) c \<noteq> None \<or> \<not> reached ds c \<and> (\<exists>x\<in>set (enabled_at q). c = q @ [x])"
        using acc1(2) Cons.prems(2) unfolding prunes_def by metis
      then show "mlookup (snd acc1) c \<noteq> None" using acc1(3) by blast
    qed
    from Cons.IH [OF _ this] Cons.prems(1) obtain acc' where
      "res_fold (prune_prefix mc ti) qs acc1 = Inr acc'"
      "prunes ds (\<lambda>r. (parent r \<or> r = q) \<or> r \<in> set qs \<and> r \<notin> set ds) acc'" by auto
    moreover have "(\<lambda>r. (parent r \<or> r = q) \<or> r \<in> set qs \<and> r \<notin> set ds) =
        (\<lambda>r. parent r \<or> r \<in> set (q # qs) \<and> r \<notin> set ds)" using False by auto
    ultimately show ?thesis using step by simp
  qed
qed simp

lemma prune_tree_completes:
  assumes ds: "indexes ds ti" "\<forall>sch\<in>set ds. complete sch" "ds \<noteq> []"
  shows "\<exists>pruned edges. res_fold (prune_prefix mc ti) (mkeys (ti_expanded ti)) (mempty, ti_edges ti) =
      Inr (pruned, edges) \<and>
    (\<forall>c. omember c pruned \<longleftrightarrow> boundary ds c) \<and>
    (\<forall>c. c \<noteq> [] \<longrightarrow> reached ds c \<or> boundary ds c \<longrightarrow> mlookup edges c \<noteq> None)"
proof -
  have exp: "list_all (reached ds) (mkeys (ti_expanded ti))"
    and all: "q \<in> set (mkeys (ti_expanded ti)) \<longleftrightarrow> reached ds q" for q
    using ds(1) by (simp_all add: indexes_def list_all_iff)
  have "prunes ds (\<lambda>q. False) (mempty, ti_edges ti)"
    using ds(1) by (auto simp: prunes_def indexes_def)
  from prune_all_completes [OF ds exp this]
  obtain acc' where acc': "res_fold (prune_prefix mc ti) (mkeys (ti_expanded ti)) (mempty, ti_edges ti) = Inr acc'"
      "prunes ds (\<lambda>q. reached ds q \<and> q \<notin> set ds) acc'"
    unfolding all by auto
  have "omember c (fst acc') \<longleftrightarrow> boundary ds c" for c
    using acc'(2) unfolding prunes_def boundary_def by blast
  then show ?thesis using acc' unfolding prunes_def by (cases acc') auto
qed

section \<open>Every schedule is explored or below one boundary\<close>

lemma reached_prefix: "reached ds q \<Longrightarrow> prefix r q \<Longrightarrow> reached ds r"
  by (auto simp: reached_def intro: prefix_order.trans)

lemma boundary_unique:
  assumes "boundary ds c" "boundary ds c'" "prefix c sch" "prefix c' sch"
  shows "c = c'"
proof -
  have inner: "\<not> strict_prefix u v" if "boundary ds u" "boundary ds v" for u v
  proof
    assume uv: "strict_prefix u v"
    from that(2) obtain q x where v: "v = q @ [x]" "reached ds q" unfolding boundary_def by blast
    then have "prefix u q" using uv by (auto simp: strict_prefix_def prefix_snoc)
    then show False using reached_prefix [OF v(2)] that(1) unfolding boundary_def by blast
  qed
  have "prefix c c' \<or> prefix c' c" using assms(3,4) by (rule prefix_same_cases)
  then show ?thesis using inner assms(1,2) unfolding strict_prefix_def by blast
qed

lemma reached_complete:
  assumes "\<forall>d\<in>set ds. complete d" "ds \<noteq> []" "complete sch" "reached ds sch"
  shows "sch \<in> set ds"
proof -
  have "\<exists>d\<in>set ds. prefix sch d"
    using assms(4) hd_in_set [OF assms(2)] by (cases "sch = []") (auto simp: reached_def)
  then show ?thesis using prefix_free [OF assms(3)] assms(1) by blast
qed

lemma boundary_or_explored:
  assumes ds: "\<forall>d\<in>set ds. complete d" "ds \<noteq> []" and sch: "complete sch"
  shows "(\<exists>c. boundary ds c \<and> prefix c sch) \<longleftrightarrow> sch \<notin> set ds"
proof
  assume "\<exists>c. boundary ds c \<and> prefix c sch"
  then show "sch \<notin> set ds" unfolding boundary_def reached_def by blast
next
  assume new: "sch \<notin> set ds"
  have "reached ds (take n sch) \<or> (\<exists>c. boundary ds c \<and> prefix c sch)" for n
  proof (induction n)
    case (Suc n)
    show ?case
    proof (cases "n < length sch \<and> reached ds (take n sch) \<and> \<not> reached ds (take (Suc n) sch)")
      case True
      then have snoc: "take (Suc n) sch = take n sch @ [sch ! n]" by (simp add: take_Suc_conv_app_nth)
      have "take n sch \<notin> set ds"
        using prefix_free [of "take n sch" sch] sch ds(1) take_is_prefix True
        by (metis nless_le length_take min.absorb4)
      moreover have "sch ! n \<in> set (enabled_at (take n sch))"
        using taken [OF sch, of "take n sch" "sch ! n"] take_is_prefix [of "Suc n" sch] unfolding snoc .
      ultimately have "boundary ds (take (Suc n) sch)"
        using True snoc unfolding boundary_def by blast
      then show ?thesis using take_is_prefix by blast
    qed (use Suc in auto)
  qed (simp add: reached_def)
  from this [of "length sch"] show "\<exists>c. boundary ds c \<and> prefix c sch"
    using reached_complete [OF ds sch] new by auto
qed

lemma boundary_inner:
  assumes "\<forall>d\<in>set ds. complete d" "ds \<noteq> []" "boundary ds c"
  obtains q x d where "c = q @ [x]" "reached ds q" "d \<in> set ds" "strict_prefix q d" "x \<in> set (enabled_at q)"
proof -
  obtain q x where q: "c = q @ [x]" "reached ds q" "q \<notin> set ds" "x \<in> set (enabled_at q)"
    using assms(3) unfolding boundary_def by blast
  have "\<exists>d\<in>set ds. prefix q d"
    using q(2) hd_in_set [OF assms(2)] by (cases "q = []") (auto simp: reached_def)
  then show ?thesis using that q unfolding strict_prefix_def by metis
qed

section \<open>The tree is built\<close>

text \<open>\<open>ns\<close> are all complete schedules and \<open>ds\<close> are those that were explored.\<close>

definition explored_of :: "schedule list \<Rightarrow> schedule list \<Rightarrow> bool" where
  "explored_of ns ds \<longleftrightarrow>
     distinct ns \<and> (\<forall>sch. sch \<in> set ns \<longleftrightarrow> complete sch) \<and>
     distinct ds \<and> set ds \<subseteq> set ns \<and> ds \<noteq> []"

definition tree_ok :: "schedule list \<Rightarrow> schedule list \<Rightarrow> tree_data \<Rightarrow> bool" where
  "tree_ok ns ds td \<longleftrightarrow>
     indexes ds (tr_index td) \<and> (\<forall>c. omember c (tr_pruned td) \<longleftrightarrow> boundary ds c) \<and>
     (\<forall>c. c \<noteq> [] \<longrightarrow> reached ds c \<or> boundary ds c \<longrightarrow> mlookup (tr_edges td) c \<noteq> None) \<and>
     (\<forall>q. mlookup (tr_naive_counts td) q =
       (if reached ds q \<or> boundary ds q then Some (length (filter (prefix q) ns)) else None)) \<and>
     (\<forall>q. mlookup (tr_dpor_counts td) q =
       (if reached ds q \<or> boundary ds q then Some (length (filter (prefix q) ds)) else None))"

lemma pruned_schedules:
  assumes ex: "explored_of ns ds" and cs: "distinct cs" "\<forall>c. c \<in> set cs \<longleftrightarrow> boundary ds c"
  shows "(\<Sum>c\<leftarrow>cs. length (filter (prefix c) ns)) = length ns - length ds"
proof -
  have ns: "distinct ns" "\<And>sch. sch \<in> set ns \<longleftrightarrow> complete sch"
    and ds: "distinct ds" "set ds \<subseteq> set ns" "ds \<noteq> []" using ex unfolding explored_of_def by blast+
  let ?below = "\<lambda>c. {sch \<in> set ns. prefix c sch}"
  have "(\<Sum>c\<leftarrow>cs. length (filter (prefix c) ns)) = (\<Sum>c\<in>set cs. card (?below c))"
    using cs(1) ns(1) by (simp add: sum_list_distinct_conv_sum_set distinct_length_filter Int_def conj_commute)
  also have "\<dots> = card (\<Union>c\<in>set cs. ?below c)"
  proof (rule card_UN_disjoint [symmetric])
    show "\<forall>c\<in>set cs. \<forall>c'\<in>set cs. c \<noteq> c' \<longrightarrow> ?below c \<inter> ?below c' = {}"
    proof (intro ballI impI)
      fix c c' assume "c \<in> set cs" "c' \<in> set cs" "c \<noteq> c'"
      then show "?below c \<inter> ?below c' = {}" using boundary_unique [of ds c c'] cs(2) by auto
    qed
  qed simp_all
  also have "(\<Union>c\<in>set cs. ?below c) = set ns - set ds"
  proof -
    have all: "\<forall>d\<in>set ds. complete d" using ds(2) ns(2) by blast
    have "(\<exists>c\<in>set cs. prefix c sch) \<longleftrightarrow> sch \<notin> set ds" if "sch \<in> set ns" for sch
      using boundary_or_explored [OF all ds(3), of sch] that ns(2) cs(2) by blast
    then show ?thesis by auto
  qed
  also have "card (set ns - set ds) = length ns - length ds"
    using ds(1,2) ns(1) by (simp add: card_Diff_subset distinct_card)
  finally show ?thesis .
qed

lemma add_pruned_completes:
  assumes "\<forall>c\<in>set cs. (\<exists>n>0. mlookup nc c = Some n) \<and> mlookup dc c = Some 0"
  shows "res_fold (add_pruned nc dc) cs k = Inr (k + (\<Sum>c\<leftarrow>cs. mget 0 nc c))"
  using assms
proof (induction cs arbitrary: k)
  case (Cons c cs)
  then show ?case
    by (force simp: add_pruned_def map_at_def require_def mget_def)
qed simp

lemma build_tree_completes:
  assumes ex: "explored_of ns ds"
  shows "\<exists>td. build_tree mc ns ds (length ns - length ds) = Inr td \<and> tree_ok ns ds td"
proof -
  have ns: "\<And>sch. sch \<in> set ns \<longleftrightarrow> complete sch" and ds: "set ds \<subseteq> set ns" "ds \<noteq> []"
    using ex unfolding explored_of_def by blast+
  have all: "\<forall>d\<in>set ds. complete d" using ns ds(1) by blast
  have "indexes [] empty_index"
    by (auto simp: indexes_def empty_index_def reached_def)
  from index_all_completes [OF this, of ds] all obtain ti
    where ti: "res_fold (index_schedule mc) ds empty_index = Inr ti" "indexes ds ti" by auto
  obtain pruned edges where
    pr: "res_fold (prune_prefix mc ti) (mkeys (ti_expanded ti)) (mempty, ti_edges ti) = Inr (pruned, edges)"
      "\<forall>c. omember c pruned \<longleftrightarrow> boundary ds c"
      "\<forall>c. c \<noteq> [] \<longrightarrow> reached ds c \<or> boundary ds c \<longrightarrow> mlookup edges c \<noteq> None"
    using prune_tree_completes [OF ti(2) all ds(2)] by blast
  define counts where "counts = zero_counts (mkeys (ti_expanded ti) @ mkeys pruned)"
  have lookup: "mlookup (count_prefixes ss counts) q =
      (if reached ds q \<or> boundary ds q then Some (length (filter (prefix q) ss)) else None)" for ss q
    using ti(2) pr(2) by (simp add: mlookup_count_prefixes counts_def mlookup_zero_counts indexes_def)
  have cs: "\<forall>c. c \<in> set (mkeys pruned) \<longleftrightarrow> boundary ds c" using pr(2) by simp
  have good: "\<forall>c\<in>set (mkeys pruned). (\<exists>n>0. mlookup (count_prefixes ns counts) c = Some n) \<and>
      mlookup (count_prefixes ds counts) c = Some 0"
  proof
    fix c assume "c \<in> set (mkeys pruned)"
    then have c: "boundary ds c" using cs by blast
    obtain q x d where q: "c = q @ [x]" "d \<in> set ds" "strict_prefix q d" "x \<in> set (enabled_at q)"
      using boundary_inner [OF all ds(2) c] .
    obtain sch where "complete sch" "prefix c sch"
      using extended [OF _ q(3,4)] q(1,2) all by blast
    then have "0 < length (filter (prefix c) ns)"
      using ns by (auto simp: length_greater_0_conv filter_empty_conv)
    moreover have "filter (prefix c) ds = []"
      using c unfolding boundary_def reached_def filter_empty_conv by blast
    ultimately show "(\<exists>n>0. mlookup (count_prefixes ns counts) c = Some n) \<and>
        mlookup (count_prefixes ds counts) c = Some 0" using c by (simp add: lookup)
  qed
  have same: "mget 0 (count_prefixes ns counts) c = length (filter (prefix c) ns)"
    if "c \<in> set (mkeys pruned)" for c
    using cs that by (simp add: mget_def lookup)
  have "(\<Sum>c\<leftarrow>mkeys pruned. mget 0 (count_prefixes ns counts) c) =
      (\<Sum>c\<leftarrow>mkeys pruned. length (filter (prefix c) ns))"
    using same by (intro arg_cong [where f = sum_list] map_cong) simp_all
  also have "\<dots> = length ns - length ds"
    using pruned_schedules [OF ex _ cs] ascending_distinct [OF ascending_mkeys] by blast
  finally have total: "res_fold (add_pruned (count_prefixes ns counts) (count_prefixes ds counts))
      (mkeys pruned) 0 = Inr (length ns - length ds)"
    using add_pruned_completes [OF good, of 0] by simp
  define td where "td = \<lparr>tr_index = ti, tr_pruned = pruned, tr_edges = edges,
      tr_naive_counts = count_prefixes ns counts, tr_dpor_counts = count_prefixes ds counts\<rparr>"
  have "build_tree mc ns ds (length ns - length ds) = Inr td"
    using ti(1) pr(1) total by (simp add: build_tree_def Let_def counts_def [symmetric] require_def td_def)
  moreover have "tree_ok ns ds td" using ti(2) pr(2,3) by (simp add: tree_ok_def td_def lookup)
  ultimately show ?thesis by blast
qed

section \<open>The tree is printed\<close>

lemma node_json_completes:
  assumes ok: "tree_ok ns ds td" and ex: "explored_of ns ds" and q: "reached ds q \<or> boundary ds q"
  shows "\<exists>j. node_json mc td (i, q) = Inr j \<and> json_ok j"
proof -
  have ds: "\<forall>d\<in>set ds. complete d" "ds \<noteq> []" using ex unfolding explored_of_def by blast+
  have pruned: "omember q (tr_pruned td) \<longleftrightarrow> boundary ds q"
    and terminal: "omember q (ti_terminals (tr_index td)) \<longleftrightarrow> q \<in> set ds"
    using ok by (simp_all add: tree_ok_def indexes_def)
  obtain en where en: "(if \<not> boundary ds q \<and> q \<notin> set ds
      then map_at (ti_enabled_at (tr_index td)) q else Inr []) = Inr en"
  proof (cases "\<not> boundary ds q \<and> q \<notin> set ds")
    case True
    then have "\<exists>d\<in>set ds. prefix q d"
      using q hd_in_set [OF ds(2)] by (cases "q = []") (auto simp: reached_def)
    then have "\<exists>d\<in>set ds. strict_prefix q d" using True by (auto simp: strict_prefix_def)
    then have "mlookup (ti_enabled_at (tr_index td)) q = Some (enabled_at q)"
      using ok by (simp add: tree_ok_def indexes_def)
    then show ?thesis using that True by (simp add: map_at_def)
  qed (use that in auto)
  obtain outcome where out: "(if q \<in> set ds then res_bind (mc_replay mc q) (\<lambda>r. Inr (result_summary_json r))
      else Inr JNull) = Inr outcome" "json_ok outcome"
    using replayed ds(1) json_ok_results(3) by (cases "q \<in> set ds") force+
  have counts: "map_at (tr_naive_counts td) q = Inr (length (filter (prefix q) ns))"
      "map_at (tr_dpor_counts td) q = Inr (length (filter (prefix q) ds))"
    using ok q by (simp_all add: tree_ok_def map_at_def)
  show ?thesis
    unfolding node_json_def prod.case Let_def pruned terminal en out(1) counts res_bind_Inr
    by (intro exI conjI, rule refl, rule json_ok_object)
      (simp add: json_base json_ok_action node_status_def out(2) del: json_ok.simps(2))
qed

lemma mlookup_number_nodes:
  assumes "q \<in> set nodes"
  shows "\<exists>i. mlookup (number_nodes nodes) q = Some i"
proof -
  have "\<exists>i. mlookup (fold (\<lambda>(i, pre) ids. memplace pre i ids) ps m) q = Some i"
    if "q \<in> snd ` set ps \<or> mlookup m q \<noteq> None" for ps :: "(nat \<times> schedule) list" and m :: "(schedule, nat) omap"
    using that
  proof (induction ps arbitrary: m)
    case (Cons a ps)
    obtain i r where a: "a = (i, r)" by (cases a)
    show ?case using Cons.prems by (auto simp: a intro!: Cons.IH)
  qed auto
  moreover have "q \<in> snd ` set (enumerate 0 nodes)"
    using assms by (metis list.set_map map_snd_enumerate)
  ultimately show ?thesis unfolding number_nodes_def by blast
qed

lemma edge_json_completes:
  assumes ok: "tree_ok ns ds td" and nodes: "\<And>q. q \<in> set nodes \<longleftrightarrow> reached ds q \<or> boundary ds q"
    and q: "q \<in> set nodes" "q \<noteq> []"
  shows "\<exists>j. edge_json td (number_nodes nodes) (i, q) = Inr j \<and> json_ok j"
proof -
  have "prefix (butlast q) q" by (simp add: prefixeq_butlast)
  then have "reached ds (butlast q)"
    using q nodes reached_prefix unfolding boundary_def by (metis butlast_snoc)
  then obtain k where "mlookup (number_nodes nodes) (butlast q) = Some k"
    using mlookup_number_nodes nodes by blast
  moreover obtain e where "mlookup (tr_edges td) q = Some e"
    using ok q nodes unfolding tree_ok_def by blast
  ultimately show ?thesis
    by (auto simp: edge_json_def json_base json_ok_action json_ok_effects node_status_def intro!: json_ok_object)
qed

lemma tree_json_completes:
  assumes ex: "explored_of ns ds"
  shows "\<exists>j. tree_json mc ns ds (length ns - length ds) = Inr j \<and> json_ok j"
proof -
  obtain td where td: "build_tree mc ns ds (length ns - length ds) = Inr td" "tree_ok ns ds td"
    using build_tree_completes [OF ex] by blast
  define qs where "qs = mkeys (ti_expanded (tr_index td)) @ mkeys (tr_pruned td)"
  have members: "q \<in> set qs \<longleftrightarrow> reached ds q \<or> boundary ds q" for q
    using td(2) by (simp add: qs_def tree_ok_def indexes_def)
  have "set (mkeys (ti_expanded (tr_index td))) \<inter> set (mkeys (tr_pruned td)) = {}"
    using td(2) by (auto simp: tree_ok_def indexes_def boundary_def)
  then have qs: "distinct qs" "[] \<in> set qs"
    using ascending_distinct [OF ascending_mkeys] members by (auto simp: qs_def reached_def)
  note order = order_nodes_first [OF qs]
  have listed: "q \<in> set (order_nodes qs) \<longleftrightarrow> reached ds q \<or> boundary ds q" for q
    using order(1) members by simp
  have member: "q \<in> set (order_nodes qs)" if "(i, q) \<in> set (enumerate 0 (order_nodes qs))" for i q
    using that by (rule enumerated)
  have "\<forall>x\<in>set (enumerate 0 (order_nodes qs)). \<exists>j. node_json mc td x = Inr j \<and> json_ok j"
  proof
    fix x assume x: "x \<in> set (enumerate 0 (order_nodes qs))"
    obtain i q where [simp]: "x = (i, q)" by (cases x)
    show "\<exists>j. node_json mc td x = Inr j \<and> json_ok j"
      using node_json_completes [OF td(2) ex] member x listed by simp
  qed
  then obtain nodes where nodes: "res_map (node_json mc td) (enumerate 0 (order_nodes qs)) = Inr nodes"
      "list_all json_ok nodes"
    using res_map_completes by blast
  have "\<forall>x\<in>set (drop 1 (enumerate 0 (order_nodes qs))).
      \<exists>j. edge_json td (number_nodes (order_nodes qs)) x = Inr j \<and> json_ok j"
  proof
    fix x assume x: "x \<in> set (drop 1 (enumerate 0 (order_nodes qs)))"
    obtain i q where [simp]: "x = (i, q)" by (cases x)
    have "q \<in> set (order_nodes qs)" "q \<noteq> []"
      using member [of i q] order(2) [of i q] x in_set_dropD [OF x] by simp_all
    then show "\<exists>j. edge_json td (number_nodes (order_nodes qs)) x = Inr j \<and> json_ok j"
      using edge_json_completes [OF td(2) listed] by simp
  qed
  then obtain edges where edges: "res_map (edge_json td (number_nodes (order_nodes qs)))
      (drop 1 (enumerate 0 (order_nodes qs))) = Inr edges" "list_all json_ok edges"
    using res_map_completes by blast
  show ?thesis
    using td(1) nodes edges
    by (auto simp: tree_json_def Let_def qs_def [symmetric] json_base intro!: json_ok_object)
qed

end

end
