(* ===== verification/Clocks.thy ===== *)
theory Clocks
  imports Step_Frames
begin

text \<open>
  The vector clocks of a state. No clock the state keeps counts more steps of a thread than the
  thread has taken, and the clock of a thread counts all of its own; so the clock of a step is
  below no clock that was recorded earlier. Every step records at most one access, in the record
  of one address.
\<close>

section \<open>Clocks within the step counts\<close>

definition within :: "(nat \<Rightarrow> nat) \<Rightarrow> vclock \<Rightarrow> bool" where
  "within n c \<longleftrightarrow> (\<forall>t. vc_get c t \<le> n t)"

lemma within_mempty [simp]: "within n mempty"
  by (simp add: within_def)

lemma within_join [simp]: "within n (vc_join c d) \<longleftrightarrow> within n c \<and> within n d"
  by (auto simp: within_def)

lemma within_mono: "within n c \<Longrightarrow> (\<And>t. n t \<le> m t) \<Longrightarrow> within m c"
  unfolding within_def by (meson order_trans)

text \<open>The clocks of the threads, and those kept by the synchronisation objects.\<close>

definition thread_clocks_ok :: "nat \<Rightarrow> (nat \<Rightarrow> nat) \<Rightarrow> vclock list \<Rightarrow> bool" where
  "thread_clocks_ok k n cs \<longleftrightarrow> length cs = k \<and>
     (\<forall>t<k. within n (cs ! t) \<and> n t \<le> vc_get (cs ! t) t)"

definition objects_ok :: "(nat \<Rightarrow> nat) \<Rightarrow> exec_state \<Rightarrow> bool" where
  "objects_ok n s \<longleftrightarrow>
     (\<forall>x. within n (mget mempty (st_mutex_clock s) x)) \<and>
     (\<forall>x. within n (mget mempty (st_atomic_clock s) x)) \<and>
     (\<forall>x. within n (writer_release (mget empty_rwlock (st_rwlocks s) x)) \<and>
          within n (reader_releases (mget empty_rwlock (st_rwlocks s) x))) \<and>
     (\<forall>x. within n (post_releases (mget empty_semaphore (st_semaphores s) x))) \<and>
     (\<forall>x b. mlookup (st_barriers s) x = Some b \<longrightarrow> within n (arrival_releases b))"

definition clocks_ok :: "nat \<Rightarrow> (nat \<Rightarrow> nat) \<Rightarrow> exec_state \<Rightarrow> bool" where
  "clocks_ok k n s \<longleftrightarrow> thread_clocks_ok k n (st_clock s) \<and> objects_ok n s"

text \<open>The components the invariant reads.\<close>

definition clock_part where
  "clock_part s = (st_clock s, st_mutex_clock s, st_atomic_clock s, st_rwlocks s,
     st_semaphores s, st_barriers s)"

lemma clock_part_cong: "clock_part s' = clock_part s \<Longrightarrow> clocks_ok k n s' = clocks_ok k n s"
  by (simp add: clock_part_def clocks_ok_def objects_ok_def)

lemma clock_part_simps [simp]:
  "clock_part (advance_pc p s t) = clock_part s" "clock_part (set_pc p s t pc) = clock_part s"
  "clock_part (normalize_pc p s t) = clock_part s" "clock_part (set_phase s t ph) = clock_part s"
  "clock_part (set_waiters s cv ws) = clock_part s" "clock_part (set_value s x v) = clock_part s"
  "clock_part (touch_value s x) = clock_part s" "clock_part (s\<lparr>st_started := x3\<rparr>) = clock_part s"
  "clock_part (s\<lparr>st_store_buffers := x4\<rparr>) = clock_part s"
  "clock_part (s\<lparr>st_pso_buffers := x5\<rparr>) = clock_part s"
  "clock_part (fst (on_address f s x acc)) = clock_part s"
  "clock_part (store_register s t r v) = clock_part s"
  by (simp_all add: clock_part_def state_ops Let_def on_address_def split: prod.split)

lemmas clocks_ok_simps [simp] = clock_part_simps [THEN clock_part_cong]

lemma clocks_write_register: "write_register s t d v = Inr s' \<Longrightarrow> clocks_ok k n s' = clocks_ok k n s"
  by (auto simp: write_register_def guarded_def split: option.splits if_splits)

section \<open>Primitive updates\<close>

lemma clocks_okD:
  assumes "clocks_ok k n s"
  shows "t < k \<Longrightarrow> within n (st_clock s ! t)" "t < k \<Longrightarrow> n t \<le> vc_get (st_clock s ! t) t"
    "within n (mget mempty (st_mutex_clock s) x)" "within n (mget mempty (st_atomic_clock s) x)"
    "within n (writer_release (mget empty_rwlock (st_rwlocks s) x))"
    "within n (reader_releases (mget empty_rwlock (st_rwlocks s) x))"
    "within n (post_releases (mget empty_semaphore (st_semaphores s) x))"
    "mlookup (st_barriers s) x = Some b \<Longrightarrow> within n (arrival_releases b)"
    "length (st_clock s) = k"
  using assms by (auto simp: clocks_ok_def thread_clocks_ok_def objects_ok_def)

lemma thread_clocks_join:
  assumes "thread_clocks_ok k n cs" "within n c"
  shows "thread_clocks_ok k n (cs[t := vc_join (cs ! t) c])"
  using assms by (auto simp: thread_clocks_ok_def nth_list_update_if)

lemma clocks_join_clock:
  "clocks_ok k n s \<Longrightarrow> within n c \<Longrightarrow> clocks_ok k n (join_clock s t c)"
  using thread_clocks_join by (simp add: clocks_ok_def objects_ok_def join_clock_def)

lemma clocks_acquire:
  "clocks_ok k n s \<Longrightarrow> clocks_ok k n (acquire_mutex s t m)"
  unfolding acquire_mutex_def Let_def
  by (rule clocks_join_clock) (auto simp: clocks_ok_def objects_ok_def mget_def)

lemma clocks_release:
  "clocks_ok k n s \<Longrightarrow> t < k \<Longrightarrow> clocks_ok k n (release_mutex s t m)"
  using clocks_okD(1) by (auto simp: clocks_ok_def objects_ok_def release_mutex_def)

lemma clocks_set_rwlock:
  "clocks_ok k n s \<Longrightarrow> within n (writer_release rw) \<Longrightarrow> within n (reader_releases rw) \<Longrightarrow>
   clocks_ok k n (set_rwlock s x rw)"
  by (auto simp: clocks_ok_def objects_ok_def set_rwlock_def)

lemma clocks_set_semaphore:
  "clocks_ok k n s \<Longrightarrow> within n (post_releases sem) \<Longrightarrow>
   clocks_ok k n (s\<lparr>st_semaphores := mupdate x sem (st_semaphores s)\<rparr>)"
  by (auto simp: clocks_ok_def objects_ok_def)

lemma clocks_set_barrier:
  "clocks_ok k n s \<Longrightarrow> within n (arrival_releases b) \<Longrightarrow>
   clocks_ok k n (s\<lparr>st_barriers := mupdate x b (st_barriers s)\<rparr>)"
  by (auto simp: clocks_ok_def objects_ok_def split: if_splits)

lemma clocks_touch_atomic: "clocks_ok k n s \<Longrightarrow> clocks_ok k n (touch_atomic_clock s x)"
  by (auto simp: clocks_ok_def objects_ok_def touch_atomic_clock_def mget_def split: option.splits)

lemma clocks_publish: "clocks_ok k n s \<Longrightarrow> t < k \<Longrightarrow> clocks_ok k n (publish_atomic s t x)"
  using clocks_okD(1) by (auto simp: clocks_ok_def objects_ok_def publish_atomic_def)

lemmas clocks_intros = clocks_join_clock clocks_acquire clocks_release clocks_set_rwlock
  clocks_set_semaphore clocks_set_barrier clocks_touch_atomic clocks_publish

section \<open>The cases of a step\<close>

lemma clocks_local:
  assumes "exec_set p s step a = Inr (s', r) \<or> exec_branch p s step a = Inr (s', r) \<or>
    exec_assert p s step a = Inr (s', r) \<or> exec_local p s step = Inr (s', r)"
  shows "clocks_ok k n s' = clocks_ok k n s"
  using assms
  by (elim disjE)
     (auto simp: exec_set_def exec_branch_def exec_assert_def exec_local_def Let_def res_simps
        finish_def finish_error_def clocks_write_register split: option.splits if_splits)

lemma normalize_pc_clock [simp]: "st_clock (normalize_pc p s t) = st_clock s"
  by (simp add: normalize_pc_def Let_def)

lemma clocks_mutex:
  assumes ok: "clocks_ok (length p) n s" "s_thread step < length p"
    and ex: "exec_lock p s step a = Inr (s', r) \<or> exec_try_lock p s step a = Inr (s', r) \<or>
    exec_unlock p s step a = Inr (s', r) \<or> exec_join p s step a = Inr (s', r) \<or>
    exec_spawn p s step a = Inr (s', r)"
  shows "clocks_ok (length p) n s'"
  using ex ok
  by (elim disjE)
     (auto simp: exec_lock_def exec_try_lock_def exec_unlock_def exec_join_def exec_spawn_def
        join_target_is_invalid_def Let_def res_simps finish_def finish_error_def
        clocks_write_register intro!: clocks_intros clocks_okD(1) [OF ok(1)] split: if_splits)

lemma clocks_rwlock:
  assumes ok: "clocks_ok k n s" "s_thread step < k"
    and ex: "exec_rlock p s step a = Inr (s', r) \<or> exec_wlock p s step a = Inr (s', r) \<or>
    exec_upgrade p s step a = Inr (s', r) \<or> exec_runlock p s step a = Inr (s', r) \<or>
    exec_wunlock p s step a = Inr (s', r) \<or> exec_downgrade p s step a = Inr (s', r)"
  shows "clocks_ok k n s'"
  using ex ok
  by (elim disjE)
     (auto simp: exec_rlock_def exec_wlock_def exec_upgrade_def exec_runlock_def exec_wunlock_def
        exec_downgrade_def Let_def res_simps finish_def finish_error_def
        intro!: clocks_intros clocks_okD(1,5,6) [OF ok(1)] split: if_splits)

lemma clocks_sem:
  assumes ok: "clocks_ok k n s" "s_thread step < k"
    and ex: "exec_sem_post p s step a = Inr (s', r) \<or> exec_sem_wait p s step a = Inr (s', r)"
  shows "clocks_ok k n s'"
proof -
  have "within n (post_releases sem)" if "mlookup (st_semaphores s) x = Some sem" for x sem
    using clocks_okD(7) [OF ok(1), of x] that by (simp add: mget_def)
  then show ?thesis
    using ex ok
    by (elim disjE)
       (auto simp: exec_sem_post_def exec_sem_wait_def Let_def res_simps finish_def
          intro!: clocks_join_clock clocks_set_semaphore [of k n "advance_pc p s (s_thread step)", simplified]
            clocks_okD(1,7) [OF ok(1)] split: option.splits)
qed

lemma clocks_wake:
  assumes "wake_waiter p signaler waiter s = Inr s'" "clocks_ok k n s" "signaler < k"
  shows "clocks_ok k n s'"
proof -
  have "clocks_ok k n (join_clock (set_phase s waiter Woken) waiter (st_clock s ! signaler))"
    using assms(2,3) by (intro clocks_join_clock) (simp_all add: clocks_okD(1))
  then show ?thesis
    using assms(1) by (auto simp: wake_waiter_def res_simps Let_def clocks_write_register split: if_splits)
qed

lemma clocks_wakes:
  assumes ok: "clocks_ok k n s" "s_thread step < k"
    and ex: "exec_signal p s step a = Inr (s', r) \<or> exec_broadcast p s step a = Inr (s', r)"
  shows "clocks_ok k n s'"
  using ex
proof
  assume "exec_signal p s step a = Inr (s', r)"
  then show ?thesis
    using ok by (auto simp: exec_signal_def Let_def res_simps finish_def intro: clocks_wake split: list.splits)
next
  assume "exec_broadcast p s step a = Inr (s', r)"
  then have fold: "res_fold (wake_waiter p (s_thread step))
      (mget [] (st_waiters (advance_pc p s (s_thread step))) (a_condition a))
      (set_waiters (advance_pc p s (s_thread step)) (a_condition a) []) = Inr s'"
    by (simp add: exec_broadcast_def Let_def res_simps finish_def)
  show ?thesis
    by (rule res_fold_invariant [OF fold, where I = "clocks_ok k n"])
       (use ok in \<open>auto intro: clocks_wake\<close>)
qed

lemma clocks_wait:
  assumes ok: "clocks_ok k n s" "s_thread step < k" and ex: "exec_wait p s step a = Inr (s', r)"
  shows "clocks_ok k n s'"
  using ex ok
  by (auto simp: exec_wait_def Let_def res_simps insert_waiter_def remove_waiter_def finish_def
      finish_error_def clocks_write_register intro: clocks_acquire clocks_release split: if_splits)

lemma clocks_barrier:
  assumes ok: "clocks_ok k n s" "s_thread step < k" and ex: "exec_barrier p s step a = Inr (s', r)"
  shows "clocks_ok k n s'"
proof -
  obtain b where b: "mlookup (st_barriers s) (a_barrier a) = Some b"
    using ex by (auto simp: exec_barrier_def Let_def split: option.splits)
  define t where "t = s_thread step"
  define b1 where "b1 = b\<lparr>arrivals := oinsert t (arrivals b),
      arrival_releases := vc_join (arrival_releases b) (st_clock s ! t)\<rparr>"
  define s1 where "s1 = s\<lparr>st_barriers := mupdate (a_barrier a) b1 (st_barriers s)\<rparr>"
  have b1: "within n (arrival_releases b1)"
    using clocks_okD(1,8) [OF ok(1)] b ok(2) by (auto simp: b1_def t_def)
  have s1: "clocks_ok k n s1" unfolding s1_def using ok(1) b1 by (rule clocks_set_barrier)
  show ?thesis
  proof (cases "a_parties a = 0 \<or> a_parties a \<noteq> parties b")
    case True
    then show ?thesis using ex b ok by (auto simp: exec_barrier_def Let_def finish_error_def)
  next
    case False
    from ex this consider "s' = s1"
      | s2 where "res_fold (release_participant p a (parties b1) (arrival_releases b1))
              (mkeys (arrivals b1)) s1 = Inr s2"
          "s' = s2\<lparr>st_barriers := mupdate (a_barrier a)
              (b1\<lparr>arrivals := mempty, arrival_releases := mempty,
                  generation := Suc (generation b1)\<rparr>) (st_barriers s2)\<rparr>"
      unfolding exec_barrier_def Let_def t_def [symmetric] b
      by (auto simp: b1_def [symmetric] s1_def [symmetric] res_simps finish_def split: if_splits)
    then show ?thesis
    proof cases
      case 1
      then show ?thesis using s1 by simp
    next
      case 2
      have "clocks_ok k n s2"
        by (rule res_fold_invariant [OF 2(1), where I = "clocks_ok k n"])
           (use s1 b1 in \<open>auto simp: release_participant_def res_simps intro: clocks_join_clock\<close>)
      then show ?thesis unfolding 2(2) by (rule clocks_set_barrier) simp
    qed
  qed
qed

lemma clocks_commit: "commit_store s step x v = Inr (s', r) \<Longrightarrow> clocks_ok k n s' = clocks_ok k n s"
  by (auto simp: commit_store_def Let_def finish_race_def)

lemma clocks_atomic:
  assumes ok: "clocks_ok k n s" "s_thread step < k"
    and ex: "exec_atomic_load p s step a = Inr (s', r) \<or> exec_atomic_store p s step a = Inr (s', r) \<or>
    exec_atomic_rmw p s step a = Inr (s', r) \<or> exec_cas p s step a = Inr (s', r) \<or>
    exec_read p s step a = Inr (s', r)"
  shows "clocks_ok k n s'"
proof -
  define t where "t = s_thread step"
  define s4 where "s4 u = join_clock (touch_atomic_clock u (a_address a)) t
      (mget mempty (st_atomic_clock (touch_atomic_clock u (a_address a))) (a_address a))" for u
  have s4: "clocks_ok k n (s4 u)" if "clocks_ok k n u" for u
    using clocks_touch_atomic [OF that] unfolding s4_def
    by (intro clocks_join_clock) (auto intro: clocks_okD(4))
  have "t < k" using ok(2) by (simp add: t_def)
  then show ?thesis
    using ex ok(1)
    by (elim disjE)
       (auto simp: exec_atomic_load_def exec_atomic_store_def exec_atomic_rmw_def exec_cas_def
          exec_read_def Let_def res_simps finish_def finish_race_def t_def [symmetric]
          s4_def [symmetric] clocks_write_register intro!: clocks_publish s4 split: if_splits)
qed

lemma clocks_write:
  assumes "exec_write p s step a = Inr (s', r)"
  shows "clocks_ok k n s' = clocks_ok k n s"
  using assms
  by (cases "st_model s")
     (auto simp: exec_write_def Let_def res_simps finish_def dest!: clocks_commit split: if_splits)

lemma clocks_flush:
  assumes "exec_flush s step = Inr (s', r)"
  shows "clocks_ok k n s' = clocks_ok k n s"
  using assms
  by (cases "st_model s = TSO")
     (auto simp: exec_flush_def Let_def res_simps dest!: clocks_commit split: list.splits option.splits)

lemma clocks_perform:
  assumes "perform_action p s step a = Inr (s', r)" "clocks_ok (length p) n s" "s_thread step < length p"
  shows "clocks_ok (length p) n s'"
  using assms
    clocks_local [of p s step a s' r] clocks_mutex [OF assms(2,3), of a s' r]
    clocks_rwlock [OF assms(2,3), of p a s' r] clocks_sem [OF assms(2,3), of p a s' r]
    clocks_wakes [OF assms(2,3), of p a s' r] clocks_wait [OF assms(2,3), of p a s' r]
    clocks_barrier [OF assms(2,3), of p a s' r] clocks_atomic [OF assms(2,3), of p a s' r]
    clocks_write [of p s step a s' r] clocks_flush [of s step s' r]
  by (cases "a_kind a") (simp_all add: perform_action_def res_simps)

section \<open>The whole step\<close>

text \<open>The number of steps each thread has taken.\<close>

definition steps_taken :: "exec_state \<Rightarrow> nat \<Rightarrow> nat" where
  "steps_taken s t = (if t < length (st_steps s) then st_steps s ! t else 0)"

definition clocks_count :: "program \<Rightarrow> exec_state \<Rightarrow> bool" where
  "clocks_count p s \<longleftrightarrow> length (st_steps s) = length p \<and> clocks_ok (length p) (steps_taken s) s"

lemma clocks_begin_step:
  assumes "clocks_count p s" "s_thread step < length p"
  shows "clocks_count p (begin_step s step)"
proof -
  define t where "t = s_thread step"
  define n where "n = steps_taken s"
  define m where "m = steps_taken (begin_step s step)"
  have m: "m u = (if u = t then Suc (n t) else n u)" for u
    using assms
    by (auto simp: m_def n_def t_def steps_taken_def begin_step_def clocks_count_def nth_list_update_if)
  have up: "within n c \<Longrightarrow> within m c" for c unfolding within_def m by (auto intro: le_SucI)
  note ok = assms(1) [unfolded clocks_count_def, folded n_def]
  have "within m (vc_tick t (st_clock s ! t))"
    using ok assms(2) clocks_okD(1) [of "length p" n s t] by (auto simp: within_def m t_def)
  then have "thread_clocks_ok (length p) m (st_clock (begin_step s step))"
    using ok assms(2) up
    unfolding clocks_ok_def thread_clocks_ok_def begin_step_def
    by (auto simp: nth_list_update_if t_def [symmetric] m)
  moreover have "objects_ok m (begin_step s step)"
    using ok up unfolding clocks_ok_def objects_ok_def begin_step_def by auto
  ultimately show ?thesis
    using ok by (simp add: clocks_count_def clocks_ok_def m_def begin_step_def)
qed

lemma clocks_step:
  assumes "execute_enabled_step p s step = Inr (s', r)" "clocks_count p s"
  shows "clocks_count p s'"
proof -
  obtain a where t: "s_thread step < length p"
    and ex: "perform_action p (begin_step s step) step a = Inr (s', r)"
    using assms(1) unfolding execute_enabled_step_def Let_def
    by (cases "is_flush_step step") (auto simp only: if_True if_False res_simps)
  note b = clocks_begin_step [OF assms(2) t]
  have "header s' = header (begin_step s step)" using perform_action_parts [OF ex] by blast
  then have "st_steps s' = st_steps (begin_step s step)" by (simp add: header_def)
  then have "steps_taken s' = steps_taken (begin_step s step)" "length (st_steps s') = length p"
    using b by (simp_all add: steps_taken_def clocks_count_def fun_eq_iff)
  then show ?thesis
    using b clocks_perform [OF ex _ t] by (simp add: clocks_count_def)
qed

lemma initial_barrier_clock:
  assumes "mlookup (initial_barriers p) x = Some b"
  shows "arrival_releases b = mempty"
proof -
  have "mlookup (fold add_barrier as bs) x = Some b \<Longrightarrow>
     (\<And>n b. mlookup bs n = Some b \<Longrightarrow> arrival_releases b = mempty) \<Longrightarrow> arrival_releases b = mempty"
    for as bs
    by (induction as arbitrary: bs) (fastforce simp: add_barrier_def split: if_splits)+
  then show ?thesis using assms by (fastforce simp: initial_barriers_def)
qed

lemma clocks_initial: "clocks_count p (initial_state p m)"
  by (auto simp: clocks_count_def clocks_ok_def thread_clocks_ok_def objects_ok_def initial_state_pc
      steps_taken_def empty_rwlock_def empty_semaphore_def dest: initial_barrier_clock)

section \<open>The access a step records\<close>

text \<open>Which detector handles which access.\<close>

definition detector :: "memory_access \<Rightarrow> string \<Rightarrow> memory_access \<Rightarrow> schedule \<Rightarrow> address_state \<Rightarrow>
    address_state \<times> race_report option" where
  "detector acc =
     (if m_is_atomic acc then record_atomic else if m_is_write acc then record_write else record_read)"

text \<open>
  From memory \<open>mem\<close>, a step of an action of the given kind reached \<open>s'\<close> and reported \<open>race\<close>: it
  touched no record, or one detector added its access to the record of one address.
\<close>

definition records ::
  "(string, address_state) omap \<Rightarrow> action_kind \<Rightarrow> schedule_step \<Rightarrow> exec_state \<Rightarrow> race_report option \<Rightarrow> bool"
where
  "records mem kind step s' race \<longleftrightarrow>
     (st_memory s' = mem \<and> race = None) \<or>
     (\<exists>address acc. (\<not> m_is_atomic acc \<and> \<not> m_is_write acc \<longrightarrow> kind = Read) \<and>
        m_endpoint acc = step \<and> m_clock acc = st_clock s' ! s_thread step \<and>
        st_memory s' = mupdate address
          (fst (detector acc address acc (st_schedule s') (mget empty_address_state mem address))) mem \<and>
        race = snd (detector acc address acc (st_schedule s') (mget empty_address_state mem address)))"

lemma records_nothing [simp]: "st_memory s' = mem \<Longrightarrow> records mem kind step s' None"
  by (simp add: records_def)

lemma records_access:
  assumes "f = detector (access_now s step atomic wr)" "\<not> atomic \<and> \<not> wr \<longrightarrow> kind = Read" "st_memory s = mem"
  shows "records mem kind step (fst (on_address f s address (access_now s step atomic wr)))
    (snd (on_address f s address (access_now s step atomic wr)))"
  unfolding records_def
  by (intro disjI2 exI [of _ address] exI [of _ "access_now s step atomic wr"])
     (use assms in \<open>simp add: on_address_def access_now_def case_prod_unfold Let_def\<close>)

lemma memory_simps [simp]:
  "st_memory (advance_pc p s t) = st_memory s" "st_memory (set_pc p s t pc) = st_memory s"
  "st_memory (normalize_pc p s t) = st_memory s" "st_memory (join_clock s t c) = st_memory s"
  "st_memory (acquire_mutex s t m) = st_memory s" "st_memory (release_mutex s t m) = st_memory s"
  "st_memory (set_rwlock s n rw) = st_memory s" "st_memory (set_phase s t ph) = st_memory s"
  "st_memory (set_waiters s cv ws) = st_memory s" "st_memory (set_value s x v) = st_memory s"
  "st_memory (touch_value s x) = st_memory s" "st_memory (touch_atomic_clock s x) = st_memory s"
  "st_memory (publish_atomic s t x) = st_memory s" "st_memory (store_register s t r v) = st_memory s"
  "st_memory (begin_step s step) = st_memory s"
  by (simp_all add: state_ops Let_def)

lemma memory_write_register: "write_register s t d v = Inr s' \<Longrightarrow> st_memory s' = st_memory s"
  by (auto simp: write_register_def guarded_def split: option.splits if_splits)

lemma memory_wake: "wake_waiter p t w s = Inr s' \<Longrightarrow> st_memory s' = st_memory s"
  by (auto simp: wake_waiter_def res_simps Let_def dest!: memory_write_register split: if_splits)

lemma memory_fold:
  assumes "res_fold f xs s = Inr s'" "\<And>x u v. f x u = Inr v \<Longrightarrow> st_memory v = st_memory u"
  shows "st_memory s' = st_memory s"
  by (rule res_fold_invariant [OF assms(1), where I = "\<lambda>u. st_memory u = st_memory s"])
     (auto dest: assms(2))

lemma memory_wake_all: "res_fold (wake_waiter p t) ws s = Inr s' \<Longrightarrow> st_memory s' = st_memory s"
  by (erule memory_fold) (rule memory_wake)

lemma memory_local:
  assumes "exec_set p s step a = Inr (s', r) \<or> exec_branch p s step a = Inr (s', r) \<or>
    exec_assert p s step a = Inr (s', r) \<or> exec_local p s step = Inr (s', r)"
  shows "st_memory s' = st_memory s \<and> sr_race r = None"
  using assms
  by (elim disjE)
     (auto simp: exec_set_def exec_branch_def exec_assert_def exec_local_def Let_def res_simps
        finish_def finish_error_def no_report_def dest!: memory_write_register split: option.splits if_splits)

lemma memory_sync:
  assumes "exec_lock p s step a = Inr (s', r) \<or> exec_try_lock p s step a = Inr (s', r) \<or>
    exec_unlock p s step a = Inr (s', r) \<or> exec_join p s step a = Inr (s', r) \<or>
    exec_spawn p s step a = Inr (s', r) \<or> exec_rlock p s step a = Inr (s', r) \<or>
    exec_wlock p s step a = Inr (s', r) \<or> exec_upgrade p s step a = Inr (s', r) \<or>
    exec_runlock p s step a = Inr (s', r) \<or> exec_wunlock p s step a = Inr (s', r) \<or>
    exec_downgrade p s step a = Inr (s', r) \<or> exec_sem_post p s step a = Inr (s', r) \<or>
    exec_sem_wait p s step a = Inr (s', r)"
  shows "st_memory s' = st_memory s \<and> sr_race r = None"
  using assms
  by (elim disjE)
     (auto simp: exec_lock_def exec_try_lock_def exec_unlock_def exec_join_def exec_spawn_def
        exec_rlock_def exec_wlock_def exec_upgrade_def exec_runlock_def exec_wunlock_def
        exec_downgrade_def exec_sem_post_def exec_sem_wait_def Let_def res_simps finish_def
        finish_error_def no_report_def dest!: memory_write_register split: option.splits if_splits)

lemma memory_wakes:
  assumes "exec_signal p s step a = Inr (s', r) \<or> exec_broadcast p s step a = Inr (s', r) \<or>
    exec_wait p s step a = Inr (s', r)"
  shows "st_memory s' = st_memory s \<and> sr_race r = None"
  using assms
  by (elim disjE)
     (auto simp: exec_signal_def exec_broadcast_def exec_wait_def insert_waiter_def
        remove_waiter_def Let_def res_simps finish_def finish_error_def no_report_def
        dest!: memory_write_register memory_wake memory_wake_all
        split: list.splits if_splits)

lemma memory_barrier:
  assumes "exec_barrier p s step a = Inr (s', r)"
  shows "st_memory s' = st_memory s \<and> sr_race r = None"
proof -
  have "st_memory v = st_memory u" if "release_participant p a k c x u = Inr v" for k c x u v
    using that by (auto simp: release_participant_def res_simps)
  then show ?thesis
    using assms
    by (auto simp: exec_barrier_def Let_def res_simps finish_def finish_error_def no_report_def
        dest!: memory_fold split: option.splits if_splits)
qed

lemma memory_untouched:
  assumes "a_kind a \<notin> {AtomicLoad, AtomicStore, AtomicRmw, CompareExchange, Flush, Read, Write}"
    and "perform_action p s step a = Inr (s', r)"
  shows "st_memory s' = st_memory s \<and> sr_race r = None"
  using assms memory_local [of p s step a s' r] memory_sync [of p s step a s' r]
    memory_wakes [of p s step a s' r] memory_barrier [of p s step a s' r]
  by (cases "a_kind a") (simp_all add: perform_action_def)

text \<open>The cases that record.\<close>

lemma records_finish:
  assumes "finish_race (on_address f s address (access_now s step atomic wr)) = Inr (s', r)"
    and "f = detector (access_now s step atomic wr)" "\<not> atomic \<and> \<not> wr \<longrightarrow> kind = Read" "st_memory s = mem"
  shows "records mem kind step s' (sr_race r)"
  using assms records_access [OF assms(2-4)] by (auto simp: finish_race_def no_report_def)

lemma records_commit:
  assumes "commit_store s step x v = Inr (s', r)" "st_memory s = mem"
  shows "records mem kind step s' (sr_race r)"
proof (rule records_finish)
  show "finish_race (on_address record_write (set_value s x v) x
      (access_now (set_value s x v) step False True)) = Inr (s', r)"
    using assms(1) by (simp add: commit_store_def Let_def)
  show "record_write = detector (access_now (set_value s x v) step False True)"
    by (simp add: detector_def access_now_def)
qed (use assms(2) in simp_all)

lemma records_flush:
  assumes "exec_flush s step = Inr (s', r)"
  shows "records (st_memory s) kind step s' (sr_race r)"
  using assms
  by (cases "st_model s = TSO")
     (auto simp: exec_flush_def Let_def res_simps split: list.splits option.splits intro: records_commit)

lemma records_write:
  assumes "exec_write p s step a = Inr (s', r)"
  shows "records (st_memory s) kind step s' (sr_race r)"
  using assms
  by (cases "st_model s")
     (auto simp: exec_write_def Let_def res_simps finish_def no_report_def
        intro: records_commit split: if_splits)

lemma records_read:
  assumes "exec_read p s step a = Inr (s', r)"
  shows "records (st_memory s) Read step s' (sr_race r)"
proof (cases "a_address a = []")
  case True
  then show ?thesis
    using assms by (auto simp: exec_read_def Let_def finish_def no_report_def)
next
  case False
  then obtain s2 where "st_memory s2 = st_memory s"
      "finish_race (on_address record_read s2 (a_address a) (access_now s2 step False False)) = Inr (s', r)"
    using assms by (auto simp: exec_read_def Let_def res_simps dest!: memory_write_register)
  then show ?thesis
    using records_finish [of record_read s2] by (simp add: detector_def access_now_def)
qed

lemma records_atomic:
  assumes "exec_atomic_load p s step a = Inr (s', r) \<or> exec_atomic_store p s step a = Inr (s', r) \<or>
    exec_atomic_rmw p s step a = Inr (s', r) \<or> exec_cas p s step a = Inr (s', r)"
  shows "records (st_memory s) kind step s' (sr_race r)"
proof (cases "a_address a = []")
  case True
  then show ?thesis
    using assms
    by (auto simp: exec_atomic_load_def exec_atomic_store_def exec_atomic_rmw_def exec_cas_def
        Let_def finish_def no_report_def)
next
  case False
  have here: "records (st_memory s) kind step s' (sr_race r)"
    if "finish_race (on_address record_atomic u (a_address a) (access_now u step True wr)) = Inr (s', r)"
      "st_memory u = st_memory s" for u wr
    using records_finish [OF that(1) _ _ that(2)] by (simp add: detector_def access_now_def)
  show ?thesis
    using assms False
    by (elim disjE)
       (auto simp: exec_atomic_load_def exec_atomic_store_def exec_atomic_rmw_def exec_cas_def
          Let_def res_simps dest!: memory_write_register elim!: here)
qed

lemma records_perform:
  assumes "perform_action p s step a = Inr (s', r)"
  shows "records (st_memory s) (a_kind a) step s' (sr_race r)"
proof (cases "a_kind a \<in> {AtomicLoad, AtomicStore, AtomicRmw, CompareExchange, Flush, Read, Write}")
  case True
  then show ?thesis
    using assms records_flush [of s step s' r] records_write [of p s step a s' r]
      records_read [of p s step a s' r] records_atomic [of p s step a s' r]
    by (auto simp: perform_action_def res_simps)
next
  case False
  then show ?thesis using memory_untouched [OF False assms] by (metis records_nothing)
qed

lemma step_records:
  assumes "execute_enabled_step p s step = Inr (s', r)"
  obtains kind where "records (st_memory s) kind step s' (sr_race r)"
    "kind = Read \<Longrightarrow> \<not> is_flush_step step \<and> s_index step = st_pc s ! s_thread step \<and>
       a_kind (p ! s_thread step ! s_index step) = Read"
proof (cases "is_flush_step step")
  case True
  then have "perform_action p (begin_step s step) step (effective_action_for_step p s step) = Inr (s', r)"
    using assms by (simp add: execute_enabled_step_def Let_def res_simps)
  from records_perform [OF this] show ?thesis
    using that [of Flush] effective_flush_kind [OF True] by simp
next
  case False
  then have "perform_action p (begin_step s step) step (p ! s_thread step ! s_index step) = Inr (s', r)"
      "s_index step = st_pc s ! s_thread step"
    using assms by (auto simp: execute_enabled_step_def Let_def res_simps)
  from records_perform [OF this(1)] this(2) show ?thesis using that False by auto
qed

end
