(* ===== verification/Acyclic.thy ===== *)
theory Acyclic
  imports Lasso
begin

text \<open>
  When the static scan \<open>requires_cycle_detection\<close> finds no backward branch, the checker keeps
  no fingerprint history. This theory proves the elision sound: a weight that depends on the
  behavioural state alone strictly decreases with every step, so no behavioural state recurs
  and every execution ends within the initial weight.
\<close>

section \<open>The weight of a state\<close>

definition phase_rank :: "wait_phase \<Rightarrow> nat" where
  "phase_rank ph = (case ph of Phase_None \<Rightarrow> 2 | Waiting \<Rightarrow> 1 | Woken \<Rightarrow> 0)"

definition arrived_in :: "(string, barrier_state) omap \<Rightarrow> nat \<Rightarrow> bool" where
  "arrived_in barriers t = list_ex (\<lambda>(_, b). omember t (arrivals b)) (mentries barriers)"

definition pending_stores :: "exec_state \<Rightarrow> nat \<Rightarrow> nat" where
  "pending_stores s t =
     length (st_store_buffers s ! t) +
     sum_list (map (\<lambda>e. length (snd e)) (mentries (st_pso_buffers s ! t)))"

definition thread_weight :: "program \<Rightarrow> exec_state \<Rightarrow> nat \<Rightarrow> nat" where
  "thread_weight p s t =
     5 * (length (p ! t) - st_pc s ! t) + phase_rank (st_phase s ! t) +
     (if arrived_in (st_barriers s) t then 0 else 1) + pending_stores s t"

definition weight :: "program \<Rightarrow> exec_state \<Rightarrow> nat" where
  "weight p s = sum_list (map (thread_weight p s) [0..<length p])"

lemma arrived_in_iff:
  "arrived_in barriers t \<longleftrightarrow> (\<exists>name b. mlookup barriers name = Some b \<and> omember t (arrivals b))"
  by (auto simp: arrived_in_def list_ex_iff mentries_iff [symmetric] split: prod.splits)

lemma sum_list_less:
  assumes "\<And>u. u < n \<Longrightarrow> f u \<le> (g u :: nat)" "t < n" "f t < g t"
  shows "sum_list (map f [0..<n]) < sum_list (map g [0..<n])"
  using assms
proof (induction n)
  case (Suc n)
  have le: "sum_list (map f [0..<m]) \<le> sum_list (map g [0..<m])" if "m \<le> n" for m
    using that Suc.prems(1) by (intro sum_list_mono) auto
  show ?case
  proof (cases "t = n")
    case True
    then show ?thesis using le [of n] Suc.prems(3) by simp
  next
    case False
    then have "sum_list (map f [0..<n]) < sum_list (map g [0..<n])" using Suc by simp
    then show ?thesis using Suc.prems(1) [of n] by simp
  qed
qed simp

lemma weight_less:
  assumes "\<And>u. u < length p \<Longrightarrow> thread_weight p s' u \<le> thread_weight p s u"
    and "t < length p" "thread_weight p s' t < thread_weight p s t"
  shows "weight p s' < weight p s"
  unfolding weight_def using assms by (rule sum_list_less)

lemma weight_sim:
  assumes "sim s t"
  shows "weight p s = weight p t"
proof -
  have "arrived_in (st_barriers s) u = arrived_in (st_barriers t) u" for u
  proof -
    have "(\<exists>b. mlookup (st_barriers s) n = Some b \<and> omember u (arrivals b)) \<longleftrightarrow>
        (\<exists>b. mlookup (st_barriers t) n = Some b \<and> omember u (arrivals b))" for n
      using fun_cong [OF simD(7) [OF assms], of n]
      by (cases "mlookup (st_barriers s) n"; cases "mlookup (st_barriers t) n")
         (auto simp: barrier_view_def)
    then show ?thesis unfolding arrived_in_iff by blast
  qed
  then have "thread_weight p s = thread_weight p t"
    unfolding thread_weight_def pending_stores_def simD [OF assms] by simp
  then show ?thesis by (simp add: weight_def)
qed

section \<open>Steps that move a program counter\<close>

text \<open>The components the weight reads.\<close>

definition flow :: "exec_state \<Rightarrow>
  nat list \<times> wait_phase list \<times> (string, barrier_state) omap \<times> store_buffer_entry list list \<times>
  pso_address_buffer list" where
  "flow s = (st_pc s, st_phase s, st_barriers s, st_store_buffers s, st_pso_buffers s)"

lemma flow_simps [simp]:
  "flow (join_clock s t c) = flow s" "flow (acquire_mutex s t m) = flow s"
  "flow (release_mutex s t m) = flow s" "flow (set_rwlock s n rw) = flow s"
  "flow (set_waiters s cv ws) = flow s" "flow (set_value s x v) = flow s"
  "flow (touch_value s x) = flow s" "flow (touch_atomic_clock s x) = flow s"
  "flow (publish_atomic s t x) = flow s" "flow (s\<lparr>st_semaphores := y\<rparr>) = flow s"
  "flow (s\<lparr>st_started := z\<rparr>) = flow s" "flow (fst (on_address f s x acc)) = flow s"
  "flow (store_register s t r v) = flow s" "flow (begin_step s step) = flow s"
  by (simp_all add: flow_def state_ops Let_def on_address_def split: prod.split)

lemma write_register_flow: "write_register s t d v = Inr s' \<Longrightarrow> flow s' = flow s"
  by (auto simp: write_register_def guarded_def split: option.splits if_splits)

definition moves :: "program \<Rightarrow> exec_state \<Rightarrow> nat \<Rightarrow> exec_state \<Rightarrow> bool" where
  "moves p s t s' \<longleftrightarrow>
     (\<exists>pc. st_pc s' = (st_pc s)[t := pc] \<and> st_pc s ! t < pc \<and> pc \<le> length (p ! t)) \<and>
     (\<forall>u. phase_rank (st_phase s' ! u) \<le> phase_rank (st_phase s ! u) + (if u = t then 2 else 0)) \<and>
     st_barriers s' = st_barriers s \<and>
     (\<forall>u. pending_stores s' u \<le> pending_stores s u + (if u = t then 1 else 0))"

lemma moves_weight:
  assumes "moves p s t s'" "t < length p" "length (st_pc s) = length p"
  shows "weight p s' < weight p s"
proof (rule weight_less [OF _ assms(2)])
  note M = assms(1) [unfolded moves_def]
  obtain pc where pc: "st_pc s' = (st_pc s)[t := pc]" "st_pc s ! t < pc" "pc \<le> length (p ! t)"
    using M by blast
  have rank: "phase_rank (st_phase s' ! u) \<le> phase_rank (st_phase s ! u) + (if u = t then 2 else 0)"
    for u using M by blast
  have pend: "pending_stores s' u \<le> pending_stores s u + (if u = t then 1 else 0)" for u
    using M by blast
  have bars: "st_barriers s' = st_barriers s" using M by blast
  show less: "thread_weight p s' t < thread_weight p s t"
  proof -
    have "length (p ! t) - pc + 1 \<le> length (p ! t) - st_pc s ! t" using pc(2,3) by arith
    moreover have "st_pc s' ! t = pc" using pc(1) assms(2,3) by simp
    moreover have "pending_stores s' t \<le> pending_stores s t + 1" using pend [of t] by simp
    ultimately show ?thesis using rank [of t] bars unfolding thread_weight_def by simp
  qed
  show "thread_weight p s' u \<le> thread_weight p s u" if "u < length p" for u
  proof (cases "u = t")
    case False
    then have "st_pc s' ! u = st_pc s ! u" using pc(1) by simp
    then show ?thesis using False rank [of u] pend [of u] bars by (simp add: thread_weight_def)
  qed (use less in simp)
qed

lemma moves_advance:
  assumes "at_action p s t a" "flow s' = flow (advance_pc p s t)"
  shows "moves p s t s'"
proof -
  note A = at_actionD [OF assms(1)]
  have "st_pc s ! t < skip_labels (p ! t) (Suc (st_pc s ! t))"
    using skip_labels_ge [of "Suc (st_pc s ! t)" "p ! t"] by simp
  moreover have "skip_labels (p ! t) (Suc (st_pc s ! t)) \<le> length (p ! t)"
    using A(4) by (intro skip_labels_le) simp
  moreover have "st_pc s' = (st_pc s)[t := skip_labels (p ! t) (Suc (st_pc s ! t))]"
      "st_phase s' = st_phase s" "st_barriers s' = st_barriers s"
      "st_store_buffers s' = st_store_buffers s" "st_pso_buffers s' = st_pso_buffers s"
    using assms(2) by (simp_all add: flow_def advance_pc_def)
  ultimately show ?thesis unfolding moves_def by (auto simp: pending_stores_def)
qed

lemma flow_advance_cong: "flow s = flow s' \<Longrightarrow> flow (advance_pc p s t) = flow (advance_pc p s' t)"
  by (simp add: flow_def advance_pc_def)

lemma local_flow:
  assumes "exec_set p s step a = Inr (s', r) \<or> exec_assert p s step a = Inr (s', r) \<or>
    exec_local p s step = Inr (s', r) \<or> exec_lock p s step a = Inr (s', r) \<or>
    exec_try_lock p s step a = Inr (s', r) \<or> exec_unlock p s step a = Inr (s', r) \<or>
    exec_join p s step a = Inr (s', r)"
  shows "flow s' = flow (advance_pc p s (s_thread step))"
  using assms
  by (elim disjE)
     (auto simp: exec_set_def exec_assert_def exec_local_def exec_lock_def exec_try_lock_def
        exec_unlock_def exec_join_def Let_def res_simps finish_def finish_error_def
        dest!: write_register_flow intro: flow_advance_cong split: if_splits)

lemma rwlock_flow:
  assumes "exec_rlock p s step a = Inr (s', r) \<or> exec_wlock p s step a = Inr (s', r) \<or>
    exec_upgrade p s step a = Inr (s', r) \<or> exec_runlock p s step a = Inr (s', r) \<or>
    exec_wunlock p s step a = Inr (s', r) \<or> exec_downgrade p s step a = Inr (s', r)"
  shows "flow s' = flow (advance_pc p s (s_thread step))"
  using assms
  by (elim disjE)
     (auto simp: exec_rlock_def exec_wlock_def exec_upgrade_def exec_runlock_def exec_wunlock_def
        exec_downgrade_def Let_def res_simps finish_def finish_error_def split: if_splits)

lemma sem_flow:
  assumes "exec_sem_post p s step a = Inr (s', r) \<or> exec_sem_wait p s step a = Inr (s', r)"
  shows "flow s' = flow (advance_pc p s (s_thread step))"
  using assms
  by (elim disjE)
     (auto simp: exec_sem_post_def exec_sem_wait_def Let_def res_simps finish_def
        split: option.splits if_splits)

lemma commit_flow: "commit_store s step x v = Inr (s', r) \<Longrightarrow> flow s' = flow s"
  by (auto simp: commit_store_def Let_def finish_race_def)

lemma memory_flow:
  assumes "exec_atomic_load p s step a = Inr (s', r) \<or> exec_atomic_store p s step a = Inr (s', r) \<or>
    exec_atomic_rmw p s step a = Inr (s', r) \<or> exec_cas p s step a = Inr (s', r) \<or>
    exec_read p s step a = Inr (s', r)"
  shows "flow s' = flow (advance_pc p s (s_thread step))"
  using assms
  by (elim disjE)
     (auto simp: exec_atomic_load_def exec_atomic_store_def exec_atomic_rmw_def exec_cas_def
        exec_read_def Let_def res_simps finish_def finish_race_def
        dest!: write_register_flow split: if_splits)

lemma moves_spawn:
  assumes at: "at_action p s (s_thread step) a" and ex: "exec_spawn p s step a = Inr (s', r)"
  shows "moves p s (s_thread step) s'"
proof (rule moves_advance [OF at])
  define t where "t = s_thread step"
  have "skip_labels (p ! u) (st_pc s ! u) = st_pc s ! u" if "u < length p" for u
    using wf_stateD(2) [OF at_actionD(1) [OF at]] that by (intro skip_labels_here) (auto simp: pc_ok_def)
  then have "flow (normalize_pc p (advance_pc p s t\<lparr>st_started := b\<rparr>) u) = flow (advance_pc p s t)"
    if "u < length p" "u \<noteq> t" for u b
    using that by (simp add: flow_def normalize_pc_def advance_pc_def)
      (metis list_update_id nth_list_update_neq)
  then show "flow s' = flow (advance_pc p s (s_thread step))"
    using ex
    by (auto simp: exec_spawn_def Let_def t_def spawn_target_is_invalid_def finish_error_def
        split: if_splits)
qed

lemma moves_branch:
  assumes at: "at_action p s (s_thread step) a" and kind: "a_kind a = BranchNonzero"
    and acyclic: "\<not> requires_cycle_detection p" and ex: "exec_branch p s step a = Inr (s', r)"
  shows "moves p s (s_thread step) s'"
proof -
  define t where "t = s_thread step"
  note A = at_actionD [OF at, folded t_def]
  consider "s' = advance_pc p s t"
    | target where "resolve_label p t (a_label a) = Some target" "s' = set_pc p s t target"
    using ex by (auto simp: exec_branch_def Let_def t_def res_simps finish_def finish_error_def
        split: if_splits option.splits)
  then show ?thesis
  proof cases
    case 1
    then show ?thesis by (intro moves_advance [OF at]) (simp add: t_def)
  next
    case 2
    have "\<not> branches_back p t (st_pc s ! t)"
      using acyclic A(2,4) by (auto simp: requires_cycle_detection_def list_ex_iff)
    then have "st_pc s ! t < skip_labels (p ! t) target"
      using A(5) kind 2(1) by (simp add: branches_back_def not_le)
    moreover have "skip_labels (p ! t) target \<le> length (p ! t)"
      using resolve_label_in_thread [OF 2(1)] by (intro skip_labels_le) simp
    ultimately show ?thesis
      unfolding moves_def 2(2) t_def [symmetric]
      by (auto simp: set_pc_def pending_stores_def)
  qed
qed

text \<open>A wake lowers the rank of the waiter and leaves the rest of the flow.\<close>

definition woken_from :: "exec_state \<Rightarrow> exec_state \<Rightarrow> bool" where
  "woken_from s s' \<longleftrightarrow>
     st_pc s' = st_pc s \<and> st_barriers s' = st_barriers s \<and>
     st_store_buffers s' = st_store_buffers s \<and> st_pso_buffers s' = st_pso_buffers s \<and>
     (\<forall>u. phase_rank (st_phase s' ! u) \<le> phase_rank (st_phase s ! u))"

lemma woken_from_wake: "wake_waiter p t w s = Inr s' \<Longrightarrow> woken_from s s'"
proof -
  assume "wake_waiter p t w s = Inr s'"
  moreover define s1 where "s1 = join_clock (set_phase s w Woken) w (st_clock s ! t)"
  ultimately have "s' = s1 \<or> (\<exists>d. write_register s1 w d 1 = Inr s')"
    by (auto simp: wake_waiter_def guarded_def Let_def split: if_splits)
  then have "flow s' = flow (set_phase s w Woken)"
    using write_register_flow [of s1] by (auto simp: s1_def)
  moreover have "phase_rank ((st_phase s)[w := Woken] ! u) \<le> phase_rank (st_phase s ! u)" for u
    by (cases "u = w"; cases "w < length (st_phase s)")
       (simp_all add: phase_rank_def list_update_beyond)
  ultimately show "woken_from s s'" by (simp add: woken_from_def flow_def set_phase_def)
qed

lemma woken_from_trans: "woken_from s t \<Longrightarrow> woken_from t u \<Longrightarrow> woken_from s u"
  unfolding woken_from_def by (metis order_trans)

lemma moves_woken:
  assumes at: "at_action p s t a" and flow: "flow s1 = flow (advance_pc p s t)"
    and woken: "woken_from s1 s'"
  shows "moves p s t s'"
  using moves_advance [OF at flow] woken flow
  unfolding moves_def woken_from_def pending_stores_def flow_def
  by (auto intro: order_trans)

lemma moves_wakes:
  assumes at: "at_action p s (s_thread step) a"
    and ex: "exec_signal p s step a = Inr (s', r) \<or> exec_broadcast p s step a = Inr (s', r)"
  shows "moves p s (s_thread step) s'"
proof -
  define t where "t = s_thread step"
  obtain ws s1 where "flow s1 = flow (advance_pc p s t)" "res_fold (wake_waiter p t) ws s1 = Inr s'"
  proof (cases "exec_broadcast p s step a = Inr (s', r)")
    case True
    then show ?thesis
      using that [of "set_waiters (advance_pc p s t) (a_condition a) []"]
      by (auto simp: exec_broadcast_def Let_def res_simps finish_def t_def)
  next
    case False
    then have sig: "exec_signal p s step a = Inr (s', r)" using ex by blast
    show ?thesis
    proof (cases "mget [] (st_waiters (advance_pc p s t)) (a_condition a)")
      case Nil
      then show ?thesis
        using that [of "set_waiters (advance_pc p s t) (a_condition a) []" "[]"] sig
        by (auto simp: exec_signal_def Let_def finish_def t_def)
    next
      case (Cons w rest)
      then show ?thesis
        using that [of "set_waiters (advance_pc p s t) (a_condition a) rest" "[w]"] sig
        by (auto simp: exec_signal_def Let_def res_simps finish_def t_def)
    qed
  qed
  moreover have "woken_from s1 s'"
  proof (rule res_fold_invariant [OF calculation(2)])
    show "woken_from s1 s1" by (simp add: woken_from_def)
    show "woken_from s1 v" if "woken_from s1 u" "wake_waiter p t x u = Inr v" for x u v
      using woken_from_trans [OF that(1) woken_from_wake [OF that(2)]] .
  qed
  ultimately show ?thesis using moves_woken [OF at] by (simp add: t_def)
qed

lemma push_pending:
  "sum_list (map (\<lambda>e. length (snd e)) (mentries (mupdate x (mget [] m x @ [v]) m))) =
   Suc (sum_list (map (\<lambda>e. length (snd e)) (mentries m)))"
  using sum_mentries_update [of length x "mget [] m x @ [v]" m]
  by (simp add: mget_def split: option.splits)

lemma moves_write:
  assumes at: "at_action p s (s_thread step) a" and ex: "exec_write p s step a = Inr (s', r)"
  shows "moves p s (s_thread step) s'"
proof -
  define t where "t = s_thread step"
  define s1 where "s1 = advance_pc p s t"
  note A = at_actionD [OF at, folded t_def]
  have len: "length (st_store_buffers s) = length p" "length (st_pso_buffers s) = length p"
    using wf_stateD(1) [OF A(1)] by (simp_all add: shape_ok_def)
  have adv: "moves p s t s1" using moves_advance [OF at, of s1] by (simp add: s1_def t_def)
  consider "flow s' = flow s1"
    | v x where "s' = s1\<lparr>st_store_buffers := (st_store_buffers s)[t := st_store_buffers s ! t @ [(x, v)]]\<rparr>"
    | v x where "s' = s1\<lparr>st_pso_buffers := (st_pso_buffers s)
        [t := mupdate x (mget [] (st_pso_buffers s ! t) x @ [v]) (st_pso_buffers s ! t)]\<rparr>"
  proof (cases "a_address a = []")
    case True
    then show ?thesis
      using ex that(1) unfolding exec_write_def Let_def t_def [symmetric] s1_def [symmetric]
      by (simp add: finish_def)
  next
    case False
    then obtain v where v: "(case st_model s1 of
          TSO \<Rightarrow> finish (s1\<lparr>st_store_buffers := (st_store_buffers s1)
                   [t := st_store_buffers s1 ! t @ [(a_address a, v)]]\<rparr>)
        | PSO \<Rightarrow> finish (s1\<lparr>st_pso_buffers := (st_pso_buffers s1)
                   [t := mupdate (a_address a) (mget [] (st_pso_buffers s1 ! t) (a_address a) @ [v])
                             (st_pso_buffers s1 ! t)]\<rparr>)
        | SC \<Rightarrow> commit_store s1 step (a_address a) v) = Inr (s', r)"
      using ex unfolding exec_write_def Let_def t_def [symmetric] s1_def [symmetric]
      by (simp only: if_False res_simps) blast
    have same: "st_store_buffers s1 = st_store_buffers s" "st_pso_buffers s1 = st_pso_buffers s"
      by (simp_all add: s1_def)
    show ?thesis
    proof (cases "st_model s1")
      case SC
      then show ?thesis using v by (intro that(1)) (auto dest: commit_flow)
    next
      case TSO
      then show ?thesis using v same by (intro that(2)) (auto simp: finish_def)
    next
      case PSO
      then show ?thesis using v same by (intro that(3)) (auto simp: finish_def)
    qed
  qed
  then show ?thesis
  proof cases
    case 1
    then show ?thesis using moves_advance [OF at] by (simp add: s1_def t_def)
  next
    case 2
    then have "pending_stores s' u \<le> pending_stores s u + (if u = t then 1 else 0)" for u
      using A(2) len by (simp add: pending_stores_def s1_def nth_list_update)
    then show ?thesis using adv 2 by (simp add: moves_def t_def [symmetric])
  next
    case 3
    then have "pending_stores s' u \<le> pending_stores s u + (if u = t then 1 else 0)" for u
      using A(2) len by (simp add: pending_stores_def s1_def nth_list_update push_pending)
    then show ?thesis using adv 3 by (simp add: moves_def t_def [symmetric])
  qed
qed

section \<open>Steps that stay at their program counter\<close>

lemma weight_flush:
  assumes wf: "wf_state p s" and t: "s_thread step < length p" and ex: "exec_flush s step = Inr (s', r)"
  shows "weight p s' < weight p s"
proof -
  define t where "t = s_thread step"
  have len: "length (st_store_buffers s) = length p" "length (st_pso_buffers s) = length p"
    using wf_stateD(1) [OF wf] by (simp_all add: shape_ok_def)
  obtain s1 where flow: "flow s' = flow s1"
    and same: "st_pc s1 = st_pc s" "st_phase s1 = st_phase s" "st_barriers s1 = st_barriers s"
    and pend: "pending_stores s1 t < pending_stores s t"
      "\<And>u. u \<noteq> t \<Longrightarrow> pending_stores s1 u = pending_stores s u"
  proof (cases "st_model s = TSO")
    case True
    then obtain x v rest where buf: "st_store_buffers s ! t = (x, v) # rest"
      and c: "commit_store (s\<lparr>st_store_buffers := (st_store_buffers s)[t := rest]\<rparr>) step x v = Inr (s', r)"
      using ex by (auto simp: exec_flush_def Let_def t_def split: list.splits)
    show ?thesis
      using buf assms(2) len
      by (intro that [OF commit_flow [OF c]]) (simp_all add: pending_stores_def t_def)
  next
    case False
    then obtain x v rest where buf: "mlookup (st_pso_buffers s ! t) x = Some (v # rest)"
      and c: "commit_store (s\<lparr>st_pso_buffers := (st_pso_buffers s)[t :=
        if rest = [] then mdelete x (st_pso_buffers s ! t)
        else mupdate x rest (st_pso_buffers s ! t)]\<rparr>) step x v = Inr (s', r)"
      using ex unfolding exec_flush_def Let_def t_def [symmetric]
      by (simp only: if_False res_simps option.case list.case split: list.splits option.splits) (blast | simp)+
    show ?thesis
      using buf assms(2) len sum_mentries_delete [of length x "st_pso_buffers s ! t"]
        sum_mentries_update [of length x rest "st_pso_buffers s ! t"]
      by (intro that [OF commit_flow [OF c]]) (auto simp: pending_stores_def t_def)
  qed
  have eq: "thread_weight p s' u = 5 * (length (p ! u) - st_pc s ! u) + phase_rank (st_phase s ! u) +
      (if arrived_in (st_barriers s) u then 0 else 1) + pending_stores s1 u" for u
    using flow same by (simp add: thread_weight_def flow_def pending_stores_def)
  show ?thesis
  proof (rule weight_less)
    show "t < length p" using t by (simp add: t_def)
    show "thread_weight p s' t < thread_weight p s t"
      unfolding eq unfolding thread_weight_def using pend(1) by simp
    show "thread_weight p s' u \<le> thread_weight p s u" for u
      unfolding eq unfolding thread_weight_def using pend(1) pend(2) [of u] by (cases "u = t") simp_all
  qed
qed

lemma weight_wait:
  assumes at: "at_action p s (s_thread step) a" and kind: "a_kind a \<in> {Wait, TimedWait}"
    and ex: "exec_wait p s step a = Inr (s', r)"
  shows "weight p s' < weight p s"
proof -
  define t where "t = s_thread step"
  note A = at_actionD [OF at, folded t_def]
  have len: "length (st_pc s) = length p" "length (st_phase s) = length p"
    using wf_stateD(1) [OF A(1)] by (simp_all add: shape_ok_def)
  consider ph where "flow s' = flow (advance_pc p (set_phase s t ph) t)"
    | ph where "flow s' = flow (set_phase s t ph)" "phase_rank ph < phase_rank (st_phase s ! t)"
  proof (cases "st_phase s ! t")
    case Woken
    then have "flow s' = flow (advance_pc p (set_phase (acquire_mutex s t (a_mutex a)) t Phase_None) t)"
      using ex by (auto simp: exec_wait_def Let_def t_def res_simps finish_def)
    also have "\<dots> = flow (advance_pc p (set_phase s t Phase_None) t)"
      by (intro flow_advance_cong) (simp add: flow_def set_phase_def acquire_mutex_def Let_def)
    finally show ?thesis using that(1) by blast
  next
    case Waiting
    define s1 where "s1 = set_waiters s (a_condition a)
        (vec_remove t (mget [] (st_waiters s) (a_condition a)))"
    have "flow s1 = flow s" by (simp add: s1_def)
    moreover obtain d where "write_register (set_phase s1 t Woken) t d 0 = Inr s'"
      using ex Waiting
      by (auto simp: exec_wait_def Let_def t_def res_simps finish_def remove_waiter_def s1_def
          split: if_splits)
    ultimately have "flow s' = flow (set_phase s t Woken)"
      using write_register_flow [of "set_phase s1 t Woken"] by (simp add: flow_def set_phase_def)
    then show ?thesis using that(2) Waiting by (simp add: phase_rank_def)
  next
    case Phase_None
    show ?thesis
    proof (cases "owns_mutex s t (a_mutex a)")
      case True
      then have "flow s' = flow (set_phase s t Waiting)"
        using ex Phase_None
        by (auto simp: exec_wait_def Let_def t_def res_simps finish_def insert_waiter_def flow_def
            set_phase_def set_waiters_def release_mutex_def)
      then show ?thesis using that(2) Phase_None by (simp add: phase_rank_def)
    next
      case False
      moreover have "(st_phase s)[t := Phase_None] = st_phase s"
        using Phase_None by (metis list_update_id)
      ultimately have "flow s' = flow (advance_pc p (set_phase s t Phase_None) t)"
        using ex Phase_None
        by (auto simp: exec_wait_def Let_def t_def res_simps finish_error_def flow_def
            set_phase_def advance_pc_def)
      then show ?thesis using that(1) by blast
    qed
  qed
  then show ?thesis
  proof cases
    case 1
    have adv: "moves p s t (advance_pc p s t)" using moves_advance [OF at] by (simp add: t_def)
    have "phase_rank ((st_phase s)[t := ph] ! u) \<le> phase_rank (st_phase s ! u) + (if u = t then 2 else 0)"
      for u using len A(2) by (cases "u = t") (simp_all add: phase_rank_def split: wait_phase.split)
    then have "moves p s t s'"
      using adv 1 by (auto simp: moves_def flow_def advance_pc_def set_phase_def pending_stores_def)
    then show ?thesis using moves_weight A(2) len(1) by blast
  next
    case 2
    have eq: "thread_weight p s' u = 5 * (length (p ! u) - st_pc s ! u) +
        phase_rank (if u = t then ph else st_phase s ! u) +
        (if arrived_in (st_barriers s) u then 0 else 1) + pending_stores s u" for u
      using 2(1) len A(2) by (simp add: thread_weight_def flow_def set_phase_def pending_stores_def nth_list_update)
    show ?thesis
      by (rule weight_less [OF _ A(2)]; unfold eq, unfold thread_weight_def; use 2(2) in simp)
  qed
qed

text \<open>The release loop advances exactly the participants.\<close>

lemma release_loop_flow:
  assumes "res_fold (release_participant p a k c) xs s = Inr s'" "distinct xs"
    and "length (st_pc s) = length p"
  shows "st_pc s' = map (\<lambda>u. if u \<in> set xs then skip_labels (p ! u) (Suc (st_pc s ! u))
      else st_pc s ! u) [0..<length p] \<and> st_phase s' = st_phase s \<and>
    st_barriers s' = st_barriers s \<and> st_store_buffers s' = st_store_buffers s \<and>
    st_pso_buffers s' = st_pso_buffers s \<and>
    (\<forall>x\<in>set xs. st_pc s ! x < length (p ! x))"
  using assms
proof (induction xs arbitrary: s)
  case Nil
  then show ?case by (auto intro!: nth_equalityI)
next
  case (Cons x xs)
  then obtain s1 where r: "release_participant p a k c x s = Inr s1"
    and rest: "res_fold (release_participant p a k c) xs s1 = Inr s'"
    by (auto simp: res_simps)
  note f = release_participant_frame [OF r]
  have pc1: "st_pc s1 = (st_pc s)[x := skip_labels (p ! x) (Suc (st_pc s ! x))]"
    using f(1) by (simp add: advance_pc_def)
  have same: "st_phase s1 = st_phase s" "st_barriers s1 = st_barriers s"
    "st_store_buffers s1 = st_store_buffers s" "st_pso_buffers s1 = st_pso_buffers s"
    using f(1) by simp_all
  have x: "x \<notin> set xs" "distinct xs" "x < length p" using Cons.prems(2) f(2) by simp_all
  note IH = Cons.IH [OF rest x(2)]
  have "map (\<lambda>u. if u \<in> set xs then skip_labels (p ! u) (Suc (st_pc s1 ! u)) else st_pc s1 ! u)
      [0..<length p] =
    map (\<lambda>u. if u \<in> set (x # xs) then skip_labels (p ! u) (Suc (st_pc s ! u)) else st_pc s ! u)
      [0..<length p]"
    using x pc1 Cons.prems(3) by (auto simp: nth_list_update)
  moreover have "st_pc s ! y < length (p ! y)" if "y \<in> set xs" for y
  proof -
    have "y \<noteq> x" using that x(1) by blast
    then show ?thesis using IH pc1 that Cons.prems(3) by (auto dest!: bspec [of _ _ y])
  qed
  ultimately show ?case using IH pc1 same f(3) Cons.prems(3) by auto
qed

lemma weight_barrier:
  assumes at: "at_action p s (s_thread step) a" and kind: "a_kind a = BarrierWait"
    and ex: "exec_barrier p s step a = Inr (s', r)"
  shows "weight p s' < weight p s"
proof -
  define t where "t = s_thread step"
  note A = at_actionD [OF at, folded t_def]
  have len: "length (st_pc s) = length p" using wf_stateD(1) [OF A(1)] by (simp add: shape_ok_def)
  obtain b where b: "mlookup (st_barriers s) (a_barrier a) = Some b"
    using ex by (auto simp: exec_barrier_def Let_def split: option.splits)
  show ?thesis
  proof (cases "a_parties a = 0 \<or> a_parties a \<noteq> parties b")
    case True
    then have "flow s' = flow (advance_pc p s t)"
      using ex b by (auto simp: exec_barrier_def Let_def finish_error_def t_def)
    then have "moves p s t s'" using moves_advance [OF at] by (simp add: t_def)
    then show ?thesis using A(2) len by (rule moves_weight)
  next
    case False
    define b1 where "b1 = b\<lparr>arrivals := oinsert t (arrivals b),
        arrival_releases := vc_join (arrival_releases b) (st_clock s ! t)\<rparr>"
    define s1 where "s1 = s\<lparr>st_barriers := mupdate (a_barrier a) b1 (st_barriers s)\<rparr>"
    have absent: "\<not> omember t (arrivals b)"
      using ex b False
      by (auto simp: exec_barrier_def Let_def t_def [symmetric] res_simps split: if_splits)
    have fresh: "\<not> arrived_in (st_barriers s) t"
    proof
      assume "arrived_in (st_barriers s) t"
      then obtain name c where c: "mlookup (st_barriers s) name = Some c" "omember t (arrivals c)"
        by (auto simp: arrived_in_iff)
      then have "a_barrier a = name"
        using wf_stateD(6) [OF A(1)] A(5)
        by (auto simp: barrier_ok_def barrier_entry_ok_def arrival_ok_def)
      then show False using c b absent by simp
    qed
    have others: "arrived_in (mupdate (a_barrier a) c (st_barriers s)) u = arrived_in (st_barriers s) u"
      if "omember u (arrivals c) = omember u (arrivals b)" for u c
    proof -
      have "(\<exists>d. mlookup (mupdate (a_barrier a) c (st_barriers s)) n = Some d \<and> omember u (arrivals d)) \<longleftrightarrow>
          (\<exists>d. mlookup (st_barriers s) n = Some d \<and> omember u (arrivals d))" for n
        using b that by (cases "n = a_barrier a") auto
      then show ?thesis unfolding arrived_in_iff by blast
    qed
    from ex b False absent consider "s' = s1"
      | s2 where "res_fold (release_participant p a (parties b1) (arrival_releases b1))
              (mkeys (arrivals b1)) s1 = Inr s2"
          "s' = s2\<lparr>st_barriers := mupdate (a_barrier a)
              (b1\<lparr>arrivals := mempty, arrival_releases := mempty,
                  generation := Suc (generation b1)\<rparr>) (st_barriers s2)\<rparr>"
      unfolding exec_barrier_def Let_def t_def [symmetric] b
      by (auto simp: b1_def [symmetric] s1_def [symmetric] res_simps finish_def split: if_splits)
    then show ?thesis
    proof cases
      case 1
      show ?thesis
      proof (rule weight_less [OF _ A(2)])
        have arrived: "arrived_in (st_barriers s') t"
          unfolding arrived_in_iff 1 s1_def by (auto simp: b1_def)
        show less: "thread_weight p s' t < thread_weight p s t"
          using arrived fresh 1 by (simp add: thread_weight_def s1_def pending_stores_def)
        show "thread_weight p s' u \<le> thread_weight p s u" for u
        proof (cases "u = t")
          case False
          then have "arrived_in (st_barriers s') u = arrived_in (st_barriers s) u"
            using others [of u b1] by (simp add: 1 s1_def b1_def)
          then show ?thesis using 1 by (simp add: thread_weight_def s1_def pending_stores_def)
        qed (use less in simp)
      qed
    next
      case 2
      define xs where "xs = mkeys (arrivals b1)"
      have xs: "distinct xs" "t \<in> set xs" by (simp_all add: xs_def ascending_distinct b1_def)
      note loop = release_loop_flow [OF 2(1) [folded xs_def] xs(1)]
      have pcs: "st_pc s' ! u = (if u \<in> set xs then skip_labels (p ! u) (Suc (st_pc s ! u))
          else st_pc s ! u)" if "u < length p" for u
        using loop len that unfolding 2(2) by (simp add: s1_def)
      have ends: "\<forall>x\<in>set xs. st_pc s ! x < length (p ! x)" using loop len by (simp add: s1_def)
      have same: "st_phase s' = st_phase s" "pending_stores s' = pending_stores s"
        using loop len unfolding 2(2) by (auto simp: s1_def pending_stores_def fun_eq_iff)
      have bars: "arrived_in (st_barriers s') u = arrived_in (st_barriers s) u"
        if "u \<notin> set xs" for u
        using loop len that others [of u "b1\<lparr>arrivals := mempty, arrival_releases := mempty,
                  generation := Suc (generation b1)\<rparr>"]
        unfolding 2(2) by (simp add: s1_def xs_def b1_def)
      have moved: "thread_weight p s' u < thread_weight p s u" if "u \<in> set xs" "u < length p" for u
      proof -
        have "length (p ! u) - st_pc s' ! u + 1 \<le> length (p ! u) - st_pc s ! u"
          using pcs [OF that(2)] that(1) ends skip_labels_ge [of "Suc (st_pc s ! u)" "p ! u"]
          by force
        then show ?thesis unfolding thread_weight_def same by simp
      qed
      show ?thesis
      proof (rule weight_less [OF _ A(2)])
        show "thread_weight p s' t < thread_weight p s t" using moved xs(2) A(2) by blast
        show "thread_weight p s' u \<le> thread_weight p s u" if "u < length p" for u
        proof (cases "u \<in> set xs")
          case True
          then show ?thesis using moved that by (simp add: less_imp_le)
        next
          case False
          then show ?thesis using pcs [OF that] bars [OF False] unfolding thread_weight_def same by simp
        qed
      qed
    qed
  qed
qed

section \<open>Every step lowers the weight\<close>

lemma perform_moves:
  assumes at: "at_action p s (s_thread step) a" and acyclic: "\<not> requires_cycle_detection p"
    and kind: "a_kind a \<notin> {Flush, Wait, TimedWait, BarrierWait}"
    and ex: "perform_action p s step a = Inr (s', r)"
  shows "moves p s (s_thread step) s'"
proof -
  have "flow s' = flow (advance_pc p s (s_thread step)) \<or> moves p s (s_thread step) s'"
    using ex kind local_flow [of p s step a s' r] rwlock_flow [of p s step a s' r]
      sem_flow [of p s step a s' r] memory_flow [of p s step a s' r] moves_spawn [OF at, of s' r]
      moves_branch [OF at _ acyclic, of s' r] moves_wakes [OF at, of s' r]
      moves_write [OF at, of s' r]
    by (cases "a_kind a") (simp_all add: perform_action_def)
  then show ?thesis using moves_advance [OF at] by blast
qed

lemma weight_perform:
  assumes at: "at_action p s (s_thread step) a" and acyclic: "\<not> requires_cycle_detection p"
    and kind: "a_kind a \<noteq> Flush" and ex: "perform_action p s step a = Inr (s', r)"
  shows "weight p s' < weight p s"
proof (cases "a_kind a \<in> {Wait, TimedWait, BarrierWait}")
  case True
  then show ?thesis
    using ex weight_wait [OF at] weight_barrier [OF at] by (auto simp: perform_action_def)
next
  case False
  have len: "length (st_pc s) = length p"
    using wf_stateD(1) [OF at_actionD(1) [OF at]] by (simp add: shape_ok_def)
  have "moves p s (s_thread step) s'" using perform_moves [OF at acyclic _ ex] False kind by blast
  then show ?thesis using moves_weight at_actionD(2) [OF at] len by blast
qed

lemma weight_begin_step [simp]: "weight p (begin_step s x) = weight p s"
  by (intro weight_sim) simp

lemma weight_step:
  assumes wf: "wf_state p s" and idx: "indexable p" and acyclic: "\<not> requires_cycle_detection p"
    and step: "step \<in> set (enabled_steps p s)"
    and ex: "execute_enabled_step p s step = Inr (s', r)"
  shows "weight p s' < weight p s"
proof (cases "is_flush_step step")
  case True
  note fl = enabled_flush_step [OF wf step True indexableD [OF idx]]
  have "perform_action p (begin_step s step) step (effective_action_for_step p s step) = Inr (s', r)"
    using ex True by (simp add: execute_enabled_step_def res_simps Let_def)
  then have "exec_flush (begin_step s step) step = Inr (s', r)"
    by (simp add: perform_action_def effective_flush_kind [OF True] res_simps)
  then show ?thesis using weight_flush [of p "begin_step s step" step s' r] wf fl(1) by simp
next
  case False
  note src = enabled_source_step [OF wf step False]
  define a where "a = next_action p s (s_thread step)"
  have at: "at_action p s (s_thread step) a"
    unfolding a_def by (rule enabled_at_action [OF wf src(1,2)])
  have "perform_action p (begin_step s step) step a = Inr (s', r)"
    using ex False src(4) by (simp add: execute_enabled_step_def res_simps Let_def a_def next_action_def)
  moreover have "a_kind a \<noteq> Flush" using enabled_not_flush [OF src(2)] by (simp add: a_def)
  ultimately show ?thesis
    using weight_perform [of p "begin_step s step" step a s' r] at acyclic by simp
qed

lemma weight_run:
  assumes "indexable p" "\<not> requires_cycle_detection p"
  shows "wf_state p s \<Longrightarrow> run p xs s = Some s' \<Longrightarrow> weight p s' + length xs \<le> weight p s"
proof (induction xs arbitrary: s)
  case (Cons x xs)
  then obtain s1 r where x: "x \<in> set (enabled_steps p s)"
    and e: "execute_enabled_step p s x = Inr (s1, r)" and rest: "run p xs s1 = Some s'"
    by (auto split: sum.splits if_splits)
  have "wf_state p s1" using wf_execute_enabled_step [OF Cons.prems(1) assms(1) x e] .
  then have "weight p s' + length xs \<le> weight p s1" using Cons.IH rest by blast
  then show ?case using weight_step [OF Cons.prems(1) assms x e] by simp
qed simp

end
