(* ===== verification/Races.thy ===== *)
theory Races
  imports Clocks Acyclic
begin

text \<open>
  What the race detector finds. The reference is the definition of a data race on the whole
  history of an address: two accesses, one of them a write and not both atomic, whose clocks are
  unordered. The detector compares a new access with the last plain write and the plain reads
  since then only; that is exact as long as no data race occurred before, because accesses that
  are ordered one after the other are ordered throughout.
\<close>

section \<open>Data races\<close>

definition racy :: "memory_access \<Rightarrow> memory_access \<Rightarrow> bool" where
  "racy a b \<longleftrightarrow>
     (m_is_write a \<or> m_is_write b) \<and> \<not> (m_is_atomic a \<and> m_is_atomic b) \<and>
     \<not> ordered_by_happens_before a b"

definition recorded :: "address_state \<Rightarrow> memory_access list" where
  "recorded ad = plain_accesses ad @ atomic_accesses ad"

definition accesses :: "exec_state \<Rightarrow> string \<Rightarrow> memory_access list" where
  "accesses s address = recorded (mget empty_address_state (st_memory s) address)"

definition free_of_races :: "memory_access list \<Rightarrow> bool" where
  "free_of_races hist \<longleftrightarrow> (\<forall>a\<in>set hist. \<forall>b\<in>set hist. \<not> racy a b)"

definition has_data_race :: "exec_state \<Rightarrow> bool" where
  "has_data_race s \<longleftrightarrow> (\<exists>address. \<not> free_of_races (accesses s address))"

lemma racy_commute: "racy a b = racy b a"
  by (auto simp: racy_def ordered_by_happens_before_def)

lemma racy_irrefl [simp]: "\<not> racy a a"
  by (simp add: racy_def ordered_by_happens_before_def vc.hb_refl)

section \<open>The record of an address\<close>

text \<open>
  The vectors hold the accesses by their kind; the last write and the reads since then summarise
  the plain accesses. Reads may be missing from the summary (a later read of the same action does
  not replace the first); \<open>reads_complete\<close> says that none is.
\<close>

definition record_ok :: "address_state \<Rightarrow> bool" where
  "record_ok ad \<longleftrightarrow>
     (\<forall>a\<in>set (plain_accesses ad). \<not> m_is_atomic a) \<and> (\<forall>a\<in>set (atomic_accesses ad). m_is_atomic a) \<and>
     last_write ad = find m_is_write (rev (plain_accesses ad)) \<and>
     (\<forall>k a. mlookup (reads_since_last_write ad) k = Some a \<longrightarrow>
        a \<in> set (plain_accesses ad) \<and> \<not> m_is_write a)"

definition reads_complete :: "address_state \<Rightarrow> bool" where
  "reads_complete ad \<longleftrightarrow>
     (\<forall>a\<in>set (takeWhile (\<lambda>a. \<not> m_is_write a) (rev (plain_accesses ad))).
        \<exists>k. mlookup (reads_since_last_write ad) k = Some a)"

text \<open>A clock of a later access is not below the clock of an earlier one.\<close>

definition in_order :: "memory_access list \<Rightarrow> bool" where
  "in_order as = sorted_wrt (\<lambda>a b. \<not> vc_hb (m_clock b) (m_clock a)) as"

lemma find_first:
  assumes "find P xs = Some w"
  obtains us vs where "xs = us @ w # vs" "P w" "\<And>u. u \<in> set us \<Longrightarrow> \<not> P u"
proof -
  have "\<exists>us vs. xs = us @ w # vs \<and> P w \<and> (\<forall>u\<in>set us. \<not> P u)"
    using assms
  proof (induction xs)
    case (Cons x xs)
    then show ?case
    proof (cases "P x")
      case False
      then obtain us vs where "xs = us @ w # vs" "P w" "\<forall>u\<in>set us. \<not> P u" using Cons by auto
      then have "x # xs = (x # us) @ w # vs \<and> P w \<and> (\<forall>u\<in>set (x # us). \<not> P u)" using False by simp
      then show ?thesis by blast
    qed (use Cons in \<open>force intro: exI [of _ "[]"]\<close>)
  qed simp
  then show ?thesis using that by blast
qed

text \<open>The plain accesses: those before the last write, the write, and the reads since then.\<close>

lemma last_write_splits:
  assumes "find m_is_write (rev xs) = Some w"
  obtains before since where "xs = before @ w # since" "m_is_write w"
    "takeWhile (\<lambda>a. \<not> m_is_write a) (rev xs) = rev since" "\<And>a. a \<in> set since \<Longrightarrow> \<not> m_is_write a"
proof -
  obtain us vs where *: "rev xs = us @ w # vs" "m_is_write w" "\<And>u. u \<in> set us \<Longrightarrow> \<not> m_is_write u"
    using find_first [OF assms] by blast
  have "xs = rev vs @ w # rev us" using *(1) by (metis append_assoc append_Cons append_Nil rev.simps(2) rev_append rev_rev_ident)
  moreover have "takeWhile (\<lambda>a. \<not> m_is_write a) (rev xs) = us"
    unfolding *(1) using *(2,3) by simp
  ultimately show ?thesis using that [of "rev vs" "rev us"] *(2,3) by simp
qed

section \<open>One access\<close>

lemma detector_cases:
  obtains "detector acc = record_read" "\<not> m_is_atomic acc" "\<not> m_is_write acc"
  | "detector acc = record_write" "\<not> m_is_atomic acc" "m_is_write acc"
  | "detector acc = record_atomic" "m_is_atomic acc"
  by (cases "m_is_atomic acc"; cases "m_is_write acc") (simp_all add: detector_def)

lemma racy_of_first_mixed:
  assumes "first_mixed_race x others acc c = Some r" "\<And>a. a \<in> set others \<Longrightarrow> \<not> (m_is_atomic a \<and> m_is_atomic acc)"
  shows "\<exists>a\<in>set others. racy a acc \<and> r = make_race_report x a acc c"
proof -
  obtain a where "find (\<lambda>b. (m_is_write b \<or> m_is_write acc) \<and> \<not> ordered_by_happens_before b acc) others = Some a"
      "r = make_race_report x a acc c"
    using assms(1) by (auto simp: first_mixed_race_def)
  then show ?thesis using assms(2) by (auto simp: racy_def find_Some_iff)
qed

lemma or_else_Some: "or_else x y = Some r \<longleftrightarrow> x = Some r \<or> (x = None \<and> y = Some r)"
  by (simp add: or_else_def split: option.split)

lemma or_else_None: "or_else x y = None \<longleftrightarrow> x = None \<and> y = None"
  by (simp add: or_else_def split: option.split)

text \<open>What the detector reports is a data race of the new access with a recorded one.\<close>

lemma reported_is_racy:
  assumes ok: "record_ok ad" and race: "snd (detector acc x acc c ad) = Some r"
  shows "\<exists>a\<in>set (recorded ad). racy a acc \<and> r = make_race_report x a acc c"
proof -
  have lw: "\<exists>a\<in>set (plain_accesses ad). racy a acc \<and> r = make_race_report x a acc c"
    if found: "last_write_race x ad acc c = Some r" and plain: "\<not> m_is_atomic acc"
  proof -
    obtain w where w: "last_write ad = Some w" "\<not> ordered_by_happens_before w acc" "r = make_race_report x w acc c"
      using found by (auto simp: last_write_race_def split: option.splits if_splits)
    have "find m_is_write (rev (plain_accesses ad)) = Some w" using ok w(1) by (simp add: record_ok_def)
    then have "m_is_write w" "w \<in> set (plain_accesses ad)"
      by (auto elim!: last_write_splits)
    then show ?thesis using w plain by (auto simp: racy_def)
  qed
  have atomics: "\<exists>a\<in>set (atomic_accesses ad). racy a acc \<and> r = make_race_report x a acc c"
    if "first_mixed_race x (atomic_accesses ad) acc c = Some r" "\<not> m_is_atomic acc"
    using racy_of_first_mixed [OF that(1)] that(2) by blast
  show ?thesis
  proof (cases rule: detector_cases [of acc])
    case 1
    then show ?thesis
      using race lw atomics by (auto simp: record_read_def or_else_Some recorded_def)
  next
    case 2
    have "\<exists>a\<in>set (plain_accesses ad). racy a acc \<and> r = make_race_report x a acc c"
      if "find (\<lambda>(_, a). \<not> ordered_by_happens_before a acc) (mentries (reads_since_last_write ad)) = Some (k, a)"
        "r = make_race_report x a acc c" for k a
    proof -
      have "(k, a) \<in> set (mentries (reads_since_last_write ad))" "\<not> ordered_by_happens_before a acc"
        using that(1) by (auto simp: find_Some_iff) (metis nth_mem)
      moreover have "a \<in> set (plain_accesses ad)"
        using calculation(1) ok unfolding mentries_iff record_ok_def by blast
      ultimately show ?thesis using that(2) 2 by (auto simp: racy_def)
    qed
    then show ?thesis
      using race lw atomics 2 by (auto simp: record_write_def or_else_Some recorded_def)
  next
    case 3
    then have "first_mixed_race x (plain_accesses ad) acc c = Some r"
      using race by (simp add: record_atomic_def)
    from racy_of_first_mixed [OF this] show ?thesis
      using ok by (auto simp: record_ok_def recorded_def)
  qed
qed

text \<open>
  Without earlier races the detector misses none: an access before the last write is ordered
  before it, and the write, if it is not racy itself, before the new access.
\<close>

lemma hb_forward:
  assumes "free_of_races hist" "a \<in> set hist" "b \<in> set hist" "\<not> m_is_atomic a" "m_is_write a \<or> m_is_write b"
    and "\<not> vc_hb (m_clock b) (m_clock a)"
  shows "vc_hb (m_clock a) (m_clock b)"
  using assms by (auto simp: free_of_races_def racy_def ordered_by_happens_before_def)

lemma racy_is_reported:
  assumes ok: "record_ok ad" and reads: "reads_complete ad"
    and order: "in_order (plain_accesses ad)" and free: "free_of_races (recorded ad)"
    and fresh: "\<And>a. a \<in> set (recorded ad) \<Longrightarrow> \<not> vc_hb (m_clock acc) (m_clock a)"
    and a: "a \<in> set (recorded ad)" "racy a acc"
  shows "snd (detector acc x acc c ad) \<noteq> None"
proof -
  have unordered: "\<not> ordered_by_happens_before a acc" "m_is_write a \<or> m_is_write acc"
      "\<not> (m_is_atomic a \<and> m_is_atomic acc)" using a(2) by (auto simp: racy_def)
  have mixed: "first_mixed_race x others acc c \<noteq> None" if "a \<in> set others" for others
    using that unordered by (auto simp: first_mixed_race_def find_None_iff)
  show ?thesis
  proof (cases "m_is_atomic acc \<or> m_is_atomic a")
    case True
    then consider "m_is_atomic acc" "a \<in> set (plain_accesses ad)"
      | "\<not> m_is_atomic acc" "a \<in> set (atomic_accesses ad)"
      using ok a(1) unordered(3) by (auto simp: record_ok_def recorded_def)
    then show ?thesis
    proof cases
      case 1
      then show ?thesis using mixed by (simp add: detector_def record_atomic_def)
    next
      case 2
      then show ?thesis
        using mixed [OF 2(2)]
        by (auto simp: detector_def record_read_def record_write_def or_else_def split: option.split)
    qed
  next
    case plain: False
    then have ap: "a \<in> set (plain_accesses ad)" using ok a(1) by (auto simp: record_ok_def recorded_def)
    show ?thesis
    proof (cases "last_write_race x ad acc c")
      case (Some r)
      then show ?thesis using plain by (auto simp: detector_def record_read_def record_write_def or_else_def)
    next
      case None
      text \<open>The last write is ordered before the new access, so \<open>a\<close> is a read since then.\<close>
      have since: "a \<in> set (takeWhile (\<lambda>a. \<not> m_is_write a) (rev (plain_accesses ad)))"
      proof (cases "last_write ad")
        case None
        then have "find m_is_write (rev (plain_accesses ad)) = None" using ok by (simp add: record_ok_def)
        then have "takeWhile (\<lambda>a. \<not> m_is_write a) (rev (plain_accesses ad)) = rev (plain_accesses ad)"
          by (auto simp: find_None_iff takeWhile_eq_all_conv)
        then show ?thesis using ap by (metis set_rev)
      next
        case (Some w)
        then have "find m_is_write (rev (plain_accesses ad)) = Some w" using ok by (simp add: record_ok_def)
        then obtain before since where sp: "plain_accesses ad = before @ w # since" "m_is_write w"
            "takeWhile (\<lambda>a. \<not> m_is_write a) (rev (plain_accesses ad)) = rev since"
          by (rule last_write_splits)
        have w: "w \<in> set (recorded ad)" using sp(1) by (simp add: recorded_def)
        have "ordered_by_happens_before w acc"
          using None Some by (auto simp: last_write_race_def split: if_splits)
        then have wacc: "vc_hb (m_clock w) (m_clock acc)"
          using fresh [OF w] by (simp add: ordered_by_happens_before_def)
        have "a \<notin> set before"
        proof
          assume "a \<in> set before"
          then have "\<not> vc_hb (m_clock w) (m_clock a)"
            using order unfolding sp(1) in_order_def sorted_wrt_append by simp
          then have "vc_hb (m_clock a) (m_clock w)"
            using hb_forward [OF free a(1) w] plain sp(2) by blast
          then show False
            using vc.hb_trans [OF _ wacc] unordered(1) by (simp add: ordered_by_happens_before_def)
        qed
        moreover have "a \<noteq> w" using unordered(1) wacc by (auto simp: ordered_by_happens_before_def)
        ultimately have "a \<in> set since" using ap sp(1) by auto
        then show ?thesis unfolding sp(3) by simp
      qed
      then obtain k where k: "mlookup (reads_since_last_write ad) k = Some a"
        using reads by (auto simp: reads_complete_def)
      have "m_is_write acc" using since unordered(2) by (auto dest: set_takeWhileD)
      then have "detector acc = record_write" using plain by (simp add: detector_def)
      moreover have "find (\<lambda>(_, a). \<not> ordered_by_happens_before a acc)
          (mentries (reads_since_last_write ad)) \<noteq> None"
        unfolding find_None_iff not_not
        by (rule exI [of _ "(k, a)"]) (use k unordered(1) in \<open>simp add: mentries_iff\<close>)
      ultimately show ?thesis by (auto simp: record_write_def or_else_None)
    qed
  qed
qed

section \<open>A recorded access\<close>

lemma recorded_after:
  shows "set (recorded (fst (detector acc x acc c ad))) = insert acc (set (recorded ad))"
    "plain_accesses (fst (detector acc x acc c ad)) = plain_accesses ad @ (if m_is_atomic acc then [] else [acc])"
    "atomic_accesses (fst (detector acc x acc c ad)) = atomic_accesses ad @ (if m_is_atomic acc then [acc] else [])"
  by (auto simp: detector_def recorded_def record_read_def record_write_def record_atomic_def)

lemma record_ok_after:
  assumes ok: "record_ok ad"
  shows "record_ok (fst (detector acc x acc c ad))"
proof -
  show ?thesis
  proof (cases rule: detector_cases [of acc])
    case 1
    have "a \<in> set (plain_accesses ad @ [acc]) \<and> \<not> m_is_write a"
      if "mlookup (memplace (access_key acc) acc (reads_since_last_write ad)) k = Some a" for k a
    proof (cases "mlookup (reads_since_last_write ad) k = Some a")
      case True
      then have "a \<in> set (plain_accesses ad) \<and> \<not> m_is_write a"
        using ok unfolding record_ok_def by blast
      then show ?thesis by simp
    next
      case False
      then have "a = acc" using that by (auto split: if_splits option.splits simp: mget_def)
      then show ?thesis using 1 by simp
    qed
    then show ?thesis using ok 1 by (simp add: record_ok_def record_read_def)
  qed (use ok in \<open>simp_all add: record_ok_def record_write_def record_atomic_def\<close>)
qed

lemma reads_complete_after:
  assumes ok: "reads_complete ad"
    and new: "\<not> m_is_atomic acc \<Longrightarrow> \<not> m_is_write acc \<Longrightarrow> mlookup (reads_since_last_write ad) (access_key acc) = None"
  shows "reads_complete (fst (detector acc x acc c ad))"
proof -
  show ?thesis
  proof (cases rule: detector_cases [of acc])
    case 1
    define reads where "reads = memplace (access_key acc) acc (reads_since_last_write ad)"
    have "mlookup reads (access_key acc) = Some acc"
      using new [OF 1(2,3)] by (simp add: reads_def mget_def)
    moreover have "mlookup reads k = Some a" if "mlookup (reads_since_last_write ad) k = Some a" for k a
      using that new [OF 1(2,3)] unfolding reads_def mlookup_memplace
      by (cases "k = access_key acc") simp_all
    moreover have "set (takeWhile (\<lambda>a. \<not> m_is_write a) (rev (plain_accesses ad @ [acc]))) =
        insert acc (set (takeWhile (\<lambda>a. \<not> m_is_write a) (rev (plain_accesses ad))))"
      using 1(3) by simp
    ultimately have "\<forall>a\<in>set (takeWhile (\<lambda>a. \<not> m_is_write a) (rev (plain_accesses ad @ [acc]))).
        \<exists>k. mlookup reads k = Some a"
      using ok [unfolded reads_complete_def, rule_format] by (simp only: insert_iff ball_simps) metis
    moreover have "plain_accesses (fst (detector acc x acc c ad)) = plain_accesses ad @ [acc]"
        "reads_since_last_write (fst (detector acc x acc c ad)) = reads"
      by (simp_all add: 1(1) record_read_def reads_def)
    ultimately show ?thesis unfolding reads_complete_def by simp
  qed (use ok in \<open>simp_all add: reads_complete_def record_write_def record_atomic_def\<close>)
qed

lemma in_order_after:
  assumes "in_order (plain_accesses ad)"
    and "\<And>a. a \<in> set (recorded ad) \<Longrightarrow> \<not> vc_hb (m_clock acc) (m_clock a)"
  shows "in_order (plain_accesses (fst (detector acc x acc c ad)))"
  unfolding recorded_after(2)
  using assms by (auto simp: in_order_def sorted_wrt_append recorded_def)

section \<open>The records of a state\<close>

abbreviation record_at :: "exec_state \<Rightarrow> string \<Rightarrow> address_state" where
  "record_at s address \<equiv> mget empty_address_state (st_memory s) address"

definition memory_ok :: "exec_state \<Rightarrow> bool" where
  "memory_ok s \<longleftrightarrow>
     (\<forall>x. record_ok (record_at s x) \<and> in_order (plain_accesses (record_at s x)) \<and>
        (\<forall>a\<in>set (accesses s x). within (steps_taken s) (m_clock a)))"

text \<open>What a step does to the records: nothing, or one more access at one address.\<close>

lemma step_recorded:
  assumes ex: "execute_enabled_step p s step = Inr (s', r)" and count: "clocks_count p s"
  obtains (silent) "st_memory s' = st_memory s" "sr_race r = None"
  | (access) x acc where "m_endpoint acc = step" "m_clock acc = st_clock s' ! s_thread step"
      "\<not> m_is_atomic acc \<Longrightarrow> \<not> m_is_write acc \<Longrightarrow> \<not> is_flush_step step \<and> s_index step = st_pc s ! s_thread step \<and>
         a_kind (p ! s_thread step ! s_index step) = Read"
      "\<And>y. record_at s' y = (if y = x then fst (detector acc x acc (st_schedule s') (record_at s x)) else record_at s y)"
      "sr_race r = snd (detector acc x acc (st_schedule s') (record_at s x))"
      "within (steps_taken s') (m_clock acc)"
      "\<And>c. within (steps_taken s) c \<Longrightarrow> \<not> vc_hb (m_clock acc) c"
proof -
  obtain kind where kind: "records (st_memory s) kind step s' (sr_race r)"
    and read: "kind = Read \<Longrightarrow> \<not> is_flush_step step \<and> s_index step = st_pc s ! s_thread step \<and>
      a_kind (p ! s_thread step ! s_index step) = Read"
    using step_records [OF ex] by blast
  show ?thesis
  proof (cases "st_memory s' = st_memory s \<and> sr_race r = None")
    case True
    then show ?thesis using silent by blast
  next
    case False
    then obtain x acc where acc: "\<not> m_is_atomic acc \<and> \<not> m_is_write acc \<longrightarrow> kind = Read"
        "m_endpoint acc = step" "m_clock acc = st_clock s' ! s_thread step"
        "st_memory s' = mupdate x (fst (detector acc x acc (st_schedule s') (record_at s x))) (st_memory s)"
        "sr_race r = snd (detector acc x acc (st_schedule s') (record_at s x))"
      using kind unfolding records_def by blast
    define t where "t = s_thread step"
    have count': "clocks_count p s'" by (rule clocks_step [OF ex count])
    have t: "t < length p" using ex by (auto simp: execute_enabled_step_def Let_def res_simps t_def)
    have own: "within (steps_taken s') (m_clock acc)" "steps_taken s' t \<le> vc_get (m_clock acc) t"
      using count' t acc(3) clocks_okD(1,2) [of "length p" "steps_taken s'" s' t]
      by (simp_all add: clocks_count_def t_def)
    have "steps_taken s' t = Suc (steps_taken s t)"
      using execute_enabled_step_parts(2) [OF ex] count t by (simp add: steps_taken_def clocks_count_def t_def)
    then have fresh: "\<not> vc_hb (m_clock acc) c" if "within (steps_taken s) c" for c
      using own(2) that unfolding vc_hb_iff within_def by (metis Suc_n_not_le_n order_trans)
    show ?thesis
      by (rule access [OF acc(2,3) _ _ acc(5) own(1) fresh]) (use read acc(1) in \<open>auto simp: acc(4)\<close>)
  qed
qed

lemma within_steps_later:
  assumes "execute_enabled_step p s step = Inr (s', r)" "clocks_count p s" "within (steps_taken s) c"
  shows "within (steps_taken s') c"
proof (rule within_mono [OF assms(3)])
  show "steps_taken s t \<le> steps_taken s' t" for t
    using execute_enabled_step_parts(2) [OF assms(1)]
    by (cases "t = s_thread step") (auto simp: steps_taken_def)
qed

lemma memory_ok_step:
  assumes ex: "execute_enabled_step p s step = Inr (s', r)" and count: "clocks_count p s"
    and ok: "memory_ok s"
  shows "memory_ok s'"
proof -
  have later: "within (steps_taken s') (m_clock a)" if "a \<in> set (accesses s y)" for a y
    using within_steps_later [OF ex count] ok that by (auto simp: memory_ok_def)
  show ?thesis
  proof (cases rule: step_recorded [OF ex count])
    case 1
    then show ?thesis using ok later by (simp add: memory_ok_def accesses_def)
  next
    case (2 x acc)
    have fresh: "\<not> vc_hb (m_clock acc) (m_clock a)" if "a \<in> set (recorded (record_at s x))" for a
      using 2(7) ok that by (auto simp: memory_ok_def accesses_def)
    show ?thesis
      unfolding memory_ok_def
    proof (intro allI conjI ballI)
      fix y
      show "record_ok (record_at s' y)"
        using ok record_ok_after by (simp add: 2(4) memory_ok_def)
      show "in_order (plain_accesses (record_at s' y))"
        using ok in_order_after [OF _ fresh] by (simp add: 2(4) memory_ok_def)
      show "within (steps_taken s') (m_clock a)" if "a \<in> set (accesses s' y)" for a
        using that later [of a y] 2(6) unfolding accesses_def 2(4)
        by (auto simp: recorded_after(1) split: if_splits)
    qed
  qed
qed

text \<open>The detector is sound.\<close>

lemma race_step_sound:
  assumes ex: "execute_enabled_step p s step = Inr (s', r)" and count: "clocks_count p s"
    and ok: "memory_ok s" and race: "sr_race r = Some q"
  shows "\<exists>a b. a \<in> set (accesses s' (r_address q)) \<and> b \<in> set (accesses s' (r_address q)) \<and> racy a b \<and>
    r_first q = m_endpoint a \<and> r_second q = m_endpoint b \<and> m_endpoint b = step"
proof (cases rule: step_recorded [OF ex count])
  case 1
  then show ?thesis using race by simp
next
  case (2 x acc)
  have "record_ok (record_at s x)" using ok by (simp add: memory_ok_def)
  from reported_is_racy [OF this, of acc x "st_schedule s'" q] obtain a where
    "a \<in> set (recorded (record_at s x))" "racy a acc" "q = make_race_report x a acc (st_schedule s')"
    using race 2(5) by auto
  then show ?thesis
    using 2(1,4) by (intro exI [of _ a] exI [of _ acc])
      (simp add: make_race_report_def accesses_def recorded_after(1))
qed

text \<open>And it is complete, when no summary lacks a read and no data race came before.\<close>

definition summaries_complete :: "exec_state \<Rightarrow> bool" where
  "summaries_complete s \<longleftrightarrow> (\<forall>x. reads_complete (record_at s x))"

lemma free_insert:
  assumes "set hist' = insert acc (set hist)" "free_of_races hist"
  shows "free_of_races hist' \<longleftrightarrow> (\<forall>a\<in>set hist. \<not> racy a acc)"
  using assms racy_commute [of acc] by (auto simp: free_of_races_def)

lemma race_step_exact:
  assumes ex: "execute_enabled_step p s step = Inr (s', r)" and count: "clocks_count p s"
    and ok: "memory_ok s" "summaries_complete s" "\<not> has_data_race s"
  shows "sr_race r = None \<longleftrightarrow> \<not> has_data_race s'"
proof (cases rule: step_recorded [OF ex count])
  case 1
  then show ?thesis using ok by (simp add: has_data_race_def accesses_def)
next
  case (2 x acc)
  define ad where "ad = record_at s x"
  have free: "free_of_races (accesses s y)" for y using ok(3) by (simp add: has_data_race_def)
  have ad: "record_ok ad" "in_order (plain_accesses ad)" "reads_complete ad" "free_of_races (recorded ad)"
    using ok(1,2) free [of x] by (simp_all add: memory_ok_def summaries_complete_def ad_def accesses_def)
  have fresh: "\<not> vc_hb (m_clock acc) (m_clock a)" if "a \<in> set (recorded ad)" for a
    using 2(7) ok(1) that by (auto simp: memory_ok_def accesses_def ad_def)
  have "accesses s' y = accesses s y" if "y \<noteq> x" for y using that by (simp add: accesses_def 2(4))
  then have "has_data_race s' \<longleftrightarrow> \<not> free_of_races (accesses s' x)"
    using free by (auto simp: has_data_race_def) (metis)
  also have "\<dots> \<longleftrightarrow> (\<exists>a\<in>set (recorded ad). racy a acc)"
    using free_insert [OF recorded_after(1) ad(4)] by (simp add: accesses_def 2(4) ad_def)
  also have "\<dots> \<longleftrightarrow> sr_race r \<noteq> None"
    using reported_is_racy [OF ad(1), of acc x "st_schedule s'"]
      racy_is_reported [OF ad(1,3,2,4) fresh, of _ x "st_schedule s'"]
    unfolding 2(5) ad_def [symmetric] by blast
  finally show ?thesis by blast
qed

section \<open>Programs without a backward branch\<close>

text \<open>
  Program counters never go back, and a plain read moves its thread on; so no plain read is
  executed twice, and no summary lacks a read.
\<close>

definition ahead :: "exec_state \<Rightarrow> exec_state \<Rightarrow> bool" where
  "ahead s s' \<longleftrightarrow> length (st_pc s') = length (st_pc s) \<and> (\<forall>u<length (st_pc s). st_pc s ! u \<le> st_pc s' ! u)"

lemma ahead_trans: "ahead s t \<Longrightarrow> ahead t u \<Longrightarrow> ahead s u"
  unfolding ahead_def by (metis order_trans)

lemma ahead_refl: "st_pc s' = st_pc s \<Longrightarrow> ahead s s'"
  by (simp add: ahead_def)

lemma ahead_advance: "ahead s (advance_pc p s t)"
  using skip_labels_ge [of "Suc (st_pc s ! t)" "p ! t"]
  by (auto simp: ahead_def advance_pc_def nth_list_update_if)

lemma ahead_moves: "moves p s t s' \<Longrightarrow> ahead s s'"
  by (auto simp: moves_def ahead_def nth_list_update_if)

lemma ahead_wait:
  assumes "exec_wait p s step a = Inr (s', r)"
  shows "ahead s s'"
proof -
  have "st_pc s' = st_pc s \<or> st_pc s' = st_pc (advance_pc p s (s_thread step))"
    using assms
    by (auto simp: exec_wait_def Let_def res_simps insert_waiter_def remove_waiter_def finish_def
        finish_error_def advance_pc_def state_ops write_register_def guarded_def
        split: option.splits if_splits)
  then show ?thesis using ahead_refl ahead_advance [of s p "s_thread step"] by (auto simp: ahead_def)
qed

lemma ahead_barrier:
  assumes "exec_barrier p s step a = Inr (s', r)"
  shows "ahead s s'"
proof -
  have loop: "ahead u v" if "res_fold (release_participant p a k c) xs u = Inr v" for k c xs u v
  proof (rule res_fold_invariant [OF that, where I = "ahead u"])
    show "ahead u u" by (simp add: ahead_refl)
    show "ahead u w'" if "ahead u w" "release_participant p a k c x w = Inr w'" for x w w'
    proof -
      have "w' = advance_pc p (join_clock w x c) x" using that(2) by (auto simp: release_participant_def res_simps)
      moreover have "ahead w (join_clock w x c)" by (simp add: ahead_refl join_clock_def)
      ultimately show ?thesis using that(1) ahead_advance ahead_trans by metis
    qed
  qed
  obtain b where b: "mlookup (st_barriers s) (a_barrier a) = Some b"
    using assms by (auto simp: exec_barrier_def Let_def split: option.splits)
  define b1 where "b1 = b\<lparr>arrivals := oinsert (s_thread step) (arrivals b),
      arrival_releases := vc_join (arrival_releases b) (st_clock s ! s_thread step)\<rparr>"
  define s1 where "s1 = s\<lparr>st_barriers := mupdate (a_barrier a) b1 (st_barriers s)\<rparr>"
  have s1: "st_pc s1 = st_pc s" by (simp add: s1_def)
  from assms consider "s' = advance_pc p s (s_thread step)" | "s' = s1"
    | s2 where "res_fold (release_participant p a (parties b1) (arrival_releases b1)) (mkeys (arrivals b1)) s1 = Inr s2"
        "st_pc s' = st_pc s2"
    unfolding exec_barrier_def Let_def b
    by (auto simp: b1_def [symmetric] s1_def [symmetric] res_simps finish_def finish_error_def split: if_splits)
  then show ?thesis
  proof cases
    case 3
    then show ?thesis using loop [OF 3(1)] s1 by (simp add: ahead_def)
  qed (use ahead_advance s1 ahead_refl in auto)
qed

lemma ahead_step:
  assumes wf: "wf_state p s" and idx: "indexable p" and acyclic: "\<not> requires_cycle_detection p"
    and step: "step \<in> set (enabled_steps p s)" and ex: "execute_enabled_step p s step = Inr (s', r)"
  shows "ahead s s'"
proof (cases "is_flush_step step")
  case True
  have "perform_action p (begin_step s step) step (effective_action_for_step p s step) = Inr (s', r)"
    using ex True by (simp add: execute_enabled_step_def res_simps Let_def)
  then have "exec_flush (begin_step s step) step = Inr (s', r)"
    by (simp add: perform_action_def effective_flush_kind [OF True] res_simps)
  then have "st_pc s' = st_pc (begin_step s step)"
    by (cases "st_model s = TSO")
       (auto simp: exec_flush_def Let_def res_simps flow_def dest!: commit_flow split: list.splits option.splits)
  then show ?thesis by (simp add: ahead_def begin_step_def)
next
  case False
  note src = enabled_source_step [OF wf step False]
  define a where "a = next_action p s (s_thread step)"
  have at: "at_action p s (s_thread step) a"
    unfolding a_def by (rule enabled_at_action [OF wf src(1,2)])
  have pa: "perform_action p (begin_step s step) step a = Inr (s', r)"
    using ex False src(4) by (simp add: execute_enabled_step_def res_simps Let_def a_def next_action_def)
  have kind: "a_kind a \<noteq> Flush" using enabled_not_flush [OF src(2)] by (simp add: a_def)
  have "ahead (begin_step s step) s'"
  proof (cases "a_kind a \<in> {Wait, TimedWait, BarrierWait}")
    case True
    then show ?thesis
      using pa ahead_wait [of p "begin_step s step"] ahead_barrier [of p "begin_step s step"]
      by (auto simp: perform_action_def)
  next
    case False
    then show ?thesis
      using perform_moves [OF _ acyclic _ pa] at kind ahead_moves by simp
  qed
  then show ?thesis by (simp add: ahead_def begin_step_def)
qed

definition reads_behind :: "program \<Rightarrow> exec_state \<Rightarrow> bool" where
  "reads_behind p s \<longleftrightarrow>
     (\<forall>x t i a. mlookup (reads_since_last_write (record_at s x)) (t, i) = Some a \<longrightarrow>
        t < length p \<and> i < st_pc s ! t)"

lemma reads_after:
  assumes "mlookup (reads_since_last_write (fst (detector acc x acc c ad))) k = Some a"
  shows "mlookup (reads_since_last_write ad) k = Some a \<or>
    (\<not> m_is_atomic acc \<and> \<not> m_is_write acc \<and> k = access_key acc)"
  using assms
  by (cases rule: detector_cases [of acc])
     (auto simp: record_read_def record_write_def record_atomic_def split: if_splits)

lemma plain_read_moves:
  assumes wf: "wf_state p s" and idx: "indexable p" and acyclic: "\<not> requires_cycle_detection p"
    and step: "step \<in> set (enabled_steps p s)" and ex: "execute_enabled_step p s step = Inr (s', r)"
    and read: "\<not> is_flush_step step" "s_index step = st_pc s ! s_thread step"
      "a_kind (p ! s_thread step ! s_index step) = Read"
  shows "s_thread step < length p \<and> s_index step < st_pc s' ! s_thread step"
proof -
  note src = enabled_source_step [OF wf step read(1)]
  define a where "a = p ! s_thread step ! s_index step"
  have a: "a = next_action p s (s_thread step)" using read(2) by (simp add: a_def next_action_def)
  have at: "at_action p s (s_thread step) a"
    unfolding a by (rule enabled_at_action [OF wf src(1,2)])
  have "perform_action p (begin_step s step) step a = Inr (s', r)"
    using ex read(1) by (auto simp: execute_enabled_step_def res_simps Let_def a_def)
  then have "moves p (begin_step s step) (s_thread step) s'"
    using perform_moves [OF _ acyclic] at read(3) by (simp add: a_def)
  moreover have "s_thread step < length p" using at_actionD(2) [OF at] .
  moreover have "length (st_pc s) = length p" using wf_stateD(1) [OF wf] by (simp add: shape_ok_def)
  ultimately show ?thesis using read(2) by (auto simp: moves_def begin_step_def)
qed

lemma summaries_step:
  assumes wf: "wf_state p s" and idx: "indexable p" and acyclic: "\<not> requires_cycle_detection p"
    and step: "step \<in> set (enabled_steps p s)" and ex: "execute_enabled_step p s step = Inr (s', r)"
    and count: "clocks_count p s" and ok: "reads_behind p s" "summaries_complete s"
  shows "reads_behind p s' \<and> summaries_complete s'"
proof -
  have pcs: "st_pc s ! t \<le> st_pc s' ! t" if "t < length p" for t
    using ahead_step [OF wf idx acyclic step ex] wf_stateD(1) [OF wf] that
    by (simp add: ahead_def shape_ok_def)
  show ?thesis
  proof (cases rule: step_recorded [OF ex count])
    case 1
    then show ?thesis
      using ok pcs unfolding reads_behind_def summaries_complete_def by (metis order_less_le_trans)
  next
    case (2 x acc)
    have key: "access_key acc = (s_thread step, s_index step)" using 2(1) by (simp add: access_key_def)
    have moved: "s_thread step < length p \<and> s_index step < st_pc s' ! s_thread step"
        "s_index step = st_pc s ! s_thread step"
      if "\<not> m_is_atomic acc" "\<not> m_is_write acc"
      using plain_read_moves [OF wf idx acyclic step ex] 2(3) [OF that] by blast+
    have "mlookup (reads_since_last_write (record_at s x)) (access_key acc) = None"
      if "\<not> m_is_atomic acc" "\<not> m_is_write acc"
    proof (rule ccontr)
      assume "mlookup (reads_since_last_write (record_at s x)) (access_key acc) \<noteq> None"
      then have "s_index step < st_pc s ! s_thread step" using ok(1) unfolding reads_behind_def key by blast
      then show False using moved(2) [OF that] by simp
    qed
    then have "reads_complete (record_at s' y)" for y
      using ok(2) reads_complete_after unfolding 2(4) summaries_complete_def by simp
    moreover have "t < length p \<and> i < st_pc s' ! t"
      if look: "mlookup (reads_since_last_write (record_at s' y)) (t, i) = Some a" for y t i a
    proof -
      consider "mlookup (reads_since_last_write (record_at s y)) (t, i) = Some a"
        | "\<not> m_is_atomic acc" "\<not> m_is_write acc" "(t, i) = access_key acc"
        using look reads_after [of acc x "st_schedule s'" "record_at s x"] unfolding 2(4)
        by (cases "y = x") auto
      then show ?thesis
      proof cases
        case 1
        then show ?thesis using ok(1) pcs unfolding reads_behind_def by (metis order_less_le_trans)
      next
        case 2
        then show ?thesis using moved(1) by (simp add: key)
      qed
    qed
    ultimately show ?thesis unfolding reads_behind_def summaries_complete_def by blast
  qed
qed

end
