(* ===== verification/Race_Search.thy ===== *)
theory Race_Search
  imports Races Dpor_Correct Parser
begin

text \<open>
  The race detector along runs, and what the explorers report about races: a reported race is a
  data race of two accesses that one run makes, and for programs without a backward branch a
  complete naive search reports one as soon as some run has one.
\<close>

section \<open>Runs\<close>

lemma start_records:
  "clocks_count p (initial_state p m) \<and> memory_ok (initial_state p m) \<and>
   reads_behind p (initial_state p m) \<and> summaries_complete (initial_state p m) \<and>
   \<not> has_data_race (initial_state p m)"
proof -
  have "record_at (initial_state p m) x = empty_address_state" for x
    by (simp add: initial_state_pc)
  then show ?thesis
    by (simp add: clocks_initial memory_ok_def reads_behind_def summaries_complete_def
        has_data_race_def accesses_def recorded_def empty_address_state_def record_ok_def
        in_order_def reads_complete_def free_of_races_def)
qed

lemma run_snoc:
  assumes "run p (xs @ [x]) s = Some s'"
  obtains s0 r where "run p xs s = Some s0" "x \<in> set (enabled_steps p s0)"
    "execute_enabled_step p s0 x = Inr (s', r)" "\<not> step_terminal r"
  using assms
  by (auto simp: run_append run_single step_to_def simp del: run.simps split: option.splits)

lemma run_records:
  assumes "run p xs (initial_state p m) = Some s"
  shows "clocks_count p s \<and> memory_ok s"
  using assms
proof (induction xs arbitrary: s rule: rev_induct)
  case Nil
  then show ?case using start_records [of p m] by auto
next
  case (snoc x xs)
  then show ?case using clocks_step memory_ok_step by (elim run_snoc) blast
qed

lemma run_summaries:
  assumes "indexable p" "\<not> requires_cycle_detection p" "run p xs (initial_state p m) = Some s"
  shows "reads_behind p s \<and> summaries_complete s"
  using assms(3)
proof (induction xs arbitrary: s rule: rev_induct)
  case Nil
  then show ?case using start_records [of p m] by auto
next
  case (snoc x xs)
  obtain s0 r where s0: "run p xs (initial_state p m) = Some s0" "x \<in> set (enabled_steps p s0)"
    "execute_enabled_step p s0 x = Inr (s, r)"
    using snoc.prems by (rule run_snoc)
  have "wf_state p s0" using wf_run [OF assms(1) wf_initial_state s0(1)] assms(1) by simp
  then show ?case
    using summaries_step [OF _ assms(1,2) s0(2,3)] run_records [OF s0(1)] snoc.IH [OF s0(1)] by blast
qed

text \<open>A run with a data race has a step at which the detector reports one.\<close>

lemma first_race_step:
  assumes prog: "indexable p" "\<not> requires_cycle_detection p"
    and run: "run p xs (initial_state p m) = Some s" "has_data_race s"
  shows "\<exists>ys x s0 s1 r. run p ys (initial_state p m) = Some s0 \<and> x \<in> set (enabled_steps p s0) \<and>
    execute_enabled_step p s0 x = Inr (s1, r) \<and> sr_race r \<noteq> None"
  using run
proof (induction xs arbitrary: s rule: rev_induct)
  case Nil
  then show ?case using start_records [of p m] by auto
next
  case (snoc x xs)
  obtain s0 r where s0: "run p xs (initial_state p m) = Some s0" "x \<in> set (enabled_steps p s0)"
    "execute_enabled_step p s0 x = Inr (s, r)"
    using snoc.prems(1) by (rule run_snoc)
  show ?case
  proof (cases "has_data_race s0")
    case True
    then show ?thesis using snoc.IH s0(1) by blast
  next
    case False
    then have "sr_race r \<noteq> None"
      using race_step_exact [OF s0(3)] run_records [OF s0(1)] run_summaries [OF prog s0(1)] snoc.prems(2)
      by blast
    then show ?thesis using s0 by blast
  qed
qed

section \<open>Explorations\<close>

text \<open>Some execution makes two accesses that race.\<close>

definition can_race :: "program \<Rightarrow> memory_model \<Rightarrow> bool" where
  "can_race p m \<longleftrightarrow>
     (\<exists>xs s x s' q. run p xs (initial_state p m) = Some s \<and> x \<in> set (enabled_steps p s) \<and>
        execute_enabled_step p s x = Inr (s', q) \<and> has_data_race s')"

lemma can_race_reports:
  assumes prog: "indexable p" "\<not> requires_cycle_detection p" and race: "can_race p m"
  shows "\<exists>ys x s0 s1 r. run p ys (initial_state p m) = Some s0 \<and> x \<in> set (enabled_steps p s0) \<and>
    execute_enabled_step p s0 x = Inr (s1, r) \<and> sr_race r \<noteq> None"
proof -
  obtain xs s x s' q where s: "run p xs (initial_state p m) = Some s" "x \<in> set (enabled_steps p s)"
      "execute_enabled_step p s x = Inr (s', q)" "has_data_race s'"
    using race unfolding can_race_def by blast
  show ?thesis
  proof (cases "has_data_race s")
    case True
    then show ?thesis using first_race_step [OF prog s(1)] by blast
  next
    case False
    then have "sr_race q \<noteq> None"
      using race_step_exact [OF s(3)] run_records [OF s(1)] run_summaries [OF prog s(1)] s(4) by blast
    then show ?thesis using s(1-3) by blast
  qed
qed

text \<open>Without a backward branch, walks are runs.\<close>

lemma acyclic_walk:
  assumes acyclic: "\<not> requires_cycle_detection p"
    and unbounded: "\<And>ys s h x. start_walk p m b ys s h \<Longrightarrow> x \<in> set (enabled_steps p s) \<Longrightarrow>
      \<not> step_bound_reached s (s_thread x) b"
    and run: "run p xs (initial_state p m) = Some s"
  shows "\<exists>h. start_walk p m b xs s h"
  using run
proof (induction xs arbitrary: s rule: rev_induct)
  case Nil
  then show ?case by (simp add: start_walk_def)
next
  case (snoc x xs)
  obtain s0 r where s0: "run p xs (initial_state p m) = Some s0" "x \<in> set (enabled_steps p s0)"
    "execute_enabled_step p s0 x = Inr (s, r)" "\<not> step_terminal r"
    using snoc.prems by (rule run_snoc)
  obtain h where w: "start_walk p m b xs s0 h" using snoc.IH [OF s0(1)] by blast
  have "observe (requires_cycle_detection p) s h = Inr (None, h)" using acyclic by (simp add: observe_def)
  then show ?case using start_walk_snoc [OF w s0(2) unbounded [OF w s0(2)] s0(3,4)] by blast
qed

lemma naive_reports_race:
  assumes prog: "explorable p b" and acyclic: "\<not> requires_cycle_detection p"
    and r: "explore_naive p mx b m = Inr r"
    and full: "\<not> exploration_capped r" "bound_exceeded_executions r = 0"
    and run: "run p xs (initial_state p m) = Some s" "x \<in> set (enabled_steps p s)"
      "execute_enabled_step p s x = Inr (s', q)" "sr_race q \<noteq> None"
  shows "first_race r \<noteq> None"
proof -
  obtain r0 where r0: "dfs_from_start p mx b m = Inr r0" "identities_of r = identities_of r0"
      "exploration_capped r = exploration_capped r0"
      "bound_exceeded_executions r = bound_exceeded_executions r0"
    using explore_naive_minimizes [OF prog, of mx m] r by (auto simp: same_outcome_def)
  have all: "state_reported p b (requires_cycle_detection p) t h r0" if "start_walk p m b ys t h" for ys t h
    using dfs_reports_walks [OF r0(1) _ that] full(1) r0(3) by simp
  have unbounded: "\<not> step_bound_reached t (s_thread y) b"
    if "start_walk p m b ys t h" "y \<in> set (enabled_steps p t)" for ys t h y
    using all [OF that(1)] that(2) full(2) r0(4) by (auto simp: state_reported_def step_reported_def)
  obtain h where w: "start_walk p m b xs s h" using acyclic_walk [OF acyclic _ run(1)] unbounded by blast
  have "first_race r0 \<noteq> None"
    using all [OF w] unbounded [OF w run(2)] run(2-4) by (auto simp: state_reported_def step_reported_def)
  then show ?thesis using r0(2) by (auto simp: identities_of_def)
qed

text \<open>A race that is reported is a data race of the execution its schedule names.\<close>

lemma replayed_race_is_real:
  assumes idx: "indexable p" and q: "replay_schedule p sch b m = Inr q" "first_race q = Some c"
  shows "\<exists>xs s x s' r u v. run p xs (initial_state p m) = Some s \<and> x \<in> set (enabled_steps p s) \<and>
    execute_enabled_step p s x = Inr (s', r) \<and> r_schedule c = xs @ [x] \<and>
    u \<in> set (accesses s' (r_address c)) \<and> v \<in> set (accesses s' (r_address c)) \<and> racy u v \<and>
    r_first c = m_endpoint u \<and> r_second c = m_endpoint v"
proof -
  obtain xs x s' r where "offers p m b xs x s' r" "sr_race r = Some c"
    using replay_genuine(1) [OF idx q(1)] q(2) unfolding genuine_def by blast
  then obtain s h where w: "start_walk p m b xs s h" and x: "x \<in> set (enabled_steps p s)"
    and ex: "execute_enabled_step p s x = Inr (s', r)" and race: "sr_race r = Some c"
    unfolding offers_def by blast
  have run: "run p xs (initial_state p m) = Some s"
    using walk_run w unfolding start_walk_def by blast
  have "r_schedule c = xs @ [x]"
    using execute_enabled_step_report [OF ex] execute_enabled_step_parts(1) [OF ex] race
      start_walk_schedule [OF w] by (simp add: report_ok_def)
  then show ?thesis
    using race_step_sound [OF ex _ _ race] run_records [OF run] run x ex by blast
qed

lemma replayed_race_happens:
  assumes "indexable p" "replay_schedule p sch b m = Inr q" "first_race q = Some c"
  shows "can_race p m"
proof -
  obtain xs s x s' r u v where
    "run p xs (initial_state p m) = Some s" "x \<in> set (enabled_steps p s)"
    "execute_enabled_step p s x = Inr (s', r)"
    "u \<in> set (accesses s' (r_address c))" "v \<in> set (accesses s' (r_address c))" "racy u v"
    using replayed_race_is_real [OF assms] by blast
  then show ?thesis unfolding can_race_def has_data_race_def free_of_races_def by blast
qed

section \<open>A data race that is not found\<close>

text \<open>
  A search without cycle detection, when it is complete, sees every step that the explorer
  offers.
\<close>

lemma walk_forget:
  "walk p b d xs s h = Some (s', h') \<Longrightarrow> walk p b False xs s h0 = Some (s', h0)"
  by (induction xs arbitrary: s h)
     (auto simp: observe_def split: sum.splits option.splits if_splits)

lemma search_without_races:
  assumes dfs: "dfs fuel p mx b False (initial_state p m) (empty_result, mempty) = Inr (r0, h0)"
    and none: "schedules_explored r0 < mx" "first_race r0 = None"
    and r: "explore_naive p mx' b m = Inr r"
  shows "first_race r = None"
proof (rule ccontr)
  obtain r1 where r1: "dfs_from_start p mx' b m = Inr r1" "minimize_result_reports p r1 b m = Inr r"
    using explore_naive_reports [OF r] by blast
  assume "first_race r \<noteq> None"
  then obtain c where "first_race r1 = Some c"
    using r1(2) by (auto simp: minimize_result_reports_def minimized_def res_simps split: option.splits)
  then obtain xs x s' q where "offers p m b xs x s' q" "sr_race q = Some c"
    using dfs_from_start_genuine(1) [OF r1(1)] unfolding genuine_def by blast
  then obtain s h where w: "start_walk p m b xs s h" and x: "x \<in> set (enabled_steps p s)"
      "\<not> step_bound_reached s (s_thread x) b" "execute_enabled_step p s x = Inr (s', q)" "sr_race q = Some c"
    unfolding offers_def by blast
  have "walk p b False xs (initial_state p m) mempty = Some (s, mempty)"
    using w walk_forget unfolding start_walk_def by blast
  moreover have "subtree_reported p b False (initial_state p m) mempty r0"
    using explores_complete(1) [OF _ none(1)] dfs_explores [OF dfs] by blast
  ultimately have "state_reported p b False s mempty r0" unfolding subtree_reported_def by blast
  then show False using x none(2) by (auto simp: state_reported_def step_reported_def)
qed

text \<open>
  Thread 0 reads \<open>x\<close>, starts thread 1, reads \<open>x\<close> again by the same action, and then takes the
  mutex. Thread 1 writes \<open>x\<close> only when it finds the mutex taken, and a failed \<open>trylock\<close> orders
  nothing: its write is ordered after the first read, races with the second, and always comes
  after it. The summary of \<open>x\<close> keeps the first read only.
\<close>

definition hidden_race :: program where
  "hidden_race =
     [[label_action ''top'',
       memory_read_action Read ''x'' None,
       branch_action 1 ''again'',
       spawn_action 1,
       set_action 1 1,
       branch_action 1 ''top'',
       label_action ''again'',
       try_lock_action ''m'' 2],
      [try_lock_action ''m'' 0,
       branch_action 0 ''end'',
       memory_write_action Write ''x'' (Some (Immediate 7)),
       label_action ''end'']]"

definition hidden_schedule :: schedule where
  "hidden_schedule =
     [Step 0 1 None, Step 0 2 None, Step 0 3 None, Step 0 4 None, Step 0 5 None, Step 0 1 None,
      Step 0 2 None, Step 0 7 None, Step 1 0 None, Step 1 1 None]"

lemma hidden_race_happens: "can_race hidden_race SC"
proof -
  have "case run hidden_race hidden_schedule (initial_state hidden_race SC) of None \<Rightarrow> False
     | Some s \<Rightarrow> Step 1 2 None \<in> set (enabled_steps hidden_race s) \<and>
         (case execute_enabled_step hidden_race s (Step 1 2 None) of
            Inl _ \<Rightarrow> False | Inr (s', q) \<Rightarrow> \<not> free_of_races (accesses s' ''x''))"
    by code_simp
  then show ?thesis
    unfolding can_race_def has_data_race_def by (fastforce split: option.splits sum.splits)
qed

lemma hidden_race_not_reported:
  assumes "explore_naive hidden_race mx 20 SC = Inr r"
  shows "first_race r = None"
proof -
  have "case dfs 41 hidden_race 1000 20 False (initial_state hidden_race SC) (empty_result, mempty) of
      Inl _ \<Rightarrow> False | Inr (r0, _) \<Rightarrow> schedules_explored r0 < 1000 \<and> first_race r0 = None"
    by code_simp
  then obtain r0 h0 where "dfs 41 hidden_race 1000 20 False (initial_state hidden_race SC) (empty_result, mempty) = Inr (r0, h0)"
      "schedules_explored r0 < 1000" "first_race r0 = None"
    by (auto split: sum.splits)
  then show ?thesis using assms by (rule search_without_races)
qed

end
