(* ===== verification/Exporter_Walks.thy ===== *)
theory Exporter_Walks
  imports Exporter_Tree Race_Search
begin

text \<open>
  Inspections along walks, and the interpretation of the contract of the explored tree: the
  complete schedules are inspected and replayed, every enabled step is the step of a complete
  schedule, and no complete schedule is a prefix of another.
\<close>

section \<open>Inspections along walks\<close>

text \<open>The step that an inspection shows for \<open>x\<close> after \<open>pre\<close>, and the steps enabled there.\<close>

definition offered_steps :: "program \<Rightarrow> memory_model \<Rightarrow> nat \<Rightarrow> schedule \<Rightarrow> schedule_step list" where
  "offered_steps p m b pre =
     (case walk p b (requires_cycle_detection p) pre (initial_state p m)
         (initial_history p (initial_state p m)) of
        None \<Rightarrow> []
      | Some (s, h) \<Rightarrow> enabled_steps p s)"

definition shown_step :: "program \<Rightarrow> nat \<Rightarrow> exec_state \<Rightarrow> schedule_step \<Rightarrow> inspected_step" where
  "shown_step p b s x =
     (if step_bound_reached s (s_thread x) b then inspected_bounded p s x
      else case execute_enabled_step p s x of
          Inl _ \<Rightarrow> inspected_before p s x
        | Inr (s', r) \<Rightarrow> inspected_executed p s x s')"

definition observed_step ::
  "program \<Rightarrow> memory_model \<Rightarrow> nat \<Rightarrow> schedule \<Rightarrow> schedule_step \<Rightarrow> inspected_step" where
  "observed_step p m b pre x =
     (case walk p b (requires_cycle_detection p) pre (initial_state p m)
         (initial_history p (initial_state p m)) of
        None \<Rightarrow> (inspected_before p (initial_state p m) x)\<lparr>is_enabled_before := []\<rparr>
      | Some (s, h) \<Rightarrow> shown_step p b s x)"

lemma shown_enabled [simp]: "is_enabled_before (shown_step p b s x) = enabled_steps p s"
  by (simp add: shown_step_def inspected_bounded_def inspected_executed_def inspected_before_def Let_def
      split: sum.split)

lemma observed_enabled: "is_enabled_before (observed_step p m b pre x) = offered_steps p m b pre"
  by (simp add: observed_step_def offered_steps_def split: option.split)

lemma offered_walk:
  assumes "x \<in> set (offered_steps p m b pre)"
  obtains s h where "start_walk p m b pre s h" "x \<in> set (enabled_steps p s)"
  using assms
  by (cases "walk p b (requires_cycle_detection p) pre (initial_state p m)
        (initial_history p (initial_state p m))")
    (auto simp: offered_steps_def start_walk_def)

lemma inspected_along:
  "start_walk p m b pre s h \<Longrightarrow>
   inspect_loop p b (requires_cycle_detection p) i zs s h = Inr steps \<Longrightarrow>
   steps = trace_from (observed_step p m b) pre zs"
proof (induction zs arbitrary: pre s h i steps)
  case (Cons x zs)
  have shown: "observed_step p m b pre x = shown_step p b s x"
    using Cons.prems(1) by (simp add: observed_step_def start_walk_def)
  obtain u where valid: "validate_replay_step p s x i = Inr u"
    using Cons.prems(2) by (auto simp: res_simps)
  then have x: "x \<in> set (enabled_steps p s)" by (rule validate_only_enabled)
  show ?case
  proof (cases "step_bound_reached s (s_thread x) b")
    case True
    then show ?thesis
      using Cons.prems(2) valid shown
      by (auto simp: end_of_schedule_def shown_step_def split: if_splits)
  next
    case False
    obtain s' q where ex: "execute_enabled_step p s x = Inr (s', q)"
      using Cons.prems(2) valid False by (auto simp: res_simps)
    then have step: "observed_step p m b pre x = inspected_executed p s x s'"
      using False by (simp add: shown shown_step_def)
    show ?thesis
    proof (cases "step_terminal q")
      case True
      then show ?thesis
        using Cons.prems(2) valid False ex step by (auto simp: end_of_schedule_def split: if_splits)
    next
      case going: False
      obtain c h' where ob: "observe (requires_cycle_detection p) s' h = Inr (c, h')"
        using Cons.prems(2) valid False ex going
        by (cases "observe (requires_cycle_detection p) s' h") auto
      show ?thesis
      proof (cases c)
        case None
        have "start_walk p m b (pre @ [x]) s' h'"
          using start_walk_snoc [OF Cons.prems(1) x False ex going] ob None by simp
        from Cons.IH [OF this] show ?thesis
          using Cons.prems(2) valid False ex going ob None step
          by (auto simp: cons_res_def res_simps)
      next
        case (Some k)
        then show ?thesis
          using Cons.prems(2) valid False ex going ob step
          by (auto simp: end_of_schedule_def split: if_splits)
      qed
    qed
  qed
qed simp

text \<open>A walk, and a step that it offers, are inspected.\<close>

lemma inspect_walk:
  assumes idx: "indexable p"
  shows "start_walk p m b pre s h \<Longrightarrow> start_walk p m b (pre @ zs) s1 h1 \<Longrightarrow>
    inspect_loop p b (requires_cycle_detection p) (i + length zs) ys s1 h1 = Inr steps \<Longrightarrow>
    \<exists>steps'. inspect_loop p b (requires_cycle_detection p) i (zs @ ys) s h = Inr steps'"
proof (induction zs arbitrary: pre s h i)
  case Nil
  then show ?case by (auto dest: start_walk_unique)
next
  case (Cons x zs)
  have "walk p b (requires_cycle_detection p) (x # zs) s h = Some (s1, h1)"
    using Cons.prems(1,2) by (simp add: start_walk_def walk_append)
  then obtain s' q h' where x: "x \<in> set (enabled_steps p s)" "\<not> step_bound_reached s (s_thread x) b"
      "execute_enabled_step p s x = Inr (s', q)" "\<not> step_terminal q"
      "observe (requires_cycle_detection p) s' h = Inr (None, h')"
    by (auto split: if_splits sum.splits option.splits)
  have "validate_replay_step p s x i = Inr ()"
    using validate_enabled [OF start_walk_wf [OF idx Cons.prems(1)] idx x(1)] .
  moreover have "start_walk p m b (pre @ [x]) s' h'"
    using start_walk_snoc [OF Cons.prems(1) x(1-5)] .
  ultimately show ?case
    using Cons.IH [of "pre @ [x]" s' h' "Suc i"] Cons.prems(2,3) x by (auto simp: cons_res_def)
qed

lemma inspect_offered:
  assumes prog: "explorable p b" and w: "start_walk p m b xs s h" and x: "x \<in> set (enabled_steps p s)"
  shows "\<exists>steps. inspect_loop p b (requires_cycle_detection p) i [x] s h = Inr steps"
proof -
  have idx: "indexable p" using prog by (simp add: explorable_def)
  have valid: "validate_replay_step p s x i = Inr ()"
    using validate_enabled [OF start_walk_wf [OF idx w] idx x] .
  show ?thesis
  proof (cases "step_bound_reached s (s_thread x) b")
    case False
    have "completes (execute_enabled_step p s x)"
      using room_for_walk [OF prog w] x unfolding room_for_def
      by (intro execute_enabled_step_completes) auto
    then obtain s' q where ex: "execute_enabled_step p s x = Inr (s', q)"
      by (auto simp: completes_def)
    obtain c h' where "observe (requires_cycle_detection p) s' h = Inr (c, h')"
      using observe_walk [OF w ex] by blast
    then show ?thesis
      using valid False ex by (auto simp: Let_def end_of_schedule_def cons_res_def split: option.split)
  qed (simp add: valid end_of_schedule_def)
qed

lemma inspect_returns:
  assumes prog: "explorable p b" and w: "start_walk p m b xs s h"
  shows "x \<in> set (enabled_steps p s) \<Longrightarrow>
      inspect_replay_schedule p (xs @ [x]) b m = Inr (trace_from (observed_step p m b) [] (xs @ [x]))"
    "inspect_replay_schedule p xs b m = Inr (trace_from (observed_step p m b) [] xs)"
proof -
  have idx: "indexable p" using prog by (simp add: explorable_def)
  have all: "inspect_replay_schedule p (xs @ ys) b m = Inr (trace_from (observed_step p m b) [] (xs @ ys))"
    if "inspect_loop p b (requires_cycle_detection p) (length xs) ys s h = Inr steps" for ys steps
  proof -
    from that obtain steps' where "inspect_replay_schedule p (xs @ ys) b m = Inr steps'"
      using inspect_walk [OF idx start_walk_Nil, of m b xs s h 0 ys] w
      by (auto simp: inspect_replay_schedule_def Let_def)
    then show ?thesis
      using inspected_along [OF start_walk_Nil] by (auto simp: inspect_replay_schedule_def Let_def)
  qed
  show "x \<in> set (enabled_steps p s) \<Longrightarrow>
      inspect_replay_schedule p (xs @ [x]) b m = Inr (trace_from (observed_step p m b) [] (xs @ [x]))"
    using inspect_offered [OF prog w] all by blast
  show "inspect_replay_schedule p xs b m = Inr (trace_from (observed_step p m b) [] xs)"
    using all [of "[]"] by simp
qed

section \<open>Executions go on\<close>

lemma offered_continues:
  assumes prog: "explorable p b" and w: "start_walk p m b xs s h" and x: "x \<in> set (enabled_steps p s)"
    and going: "\<not> step_ends p b s h x"
  shows "\<exists>s' h'. start_walk p m b (xs @ [x]) s' h'"
proof -
  have bound: "\<not> step_bound_reached s (s_thread x) b" using going by (simp add: step_ends_def)
  have "completes (execute_enabled_step p s x)"
    using room_for_walk [OF prog w] x unfolding room_for_def
    by (intro execute_enabled_step_completes) auto
  then obtain s' q where ex: "execute_enabled_step p s x = Inr (s', q)"
    by (auto simp: completes_def)
  obtain c h' where ob: "observe (requires_cycle_detection p) s' h = Inr (c, h')"
    using observe_walk [OF w ex] by blast
  have "\<not> step_terminal q" "c = None" using going ex ob by (auto simp: step_ends_def)
  then show ?thesis using start_walk_snoc [OF w x bound ex] ob by blast
qed

lemma walk_extends:
  assumes prog: "explorable p b"
  shows "start_walk p m b xs s h \<Longrightarrow> \<exists>sch. complete_schedule p m b sch \<and> prefix xs sch"
proof (induction "length p * b - length xs" arbitrary: xs s h rule: less_induct)
  case less
  show ?case
  proof (cases "enabled_steps p s")
    case Nil
    then show ?thesis using complete_leaf [OF less.prems] by blast
  next
    case (Cons x rest)
    then have x: "x \<in> set (enabled_steps p s)" by simp
    show ?thesis
    proof (cases "step_ends p b s h x")
      case True
      then show ?thesis using complete_last [OF less.prems x] by (metis prefixI)
    next
      case False
      obtain s' h' where w: "start_walk p m b (xs @ [x]) s' h'"
        using offered_continues [OF prog less.prems x False] by blast
      have "length p * b - length (xs @ [x]) < length p * b - length xs"
        using start_walk_short [OF w] by simp
      then obtain sch where "complete_schedule p m b sch" "prefix (xs @ [x]) sch"
        using less.hyps [OF _ w] by blast
      then show ?thesis using append_prefixD by blast
    qed
  qed
qed

lemma offered_extends:
  assumes prog: "explorable p b" and w: "start_walk p m b xs s h" and x: "x \<in> set (enabled_steps p s)"
  shows "\<exists>sch. complete_schedule p m b sch \<and> prefix (xs @ [x]) sch"
  using complete_last [OF w x] offered_continues [OF prog w x] walk_extends [OF prog] by blast

text \<open>The inner prefixes of a complete schedule are walks, and its last step is offered.\<close>

lemma complete_inner:
  assumes "complete_schedule p m b sch" "prefix (pre @ [x]) sch"
  obtains s h where "start_walk p m b pre s h" "x \<in> set (enabled_steps p s)"
proof -
  obtain xs y s1 h1 where w: "start_walk p m b xs s1 h1" and sch: "sch = xs \<or> sch = xs @ [y]"
    using assms(1) unfolding complete_schedule_def by blast
  have "prefix pre xs"
    using sch assms(2) by (auto simp: prefix_snoc dest: append_prefixD)
  then obtain zs where "xs = pre @ zs" by (auto simp: prefix_def)
  then obtain s h where walk: "start_walk p m b pre s h"
    using w by (auto simp: start_walk_def walk_append split: option.splits)
  have "prefix pre sch" using assms(2) append_prefixD by blast
  from complete_beyond [OF walk assms(1) this] have "x \<in> set (enabled_steps p s)"
    using assms(2) by (auto simp: prefix_def)
  then show ?thesis using that walk by blast
qed

lemma complete_inspected:
  assumes prog: "explorable p b" and sch: "complete_schedule p m b sch"
  shows "inspect_replay_schedule p sch b m = Inr (trace_from (observed_step p m b) [] sch)"
  using sch inspect_returns [OF prog] unfolding complete_schedule_def by blast

lemma inspected_replayed:
  assumes "explorable p b"
  shows "(\<exists>steps. inspect_replay_schedule p sch b m = Inr steps) \<longleftrightarrow>
    (\<exists>q. replay_schedule p sch b m = Inr q)"
  using replay_verdicts(2) [OF assms, where sch = sch and m = m]
  by (auto simp: verdict_def split: sum.splits)

section \<open>The contract holds\<close>

interpretation tree: explored_tree "\<lparr>mc_program = p, mc_step_bound = b, mc_memory_model = m\<rparr>"
  "observed_step p m b" "offered_steps p m b" "\<lambda>sch. explorable p b \<and> complete_schedule p m b sch"
  for p b m
proof unfold_locales
  fix sch assume sch: "explorable p b \<and> complete_schedule p m b sch"
  show ins: "mc_inspect_schedule \<lparr>mc_program = p, mc_step_bound = b, mc_memory_model = m\<rparr> sch =
      Inr (trace_from (observed_step p m b) [] sch)"
    using sch complete_inspected by (simp add: mc_inspect_schedule_def)
  then show "\<exists>r. mc_replay \<lparr>mc_program = p, mc_step_bound = b, mc_memory_model = m\<rparr> sch = Inr r"
    using sch inspected_replayed [of p b sch m] by (auto simp: mc_inspect_schedule_def mc_replay_def)
  fix pre x
  show "x \<in> set (offered_steps p m b pre)" if taken: "prefix (pre @ [x]) sch"
  proof -
    obtain s h where "start_walk p m b pre s h" "x \<in> set (enabled_steps p s)"
      using complete_inner [OF _ taken] sch by blast
    then show ?thesis by (simp add: offered_steps_def start_walk_def)
  qed
  assume "strict_prefix pre sch" and x: "x \<in> set (offered_steps p m b pre)"
  obtain s h where w: "start_walk p m b pre s h" "x \<in> set (enabled_steps p s)"
    using x by (rule offered_walk)
  show "mc_inspect_schedule \<lparr>mc_program = p, mc_step_bound = b, mc_memory_model = m\<rparr> (pre @ [x]) =
      Inr (trace_from (observed_step p m b) [] (pre @ [x]))"
    using inspect_returns(1) [OF _ w] sch by (simp add: mc_inspect_schedule_def)
  show "\<exists>sch'. (explorable p b \<and> complete_schedule p m b sch') \<and> prefix (pre @ [x]) sch'"
    using offered_extends [OF _ w] sch by blast
next
  fix sch sch'
  assume "explorable p b \<and> complete_schedule p m b sch" "explorable p b \<and> complete_schedule p m b sch'"
    "prefix sch sch'"
  then show "sch = sch'" using complete_prefix_free by blast
qed (rule observed_enabled)

end
