(* ===== verification/Exporter_Correct.thy ===== *)
theory Exporter_Correct
  imports Exporter_Walks
begin

text \<open>
  An export fails only for the reasons it announces: an exploration that is cut short, or explorers
  that disagree on which kinds of bugs exist. Witnesses replay with all of their evidence, the two
  collectors agree with the explorations, and what is printed is JSON that reads back.
\<close>

section \<open>Witnesses\<close>

text \<open>Every access that a state records was made by a step of its schedule.\<close>

lemma accesses_of_schedule:
  assumes "run p xs (initial_state p m) = Some s"
  shows "a \<in> set (accesses s y) \<Longrightarrow> m_endpoint a \<in> set (st_schedule s)"
  using assms
proof (induction xs arbitrary: s a y rule: rev_induct)
  case Nil
  then have "record_at s y = empty_address_state" by (auto simp: initial_state_pc)
  then show ?case using Nil.prems(1) by (simp add: accesses_def recorded_def empty_address_state_def)
next
  case (snoc x xs)
  obtain s0 r where s0: "run p xs (initial_state p m) = Some s0"
      "execute_enabled_step p s0 x = Inr (s, r)"
    using snoc.prems(2) by (rule run_snoc)
  have sch: "st_schedule s = st_schedule s0 @ [x]" using execute_enabled_step_parts(1) [OF s0(2)] .
  have count: "clocks_count p s0" using run_records [OF s0(1)] by blast
  show ?case
  proof (cases rule: step_recorded [OF s0(2) count])
    case 1
    then show ?thesis using snoc.IH [OF _ s0(1)] snoc.prems(1) by (simp add: accesses_def sch)
  next
    case (2 z acc)
    have "a = acc \<or> a \<in> set (accesses s0 y)"
      using snoc.prems(1) unfolding accesses_def 2(4) by (auto simp: recorded_after(1) split: if_splits)
    then show ?thesis using snoc.IH [OF _ s0(1)] 2(1) by (auto simp: sch)
  qed
qed

text \<open>The endpoints of a race that a replay reports are executed steps of its schedule.\<close>

lemma race_endpoints:
  assumes idx: "indexable p" and q: "replay_schedule p sch b m = Inr q" "first_race q = Some c"
  shows "{r_first c, r_second c} \<subseteq> set (r_schedule c)" "all_executed p m b (r_schedule c)"
proof -
  obtain xs x s' r where off: "offers p m b xs x s' r" "sr_race r = Some c"
    using replay_genuine(1) [OF idx q(1)] q(2) unfolding genuine_def by blast
  then obtain s h where w: "start_walk p m b xs s h" and x: "x \<in> set (enabled_steps p s)"
      "\<not> step_bound_reached s (s_thread x) b"
    and ex: "execute_enabled_step p s x = Inr (s', r)"
    unfolding offers_def by blast
  have sch: "r_schedule c = xs @ [x]" using offered_schedule(3) [OF off(1)] off(2) .
  then show "all_executed p m b (r_schedule c)" using w x unfolding all_executed_def by blast
  have run: "run p xs (initial_state p m) = Some s"
    using walk_run w unfolding start_walk_def by blast
  have ok: "clocks_count p s" "memory_ok s" using run_records [OF run] by blast+
  obtain u v where uv: "u \<in> set (accesses s' (r_address c))" "v \<in> set (accesses s' (r_address c))" "r_first c = m_endpoint u"
      "r_second c = m_endpoint v" "m_endpoint v = x"
    using race_step_sound [OF ex ok off(2)] by blast
  have sched: "st_schedule s = xs" "st_schedule s' = xs @ [x]"
    using start_walk_schedule [OF w] execute_enabled_step_parts(1) [OF ex] by simp_all
  have "m_endpoint u \<in> set (xs @ [x])"
  proof (cases rule: step_recorded [OF ex ok(1)])
    case 1
    then show ?thesis
      using uv(1) accesses_of_schedule [OF run] sched(1) by (auto simp: accesses_def)
  next
    case (2 z acc)
    have "u = acc \<or> u \<in> set (accesses s (r_address c))"
      using uv(1) unfolding accesses_def 2(4) by (auto simp: recorded_after(1) split: if_splits)
    then show ?thesis using accesses_of_schedule [OF run] 2(1) sched(1) by auto
  qed
  then show "{r_first c, r_second c} \<subseteq> set (r_schedule c)" using uv(3-5) sch by simp
qed

text \<open>The traces of inspections.\<close>

lemma shown_endpoint: "is_endpoint (shown_step p b s x) = x"
  by (simp add: shown_step_def inspected_bounded_def inspected_executed_def inspected_before_def Let_def
      split: sum.split)

lemma shown_executed:
  "\<not> step_bound_reached s (s_thread x) b \<Longrightarrow> is_executed (shown_step p b s x)"
  by (simp add: shown_step_def inspected_executed_def inspected_before_def Let_def split: sum.split)

lemma trace_from_members:
  "q \<in> set (trace_from f pre xs) \<longleftrightarrow> (\<exists>ys x. prefix (ys @ [x]) xs \<and> q = f (pre @ ys) x)"
proof (induction xs arbitrary: pre)
  case (Cons x xs)
  have "(\<exists>ys z. prefix (ys @ [z]) (x # xs) \<and> q = f (pre @ ys) z) \<longleftrightarrow>
      q = f pre x \<or> (\<exists>ys z. prefix (ys @ [z]) xs \<and> q = f ((pre @ [x]) @ ys) z)" (is "?l \<longleftrightarrow> ?r")
  proof
    assume ?l
    then obtain ys z where z: "prefix (ys @ [z]) (x # xs)" "q = f (pre @ ys) z" by blast
    show ?r
    proof (cases ys)
      case (Cons y zs)
      then have "prefix (zs @ [z]) xs" "q = f ((pre @ [x]) @ zs) z" using z by simp_all
      then show ?thesis by blast
    qed (use z in simp)
  next
    have "prefix ([] @ [x]) (x # xs) \<and> f pre x = f (pre @ []) x" by simp
    moreover have "prefix ((x # ys) @ [z]) (x # xs) \<and> f ((pre @ [x]) @ ys) z = f (pre @ x # ys) z"
      if "prefix (ys @ [z]) xs" for ys z using that by simp
    moreover assume ?r
    ultimately show ?l by metis
  qed
  then show ?case using Cons.IH by simp
qed simp

abbreviation checker :: "program \<Rightarrow> nat \<Rightarrow> memory_model \<Rightarrow> model_checker" where
  "checker p b m \<equiv> \<lparr>mc_program = p, mc_step_bound = b, mc_memory_model = m\<rparr>"

text \<open>A trace whose executed steps have clocks of one width is printed.\<close>

lemma predecessors_complete:
  assumes width: "\<forall>q\<in>set trace. is_executed q \<longrightarrow> length (is_clock_after q) = n"
    and step: "step \<in> set trace" and i: "i \<le> length trace"
  shows "\<exists>hb. happens_before_predecessors step i trace = Inr hb"
proof (cases "is_executed step")
  case True
  have "\<exists>hb. res_fold (\<lambda>prior hb. res_bind (vec_at trace prior) (\<lambda>q.
          if is_executed q then
            res_bind (clock_leq (is_clock_after q) (is_clock_after step)) (\<lambda>below.
              Inr (if below then hb @ [prior] else hb))
          else Inr hb)) is acc = Inr hb" if "\<forall>j\<in>set is. j < length trace" for "is" acc
    using that
  proof (induction "is" arbitrary: acc)
    case (Cons j js)
    then have "trace ! j \<in> set trace" by simp
    then show ?case
      using Cons width step True by (simp add: vec_at_def clock_leq_def require_def)
  qed simp
  then show ?thesis using True i by (auto simp: happens_before_predecessors_def)
qed (simp add: happens_before_predecessors_def)

lemma detailed_trace_completes:
  assumes "\<forall>q\<in>set trace. is_executed q \<longrightarrow> length (is_clock_after q) = n"
  shows "\<exists>j. detailed_trace_json trace = Inr j"
proof -
  have "\<exists>j. res_bind (vec_at trace i) (\<lambda>step. inspected_step_json step i trace) = Inr j \<and> True"
    if "i < length trace" for i
    using predecessors_complete [OF assms, of "trace ! i" i] that
    by (auto simp: vec_at_def inspected_step_json_def)
  then have "\<exists>js. res_map (\<lambda>i. res_bind (vec_at trace i) (\<lambda>step. inspected_step_json step i trace))
      [0..<length trace] = Inr js \<and> list_all (\<lambda>_. True) js"
    by (intro res_map_completes) simp
  then show ?thesis by (auto simp: detailed_trace_json_def)
qed
text \<open>Every inspection of the model is printed.\<close>

lemma inspected_width:
  "inspect_loop p b d i xs s h = Inr steps \<Longrightarrow> \<forall>q\<in>set steps. length (is_clock_after q) = length p"
proof (induction xs arbitrary: i s h steps)
  case (Cons x xs)
  have "length (is_clock_after (inspected_bounded p s x)) = length p"
    "length (is_clock_after (inspected_executed p s x s')) = length p" for s'
    by (simp_all add: inspected_bounded_def inspected_executed_def inspected_before_def dense_clock_def Let_def)
  then show ?case
    using Cons.prems Cons.IH
    by (fastforce simp: res_simps end_of_schedule_def cons_res_def Let_def split: if_splits option.splits)
qed simp

lemma inspection_printed:
  assumes "inspect_replay_schedule p sch b m = Inr trace"
  shows "\<exists>j. detailed_trace_json trace = Inr j"
  using detailed_trace_completes inspected_width assms
  by (metis inspect_replay_schedule_def)

text \<open>The clocks of a race are found in the inspection of its schedule.\<close>

lemma walk_inner:
  assumes "start_walk p m b xs s h" "prefix (ys @ [x]) xs"
  shows "\<exists>s1 h1. start_walk p m b ys s1 h1 \<and> \<not> step_bound_reached s1 (s_thread x) b"
proof -
  obtain zs where "xs = ys @ x # zs" using assms(2) by (auto simp: prefix_def)
  then show ?thesis
    using assms(1) by (auto simp: start_walk_def walk_append split: option.splits if_splits)
qed

lemma executed_inner:
  assumes "all_executed p m b sch" "prefix (ys @ [x]) sch"
  shows "is_executed (observed_step p m b ys x)" "is_endpoint (observed_step p m b ys x) = x"
proof -
  obtain xs s h where w: "start_walk p m b xs s h"
      and sch: "sch = xs \<or> (\<exists>y\<in>set (enabled_steps p s). sch = xs @ [y] \<and> \<not> step_bound_reached s (s_thread y) b)"
    using assms(1) unfolding all_executed_def by blast
  have "\<exists>s1 h1. start_walk p m b ys s1 h1 \<and> \<not> step_bound_reached s1 (s_thread x) b"
  proof (cases "prefix (ys @ [x]) xs")
    case False
    then have "ys = xs" "\<not> step_bound_reached s (s_thread x) b"
      using sch assms(2) by (auto simp: prefix_snoc)
    then show ?thesis using w by blast
  qed (rule walk_inner [OF w])
  then obtain s1 h1 where "start_walk p m b ys s1 h1" "\<not> step_bound_reached s1 (s_thread x) b" by blast
  then show "is_executed (observed_step p m b ys x)" "is_endpoint (observed_step p m b ys x) = x"
    by (simp_all add: observed_step_def start_walk_def shown_executed shown_endpoint)
qed

lemma clock_found:
  assumes "q \<in> set trace" "is_endpoint q = e" "is_executed q"
  shows "\<exists>c. clock_for_endpoint trace e = Inr c"
proof -
  let ?keep = "\<lambda>step clock. if is_endpoint step = e \<and> is_executed step then Some (is_clock_after step) else clock"
  have kept: "fold ?keep steps (Some c) \<noteq> None" for steps c by (induction steps arbitrary: c) simp_all
  have "fold ?keep trace c \<noteq> None" for c
    using assms by (induction trace arbitrary: c) (auto simp: kept simp del: not_None_eq)
  then show ?thesis by (auto simp: clock_for_endpoint_def split: option.split)
qed

lemma conflict_completes:
  assumes prog: "explorable p b" and q: "replay_schedule p sch b m = Inr q" "first_race q = Some c"
  shows "\<exists>trace j. inspect_replay_schedule p (r_schedule c) b m = Inr trace \<and>
    conflict_json c trace = Inr j"
proof -
  have idx: "indexable p" using prog by (simp add: explorable_def)
  note ends = race_endpoints [OF idx q]
  have "\<exists>q. replay_schedule p (r_schedule c) b m = Inr q"
    using genuine_reports_replay(1) [OF prog replay_genuine [OF idx q(1)] q(2)] by blast
  then obtain trace where trace: "inspect_replay_schedule p (r_schedule c) b m = Inr trace"
    using inspected_replayed [OF prog] by blast
  then have along: "trace = trace_from (observed_step p m b) [] (r_schedule c)"
    using inspected_along [OF start_walk_Nil] by (auto simp: inspect_replay_schedule_def Let_def)
  have found: "\<exists>c'. clock_for_endpoint trace x = Inr c'" if x: "x \<in> set (r_schedule c)" for x
  proof -
    obtain ys where inner: "prefix (ys @ [x]) (r_schedule c)"
      using split_list [OF x] by (auto simp: prefix_def)
    then have "observed_step p m b ys x \<in> set trace"
      unfolding along trace_from_members by (metis append_Nil)
    then show ?thesis using clock_found executed_inner [OF ends(2) inner] by blast
  qed
  have "r_first c \<in> set (r_schedule c)" "r_second c \<in> set (r_schedule c)" using ends(1) by simp_all
  then obtain c1 c2 where "clock_for_endpoint trace (r_first c) = Inr c1"
      "clock_for_endpoint trace (r_second c) = Inr c2"
    using found by metis
  then show ?thesis using trace by (simp add: conflict_json_def)
qed

text \<open>The report that a replay with a bug reports first.\<close>

lemma primary_completes:
  assumes prog: "explorable p b" and q: "replay_schedule p sch b m = Inr q" and bug: "has_bug q"
  shows "\<exists>j. replay_primary_report_json q (checker p b m) = Inr j"
proof -
  have idx: "indexable p" using prog by (simp add: explorable_def)
  note again = genuine_reports_replay [OF prog replay_genuine [OF idx q]]
  have "\<exists>sch' fields. primary_report q (checker p b m) = Inr (sch', fields) \<and>
      (\<exists>q'. replay_schedule p sch' b m = Inr q')"
  proof (cases "first_race q")
    case (Some c)
    then show ?thesis
      using again(1) [OF Some] conflict_completes [OF prog q Some]
      by (auto simp: primary_report_def mc_inspect_schedule_def)
  next
    case no_race: None
    show ?thesis
    proof (cases "first_deadlock q")
      case (Some dl)
      then show ?thesis using no_race again(2) [OF Some] by (auto simp: primary_report_def)
    next
      case no_deadlock: None
      show ?thesis
      proof (cases "first_error q")
        case (Some e)
        then show ?thesis using no_race no_deadlock again(3) [OF Some] by (auto simp: primary_report_def)
      next
        case no_error: None
        note none = no_race no_deadlock no_error
        show ?thesis
        proof (cases "first_assertion q")
          case (Some f)
          then show ?thesis using none again(4) [OF Some] by (auto simp: primary_report_def)
        next
          case None
          then obtain n where n: "first_nontermination q = Some n"
            using bug none by (auto simp: has_bug_def)
          show ?thesis using None n none again(5) [OF n] by (auto simp: primary_report_def)
        qed
      qed
    qed
  qed
  then obtain sch' fields trace where "primary_report q (checker p b m) = Inr (sch', fields)"
      "inspect_replay_schedule p sch' b m = Inr trace"
    using inspected_replayed [OF prog] by blast
  then show ?thesis
    using inspection_printed by (fastforce simp: replay_primary_report_json_def mc_inspect_schedule_def)
qed

lemma witness_completes:
  assumes prog: "explorable p b"
    and found: "\<And>c. first_of r = Some c \<Longrightarrow>
      \<exists>q. replay_schedule p (sch_of c) b m = Inr q \<and> first_of q = Some c \<and> has_bug q"
    and fields: "\<And>c. first_of r = Some c \<Longrightarrow> \<exists>fs. fields_of c = Inr fs"
  shows "\<exists>js. witness_for (checker p b m) r first_of kind message sch_of fields_of = Inr js"
proof (cases "first_of r")
  case (Some c)
  obtain q where q: "replay_schedule p (sch_of c) b m = Inr q" "first_of q = Some c" "has_bug q"
    using found [OF Some] by blast
  obtain trace where trace: "inspect_replay_schedule p (sch_of c) b m = Inr trace"
    using q(1) inspected_replayed [OF prog] by blast
  obtain steps j fs where "detailed_trace_json trace = Inr steps"
      "replay_primary_report_json q (checker p b m) = Inr j" "fields_of c = Inr fs"
    using inspection_printed [OF trace] primary_completes [OF prog q(1,3)] fields [OF Some] by blast
  then show ?thesis
    using Some q trace
    by (simp add: witness_for_def base_witness_def mc_replay_def mc_inspect_schedule_def require_def)
qed (simp add: witness_for_def)

lemma evidence_completes:
  assumes prog: "explorable p b" and r: "explore_dpor p mx b m = Inr r"
  shows "\<exists>j. evidence_json r (checker p b m) = Inr j \<and> json_ok j"
proof -
  note replays = explore_dpor_replays [OF prog r]
  have race: "\<exists>fs. race_fields (checker p b m) c = Inr fs" if "first_race r = Some c" for c
    using replays(1) [OF that] conflict_completes [OF prog]
    by (fastforce simp: race_fields_def mc_inspect_schedule_def)
  have "\<exists>js. witness_for (checker p b m) r first_race ''race''
      ''race witness did not replay identically'' r_schedule (race_fields (checker p b m)) = Inr js"
    by (rule witness_completes [OF prog]) (use replays(1) race in \<open>auto simp: has_bug_def\<close>)
  moreover have "\<exists>js. witness_for (checker p b m) r first_deadlock ''deadlock''
      ''deadlock witness did not replay identically'' dl_schedule (\<lambda>c. Inr (deadlock_fields c)) = Inr js"
    by (rule witness_completes [OF prog]) (use replays(2) in \<open>auto simp: has_bug_def\<close>)
  moreover have "\<exists>js. witness_for (checker p b m) r first_error ''error''
      ''modeled-error witness did not replay identically'' me_schedule (\<lambda>c. Inr (error_fields_json c)) = Inr js"
    by (rule witness_completes [OF prog]) (use replays(3) in \<open>auto simp: has_bug_def\<close>)
  moreover have "\<exists>js. witness_for (checker p b m) r first_assertion ''assertion''
      ''assertion witness did not replay identically'' af_schedule (\<lambda>c. Inr (assertion_fields c)) = Inr js"
    by (rule witness_completes [OF prog]) (use replays(4) in \<open>auto simp: has_bug_def\<close>)
  moreover have "\<exists>js. witness_for (checker p b m) r first_nontermination ''nontermination''
      ''nontermination witness did not replay identically'' nt_schedule
      (\<lambda>c. Inr (nontermination_fields c)) = Inr js"
    by (rule witness_completes [OF prog]) (use replays(5) in \<open>auto simp: has_bug_def\<close>)
  ultimately have "\<exists>j. evidence_json r (checker p b m) = Inr j"
    by (auto simp: evidence_json_def witnesses_json_def)
  then show ?thesis using json_ok_evidence by blast
qed

section \<open>The collected schedules agree\<close>

lemma binary_search_member: "ascending xs \<Longrightarrow> binary_search xs x \<longleftrightarrow> x \<in> set xs"
  by (induction xs) (auto simp: binary_search_def)

lemma dpor_schedules_counted:
  assumes prog: "explorable p b" and r: "explore_dpor p mx b m = Inr r" and mx: "0 < mx"
  shows "\<exists>ss. collect_dpor_schedules p mx b m = Inr ss \<and> distinct ss \<and> ss \<noteq> [] \<and>
    (\<forall>sch\<in>set ss. complete_schedule p m b sch) \<and> length ss = schedules_explored r"
proof -
  obtain ss where ss: "collect_dpor_schedules p mx b m = Inr ss" "distinct ss"
      "\<forall>sch\<in>set ss. complete_schedule p m b sch"
    using collect_dpor_completes [OF prog] by blast
  then obtain ds where ds: "dpor_search_from_start p mx b m True = Inr ds"
      "length ss = schedules_explored (ds_result ds)"
    using dpor_search_completes [OF prog, where mx = mx and m = m and collect = True]
    by (auto simp: collect_dpor_schedules_def res_simps adds_def initial_search_def)
  have silent: "dpor_search_from_start p mx b m False = Inr (forget ds)"
    using collecting_observes [of p mx b m] ds(1) by simp
  obtain r0 where r0: "dpor_result p mx b m = Inr r0" "same_outcome r r0"
    using explore_dpor_minimizes [OF prog, where mx = mx and m = m] r by auto
  have "schedules_explored r0 = schedules_explored (ds_result ds)"
    using r0(1) silent by (auto simp: dpor_result_def forget_def)
  then have "length ss = schedules_explored r"
    using r0(2) ds(2) by (simp add: same_outcome_def)
  moreover have "0 < schedules_explored (ds_result ds)" using dpor_explores_something [OF ds(1) mx] .
  ultimately show ?thesis using ss ds(2) by auto
qed

lemma dfs_from_start_capped:
  "dfs_from_start p mx b m = Inr r \<Longrightarrow> exploration_capped r \<longleftrightarrow> mx \<le> schedules_explored r"
  by (auto simp: dfs_from_start_def Let_def res_simps)

lemma naive_schedules_counted:
  assumes prog: "explorable p b" and r: "explore_naive p mx b m = Inr r"
    and full: "\<not> exploration_capped r"
  shows "\<exists>ss. collect_naive_schedules p mx b m = Inr ss \<and> ascending ss \<and>
    set ss = {sch. complete_schedule p m b sch} \<and> length ss = schedules_explored r"
proof -
  obtain r0 where r0: "dfs_from_start p mx b m = Inr r0" "same_outcome r r0"
      "exploration_capped r0 \<longleftrightarrow> mx \<le> schedules_explored r0"
    using explore_naive_minimizes [OF prog, where mx = mx and m = m] r dfs_from_start_capped by auto
  obtain ss where ss: "collect_naive_schedules p mx b m = Inr ss" "length ss = schedules_explored r0"
    using dfs_from_start_counts [OF prog r0(1)] by blast
  have "length ss < mx" using r0(2,3) full ss(2) by (simp add: same_outcome_def)
  then show ?thesis
    using collect_naive_completes [OF prog, where mx = mx and m = m] ss r0(2)
    by (auto simp: same_outcome_def)
qed

text \<open>What the checks of an export leave open.\<close>

definition agreeing :: "check_result \<Rightarrow> check_result \<Rightarrow> bool" where
  "agreeing naive dpor \<longleftrightarrow>
     \<not> exploration_capped naive \<and> \<not> exploration_capped dpor \<and> same_bug_existence naive dpor"

lemma agreed_completes:
  assumes prog: "explorable p b" and mx: "0 < mx"
    and naive: "explore_naive p mx b m = Inr naive" and dpor: "explore_dpor p mx b m = Inr dpor"
    and agree: "agreeing naive dpor"
  shows "\<exists>ns ds. agreed_schedules (checker p b m) mx naive dpor = Inr (ns, ds) \<and>
    tree.explored_of p b m ns ds"
proof -
  obtain ns where ns: "collect_naive_schedules p mx b m = Inr ns" "ascending ns"
      "set ns = {sch. complete_schedule p m b sch}" "length ns = schedules_explored naive"
    using naive_schedules_counted [OF prog naive] agree by (auto simp: agreeing_def)
  obtain ds where ds: "collect_dpor_schedules p mx b m = Inr ds" "distinct ds" "ds \<noteq> []"
      "\<forall>sch\<in>set ds. complete_schedule p m b sch" "length ds = schedules_explored dpor"
    using dpor_schedules_counted [OF prog dpor mx] by blast
  have below: "set ds \<subseteq> set ns" using ds(4) ns(3) by blast
  have distinct: "distinct ns" using ns(2) by (rule ascending_distinct)
  have "length ds = card (set ds)" using ds(2) by (simp add: distinct_card)
  also have "\<dots> \<le> card (set ns)" using below by (simp add: card_mono)
  also have "\<dots> = length ns" using distinct by (rule distinct_card)
  finally have fewer: "length ds \<le> length ns" .
  have "list_all (binary_search ns) ds"
    using below binary_search_member [OF ns(2)] by (auto simp: list_all_iff)
  then have "agreed_schedules (checker p b m) mx naive dpor = Inr (ns, ds)"
    using agree ns(1,4) ds(1,5) fewer by (simp add: agreed_schedules_def agreeing_def require_def)
  moreover have "tree.explored_of p b m ns ds"
    by (subst tree.explored_of_def) (use prog distinct ds(2,3) below ns(3) in auto)
  ultimately show ?thesis by blast
qed

text \<open>The messages of the three failures that an export announces.\<close>

definition disagreement :: "check_result \<Rightarrow> check_result \<Rightarrow> string" where
  "disagreement naive dpor =
     (if exploration_capped naive then ''naive exploration reached its schedule cap''
      else if exploration_capped dpor then ''DPOR exploration reached its schedule cap''
      else ''naive and DPOR bug existence differs'')"

lemma agreed_fails:
  "\<not> agreeing naive dpor \<Longrightarrow>
   agreed_schedules mc mx naive dpor = Inl (Runtime_Error (disagreement naive dpor))"
  by (auto simp: agreed_schedules_def agreeing_def disagreement_def require_def)

lemma export_run_returns:
  assumes p: "parse_program_file (xe_process env) (xo_program_path options) = Inr p"
    and mc: "make_model_checker p (xo_step_bound options) (xo_memory_model options) = Inr mc"
    and prog: "explorable p (xo_step_bound options)" and mx: "0 < xo_max_schedules options"
  shows "\<exists>naive dpor.
    explore_naive p (xo_max_schedules options) (xo_step_bound options) (xo_memory_model options) = Inr naive \<and>
    explore_dpor p (xo_max_schedules options) (xo_step_bound options) (xo_memory_model options) = Inr dpor \<and>
    (if agreeing naive dpor then \<exists>j. export_run env options = Inr j \<and> json_ok j
     else export_run env options = Inl (Runtime_Error (disagreement naive dpor)))"
proof -
  let ?mx = "xo_max_schedules options" and ?b = "xo_step_bound options" and ?m = "xo_memory_model options"
  obtain naive dpor where naive: "explore_naive p ?mx ?b ?m = Inr naive"
    and dpor: "explore_dpor p ?mx ?b ?m = Inr dpor"
    using explore_naive_minimizes [OF prog] explore_dpor_minimizes [OF prog] by blast
  have mc': "mc = checker p ?b ?m"
    using mc by (auto simp: make_model_checker_def Let_def res_simps split: if_splits)
  note start = p mc naive dpor mc' export_run_def mc_explore_naive_def mc_explore_dpor_def
  show ?thesis
  proof (cases "agreeing naive dpor")
    case True
    obtain ns ds where agreed: "agreed_schedules (checker p ?b ?m) ?mx naive dpor = Inr (ns, ds)"
        "tree.explored_of p ?b ?m ns ds"
      using agreed_completes [OF prog mx naive dpor True] by blast
    obtain evidence where evidence: "evidence_json dpor (checker p ?b ?m) = Inr evidence" "json_ok evidence"
      using evidence_completes [OF prog dpor] by blast
    obtain t where t: "tree_json (checker p ?b ?m) ns ds (length ns - length ds) = Inr t" "json_ok t"
      using tree.tree_json_completes [OF agreed(2)] by blast
    have "\<exists>j. export_run env options = Inr j \<and> json_ok j"
      using agreed(1) evidence t
      by (auto simp: start Let_def json_base json_ok_results intro!: json_ok_object)
    then show ?thesis using naive dpor True by auto
  next
    case False
    have "export_run env options = Inl (Runtime_Error (disagreement naive dpor))"
      using agreed_fails [OF False] by (simp add: start Let_def)
    then show ?thesis using naive dpor False by auto
  qed
qed

end
