(* ===== verification/Command_Correct.thy ===== *)
theory Command_Correct
  imports Command_Line Report_Correct
begin

text \<open>
  What the process does. Sizes are read modulo \<open>2 ^ 64\<close>, which the overflow check was to prevent;
  every failure before the exploration is reported on the error stream with status 2; and on a
  program within the bounds of the explorers a command prints its whole report and exits with 1
  exactly when a bug was found.
\<close>

section \<open>Sizes\<close>

lemma size_from_exact:
  "size_from d v cs = Inr w \<longleftrightarrow>
     list_all is_digit cs \<and>
     w = foldl (\<lambda>v c. v * 10 + of_nat (digit_value c)) v cs"
proof (induction cs arbitrary: v)
  case (Cons c cs)
  have "\<not> kMaxSize < unat x" for x :: "64 word"
    using unsigned_less [where ?'a = nat and w = x] by (simp add: kMaxSize_def not_less)
  then show ?case using Cons by (auto simp: Let_def)
qed auto

lemma foldl_word_decimal:
  "foldl (\<lambda>v c. v * 10 + of_nat (digit_value c)) (of_nat n) cs =
     (of_nat (foldl (\<lambda>v c. v * 10 + digit_value c) n cs) :: 64 word)"
proof (induction cs arbitrary: n)
  case (Cons c cs)
  have "of_nat n * 10 + of_nat (digit_value c) = (of_nat (n * 10 + digit_value c) :: 64 word)" by simp
  then show ?case using Cons by (simp del: of_nat_add of_nat_mult)
qed simp

lemma parse_size_exact:
  "parse_size_token tok d = Inr n \<longleftrightarrow>
     tok \<noteq> [] \<and> list_all is_digit tok \<and> n = decimal tok mod 2 ^ 64 \<and> n \<noteq> 0"
proof -
  have word: "foldl (\<lambda>v c. v * 10 + of_nat (digit_value c)) 0 tok = (of_nat (decimal tok) :: 64 word)"
    using foldl_word_decimal [of 0 tok] by (simp add: decimal_def)
  have unat: "unat (of_nat (decimal tok) :: 64 word) = decimal tok mod 2 ^ 64"
    by (simp add: unat_of_nat)
  show ?thesis
    unfolding parse_size_token_def
    by (auto simp: res_simps size_from_exact word unat_eq_0 [symmetric] unat simp del: unat_eq_0 split: if_splits)
qed

section \<open>Errors\<close>

definition usage_fails :: "'a res \<Rightarrow> bool" where
  "usage_fails m \<longleftrightarrow> (\<forall>e. m = Inl e \<longrightarrow> (\<exists>msg. e = Usage_Error msg))"

named_theorems usage_intros \<open>when a computation fails only with a usage error\<close>

lemma usage_basic [usage_intros]: "usage_fails (Inr x)" "usage_fails (Inl (Usage_Error msg))"
  by (simp_all add: usage_fails_def)

lemma usage_bind [usage_intros]:
  "usage_fails m \<Longrightarrow> (\<And>x. usage_fails (f x)) \<Longrightarrow> usage_fails (res_bind m f)"
  by (cases m) (auto simp: usage_fails_def)

lemma usage_if [usage_intros]:
  "(b \<Longrightarrow> usage_fails m) \<Longrightarrow> (\<not> b \<Longrightarrow> usage_fails n) \<Longrightarrow> usage_fails (if b then m else n)"
  by simp

lemma usage_options [usage_intros]:
  "usage_fails (parse_size_token tok d)" "usage_fails (parse_explorer v)" "usage_fails (parse_memory_model v)"
proof -
  have "usage_fails (size_from d w cs)" for w cs
    by (induction cs arbitrary: w) (auto simp: Let_def intro: usage_intros)
  then show "usage_fails (parse_size_token tok d)"
    unfolding parse_size_token_def by (intro usage_intros)
  show "usage_fails (parse_explorer v)" unfolding parse_explorer_def by (intro usage_intros)
  show "usage_fails (parse_memory_model v)" unfolding parse_memory_model_def by (intro usage_intros)
qed

lemma usage_flag_value:
  "(\<And>v rest'. rest = v # rest' \<Longrightarrow> usage_fails (f v)) \<Longrightarrow> usage_fails (flag_value missing rest f)"
  by (cases rest) (simp_all add: flag_value_def usage_basic)

lemma usage_check_flags [usage_intros]: "usage_fails (check_flags args command)"
proof (induction args command rule: check_flags.induct)
  case (2 flag rest command)
  show ?case
    unfolding check_flags.simps
    by (intro usage_if usage_flag_value usage_bind usage_options usage_basic 2; assumption?)
qed (simp add: usage_basic)

lemma usage_replay_flags [usage_intros]: "usage_fails (replay_flags args command)"
proof (induction args command rule: replay_flags.induct)
  case (2 flag rest command)
  show ?case
    unfolding replay_flags.simps
    by (intro usage_if usage_flag_value usage_bind usage_options usage_basic 2; assumption?)
qed (simp add: usage_basic)

lemma usage_commands:
  "usage_fails (parse_check_command argv)" "usage_fails (parse_replay_command argv)"
  unfolding parse_check_command_def parse_replay_command_def by (intro usage_intros)+


lemma finish_usage: "usage_fails m \<Longrightarrow> m = Inl e \<Longrightarrow>
    \<exists>msg. finish_command env ([], Inl e) = Exited [] (msg @ endl) 2"
  by (auto simp: usage_fails_def finish_command_def handle_exception_def)

lemma main_usage_errors:
  assumes "length argv < 2 \<or> argv ! 1 \<notin> {''check'', ''replay''} \<or>
    argv ! 1 = ''check'' \<and> parse_check_command argv = Inl e \<or>
    argv ! 1 = ''replay'' \<and> parse_replay_command argv = Inl e"
  shows "\<exists>msg. dpor_main env argv = Exited [] (msg @ endl) 2"
proof -
  have usage: "\<exists>msg. finish_command env ([], Inl (Usage_Error main_usage)) = Exited [] (msg @ endl) 2"
    by (simp add: finish_command_def handle_exception_def)
  show ?thesis
    using assms usage finish_usage [OF usage_commands(1)] finish_usage [OF usage_commands(2)]
    by (cases "length argv < 2") (auto simp: dpor_main_def)
qed

section \<open>Rejected inputs\<close>

lemma main_check:
  "length argv \<ge> 2 \<Longrightarrow> argv ! 1 = ''check'' \<Longrightarrow> parse_check_command argv = Inr cmd \<Longrightarrow>
   dpor_main env argv = finish_command env (run_check env cmd)"
  by (simp add: dpor_main_def)

lemma main_replay:
  "length argv \<ge> 2 \<Longrightarrow> argv ! 1 = ''replay'' \<Longrightarrow> parse_replay_command argv = Inr cmd \<Longrightarrow>
   dpor_main env argv = finish_command env (run_replay env cmd)"
  by (simp add: dpor_main_def)

lemma unreadable_program:
  assumes "env_files env path = None"
  shows "parse_program_file env path = Inl (Runtime_Error ''could not open program file'')"
  using assms by (simp add: parse_program_file_def open_input_file_def)

lemma rejected_program:
  assumes "env_files env path = Some text" "parse_program_text text = Inl e"
  shows "parse_program_file env path = Inl e" "\<exists>n msg. e = Parse_Error n msg \<and> n \<le> length (get_lines text)"
  using assms parse_program_fails [OF assms(2)]
  by (auto simp: parse_program_file_def open_input_file_def)

section \<open>Commands that run\<close>

lemma made_of_bound: "names_apart p \<Longrightarrow> 0 < b \<Longrightarrow>
    make_model_checker p b m = Inr \<lparr>mc_program = p, mc_step_bound = b, mc_memory_model = m\<rparr>"
  using constructor_accepts by blast

lemma check_flags_bound:
  "check_flags args cmd = Inr cmd' \<Longrightarrow> 0 < cc_step_bound cmd \<Longrightarrow> 0 < cc_step_bound cmd'"
proof (induction args cmd arbitrary: cmd' rule: check_flags.induct)
  case (2 flag rest cmd)
  then show ?case
    by (cases rest) (auto simp: flag_value_def res_simps parse_size_exact split: if_splits)
qed simp

lemma check_command_bound: "parse_check_command argv = Inr cmd \<Longrightarrow> 0 < cc_step_bound cmd"
  using check_flags_bound by (fastforce simp: parse_check_command_def kDefaultStepBound_def split: if_splits)

definition explored :: "check_command \<Rightarrow> program \<Rightarrow> check_result \<Rightarrow> bool" where
  "explored cmd p r \<longleftrightarrow>
     (if cc_explorer cmd = Naive then explore_naive else explore_dpor)
       p (cc_max_schedules cmd) (cc_step_bound cmd) (cc_memory_model cmd) = Inr r"

lemma run_check_reports:
  assumes source: "env_files env (cc_program_path cmd) = Some text" "parse_program_text text = Inr p"
    and prog: "explorable p (cc_step_bound cmd)" and bound: "0 < cc_step_bound cmd"
  shows "\<exists>r. explored cmd p r \<and>
    run_check env cmd = (fst (print_report p r (cc_memory_model cmd) (cc_step_bound cmd)),
      Inr (if has_bug r then 1 else 0)) \<and>
    snd (print_report p r (cc_memory_model cmd) (cc_step_bound cmd)) = None"
proof -
  let ?m = "cc_memory_model cmd" and ?b = "cc_step_bound cmd"
  have "names_apart p" using parse_program_sound [OF source(2)] by (rule program_ok_typed)
  then have made: "make_model_checker p ?b ?m =
      Inr \<lparr>mc_program = p, mc_step_bound = ?b, mc_memory_model = ?m\<rparr>"
    using bound by (rule made_of_bound)
  have parsed: "parse_program_file env (cc_program_path cmd) = Inr p"
    using source by (simp add: parse_program_file_def open_input_file_def)
  obtain r where r: "explored cmd p r"
    using explore_naive_minimizes [OF prog, where mx = "cc_max_schedules cmd" and m = ?m]
      explore_dpor_minimizes [OF prog, where mx = "cc_max_schedules cmd" and m = ?m]
    unfolding explored_def by (cases "cc_explorer cmd = Naive") auto
  then have "bug_replays p ?m ?b r"
    using bug_replays_explored(1,2) [OF prog] by (auto simp: explored_def split: if_splits)
  then have printed: "snd (print_report p r ?m ?b) = None" by (rule print_report_bug [OF prog made])
  have "(if cc_explorer cmd = Naive
        then mc_explore_naive \<lparr>mc_program = p, mc_step_bound = ?b, mc_memory_model = ?m\<rparr> (cc_max_schedules cmd)
        else mc_explore_dpor \<lparr>mc_program = p, mc_step_bound = ?b, mc_memory_model = ?m\<rparr> (cc_max_schedules cmd))
      = Inr r"
    using r by (simp add: explored_def mc_explore_naive_def mc_explore_dpor_def split: if_splits)
  then have "run_check env cmd = (fst (print_report p r ?m ?b), Inr (if has_bug r then 1 else 0))"
    using parsed made printed by (simp add: run_check_def Let_def report_and_status_def)
  then show ?thesis using r printed by blast
qed

text \<open>The identifiers of steps fit into the 32 bits of the schedule format.\<close>

definition ids_fit :: "program \<Rightarrow> bool" where
  "ids_fit p \<longleftrightarrow> length p \<le> kMaxU32 \<and> length (program_addresses p) \<le> kMaxU32"

lemma enabled_step_in_range:
  assumes "ids_fit p" "indexable p" "wf_state p s" "x \<in> set (enabled_steps p s)"
  shows "step_in_range x"
proof -
  obtain t where t: "t < length p" "x \<in> set (enabled_steps_for_thread p s t)"
    using assms(4) by (auto simp: set_enabled_steps)
  have named: "step_named p x" using enabled_step_named [OF assms(4)] .
  have "s_index x \<le> kMaxU32"
    using named indexableD [OF assms(2), of "s_thread x"]
    by (auto simp: step_named_def kMaxU32_def kFlushActionIndex_def)
  moreover have "pred_option (\<lambda>f. f \<le> kMaxU32) (s_flush x)"
  proof -
    have "st_flush_addresses s = program_addresses p"
      using wf_stateD(1) [OF assms(3)] by (simp add: shape_ok_def)
    then show ?thesis
      using enabled_steps_for_thread_subset [of p s t] t(2) assms(1)
      by (auto simp: ids_fit_def split: if_splits)
  qed
  moreover have "s_thread x \<le> kMaxU32" using named assms(1) by (simp add: step_named_def ids_fit_def)
  ultimately show ?thesis by (simp add: step_in_range_def)
qed


lemma walk_in_range:
  "walk p b d xs s h = Some (s', h') \<Longrightarrow> ids_fit p \<Longrightarrow> indexable p \<Longrightarrow> wf_state p s \<Longrightarrow>
   list_all step_in_range xs"
proof (induction xs arbitrary: s h)
  case (Cons x xs)
  then obtain s1 r h1 where x: "x \<in> set (enabled_steps p s)" "execute_enabled_step p s x = Inr (s1, r)"
      "walk p b d xs s1 h1 = Some (s', h')"
    by (auto split: sum.splits option.splits if_splits)
  then have "wf_state p s1" using wf_execute_enabled_step Cons.prems by blast
  then show ?case using Cons.IH [OF x(3)] Cons.prems enabled_step_in_range [OF _ _ _ x(1)] by simp
qed simp

lemma executed_in_range:
  assumes "all_executed p m b sch" "ids_fit p" "indexable p"
  shows "list_all step_in_range sch"
proof -
  obtain xs s h where w: "start_walk p m b xs s h"
    and sch: "sch = xs \<or> (\<exists>x\<in>set (enabled_steps p s). sch = xs @ [x])"
    using assms(1) unfolding all_executed_def by blast
  have "list_all step_in_range xs"
    using walk_in_range [OF w [unfolded start_walk_def] assms(2,3) wf_initial_state] .
  moreover have "\<forall>x\<in>set (enabled_steps p s). step_in_range x"
    using enabled_step_in_range [OF assms(2,3) start_walk_wf [OF assms(3) w]] by blast
  ultimately show ?thesis using sch by auto
qed

text \<open>The lines after \<open>schedule:\<close>, replayed under the same bound, show the bug again.\<close>

lemma replay_of_report:
  assumes prog: "explorable p kDefaultStepBound" and fit: "ids_fit p"
    and bug: "bug_replays p m kDefaultStepBound r" "bug_schedule r = Some sch"
    and files: "env_files env (rc_program_path rc) = Some text" "parse_program_text text = Inr p"
      "env_files env (rc_schedule_path rc) = Some (concat (map (print_numeric_step ''  '') sch))"
      "rc_memory_model rc = m"
  shows "\<exists>q. replay_schedule p sch kDefaultStepBound m = Inr q \<and> has_bug q \<and>
    run_replay env rc = (fst (print_report p q m kDefaultStepBound), Inr 1)"
proof -
  let ?b = kDefaultStepBound
  have idx: "indexable p" using prog by (simp add: explorable_def)
  have ex: "all_executed p m ?b sch" and "\<exists>q. replay_schedule p sch ?b m = Inr q \<and> has_bug q"
    using bug unfolding bug_replays_def by blast+
  then obtain q where q: "replay_schedule p sch ?b m = Inr q" "has_bug q" by blast
  have "names_apart p" using parse_program_sound [OF files(2)] by (rule program_ok_typed)
  then have made: "make_model_checker p ?b m =
      Inr \<lparr>mc_program = p, mc_step_bound = ?b, mc_memory_model = m\<rparr>"
    by (rule made_of_bound) (simp add: kDefaultStepBound_def)
  have "snd (print_report p q m ?b) = None"
    using print_report_bug [OF prog made bug_replays_explored(3) [OF prog q(1)]] .
  moreover have "parse_schedule_file env (rc_schedule_path rc) = Inr sch"
    using files(3) parse_printed_schedule [OF executed_in_range [OF ex fit idx]]
    by (simp add: parse_schedule_file_def open_input_file_def)
  moreover have "parse_program_file env (rc_program_path rc) = Inr p"
    using files(1,2) by (simp add: parse_program_file_def open_input_file_def)
  ultimately have "run_replay env rc = (fst (print_report p q m ?b), Inr 1)"
    using q made files(4) by (simp add: run_replay_def Let_def mc_replay_def report_and_status_def)
  then show ?thesis using q by blast
qed

end
