(* ===== verification/Exporter_Runs.thy ===== *)
theory Exporter_Runs
  imports Exporter_Correct Command_Correct
begin

text \<open>
  The numbers that an export gives for its runs, the sizes and options it reads, and the whole
  process: what it prints is a JSON text that reads back as the exported value.
\<close>

section \<open>Prefix states\<close>

text \<open>
  In lexicographic order the schedules with a common prefix stand together, so the prefixes of a
  schedule that are new are those longer than what it shares with its predecessor.
\<close>

lemma prefix_between:
  fixes x y z :: "'a::linorder list"
  assumes "x \<le> y" "y \<le> z" "prefix q x" "prefix q z"
  shows "prefix q y"
  using assms
proof (induction q arbitrary: x y z)
  case (Cons a q)
  obtain x' z' where xz: "x = a # x'" "z = a # z'" "prefix q x'" "prefix q z'"
    using Cons.prems(3,4) by (auto simp: prefix_def)
  then obtain y' where "y = a # y'" "x' \<le> y'" "y' \<le> z'"
    using Cons.prems(1,2) by (cases y) auto
  then show ?case using Cons.IH xz by auto
qed simp

lemma card_prefixes: "card {q. prefix q xs} = Suc (length xs)"
proof -
  have "{q. prefix q xs} = set (prefixes xs)" by auto
  then show ?thesis by (simp add: distinct_card)
qed

lemma finite_prefixes: "finite {q. prefix q xs}"
proof -
  have "{q. prefix q xs} = set (prefixes xs)" by auto
  then show ?thesis by simp
qed

lemma card_new_prefixes:
  "card {q. prefix q ys \<and> \<not> prefix q xs} = length ys - common_prefix_length xs ys"
proof (induction xs arbitrary: ys)
  case Nil
  have "{q. prefix q ys \<and> \<not> prefix q []} = {q. prefix q ys} - {[]}" by auto
  then show ?case by (simp add: card_prefixes finite_prefixes)
next
  case step: (Cons x xs)
  show ?case
  proof (cases ys)
    case Nil
    then have "{q. prefix q ys \<and> \<not> prefix q (x # xs)} = {}" by auto
    then show ?thesis using Nil by simp
  next
    case (Cons y zs)
    show ?thesis
    proof (cases "x = y")
      case True
      have "{q. prefix q ys \<and> \<not> prefix q (x # xs)} = Cons y ` {q. prefix q zs \<and> \<not> prefix q xs}"
        using True Cons by (auto simp: prefix_Cons image_iff)
      then show ?thesis using step True Cons by (simp add: card_image)
    next
      case False
      have "{q. prefix q ys \<and> \<not> prefix q (x # xs)} = {q. prefix q ys} - {[]}"
        using False Cons by (auto simp: prefix_Cons)
      then show ?thesis using False Cons by (simp add: card_prefixes finite_prefixes)
    qed
  qed
qed

lemma count_new_prefixes:
  "sorted (pre # ss) \<Longrightarrow>
   count_new_states pre ss = card {q. (\<exists>sch\<in>set ss. prefix q sch) \<and> \<not> prefix q pre}"
proof (induction ss arbitrary: pre)
  case (Cons y ys)
  let ?new = "{q. prefix q y \<and> \<not> prefix q pre}"
  let ?later = "{q. (\<exists>sch\<in>set ys. prefix q sch) \<and> \<not> prefix q y}"
  have below: "pre \<le> y" "\<And>z. z \<in> set ys \<Longrightarrow> y \<le> z" using Cons.prems by auto
  have "{q. (\<exists>sch\<in>set (y # ys). prefix q sch) \<and> \<not> prefix q pre} = ?new \<union> ?later"
    using prefix_between [OF below] by auto
  moreover have "finite ?new" using finite_prefixes [of y] by simp
  moreover have "finite ?later"
  proof -
    have "?later \<subseteq> (\<Union>sch\<in>set ys. {q. prefix q sch})" by blast
    then show ?thesis by (rule finite_subset) (simp add: finite_prefixes)
  qed
  moreover have "?new \<inter> ?later = {}" by blast
  ultimately have "card {q. (\<exists>sch\<in>set (y # ys). prefix q sch) \<and> \<not> prefix q pre} = card ?new + card ?later"
    by (simp add: card_Un_disjoint)
  then show ?case using Cons.IH [of y] Cons.prems by (simp add: card_new_prefixes)
qed simp

lemma prefix_states:
  "prefix_state_count ss = card {q. q = [] \<or> (\<exists>sch\<in>set ss. prefix q sch)}"
proof (cases "ss = []")
  case False
  let ?longer = "{q. (\<exists>sch\<in>set ss. prefix q sch) \<and> \<not> prefix q []}"
  have "{q. q = [] \<or> (\<exists>sch\<in>set ss. prefix q sch)} = insert [] ?longer" by auto
  moreover have "finite ?longer"
  proof -
    have "?longer \<subseteq> (\<Union>sch\<in>set ss. {q. prefix q sch})" by blast
    then show ?thesis by (rule finite_subset) (simp add: finite_prefixes)
  qed
  ultimately have "card {q. q = [] \<or> (\<exists>sch\<in>set ss. prefix q sch)} = Suc (card ?longer)" by simp
  moreover have "sorted ([] # sort ss)" by simp
  from count_new_prefixes [OF this] have "count_new_states [] (sort ss) = card ?longer" by simp
  ultimately show ?thesis using False by (simp add: prefix_state_count_def)
qed (simp add: prefix_state_count_def)

lemma max_depth_greatest:
  "(\<forall>sch\<in>set ss. length sch \<le> max_depth ss) \<and>
   (max_depth ss = 0 \<or> (\<exists>sch\<in>set ss. max_depth ss = length sch))"
proof -
  have "d \<le> fold (\<lambda>sch depth. max depth (length sch)) ss d \<and>
      (\<forall>sch\<in>set ss. length sch \<le> fold (\<lambda>sch depth. max depth (length sch)) ss d) \<and>
      (fold (\<lambda>sch depth. max depth (length sch)) ss d = d \<or>
        (\<exists>sch\<in>set ss. fold (\<lambda>sch depth. max depth (length sch)) ss d = length sch))" for d
  proof (induction ss arbitrary: d)
    case (Cons sch ss)
    from Cons [of "max d (length sch)"] show ?case by (auto simp: max_def split: if_splits)
  qed simp
  from this [of 0] show ?thesis by (simp add: max_depth_def)
qed

lemma greatest_depth: "max_depth ss = Max (insert 0 (length ` set ss))"
proof (rule Max_eqI [symmetric])
  show "max_depth ss \<in> insert 0 (length ` set ss)" using max_depth_greatest [of ss] by auto
  show "d \<le> max_depth ss" if "d \<in> insert 0 (length ` set ss)" for d
    using max_depth_greatest [of ss] that by auto
qed simp

section \<open>Sizes and options\<close>

lemma size_digits_exact:
  "size_digits d v cs = Inr w \<longleftrightarrow>
     list_all is_digit cs \<and> foldl (\<lambda>n c. n * 10 + digit_value c) (unat v) cs < 2 ^ 64 \<and>
     unat w = foldl (\<lambda>n c. n * 10 + digit_value c) (unat v) cs"
proof (induction cs arbitrary: v)
  case Nil
  then show ?case using unsigned_less [where ?'a = nat and w = v] by (auto simp: word_unat_eq_iff)
next
  case (Cons c cs)
  show ?case
  proof (cases "is_digit c")
    case digit: True
    let ?n = "unat v * 10 + digit_value c"
    have small: "digit_value c < 10" using digit by (auto simp: is_digit_iff digit_value_def)
    then have word: "unat (of_nat (digit_value c) :: 64 word) = digit_value c"
      by (simp add: unat_of_nat)
    have max: "unat (- 1 - of_nat (digit_value c) :: 64 word) = 2 ^ 64 - 1 - digit_value c"
      by (simp add: unat_sub word unsigned_minus_1_eq_mask mask_eq_exp_minus_1)
    have room: "v > (- 1 - of_nat (digit_value c)) div 10 \<longleftrightarrow> 2 ^ 64 \<le> ?n"
      using small by (simp add: word_less_nat_alt unat_div max div_less_iff_less_mult) linarith
    have grows: "n \<le> foldl (\<lambda>n c. n * 10 + digit_value c) n cs" for n
    proof (induction cs arbitrary: n)
      case (Cons c cs)
      have "n \<le> n * 10 + digit_value c" by simp
      also have "\<dots> \<le> foldl (\<lambda>n c. n * 10 + digit_value c) (n * 10 + digit_value c) cs" by (rule Cons)
      finally show ?case by simp
    qed simp
    show ?thesis
    proof (cases "2 ^ 64 \<le> ?n")
      case True
      then show ?thesis using digit room grows [of ?n] by (auto simp: Let_def)
    next
      case False
      have "unat (v * 10 + of_nat (digit_value c)) = ?n"
        using False by (simp add: unat_word_ariths word)
      then show ?thesis using False digit room Cons [of "v * 10 + of_nat (digit_value c)"] by (simp add: Let_def)
    qed
  qed simp
qed

lemma exporter_size_exact:
  "parse_size tok d = Inr n \<longleftrightarrow>
     tok \<noteq> [] \<and> list_all is_digit tok \<and> n = decimal tok \<and> 0 < n \<and> n < 2 ^ 64"
proof -
  have "(\<exists>w. size_digits d 0 tok = Inr w \<and> w \<noteq> 0 \<and> unat w = n) \<longleftrightarrow>
      list_all is_digit tok \<and> n = decimal tok \<and> 0 < n \<and> n < 2 ^ 64"
  proof
    assume "list_all is_digit tok \<and> n = decimal tok \<and> 0 < n \<and> n < 2 ^ 64"
    then have n: "list_all is_digit tok" "n = decimal tok" "0 < n" "n < 2 ^ 64" by auto
    then have word: "unat (of_nat n :: 64 word) = n" by (simp add: unat_of_nat)
    then have "size_digits d 0 tok = Inr (of_nat n)"
      using n by (simp add: size_digits_exact decimal_def)
    then show "\<exists>w. size_digits d 0 tok = Inr w \<and> w \<noteq> 0 \<and> unat w = n"
      using word n(3) by (intro exI [of _ "of_nat n"]) auto
  next
    assume "\<exists>w. size_digits d 0 tok = Inr w \<and> w \<noteq> 0 \<and> unat w = n"
    then obtain w where w: "size_digits d 0 tok = Inr w" "w \<noteq> 0" "unat w = n" by blast
    have "0 < unat w" using w(2) unat_eq_0 [of w] by simp
    then show "list_all is_digit tok \<and> n = decimal tok \<and> 0 < n \<and> n < 2 ^ 64"
      using w by (simp add: size_digits_exact decimal_def)
  qed
  then show ?thesis by (auto simp: parse_size_def res_simps split: if_splits)
qed

lemma options_positive:
  assumes "parse_options argv = Inr options"
  shows "0 < xo_step_bound options \<and> 0 < xo_max_schedules options"
proof -
  have "0 < xo_step_bound o' \<and> 0 < xo_max_schedules o'"
    if "exporter_flags args opts = Inr o'" "0 < xo_step_bound opts" "0 < xo_max_schedules opts" for args opts o'
    using that
    by (induction args opts rule: exporter_flags.induct)
      (auto simp: res_simps exporter_size_exact split: if_splits)
  then show ?thesis
    using assms by (fastforce simp: parse_options_def res_simps kDefaultStepBound_def require_def)
qed

section \<open>The tree\<close>

text \<open>
  What the tree says: its expanded nodes are the prefixes of the schedules that DPOR explored;
  every other execution lies below exactly one pruned node; and the counts of a node are the
  numbers of executions, and of explored schedules, below it.
\<close>

definition tree_describes ::
  "program \<Rightarrow> memory_model \<Rightarrow> nat \<Rightarrow> schedule list \<Rightarrow> tree_data \<Rightarrow> bool" where
  "tree_describes p m b ds td \<longleftrightarrow>
     (\<forall>q. omember q (ti_expanded (tr_index td)) \<longleftrightarrow> q = [] \<or> (\<exists>sch\<in>set ds. prefix q sch)) \<and>
     (\<forall>sch. complete_schedule p m b sch \<longrightarrow>
        (if sch \<in> set ds then \<not> (\<exists>c. omember c (tr_pruned td) \<and> prefix c sch)
         else \<exists>!c. omember c (tr_pruned td) \<and> prefix c sch)) \<and>
     (\<forall>q. omember q (ti_expanded (tr_index td)) \<or> omember q (tr_pruned td) \<longrightarrow>
        mlookup (tr_naive_counts td) q = Some (card {sch. complete_schedule p m b sch \<and> prefix q sch}) \<and>
        mlookup (tr_dpor_counts td) q = Some (card {sch\<in>set ds. prefix q sch}))"

lemma count_filter: "distinct xs \<Longrightarrow> length (filter P xs) = card {x\<in>set xs. P x}"
  using distinct_card [of "filter P xs"] by simp

lemma explored_of_iff:
  assumes "explorable p b"
  shows "tree.explored_of p b m ns ds \<longleftrightarrow>
    distinct ns \<and> set ns = {sch. complete_schedule p m b sch} \<and> distinct ds \<and> set ds \<subseteq> set ns \<and> ds \<noteq> []"
  by (subst tree.explored_of_def) (use assms in auto)

lemma tree_ok_describes:
  assumes prog: "explorable p b" and ex: "tree.explored_of p b m ns ds"
    and td: "explored_tree.tree_ok (observed_step p m b) (offered_steps p m b) ns ds td"
  shows "tree_describes p m b ds td"
proof -
  have ns: "distinct ns" "\<And>sch. sch \<in> set ns \<longleftrightarrow> complete_schedule p m b sch"
    and ds: "distinct ds" "set ds \<subseteq> set ns" "ds \<noteq> []"
    using ex unfolding explored_of_iff [OF prog] by auto
  have all: "\<forall>d\<in>set ds. explorable p b \<and> complete_schedule p m b d" using ns ds prog by blast
  have expanded: "omember q (ti_expanded (tr_index td)) \<longleftrightarrow> tree.reached ds q" for q
    using td by (simp add: tree.tree_ok_def tree.indexes_def)
  have pruned: "omember c (tr_pruned td) \<longleftrightarrow> tree.boundary p m b ds c" for c
    using td by (simp add: tree.tree_ok_def)
  have "if sch \<in> set ds then \<not> (\<exists>c. omember c (tr_pruned td) \<and> prefix c sch)
         else \<exists>!c. omember c (tr_pruned td) \<and> prefix c sch" if sch: "complete_schedule p m b sch" for sch
    using tree.boundary_or_explored [OF all ds(3), of sch] tree.boundary_unique sch prog
    unfolding pruned by (cases "sch \<in> set ds") auto
  moreover have "mlookup (tr_naive_counts td) q = Some (card {sch. complete_schedule p m b sch \<and> prefix q sch})"
      "mlookup (tr_dpor_counts td) q = Some (card {sch\<in>set ds. prefix q sch})"
    if "omember q (ti_expanded (tr_index td)) \<or> omember q (tr_pruned td)" for q
    using td that unfolding expanded pruned
    by (simp_all add: tree.tree_ok_def count_filter ns ds(1))
  ultimately show ?thesis
    unfolding tree_describes_def using expanded by (simp add: tree.reached_def)
qed

lemma agreed_tree:
  assumes prog: "explorable p b" and naive: "explore_naive p mx b m = Inr naive"
    and dpor: "explore_dpor p mx b m = Inr dpor"
    and agreed: "agreed_schedules (checker p b m) mx naive dpor = Inr (ns, ds)"
  shows "set ns = {sch. complete_schedule p m b sch}"
    "\<exists>td. build_tree (checker p b m) ns ds (length ns - length ds) = Inr td \<and> tree_describes p m b ds td"
proof -
  have agree: "agreeing naive dpor"
    using agreed agreed_fails [of naive dpor "checker p b m" mx] by fastforce
  obtain r0 where "dfs_from_start p mx b m = Inr r0" "same_outcome naive r0"
    using explore_naive_minimizes [OF prog, where mx = mx and m = m] naive by auto
  then have "0 < mx" using agree dfs_from_start_capped [of p mx b m r0]
    by (cases mx) (auto simp: agreeing_def same_outcome_def)
  then have ex: "tree.explored_of p b m ns ds"
    using agreed_completes [OF prog _ naive dpor agree] agreed by auto
  then show "set ns = {sch. complete_schedule p m b sch}"
    unfolding explored_of_iff [OF prog] by blast
  show "\<exists>td. build_tree (checker p b m) ns ds (length ns - length ds) = Inr td \<and> tree_describes p m b ds td"
    using tree.build_tree_completes [OF ex] tree_ok_describes [OF prog ex] by blast
qed

section \<open>The process\<close>

lemma exporter_main_exports:
  assumes options: "parse_options argv = Inr options"
    and source: "env_files (xe_process env) (xo_program_path options) = Some text"
      "parse_program_text text = Inr p"
    and prog: "explorable p (xo_step_bound options)"
  shows "\<exists>naive dpor.
    explore_naive p (xo_max_schedules options) (xo_step_bound options) (xo_memory_model options) = Inr naive \<and>
    explore_dpor p (xo_max_schedules options) (xo_step_bound options) (xo_memory_model options) = Inr dpor \<and>
    (if agreeing naive dpor
     then \<exists>exported out. export_run env options = Inr exported \<and> read_json out = Some exported \<and>
       exporter_main env argv = Exited out [] 0
     else exporter_main env argv =
       Exited [] (''showcase export failed: '' @ disagreement naive dpor @ endl) 2)"
proof -
  let ?b = "xo_step_bound options" and ?m = "xo_memory_model options" and ?mx = "xo_max_schedules options"
  have positive: "0 < ?b" "0 < ?mx" using options_positive [OF options] by simp_all
  have parsed: "parse_program_file (xe_process env) (xo_program_path options) = Inr p"
    using source by (simp add: parse_program_file_def open_input_file_def)
  have "names_apart p" using parse_program_sound [OF source(2)] by (rule program_ok_typed)
  then have made: "make_model_checker p ?b ?m = Inr (checker p ?b ?m)"
    using positive(1) by (rule made_of_bound)
  obtain naive dpor where runs: "explore_naive p ?mx ?b ?m = Inr naive" "explore_dpor p ?mx ?b ?m = Inr dpor"
    and export: "if agreeing naive dpor then \<exists>j. export_run env options = Inr j \<and> json_ok j
      else export_run env options = Inl (Runtime_Error (disagreement naive dpor))"
    using export_run_returns [OF parsed made prog positive(2)] by blast
  have "\<exists>exported out. export_run env options = Inr exported \<and> read_json out = Some exported \<and>
      exporter_main env argv = Exited out [] 0" if agree: "agreeing naive dpor"
  proof -
    obtain j where j: "export_run env options = Inr j" "json_ok j" using export agree by auto
    have "list_all is_blank newline" by (simp add: newline_def is_blank_def)
    then have "read_json (write_json 0 j @ newline) = Some j" using read_json_written j(2) by blast
    then show ?thesis using j(1) options by (auto simp: exporter_main_def)
  qed
  moreover have "exporter_main env argv =
      Exited [] (''showcase export failed: '' @ disagreement naive dpor @ endl) 2" if "\<not> agreeing naive dpor"
    using export that options by (simp add: exporter_main_def handle_export_exception_def export_failed_def)
  ultimately show ?thesis using runs by auto
qed

end
