(* ===== verification/Front_End.thy ===== *)
theory Front_End
  imports Exporter_Runs Race_Search
begin

text \<open>
  The properties of the program as it is used: files in, a report and an exit status out. They
  compose the parser, the explorers, the replay and the report printer.
\<close>

section \<open>An example\<close>

definition unlines :: "string list \<Rightarrow> string" where
  "unlines ls = concat (map (\<lambda>l. l @ [CHR 0x0A]) ls)"

text \<open>A thread that takes its mutex twice.\<close>

definition relock_file :: string where
  "relock_file = unlines [''# never unlocked'', ''thread:'', ''  lock m'', ''  lock m'']"

definition relock :: program where
  "relock = [[mutex_action Lock ''m'', mutex_action Lock ''m'']]"

lemma relock_parsed: "parse_program_text relock_file = Inr relock"
  by code_simp

lemma relock_explorable: "explorable relock kDefaultStepBound"
  by code_simp

definition relock_environment :: environment where
  "relock_environment =
     \<lparr>env_files = (\<lambda>path. if path = ''relock.dpor'' then Some relock_file
        else if path = ''relock.schedule'' then Some (print_numeric_step ''  '' (Step 0 0 None)) else None),
      env_range_text = ''vector''\<rparr>"

section \<open>Files\<close>

text \<open>
  C25. A parsed program is well typed: registers are in range, no action is a flush, the names
  of different kinds of objects are apart, so that the constructor of the model checker accepts
  the program, every barrier waits for somebody, and every join, spawn and branch target exists.
\<close>

theorem parsed_programs_are_typed:
  assumes "parse_program_text text = Inr p"
  shows "registers_ok p \<and> source_kinds_ok p \<and>
    (\<forall>b m. 0 < b \<longrightarrow> (\<exists>mc. make_model_checker p b m = Inr mc)) \<and>
    (\<forall>t<length p. \<forall>a\<in>set (p ! t).
       (a_kind a = BarrierWait \<longrightarrow> 0 < a_parties a) \<and>
       (a_kind a = Join \<longrightarrow> a_target a < length p) \<and>
       (a_kind a = Spawn \<longrightarrow> a_target a < length p \<and> a_target a \<noteq> t) \<and>
       (a_kind a = BranchNonzero \<longrightarrow> resolve_label p t (a_label a) \<noteq> None))"
  using program_ok_typed [OF parse_program_sound [OF assms]] made_of_bound by blast

lemma parsed_programs_are_typed_witness: "registers_ok relock \<and> source_kinds_ok relock"
  using parsed_programs_are_typed [OF relock_parsed] by blast

text \<open>
  C26. Printing and parsing are inverse on the programs that files denote: a program is
  \<open>program_ok\<close> exactly when the text the printer writes for it is parsed back as that program,
  and \<open>program_ok\<close> holds exactly of the programs the parser returns for some text.
\<close>

theorem printed_programs_reparse:
  "(program_ok p \<longleftrightarrow> parse_program_text (render_program p) = Inr p) \<and>
   (program_ok p \<longleftrightarrow> (\<exists>text. parse_program_text text = Inr p))"
  using parse_program_exact parse_program_sound by blast

text \<open>
  C27. The program parser fails only with a \<open>ParseError\<close>, and the error names a line of the
  file; it names line 0 only to say that the file declares no thread.
\<close>

theorem parse_errors_name_lines:
  assumes "parse_program_text text = Inl e"
  shows "\<exists>n msg. e = Parse_Error n msg \<and> n \<le> length (get_lines text) \<and>
    (n = 0 \<longrightarrow> msg = ''program declares no threads'')"
  using assms by (rule parse_program_fails)

lemma parse_errors_name_lines_witness:
  "\<exists>n msg. parse_program_text (unlines [''thread:'', ''  lock'']) = Inl (Parse_Error n msg) \<and> n \<le> 2"
proof -
  have "case parse_program_text (unlines [''thread:'', ''  lock'']) of Inl _ \<Rightarrow> True | Inr _ \<Rightarrow> False"
    by code_simp
  then obtain e where e: "parse_program_text (unlines [''thread:'', ''  lock'']) = Inl e"
    by (auto split: sum.splits)
  have "length (get_lines (unlines [''thread:'', ''  lock''])) = 2" by code_simp
  then show ?thesis using parse_errors_name_lines [OF e] e by auto
qed

text \<open>
  C28. The schedule block of a report is a schedule file: the lines after \<open>schedule:\<close> are read
  back as the schedule that was printed, flush steps with their address id included.
\<close>

theorem printed_schedules_reparse:
  assumes "list_all step_in_range sch"
  shows "\<exists>body. print_schedule sch = ''schedule:'' @ endl @ body \<and> parse_schedule_text body = Inr sch"
  using parse_printed_schedule [OF assms] by (simp add: print_schedule_def)

lemma printed_schedules_reparse_witness:
  "\<exists>body. print_schedule [Step 1 0 None, Step 0 kFlushActionIndex (Some 3)] = ''schedule:'' @ endl @ body \<and>
     parse_schedule_text body = Inr [Step 1 0 None, Step 0 kFlushActionIndex (Some 3)]"
proof -
  have "list_all step_in_range [Step 1 0 None, Step 0 kFlushActionIndex (Some 3)]"
    by (simp add: step_in_range_def kMaxU32_def kFlushActionIndex_def)
  then show ?thesis by (rule printed_schedules_reparse)
qed

section \<open>Reports and statuses\<close>


text \<open>
  C30. \<open>dpor check\<close> completes: on a readable program file that parses and whose size is within
  the counters, it explores, prints the whole report, writes nothing to the error stream and
  exits with status 1 exactly when the exploration found a bug, else with 0. No exception and no
  failed assertion is possible.
\<close>

theorem check_completes:
  assumes "2 \<le> length argv" "argv ! 1 = ''check''" "parse_check_command argv = Inr cmd"
    and "env_files env (cc_program_path cmd) = Some text" "parse_program_text text = Inr p"
    and "explorable p (cc_step_bound cmd)"
  shows "\<exists>r. explored cmd p r \<and>
    dpor_main env argv =
      Exited (fst (print_report p r (cc_memory_model cmd) (cc_step_bound cmd))) []
        (if has_bug r then 1 else 0)"
  using run_check_reports [OF assms(4-6) check_command_bound [OF assms(3)]] main_check [OF assms(1-3)]
  by (auto simp: finish_command_def)

definition naive_check :: check_command where
  "naive_check = \<lparr>cc_program_path = ''relock.dpor'', cc_explorer = Naive, cc_max_schedules = 100000,
     cc_step_bound = kDefaultStepBound, cc_memory_model = SC\<rparr>"

lemma check_completes_witness:
  "\<exists>r. explored naive_check relock r \<and>
     dpor_main relock_environment [''dpor'', ''check'', ''relock.dpor'', ''--explorer'', ''naive''] =
       Exited (fst (print_report relock r SC kDefaultStepBound)) [] (if has_bug r then 1 else 0)"
proof -
  have cmd: "parse_check_command [''dpor'', ''check'', ''relock.dpor'', ''--explorer'', ''naive''] = Inr naive_check"
    by (simp add: parse_check_command_def flag_value_def parse_explorer_def naive_check_def)
  have "env_files relock_environment (cc_program_path naive_check) = Some relock_file"
    by (simp add: relock_environment_def naive_check_def)
  from check_completes [OF _ _ cmd this relock_parsed] relock_explorable
  show ?thesis by (simp add: naive_check_def)
qed

text \<open>
  C31. What \<open>check\<close> reports, \<open>replay\<close> shows: when a check under the default step bound found a
  bug, the lines its report prints after \<open>schedule:\<close>, written to a schedule file, make
  \<open>dpor replay\<close> print a report with a bug and exit with status 1.
\<close>

theorem check_then_replay:
  assumes "explored cmd p r" "bug_schedule r = Some sch" "cc_step_bound cmd = kDefaultStepBound"
    and "explorable p kDefaultStepBound" "ids_fit p"
    and "2 \<le> length argv" "argv ! 1 = ''replay''" "parse_replay_command argv = Inr rc"
    and "rc_memory_model rc = cc_memory_model cmd"
    and "env_files env (rc_program_path rc) = Some text" "parse_program_text text = Inr p"
    and "env_files env (rc_schedule_path rc) = Some body" "print_schedule sch = ''schedule:'' @ endl @ body"
  shows "\<exists>q. replay_schedule p sch kDefaultStepBound (cc_memory_model cmd) = Inr q \<and> has_bug q \<and>
    dpor_main env argv =
      Exited (fst (print_report p q (cc_memory_model cmd) kDefaultStepBound)) [] 1"
proof -
  have "bug_replays p (cc_memory_model cmd) kDefaultStepBound r"
    using bug_replays_explored(1,2) [OF assms(4)] assms(1,3) by (auto simp: explored_def split: if_splits)
  moreover have "body = concat (map (print_numeric_step ''  '') sch)"
    using assms(13) by (simp add: print_schedule_def)
  ultimately show ?thesis
    using replay_of_report [OF assms(4,5) _ assms(2,10,11) _ assms(9)] assms(12) main_replay [OF assms(6-8)]
    by (auto simp: finish_command_def)
qed

lemma check_then_replay_witness:
  "\<exists>printed. dpor_main relock_environment
     [''dpor'', ''replay'', ''relock.dpor'', ''--schedule'', ''relock.schedule''] = Exited printed [] 1"
proof -
  have "case explore_naive relock 100000 kDefaultStepBound SC of
      Inl _ \<Rightarrow> False | Inr r \<Rightarrow> bug_schedule r = Some [Step 0 0 None]"
    by code_simp
  then obtain r where r: "explored naive_check relock r" "bug_schedule r = Some [Step 0 0 None]"
    by (auto simp: explored_def naive_check_def split: sum.splits)
  have fit: "ids_fit relock" by code_simp
  let ?argv = "[''dpor'', ''replay'', ''relock.dpor'', ''--schedule'', ''relock.schedule'']"
  let ?rc = "\<lparr>rc_program_path = ''relock.dpor'', rc_schedule_path = ''relock.schedule'', rc_memory_model = SC\<rparr>"
  have rc: "parse_replay_command ?argv = Inr ?rc"
    by (simp add: parse_replay_command_def flag_value_def)
  have files: "env_files relock_environment (rc_program_path ?rc) = Some relock_file"
      "env_files relock_environment (rc_schedule_path ?rc) = Some (print_numeric_step ''  '' (Step 0 0 None))"
    by (simp_all add: relock_environment_def)
  have "print_schedule [Step 0 0 None] = ''schedule:'' @ endl @ print_numeric_step ''  '' (Step 0 0 None)"
    by (simp add: print_schedule_def)
  from check_then_replay [OF r _ _ fit _ _ rc _ files(1) relock_parsed files(2) this] relock_explorable
  show ?thesis by (auto simp: naive_check_def)
qed


text \<open>
  C32. A clean verdict of the naive explorer can be trusted: when \<open>dpor check --explorer naive\<close>
  reports \<open>clean\<close> without the note that the schedule cap was reached, no run of the program, of
  any length, deadlocks or meets a model error or a failed assertion; and if the program has no
  backward branch, none has a data race.
\<close>

theorem clean_checks_are_sound:
  assumes "explored cmd p r" "cc_explorer cmd = Naive"
    and "explorable p (cc_step_bound cmd)"
    and "verdict_of r = ''clean''" "\<not> exploration_capped r"
    and "run p steps (initial_state p (cc_memory_model cmd)) = Some s"
  shows "(enabled_steps p s = [] \<longrightarrow> all_finished p s) \<and>
    (\<forall>x s' q. x \<in> set (enabled_steps p s) \<longrightarrow> execute_enabled_step p s x = Inr (s', q) \<longrightarrow>
       sr_error q = None \<and> sr_assertion q = None) \<and>
    (\<not> requires_cycle_detection p \<longrightarrow> \<not> can_race p (cc_memory_model cmd))"
proof -
  have r: "explore_naive p (cc_max_schedules cmd) (cc_step_bound cmd) (cc_memory_model cmd) = Inr r"
    using assms(1,2) by (simp add: explored_def)
  have clean: "first_deadlock r = None" "first_error r = None" "first_assertion r = None"
      "bound_exceeded_executions r = 0" "first_race r = None"
    using assms(4) by (auto simp: verdict_of_def split: if_splits)
  have "indexable p" using assms(3) by (simp add: explorable_def)
  then have "\<not> can_race p (cc_memory_model cmd)" if "\<not> requires_cycle_detection p"
    using can_race_reports [OF _ that] naive_reports_race [OF assms(3) that r assms(5) clean(4)] clean(5)
    by blast
  then show ?thesis
    using explore_naive_complete [OF assms(3) r assms(5) clean(4) assms(6)] clean by blast
qed

lemma clean_checks_are_sound_witness:
  "\<exists>r. explored (naive_check\<lparr>cc_step_bound := 2\<rparr>) [[yield_action]] r \<and>
     (\<forall>x s' q. x \<in> set (enabled_steps [[yield_action]] (initial_state [[yield_action]] SC)) \<longrightarrow>
        execute_enabled_step [[yield_action]] (initial_state [[yield_action]] SC) x = Inr (s', q) \<longrightarrow>
        sr_error q = None)"
proof -
  let ?cmd = "naive_check\<lparr>cc_step_bound := 2\<rparr>" and ?p = "[[yield_action]]"
  have "case explore_naive ?p 100000 2 SC of
      Inl _ \<Rightarrow> False | Inr r \<Rightarrow> verdict_of r = ''clean'' \<and> \<not> exploration_capped r"
    by code_simp
  then obtain r where r: "explored ?cmd ?p r" "verdict_of r = ''clean''" "\<not> exploration_capped r"
    by (auto simp: explored_def naive_check_def split: sum.splits)
  have "indexable ?p \<and> registers_ok ?p \<and> source_kinds_ok ?p \<and> \<not> requires_cycle_detection ?p \<and>
      length ?p * 2 < counter_limit" by code_simp
  then have prog: "explorable ?p 2" by (simp add: explorable_def)
  have "cc_explorer ?cmd = Naive" "cc_memory_model ?cmd = SC" "cc_step_bound ?cmd = 2"
    by (simp_all add: naive_check_def)
  then show ?thesis
    using clean_checks_are_sound [OF r(1) _ _ r(2,3), of "[]" "initial_state ?p SC"] prog r(1) by auto
qed

text \<open>
  C33. Two readers of sizes. The one of \<open>dpor\<close> reads modulo \<open>2 ^ 64\<close>: a token is accepted exactly
  when it is a nonempty string of digits whose value is not a multiple of \<open>2 ^ 64\<close>, and it stands
  for its remainder, because the accumulator of the overflow check has the width of the limit it
  is compared with, so that the check never fires. The one of the exporter is exact: it accepts
  the positive numbers below \<open>2 ^ 64\<close> and nothing else.
\<close>

theorem sizes_are_read_modulo:
  "(parse_size_token tok d = Inr n \<longleftrightarrow>
      tok \<noteq> [] \<and> list_all is_digit tok \<and> n = decimal tok mod 2 ^ 64 \<and> n \<noteq> 0) \<and>
   (parse_size tok d = Inr n \<longleftrightarrow>
      tok \<noteq> [] \<and> list_all is_digit tok \<and> n = decimal tok \<and> 0 < n \<and> n < 2 ^ 64)"
  using parse_size_exact exporter_size_exact by blast

text \<open>
  C34. What \<open>dpor check\<close> refuses it explains on the error stream, prints nothing else, and exits
  with status 2: wrong options, a file that cannot be opened, and a file that does not parse,
  whose error message carries the line.
\<close>

theorem check_refuses:
  assumes "2 \<le> length argv" "argv ! 1 = ''check''"
  shows "(\<forall>e. parse_check_command argv = Inl e \<longrightarrow>
      (\<exists>msg. dpor_main env argv = Exited [] (msg @ endl) 2)) \<and>
    (\<forall>cmd. parse_check_command argv = Inr cmd \<longrightarrow> env_files env (cc_program_path cmd) = None \<longrightarrow>
      dpor_main env argv = Exited [] (''could not open program file'' @ endl) 2) \<and>
    (\<forall>cmd source e. parse_check_command argv = Inr cmd \<longrightarrow>
      env_files env (cc_program_path cmd) = Some source \<longrightarrow> parse_program_text source = Inl e \<longrightarrow>
      (\<exists>n msg. e = Parse_Error n msg \<and> dpor_main env argv = Exited [] (print_parse_error n msg) 2))"
proof (intro conjI allI impI)
  show "\<exists>msg. dpor_main env argv = Exited [] (msg @ endl) 2" if "parse_check_command argv = Inl e" for e
    using main_usage_errors [of argv e env] assms that by blast
  show "dpor_main env argv = Exited [] (''could not open program file'' @ endl) 2"
    if "parse_check_command argv = Inr cmd" "env_files env (cc_program_path cmd) = None" for cmd
    using main_check [OF assms that(1)] unreadable_program [OF that(2)]
    by (simp add: run_check_def Let_def finish_command_def handle_exception_def)
  show "\<exists>n msg. e = Parse_Error n msg \<and> dpor_main env argv = Exited [] (print_parse_error n msg) 2"
    if "parse_check_command argv = Inr cmd" "env_files env (cc_program_path cmd) = Some source"
      "parse_program_text source = Inl e" for cmd source e
    using main_check [OF assms that(1)] rejected_program [OF that(2,3)]
    by (auto simp: run_check_def Let_def finish_command_def handle_exception_def)
qed

lemma check_refuses_witness:
  "dpor_main relock_environment [''dpor'', ''check'', ''other.dpor''] =
     Exited [] (''could not open program file'' @ endl) 2"
proof -
  let ?argv = "[''dpor'', ''check'', ''other.dpor'']"
  obtain cmd where cmd: "parse_check_command ?argv = Inr cmd" "cc_program_path cmd = ''other.dpor''"
    by (simp add: parse_check_command_def)
  then have "env_files relock_environment (cc_program_path cmd) = None"
    by (simp add: relock_environment_def)
  then show ?thesis using check_refuses [of ?argv relock_environment] cmd(1) by auto
qed

section \<open>Exports\<close>

text \<open>
  C37. An export succeeds or announces why not. On a readable program file that parses and whose
  size is within the counters, when both explorations are complete and agree on which kinds of
  bugs exist, the exporter prints a JSON text that reads back as the exported value and exits with
  0; otherwise it names the cut exploration or the disagreement and exits with 2. No check on the
  evidence, the collected schedules or the tree can fail, no exception is possible.
\<close>

theorem export_completes:
  assumes "parse_options argv = Inr options"
    and "env_files (xe_process env) (xo_program_path options) = Some text"
    and "parse_program_text text = Inr p" "explorable p (xo_step_bound options)"
  shows "\<exists>naive dpor.
    explore_naive p (xo_max_schedules options) (xo_step_bound options) (xo_memory_model options) = Inr naive \<and>
    explore_dpor p (xo_max_schedules options) (xo_step_bound options) (xo_memory_model options) = Inr dpor \<and>
    (if agreeing naive dpor
     then \<exists>exported out. export_run env options = Inr exported \<and> read_json out = Some exported \<and>
       exporter_main env argv = Exited out [] 0
     else exporter_main env argv =
       Exited [] (''showcase export failed: '' @ disagreement naive dpor @ endl) 2)"
  by (rule exporter_main_exports [OF assms])

definition export_arguments :: "string list" where
  "export_arguments =
     [''exporter'', ''--program'', ''relock.dpor'', ''--program-id'', ''relock'', ''--step-bound'', ''3'']"

lemma export_completes_witness:
  "\<exists>exported out. read_json out = Some exported \<and>
     exporter_main \<lparr>xe_process = relock_environment, xe_naive_us = 7, xe_dpor_us = 5\<rparr> export_arguments =
       Exited out [] 0"
proof -
  let ?env = "\<lparr>xe_process = relock_environment, xe_naive_us = 7, xe_dpor_us = 5\<rparr>"
  let ?options = "\<lparr>xo_program_path = ''relock.dpor'', xo_program_id = ''relock'', xo_memory_model = SC,
      xo_step_bound = 3, xo_max_schedules = 100000\<rparr>"
  have options: "parse_options export_arguments = Inr ?options" by code_simp
  have found: "env_files (xe_process ?env) (xo_program_path ?options) = Some relock_file"
    by (simp add: relock_environment_def)
  have prog: "explorable relock (xo_step_bound ?options)" by code_simp
  have "case (explore_naive relock 100000 3 SC, explore_dpor relock 100000 3 SC) of
      (Inr naive, Inr dpor) \<Rightarrow> agreeing naive dpor | _ \<Rightarrow> False"
    by code_simp
  then have "agreeing naive dpor"
    if "explore_naive relock 100000 3 SC = Inr naive" "explore_dpor relock 100000 3 SC = Inr dpor"
    for naive dpor using that by simp
  then show ?thesis using export_completes [OF options found relock_parsed prog] by fastforce
qed

text \<open>
  C38. The exported tree accounts for every execution. When the checks of an export have passed,
  the collected schedules of the naive search are all executions; the tree is built and its check
  that pruned and explored schedules add up holds; its expanded nodes are the prefixes of the
  schedules that DPOR explored, every other execution lies below exactly one pruned node, and the
  counts of a node are the numbers of executions and of explored schedules below it.
\<close>

theorem exported_tree_accounts:
  assumes "explorable p b" and "explore_naive p mx b m = Inr naive" "explore_dpor p mx b m = Inr dpor"
    and "agreed_schedules \<lparr>mc_program = p, mc_step_bound = b, mc_memory_model = m\<rparr> mx naive dpor = Inr (ns, ds)"
  shows "set ns = {sch. complete_schedule p m b sch} \<and>
    (\<exists>td. build_tree \<lparr>mc_program = p, mc_step_bound = b, mc_memory_model = m\<rparr> ns ds (length ns - length ds) =
       Inr td \<and> tree_describes p m b ds td)"
  using agreed_tree [OF assms] by blast

text \<open>Two threads that do not interfere: DPOR explores one of the two executions.\<close>

definition two_yields :: program where
  "two_yields = [[yield_action], [yield_action]]"

lemma exported_tree_accounts_witness:
  "\<exists>ns ds td. length ns = 2 \<and> length ds = 1 \<and>
     build_tree \<lparr>mc_program = two_yields, mc_step_bound = 3, mc_memory_model = SC\<rparr> ns ds 1 = Inr td \<and>
     tree_describes two_yields SC 3 ds td"
proof -
  let ?mc = "\<lparr>mc_program = two_yields, mc_step_bound = 3, mc_memory_model = SC\<rparr>"
  have prog: "explorable two_yields 3" by code_simp
  have "case (explore_naive two_yields 9 3 SC, explore_dpor two_yields 9 3 SC) of
      (Inr naive, Inr dpor) \<Rightarrow>
        (case agreed_schedules ?mc 9 naive dpor of
           Inl _ \<Rightarrow> False | Inr (ns, ds) \<Rightarrow> length ns = 2 \<and> length ds = 1)
    | _ \<Rightarrow> False"
    by code_simp
  then obtain naive dpor ns ds where runs: "explore_naive two_yields 9 3 SC = Inr naive"
      "explore_dpor two_yields 9 3 SC = Inr dpor" "agreed_schedules ?mc 9 naive dpor = Inr (ns, ds)"
    and counts: "length ns = 2" "length ds = 1"
    by (auto split: sum.splits)
  have "\<exists>td. build_tree ?mc ns ds (length ns - length ds) = Inr td \<and> tree_describes two_yields SC 3 ds td"
    using exported_tree_accounts [OF prog runs] by blast
  moreover have "length ns - length ds = 1" using counts by simp
  ultimately show ?thesis using counts by metis
qed

text \<open>
  C39. The number of prefix states that an export gives for a run, computed from the sorted
  schedules by common prefixes with the predecessor, is the number of distinct prefixes of the
  schedules, the empty one included, whatever the order of the list and with duplicates; and the
  depth is that of the longest schedule.
\<close>

theorem prefix_states_are_distinct_prefixes:
  "prefix_state_count ss = card {q. q = [] \<or> (\<exists>sch\<in>set ss. prefix q sch)} \<and>
   max_depth ss = Max (insert 0 (length ` set ss))"
  using prefix_states greatest_depth by blast

text \<open>
  C40. What the JSON writer prints reads back: a value whose numbers are decimal integers, printed
  at any indentation and followed by blanks, is what a reader of JSON makes of the text, whatever
  bytes its strings and keys hold; quotes, backslashes and control characters are escaped.
\<close>

theorem written_json_reads_back:
  assumes "json_ok v" "list_all is_blank bs"
  shows "read_json (write_json d v @ bs) = Some v"
  using assms by (rule read_json_written)

lemma written_json_reads_back_witness:
  "read_json (write_json 0 (JObject [(''a'', JString [CHR 0x22, CHR 0x0A, CHR 0x5C]), (''b'', JArray [JNumber ''7''])])
     @ newline) =
   Some (JObject [(''a'', JString [CHR 0x22, CHR 0x0A, CHR 0x5C]), (''b'', JArray [JNumber ''7''])])"
proof -
  have "json_ok (JObject [(''a'', JString [CHR 0x22, CHR 0x0A, CHR 0x5C]), (''b'', JArray [JNumber ''7''])])"
    "list_all is_blank newline" by code_simp+
  then show ?thesis by (rule written_json_reads_back)
qed

end
