(* ===== verification/Locality.thy ===== *)
theory Locality
  imports Bisimulation
begin

text \<open>
  What a step leaves alone. Outside of the locations that a step writes, the state after it
  agrees with the state before it.
\<close>

section \<open>Results that leave locations alone\<close>

definition leaves :: "location set \<Rightarrow> exec_state \<Rightarrow> step_result \<Rightarrow> bool" where
  "leaves L s m \<longleftrightarrow> (\<forall>s' r. m = Inr (s', r) \<longrightarrow> same_on L s' s)"

named_theorems leaves_intros \<open>introduction rules for results that leave locations alone\<close>

lemma leaves_bind [leaves_intros]:
  "(\<And>x. m = Inr x \<Longrightarrow> leaves L s (f x)) \<Longrightarrow> leaves L s (res_bind m f)"
  by (cases m) (auto simp: leaves_def)

lemma leaves_guarded [leaves_intros]: "(b \<Longrightarrow> leaves L s m) \<Longrightarrow> leaves L s (guarded b e m)"
  by (cases b) (auto simp: leaves_def)

lemma leaves_finish [leaves_intros]: "same_on L s' s \<Longrightarrow> leaves L s (finish s')"
  by (auto simp: leaves_def finish_def)

lemma leaves_error [leaves_intros]: "same_on L s' s \<Longrightarrow> leaves L s (finish_error s' e)"
  by (auto simp: leaves_def finish_error_def)

lemma leaves_race [leaves_intros]: "same_on L (fst x) s \<Longrightarrow> leaves L s (finish_race x)"
  by (auto simp: leaves_def finish_race_def)

lemma leaves_Inl [simp]: "leaves L s (Inl e)"
  by (simp add: leaves_def)

lemma leaves_Inr [simp]: "leaves L s (Inr (s', r)) \<longleftrightarrow> same_on L s' s"
  by (simp add: leaves_def)

lemma leaves_if [leaves_intros]:
  "(b \<Longrightarrow> leaves L s m) \<Longrightarrow> (\<not> b \<Longrightarrow> leaves L s m') \<Longrightarrow> leaves L s (if b then m else m')"
  by simp

section \<open>Every case of the step function\<close>

lemma leaves_local:
  assumes "Control (s_thread step) \<notin> L"
  shows "leaves L s (exec_set p s step a)" "leaves L s (exec_branch p s step a)"
    "leaves L s (exec_assert p s step a)" "leaves L s (exec_local p s step)"
    "leaves L s (exec_join p s step a)" "leaves L s (exec_read p s step a)"
    "leaves L s (exec_atomic_load p s step a)"
  unfolding exec_set_def exec_branch_def exec_assert_def exec_local_def exec_join_def exec_read_def
    exec_atomic_load_def Let_def
  using assms
  by (intro leaves_intros; auto simp: unseen_write_register finish_def finish_error_def split: option.split)+

lemma leaves_mutex:
  assumes "Control (s_thread step) \<notin> L"
  shows "Owner (a_mutex a) \<notin> L \<Longrightarrow> leaves L s (exec_lock p s step a)"
    "Owner (a_mutex a) \<notin> L \<Longrightarrow> leaves L s (exec_unlock p s step a)"
    "mlookup (st_mutex_owner s) (a_mutex a) = None \<Longrightarrow> Owner (a_mutex a) \<notin> L \<Longrightarrow>
     leaves L s (exec_try_lock p s step a)"
    "mlookup (st_mutex_owner s) (a_mutex a) \<noteq> None \<Longrightarrow> leaves L s (exec_try_lock p s step a)"
  unfolding exec_lock_def exec_unlock_def exec_try_lock_def Let_def
  using assms by (intro leaves_intros; auto simp: unseen_write_register)+

lemma leaves_spawn:
  assumes "Control (s_thread step) \<notin> L"
    and "spawn_target_is_invalid p (s_thread step) a \<or> st_started s ! a_target a \<or>
      (Started (a_target a) \<notin> L \<and> Control (a_target a) \<notin> L)"
  shows "leaves L s (exec_spawn p s step a)"
  unfolding exec_spawn_def Let_def
  using assms by (intro leaves_intros; auto)

lemma leaves_rwlock:
  assumes "Control (s_thread step) \<notin> L"
  shows "Reader (a_rwlock a) (s_thread step) \<notin> L \<Longrightarrow> leaves L s (exec_rlock p s step a)"
    "Reader (a_rwlock a) (s_thread step) \<notin> L \<Longrightarrow> leaves L s (exec_runlock p s step a)"
    "Writer (a_rwlock a) \<notin> L \<Longrightarrow> range (Reader (a_rwlock a)) \<inter> L = {} \<Longrightarrow>
     leaves L s (exec_wlock p s step a) \<and> leaves L s (exec_upgrade p s step a) \<and>
     leaves L s (exec_wunlock p s step a) \<and> leaves L s (exec_downgrade p s step a)"
proof -
  note set = same_on_trans [OF unseen_rwlock]
  show "leaves L s (exec_rlock p s step a)" if "Reader (a_rwlock a) (s_thread step) \<notin> L"
    unfolding exec_rlock_def Let_def using that assms
    by (intro leaves_intros set) (auto simp: rw_view_def Let_def)
  show "leaves L s (exec_runlock p s step a)" if "Reader (a_rwlock a) (s_thread step) \<notin> L"
    unfolding exec_runlock_def Let_def using that assms
    by (intro leaves_intros set) (auto simp: rw_view_def Let_def)
  assume "Writer (a_rwlock a) \<notin> L" "range (Reader (a_rwlock a)) \<inter> L = {}"
  then show "leaves L s (exec_wlock p s step a) \<and> leaves L s (exec_upgrade p s step a) \<and>
     leaves L s (exec_wunlock p s step a) \<and> leaves L s (exec_downgrade p s step a)"
    unfolding exec_wlock_def exec_upgrade_def exec_wunlock_def exec_downgrade_def Let_def
    using assms by (intro conjI leaves_intros set) auto
qed

lemma leaves_sem:
  assumes "Control (s_thread step) \<notin> L" "Permits (a_semaphore a) \<notin> L"
  shows "leaves L s (exec_sem_post p s step a)" "leaves L s (exec_sem_wait p s step a)"
  unfolding exec_sem_post_def exec_sem_wait_def Let_def
  using assms by (simp_all add: leaves_finish leaves_guarded split: option.split)


lemma leaves_fold:
  assumes "res_fold f xs s = Inr s'" "\<And>x s s'. x \<in> set xs \<Longrightarrow> f x s = Inr s' \<Longrightarrow> same_on L s' s"
  shows "same_on L s' s"
  using assms
proof (induction xs arbitrary: s)
  case (Cons x xs)
  then obtain s1 where "f x s = Inr s1" "res_fold f xs s1 = Inr s'" by (auto simp: res_simps)
  then show ?case using Cons same_on_trans by (metis list.set_intros)
qed simp

lemma leaves_release_participant:
  "release_participant p a k c u s = Inr s' \<Longrightarrow> Control u \<notin> L \<Longrightarrow> same_on L s' s"
  unfolding release_participant_def by (simp only: res_simps) auto

lemma leaves_barrier:
  assumes "Control (s_thread step) \<notin> L" "Arrived (a_barrier a) \<notin> L"
    and "\<And>b u. mlookup (st_barriers s) (a_barrier a) = Some b \<Longrightarrow> omember u (arrivals b) \<Longrightarrow>
      Control u \<notin> L"
  shows "leaves L s (exec_barrier p s step a)"
proof (cases "mlookup (st_barriers s) (a_barrier a)")
  case None
  then show ?thesis by (simp add: exec_barrier_def Let_def)
next
  case (Some b)
  have controls: "Control u \<notin> L" if "u \<in> set (mkeys (oinsert (s_thread step) (arrivals b)))" for u
    using assms(1,3) Some that by auto
  have released: "same_on L s2 s1"
    if "res_fold (release_participant p a k c) (mkeys (oinsert (s_thread step) (arrivals b))) s1 = Inr s2"
    for k c s1 s2
    by (rule leaves_fold [OF that]) (rule leaves_release_participant, assumption, erule controls)
  show ?thesis
    unfolding exec_barrier_def Let_def Some option.case
    using assms(1,2)
    by (intro leaves_intros; simp) (drule released, erule same_on_trans, simp)
qed

lemma leaves_wake_waiter:
  "wake_waiter p u w s = Inr s' \<Longrightarrow> Control w \<notin> L \<Longrightarrow> same_on L s' s"
  by (auto simp: wake_waiter_def Let_def res_simps unseen_write_register split: if_splits)

lemma leaves_wakes:
  assumes "Control (s_thread step) \<notin> L" "Waiters (a_condition a) \<notin> L"
    and "Control ` set (mget [] (st_waiters s) (a_condition a)) \<inter> L = {}"
  shows "leaves L s (exec_signal p s step a)" "leaves L s (exec_broadcast p s step a)"
proof -
  have set: "same_on L (set_waiters (advance_pc p s (s_thread step)) (a_condition a) ws) s" for ws
    using assms(1,2) by simp
  have woken: "Control w \<notin> L" if "w \<in> set (mget [] (st_waiters s) (a_condition a))" for w
    using assms(3) that by blast
  show "leaves L s (exec_signal p s step a)"
    unfolding exec_signal_def Let_def
    using woken by (auto intro!: leaves_intros same_on_trans [OF leaves_wake_waiter set] set split: list.split)
  show "leaves L s (exec_broadcast p s step a)"
    unfolding exec_broadcast_def Let_def
    by (intro leaves_intros, rule same_on_trans [OF leaves_fold set], simp)
      (rule leaves_wake_waiter, assumption, rule woken, simp)
qed

lemma leaves_wait:
  assumes "Control (s_thread step) \<notin> L" "Owner (a_mutex a) \<notin> L"
    "st_phase s ! s_thread step = Woken \<or> Waiters (a_condition a) \<notin> L"
  shows "leaves L s (exec_wait p s step a)"
  unfolding exec_wait_def Let_def remove_waiter_def insert_waiter_def
  using assms by (intro leaves_intros; auto simp: res_simps unseen_write_register)

lemma leaves_atomics:
  assumes "Control (s_thread step) \<notin> L" "a_address a = [] \<or> Cell (a_address a) \<notin> L"
  shows "leaves L s (exec_atomic_store p s step a)" "leaves L s (exec_atomic_rmw p s step a)"
    "leaves L s (exec_cas p s step a)"
  unfolding exec_atomic_store_def exec_atomic_rmw_def exec_cas_def Let_def
  using assms by (intro leaves_intros; auto simp: unseen_write_register)+

lemma leaves_commit: "Cell x \<notin> L \<Longrightarrow> leaves L s (commit_store s step x v)"
  unfolding commit_store_def Let_def by (intro leaves_intros) simp

lemma leaves_trans: "same_on L s t \<Longrightarrow> leaves L s m \<Longrightarrow> leaves L t m"
  unfolding leaves_def using same_on_trans by blast

lemma leaves_write:
  assumes "Control (s_thread step) \<notin> L"
    "a_address a \<noteq> [] \<Longrightarrow> st_model s = SC \<Longrightarrow> Cell (a_address a) \<notin> L"
    "a_address a \<noteq> [] \<Longrightarrow> st_model s = TSO \<Longrightarrow> Buffered (s_thread step) \<notin> L"
    "a_address a \<noteq> [] \<Longrightarrow> st_model s = PSO \<Longrightarrow> Pending (s_thread step) (a_address a) \<notin> L"
  shows "leaves L s (exec_write p s step a)"
proof -
  have adv: "same_on L (advance_pc p s (s_thread step)) s" using assms(1) by simp
  have model: "st_model (advance_pc p s (s_thread step)) = st_model s" by simp
  show ?thesis
    unfolding exec_write_def Let_def model
    using assms(2-) leaves_trans [OF adv leaves_commit] adv
    by (auto intro!: leaves_intros same_on_trans [OF unseen_pso adv] split: memory_model.split)
qed

lemma leaves_flush:
  assumes "Cell (a_address (effective_action_for_step p s step)) \<notin> L"
    "st_model s = TSO \<Longrightarrow> Buffered (s_thread step) \<notin> L"
    "st_model s \<noteq> TSO \<Longrightarrow> Pending (s_thread step) (a_address (effective_action_for_step p s step)) \<notin> L"
    and "is_flush_step step"
  shows "leaves L s (exec_flush s step)"
proof (cases "st_model s = TSO")
  case True
  then show ?thesis
    using assms unfolding exec_flush_def Let_def
    by (auto simp: effective_action_for_step_def flush_action_for_def
        intro!: leaves_trans [OF _ leaves_commit] split: list.split)
next
  case False
  then show ?thesis
    using assms unfolding exec_flush_def Let_def
    by (auto simp: effective_action_for_step_def flush_action_for_def
        intro!: leaves_guarded leaves_trans [OF _ leaves_commit] unseen_pso split: list.split option.split)
qed

section \<open>The whole step\<close>

text \<open>The locations that an action of a thread changes.\<close>

definition written :: "program \<Rightarrow> exec_state \<Rightarrow> nat \<Rightarrow> action \<Rightarrow> location set" where
  "written p s tid a =
     (if a_kind a = Flush
      then insert (Cell (a_address a)) (if st_model s = TSO then {Buffered tid} else {Pending tid (a_address a)})
      else insert (Control tid)
        (case a_kind a of
           Lock \<Rightarrow> {Owner (a_mutex a)} | Unlock \<Rightarrow> {Owner (a_mutex a)}
         | TryLock \<Rightarrow> if mlookup (st_mutex_owner s) (a_mutex a) = None then {Owner (a_mutex a)} else {}
         | RLock \<Rightarrow> {Reader (a_rwlock a) tid} | RUnlock \<Rightarrow> {Reader (a_rwlock a) tid}
         | WLock \<Rightarrow> insert (Writer (a_rwlock a)) (range (Reader (a_rwlock a)))
         | WUnlock \<Rightarrow> insert (Writer (a_rwlock a)) (range (Reader (a_rwlock a)))
         | Upgrade \<Rightarrow> insert (Writer (a_rwlock a)) (range (Reader (a_rwlock a)))
         | Downgrade \<Rightarrow> insert (Writer (a_rwlock a)) (range (Reader (a_rwlock a)))
         | SemPost \<Rightarrow> {Permits (a_semaphore a)} | SemWait \<Rightarrow> {Permits (a_semaphore a)}
         | BarrierWait \<Rightarrow> insert (Arrived (a_barrier a))
             (case barrier_view s (a_barrier a) of None \<Rightarrow> {}
              | Some b \<Rightarrow> Control ` {u. omember u (snd b)})
         | Spawn \<Rightarrow> if spawn_target_is_invalid p tid a \<or> st_started s ! a_target a then {}
             else {Started (a_target a), Control (a_target a)}
         | Wait \<Rightarrow> insert (Owner (a_mutex a))
             (if st_phase s ! tid = Woken then {} else {Waiters (a_condition a)})
         | TimedWait \<Rightarrow> insert (Owner (a_mutex a))
             (if st_phase s ! tid = Woken then {} else {Waiters (a_condition a)})
         | Signal \<Rightarrow> insert (Waiters (a_condition a))
             (Control ` set (mget [] (st_waiters s) (a_condition a)))
         | Broadcast \<Rightarrow> insert (Waiters (a_condition a))
             (Control ` set (mget [] (st_waiters s) (a_condition a)))
         | Write \<Rightarrow> if a_address a = [] then {}
             else (case st_model s of SC \<Rightarrow> {Cell (a_address a)} | TSO \<Rightarrow> {Buffered tid}
                   | PSO \<Rightarrow> {Pending tid (a_address a)})
         | AtomicStore \<Rightarrow> if a_address a = [] then {} else {Cell (a_address a)}
         | AtomicRmw \<Rightarrow> if a_address a = [] then {} else {Cell (a_address a)}
         | CompareExchange \<Rightarrow> if a_address a = [] then {} else {Cell (a_address a)}
         | _ \<Rightarrow> {}))"

abbreviation written_by :: "program \<Rightarrow> exec_state \<Rightarrow> schedule_step \<Rightarrow> location set" where
  "written_by p s x \<equiv> written p s (s_thread x) (step_action p s x)"

lemma leaves_perform:
  assumes "written p s (s_thread step) a \<inter> L = {}" "a_kind a \<noteq> Flush"
  shows "leaves L s (perform_action p s step a)"
proof -
  have own: "Control (s_thread step) \<notin> L" using assms by (auto simp: written_def)
  have barrier: "leaves L s (exec_barrier p s step a)" if "a_kind a = BarrierWait"
    using assms(1) that
    by (intro leaves_barrier own) (auto simp: written_def barrier_view_def)
  have spawn: "leaves L s (exec_spawn p s step a)" if "a_kind a = Spawn"
    using assms(1) that by (intro leaves_spawn own) (auto simp: written_def split: if_splits)
  have store: "leaves L s (exec_write p s step a)" if "a_kind a = Write"
    using assms(1) that by (intro leaves_write own) (auto simp: written_def)
  note object = assms(1) [unfolded written_def]
  show ?thesis
    using object barrier spawn store own assms(2) leaves_local [OF own] leaves_mutex [OF own]
      leaves_rwlock [OF own] leaves_sem [OF own] leaves_wakes [OF own] leaves_wait [OF own]
      leaves_atomics [OF own]
    by (cases "a_kind a") (simp_all add: perform_action_def split: if_splits)
qed

lemma written_begin_step [simp]: "written p (begin_step s x) tid a = written p s tid a"
  by (simp add: written_def barrier_view_def cong: action_kind.case_cong)

lemma leaves_execute:
  assumes "written_by p s x \<inter> L = {}" "is_flush_step x \<or> a_kind (p ! s_thread x ! s_index x) \<noteq> Flush"
  shows "leaves L s (execute_enabled_step p s x)"
proof (rule leaves_trans)
  show "same_on L (begin_step s x) s" by simp
  show "leaves L (begin_step s x) (execute_enabled_step p s x)"
  proof (cases "is_flush_step x")
    case True
    have flush: "a_kind (effective_action_for_step p s x) = Flush" for s
      by (rule effective_flush_kind [OF True])
    have same: "effective_action_for_step p (begin_step s x) x = effective_action_for_step p s x"
      using True by (cases "s_flush x") (simp_all add: effective_action_for_step_def)
    have "Cell (a_address (effective_action_for_step p s x)) \<notin> L"
      "st_model s = TSO \<Longrightarrow> Buffered (s_thread x) \<notin> L"
      "st_model s \<noteq> TSO \<Longrightarrow> Pending (s_thread x) (a_address (effective_action_for_step p s x)) \<notin> L"
      using assms(1) True by (simp_all add: written_def step_action_def flush)
    then have "leaves L (begin_step s x) (exec_flush (begin_step s x) x)"
      by (intro leaves_flush [of p, OF _ _ _ True]) (simp_all add: same)
    then show ?thesis
      using True by (simp add: execute_enabled_step_def Let_def perform_action_def flush leaves_guarded)
  next
    case False
    then have "leaves L (begin_step s x) (perform_action p (begin_step s x) x (p ! s_thread x ! s_index x))"
      using assms by (intro leaves_perform) (simp_all add: step_action_def)
    then show ?thesis
      using False unfolding execute_enabled_step_def Let_def by (simp only: if_False) (intro leaves_guarded)
  qed
qed

end
