(* ===== verification/Commutation.thy ===== *)
theory Commutation
  imports Locality Independence
begin

text \<open>
  Steps whose footprints are apart commute: each stays enabled after the other, does there what
  it did before, and both orders lead to the same behaviour.
\<close>

section \<open>Enabledness is local\<close>

lemma same_thread_reads:
  assumes "same_on L s t" "thread_reads u \<subseteq> L"
  shows "st_pso_buffers s ! u = st_pso_buffers t ! u" "st_store_buffers s ! u = st_store_buffers t ! u"
    "has_pending_store s u = has_pending_store t u" "is_finished p s u = is_finished p t u"
    "has_next_action p s u = has_next_action p t u" "next_action p s u = next_action p t u"
    "st_started s ! u = st_started t ! u" "st_phase s ! u = st_phase t ! u" "st_pc s ! u = st_pc t ! u"
proof -
  have own: "Control u \<in> L" "Started u \<in> L" "Buffered u \<in> L" "\<And>x. Pending u x \<in> L"
    using assms(2) by (auto simp: thread_reads_def)
  show pso: "st_pso_buffers s ! u = st_pso_buffers t ! u"
    using same_reads(8) [OF assms(1) own(4)] by (rule omap_eqI)
  note reads = same_shapeD [OF assms(1)] same_reads(1,2) [OF assms(1) own(1)] same_reads(3) [OF assms(1) own(2)]
    same_reads(7) [OF assms(1) own(3)] pso
  show "st_store_buffers s ! u = st_store_buffers t ! u" "st_started s ! u = st_started t ! u"
    "st_phase s ! u = st_phase t ! u" "st_pc s ! u = st_pc t ! u"
    by (rule reads)+
  show "has_pending_store s u = has_pending_store t u" "is_finished p s u = is_finished p t u"
    "has_next_action p s u = has_next_action p t u" "next_action p s u = next_action p t u"
    unfolding has_pending_store_def is_finished_def has_next_action_def next_action_def reads by (rule refl)+
qed

lemma same_rw_view:
  assumes "same_on L s t" "Writer n \<in> L" "range (Reader n) \<subseteq> L"
  shows "rw_view s n = rw_view t n"
proof (rule prod_eqI)
  show "snd (rw_view s n) = snd (rw_view t n)" by (rule same_reads(9) [OF assms(1,2)])
  show "fst (rw_view s n) = fst (rw_view t n)"
    by (rule oset_eqI) (rule same_reads(10) [OF assms(1) subsetD [OF assms(3) rangeI]])
qed

text \<open>What the action itself asks for, beside a started thread without stores in its way.\<close>

definition object_enabled :: "program \<Rightarrow> exec_state \<Rightarrow> nat \<Rightarrow> action \<Rightarrow> bool" where
  "object_enabled p s u a =
     (case a_kind a of
        Label \<Rightarrow> False
      | Flush \<Rightarrow> False
      | Lock \<Rightarrow> mlookup (st_mutex_owner s) (a_mutex a) = None
      | RLock \<Rightarrow> rlock_enabled s u (a_rwlock a)
      | WLock \<Rightarrow> wlock_enabled s u (a_rwlock a)
      | Upgrade \<Rightarrow> upgrade_enabled s u (a_rwlock a)
      | SemWait \<Rightarrow> permit_view s (a_semaphore a) > 0
      | BarrierWait \<Rightarrow> barrier_enabled s u a
      | Join \<Rightarrow> join_target_is_invalid p u a \<or> is_finished p s (a_target a)
      | Wait \<Rightarrow> st_phase s ! u \<noteq> Waiting \<and>
          (st_phase s ! u = Woken \<longrightarrow> mlookup (st_mutex_owner s) (a_mutex a) = None)
      | TimedWait \<Rightarrow> st_phase s ! u = Woken \<longrightarrow> mlookup (st_mutex_owner s) (a_mutex a) = None
      | _ \<Rightarrow> True)"

lemma program_action_enabled_iff:
  "is_program_action_enabled p s u \<longleftrightarrow>
     st_started s ! u \<and> has_next_action p s u \<and>
     \<not> (is_buffered_memory_model (st_model s) \<and> is_buffered_ordered_point (next_action p s u) \<and>
        has_pending_store s u) \<and>
     object_enabled p s u (next_action p s u)"
  unfolding is_program_action_enabled_def object_enabled_def Let_def observers_by_view(5)
  by (cases "a_kind (next_action p s u)") simp_all

lemma same_object_enabled:
  assumes "same_on L s t" "reads p s u a \<subseteq> L" "a_kind a \<noteq> Flush"
  shows "object_enabled p s u a = object_enabled p t u a"
proof -
  have own: "thread_reads u \<subseteq> L" using assms(2,3) by (simp add: reads_def)
  have rw: "wlock_enabled s u n = wlock_enabled t u n" "upgrade_enabled s u n = upgrade_enabled t u n"
    if "Writer n \<in> L" "range (Reader n) \<subseteq> L" for n
    unfolding observers_by_view same_rw_view [OF assms(1) that] by (rule refl)+
  have rlock: "rlock_enabled s u n = rlock_enabled t u n" if "Writer n \<in> L" for n
    unfolding observers_by_view same_reads(9) [OF assms(1) that] ..
  have barrier: "barrier_enabled s u a = barrier_enabled t u a" if "Arrived (a_barrier a) \<in> L"
    unfolding observers_by_view same_reads(12) [OF assms(1) that] ..
  note same = rw rlock barrier same_reads(4,11) [OF assms(1)] same_thread_reads(4) [OF assms(1)]
    same_thread_reads(8) [OF assms(1) own]
  show ?thesis
    using assms(2,3) same unfolding reads_def object_enabled_def
    by (cases "a_kind a") (simp_all split: if_splits)
qed

text \<open>A source action is enabled by what it reads.\<close>

lemma same_program_action_enabled:
  assumes "same_on L s t" "reads p s u (next_action p s u) \<subseteq> L" "a_kind (next_action p s u) \<noteq> Flush"
  shows "is_program_action_enabled p s u = is_program_action_enabled p t u"
proof -
  have own: "thread_reads u \<subseteq> L" using assms(2,3) by (simp add: reads_def)
  note thread = same_thread_reads [OF assms(1) own]
  show ?thesis
    unfolding program_action_enabled_iff same_shapeD [OF assms(1)] thread
      same_object_enabled [OF assms, unfolded thread(6)] ..
qed

text \<open>So is a flush: it reads that there is something to flush.\<close>

lemma same_flush_step:
  assumes "same_on L s t" "wf_state p s" "u < length p" "x \<in> set (flush_steps s u)"
    and "reads p s u (effective_action_for_step p s x) \<subseteq> L"
  shows "x \<in> set (flush_steps t u)"
proof -
  have x: "is_flush_step x" "s_thread x = u" using flush_steps_index [OF assms(4)] by (simp_all add: is_flush_step_def)
  have flush: "a_kind (effective_action_for_step p s x) = Flush" by (rule effective_flush_kind [OF x(1)])
  have pending: "has_pending_store s u" using assms(4) by (auto simp: flush_steps_def split: if_splits)
  show ?thesis
  proof (cases "st_model s = TSO")
    case True
    then have "Buffered u \<in> L" using assms(5) by (simp add: reads_def flush)
    then have "st_store_buffers s ! u = st_store_buffers t ! u" by (rule same_reads(7) [OF assms(1)])
    then show ?thesis
      using assms(4) True pending same_shapeD [OF assms(1)] by (simp add: flush_steps_def has_pending_store_def)
  next
    case False
    then obtain y ys where step: "x = Step u kFlushActionIndex (Some (lower_bound_index (st_flush_addresses s) y))"
      and entry: "mlookup (st_pso_buffers s ! u) y = Some ys"
      using assms(4) pending by (auto simp: flush_steps_def mentries_iff)
    then have "y \<in> set (program_addresses p)" using wf_stateD(7) [OF assms(2)] assms(3) by (auto simp: buffers_ok_def)
    moreover have addresses: "st_flush_addresses s = program_addresses p"
      using wf_stateD(1) [OF assms(2)] by (simp add: shape_ok_def)
    ultimately have "a_address (effective_action_for_step p s x) = y"
      using False lower_bound_index_nth [of "program_addresses p" y]
      by (simp add: step effective_action_for_step_def is_flush_step_def flush_action_for_def)
    then have "Pending u y \<in> L" using assms(5) False by (simp add: reads_def flush)
    then have entry': "mlookup (st_pso_buffers t ! u) y = Some ys" using same_reads(8) [OF assms(1)] entry by simp
    then have "st_pso_buffers t ! u \<noteq> mempty" by auto
    moreover have "st_model s = PSO" using False pending by (simp add: has_pending_store_def split: memory_model.splits)
    ultimately show ?thesis
      using entry' same_shapeD [OF assms(1)]
      by (auto simp: flush_steps_def has_pending_store_def step mentries_iff image_iff intro!: bexI [of _ "(y, ys)"])
  qed
qed

lemma step_action_source:
  assumes "wf_state p s" "x \<in> set (enabled_steps p s)" "\<not> is_flush_step x"
  shows "step_action p s x = next_action p s (s_thread x)" "a_kind (step_action p s x) \<noteq> Flush"
proof -
  note source = enabled_source_step [OF assms]
  show *: "step_action p s x = next_action p s (s_thread x)"
    using assms(3) source(4) by (simp add: step_action_def next_action_def)
  show "a_kind (step_action p s x) \<noteq> Flush" using enabled_not_flush [OF source(2)] by (simp add: *)
qed

lemma flush_step_enabled:
  assumes "u < length p" "st_started t ! u" "x \<in> set (flush_steps t u)"
  shows "x \<in> set (enabled_steps p t)"
proof -
  have "x \<in> set (enabled_steps_for_thread p t u)" using assms(2,3) by (simp add: enabled_steps_for_thread_def)
  then show ?thesis using assms(1) unfolding set_enabled_steps by blast
qed

lemma same_enabled_step:
  assumes "same_on L s t" "wf_state p s" "indexable p" "x \<in> set (enabled_steps p s)" "reads_by p s x \<subseteq> L"
  shows "x \<in> set (enabled_steps p t)" "step_action p t x = step_action p s x"
proof -
  define u where "u = s_thread x"
  have "x \<in> set (enabled_steps p t) \<and> step_action p t x = step_action p s x"
  proof (cases "is_flush_step x")
    case True
    note fl = enabled_flush_step [OF assms(2,4) True indexableD [OF assms(3)]]
    have action: "step_action p s x = effective_action_for_step p s x" for s using True by (simp add: step_action_def)
    have flush: "a_kind (step_action p s x) = Flush" unfolding action by (rule effective_flush_kind [OF True])
    have read: "Started u \<in> L" "st_model s = TSO \<Longrightarrow> Buffered u \<in> L"
      using assms(5) flush by (auto simp: reads_def u_def split: if_splits)
    have flushes: "x \<in> set (flush_steps t u)"
      using assms(5) fl(1,3) unfolding u_def action by (intro same_flush_step [OF assms(1,2)])
    have started: "st_started t ! u" using fl(2) same_reads(3) [OF assms(1) read(1)] by (simp add: u_def)
    have same: "effective_action_for_step p s x = effective_action_for_step p t x"
      by (rule same_flush_action [OF assms(1) read(2) [unfolded u_def] True])
    show ?thesis
    proof
      show "x \<in> set (enabled_steps p t)"
        using fl(1) started flushes unfolding u_def by (rule flush_step_enabled)
      show "step_action p t x = step_action p s x" unfolding action same ..
    qed
  next
    case False
    note source = enabled_source_step [OF assms(2,4) False]
    note action = step_action_source [OF assms(2,4) False]
    have own: "thread_reads u \<subseteq> L" using assms(5) action(2) by (simp add: reads_def u_def)
    note thread = same_thread_reads [OF assms(1) own]
    have "is_program_action_enabled p t u"
      using same_program_action_enabled [OF assms(1), of p u] assms(5) action source(2) by (simp add: u_def)
    moreover have "x = Step u (st_pc t ! u) None"
      using source(4,5) thread(9) by (cases x) (simp add: u_def)
    ultimately show ?thesis
      using source(1) program_action_has_next [of p t u] False
      by (auto simp: enabled_step_iff enabled_steps_for_thread_def step_action_def u_def [symmetric])
  qed
  then show "x \<in> set (enabled_steps p t)" "step_action p t x = step_action p s x" by simp_all
qed

lemma same_written:
  assumes "same_on L s t" "reads p s u a \<subseteq> L"
  shows "written p t u a = written p s u a"
proof (cases "a_kind a = Flush")
  case True
  then show ?thesis using same_shapeD [OF assms(1)] by (simp add: written_def)
next
  case False
  then have own: "thread_reads u \<subseteq> L" using assms(2) by (simp add: reads_def)
  note same = same_reads(3,4,5,12) [OF assms(1)] same_shapeD [OF assms(1)] same_thread_reads(8) [OF assms(1) own]
  show ?thesis
    using assms(2) same unfolding reads_def written_def by (cases "a_kind a") (simp_all split: if_splits)
qed

section \<open>The diamond\<close>

text \<open>
  Both orders of two steps that do not read what the other writes. They are executed in the same
  state; where both write, what they write is compared apart.
\<close>

definition steps_apart :: "program \<Rightarrow> exec_state \<Rightarrow> schedule_step \<Rightarrow> schedule_step \<Rightarrow> bool" where
  "steps_apart p s x y \<longleftrightarrow>
     written_by p s x \<inter> reads_by p s y = {} \<and> written_by p s y \<inter> reads_by p s x = {}"

lemma no_flush_action:
  assumes "wf_state p s" "x \<in> set (enabled_steps p s)"
  shows "is_flush_step x \<or> a_kind (p ! s_thread x ! s_index x) \<noteq> Flush"
  using step_action_source [OF assms] by (auto simp: step_action_def)

lemma after_step:
  assumes "wf_state p s" "x \<in> set (enabled_steps p s)" "execute_enabled_step p s x = Inr (s1, r)"
  shows "same_on (- written_by p s x) s1 s"
  using leaves_execute [OF _ no_flush_action [OF assms(1,2)], of s "- written_by p s x"] assms(3)
  by (simp add: leaves_def)

lemma second_after_first:
  assumes "indexable p" "wf_state p s" "x \<in> set (enabled_steps p s)" "y \<in> set (enabled_steps p s)"
    and "steps_apart p s x y" "execute_enabled_step p s x = Inr (s1, r)"
  shows "y \<in> set (enabled_steps p s1)" "written_by p s1 y = written_by p s y"
    "execute_enabled_step p s y = Inr (s2, q) \<Longrightarrow> execute_enabled_step p s1 y = Inr (s12, q') \<Longrightarrow>
     same_on (- written_by p s x) s2 s12 \<and> same_kind q q'"
proof -
  note same = same_on_sym [OF after_step [OF assms(2,3,6)]]
  have read: "reads_by p s y \<subseteq> - written_by p s x" using assms(5) by (auto simp: steps_apart_def)
  note enabled' = same_enabled_step [OF same assms(2,1,4) read]
  show "y \<in> set (enabled_steps p s1)" by (rule enabled'(1))
  show "written_by p s1 y = written_by p s y"
    unfolding enabled'(2) by (rule same_written [OF same read])
  show "same_on (- written_by p s x) s2 s12 \<and> same_kind q q'"
    if "execute_enabled_step p s y = Inr (s2, q)" "execute_enabled_step p s1 y = Inr (s12, q')"
    using agree_execute_on [OF same read] no_flush_action [OF assms(2,4)] that by (auto simp: agree_def)
qed

lemma diamond:
  assumes prog: "indexable p" "wf_state p s"
    and enabled: "x \<in> set (enabled_steps p s)" "y \<in> set (enabled_steps p s)"
    and no_overlap: "steps_apart p s x y"
    and x: "execute_enabled_step p s x = Inr (s1, r)" and y: "execute_enabled_step p s y = Inr (s2, q)"
    and xy: "execute_enabled_step p s1 y = Inr (s12, q')" and yx: "execute_enabled_step p s2 x = Inr (s21, r')"
  shows "same_on (- (written_by p s x \<inter> written_by p s y)) s12 s21" "same_kind r r'" "same_kind q q'"
proof -
  have swapped: "steps_apart p s y x" using no_overlap by (simp add: steps_apart_def)
  note after_x = second_after_first [OF prog enabled no_overlap x]
    and after_y = second_after_first [OF prog enabled(2,1) swapped y]
  note ax = after_y(3) [OF x yx] and ay = after_x(3) [OF y xy]
  show "same_kind r r'" "same_kind q q'" using ax ay by simp_all
  have "same_on (- written_by p s y) s12 s1" "same_on (- written_by p s x) s21 s2"
    using leaves_execute [OF _ no_flush_action [OF prog(2) enabled(2)], of s1 "- written_by p s y"] after_x(2) xy
      leaves_execute [OF _ no_flush_action [OF prog(2) enabled(1)], of s2 "- written_by p s x"] after_y(2) yx
    by (simp_all add: leaves_def)
  then have "same_on (- written_by p s x) s12 s21" "same_on (- written_by p s y) s12 s21"
    using ax ay same_on_trans same_on_sym by blast+
  then show "same_on (- (written_by p s x \<inter> written_by p s y)) s12 s21"
    by (simp add: same_on_Un)
qed

end
