(* ===== verification/Independent_Steps.thy ===== *)
theory Independent_Steps
  imports Commutation
begin

text \<open>
  The independence relation of the explorer is sound: transitions it declares independent in a
  state commute there.
\<close>

section \<open>Footprints by location\<close>

lemma reads_thread:
  "Control u \<in> reads p s t a \<longleftrightarrow> a_kind a \<noteq> Flush \<and>
     (u = t \<or> a_kind a = Join \<and> \<not> join_target_is_invalid p t a \<and> u = a_target a \<or>
      a_kind a \<in> {Signal, Broadcast} \<and> u \<in> set (mget [] (st_waiters s) (a_condition a)))"
  "Started u \<in> reads p s t a \<longleftrightarrow>
     u = t \<or> a_kind a = Join \<and> \<not> join_target_is_invalid p t a \<and> u = a_target a \<or>
     a_kind a = Spawn \<and> \<not> spawn_target_is_invalid p t a \<and> u = a_target a"
  "Buffered u \<in> reads p s t a \<Longrightarrow>
     u = t \<or> a_kind a = Join \<and> \<not> join_target_is_invalid p t a \<and> u = a_target a"
  "Pending u z \<in> reads p s t a \<Longrightarrow>
     u = t \<or> a_kind a = Join \<and> \<not> join_target_is_invalid p t a \<and> u = a_target a"
  by (cases "a_kind a"; auto simp: reads_def thread_reads_def split: if_splits)+

lemma reads_object:
  "Owner m \<in> reads p s t a \<longleftrightarrow> is_mutex_action a \<and> m = a_mutex a"
  "Writer n \<in> reads p s t a \<longleftrightarrow> is_rwlock_action a \<and> a_kind a \<noteq> RUnlock \<and> n = a_rwlock a"
  "Reader n u \<in> reads p s t a \<longleftrightarrow>
     is_rwlock_action a \<and> n = a_rwlock a \<and> (is_reader_rwlock_action a \<longrightarrow> u = t)"
  "Permits n \<in> reads p s t a \<longleftrightarrow> a_kind a = SemWait \<and> n = a_semaphore a"
  "Arrived n \<in> reads p s t a \<longleftrightarrow> a_kind a = BarrierWait \<and> n = a_barrier a"
  "Waiters c \<in> reads p s t a \<Longrightarrow> is_condition_action a \<and> c = a_condition a"
  "Cell z \<in> reads p s t a \<longleftrightarrow>
     a_kind a \<in> {Read, AtomicLoad, AtomicStore, AtomicRmw, CompareExchange} \<and> z = a_address a \<and> z \<noteq> []"
  by (cases "a_kind a";
      auto simp: reads_def thread_reads_def action_groups is_reader_rwlock_action_def split: if_splits)+

lemma written_thread:
  "Control u \<in> written p s t a \<longleftrightarrow> a_kind a \<noteq> Flush \<and>
     (u = t \<or> a_kind a = BarrierWait \<and>
        (\<exists>b. mlookup (st_barriers s) (a_barrier a) = Some b \<and> omember u (arrivals b)) \<or>
      a_kind a = Spawn \<and> \<not> spawn_target_is_invalid p t a \<and> \<not> st_started s ! a_target a \<and> u = a_target a \<or>
      a_kind a \<in> {Signal, Broadcast} \<and> u \<in> set (mget [] (st_waiters s) (a_condition a)))"
  "Started u \<in> written p s t a \<longleftrightarrow>
     a_kind a = Spawn \<and> \<not> spawn_target_is_invalid p t a \<and> \<not> st_started s ! a_target a \<and> u = a_target a"
  "Buffered u \<in> written p s t a \<Longrightarrow> u = t"
  "Pending u z \<in> written p s t a \<Longrightarrow> u = t"
  by (cases "a_kind a"; auto simp: written_def barrier_view_def split: if_splits option.splits memory_model.splits)+

lemma written_object:
  "Owner m \<in> written p s t a \<longleftrightarrow> is_mutex_action a \<and> m = a_mutex a \<and>
     (a_kind a = TryLock \<longrightarrow> mlookup (st_mutex_owner s) m = None)"
  "Writer n \<in> written p s t a \<longleftrightarrow> is_rwlock_action a \<and> \<not> is_reader_rwlock_action a \<and> n = a_rwlock a"
  "Reader n u \<in> written p s t a \<longleftrightarrow>
     is_rwlock_action a \<and> n = a_rwlock a \<and> (is_reader_rwlock_action a \<longrightarrow> u = t)"
  "Permits n \<in> written p s t a \<longleftrightarrow> is_semaphore_action a \<and> n = a_semaphore a"
  "Arrived n \<in> written p s t a \<longleftrightarrow> a_kind a = BarrierWait \<and> n = a_barrier a"
  "Waiters c \<in> written p s t a \<Longrightarrow> is_condition_action a \<and> c = a_condition a"
  "Cell z \<in> written p s t a \<longleftrightarrow> z = a_address a \<and>
     (a_kind a = Flush \<or> z \<noteq> [] \<and> (a_kind a = Write \<and> st_model s = SC \<or>
        a_kind a \<in> {AtomicStore, AtomicRmw, CompareExchange}))"
  by (cases "a_kind a"; auto simp: written_def action_groups is_reader_rwlock_action_def barrier_view_def
      split: if_splits option.splits memory_model.splits)+

section \<open>What the relation tells apart\<close>

lemma independent_join:
  assumes "t \<noteq> u" "transitions_independent p m t a u b" "a_kind a = Join"
  shows "\<not> join_target_is_invalid p t a" "u \<noteq> a_target a" "a_kind b \<noteq> Spawn"
  using assms(2,3) transitions_independent_join [OF assms(1), of a b p m]
  by (auto simp: join_independent_from_transition_def split: if_splits)

lemma independent_memory:
  assumes "is_memory_action a" "is_memory_action b" "a_address a \<noteq> []" "a_address a = a_address b"
    and "independent a b"
  shows "\<not> is_write_like a" "\<not> is_write_like b"
proof -
  have "\<not> is_thread_local_action a" "\<not> is_thread_local_action b"
    using assms(1,2) by (auto simp: action_groups)
  then have verdict: "same_cell_verdict a b \<noteq> Some False" using assms(5) by (auto simp: independent_def)
  have read: "a_kind c = AtomicLoad \<Longrightarrow> \<not> is_write_like c" for c by (simp add: is_write_like_def)
  show "\<not> is_write_like a" "\<not> is_write_like b"
    using verdict assms(1-4) read unfolding same_cell_verdict_def may_conflict_def by (simp_all split: if_splits)
qed

lemma independent_apart:
  assumes "t \<noteq> u" "transitions_independent p m t a u b"
  shows "is_mutex_action a \<Longrightarrow> is_mutex_action b \<Longrightarrow> a_mutex a \<noteq> a_mutex b"
    "is_condition_action a \<Longrightarrow> is_condition_action b \<Longrightarrow> a_condition a \<noteq> a_condition b"
    "is_rwlock_action a \<Longrightarrow> is_rwlock_action b \<Longrightarrow> a_rwlock a = a_rwlock b \<Longrightarrow>
     is_reader_rwlock_action a \<and> is_reader_rwlock_action b"
    "is_semaphore_action a \<Longrightarrow> is_semaphore_action b \<Longrightarrow> a_semaphore a = a_semaphore b \<Longrightarrow>
     a_kind a = SemPost \<and> a_kind b = SemPost"
    "a_kind a = BarrierWait \<Longrightarrow> a_kind b = BarrierWait \<Longrightarrow> a_barrier a \<noteq> a_barrier b"
    "a_kind a = Spawn \<Longrightarrow> a_kind b \<noteq> Spawn"
    "a_kind a = Spawn \<Longrightarrow> a_kind b \<noteq> Join"
    "is_memory_action a \<Longrightarrow> is_memory_action b \<Longrightarrow> a_address a \<noteq> [] \<Longrightarrow> a_address a = a_address b \<Longrightarrow>
     \<not> is_write_like a \<and> \<not> is_write_like b \<or> m \<noteq> SC \<and> (a_kind a = Write \<or> a_kind b = Write)"
proof -
  have other: "a_kind a \<noteq> Join \<Longrightarrow> a_kind b \<noteq> Join \<Longrightarrow>
     (a_kind a = RLock \<and> a_kind b = RLock) \<or>
     (is_reader_rwlock_action a \<and> is_reader_rwlock_action b) \<or>
     (m \<noteq> SC \<and> (a_kind a = Write \<or> a_kind b = Write) \<and> a_kind a \<noteq> Spawn \<and> a_kind b \<noteq> Spawn) \<or>
     independent a b"
    using transitions_independent_other [OF assms(1), of a b p m] assms(2) by blast
  note groups = action_groups is_reader_rwlock_action_def
  show "is_mutex_action a \<Longrightarrow> is_mutex_action b \<Longrightarrow> a_mutex a \<noteq> a_mutex b"
    using other by (auto simp: independent_def same_cell_verdict_def groups split: if_splits)
  show "is_condition_action a \<Longrightarrow> is_condition_action b \<Longrightarrow> a_condition a \<noteq> a_condition b"
    using other by (auto simp: independent_def same_cell_verdict_def groups split: if_splits)
  show "is_rwlock_action a \<Longrightarrow> is_rwlock_action b \<Longrightarrow> a_rwlock a = a_rwlock b \<Longrightarrow>
     is_reader_rwlock_action a \<and> is_reader_rwlock_action b"
    using other by (auto simp: independent_def same_cell_verdict_def groups split: if_splits)
  show "is_semaphore_action a \<Longrightarrow> is_semaphore_action b \<Longrightarrow> a_semaphore a = a_semaphore b \<Longrightarrow>
     a_kind a = SemPost \<and> a_kind b = SemPost"
    using other by (auto simp: independent_def same_cell_verdict_def groups split: if_splits)
  show "a_kind a = BarrierWait \<Longrightarrow> a_kind b = BarrierWait \<Longrightarrow> a_barrier a \<noteq> a_barrier b"
    using other by (auto simp: independent_def same_cell_verdict_def groups split: if_splits)
  show "a_kind a = Spawn \<Longrightarrow> a_kind b \<noteq> Spawn"
    using other by (auto simp: independent_def same_cell_verdict_def groups split: if_splits)
  show "a_kind a = Spawn \<Longrightarrow> a_kind b \<noteq> Join"
    using independent_join(3) [of u t p m b a] assms transitions_independent_sym by metis
  assume mem: "is_memory_action a" "is_memory_action b" "a_address a \<noteq> []" "a_address a = a_address b"
  have "a_kind c \<noteq> Join \<and> a_kind c \<noteq> RLock \<and> \<not> is_reader_rwlock_action c" if "is_memory_action c" for c
    using that by (auto simp: groups)
  then show "\<not> is_write_like a \<and> \<not> is_write_like b \<or> m \<noteq> SC \<and> (a_kind a = Write \<or> a_kind b = Write)"
    using other mem(1,2) independent_memory [OF mem] by blast
qed

end
