(* ===== verification/Apart_Steps.thy ===== *)
theory Apart_Steps
  imports Independent_Steps Lasso
begin

text \<open>
  The relation of the explorer, at the node of a state, separates
  what two enabled steps of the state read and write.
\<close>

section \<open>Enabled steps and the action they are known by\<close>

definition acts :: "program \<Rightarrow> exec_state \<Rightarrow> schedule_step \<Rightarrow> action" where
  "acts p s x = effective_action_for_step p s x"

lemma woken_footprint:
  assumes "a_kind a \<in> {Wait, TimedWait}" "st_phase s ! u = Woken"
  shows "reads p s u (lock_action_for (a_mutex a)) = reads p s u a"
    "written p s u (lock_action_for (a_mutex a)) = written p s u a"
proof -
  have kind: "a_kind a = Wait \<or> a_kind a = TimedWait" using assms(1) by simp
  show "reads p s u (lock_action_for (a_mutex a)) = reads p s u a"
    "written p s u (lock_action_for (a_mutex a)) = written p s u a"
    using kind assms(2) by (elim disjE; simp add: reads_def written_def lock_action_for_def)+
qed

lemma footprint_effective:
  assumes "wf_state p s" "x \<in> set (enabled_steps p s)"
  shows "reads_by p s x = reads p s (s_thread x) (acts p s x)"
    "written_by p s x = written p s (s_thread x) (acts p s x)"
proof -
  define a where "a = step_action p s x"
  have "acts p s x = a \<or> (a_kind a \<in> {Wait, TimedWait} \<and> st_phase s ! s_thread x = Woken \<and>
      acts p s x = lock_action_for (a_mutex a))"
  proof (cases "is_flush_step x")
    case True
    then show ?thesis by (simp add: a_def acts_def step_action_def)
  next
    case False
    then show ?thesis
      using step_action_source [OF assms False]
      by (auto simp: a_def acts_def effective_action_for_step_def effective_next_action_def Let_def)
  qed
  then show "reads_by p s x = reads p s (s_thread x) (acts p s x)"
    "written_by p s x = written p s (s_thread x) (acts p s x)"
    unfolding a_def [symmetric] using woken_footprint by metis+
qed

text \<open>What is known of the thread of an enabled step and of the threads its action names.\<close>

lemma enabled_acts:
  assumes "wf_state p s" "indexable p" "x \<in> set (enabled_steps p s)"
  shows "st_started s ! s_thread x" "s_thread x < length p"
    "a_kind (acts p s x) \<noteq> Flush \<Longrightarrow> st_pc s ! s_thread x < length (p ! s_thread x)"
    "a_kind (acts p s x) \<noteq> Flush \<Longrightarrow> s_thread x \<in> set (mget [] (st_waiters s) c) \<Longrightarrow>
     a_kind (acts p s x) = TimedWait \<and> a_condition (acts p s x) = c"
    "a_kind (acts p s x) \<noteq> Flush \<Longrightarrow> mlookup (st_barriers s) n = Some b \<Longrightarrow>
     \<not> omember (s_thread x) (arrivals b)"
    "a_kind (acts p s x) = Join \<Longrightarrow> \<not> join_target_is_invalid p (s_thread x) (acts p s x) \<Longrightarrow>
     is_finished p s (a_target (acts p s x))"
proof -
  define u where "u = s_thread x"
  note wf = wf_stateD [OF assms(1)]
  show started: "st_started s ! s_thread x" and "s_thread x < length p"
    using enabled_source_step(1,3) [OF assms(1,3)]
      enabled_flush_step(1,2) [OF assms(1,3) _ indexableD [OF assms(2)]] by blast+
  have source: "is_program_action_enabled p s u \<and> acts p s x = effective_next_action p s u"
    if "a_kind (acts p s x) \<noteq> Flush"
  proof -
    have "\<not> is_flush_step x" using that effective_flush_kind unfolding acts_def by blast
    then show ?thesis
      using enabled_source_step(2) [OF assms(1,3)] by (simp add: acts_def effective_action_for_step_def u_def)
  qed
  define a where "a = next_action p s u"
  have object: "object_enabled p s u a" and here: "p ! u ! (st_pc s ! u) = a"
    and effective: "acts p s x = a \<or> (st_phase s ! u = Woken \<and> acts p s x = lock_action_for (a_mutex a))"
    and inside: "st_pc s ! u < length (p ! u)"
    if "a_kind (acts p s x) \<noteq> Flush"
    using source [OF that]
    by (auto simp: program_action_enabled_iff has_next_action_def a_def next_action_def
        effective_next_action_def Let_def split: if_splits)
  show "st_pc s ! s_thread x < length (p ! s_thread x)" if "a_kind (acts p s x) \<noteq> Flush"
    using inside [OF that] by (simp add: u_def)
  show "a_kind (acts p s x) = TimedWait \<and> a_condition (acts p s x) = c"
    if "a_kind (acts p s x) \<noteq> Flush" "s_thread x \<in> set (mget [] (st_waiters s) c)"
  proof -
    have "st_phase s ! u = Waiting" "a_condition a = c" "a_kind a \<in> {Wait, TimedWait}"
      using that(2) wf(5) here [OF that(1)] by (auto simp: wait_ok_def u_def)
    then show ?thesis using object [OF that(1)] effective [OF that(1)] by (auto simp: object_enabled_def)
  qed
  show "\<not> omember (s_thread x) (arrivals b)"
    if "a_kind (acts p s x) \<noteq> Flush" "mlookup (st_barriers s) n = Some b"
  proof
    assume "omember (s_thread x) (arrivals b)"
    then have arrived: "arrival_ok p (st_pc s) (st_started s) n (parties b) u" "msize (arrivals b) < max 1 (parties b)"
      using wf(6) that(2) by (auto simp: barrier_ok_def barrier_entry_ok_def u_def)
    moreover have "arrivals b \<noteq> mempty" using \<open>omember (s_thread x) (arrivals b)\<close> by auto
    ultimately have "parties b \<noteq> 0" by (auto simp: msize_zero_iff [symmetric])
    then show False
      using arrived(1) object [OF that(1)] here [OF that(1)] that(2) \<open>omember _ _\<close>
      by (auto simp: object_enabled_def barrier_enabled_def arrival_ok_def u_def)
  qed
  show "is_finished p s (a_target (acts p s x))"
    if "a_kind (acts p s x) = Join" "\<not> join_target_is_invalid p (s_thread x) (acts p s x)"
    using object effective that by (auto simp: object_enabled_def lock_action_for_def u_def)
qed

lemma parked_waiter:
  assumes "wf_state p s" "v \<in> set (mget [] (st_waiters s) c)"
  shows "st_started s ! v" "st_pc s ! v < length (p ! v)" "a_kind (p ! v ! (st_pc s ! v)) \<in> {Wait, TimedWait}"
    "a_condition (p ! v ! (st_pc s ! v)) = c"
  using wf_stateD(5) [OF assms(1)] assms(2) by (auto simp: wait_ok_def parked_at_def)

lemma parked_arrival:
  assumes "wf_state p s" "mlookup (st_barriers s) n = Some b" "omember v (arrivals b)"
  shows "st_started s ! v" "st_pc s ! v < length (p ! v)" "a_kind (p ! v ! (st_pc s ! v)) = BarrierWait"
    "a_barrier (p ! v ! (st_pc s ! v)) = n"
  using wf_stateD(6) [OF assms(1)] assms(2,3)
  by (auto simp: barrier_ok_def barrier_entry_ok_def arrival_ok_def parked_at_def)

section \<open>Independent steps are apart\<close>

text \<open>The control of a thread: its own step moves it, and so do the steps that start or release it.\<close>

lemma independent_control:
  assumes prog: "wf_state p s" "indexable p" and x: "x \<in> set (enabled_steps p s)" and y: "y \<in> set (enabled_steps p s)"
    and t: "s_thread x \<noteq> s_thread y"
    and indep: "transitions_independent p (st_model s) (s_thread x) (acts p s x) (s_thread y) (acts p s y)"
    and wr: "Control v \<in> written p s (s_thread x) (acts p s x)"
  shows "Control v \<notin> reads p s (s_thread y) (acts p s y)" "Control v \<notin> written p s (s_thread y) (acts p s y)"
proof -
  define a b where "a = acts p s x" and "b = acts p s y"
  note enx = enabled_acts [OF prog x, folded a_def] and eny = enabled_acts [OF prog y, folded b_def]
  note waiter = parked_waiter [OF prog(1)] and arrival = parked_arrival [OF prog(1)]
  have indep': "transitions_independent p (st_model s) (s_thread y) b (s_thread x) a"
    using indep transitions_independent_sym unfolding a_def b_def by blast
  note ia = independent_apart [OF t indep, folded a_def b_def]
  have condition: "a_condition a \<noteq> a_condition b"
    if "a_kind a \<in> {Signal, Broadcast, TimedWait}" "a_kind b \<in> {Signal, Broadcast, TimedWait}"
    using ia(2) that by (auto simp: is_condition_action_def)
  have joins: "a_target b \<noteq> s_thread x" "a_kind a \<noteq> Spawn" if "a_kind b = Join"
    using independent_join [OF _ indep' that] t by auto
  have wrote: "v = s_thread x \<and> a_kind a \<noteq> Flush \<or> a_kind a = BarrierWait \<and>
      (\<exists>e. mlookup (st_barriers s) (a_barrier a) = Some e \<and> omember v (arrivals e)) \<or>
      a_kind a = Spawn \<and> \<not> st_started s ! v \<or>
      a_kind a \<in> {Signal, Broadcast} \<and> v \<in> set (mget [] (st_waiters s) (a_condition a))"
    using wr unfolding written_thread(1) a_def by blast
  have False
    if "Control v \<in> reads p s (s_thread y) b \<or> Control v \<in> written p s (s_thread y) b"
  proof -
    have finished: "is_finished p s v"
      if "a_kind b = Join" "\<not> join_target_is_invalid p (s_thread y) b" "v = a_target b"
      using eny(6) [OF that(1,2)] that(3) by simp
    have kind: "a_kind b \<noteq> Flush" using that unfolding written_thread(1) reads_thread(1) by blast
    have "v = s_thread y \<or> a_kind b = Join \<and> is_finished p s v \<and> v = a_target b \<or>
        a_kind b = BarrierWait \<and> (\<exists>e. mlookup (st_barriers s) (a_barrier b) = Some e \<and> omember v (arrivals e)) \<or>
        a_kind b = Spawn \<and> \<not> st_started s ! v \<or>
        a_kind b \<in> {Signal, Broadcast} \<and> v \<in> set (mget [] (st_waiters s) (a_condition b))"
      using that finished unfolding written_thread(1) reads_thread(1) by auto
    then consider (own) "v = s_thread y" | (joined) "a_kind b = Join" "v = a_target b" "is_finished p s v"
      | (arrived) e where "a_kind b = BarrierWait"
        "mlookup (st_barriers s) (a_barrier b) = Some e" "omember v (arrivals e)"
      | (fresh) "a_kind b = Spawn" "\<not> st_started s ! v"
      | (waiting) "a_kind b \<in> {Signal, Broadcast}" "v \<in> set (mget [] (st_waiters s) (a_condition b))"
      by blast
    then show False
    proof cases
      case own
      then show False
        using wrote t kind eny(1,4) eny(5) [OF kind] condition by auto
    next
      case joined
      then show False
        using wrote joins(1) arrival(2) waiter(2) by (auto simp: is_finished_def has_next_action_def)
    next
      case (arrived e)
      note w = arrival [OF arrived(2,3)]
      have "v \<noteq> s_thread x" if "a_kind a \<noteq> Flush" using enx(5) [OF that arrived(2)] arrived(3) by blast
      moreover have False if "a_kind a = BarrierWait" "mlookup (st_barriers s) (a_barrier a) = Some e'"
        "omember v (arrivals e')" for e'
        using arrival(4) [OF that(2,3)] w(4) ia(5) [OF that(1) arrived(1)] by simp
      ultimately show False
        using wrote w waiter(3) [of v "a_condition a"] by auto
    next
      case fresh
      then show False
        using wrote enx(1) arrival(1) waiter(1) ia(6) by blast
    next
      case waiting
      note w = waiter [OF waiting(2)]
      have apart: "a_condition a \<noteq> a_condition b" if "a_kind a \<in> {Signal, Broadcast, TimedWait}"
        using condition [OF that] waiting(1) by blast
      have "v \<noteq> s_thread x" if "a_kind a \<noteq> Flush"
        using enx(4) [OF that, of "a_condition b"] apart waiting(2) by auto
      moreover have False if "mlookup (st_barriers s) (a_barrier a) = Some e" "omember v (arrivals e)" for e
        using arrival(3) [OF that] w(3) by simp
      moreover have False if "a_kind a \<in> {Signal, Broadcast}" "v \<in> set (mget [] (st_waiters s) (a_condition a))"
        using waiter(4) [OF that(2)] w(4) apart that(1) by auto
      ultimately show False using wrote w(1) by blast
    qed
  qed
  then show "Control v \<notin> reads p s (s_thread y) (acts p s y)" "Control v \<notin> written p s (s_thread y) (acts p s y)"
    unfolding b_def by blast+
qed

text \<open>The other locations of a thread.\<close>

lemma independent_thread:
  assumes prog: "wf_state p s" "indexable p" and x: "x \<in> set (enabled_steps p s)" and y: "y \<in> set (enabled_steps p s)"
    and t: "s_thread x \<noteq> s_thread y"
    and indep: "transitions_independent p (st_model s) (s_thread x) (acts p s x) (s_thread y) (acts p s y)"
  shows "Started v \<in> written p s (s_thread x) (acts p s x) \<Longrightarrow>
      Started v \<notin> reads p s (s_thread y) (acts p s y) \<and> Started v \<notin> written p s (s_thread y) (acts p s y)"
    "Buffered v \<in> written p s (s_thread x) (acts p s x) \<Longrightarrow>
      Buffered v \<notin> reads p s (s_thread y) (acts p s y) \<and> Buffered v \<notin> written p s (s_thread y) (acts p s y)"
    "Pending v z \<in> written p s (s_thread x) (acts p s x) \<Longrightarrow>
      Pending v z \<notin> reads p s (s_thread y) (acts p s y) \<and> Pending v z \<notin> written p s (s_thread y) (acts p s y)"
proof -
  define a b where "a = acts p s x" and "b = acts p s y"
  note eny = enabled_acts [OF prog y, folded b_def]
  have indep': "transitions_independent p (st_model s) (s_thread y) b (s_thread x) a"
    using indep transitions_independent_sym unfolding a_def b_def by blast
  note ia = independent_apart [OF t indep, folded a_def b_def]
  have joins: "a_target b \<noteq> s_thread x" "a_kind a \<noteq> Spawn" if "a_kind b = Join"
    using independent_join [OF _ indep' that] t by auto
  show "Started v \<notin> reads p s (s_thread y) (acts p s y) \<and> Started v \<notin> written p s (s_thread y) (acts p s y)"
    if "Started v \<in> written p s (s_thread x) (acts p s x)"
    using that eny(1) ia(6) joins(2) unfolding a_def [symmetric] b_def [symmetric] written_thread(2) reads_thread(2)
    by metis
  show "Buffered v \<notin> reads p s (s_thread y) (acts p s y) \<and> Buffered v \<notin> written p s (s_thread y) (acts p s y)"
    if "Buffered v \<in> written p s (s_thread x) (acts p s x)"
    using written_thread(3) [OF that] written_thread(3) [of v p s "s_thread y" b] reads_thread(3) [of v p s "s_thread y" b]
      joins(1) t unfolding b_def by metis
  show "Pending v z \<notin> reads p s (s_thread y) (acts p s y) \<and> Pending v z \<notin> written p s (s_thread y) (acts p s y)"
    if "Pending v z \<in> written p s (s_thread x) (acts p s x)"
    using written_thread(4) [OF that] written_thread(4) [of v z p s "s_thread y" b] reads_thread(4) [of v z p s "s_thread y" b]
      joins(1) t unfolding b_def by metis
qed

text \<open>The objects: what one step writes, an independent step neither reads nor writes, but for posts.\<close>

lemma independent_object:
  assumes t: "t \<noteq> u" and indep: "transitions_independent p (st_model s) t a u b"
    and named: "a_kind a = Flush \<Longrightarrow> a_address a \<noteq> []"
  shows "Owner m \<in> written p s t a \<Longrightarrow> Owner m \<notin> reads p s u b \<and> Owner m \<notin> written p s u b"
    "Writer n \<in> written p s t a \<Longrightarrow> Writer n \<notin> reads p s u b \<and> Writer n \<notin> written p s u b"
    "Reader n v \<in> written p s t a \<Longrightarrow> Reader n v \<notin> reads p s u b \<and> Reader n v \<notin> written p s u b"
    "Permits n \<in> written p s t a \<Longrightarrow> Permits n \<notin> reads p s u b"
    "Permits n \<in> written p s t a \<Longrightarrow> Permits n \<in> written p s u b \<Longrightarrow>
     a_kind a = SemPost \<and> a_kind b = SemPost \<and> a_semaphore a = n \<and> a_semaphore b = n"
    "Arrived n \<in> written p s t a \<Longrightarrow> Arrived n \<notin> reads p s u b \<and> Arrived n \<notin> written p s u b"
    "Waiters c \<in> written p s t a \<Longrightarrow> Waiters c \<notin> reads p s u b \<and> Waiters c \<notin> written p s u b"
    "Cell z \<in> written p s t a \<Longrightarrow> Cell z \<notin> reads p s u b \<and> Cell z \<notin> written p s u b"
proof -
  note ia = independent_apart [OF t indep]
  show "Owner m \<in> written p s t a \<Longrightarrow> Owner m \<notin> reads p s u b \<and> Owner m \<notin> written p s u b"
    using ia(1) by (auto simp: written_object reads_object)
  show "Writer n \<in> written p s t a \<Longrightarrow> Writer n \<notin> reads p s u b \<and> Writer n \<notin> written p s u b"
    "Reader n v \<in> written p s t a \<Longrightarrow> Reader n v \<notin> reads p s u b \<and> Reader n v \<notin> written p s u b"
    using ia(3) t by (auto simp: written_object reads_object)
  have waits: "a_kind b = SemWait \<Longrightarrow> is_semaphore_action b \<and> a_kind b \<noteq> SemPost" by (simp add: is_semaphore_action_def)
  show "Permits n \<in> written p s t a \<Longrightarrow> Permits n \<notin> reads p s u b"
    "Permits n \<in> written p s t a \<Longrightarrow> Permits n \<in> written p s u b \<Longrightarrow>
     a_kind a = SemPost \<and> a_kind b = SemPost \<and> a_semaphore a = n \<and> a_semaphore b = n"
    using ia(4) written_object(4) [of n p s t a] written_object(4) [of n p s u b] reads_object(4) [of n p s u b] waits
    by metis+
  show "Arrived n \<in> written p s t a \<Longrightarrow> Arrived n \<notin> reads p s u b \<and> Arrived n \<notin> written p s u b"
    using ia(5) by (auto simp: written_object reads_object)
  show "Waiters c \<in> written p s t a \<Longrightarrow> Waiters c \<notin> reads p s u b \<and> Waiters c \<notin> written p s u b"
    using ia(2) written_object(6) [of c p s t a] written_object(6) [of c p s u b] reads_object(6) [of c p s u b]
    by blast
  assume wrote: "Cell z \<in> written p s t a"
  have z: "z = a_address a" "z \<noteq> []"
    and a: "a_kind a \<in> {Flush, AtomicStore, AtomicRmw, CompareExchange} \<or> a_kind a = Write \<and> st_model s = SC"
    using written_object(7) [of z p s t a] wrote named by auto
  then have wl: "is_memory_action a" "is_write_like a" "a_kind a = Write \<longrightarrow> st_model s = SC"
    by (auto simp: is_memory_action_def is_plain_memory_action_def is_atomic_action_def is_write_like_def)
  have b: "is_memory_action b \<and> z = a_address b \<and> (a_kind b = Write \<longrightarrow> st_model s = SC)"
    if "Cell z \<in> reads p s u b \<or> Cell z \<in> written p s u b"
    using that unfolding written_object(7) reads_object(7)
    by (elim disjE conjE) (auto simp: is_memory_action_def is_plain_memory_action_def is_atomic_action_def)
  show "Cell z \<notin> reads p s u b \<and> Cell z \<notin> written p s u b"
    using ia(8) z wl b by metis
qed

lemma independent_locations:
  assumes prog: "wf_state p s" "indexable p" and x: "x \<in> set (enabled_steps p s)" and y: "y \<in> set (enabled_steps p s)"
    and t: "s_thread x \<noteq> s_thread y"
    and indep: "transitions_independent p (st_model s) (s_thread x) (acts p s x) (s_thread y) (acts p s y)"
    and named: "a_kind (acts p s x) = Flush \<Longrightarrow> a_address (acts p s x) \<noteq> []"
    and l: "l \<in> written_by p s x"
  shows "l \<notin> reads_by p s y"
    "l \<in> written_by p s y \<Longrightarrow> a_kind (acts p s x) = SemPost \<and> a_kind (acts p s y) = SemPost \<and>
       a_semaphore (acts p s y) = a_semaphore (acts p s x) \<and> l = Permits (a_semaphore (acts p s x))"
proof -
  note foot = footprint_effective [OF prog(1) x] footprint_effective [OF prog(1) y]
  note control = independent_control [OF prog x y t indep]
  note thread = independent_thread [OF prog x y t indep]
  note object = independent_object [OF t indep named]
  have "l \<notin> reads_by p s y \<and> (l \<in> written_by p s y \<longrightarrow>
      a_kind (acts p s x) = SemPost \<and> a_kind (acts p s y) = SemPost \<and>
      a_semaphore (acts p s y) = a_semaphore (acts p s x) \<and> l = Permits (a_semaphore (acts p s x)))"
  proof (cases l)
    case (Control v) then show ?thesis using l control unfolding foot by blast
  next
    case (Started v) then show ?thesis using l thread(1) unfolding foot by blast
  next
    case (Buffered v) then show ?thesis using l thread(2) unfolding foot by blast
  next
    case (Pending v z) then show ?thesis using l thread(3) unfolding foot by blast
  next
    case (Owner m) then show ?thesis using l object(1) unfolding foot by blast
  next
    case (Writer n) then show ?thesis using l object(2) unfolding foot by blast
  next
    case (Reader n v) then show ?thesis using l object(3) unfolding foot by blast
  next
    case (Permits n) then show ?thesis using l object(4,5) unfolding foot by metis
  next
    case (Arrived n) then show ?thesis using l object(6) unfolding foot by blast
  next
    case (Waiters c) then show ?thesis using l object(7) unfolding foot by blast
  next
    case (Cell z) then show ?thesis using l object(8) unfolding foot by blast
  qed
  then show "l \<notin> reads_by p s y"
    "l \<in> written_by p s y \<Longrightarrow> a_kind (acts p s x) = SemPost \<and> a_kind (acts p s y) = SemPost \<and>
       a_semaphore (acts p s y) = a_semaphore (acts p s x) \<and> l = Permits (a_semaphore (acts p s x))"
    by blast+
qed

section \<open>Pending stores have a name\<close>

definition stores_named :: "exec_state \<Rightarrow> bool" where
  "stores_named s \<longleftrightarrow> (\<forall>q\<in>set (st_store_buffers s). \<forall>e\<in>set q. fst e \<noteq> [])"

lemma stores_named_update:
  "stores_named s \<Longrightarrow> (\<And>e. e \<in> set q \<Longrightarrow> fst e \<noteq> []) \<Longrightarrow>
   stores_named (s\<lparr>st_store_buffers := (st_store_buffers s)[u := q]\<rparr>)"
  unfolding stores_named_def using set_update_subset_insert [of "st_store_buffers s" u q] by auto

lemma stores_named_commit:
  "commit_store s step y v = Inr (s', r) \<Longrightarrow> stores_named s' = stores_named s"
  by (auto simp: commit_store_def Let_def finish_race_def stores_named_def on_address_def set_value_def
      split: prod.splits)

lemma stores_named_write:
  assumes "exec_write p s step a = Inr (s', r)" "stores_named s" "s_thread step < length (st_store_buffers s)"
  shows "stores_named s'"
proof (cases "a_address a = []")
  case True
  then show ?thesis using assms(1,2) by (auto simp: exec_write_def Let_def finish_def stores_named_def)
next
  case False
  define s1 where "s1 = advance_pc p s (s_thread step)"
  have s1: "stores_named s1" "st_store_buffers s1 = st_store_buffers s"
    using assms(2) by (simp_all add: s1_def stores_named_def)
  have old: "fst e \<noteq> []" if "e \<in> set (st_store_buffers s ! s_thread step)" for e
    using assms(2) nth_mem [OF assms(3)] that by (auto simp: stores_named_def)
  obtain v where v: "(case st_model s1 of
        TSO \<Rightarrow> finish (s1\<lparr>st_store_buffers := (st_store_buffers s1)
          [s_thread step := st_store_buffers s1 ! s_thread step @ [(a_address a, v)]]\<rparr>)
      | PSO \<Rightarrow> finish (s1\<lparr>st_pso_buffers := (st_pso_buffers s1)
          [s_thread step := mupdate (a_address a) (mget [] (st_pso_buffers s1 ! s_thread step) (a_address a) @ [v])
             (st_pso_buffers s1 ! s_thread step)]\<rparr>)
      | SC \<Rightarrow> commit_store s1 step (a_address a) v) = Inr (s', r)"
    using assms(1) False unfolding exec_write_def Let_def s1_def [symmetric]
    by (simp only: if_False res_simps) blast
  show ?thesis
  proof (cases "st_model s1")
    case SC
    then show ?thesis using v stores_named_commit s1(1) by simp
  next
    case TSO
    have "stores_named (s1\<lparr>st_store_buffers := (st_store_buffers s1)
        [s_thread step := st_store_buffers s1 ! s_thread step @ [(a_address a, v)]]\<rparr>)"
      by (rule stores_named_update [OF s1(1)]) (use old False s1(2) in auto)
    then show ?thesis using v TSO by (simp add: finish_def)
  next
    case PSO
    then show ?thesis using v s1(1) by (auto simp: finish_def stores_named_def)
  qed
qed

lemma stores_named_flush:
  assumes "exec_flush s step = Inr (s', r)" "stores_named s" "s_thread step < length (st_store_buffers s)"
  shows "stores_named s'"
proof -
  have "stores_named (s\<lparr>st_store_buffers := (st_store_buffers s)[s_thread step := rest]\<rparr>)"
    if "st_store_buffers s ! s_thread step = e # rest" for e rest
    using assms(2) nth_mem [OF assms(3)] that by (intro stores_named_update) (auto simp: stores_named_def)
  moreover have "stores_named (s\<lparr>st_pso_buffers := q\<rparr>)" for q using assms(2) by (simp add: stores_named_def)
  ultimately show ?thesis
    using assms(1) unfolding exec_flush_def Let_def
    by (auto simp: res_simps stores_named_commit split: if_splits list.splits option.splits)
qed

lemma stores_named_execute:
  assumes wf: "wf_state p s" and idx: "indexable p" and x: "x \<in> set (enabled_steps p s)"
    and ex: "execute_enabled_step p s x = Inr (s', r)" and named: "stores_named s"
  shows "stores_named s'"
proof (cases "a_kind (step_action p s x) \<in> {Flush, Write}")
  case False
  have "Buffered u \<notin> written_by p s x" for u
    using False unfolding written_def by (cases "a_kind (step_action p s x)") (auto split: option.splits)
  then have "st_store_buffers s' ! u = st_store_buffers s ! u" for u
    using same_reads(7) [OF after_step [OF wf x ex]] by simp
  moreover have "length (st_store_buffers s') = length (st_store_buffers s)"
    using after_step [OF wf x ex] by (simp add: same_on_def same_shape_def)
  ultimately have "st_store_buffers s' = st_store_buffers s" by (intro nth_equalityI) simp_all
  then show ?thesis using named by (simp add: stores_named_def)
next
  case True
  have t: "s_thread x < length (st_store_buffers (begin_step s x))"
    using enabled_step_thread [OF x] wf_stateD(1) [OF wf] by (simp add: shape_ok_def)
  have begun: "stores_named (begin_step s x)" using named by (simp add: stores_named_def)
  show ?thesis
  proof (cases "is_flush_step x")
    case flush: True
    then have "exec_flush (begin_step s x) x = Inr (s', r)"
      using ex by (simp add: execute_enabled_step_def Let_def perform_action_def effective_flush_kind res_simps)
    then show ?thesis by (rule stores_named_flush [OF _ begun t])
  next
    case flush: False
    define a where "a = p ! s_thread x ! s_index x"
    have "a_kind a = Write"
      using flush True step_action_source(2) [OF wf x flush] by (simp add: step_action_def a_def)
    then have "exec_write p (begin_step s x) x a = Inr (s', r)"
      using ex flush unfolding execute_enabled_step_def Let_def a_def [symmetric]
      by (simp add: perform_action_def res_simps)
    then show ?thesis by (rule stores_named_write [OF _ begun t])
  qed
qed

lemma stores_named_run:
  "indexable p \<Longrightarrow> wf_state p s \<Longrightarrow> stores_named s \<Longrightarrow> run p xs s = Some s' \<Longrightarrow> stores_named s'"
proof (induction xs arbitrary: s)
  case (Cons x xs)
  then obtain s1 r where x: "x \<in> set (enabled_steps p s)" "execute_enabled_step p s x = Inr (s1, r)"
    and "run p xs s1 = Some s'"
    by (auto split: sum.splits if_splits)
  then show ?case
    using Cons.IH Cons.prems wf_execute_enabled_step [OF _ _ x] stores_named_execute [OF _ _ x] by blast
qed simp

lemma stores_named_initial: "stores_named (initial_state p m)"
  by (auto simp: stores_named_def initial_state_pc)

lemma acts_flush:
  assumes "wf_state p s" "x \<in> set (enabled_steps p s)" "a_kind (acts p s x) = Flush"
  shows "is_flush_step x"
  using assms(3) step_action_source(2) [OF assms(1,2)] enabled_source_step(2) [OF assms(1,2)] enabled_not_flush
  by (auto simp: acts_def effective_action_for_step_def effective_next_action_def Let_def lock_action_for_def
      split: if_splits)

lemma flush_named:
  assumes wf: "wf_state p s" and idx: "indexable p" and x: "x \<in> set (enabled_steps p s)" and named: "stores_named s"
    and flush: "a_kind (acts p s x) = Flush"
  shows "a_address (acts p s x) \<noteq> []"
proof -
  have fx: "is_flush_step x" by (rule acts_flush [OF wf x flush])
  note fl = enabled_flush_step [OF wf x fx indexableD [OF idx]]
  show ?thesis
  proof (cases "st_model s = TSO")
    case True
    then obtain y v rest where q: "st_store_buffers s ! s_thread x = (y, v) # rest"
      using fl(4) by (cases "st_store_buffers s ! s_thread x") (auto simp: has_pending_store_def)
    have "st_store_buffers s ! s_thread x \<in> set (st_store_buffers s)"
      using fl(1) wf_stateD(1) [OF wf] by (simp add: shape_ok_def)
    then have "y \<noteq> []" using named q by (auto simp: stores_named_def)
    then show ?thesis using True fx q by (simp add: acts_def effective_action_for_step_def flush_action_for_def)
  next
    case False
    obtain i y v rest where "s_flush x = Some i" "i < length (st_flush_addresses s)"
      "st_flush_addresses s ! i = y" "mlookup (st_pso_buffers s ! s_thread x) y = Some (v # rest)"
      by (rule pso_flush_step [OF wf fl(1,3) False])
    moreover from this have "y \<in> set (program_addresses p)"
      using wf_stateD(7) [OF wf] fl(1) by (auto simp: buffers_ok_def)
    ultimately show ?thesis
      using False fx by (simp add: acts_def effective_action_for_step_def flush_action_for_def set_program_addresses)
  qed
qed

end
