(* ===== verification/Commuting_Steps.thy ===== *)
theory Commuting_Steps
  imports Apart_Steps
begin

text \<open>
  Independent transitions commute. Steps apart commute by the diamond; the pairs that share an
  object (two posts, two arrivals that release nobody, two attempts at a taken mutex) are compared
  at that object. States of equal behaviour have equal fingerprints.
\<close>

section \<open>Commuting steps\<close>

text \<open>Each step stays enabled after the other, reports what it did before, and the orders meet.\<close>

definition commute_at :: "program \<Rightarrow> exec_state \<Rightarrow> schedule_step \<Rightarrow> schedule_step \<Rightarrow> bool" where
  "commute_at p s x y \<longleftrightarrow>
     (\<forall>s1 r s2 q. execute_enabled_step p s x = Inr (s1, r) \<longrightarrow> execute_enabled_step p s y = Inr (s2, q) \<longrightarrow>
        y \<in> set (enabled_steps p s1) \<and> x \<in> set (enabled_steps p s2) \<and>
        (\<forall>s12 q' s21 r'. execute_enabled_step p s1 y = Inr (s12, q') \<longrightarrow>
           execute_enabled_step p s2 x = Inr (s21, r') \<longrightarrow>
           sim s12 s21 \<and> same_kind r r' \<and> same_kind q q'))"

lemma commute_when_apart:
  assumes prog: "indexable p" "wf_state p s"
    and enabled: "x \<in> set (enabled_steps p s)" "y \<in> set (enabled_steps p s)"
    and no_overlap: "steps_apart p s x y"
    and shared: "\<And>s1 r s2 q s12 q' s21 r' l. execute_enabled_step p s x = Inr (s1, r) \<Longrightarrow>
      execute_enabled_step p s y = Inr (s2, q) \<Longrightarrow> execute_enabled_step p s1 y = Inr (s12, q') \<Longrightarrow>
      execute_enabled_step p s2 x = Inr (s21, r') \<Longrightarrow>
      l \<in> written_by p s x \<Longrightarrow> l \<in> written_by p s y \<Longrightarrow> same_at s12 s21 l"
  shows "commute_at p s x y"
proof -
  have swapped: "steps_apart p s y x" using no_overlap by (simp add: steps_apart_def)
  have meet: "sim s12 s21 \<and> same_kind r r' \<and> same_kind q q'"
    if e: "execute_enabled_step p s x = Inr (s1, r)" "execute_enabled_step p s y = Inr (s2, q)"
      "execute_enabled_step p s1 y = Inr (s12, q')" "execute_enabled_step p s2 x = Inr (s21, r')"
    for s1 r s2 q s12 q' s21 r'
  proof -
    note d = diamond [OF prog enabled no_overlap e]
    have "same_at s12 s21 l" for l
      using same_onD [OF d(1)] shared [OF e, of l] by (cases "l \<in> written_by p s x \<inter> written_by p s y") auto
    then have "sim s12 s21" using d(1) by (simp add: sim_same_on same_on_def)
    then show ?thesis using d(2,3) by simp
  qed
  show ?thesis
    unfolding commute_at_def
    using meet second_after_first(1) [OF prog enabled no_overlap] second_after_first(1) [OF prog enabled(2,1) swapped]
    by blast
qed

section \<open>Pairs that share an object\<close>

text \<open>A step whose effective action is neither a flush nor a lock performs that action.\<close>

lemma acts_source:
  assumes "wf_state p s" "x \<in> set (enabled_steps p s)" "a_kind (acts p s x) \<notin> {Flush, Lock}"
  shows "\<not> is_flush_step x" "p ! s_thread x ! s_index x = acts p s x"
proof -
  show flush: "\<not> is_flush_step x" using assms(3) effective_flush_kind unfolding acts_def by blast
  then show "p ! s_thread x ! s_index x = acts p s x"
    using step_action_source(1) [OF assms(1,2) flush] assms(3)
    by (auto simp: acts_def step_action_def effective_action_for_step_def effective_next_action_def Let_def
        lock_action_for_def split: if_splits)
qed

lemma post_adds_permit:
  assumes "execute_enabled_step p s x = Inr (s', r)" "\<not> is_flush_step x"
    and "a_kind (p ! s_thread x ! s_index x) = SemPost" "a_semaphore (p ! s_thread x ! s_index x) = n"
  shows "permit_view s' n = Suc (permit_view s n)"
  using assms(1,2,3) unfolding assms(4) [symmetric]
  by (auto simp: execute_enabled_step_def Let_def perform_action_def exec_sem_post_def res_simps finish_def
      permit_view_def)

lemma posts_commute:
  assumes prog: "indexable p" "wf_state p s"
    and enabled: "x \<in> set (enabled_steps p s)" "y \<in> set (enabled_steps p s)"
    and no_overlap: "steps_apart p s x y"
    and shared: "\<And>l. l \<in> written_by p s x \<Longrightarrow> l \<in> written_by p s y \<Longrightarrow>
       a_kind (acts p s x) = SemPost \<and> a_kind (acts p s y) = SemPost \<and>
       a_semaphore (acts p s y) = a_semaphore (acts p s x) \<and> l = Permits (a_semaphore (acts p s x))"
  shows "commute_at p s x y"
proof (rule commute_when_apart [OF prog enabled no_overlap])
  fix s1 r s2 q s12 q' s21 r' l
  assume e: "execute_enabled_step p s x = Inr (s1, r)" "execute_enabled_step p s y = Inr (s2, q)"
    "execute_enabled_step p s1 y = Inr (s12, q')" "execute_enabled_step p s2 x = Inr (s21, r')"
    and "l \<in> written_by p s x" "l \<in> written_by p s y"
  then have both: "a_kind (acts p s x) = SemPost" "a_kind (acts p s y) = SemPost"
      "a_semaphore (acts p s y) = a_semaphore (acts p s x)" "l = Permits (a_semaphore (acts p s x))"
    using shared by blast+
  have x: "\<not> is_flush_step x" "p ! s_thread x ! s_index x = acts p s x"
    using acts_source [OF prog(2) enabled(1)] both(1) by simp_all
  have y: "\<not> is_flush_step y" "p ! s_thread y ! s_index y = acts p s y"
    using acts_source [OF prog(2) enabled(2)] both(2) by simp_all
  show "same_at s12 s21 l"
    using post_adds_permit [OF e(1) x(1)] post_adds_permit [OF e(2) y(1)] post_adds_permit [OF e(3) y(1)]
      post_adds_permit [OF e(4) x(1)] both x(2) y(2) by simp
qed

text \<open>An arrival that does not fill the barrier changes its arrivals and nothing else.\<close>

lemma arrival_parks:
  assumes "execute_enabled_step p s x = Inr (s', r)" "\<not> is_flush_step x"
    and a: "p ! s_thread x ! s_index x = a" "a_kind a = BarrierWait"
    and b: "mlookup (st_barriers s) (a_barrier a) = Some b" "a_parties a \<noteq> 0" "a_parties a = parties b"
      "msize (arrivals b) + 1 < parties b"
  shows "same_on (- {Arrived (a_barrier a)}) s' s" "r = no_report"
    "\<exists>c. mlookup (st_barriers s') (a_barrier a) = Some c \<and> parties c = parties b \<and>
       arrivals c = oinsert (s_thread x) (arrivals b)"
proof -
  define c where "c = b\<lparr>arrivals := oinsert (s_thread x) (arrivals b),
     arrival_releases := vc_join (arrival_releases b) (st_clock (begin_step s x) ! s_thread x)\<rparr>"
  have ex: "exec_barrier p (begin_step s x) x a = Inr (s', r)"
    using assms(1,2) a(2) unfolding execute_enabled_step_def Let_def a(1)
    by (simp add: perform_action_def res_simps)
  have here: "mlookup (st_barriers (begin_step s x)) (a_barrier a) = Some b" using b(1) by simp
  have fewer: "msize (arrivals c) < parties c" if "\<not> omember (s_thread x) (arrivals b)"
    using b(4) that by (simp add: c_def msize_oinsert)
  have "s' = (begin_step s x)\<lparr>st_barriers := mupdate (a_barrier a) c (st_barriers (begin_step s x))\<rparr> \<and> r = no_report"
    using ex b fewer unfolding exec_barrier_def Let_def here option.case c_def [symmetric]
    by (simp add: res_simps finish_def)
  then show "same_on (- {Arrived (a_barrier a)}) s' s" "r = no_report"
    "\<exists>c. mlookup (st_barriers s') (a_barrier a) = Some c \<and> parties c = parties b \<and>
       arrivals c = oinsert (s_thread x) (arrivals b)"
    by (simp_all add: c_def)
qed

lemma arrival_stays_enabled:
  assumes wf: "wf_state p s" and y: "y \<in> set (enabled_steps p s)" "\<not> is_flush_step y"
    and a: "p ! s_thread y ! s_index y = a" "a_kind a = BarrierWait"
    and t: "same_on (- {Arrived (a_barrier a)}) t s" "mlookup (st_barriers t) (a_barrier a) = Some c"
      "\<not> omember (s_thread y) (arrivals c)"
  shows "y \<in> set (enabled_steps p t)"
proof -
  define u where "u = s_thread y"
  note source = enabled_source_step [OF wf y]
  have "thread_reads u \<subseteq> - {Arrived (a_barrier a)}" by (auto simp: thread_reads_def)
  note thread = same_thread_reads [OF t(1) this] and shape = same_shapeD [OF t(1)]
  have here: "next_action p s u = a" using source(4) a(1) by (simp add: u_def next_action_def)
  have "object_enabled p t u a" using a(2) t(2,3) by (simp add: object_enabled_def barrier_enabled_def u_def)
  then have "is_program_action_enabled p t u"
    using source(2) unfolding program_action_enabled_iff thread shape u_def [symmetric] here by blast
  moreover have "y = Step u (st_pc t ! u) None"
    using source(4,5) thread(9) by (cases y) (simp add: u_def)
  ultimately have "y \<in> set (enabled_steps_for_thread p t u)"
    using program_action_has_next [of p t u] by (simp add: enabled_steps_for_thread_def)
  then show ?thesis using source(1) unfolding enabled_step_iff u_def by blast
qed

lemma arrivals_commute:
  assumes wf: "wf_state p s"
    and enabled: "x \<in> set (enabled_steps p s)" "y \<in> set (enabled_steps p s)" and t: "s_thread x \<noteq> s_thread y"
    and a: "a_kind (acts p s x) = BarrierWait" "a_kind (acts p s y) = BarrierWait"
      "a_barrier (acts p s y) = a_barrier (acts p s x)"
    and b: "mlookup (st_barriers s) (a_barrier (acts p s x)) = Some b" "a_parties (acts p s x) \<noteq> 0"
      "a_parties (acts p s x) = parties b" "a_parties (acts p s y) = parties b"
      "\<not> omember (s_thread x) (arrivals b)" "\<not> omember (s_thread y) (arrivals b)" "msize (arrivals b) + 2 < parties b"
  shows "commute_at p s x y"
proof -
  define n where "n = a_barrier (acts p s x)"
  have sx: "\<not> is_flush_step x" "p ! s_thread x ! s_index x = acts p s x"
    using acts_source [OF wf enabled(1)] a(1) by simp_all
  have sy: "\<not> is_flush_step y" "p ! s_thread y ! s_index y = acts p s y"
    using acts_source [OF wf enabled(2)] a(2) by simp_all
  have parks_x: "same_on (- {Arrived n}) s' s0 \<and> r = no_report \<and>
      (\<exists>c. mlookup (st_barriers s') n = Some c \<and> parties c = parties b \<and> arrivals c = oinsert (s_thread x) (arrivals d))"
    if "execute_enabled_step p s0 x = Inr (s', r)" "mlookup (st_barriers s0) n = Some d" "parties d = parties b"
      "msize (arrivals d) \<le> Suc (msize (arrivals b))" for s0 s' r d
    using arrival_parks [OF that(1) sx a(1), folded n_def, OF that(2)] that(3,4) b by simp
  have parks_y: "same_on (- {Arrived n}) s' s0 \<and> r = no_report \<and>
      (\<exists>c. mlookup (st_barriers s') n = Some c \<and> parties c = parties b \<and> arrivals c = oinsert (s_thread y) (arrivals d))"
    if "execute_enabled_step p s0 y = Inr (s', r)" "mlookup (st_barriers s0) n = Some d" "parties d = parties b"
      "msize (arrivals d) \<le> Suc (msize (arrivals b))" for s0 s' r d
    using arrival_parks [OF that(1) sy a(2), unfolded a(3), folded n_def, OF that(2)] that(3,4) b by simp
  have bs: "mlookup (st_barriers s) n = Some b" using b(1) by (simp add: n_def)
  show ?thesis
    unfolding commute_at_def
  proof (intro allI impI)
    fix s1 r s2 q
    assume "execute_enabled_step p s x = Inr (s1, r)" "execute_enabled_step p s y = Inr (s2, q)"
    with parks_x [OF _ bs] parks_y [OF _ bs] obtain c d
      where c: "same_on (- {Arrived n}) s1 s" "r = no_report" "mlookup (st_barriers s1) n = Some c" "parties c = parties b"
        "arrivals c = oinsert (s_thread x) (arrivals b)"
      and d: "same_on (- {Arrived n}) s2 s" "q = no_report" "mlookup (st_barriers s2) n = Some d" "parties d = parties b"
        "arrivals d = oinsert (s_thread y) (arrivals b)"
      by auto
    have sizes: "msize (arrivals c) = Suc (msize (arrivals b))" "msize (arrivals d) = Suc (msize (arrivals b))"
      using b(5,6) by (simp_all add: c(5) d(5) msize_oinsert)
    have "y \<in> set (enabled_steps p s1)" "x \<in> set (enabled_steps p s2)"
      using arrival_stays_enabled [OF wf enabled(2) sy a(2), unfolded a(3), folded n_def, OF c(1,3)]
        arrival_stays_enabled [OF wf enabled(1) sx a(1), folded n_def, OF d(1,3)] t b(5,6)
      by (auto simp: c(5) d(5))
    moreover have "sim s12 s21 \<and> same_kind r r' \<and> same_kind q q'"
      if e: "execute_enabled_step p s1 y = Inr (s12, q')" "execute_enabled_step p s2 x = Inr (s21, r')" for s12 q' s21 r'
    proof -
      obtain c' where c': "same_on (- {Arrived n}) s12 s1" "q' = no_report" "mlookup (st_barriers s12) n = Some c'"
          "parties c' = parties b" "arrivals c' = oinsert (s_thread y) (arrivals c)"
        using parks_y [OF e(1) c(3,4)] sizes by auto
      obtain d' where d': "same_on (- {Arrived n}) s21 s2" "r' = no_report" "mlookup (st_barriers s21) n = Some d'"
          "parties d' = parties b" "arrivals d' = oinsert (s_thread x) (arrivals d)"
        using parks_x [OF e(2) d(3,4)] sizes by auto
      have "arrivals c' = arrivals d'" by (rule oset_eqI) (auto simp: c'(5) d'(5) c(5) d(5))
      then have "same_at s12 s21 (Arrived n)" using c'(3,4) d'(3,4) by (simp add: barrier_view_def)
      moreover have elsewhere: "same_on (- {Arrived n}) s12 s21"
        using c'(1) c(1) d'(1) d(1) same_on_trans same_on_sym by blast
      then have "same_at s12 s21 l" if "l \<noteq> Arrived n" for l using that by (simp add: same_on_def)
      ultimately have "same_at s12 s21 l" for l by (cases "l = Arrived n") auto
      then have "sim s12 s21" using elsewhere by (simp add: sim_same_on same_on_def)
      then show ?thesis using c(2) d(2) c'(2) d'(2) by simp
    qed
    ultimately show "y \<in> set (enabled_steps p s1) \<and> x \<in> set (enabled_steps p s2) \<and>
        (\<forall>s12 q' s21 r'. execute_enabled_step p s1 y = Inr (s12, q') \<longrightarrow>
           execute_enabled_step p s2 x = Inr (s21, r') \<longrightarrow> sim s12 s21 \<and> same_kind r r' \<and> same_kind q q')"
      by blast
  qed
qed

text \<open>Under PSO the flushes of one thread to two addresses are apart; a taken mutex is only looked at.\<close>

lemma flushes_apart:
  assumes wf: "wf_state p s" and enabled: "x \<in> set (enabled_steps p s)" "y \<in> set (enabled_steps p s)"
    and kind: "a_kind (acts p s x) = Flush" "a_kind (acts p s y) = Flush" and t: "s_thread x = s_thread y"
    and addresses: "a_address (acts p s x) \<noteq> a_address (acts p s y)"
  shows "steps_apart p s x y" "written_by p s x \<inter> written_by p s y = {}"
proof -
  have "st_model s \<noteq> TSO"
    using acts_flush [OF wf enabled(1) kind(1)] acts_flush [OF wf enabled(2) kind(2)] t addresses
    by (auto simp: acts_def effective_action_for_step_def)
  then have foot:
    "written_by p s x = {Cell (a_address (acts p s x)), Pending (s_thread y) (a_address (acts p s x))}"
    "written_by p s y = {Cell (a_address (acts p s y)), Pending (s_thread y) (a_address (acts p s y))}"
    "reads_by p s x = {Started (s_thread y), Pending (s_thread y) (a_address (acts p s x))}"
    "reads_by p s y = {Started (s_thread y), Pending (s_thread y) (a_address (acts p s y))}"
    unfolding footprint_effective [OF wf enabled(1)] footprint_effective [OF wf enabled(2)]
    by (simp_all add: kind t reads_def written_def insert_commute)
  show "steps_apart p s x y" "written_by p s x \<inter> written_by p s y = {}"
    unfolding steps_apart_def foot using addresses by auto
qed

lemma attempts_apart:
  assumes wf: "wf_state p s" and enabled: "x \<in> set (enabled_steps p s)" "y \<in> set (enabled_steps p s)"
    and kind: "a_kind (acts p s x) = TryLock" "a_kind (acts p s y) = TryLock" and t: "s_thread x \<noteq> s_thread y"
    and taken: "mlookup (st_mutex_owner s) (a_mutex (acts p s x)) \<noteq> None" "a_mutex (acts p s y) = a_mutex (acts p s x)"
  shows "steps_apart p s x y" "written_by p s x \<inter> written_by p s y = {}"
proof -
  have foot: "written_by p s x = {Control (s_thread x)}" "written_by p s y = {Control (s_thread y)}"
    "reads_by p s x = insert (Owner (a_mutex (acts p s x))) (thread_reads (s_thread x))"
    "reads_by p s y = insert (Owner (a_mutex (acts p s x))) (thread_reads (s_thread y))"
    unfolding footprint_effective [OF wf enabled(1)] footprint_effective [OF wf enabled(2)]
    using taken by (simp_all add: kind reads_def written_def)
  show "steps_apart p s x y" "written_by p s x \<inter> written_by p s y = {}"
    unfolding steps_apart_def foot using t by (auto simp: thread_reads_def)
qed

section \<open>Soundness of the relation\<close>

abbreviation transition_at :: "program \<Rightarrow> exec_state \<Rightarrow> schedule_step \<Rightarrow> transition" where
  "transition_at p s x \<equiv> enabled_as_transition x (enabled_transition_for p s x)"

lemma transition_at_sel:
  "tr_thread (transition_at p s x) = s_thread x" "tr_action (transition_at p s x) = acts p s x"
  by (simp_all add: enabled_as_transition_def enabled_transition_for_def acts_def Let_def)

lemma source_step_unique:
  assumes "wf_state p s" "x \<in> set (enabled_steps p s)" "y \<in> set (enabled_steps p s)"
    and "\<not> is_flush_step x" "\<not> is_flush_step y" "s_thread x = s_thread y"
  shows "x = y"
  using enabled_source_step(4,5) [OF assms(1,2,4)] enabled_source_step(4,5) [OF assms(1,3,5)] assms(6)
  by (cases x; cases y) simp

lemma independent_commute:
  assumes prog: "indexable p" "wf_state p s" and named: "stores_named s"
    and enabled: "x \<in> set (enabled_steps p s)" "y \<in> set (enabled_steps p s)" and distinct: "x \<noteq> y"
    and indep: "transitions_independent_at_node p (st_model s) (dpor_node_for p s sleep_set)
      (transition_at p s x) (transition_at p s y)"
  shows "commute_at p s x y"
proof -
  define a b where "a = acts p s x" and "b = acts p s y"
  define node where "node = dpor_node_for p s sleep_set"
  have owners: "dn_mutex_owner node = st_mutex_owner s" and barriers: "dn_barriers node = st_barriers s"
    by (simp_all add: node_def dpor_node_for_def)
  have threads: "s_thread x \<noteq> s_thread y" if "a_kind a \<notin> {Flush, Lock}" "a_kind b \<notin> {Flush, Lock}"
    using source_step_unique [OF prog(2) enabled] acts_source(1) [OF prog(2)] enabled that distinct
    unfolding a_def b_def by blast
  consider (attempts) "a_kind a = TryLock" "a_kind b = TryLock" "a_mutex b = a_mutex a"
      "mlookup (st_mutex_owner s) (a_mutex a) \<noteq> None"
    | (arrivals) e where "a_kind a = BarrierWait" "a_kind b = BarrierWait" "a_barrier b = a_barrier a"
      "mlookup (st_barriers s) (a_barrier a) = Some e" "a_parties a \<noteq> 0" "a_parties a = parties e"
      "a_parties b = parties e" "\<not> omember (s_thread x) (arrivals e)" "\<not> omember (s_thread y) (arrivals e)"
      "msize (arrivals e) + 2 < parties e"
    | (others) "transitions_independent p (st_model s) (s_thread x) a (s_thread y) b"
    using indep unfolding transitions_independent_at_node_def transition_at_sel node_def [symmetric] a_def [symmetric] b_def [symmetric]
      same_mutex_try_locks_independent_at_node_def same_barrier_arrivals_independent_at_node_def owners barriers
    by (auto split: if_splits option.splits)
  then show ?thesis
  proof cases
    case attempts
    have "s_thread x \<noteq> s_thread y" using attempts(1,2) by (intro threads) simp_all
    note apart = attempts_apart [OF prog(2) enabled attempts(1,2) [unfolded a_def b_def]
        this attempts(4,3) [unfolded a_def b_def]]
    show ?thesis
      by (rule commute_when_apart [OF prog enabled apart(1)]) (use apart(2) in blast)
  next
    case (arrivals e)
    then have "s_thread x \<noteq> s_thread y" by (intro threads) simp_all
    then show ?thesis
      using arrivals_commute [OF prog(2) enabled _ arrivals [unfolded a_def b_def]] by blast
  next
    case others
    show ?thesis
    proof (cases "s_thread x = s_thread y")
      case True
      then have kinds: "a_kind a = Flush" "a_kind b = Flush" "a_address a \<noteq> a_address b"
        using others by (simp_all add: transitions_independent_same_thread)
      note apart = flushes_apart [OF prog(2) enabled kinds(1,2) [unfolded a_def b_def] True kinds(3) [unfolded a_def b_def]]
      show ?thesis
        by (rule commute_when_apart [OF prog enabled apart(1)]) (use apart(2) in blast)
    next
      case False
      have swapped: "transitions_independent p (st_model s) (s_thread y) b (s_thread x) a"
        using others transitions_independent_sym by blast
      note x = independent_locations [OF prog(2,1) enabled False others [unfolded a_def b_def]
          flush_named [OF prog(2,1) enabled(1) named]]
      note y = independent_locations [OF prog(2,1) enabled(2,1) False [symmetric] swapped [unfolded a_def b_def]
          flush_named [OF prog(2,1) enabled(2) named]]
      have "steps_apart p s x y" using x(1) y(1) unfolding steps_apart_def by blast
      then show ?thesis by (rule posts_commute [OF prog enabled _ x(2)])
    qed
  qed
qed

section \<open>Equal behaviour has equal fingerprints\<close>

lemma filtered_entries_eq:
  fixes m m' :: "('k::linorder, 'v) omap"
  assumes "\<And>n v. (\<exists>x. mlookup m n = Some x \<and> P x \<and> v = f x) \<longleftrightarrow> (\<exists>x. mlookup m' n = Some x \<and> P x \<and> v = f x)"
  shows "map (\<lambda>(n, x). (n, f x)) (filter (\<lambda>(_, x). P x) (mentries m)) =
         map (\<lambda>(n, x). (n, f x)) (filter (\<lambda>(_, x). P x) (mentries m'))"
proof (rule map_of_ascending_eq)
  define es where "es m = map (\<lambda>(n, x). (n, f x)) (filter (\<lambda>(_, x). P x) (mentries m))" for m :: "('k, 'v) omap"
  have asc: "ascending (map fst (es m))" for m
  proof -
    have "map fst (es m) = map fst (filter (\<lambda>(_, x). P x) (mentries m))"
      by (simp add: es_def comp_def case_prod_unfold)
    moreover have "sorted_wrt (\<lambda>x y. fst x < fst y) (mentries m)"
      using ascending_mentries [of m] by (simp add: ascending_def sorted_wrt_map)
    ultimately show ?thesis by (simp add: ascending_def sorted_wrt_map sorted_wrt_filter)
  qed
  then show "ascending (map fst (map (\<lambda>(n, x). (n, f x)) (filter (\<lambda>(_, x). P x) (mentries m))))"
    "ascending (map fst (map (\<lambda>(n, x). (n, f x)) (filter (\<lambda>(_, x). P x) (mentries m'))))"
    unfolding es_def by blast+
  have "map_of (es m) n = Some v \<longleftrightarrow> (\<exists>x. mlookup m n = Some x \<and> P x \<and> v = f x)" for m n v
    using asc [of m] by (auto simp: map_of_eq_Some_iff ascending_distinct es_def mentries_iff image_iff)
  then have "map_of (es m) n = Some v \<longleftrightarrow> map_of (es m') n = Some v" for n v
    using assms by simp
  then have "map_of (es m) n = map_of (es m') n" for n by (metis not_None_eq)
  then show "map_of (map (\<lambda>(n, x). (n, f x)) (filter (\<lambda>(_, x). P x) (mentries m))) =
      map_of (map (\<lambda>(n, x). (n, f x)) (filter (\<lambda>(_, x). P x) (mentries m')))"
    unfolding es_def by blast
qed

lemma filtered_by_view:
  assumes "\<And>n. f (mget d m n) = f (mget d m' n)" "\<And>x y. f x = f y \<Longrightarrow> P x = P y" "\<not> P d"
  shows "map (\<lambda>(n, x). (n, f x)) (filter (\<lambda>(_, x). P x) (mentries m)) =
         map (\<lambda>(n, x). (n, f x)) (filter (\<lambda>(_, x). P x) (mentries m'))"
proof (rule filtered_entries_eq)
  have "(\<exists>x. mlookup m n = Some x \<and> P x \<and> v = f x) \<longleftrightarrow> P (mget d m n) \<and> v = f (mget d m n)" for m n v
    using assms(3) by (auto simp: mget_def split: option.splits)
  then show "(\<exists>x. mlookup m n = Some x \<and> P x \<and> v = f x) \<longleftrightarrow> (\<exists>x. mlookup m' n = Some x \<and> P x \<and> v = f x)" for n v
    using assms(1) [of n] assms(2) by metis
qed

lemma sim_fingerprint:
  assumes "sim s t"
  shows "behavioral_state_fingerprint s = behavioral_state_fingerprint t"
proof -
  note same = simD [OF assms]
  have rw: "occupied_rwlocks s = occupied_rwlocks t"
    unfolding occupied_rwlocks_def
  proof (rule filtered_by_view [where d = empty_rwlock])
    fix n
    show "(writer_holder (mget empty_rwlock (st_rwlocks s) n), mkeys (reader_holders (mget empty_rwlock (st_rwlocks s) n))) =
      (writer_holder (mget empty_rwlock (st_rwlocks t) n), mkeys (reader_holders (mget empty_rwlock (st_rwlocks t) n)))"
      using fun_cong [OF same(5), of n] by (simp add: rw_view_def Let_def)
  qed (auto simp: empty_rwlock_def dest: mkeys_inject)
  have sem: "nonzero_semaphores s = nonzero_semaphores t"
    unfolding nonzero_semaphores_def
    by (rule filtered_by_view [where d = empty_semaphore])
      (use fun_cong [OF same(6)] in \<open>auto simp: permit_view_def empty_semaphore_def\<close>)
  have bar: "active_barriers s = active_barriers t"
    unfolding active_barriers_def
  proof (rule filtered_entries_eq)
    fix n v
    have "(\<exists>x. mlookup (st_barriers u) n = Some x \<and> arrivals x \<noteq> mempty \<and> v = (parties x, mkeys (arrivals x))) \<longleftrightarrow>
        (\<exists>k A. barrier_view u n = Some (k, A) \<and> A \<noteq> mempty \<and> v = (k, mkeys A))" for u
      by (auto simp: barrier_view_def)
    then show "(\<exists>x. mlookup (st_barriers s) n = Some x \<and> arrivals x \<noteq> mempty \<and> v = (parties x, mkeys (arrivals x))) \<longleftrightarrow>
        (\<exists>x. mlookup (st_barriers t) n = Some x \<and> arrivals x \<noteq> mempty \<and> v = (parties x, mkeys (arrivals x)))"
      using same(7) by simp
  qed
  have plain: "filter (\<lambda>(_, x). P x) es = map (\<lambda>(n, x). (n, id x)) (filter (\<lambda>(_, x). P x) es)" for P es
    by (simp add: case_prod_unfold)
  have wait: "nonempty_wait_sets s = nonempty_wait_sets t"
    unfolding nonempty_wait_sets_def
    by (subst (1 2) plain, rule filtered_by_view [where d = "[]"]) (use fun_cong [OF same(8)] in auto)
  have vals: "nonzero_cells s = nonzero_cells t"
    unfolding nonzero_cells_def
    by (subst (1 2) plain, rule filtered_by_view [where d = 0]) (use fun_cong [OF same(11)] in auto)
  show ?thesis
    unfolding behavioral_state_fingerprint_def pso_part_def same(1-4,9,10,12,13) rw sem bar wait vals ..
qed

section \<open>In a run\<close>

lemma execute_in_room:
  assumes "room_for p (Suc n) s" "x \<in> set (enabled_steps p s)"
  obtains s' r where "execute_enabled_step p s x = Inr (s', r)" "room_for p n s'"
proof -
  note R = assms(1) [unfolded room_for_def]
  have "completes (execute_enabled_step p s x)"
    using R by (intro execute_enabled_step_completes [OF _ _ _ assms(2)]) auto
  then obtain s' r where ex: "execute_enabled_step p s x = Inr (s', r)" by (auto simp: completes_def)
  moreover have "room_for p n s'"
    using R wf_execute_enabled_step [OF _ _ assms(2) ex] execute_enabled_step_parts [OF ex] by (simp add: room_for_def)
  ultimately show ?thesis by (rule that)
qed

lemma commute_in_room:
  assumes room: "room_for p 2 s" and enabled: "x \<in> set (enabled_steps p s)" "y \<in> set (enabled_steps p s)"
    and commute: "commute_at p s x y"
  shows "\<exists>s1 r s2 q s12 q' s21 r'.
    execute_enabled_step p s x = Inr (s1, r) \<and> y \<in> set (enabled_steps p s1) \<and>
    execute_enabled_step p s1 y = Inr (s12, q') \<and>
    execute_enabled_step p s y = Inr (s2, q) \<and> x \<in> set (enabled_steps p s2) \<and>
    execute_enabled_step p s2 x = Inr (s21, r') \<and>
    same_kind r r' \<and> same_kind q q' \<and> behavioral_state_fingerprint s12 = behavioral_state_fingerprint s21"
proof -
  have "room_for p (Suc (Suc 0)) s" using room by (simp add: numeral_2_eq_2)
  note first = execute_in_room [OF this]
  obtain s1 r where x: "execute_enabled_step p s x = Inr (s1, r)" "room_for p (Suc 0) s1" by (rule first [OF enabled(1)])
  obtain s2 q where y: "execute_enabled_step p s y = Inr (s2, q)" "room_for p (Suc 0) s2" by (rule first [OF enabled(2)])
  have after: "y \<in> set (enabled_steps p s1)" "x \<in> set (enabled_steps p s2)"
    using commute x(1) y(1) unfolding commute_at_def by blast+
  obtain s12 q' where xy: "execute_enabled_step p s1 y = Inr (s12, q')" by (rule execute_in_room [OF x(2) after(1)])
  obtain s21 r' where yx: "execute_enabled_step p s2 x = Inr (s21, r')" by (rule execute_in_room [OF y(2) after(2)])
  have "sim s12 s21" "same_kind r r'" "same_kind q q'"
    using commute x(1) y(1) xy yx unfolding commute_at_def by blast+
  then show ?thesis using x(1) y(1) after xy yx sim_fingerprint by blast
qed

lemma room_for_run:
  assumes "indexable p" "registers_ok p" "run p xs (initial_state p m) = Some s" "length xs + n \<le> counter_limit"
  shows "room_for p n s" "st_model s = m" "stores_named s"
proof -
  have "wf_state p s" using assms(1,3) wf_run wf_initial_state by blast
  moreover have "counters_below (length (st_schedule s)) s" "length (st_schedule s) = length xs"
    using run_parts(1,5) [OF assms(3)] counters_initial by (simp_all add: initial_state_pc)
  ultimately show "room_for p n s" using assms(1,2,4) by (simp add: room_for_def)
  show "st_model s = m" using run_parts(2) [OF assms(3)] by (simp add: initial_state_pc)
  show "stores_named s"
    using stores_named_run [OF assms(1) wf_initial_state stores_named_initial assms(3)] .
qed

end
