(* ===== verification/Reordering.thy ===== *)
theory Reordering
  imports Commuting_Steps
begin

text \<open>
  Schedules up to the order of independent steps. Swapping two neighbours that the explorer's
  relation declares independent, where both were enabled, turns a run into a run that ends in the
  same behaviour; so does any sequence of such swaps.
\<close>

definition independent_at :: "program \<Rightarrow> memory_model \<Rightarrow> exec_state \<Rightarrow> schedule_step \<Rightarrow> schedule_step \<Rightarrow> bool" where
  "independent_at p m s x y \<longleftrightarrow>
     transitions_independent_at_node p m (dpor_node_for p s [])
       (enabled_as_transition x (enabled_transition_for p s x))
       (enabled_as_transition y (enabled_transition_for p s y))"

inductive reordering :: "program \<Rightarrow> memory_model \<Rightarrow> schedule \<Rightarrow> schedule \<Rightarrow> bool"
  for p :: program and m :: memory_model and us :: schedule where
  same: "reordering p m us us"
| swap: "reordering p m us (xs @ x # y # zs) \<Longrightarrow> run p xs (initial_state p m) = Some s \<Longrightarrow>
    x \<noteq> y \<Longrightarrow> y \<in> set (enabled_steps p s) \<Longrightarrow> independent_at p m s x y \<Longrightarrow>
    reordering p m us (xs @ y # x # zs)"

lemma run_Cons_iff:
  "run p (x # xs) s = Some t \<longleftrightarrow>
     x \<in> set (enabled_steps p s) \<and>
     (\<exists>s' r. execute_enabled_step p s x = Inr (s', r) \<and> \<not> step_terminal r \<and> run p xs s' = Some t)"
  by (auto split: sum.splits)

lemma sim_run:
  assumes "sim s t" "run p xs s = Some s'" "room_for p (length xs) t"
  shows "\<exists>t'. run p xs t = Some t' \<and> sim s' t'"
  using assms
proof (induction xs arbitrary: s t)
  case (Cons x xs)
  then obtain s1 where "step_to p s x s1" "run p xs s1 = Some s'"
    by (auto simp: step_to_def run_Cons_iff simp del: run.simps)
  moreover from this(1) obtain t1 where "step_to p t x t1" "sim s1 t1" "room_for p (length xs) t1"
    using sim_step_to [OF Cons.prems(1)] Cons.prems(3) by fastforce
  ultimately show ?case using Cons.IH by (auto simp: step_to_def run_Cons_iff simp del: run.simps)
qed simp

lemma run_swap:
  assumes room: "room_for p (length (x # y # zs)) s" and named: "stores_named s" and m: "st_model s = m"
    and tail: "run p (x # y # zs) s = Some t" and y: "y \<in> set (enabled_steps p s)" and xy: "x \<noteq> y"
    and indep: "independent_at p m s x y"
  shows "\<exists>t'. run p (y # x # zs) s = Some t' \<and> sim t t'"
proof -
  have prog: "indexable p" "wf_state p s" using room by (simp_all add: room_for_def)
  obtain s1 r s12 q' where x: "x \<in> set (enabled_steps p s)"
    and e1: "execute_enabled_step p s x = Inr (s1, r)" "\<not> step_terminal r"
    and e12: "execute_enabled_step p s1 y = Inr (s12, q')" "\<not> step_terminal q'"
    and rest: "run p zs s12 = Some t"
    using tail unfolding run_Cons_iff by blast
  have commute: "commute_at p s x y"
    using independent_commute [OF prog named x y xy] indep unfolding m independent_at_def by blast
  have room': "room_for p (Suc (Suc (length zs))) s" using room by simp
  obtain s2 q where e2: "execute_enabled_step p s y = Inr (s2, q)" and room2: "room_for p (Suc (length zs)) s2"
    by (rule execute_in_room [OF room' y])
  have x2: "x \<in> set (enabled_steps p s2)" using commute e1(1) e2 unfolding commute_at_def by blast
  obtain s21 r' where e21: "execute_enabled_step p s2 x = Inr (s21, r')" and room21: "room_for p (length zs) s21"
    by (rule execute_in_room [OF room2 x2])
  have meet: "sim s12 s21" "same_kind r r'" "same_kind q q'"
    using commute e1(1) e2 e12(1) e21 unfolding commute_at_def by blast+
  then have "\<not> step_terminal q" "\<not> step_terminal r'"
    using e1(2) e12(2) same_kind_terminal by blast+
  moreover obtain t' where "run p zs s21 = Some t'" "sim t t'"
    using sim_run [OF meet(1) rest room21] by blast
  ultimately show ?thesis using y e2 x2 e21 unfolding run_Cons_iff by blast
qed

lemma reordering_length: "reordering p m us vs \<Longrightarrow> length vs = length us"
  by (induction rule: reordering.induct) auto

lemma reordering_meets:
  assumes "reordering p m us vs" and prog: "indexable p" "registers_ok p"
    and len: "length us \<le> counter_limit" and start: "run p us (initial_state p m) = Some s"
  shows "\<exists>t. run p vs (initial_state p m) = Some t \<and> sim s t"
  using assms(1)
proof induction
  case same
  then show ?case using start by auto
next
  case (swap xs x y zs s0)
  then obtain t where t: "run p (xs @ x # y # zs) (initial_state p m) = Some t" "sim s t" by blast
  then have tail: "run p (x # y # zs) s0 = Some t" using swap.hyps(2) by (simp only: run_append option.case)
  have "length (xs @ x # y # zs) = length us"
    by (rule reordering_length [OF swap.hyps(1)])
  then have "length xs + length (x # y # zs) \<le> counter_limit" using len by simp
  note room = room_for_run [OF prog swap.hyps(2) this]
  obtain t' where t': "run p (y # x # zs) s0 = Some t'" "sim t t'"
    using run_swap [OF room(1,3,2) tail swap.hyps(4,3,5)] by blast
  then have "run p (xs @ y # x # zs) (initial_state p m) = Some t'"
    using swap.hyps(2) by (simp only: run_append option.case)
  then show ?case using t(2) t'(2) sim_trans by blast
qed

end
