(* ===== verification/Spec2Isabelle.thy ===== *)
theory Spec2Isabelle
  imports Front_End Race_Search Reordering
begin

text \<open>
  A verification development for a stateless model checker of small concurrent programs: an
  interpreter of shared-memory programs under SC, TSO and PSO, a naive depth-first explorer, a
  DPOR explorer, a minimizer and replayer of bug schedules, the command line \<open>dpor\<close> around
  them, and an exporter of evidence as JSON. The definitions are translated from the C++ sources and keep their names; all of them
  are executable, and the properties below are stated about them.

  \<^bold>\<open>The program and its parts.\<close> A file is parsed into a program, a list of threads that are
  lists of actions. The interpreter holds an \<open>ExecutionState\<close>; in each state a number of
  transitions are enabled (the next action of a thread, or the flush of a buffered store), and
  executing one gives the next state and a step report (race, assertion failure, modeled error).
  The explorers walk the tree of schedules below a step bound, cut a path that returns to a
  behaviour it had before (a lasso, found by comparing fingerprints), collect the first report
  of each kind, and minimize its schedule by replaying shorter ones. The command line prints the
  report with the minimized schedule, which the replay command reads back. The exporter runs both
  explorers, checks them against each other, and prints the runs, the witnesses, and the tree of
  explored and pruned schedules.

  \<^bold>\<open>Theories and sources.\<close>
  \<^item> \<open>Prelude\<close>, \<open>Ordered_Map\<close>, \<open>Text\<close>: what the source uses of the standard library. Exceptions
    and failed assertions are the left side of \<open>res\<close>; \<open>std::map\<close> and \<open>std::set\<close> are a type of
    maps with ordered entries; ordered vectors, lines, words and decimal numbers.
  \<^item> \<open>Vector_Clock\<close> (model/vector_clock.cpp) and \<open>Actions\<close> (model/action.cpp): clocks, actions,
    and the action-only relations.
  \<^item> \<open>Machine_State\<close>, \<open>Enabledness\<close>, \<open>Race_Detector\<close>, \<open>Step\<close> (the first half of
    model/checker.cpp): the state, the enabled transitions, the race detector on one address,
    and one definition per case of \<open>execute_enabled_step\<close>.
  \<^item> \<open>Fingerprint\<close>: the byte encoding of a behavioural state and the path history.
    \<open>Reports\<close>, \<open>Replay\<close>: results and their records, the replay loop.
  \<^item> \<open>Explorer_Naive\<close>, \<open>Minimizer\<close>, \<open>Explore_Naive\<close>: the naive search with its history, the
    schedule collector, bug identities, minimization, and \<open>ModelChecker::explore_naive\<close>.
  \<^item> \<open>Dpor_Node\<close>, \<open>Independence\<close>, \<open>Dpor\<close>: the nodes of the search tree with their repairs of
    disabled steps, the pruning predicate, and the DPOR search with backtrack and sleep sets.
  \<^item> \<open>Inspection\<close>, \<open>Model_Checker\<close>: the observed effects of a replay, and the class with the
    checks of its constructor.
  \<^item> \<open>Parser\<close> (cli/program_parser.cpp), \<open>Report\<close> (cli/report.cpp), \<open>Command_Line\<close>
    (cli/main.cpp): files to programs and schedules, results to text, arguments to exit status.
    What a process reads is an argument \<open>env\<close>: the contents of the readable files, and the text
    of the \<open>std::out_of_range\<close> exceptions, which the standard library chooses.
  \<^item> \<open>Json\<close> (showcase/json_writer.hpp), \<open>Exporter\<close> (showcase/exporter.cpp): the JSON writer, with a
    reader of JSON as its reference, and the exporter from its options to its exit status; the
    elapsed times of the two explorations are part of the environment.

  The other theories hold proofs. \<open>Well_Formed\<close>, \<open>Step_Frames\<close>, \<open>Step_Invariant\<close>,
  \<open>Step_Progress\<close> and \<open>Step_Reports\<close>: the invariant of the state, what each case of the step
  leaves alone, that it keeps the invariant, that it completes, and what it reports.
  \<open>Reachability\<close>: the transition system and its runs. \<open>Sizes\<close>: how large a reachable state can
  be. \<open>Behavior\<close>, \<open>Footprint\<close>, \<open>Bisimulation\<close>, \<open>Lasso\<close>: a state is a family of locations, a step
  depends on what it reads only, equality of fingerprints is a bisimulation, so a
  repeated behaviour pumps. \<open>Locality\<close>, \<open>Commutation\<close>, \<open>Independent_Steps\<close>, \<open>Apart_Steps\<close>,
  \<open>Commuting_Steps\<close>, \<open>Reordering\<close>: a step changes what it writes only, steps that do not read what
  the other writes commute, and the explorer's independence relation separates such steps, or
  steps that share an object and still commute. \<open>Acyclic\<close>: a weight that decreases with every step when no branch
  goes backward. \<open>Clocks\<close>, \<open>Races\<close>, \<open>Race_Search\<close>: vector clocks along runs, and the race
  detector against the definition of a data race. \<open>Naive_Correct\<close>, \<open>Naive_Total\<close>,
  \<open>Naive_Complete\<close>, \<open>Complete_Schedules\<close>: the naive search is sound, returns, is exhaustive,
  and enumerates the executions, in lexicographic order. \<open>Dpor_Nodes\<close>, \<open>Dpor_Correct\<close>,
  \<open>Dpor_Progress\<close>: what the DPOR search keeps, that it returns, that all it counts and reports are
  executions, that collecting schedules changes nothing else, and that it explores at least one.
  \<open>Parser_Actions\<close>,
  \<open>Parser_Correct\<close>, \<open>Parser_Errors\<close>, \<open>Report_Correct\<close>, \<open>Command_Correct\<close>, \<open>Front_End\<close>: the
  accepted files and their round trip, the exceptions, the reports, and the commands.
  \<open>Exporter_Values\<close>: what is exported is well-formed JSON. \<open>Exporter_Tree\<close>: the tree over the
  contract \<open>explored_tree\<close>, which \<open>Exporter_Walks\<close> proves of the model's executions.
  \<open>Exporter_Correct\<close>: witnesses replay with all of their evidence and the collected schedules
  agree with the explorations, so that an export fails only for the reasons it announces.
  \<open>Exporter_Runs\<close>: the numbers of the runs and the nodes, the options, and the process.

  The interfaces are locales: a prefix code for the fingerprint, an algebra of clocks, a
  bisimulation with a budget for the lassos, the explored tree of an export, and others in the
  theories above; each is
  interpreted on the definitions of the checker that provide it.

  \<^bold>\<open>Integers.\<close> Cell values are 64-bit words with the wrap-around of the source's unsigned
  arithmetic. Thread ids, indexes, clocks and step counts are natural numbers; the theorems that
  depend on their width say so: \<open>explorable p b\<close> holds when the actions of \<open>p\<close> are numbered
  below the reserved flush index, registers are below the register count, no source action is a
  flush (the parser builds no other programs), \<open>length p * b\<close> (the longest execution below the
  bound) is below \<open>counter_limit\<close>, and, when the program has a backward branch, its text and
  that number of steps fit the 64-bit length fields of the fingerprint (\<open>program_fits\<close>). It is
  decided by evaluation.

  \<^bold>\<open>Fuel.\<close> The recursion of the explorers takes a fuel argument, \<open>depth_fuel p b\<close> and
  \<open>dpor_fuel p b\<close>. A path below the bound has at most \<open>length p * b\<close> steps, so the depth fuel is
  one more; the DPOR search takes in addition at most \<open>width p\<close> choices at each node, and
  \<open>dpor_fuel\<close> multiplies with that. \<open>explore_naive_returns\<close> and \<open>explore_dpor_returns\<close> show that
  the fuel is enough: running out of it would be the error that they exclude.

  \<^bold>\<open>What the properties say.\<close> Every state of an execution is well formed and every enabled
  step of it completes; equal fingerprints are equal behaviours; a reported cycle can be
  repeated; programs without a backward branch need no cycle detection. Both explorers return,
  every report they make is reproduced by a replay of its minimized schedule; transitions that the
  DPOR explorer calls independent commute. The naive search is
  exhaustive for deadlocks, errors and failed assertions, and the DPOR search explores distinct
  executions out of those that the naive search enumerates. The race detector reports data races
  only; without backward branches it misses none. With them it can: the cycle cut compares
  behaviours, which do not hold clocks, and \<open>hidden_race\<close> in \<open>Race_Search\<close> is a program with a
  data race that no explorer reports. The front-end properties state the same for files and
  printed reports. An export is printed as JSON that reads back, or names a cut exploration or a
  disagreement of the explorers; its tree accounts for every execution.

  \<^bold>\<open>Not modelled.\<close> The counters of model/exploration_metrics.cpp, which are compiled in for
  measurements only and which no decision reads; opening files and writing streams beyond the
  environment above; the compiler probe that CMake generates.

  \<^bold>\<open>Not proved.\<close> That the DPOR reduction misses no bug: independent transitions are shown to
  commute, schedules that differ in their order to be interchangeable, and the backtrack points
  are characterised, but that the search visits every class of interchangeable schedules is open.
\<close>

section \<open>Example programs\<close>

text \<open>Two threads that lock one mutex; the second never unlocks it.\<close>

definition two_locks :: program where
  "two_locks =
     [[default_action\<lparr>a_kind := Lock, a_mutex := ''m''\<rparr>,
       default_action\<lparr>a_kind := Write, a_address := ''x'', a_value := Some (Immediate 7)\<rparr>,
       default_action\<lparr>a_kind := Unlock, a_mutex := ''m''\<rparr>],
      [default_action\<lparr>a_kind := Lock, a_mutex := ''m''\<rparr>]]"

text \<open>A thread that sets a register and branches back for ever.\<close>

definition spin :: program where
  "spin =
     [[default_action\<lparr>a_kind := Label, a_label := ''top''\<rparr>,
       default_action\<lparr>a_kind := Set, a_destination := Some 0, a_value := Some (Immediate 1)\<rparr>,
       default_action\<lparr>a_kind := BranchNonzero, a_source := Some 0, a_label := ''top''\<rparr>]]"

text \<open>An assertion that fails when the other thread has not written yet.\<close>

definition early_assert :: program where
  "early_assert =
     [[default_action\<lparr>a_kind := AtomicStore, a_address := ''x'', a_value := Some (Immediate 1)\<rparr>],
      [default_action\<lparr>a_kind := AtomicLoad, a_address := ''x'', a_destination := Some 0\<rparr>,
       default_action\<lparr>a_kind := Assert, a_source := Some 0\<rparr>]]"

lemma two_locks_explorable: "explorable two_locks 3"
  by code_simp

lemma early_assert_explorable: "explorable early_assert 2"
  by code_simp

section \<open>The interpreter\<close>

text \<open>
  C1. Every state that enabled steps reach from the initial state is well formed: vector
  lengths, normalised program counters, lock ownership by existing threads, a reader-writer
  lock never held by a writer and a reader, wait sets that list exactly the parked threads,
  barrier arrivals below the party count and parked at their barrier, store buffers of the
  selected memory model only.
\<close>

theorem reachable_well_formed:
  assumes "indexable p" and "run p steps (initial_state p m) = Some s"
  shows "wf_state p s"
  using assms wf_run wf_initial_state by blast

lemma reachable_well_formed_witness:
  "\<exists>s. run two_locks [Step 0 0 None, Step 0 1 None] (initial_state two_locks SC) = Some s \<and>
       wf_state two_locks s"
proof -
  have idx: "indexable two_locks" by code_simp
  have "run two_locks [Step 0 0 None, Step 0 1 None] (initial_state two_locks SC) \<noteq> None"
    by code_simp
  then show ?thesis using reachable_well_formed [OF idx] by blast
qed



text \<open>
  C3. A report names the step that made it and the schedule up to that step; a failed
  assertion read the value zero.
\<close>

theorem reports_name_their_step:
  assumes "execute_enabled_step p s x = Inr (s', r)"
  shows "(\<forall>e. sr_error r = Some e \<longrightarrow> me_schedule e = st_schedule s @ [x] \<and> me_endpoint e = x) \<and>
    (\<forall>f. sr_assertion r = Some f \<longrightarrow>
       af_schedule f = st_schedule s @ [x] \<and> af_endpoint f = x \<and> af_value f = 0) \<and>
    (\<forall>c. sr_race r = Some c \<longrightarrow> r_schedule c = st_schedule s @ [x] \<and> r_second c = x)"
  using execute_enabled_step_report [OF assms] execute_enabled_step_parts(1) [OF assms]
  by (simp add: report_ok_def)

text \<open>Thread 1 of \<open>early_assert\<close> has loaded zero and is at its assertion.\<close>

definition failing_state :: exec_state where
  "failing_state =
     (case run early_assert [Step 1 0 None] (initial_state early_assert SC) of
        Some s \<Rightarrow> s | None \<Rightarrow> initial_state early_assert SC)"

lemma reports_name_their_step_witness:
  "\<exists>s' r f. execute_enabled_step early_assert failing_state (Step 1 1 None) = Inr (s', r) \<and>
     sr_assertion r = Some f \<and> af_schedule f = [Step 1 0 None, Step 1 1 None]"
proof -
  have "case execute_enabled_step early_assert failing_state (Step 1 1 None) of
      Inl _ \<Rightarrow> False | Inr (s', r) \<Rightarrow> sr_assertion r \<noteq> None"
    by code_simp
  then obtain s' r f where ex: "execute_enabled_step early_assert failing_state (Step 1 1 None) = Inr (s', r)"
    and f: "sr_assertion r = Some f" by (auto split: sum.splits)
  have "st_schedule failing_state = [Step 1 0 None]" by code_simp
  then show ?thesis using reports_name_their_step [OF ex] ex f by simp
qed

section \<open>Behaviours and cycles\<close>

text \<open>
  C4. The behavioural fingerprint decides the behaviour: when the counts of both states are
  below 2^64, the byte strings are equal exactly when the memory model, the program counters,
  the started flags, the owners and holders, the permits, the arrivals, the wait sets, the
  registers, the wait phases, the memory and the pending stores are. The fixed-width
  little-endian encoding has no collisions.
\<close>

theorem fingerprint_exact:
  assumes "machine_sized s" "machine_sized t"
  shows "behavioral_state_fingerprint s = behavioral_state_fingerprint t \<longleftrightarrow>
    behavior_of s = behavior_of t"
  using assms by (rule fingerprint_exact_when_sized)

lemma fingerprint_exact_witness:
  "behavioral_state_fingerprint (initial_state spin SC) \<noteq>
     behavioral_state_fingerprint (initial_state spin TSO)"
proof -
  have sized: "machine_sized (initial_state spin SC)" "machine_sized (initial_state spin TSO)"
    by code_simp+
  have "st_model (initial_state spin SC) \<noteq> st_model (initial_state spin TSO)" by code_simp
  then have "behavior_of (initial_state spin SC) \<noteq> behavior_of (initial_state spin TSO)"
    by (auto simp: behavior_of_def)
  then show ?thesis using fingerprint_exact [OF sized] by blast
qed

text \<open>
  C5. Pumping: when the path of a program returns to a fingerprint, the part between the two
  visits can be executed again any number of times (within the range of the counters), and
  the state reached is bisimilar to the first. A reported cycle is an infinite execution.
\<close>

theorem cycle_pumps:
  assumes "indexable p" "registers_ok p"
    and "run p stem (initial_state p m) = Some s" and "run p cycle s = Some s'"
    and "behavioral_state_fingerprint s' = behavioral_state_fingerprint s"
    and "machine_sized s" "machine_sized s'"
    and "length stem + k * length cycle \<le> counter_limit"
  shows "\<exists>t. run p (stem @ concat (replicate k cycle)) (initial_state p m) = Some t \<and> sim s t"
  using assms by (rule lasso_pumps)

definition spinning :: exec_state where
  "spinning =
     (case run spin [Step 0 1 None, Step 0 2 None] (initial_state spin SC) of
        Some s \<Rightarrow> s | None \<Rightarrow> initial_state spin SC)"

definition spun :: exec_state where
  "spun = (case run spin [Step 0 1 None, Step 0 2 None] spinning of Some s \<Rightarrow> s | None \<Rightarrow> spinning)"

lemma cycle_pumps_witness:
  "\<exists>t. run spin ([Step 0 1 None, Step 0 2 None] @
      concat (replicate 1000000 [Step 0 1 None, Step 0 2 None])) (initial_state spin SC) = Some t \<and>
    sim spinning t"
proof -
  have prog: "indexable spin" "registers_ok spin" by code_simp+
  have "run spin [Step 0 1 None, Step 0 2 None] (initial_state spin SC) \<noteq> None" by code_simp
  then have stem: "run spin [Step 0 1 None, Step 0 2 None] (initial_state spin SC) = Some spinning"
    by (auto simp: spinning_def simp del: run.simps)
  have "run spin [Step 0 1 None, Step 0 2 None] spinning \<noteq> None" by code_simp
  then have cycle: "run spin [Step 0 1 None, Step 0 2 None] spinning = Some spun"
    by (auto simp: spun_def simp del: run.simps)
  have same: "behavioral_state_fingerprint spun = behavioral_state_fingerprint spinning" by code_simp
  have sized: "machine_sized spinning" "machine_sized spun" by code_simp+
  show ?thesis
    using cycle_pumps [OF prog stem cycle same sized, of 1000000] by (simp add: counter_limit_def)
qed

lemma never_revisits:
  assumes "indexable p" "\<not> requires_cycle_detection p"
    and "run p steps (initial_state p m) = Some s" "run p rest s = Some t" "rest \<noteq> []"
  shows "\<not> sim s t"
proof
  assume "sim s t"
  then have "weight p s = weight p t" by (rule weight_sim)
  then show False
    using weight_run [OF assms(1,2) wf_run [OF assms(1) wf_initial_state assms(3)] assms(4)] assms(5)
    by simp
qed

text \<open>
  C6. Without a backward branch every execution is finite, its length is at most the weight of
  the initial state, a number computed from the program; and no execution visits a behaviour
  twice, so the explorers may skip cycle detection.
\<close>

theorem acyclic_programs_terminate:
  assumes "indexable p" "\<not> requires_cycle_detection p"
    and "run p steps (initial_state p m) = Some s"
  shows "length steps \<le> weight p (initial_state p m) \<and>
    (\<forall>rest t. run p rest s = Some t \<longrightarrow> rest \<noteq> [] \<longrightarrow> \<not> sim s t)"
  using weight_run [OF assms(1,2) wf_initial_state assms(3)] never_revisits [OF assms] by simp

lemma acyclic_programs_terminate_witness:
  "length ([] :: schedule) \<le> weight two_locks (initial_state two_locks SC) \<and>
   (\<exists>t. run two_locks [Step 0 0 None] (initial_state two_locks SC) = Some t \<and>
     \<not> sim (initial_state two_locks SC) t)"
proof -
  have prog: "indexable two_locks" "\<not> requires_cycle_detection two_locks" by code_simp+
  have "run two_locks [Step 0 0 None] (initial_state two_locks SC) \<noteq> None" by code_simp
  then obtain t where t: "run two_locks [Step 0 0 None] (initial_state two_locks SC) = Some t" by blast
  have "run two_locks [] (initial_state two_locks SC) = Some (initial_state two_locks SC)" by simp
  from acyclic_programs_terminate [OF prog this] t
  have "\<not> sim (initial_state two_locks SC) t" by blast
  moreover from acyclic_programs_terminate [OF prog \<open>run two_locks [] _ = _\<close>]
  have "length ([] :: schedule) \<le> weight two_locks (initial_state two_locks SC)" by blast
  ultimately show ?thesis using t by blast
qed

section \<open>Reports of a single execution\<close>

text \<open>
  C7. In a reachable state without enabled steps the deadlock report is made without a failed
  assertion and lists exactly the started threads that are not finished, in ascending order,
  each once.
\<close>

theorem deadlock_reports_are_exact:
  assumes "indexable p" "source_kinds_ok p" "run p steps (initial_state p m) = Some s"
    and "enabled_steps p s = []"
  shows "\<exists>report. make_deadlock_report p s = Inr report \<and>
    map bt_thread (dl_blocked report) = unfinished p s \<and> dl_schedule report = steps"
proof -
  have "wf_state p s" using wf_run [OF assms(1) wf_initial_state assms(3)] .
  moreover have "st_schedule s = steps"
    using run_parts(1) [OF assms(3)] by (simp add: initial_state_pc)
  ultimately show ?thesis using deadlock_report_exact [OF _ assms(4,2)] by fastforce
qed

lemma deadlock_reports_are_exact_witness:
  "\<exists>s report. run two_locks [Step 1 0 None] (initial_state two_locks SC) = Some s \<and>
     make_deadlock_report two_locks s = Inr report \<and> map bt_thread (dl_blocked report) = [0]"
proof -
  have prog: "indexable two_locks" "source_kinds_ok two_locks" by code_simp+
  have "case run two_locks [Step 1 0 None] (initial_state two_locks SC) of
      None \<Rightarrow> False | Some s \<Rightarrow> enabled_steps two_locks s = [] \<and> unfinished two_locks s = [0]"
    by code_simp
  then obtain s where s: "run two_locks [Step 1 0 None] (initial_state two_locks SC) = Some s"
      "enabled_steps two_locks s = []" "unfinished two_locks s = [0]"
    by (auto split: option.splits)
  then show ?thesis using deadlock_reports_are_exact [OF prog s(1,2)] by auto
qed

text \<open>
  C8. Replay is total and exact: in a reachable state it accepts exactly the enabled steps, and
  whatever the schedule, it returns a result or rejects the schedule as invalid; it meets no
  failed assertion and no other exception.
\<close>

theorem replay_total_and_exact:
  assumes "explorable p b"
  shows "(\<forall>steps s x i. run p steps (initial_state p m) = Some s \<longrightarrow>
      (validate_replay_step p s x i = Inr () \<longleftrightarrow> x \<in> set (enabled_steps p s))) \<and>
    ((\<exists>r. replay_schedule p sch b m = Inr r) \<or>
     (\<exists>msg. replay_schedule p sch b m = Inl (Invalid_Argument msg)))"
proof -
  have idx: "indexable p" using assms by (simp add: explorable_def)
  have "validate_replay_step p s x i = Inr () \<longleftrightarrow> x \<in> set (enabled_steps p s)"
    if "run p steps (initial_state p m) = Some s" for steps s x i
    using validate_enabled [OF wf_run [OF idx wf_initial_state that] idx] validate_only_enabled by blast
  then show ?thesis
    using replay_answers [OF assms, where sch = sch and m = m] unfolding answers_def by blast
qed

lemma replay_total_and_exact_witness:
  "validate_replay_step two_locks (initial_state two_locks SC) (Step 1 0 None) 0 = Inr () \<and>
   validate_replay_step two_locks (initial_state two_locks SC) (Step 0 1 None) 0 \<noteq> Inr ()"
proof -
  have run: "run two_locks [] (initial_state two_locks SC) = Some (initial_state two_locks SC)"
    by simp
  have "Step 1 0 None \<in> set (enabled_steps two_locks (initial_state two_locks SC))"
    "Step 0 1 None \<notin> set (enabled_steps two_locks (initial_state two_locks SC))" by code_simp+
  then show ?thesis using replay_total_and_exact [OF two_locks_explorable] run by blast
qed

section \<open>The naive explorer\<close>

text \<open>
  C9. \<open>explore_naive\<close> returns: for every memory model, cap and step bound the search ends, all
  its assertions hold, and minimizing its reports never fails to preserve their identity (the
  \<open>std::logic_error\<close> of the source). Minimization changes neither the identities of the
  reported bugs nor the counts.
\<close>

theorem explore_naive_returns:
  assumes "explorable p b"
  shows "\<exists>found r. dfs_from_start p mx b m = Inr found \<and> explore_naive p mx b m = Inr r \<and>
    identities_of r = identities_of found \<and>
    schedules_explored r = schedules_explored found \<and>
    bound_exceeded_executions r = bound_exceeded_executions found \<and>
    exploration_capped r = exploration_capped found"
  using explore_naive_minimizes [OF assms] unfolding same_outcome_def by blast

lemma explore_naive_returns_witness: "\<exists>r. explore_naive two_locks 100 3 SC = Inr r"
  using explore_naive_returns [OF two_locks_explorable] by blast

text \<open>
  C10. The naive explorer is exhaustive, cycle cut included: when it was neither capped nor
  stopped by the step bound, a deadlock, a model error or a failed assertion of any run of the
  program is reported.
\<close>

theorem explore_naive_exhaustive:
  assumes "explorable p b" and "explore_naive p mx b m = Inr r"
    and "\<not> exploration_capped r" "bound_exceeded_executions r = 0"
    and "run p steps (initial_state p m) = Some s"
  shows "(enabled_steps p s = [] \<and> \<not> all_finished p s \<longrightarrow> first_deadlock r \<noteq> None) \<and>
    (\<forall>x s' q. x \<in> set (enabled_steps p s) \<longrightarrow> execute_enabled_step p s x = Inr (s', q) \<longrightarrow>
       (sr_error q \<noteq> None \<longrightarrow> first_error r \<noteq> None) \<and>
       (sr_assertion q \<noteq> None \<longrightarrow> first_assertion r \<noteq> None))"
  using explore_naive_complete [OF assms] .

lemma explore_naive_exhaustive_witness:
  "\<exists>r. explore_naive two_locks 100 3 SC = Inr r \<and> first_deadlock r \<noteq> None"
proof -
  have "case dfs_from_start two_locks 100 3 SC of
      Inl _ \<Rightarrow> False | Inr r \<Rightarrow> \<not> exploration_capped r \<and> bound_exceeded_executions r = 0"
    by code_simp
  then obtain r where r: "explore_naive two_locks 100 3 SC = Inr r"
      "\<not> exploration_capped r" "bound_exceeded_executions r = 0"
    using explore_naive_minimizes [OF two_locks_explorable, where mx = 100 and m = SC]
    by (auto simp: same_outcome_def split: sum.splits)
  have "case run two_locks [Step 1 0 None] (initial_state two_locks SC) of
      None \<Rightarrow> False | Some s \<Rightarrow> enabled_steps two_locks s = [] \<and> \<not> all_finished two_locks s"
    by code_simp
  then obtain s where s: "run two_locks [Step 1 0 None] (initial_state two_locks SC) = Some s"
      "enabled_steps two_locks s = []" "\<not> all_finished two_locks s" by (auto split: option.splits)
  show ?thesis
    using explore_naive_exhaustive [OF two_locks_explorable r s(1)] s(2,3) r(1) by blast
qed

text \<open>
  C11. What the naive explorer reports is real: replaying the schedule of a reported race,
  deadlock, error, assertion failure or lasso returns that very report.
\<close>

theorem explore_naive_reports_replay:
  assumes "explorable p b" and "explore_naive p mx b m = Inr r"
  shows "(\<forall>c. first_race r = Some c \<longrightarrow>
      (\<exists>q. replay_schedule p (r_schedule c) b m = Inr q \<and> first_race q = Some c)) \<and>
    (\<forall>dl. first_deadlock r = Some dl \<longrightarrow>
      (\<exists>q. replay_schedule p (dl_schedule dl) b m = Inr q \<and> first_deadlock q = Some dl)) \<and>
    (\<forall>e. first_error r = Some e \<longrightarrow>
      (\<exists>q. replay_schedule p (me_schedule e) b m = Inr q \<and> first_error q = Some e)) \<and>
    (\<forall>f. first_assertion r = Some f \<longrightarrow>
      (\<exists>q. replay_schedule p (af_schedule f) b m = Inr q \<and> first_assertion q = Some f)) \<and>
    (\<forall>n. first_nontermination r = Some n \<longrightarrow>
      (\<exists>q. replay_schedule p (nt_schedule n) b m = Inr q \<and> first_nontermination q = Some n))"
  using explore_naive_replays [OF assms] by blast

lemma explore_naive_reports_replay_witness:
  "\<exists>r. explore_naive two_locks 100 3 SC = Inr r \<and>
     (\<forall>dl. first_deadlock r = Some dl \<longrightarrow>
        (\<exists>q. replay_schedule two_locks (dl_schedule dl) 3 SC = Inr q \<and> first_deadlock q = Some dl))"
proof -
  obtain r where r: "explore_naive two_locks 100 3 SC = Inr r"
    using explore_naive_minimizes [OF two_locks_explorable, where mx = 100 and m = SC] by blast
  show ?thesis using explore_naive_reports_replay [OF two_locks_explorable r] r by blast
qed

text \<open>
  C12. Minimization ends with a schedule that still reproduces the bug, keeps a prefix of every
  thread's steps, and is minimal: erasing the last step of any one thread that is not an
  endpoint of the report no longer reproduces it.
\<close>

theorem minimization_correct:
  assumes "explorable p b" and "reproduces p b m target sch"
  shows "\<exists>sch'. minimize_schedule_for_identities p sch target b m = Inr sch' \<and>
    reproduces p b m target sch' \<and>
    (\<forall>t. prefix (per_thread t sch') (per_thread t sch)) \<and>
    (\<forall>t c. t < length p \<longrightarrow> candidate_without target sch' t = Some c \<longrightarrow>
       \<not> reproduces p b m target c)"
proof -
  obtain sch' where sch': "minimize_schedule_for_identities p sch target b m = Inr sch'"
    using minimizer_returns [OF assms(1)] by blast
  show ?thesis
    using sch' minimize_reproduces [OF sch' assms(2)] minimize_prefix [OF sch']
      minimize_minimal [OF sch'] by blast
qed

definition failed_assertion :: bug_identity_set where
  "failed_assertion =
     no_identities\<lparr>bi_assertion := Some \<lparr>ai_endpoint = Step 1 1 None, ai_reg = 0, ai_value = 0\<rparr>\<rparr>"

lemma minimization_correct_witness:
  "\<exists>sch'. minimize_schedule_for_identities early_assert
       [Step 1 0 None, Step 0 0 None, Step 1 1 None] failed_assertion 2 SC = Inr sch' \<and>
     reproduces early_assert 2 SC failed_assertion sch'"
proof -
  have "case replay_schedule early_assert [Step 1 0 None, Step 0 0 None, Step 1 1 None] 2 SC of
      Inl _ \<Rightarrow> False | Inr r \<Rightarrow> reproduces_identities r failed_assertion"
    by code_simp
  then have "reproduces early_assert 2 SC failed_assertion
      [Step 1 0 None, Step 0 0 None, Step 1 1 None]"
    by (auto simp: reproduces_def split: sum.splits)
  from minimization_correct [OF early_assert_explorable this] show ?thesis by blast
qed

section \<open>Happens-before\<close>

text \<open>
  Vector clocks form a lattice under \<open>happens_before_or_equal\<close>: joining is the least upper
  bound, and a ticked clock is strictly above the clock it came from.
\<close>

lemma clock_join_is_least_upper_bound:
  "(vc_hb (vc_join c d) e \<longleftrightarrow> vc_hb c e \<and> vc_hb d e) \<and>
   vc_hb c (vc_tick t c) \<and> \<not> vc_hb (vc_tick t c) c"
  using vc.join_hb_iff vc.tick_above vc.tick_not_below by blast

section \<open>Independence\<close>

text \<open>
  C13. The independence relation of the DPOR explorer is sound: two transitions that are enabled
  in a state of a run, and that \<open>transitions_independent_at_node\<close> declares independent at the
  node of that state, commute. Each is enabled after the other and still reports an error or a
  failed assertion exactly if it did before, and both orders lead to the same behavioural
  fingerprint. This covers the cases in which the steps share an object: posts of one semaphore,
  arrivals that do not fill their barrier, attempts at a taken mutex, readers of one lock, and
  under PSO the flushes of one thread.
\<close>

theorem independent_steps_commute:
  assumes "indexable p" "registers_ok p" "run p steps (initial_state p m) = Some s"
    and "length steps + 2 \<le> counter_limit"
    and "x \<in> set (enabled_steps p s)" "y \<in> set (enabled_steps p s)" "x \<noteq> y"
    and "transitions_independent_at_node p m (dpor_node_for p s sleep_set)
      (enabled_as_transition x (enabled_transition_for p s x))
      (enabled_as_transition y (enabled_transition_for p s y))"
  shows "\<exists>s1 r s2 q s12 q' s21 r'.
    execute_enabled_step p s x = Inr (s1, r) \<and> y \<in> set (enabled_steps p s1) \<and>
    execute_enabled_step p s1 y = Inr (s12, q') \<and>
    execute_enabled_step p s y = Inr (s2, q) \<and> x \<in> set (enabled_steps p s2) \<and>
    execute_enabled_step p s2 x = Inr (s21, r') \<and>
    same_kind r r' \<and> same_kind q q' \<and>
    behavioral_state_fingerprint s12 = behavioral_state_fingerprint s21"
proof -
  note room = room_for_run [OF assms(1-4)]
  have "wf_state p s" using room(1) by (simp add: room_for_def)
  with assms(1) room(3) assms(5-8) have "commute_at p s x y"
    unfolding room(2) [symmetric] by (intro independent_commute)
  then show ?thesis by (rule commute_in_room [OF room(1) assms(5,6)])
qed

text \<open>Two threads that post to one semaphore.\<close>

definition two_posts :: program where
  "two_posts =
     [[default_action\<lparr>a_kind := SemPost, a_semaphore := ''s''\<rparr>],
      [default_action\<lparr>a_kind := SemPost, a_semaphore := ''s''\<rparr>]]"

lemma two_posts_independent:
  "indexable two_posts" "registers_ok two_posts"
  "Step 0 0 None \<in> set (enabled_steps two_posts (initial_state two_posts SC))"
  "Step 1 0 None \<in> set (enabled_steps two_posts (initial_state two_posts SC))"
  "independent_at two_posts SC (initial_state two_posts SC) (Step 0 0 None) (Step 1 0 None)"
  by code_simp+

lemma independent_steps_commute_witness:
  "\<exists>s1 r s12 q' s2 q s21 r'.
    execute_enabled_step two_posts (initial_state two_posts SC) (Step 0 0 None) = Inr (s1, r) \<and>
    execute_enabled_step two_posts s1 (Step 1 0 None) = Inr (s12, q') \<and>
    execute_enabled_step two_posts (initial_state two_posts SC) (Step 1 0 None) = Inr (s2, q) \<and>
    execute_enabled_step two_posts s2 (Step 0 0 None) = Inr (s21, r') \<and>
    behavioral_state_fingerprint s12 = behavioral_state_fingerprint s21"
proof -
  have start: "run two_posts [] (initial_state two_posts SC) = Some (initial_state two_posts SC)"
    "length ([] :: schedule) + 2 \<le> counter_limit" "Step 0 0 None \<noteq> Step 1 0 None"
    by (simp_all add: counter_limit_def)
  show ?thesis
    using independent_steps_commute [OF two_posts_independent(1,2) start(1,2) two_posts_independent(3,4) start(3)
        two_posts_independent(5) [unfolded independent_at_def]] by blast
qed

text \<open>
  C14. Schedules that differ in the order of independent steps are interchangeable: from a run,
  any sequence of swaps of neighbours that were both enabled and independent where they met gives
  a schedule that runs as well, without an error or a failed assertion on the way, and that ends
  in the same behavioural fingerprint with the same enabled steps.
\<close>

theorem reordered_schedules_meet:
  assumes "indexable p" "registers_ok p" "length us \<le> counter_limit"
    and "run p us (initial_state p m) = Some s" "reordering p m us vs"
  shows "\<exists>t. run p vs (initial_state p m) = Some t \<and> enabled_steps p t = enabled_steps p s \<and>
    behavioral_state_fingerprint t = behavioral_state_fingerprint s"
proof -
  obtain t where "run p vs (initial_state p m) = Some t" "sim s t"
    using reordering_meets [OF assms(5,1-4)] by blast
  then show ?thesis using sim_fingerprint sim_enabled_steps by metis
qed

lemma reordered_schedules_meet_witness:
  "\<exists>s t. run two_posts [Step 0 0 None, Step 1 0 None] (initial_state two_posts SC) = Some s \<and>
     run two_posts [Step 1 0 None, Step 0 0 None] (initial_state two_posts SC) = Some t \<and>
     behavioral_state_fingerprint t = behavioral_state_fingerprint s"
proof -
  define us where "us = [Step 0 0 None, Step 1 0 None]"
  have swapped: "reordering two_posts SC us [Step 1 0 None, Step 0 0 None]"
    using reordering.swap [where xs = "[]" and zs = "[]" and x = "Step 0 0 None" and y = "Step 1 0 None"
        and us = us and p = two_posts and m = SC] reordering.same [where us = us and p = two_posts and m = SC]
      two_posts_independent(4,5) by (simp add: us_def)
  have "run two_posts [Step 0 0 None, Step 1 0 None] (initial_state two_posts SC) \<noteq> None"
    by code_simp
  then obtain s where s: "run two_posts us (initial_state two_posts SC) = Some s"
    unfolding us_def by blast
  have "length us \<le> counter_limit" by (simp add: us_def counter_limit_def)
  from reordered_schedules_meet [OF two_posts_independent(1,2) this s swapped] show ?thesis
    using s unfolding us_def by blast
qed

section \<open>The DPOR explorer\<close>

text \<open>
  C15. \<open>explore_dpor\<close> returns: its fuel covers the recursion, no assertion fails, the
  minimized reports are the bugs found, and the result is marked as capped exactly when the
  schedule budget is used up.
\<close>

theorem explore_dpor_returns:
  assumes "explorable p b"
  shows "\<exists>found r. dpor_result p mx b m = Inr found \<and> explore_dpor p mx b m = Inr r \<and>
    identities_of r = identities_of found \<and>
    schedules_explored r = schedules_explored found \<and>
    (exploration_capped r \<longleftrightarrow> mx \<le> schedules_explored r)"
  using explore_dpor_minimizes [OF assms, where mx = mx and m = m] unfolding same_outcome_def by auto

lemma explore_dpor_returns_witness: "\<exists>r. explore_dpor two_locks 100 3 SC = Inr r"
  using explore_dpor_returns [OF two_locks_explorable] by blast

text \<open>
  C16. What the DPOR explorer reports is real: replaying the schedule of a reported race,
  deadlock, error, assertion failure or lasso returns that very report.
\<close>

theorem explore_dpor_reports_replay:
  assumes "explorable p b" and "explore_dpor p mx b m = Inr r"
  shows "(\<forall>c. first_race r = Some c \<longrightarrow>
      (\<exists>q. replay_schedule p (r_schedule c) b m = Inr q \<and> first_race q = Some c)) \<and>
    (\<forall>dl. first_deadlock r = Some dl \<longrightarrow>
      (\<exists>q. replay_schedule p (dl_schedule dl) b m = Inr q \<and> first_deadlock q = Some dl)) \<and>
    (\<forall>e. first_error r = Some e \<longrightarrow>
      (\<exists>q. replay_schedule p (me_schedule e) b m = Inr q \<and> first_error q = Some e)) \<and>
    (\<forall>f. first_assertion r = Some f \<longrightarrow>
      (\<exists>q. replay_schedule p (af_schedule f) b m = Inr q \<and> first_assertion q = Some f)) \<and>
    (\<forall>n. first_nontermination r = Some n \<longrightarrow>
      (\<exists>q. replay_schedule p (nt_schedule n) b m = Inr q \<and> first_nontermination q = Some n))"
  using explore_dpor_replays [OF assms] by blast

lemma explore_dpor_reports_replay_witness:
  "\<exists>r. explore_dpor two_locks 100 3 SC = Inr r \<and>
     (\<forall>dl. first_deadlock r = Some dl \<longrightarrow>
        (\<exists>q. replay_schedule two_locks (dl_schedule dl) 3 SC = Inr q \<and> first_deadlock q = Some dl))"
proof -
  obtain r where r: "explore_dpor two_locks 100 3 SC = Inr r"
    using explore_dpor_minimizes [OF two_locks_explorable] by blast
  show ?thesis using explore_dpor_reports_replay [OF two_locks_explorable r] r by blast
qed

text \<open>
  C17. The naive collector enumerates the executions below the step bound: it returns, every
  schedule it lists is complete, the list is strictly ascending in the lexicographic order (so
  that the exporter may search it by bisection, and none is listed twice), and it is exhaustive
  when the budget was not used up.
\<close>

theorem naive_collector_exact:
  assumes "explorable p b"
  shows "\<exists>ss. collect_naive_schedules p mx b m = Inr ss \<and> ascending ss \<and>
    (\<forall>sch\<in>set ss. complete_schedule p m b sch) \<and>
    (length ss < mx \<longrightarrow> set ss = {sch. complete_schedule p m b sch})"
  by (rule collect_naive_completes [OF assms])

lemma naive_collector_exact_witness:
  "\<exists>ss. collect_naive_schedules two_locks 100 3 SC = Inr ss \<and> ascending ss"
  using naive_collector_exact [OF two_locks_explorable] by blast

lemma dpor_explores_no_more:
  assumes "explorable p b" and "explore_naive p mx b m = Inr r" "schedules_explored r < mx"
    and "explore_dpor p my b m = Inr r'"
  shows "schedules_explored r = card {sch. complete_schedule p m b sch} \<and>
    schedules_explored r' \<le> schedules_explored r"
proof -
  obtain r0 where r0: "dfs_from_start p mx b m = Inr r0" "schedules_explored r = schedules_explored r0"
    using explore_naive_minimizes [OF assms(1), where mx = mx and m = m] assms(2) by (auto simp: same_outcome_def)
  have all: "finite {sch. complete_schedule p m b sch}"
      "schedules_explored r = card {sch. complete_schedule p m b sch}"
    using naive_counts_executions [OF assms(1) r0(1)] assms(3) r0(2) by simp_all
  obtain r1 where r1: "dpor_result p my b m = Inr r1" "schedules_explored r' = schedules_explored r1"
    using explore_dpor_minimizes [OF assms(1), where mx = my and m = m] assms(4) by (auto simp: same_outcome_def)
  obtain ss where ss: "distinct ss" "set ss \<subseteq> {sch. complete_schedule p m b sch}"
      "length ss = schedules_explored r'"
    using dpor_counts_executions [OF assms(1) r1(1)] r1(2) by auto
  then show ?thesis using all card_mono [OF all(1) ss(2)] distinct_card [OF ss(1)] by simp
qed

text \<open>
  C18. The DPOR collector returns (the assertion that the schedules match the count holds),
  lists no schedule twice, and explores only executions that the naive collector lists. When the
  naive exploration was not capped, its count is the number of executions below the step bound,
  and the count of the DPOR exploration is at most that.
\<close>

theorem dpor_collects_naive_schedules:
  assumes "explorable p b" and "collect_naive_schedules p mx b m = Inr naive"
    and "length naive < mx"
  shows "(\<exists>ss. collect_dpor_schedules p my b m = Inr ss \<and> distinct ss \<and> set ss \<subseteq> set naive) \<and>
    (\<forall>r r'. explore_naive p mx b m = Inr r \<longrightarrow> schedules_explored r < mx \<longrightarrow>
       explore_dpor p my b m = Inr r' \<longrightarrow>
       schedules_explored r = card {sch. complete_schedule p m b sch} \<and>
       schedules_explored r' \<le> schedules_explored r)"
proof -
  have "set naive = {sch. complete_schedule p m b sch}"
    using collect_naive_completes [OF assms(1), where mx = mx and m = m] assms(2,3) by auto
  then have "\<exists>ss. collect_dpor_schedules p my b m = Inr ss \<and> distinct ss \<and> set ss \<subseteq> set naive"
    using collect_dpor_completes [OF assms(1), where mx = my and m = m] by auto
  then show ?thesis using dpor_explores_no_more [OF assms(1)] by blast
qed

lemma dpor_collects_naive_schedules_witness:
  "\<exists>ss naive r r'. collect_dpor_schedules two_locks 100 3 SC = Inr ss \<and>
     collect_naive_schedules two_locks 100 3 SC = Inr naive \<and> set ss \<subseteq> set naive \<and>
     explore_naive two_locks 100 3 SC = Inr r \<and> explore_dpor two_locks 100 3 SC = Inr r' \<and>
     schedules_explored r' \<le> schedules_explored r"
proof -
  have "case collect_naive_schedules two_locks 100 3 SC of Inl _ \<Rightarrow> False | Inr ss \<Rightarrow> length ss < 100"
    by code_simp
  then obtain naive where n: "collect_naive_schedules two_locks 100 3 SC = Inr naive" "length naive < 100"
    by (auto split: sum.splits)
  have "case dfs_from_start two_locks 100 3 SC of Inl _ \<Rightarrow> False | Inr r \<Rightarrow> schedules_explored r < 100"
    by code_simp
  then obtain r where r: "explore_naive two_locks 100 3 SC = Inr r" "schedules_explored r < 100"
    using explore_naive_minimizes [OF two_locks_explorable, where mx = 100 and m = SC]
    by (auto simp: same_outcome_def split: sum.splits)
  obtain r' where r': "explore_dpor two_locks 100 3 SC = Inr r'"
    using explore_dpor_minimizes [OF two_locks_explorable] by blast
  show ?thesis
    using dpor_collects_naive_schedules [OF two_locks_explorable n] r r' n(1) by blast
qed




text \<open>
  C21. The recursion of the searches leaves no trace: whatever the naive search explored below a
  node, the shared path history is as it found it, so that a later sibling observes only its own
  path; and when the DPOR search ends, the node stack and the trace are empty and the path history
  is the initial one.
\<close>

theorem searches_restore:
  assumes "explorable p b"
  shows "(\<forall>n d s r h r' h'. dfs n p mx b d s (r, h) = Inr (r', h') \<longrightarrow> h' = h) \<and>
    (\<forall>ds. dpor_search_from_start p mx b m collect = Inr ds \<longrightarrow>
       ds_nodes ds = [] \<and> ds_trace ds = [] \<and> ds_history ds = initial_history p (initial_state p m))"
proof (intro conjI allI impI)
  show "h' = h" if "dfs n p mx b d s (r, h) = Inr (r', h')" for n d s r h r' h'
    using dfs_explores [OF that] by blast
  fix ds assume ds: "dpor_search_from_start p mx b m collect = Inr ds"
  show "ds_nodes ds = []" "ds_trace ds = []" "ds_history ds = initial_history p (initial_state p m)"
    using dpor_search_clean [OF assms ds] by blast+
qed

lemma searches_restore_witness:
  "\<exists>ds. dpor_search_from_start early_assert 100 2 SC True = Inr ds \<and> ds_nodes ds = []"
proof -
  obtain ds where ds: "dpor_search_from_start early_assert 100 2 SC True = Inr ds"
    using dpor_search_completes [OF early_assert_explorable] by blast
  then show ?thesis using searches_restore [OF early_assert_explorable] by blast
qed

section \<open>Inspection and construction\<close>

text \<open>
  C22. \<open>replay_effective_trace\<close> and \<open>inspect_schedule\<close> follow \<open>replay\<close>: they return for the
  same schedules and fail with the same exception, and the effective trace is the inspection of
  the executed steps.
\<close>

theorem inspection_follows_replay:
  assumes "explorable p b"
  shows "verdict (replay_effective_trace p sch b m) = verdict (replay_schedule p sch b m) \<and>
    verdict (inspect_replay_schedule p sch b m) = verdict (replay_schedule p sch b m) \<and>
    (\<forall>steps. inspect_replay_schedule p sch b m = Inr steps \<longrightarrow>
       replay_effective_trace p sch b m = Inr (effective_part steps))"
  using replay_verdicts [OF assms] effective_part_loop
  by (auto simp: inspect_replay_schedule_def replay_effective_trace_def Let_def)

lemma inspection_follows_replay_witness:
  "verdict (inspect_replay_schedule two_locks [Step 1 0 None, Step 0 0 None] 3 SC) =
   verdict (replay_schedule two_locks [Step 1 0 None, Step 0 0 None] 3 SC)"
  using inspection_follows_replay [OF two_locks_explorable] by blast

text \<open>
  C23. The effects an inspection lists are complete: applied in order to the registers, memory
  and store buffers of the initial state, they give those of the final state.
\<close>

theorem inspected_effects_rebuild_state:
  assumes "inspect_replay_schedule p sch b m = Inr steps" and "list_all is_executed steps"
    and "run p sch (initial_state p m) = Some s"
  shows "same_view p (fold apply_effects steps (view_of (initial_state p m))) (view_of s)"
  using effects_rebuild [OF _ assms(3,2)] assms(1)
  by (simp add: inspect_replay_schedule_def Let_def same_view_def)

definition two_writes :: schedule where
  "two_writes = [Step 0 0 None, Step 0 1 None]"

lemma inspected_effects_rebuild_state_witness:
  "\<exists>steps s. inspect_replay_schedule two_locks two_writes 3 TSO = Inr steps \<and>
     run two_locks two_writes (initial_state two_locks TSO) = Some s \<and>
     same_view two_locks (fold apply_effects steps (view_of (initial_state two_locks TSO))) (view_of s)"
proof -
  have "case inspect_replay_schedule two_locks two_writes 3 TSO of
      Inl _ \<Rightarrow> False | Inr steps \<Rightarrow> list_all is_executed steps"
    by code_simp
  then obtain steps where steps: "inspect_replay_schedule two_locks two_writes 3 TSO = Inr steps"
      "list_all is_executed steps" by (auto split: sum.splits)
  have "run two_locks two_writes (initial_state two_locks TSO) \<noteq> None" by code_simp
  then obtain s where s: "run two_locks two_writes (initial_state two_locks TSO) = Some s" by blast
  show ?thesis using inspected_effects_rebuild_state [OF steps s] steps(1) s by blast
qed

text \<open>
  C24. The constructor accepts exactly a positive step bound and a program that keeps its kinds
  of names apart (a condition variable may share a name with anything but a barrier), and
  rejects everything else as an invalid argument.
\<close>

theorem constructor_separates_names:
  "(make_model_checker p b m = Inr mc \<longleftrightarrow>
      0 < b \<and> names_apart p \<and> mc = \<lparr>mc_program = p, mc_step_bound = b, mc_memory_model = m\<rparr>) \<and>
   (\<not> (0 < b \<and> names_apart p) \<longrightarrow> (\<exists>msg. make_model_checker p b m = Inl (Invalid_Argument msg)))"
proof -
  have "\<exists>msg. make_model_checker p b m = Inl (Invalid_Argument msg)" if "\<not> (0 < b \<and> names_apart p)"
    using that constructor_accepts [of p b m] constructor_rejects [of p b m]
    by (cases "make_model_checker p b m") auto
  then show ?thesis using constructor_accepts by blast
qed

text \<open>A program that uses one name as a mutex and as a barrier.\<close>

definition one_name :: program where
  "one_name =
     [[default_action\<lparr>a_kind := Lock, a_mutex := ''m''\<rparr>],
      [default_action\<lparr>a_kind := BarrierWait, a_barrier := ''m'', a_parties := 1\<rparr>]]"

lemma constructor_separates_names_witness:
  "\<exists>msg. make_model_checker one_name 5 SC = Inl (Invalid_Argument msg)"
proof -
  have "omember ''m'' (un_mutexes (names_of one_name)) \<and>
      omember ''m'' (un_barriers (names_of one_name))"
    by code_simp
  then have "''m'' \<in> mutexes_in one_name" "''m'' \<in> barriers_in one_name"
    by (simp_all only: omember_names)
  then have "\<not> names_apart one_name" by (auto simp: names_apart_def)
  then show ?thesis using constructor_separates_names [of one_name 5 SC] by blast
qed

section \<open>Data races\<close>

text \<open>Two threads that use one address without synchronisation.\<close>

definition write_read :: program where
  "write_read =
     [[default_action\<lparr>a_kind := Write, a_address := ''x'', a_value := Some (Immediate 1)\<rparr>],
      [default_action\<lparr>a_kind := Read, a_address := ''x''\<rparr>]]"

text \<open>
  C35. The race detector agrees with the definition of a data race on the whole history. What a
  step reports are two accesses of one address, the second its own, that are unordered by
  happens-before, not both atomic, and one of them a write. Conversely, in a program without a
  backward branch, from a state without a data race a step reports one exactly when it makes one:
  it is enough to look at the last plain write, the plain reads since then and the atomic
  accesses.
\<close>

theorem race_detector_exact:
  assumes "indexable p" and "run p steps (initial_state p m) = Some s"
    and "x \<in> set (enabled_steps p s)" and "execute_enabled_step p s x = Inr (s', q)"
  shows "(\<forall>c. sr_race q = Some c \<longrightarrow>
      (\<exists>u v. u \<in> set (accesses s' (r_address c)) \<and> v \<in> set (accesses s' (r_address c)) \<and> racy u v \<and>
         r_first c = m_endpoint u \<and> r_second c = m_endpoint v \<and> m_endpoint v = x)) \<and>
    (\<not> requires_cycle_detection p \<longrightarrow> \<not> has_data_race s \<longrightarrow>
      (sr_race q = None \<longleftrightarrow> \<not> has_data_race s'))"
  using race_step_sound [OF assms(4)] race_step_exact [OF assms(4)] run_records [OF assms(2)]
    run_summaries [OF assms(1) _ assms(2)] by blast

lemma race_detector_exact_witness:
  "\<exists>s s' q. run write_read [Step 0 0 None] (initial_state write_read SC) = Some s \<and>
     execute_enabled_step write_read s (Step 1 0 None) = Inr (s', q) \<and>
     (\<exists>u v. u \<in> set (accesses s' ''x'') \<and> v \<in> set (accesses s' ''x'') \<and> racy u v)"
proof -
  have "case run write_read [Step 0 0 None] (initial_state write_read SC) of
      None \<Rightarrow> False
    | Some s \<Rightarrow> Step 1 0 None \<in> set (enabled_steps write_read s) \<and>
        (case execute_enabled_step write_read s (Step 1 0 None) of
           Inl _ \<Rightarrow> False
         | Inr (s', q) \<Rightarrow> map_option r_address (sr_race q) = Some ''x'')"
    by code_simp
  then obtain s s' q where s: "run write_read [Step 0 0 None] (initial_state write_read SC) = Some s"
      "Step 1 0 None \<in> set (enabled_steps write_read s)"
      "execute_enabled_step write_read s (Step 1 0 None) = Inr (s', q)"
      "map_option r_address (sr_race q) = Some ''x''"
    by (auto split: option.splits sum.splits)
  then obtain c where c: "sr_race q = Some c" "r_address c = ''x''" by blast
  have "indexable write_read" by code_simp
  from race_detector_exact [OF this s(1-3)] c(1)
  have "\<exists>u v. u \<in> set (accesses s' (r_address c)) \<and> v \<in> set (accesses s' (r_address c)) \<and> racy u v"
    by blast
  then show ?thesis using s(1,3) unfolding c(2) by blast
qed

text \<open>
  C36. Races at the level of an exploration. What either explorer reports as a race happens: some
  execution makes two racing accesses. And for a program without a backward branch the naive
  explorer misses no data race: when it was neither capped nor stopped by the step bound, it
  reports one exactly when some execution has one.
\<close>

theorem reported_races_happen:
  assumes "explorable p b"
  shows "(\<forall>mx r. explore_dpor p mx b m = Inr r \<longrightarrow> first_race r \<noteq> None \<longrightarrow> can_race p m) \<and>
    (\<forall>mx r. explore_naive p mx b m = Inr r \<longrightarrow> first_race r \<noteq> None \<longrightarrow> can_race p m) \<and>
    (\<forall>mx r. \<not> requires_cycle_detection p \<longrightarrow> explore_naive p mx b m = Inr r \<longrightarrow>
       \<not> exploration_capped r \<longrightarrow> bound_exceeded_executions r = 0 \<longrightarrow> can_race p m \<longrightarrow> first_race r \<noteq> None)"
proof -
  have idx: "indexable p" using assms by (simp add: explorable_def)
  have "can_race p m" if "explore_dpor p mx b m = Inr r" "first_race r \<noteq> None" for mx r
    using explore_dpor_replays(1) [OF assms that(1)] that(2) replayed_race_happens [OF idx] by blast
  moreover have "can_race p m" if "explore_naive p mx b m = Inr r" "first_race r \<noteq> None" for mx r
    using explore_naive_replays(1) [OF assms that(1)] that(2) replayed_race_happens [OF idx] by blast
  moreover have "first_race r \<noteq> None"
    if "\<not> requires_cycle_detection p" "explore_naive p mx b m = Inr r" "\<not> exploration_capped r"
      "bound_exceeded_executions r = 0" "can_race p m" for mx r
    using can_race_reports [OF idx that(1,5)] naive_reports_race [OF assms that(1-4)] by blast
  ultimately show ?thesis by blast
qed

lemma reported_races_happen_witness: "can_race write_read TSO"
proof -
  have "explorable write_read 3" by code_simp
  moreover have "case explore_dpor write_read 100 3 TSO of Inl _ \<Rightarrow> False | Inr r \<Rightarrow> first_race r \<noteq> None"
    by code_simp
  then obtain r where "explore_dpor write_read 100 3 TSO = Inr r" "first_race r \<noteq> None"
    by (auto split: sum.splits)
  ultimately show ?thesis using reported_races_happen by blast
qed

end
